(* ===== verification/Prelude.thy ===== *)
theory Prelude
  imports Main "HOL-Library.Word"
begin

text \<open>
  Shared material of the development: the machine types of the sources, little-endian byte
  sequences (the representation every binary format of the sources uses in memory), the
  collections of simplification rules, and generic facts on lists that the components share.
\<close>

unbundle bit_operations_syntax

type_synonym byte = "8 word"
type_synonym bytes = "8 word list"

named_theorems le_simps \<open>little-endian encoding and decoding\<close>
named_theorems mem_simps \<open>reads and writes of byte ranges\<close>

section \<open>Bytes of a machine integer\<close>

text \<open>
  Character constants of the C sources: \<open>chr CHR ''0''\<close> is the byte \<open>'0'\<close>.
\<close>

abbreviation chr :: "char \<Rightarrow> byte" where
  "chr c \<equiv> of_char c"

text \<open>The bytes of a string constant, and \<^verbatim>\<open>tolower\<close> of the C locale.\<close>

definition ctext :: "string \<Rightarrow> bytes" where
  "ctext s = map of_char s"

definition tolower :: "byte \<Rightarrow> byte" where
  "tolower c = (if 65 \<le> c \<and> c \<le> 90 then c + 32 else c)"

text \<open>
  The bytes of an unsigned integer in memory order on a little-endian machine, and back.
\<close>

primrec le_nat :: "bytes \<Rightarrow> nat" where
  "le_nat [] = 0"
| "le_nat (b # bs) = unat b + 256 * le_nat bs"

primrec le_bytes :: "nat \<Rightarrow> nat \<Rightarrow> bytes" where
  "le_bytes 0 x = []"
| "le_bytes (Suc n) x = of_nat x # le_bytes n (x div 256)"

lemma unat_byte_less: "unat (b :: byte) < 256"
  using unsigned_less [of b] by simp

lemma length_le_bytes [simp]: "length (le_bytes n x) = n"
  by (induction n arbitrary: x) auto

lemma le_nat_le_bytes [le_simps]: "le_nat (le_bytes n x) = x mod 256 ^ n"
proof (induction n arbitrary: x)
  case (Suc n)
  have "x mod (256 * 256 ^ n) = 256 * (x div 256 mod 256 ^ n) + x mod 256"
    by (rule mod_mult2_eq)
  with Suc show ?case by (simp add: unat_of_nat)
qed simp

lemma le_nat_bound [le_simps]: "le_nat bs < 256 ^ length bs"
proof (induction bs)
  case (Cons b bs)
  have "unat b < 256" by (rule unat_byte_less)
  with Cons show ?case by simp
qed simp

lemma le_bytes_le_nat [le_simps]: "length bs = n \<Longrightarrow> le_bytes n (le_nat bs) = bs"
proof (induction bs arbitrary: n)
  case (Cons b bs)
  have "unat b < 256" by (rule unat_byte_less)
  then have "(unat b + 256 * le_nat bs) div 256 = le_nat bs" by simp
  moreover have "(of_nat (unat b + 256 * le_nat bs) :: byte) = b"
    using \<open>unat b < 256\<close>
    by (simp add: word_unat_eq_iff unat_of_nat del: of_nat_add of_nat_mult)
  ultimately show ?case using Cons by auto
qed simp

lemma le_nat_append [le_simps]: "le_nat (xs @ ys) = le_nat xs + 256 ^ length xs * le_nat ys"
  by (induction xs) (simp_all add: algebra_simps)

lemma le_nat_inj: "length xs = length ys \<Longrightarrow> le_nat xs = le_nat ys \<Longrightarrow> xs = ys"
  by (metis le_bytes_le_nat)

text \<open>Two's complement: the bytes of a signed integer, and the signed reading of bytes.\<close>

definition sle_bytes :: "nat \<Rightarrow> int \<Rightarrow> bytes" where
  "sle_bytes n v = le_bytes n (nat (v mod 256 ^ n))"

definition sle_int :: "bytes \<Rightarrow> int" where
  "sle_int bs =
     (let u = int (le_nat bs) in if 2 * u < 256 ^ length bs then u else u - 256 ^ length bs)"

definition sfits :: "nat \<Rightarrow> int \<Rightarrow> bool" where
  "sfits n v \<longleftrightarrow> - (256 ^ n) \<le> 2 * v \<and> 2 * v < 256 ^ n"

lemma length_sle_bytes [simp]: "length (sle_bytes n v) = n"
  by (simp add: sle_bytes_def)

lemma sle_int_sle_bytes [le_simps]:
  assumes "sfits n v"
  shows "sle_int (sle_bytes n v) = v"
proof -
  have u: "int (le_nat (sle_bytes n v)) = v mod 256 ^ n"
    by (simp add: sle_bytes_def le_nat_le_bytes zmod_int)
  show ?thesis
  proof (cases "0 \<le> v")
    case True
    with assms have "v mod 256 ^ n = v" by (simp add: sfits_def)
    with u assms True show ?thesis by (simp add: sle_int_def sfits_def)
  next
    case False
    have "(v + 256 ^ n) mod 256 ^ n = v mod 256 ^ n" by simp
    moreover from assms False have "(v + 256 ^ n) mod 256 ^ n = v + 256 ^ n"
      by (intro mod_pos_pos_trivial) (simp_all add: sfits_def)
    ultimately have "v mod 256 ^ n = v + 256 ^ n" by simp
    with u assms False show ?thesis by (simp add: sle_int_def sfits_def)
  qed
qed

lemma sle_bytes_sle_int [le_simps]:
  assumes "length bs = n"
  shows "sle_bytes n (sle_int bs) = bs"
proof -
  have b: "int (le_nat bs) < 256 ^ n"
    using le_nat_bound [of bs] assms
    by (metis of_nat_less_iff of_nat_numeral of_nat_power)
  have "sle_int bs mod 256 ^ n = int (le_nat bs) mod 256 ^ n"
    using assms by (simp add: sle_int_def Let_def)
  also have "\<dots> = int (le_nat bs)" using b by simp
  finally show ?thesis using assms by (simp add: sle_bytes_def le_bytes_le_nat)
qed

lemma sfits_sle_int: "sfits (length bs) (sle_int bs)"
proof -
  define m :: int where "m = 256 ^ length bs"
  define u where "u = int (le_nat bs)"
  have "u < m"
    using le_nat_bound [of bs] unfolding u_def m_def
    by (metis of_nat_less_iff of_nat_numeral of_nat_power)
  moreover have "0 \<le> u" by (simp add: u_def)
  ultimately have "- m \<le> 2 * (if 2 * u < m then u else u - m)
      \<and> 2 * (if 2 * u < m then u else u - m) < m"
    by auto
  then show ?thesis unfolding sle_int_def sfits_def Let_def u_def m_def .
qed

section \<open>Byte ranges of a buffer\<close>

text \<open>
  \<open>mem_read b i n\<close> is the result of \<^verbatim>\<open>memcpy(dst, b+i, n)\<close>, \<open>mem_write b i xs\<close>
  the buffer after \<^verbatim>\<open>memcpy(b+i, xs, length xs)\<close>. Both are only meaningful in range;
  \<open>mem_move\<close> is \<^verbatim>\<open>memmove(b+dst, b+src, n)\<close>, which copies as if through a
  temporary.
\<close>

definition mem_read :: "'a list \<Rightarrow> nat \<Rightarrow> nat \<Rightarrow> 'a list" where
  "mem_read b i n = take n (drop i b)"

definition mem_write :: "'a list \<Rightarrow> nat \<Rightarrow> 'a list \<Rightarrow> 'a list" where
  "mem_write b i xs = take i b @ xs @ drop (i + length xs) b"

definition mem_move :: "'a list \<Rightarrow> nat \<Rightarrow> nat \<Rightarrow> nat \<Rightarrow> 'a list" where
  "mem_move b dst src n = mem_write b dst (mem_read b src n)"

text \<open>\<^verbatim>\<open>realloc\<close>: the old prefix is kept; what the allocator hands out beyond it is a
  parameter, since its contents are not specified.\<close>

definition mem_resize :: "(nat \<Rightarrow> 'a) \<Rightarrow> nat \<Rightarrow> 'a list \<Rightarrow> 'a list" where
  "mem_resize junk n b = take n b @ map junk [length b..<n]"

lemma length_mem_write [mem_simps]:
  "i + length xs \<le> length b \<Longrightarrow> length (mem_write b i xs) = length b"
  by (simp add: mem_write_def)

lemma length_mem_read [mem_simps]: "i + n \<le> length b \<Longrightarrow> length (mem_read b i n) = n"
  by (simp add: mem_read_def)

lemma length_mem_move [mem_simps]:
  "dst + n \<le> length b \<Longrightarrow> src + n \<le> length b \<Longrightarrow> length (mem_move b dst src n) = length b"
  by (simp add: mem_move_def mem_simps)

lemma length_mem_resize [mem_simps]: "length (mem_resize junk n b) = n"
  by (auto simp: mem_resize_def)

lemma nth_mem_write:
  "i + length xs \<le> length b \<Longrightarrow> k < length b \<Longrightarrow>
   mem_write b i xs ! k = (if i \<le> k \<and> k < i + length xs then xs ! (k - i) else b ! k)"
  by (auto simp: mem_write_def nth_append)

lemma mem_read_write_same [mem_simps]:
  "i + length xs \<le> length b \<Longrightarrow> n = length xs \<Longrightarrow> mem_read (mem_write b i xs) i n = xs"
  by (simp add: mem_read_def mem_write_def)

lemma nth_mem_read: "i + n \<le> length b \<Longrightarrow> k < n \<Longrightarrow> mem_read b i n ! k = b ! (i + k)"
  by (simp add: mem_read_def)

lemma mem_read_write_disjoint [mem_simps]:
  assumes "i + length xs \<le> length b" and "j + n \<le> length b"
    and "j + n \<le> i \<or> i + length xs \<le> j"
  shows "mem_read (mem_write b i xs) j n = mem_read b j n"
proof (rule nth_equalityI)
  show "length (mem_read (mem_write b i xs) j n) = length (mem_read b j n)"
    using assms by (simp add: mem_simps)
  fix k assume "k < length (mem_read (mem_write b i xs) j n)"
  with assms have "k < n" by (simp add: mem_simps)
  with assms show "mem_read (mem_write b i xs) j n ! k = mem_read b j n ! k"
    by (auto simp: nth_mem_read nth_mem_write mem_simps)
qed

lemma nth_mem_move:
  assumes "dst + n \<le> length b" "src + n \<le> length b" "x < n"
  shows "mem_move b dst src n ! (dst + x) = b ! (src + x)"
  using assms by (simp add: mem_move_def nth_mem_write nth_mem_read mem_simps)

lemma mem_read_move:
  assumes "dst + n \<le> length b" "src + n \<le> length b" "x + m \<le> n"
  shows "mem_read (mem_move b dst src n) (dst + x) m = mem_read b (src + x) m"
proof (rule nth_equalityI)
  show "length (mem_read (mem_move b dst src n) (dst + x) m) = length (mem_read b (src + x) m)"
    using assms by (simp add: mem_simps)
  fix j assume "j < length (mem_read (mem_move b dst src n) (dst + x) m)"
  then have "j < m" using assms by (simp add: mem_simps)
  then show "mem_read (mem_move b dst src n) (dst + x) m ! j = mem_read b (src + x) m ! j"
    using assms nth_mem_move [of dst n b src "x + j"]
    by (simp add: nth_mem_read mem_simps add.assoc)
qed

end
