(* ===== verification/Endian.thy ===== *)
theory Endian
  imports Prelude
begin

text \<open>
  \<^verbatim>\<open>debug/redis/src/endianconv.c\<close>: the byte-order toggles. A buffer is a list of bytes;
  each function swaps bytes in place, one assignment after the other as in the source.
  The \<^verbatim>\<open>...ifbe\<close> macros of \<^verbatim>\<open>endianconv.h\<close> are the identity on the
  little-endian hosts this repository builds for, so the other components do not call them.
\<close>

definition memrev16 :: "bytes \<Rightarrow> bytes" where
  "memrev16 x =
     (let t = x ! 0; x = x[0 := x ! 1]; x = x[1 := t] in x)"

definition memrev32 :: "bytes \<Rightarrow> bytes" where
  "memrev32 x =
     (let t = x ! 0; x = x[0 := x ! 3]; x = x[3 := t];
          t = x ! 1; x = x[1 := x ! 2]; x = x[2 := t] in x)"

definition memrev64 :: "bytes \<Rightarrow> bytes" where
  "memrev64 x =
     (let t = x ! 0; x = x[0 := x ! 7]; x = x[7 := t];
          t = x ! 1; x = x[1 := x ! 6]; x = x[6 := t];
          t = x ! 2; x = x[2 := x ! 5]; x = x[5 := t];
          t = x ! 3; x = x[3 := x ! 4]; x = x[4 := t] in x)"

text \<open>The integer variants apply the toggle to the object representation of their argument.\<close>

definition intrev16 :: "16 word \<Rightarrow> 16 word" where
  "intrev16 v = of_nat (le_nat (memrev16 (le_bytes 2 (unat v))))"

definition intrev32 :: "32 word \<Rightarrow> 32 word" where
  "intrev32 v = of_nat (le_nat (memrev32 (le_bytes 4 (unat v))))"

definition intrev64 :: "64 word \<Rightarrow> 64 word" where
  "intrev64 v = of_nat (le_nat (memrev64 (le_bytes 8 (unat v))))"

section \<open>The toggles reverse a prefix of the buffer\<close>

lemma list_split_prefix:
  "n \<le> length xs \<Longrightarrow> \<exists>p r. xs = p @ r \<and> length p = n"
  by (metis append_take_drop_id length_take min.absorb2)

lemma memrev16_prefix: "2 \<le> length x \<Longrightarrow> memrev16 x = rev (take 2 x) @ drop 2 x"
  by (auto simp: memrev16_def Suc_le_length_iff numeral_eq_Suc)

lemma memrev32_prefix: "4 \<le> length x \<Longrightarrow> memrev32 x = rev (take 4 x) @ drop 4 x"
  by (auto simp: memrev32_def Suc_le_length_iff numeral_eq_Suc)

lemma memrev64_prefix: "8 \<le> length x \<Longrightarrow> memrev64 x = rev (take 8 x) @ drop 8 x"
  by (auto simp: memrev64_def Suc_le_length_iff numeral_eq_Suc)

text \<open>A byte-order toggle of a given width, as a contract: it reverses exactly that prefix.\<close>

locale byte_toggle =
  fixes n :: nat and rv :: "bytes \<Rightarrow> bytes"
  assumes reverses: "n \<le> length x \<Longrightarrow> rv x = rev (take n x) @ drop n x"
begin

lemma toggle_length: "n \<le> length x \<Longrightarrow> length (rv x) = length x"
  by (simp add: reverses)

lemma toggle_twice: "n \<le> length x \<Longrightarrow> rv (rv x) = x"
  by (simp add: reverses)

lemma toggle_int_twice:
  "le_nat (rv (le_bytes n (le_nat (rv (le_bytes n u))))) = u mod 256 ^ n"
  by (simp add: le_bytes_le_nat toggle_length toggle_twice le_nat_le_bytes)

end

interpretation rev16: byte_toggle 2 memrev16
  by unfold_locales (rule memrev16_prefix)

interpretation rev32: byte_toggle 4 memrev32
  by unfold_locales (rule memrev32_prefix)

interpretation rev64: byte_toggle 8 memrev64
  by unfold_locales (rule memrev64_prefix)

lemma le_nat_less_pow: "length x = n \<Longrightarrow> le_nat x < 256 ^ n"
  using le_nat_bound [of x] by simp

lemma intrev16_twice: "intrev16 (intrev16 v) = v"
proof -
  have "le_nat (memrev16 (le_bytes 2 (unat v))) < 256 ^ 2"
    by (rule le_nat_less_pow) (simp add: rev16.toggle_length)
  then have "unat (intrev16 v) = le_nat (memrev16 (le_bytes 2 (unat v)))"
    by (simp add: intrev16_def unat_of_nat)
  moreover have "unat v < 65536" using unsigned_less [of v] by simp
  ultimately show ?thesis
    by (subst intrev16_def) (simp add: rev16.toggle_int_twice)
qed

text \<open>
  Converting a 64-bit integer to the other byte order twice gives it back.
\<close>

theorem intrev64_twice: "intrev64 (intrev64 v) = v"
proof -
  have "le_nat (memrev64 (le_bytes 8 (unat v))) < 256 ^ 8"
    by (rule le_nat_less_pow) (simp add: rev64.toggle_length)
  then have "unat (intrev64 v) = le_nat (memrev64 (le_bytes 8 (unat v)))"
    by (simp add: intrev64_def unat_of_nat)
  moreover have "unat v < 18446744073709551616" using unsigned_less [of v] by simp
  ultimately show ?thesis
    by (subst intrev64_def) (simp add: rev64.toggle_int_twice)
qed

end
