(* ===== verification/Adlist.thy ===== *)
theory Adlist
  imports Prelude "HOL-Library.Monad_Syntax"
begin

text \<open>
  \<^verbatim>\<open>debug/redis/src/adlist.c\<close>: the generic doubly linked list. Nodes live in an explicit
  store (a map from addresses to nodes), because every operation rewires shared pointers.
  An operation returns \<open>None\<close> where the C code would dereference a pointer that is NULL or
  dangling. The allocator is a parameter: \<open>zmalloc s\<close> is the address it hands out in store
  \<open>s\<close>, or \<open>None\<close> for NULL, so the NULL branches of the source are branches of the model
  (\<open>Some None\<close> is a NULL return). Values are opaque; \<open>freed\<close> records the calls of
  the list's \<^verbatim>\<open>free\<close> method in order.
\<close>

type_synonym addr = nat

record 'v listNode =
  ln_prev :: "addr option"
  ln_next :: "addr option"
  ln_value :: 'v

record 'v store =
  cells :: "addr \<rightharpoonup> 'v listNode"
  freed :: "'v list"

record 'v adlist =
  al_head :: "addr option"
  al_tail :: "addr option"
  al_dup :: "('v \<Rightarrow> 'v option) option"
  al_free :: bool
  al_match :: "('v \<Rightarrow> 'v \<Rightarrow> bool) option"
  al_len :: nat

datatype direction = AL_START_HEAD | AL_START_TAIL

record listIter =
  it_next :: "addr option"
  it_direction :: direction

section \<open>Loads and stores\<close>

definition ld :: "'v store \<Rightarrow> addr \<Rightarrow> 'v listNode option" where
  "ld s a = cells s a"

definition st :: "'v store \<Rightarrow> addr \<Rightarrow> 'v listNode \<Rightarrow> 'v store" where
  "st s a nd = s\<lparr>cells := (cells s)(a \<mapsto> nd)\<rparr>"

definition set_next :: "'v store \<Rightarrow> addr \<Rightarrow> addr option \<Rightarrow> 'v store option" where
  "set_next s a v = do { nd \<leftarrow> ld s a; Some (st s a (nd\<lparr>ln_next := v\<rparr>)) }"

definition set_prev :: "'v store \<Rightarrow> addr \<Rightarrow> addr option \<Rightarrow> 'v store option" where
  "set_prev s a v = do { nd \<leftarrow> ld s a; Some (st s a (nd\<lparr>ln_prev := v\<rparr>)) }"

definition zfree :: "'v store \<Rightarrow> addr \<Rightarrow> 'v store" where
  "zfree s a = s\<lparr>cells := (cells s)(a := None)\<rparr>"

definition call_free :: "'v adlist \<Rightarrow> 'v \<Rightarrow> 'v store \<Rightarrow> 'v store" where
  "call_free l v s = (if al_free l then s\<lparr>freed := freed s @ [v]\<rparr> else s)"

section \<open>The list operations\<close>

text \<open>
  List headers and iterators are values of the model rather than cells of the store; \<open>mem\<close>
  says whether the allocation of the header succeeds.
\<close>

definition listCreate :: "bool \<Rightarrow> 'v adlist option" where
  "listCreate mem =
     (if mem then Some \<lparr>al_head = None, al_tail = None, al_dup = None, al_free = False,
        al_match = None, al_len = 0\<rparr>
      else None)"

fun listRelease_loop :: "'v adlist \<Rightarrow> nat \<Rightarrow> addr option \<Rightarrow> 'v store \<Rightarrow> 'v store option" where
  "listRelease_loop l 0 current s = Some s"
| "listRelease_loop l (Suc len) current s =
     do { a \<leftarrow> current;
          nd \<leftarrow> ld s a;
          let s = call_free l (ln_value nd) s;
          listRelease_loop l len (ln_next nd) (zfree s a) }"

definition listRelease :: "'v adlist \<Rightarrow> 'v store \<Rightarrow> 'v store option" where
  "listRelease l s = listRelease_loop l (al_len l) (al_head l) s"

definition listAddNodeHead ::
    "('v store \<Rightarrow> addr option) \<Rightarrow> 'v store \<Rightarrow> 'v adlist \<Rightarrow> 'v
     \<Rightarrow> ('v store \<times> 'v adlist) option option" where
  "listAddNodeHead zmalloc s l v =
     (case zmalloc s of
        None \<Rightarrow> Some None
      | Some node \<Rightarrow>
          (if al_len l = 0 then
             Some (Some (st s node \<lparr>ln_prev = None, ln_next = None, ln_value = v\<rparr>,
               l\<lparr>al_head := Some node, al_tail := Some node, al_len := al_len l + 1\<rparr>))
           else
             do { let s = st s node \<lparr>ln_prev = None, ln_next = al_head l, ln_value = v\<rparr>;
                  h \<leftarrow> al_head l;
                  s \<leftarrow> set_prev s h (Some node);
                  Some (Some (s, l\<lparr>al_head := Some node, al_len := al_len l + 1\<rparr>)) }))"

definition listAddNodeTail ::
    "('v store \<Rightarrow> addr option) \<Rightarrow> 'v store \<Rightarrow> 'v adlist \<Rightarrow> 'v
     \<Rightarrow> ('v store \<times> 'v adlist) option option" where
  "listAddNodeTail zmalloc s l v =
     (case zmalloc s of
        None \<Rightarrow> Some None
      | Some node \<Rightarrow>
          (if al_len l = 0 then
             Some (Some (st s node \<lparr>ln_prev = None, ln_next = None, ln_value = v\<rparr>,
               l\<lparr>al_head := Some node, al_tail := Some node, al_len := al_len l + 1\<rparr>))
           else
             do { let s = st s node \<lparr>ln_prev = al_tail l, ln_next = None, ln_value = v\<rparr>;
                  t \<leftarrow> al_tail l;
                  s \<leftarrow> set_next s t (Some node);
                  Some (Some (s, l\<lparr>al_tail := Some node, al_len := al_len l + 1\<rparr>)) }))"

definition listInsertNode ::
    "('v store \<Rightarrow> addr option) \<Rightarrow> 'v store \<Rightarrow> 'v adlist \<Rightarrow> addr \<Rightarrow> 'v \<Rightarrow> bool
     \<Rightarrow> ('v store \<times> 'v adlist) option option" where
  "listInsertNode zmalloc s l old_node v after =
     (case zmalloc s of
        None \<Rightarrow> Some None
      | Some node \<Rightarrow>
          do { old \<leftarrow> ld s old_node;
               let p = (if after then Some old_node else ln_prev old);
               let n = (if after then ln_next old else Some old_node);
               let l = (if after then
                          (if al_tail l = Some old_node then l\<lparr>al_tail := Some node\<rparr> else l)
                        else
                          (if al_head l = Some old_node then l\<lparr>al_head := Some node\<rparr> else l));
               let s = st s node \<lparr>ln_prev = p, ln_next = n, ln_value = v\<rparr>;
               s \<leftarrow> (case p of None \<Rightarrow> Some s | Some a \<Rightarrow> set_next s a (Some node));
               s \<leftarrow> (case n of None \<Rightarrow> Some s | Some a \<Rightarrow> set_prev s a (Some node));
               Some (Some (s, l\<lparr>al_len := al_len l + 1\<rparr>)) })"

definition listDelNode ::
    "'v store \<Rightarrow> 'v adlist \<Rightarrow> addr \<Rightarrow> ('v store \<times> 'v adlist) option" where
  "listDelNode s l node =
     do { nd \<leftarrow> ld s node;
          (s, l) \<leftarrow> (case ln_prev nd of
             Some p \<Rightarrow> do { s \<leftarrow> set_next s p (ln_next nd); Some (s, l) }
           | None \<Rightarrow> Some (s, l\<lparr>al_head := ln_next nd\<rparr>));
          (s, l) \<leftarrow> (case ln_next nd of
             Some n \<Rightarrow> do { s \<leftarrow> set_prev s n (ln_prev nd); Some (s, l) }
           | None \<Rightarrow> Some (s, l\<lparr>al_tail := ln_prev nd\<rparr>));
          let s = call_free l (ln_value nd) s;
          Some (zfree s node, l\<lparr>al_len := al_len l - 1\<rparr>) }"

definition listGetIterator :: "'v adlist \<Rightarrow> direction \<Rightarrow> listIter" where
  "listGetIterator l d =
     \<lparr>it_next = (if d = AL_START_HEAD then al_head l else al_tail l), it_direction = d\<rparr>"

definition listRewind :: "'v adlist \<Rightarrow> listIter" where
  "listRewind l = \<lparr>it_next = al_head l, it_direction = AL_START_HEAD\<rparr>"

definition listRewindTail :: "'v adlist \<Rightarrow> listIter" where
  "listRewindTail l = \<lparr>it_next = al_tail l, it_direction = AL_START_TAIL\<rparr>"

definition listNext :: "'v store \<Rightarrow> listIter \<Rightarrow> (addr option \<times> listIter) option" where
  "listNext s it =
     (case it_next it of
        None \<Rightarrow> Some (None, it)
      | Some a \<Rightarrow>
          do { nd \<leftarrow> ld s a;
               Some (Some a, it\<lparr>it_next :=
                 (if it_direction it = AL_START_HEAD then ln_next nd else ln_prev nd)\<rparr>) })"

text \<open>
  The \<^verbatim>\<open>while ((node = listNext(iter)) != NULL)\<close> loops take fuel; the lemmas below show
  that one unit more than the length of the list is enough.
\<close>

fun listDup_loop ::
    "nat \<Rightarrow> ('v store \<Rightarrow> addr option) \<Rightarrow> listIter \<Rightarrow> 'v store \<Rightarrow> 'v adlist
     \<Rightarrow> ('v store \<times> 'v adlist option) option" where
  "listDup_loop 0 zmalloc it s copy = None"
| "listDup_loop (Suc fuel) zmalloc it s copy =
     do { (r, it) \<leftarrow> listNext s it;
          (case r of
             None \<Rightarrow> Some (s, Some copy)
           | Some a \<Rightarrow>
               do { nd \<leftarrow> ld s a;
                    (case (case al_dup copy of
                             Some dup \<Rightarrow> dup (ln_value nd)
                           | None \<Rightarrow> Some (ln_value nd)) of
                       None \<Rightarrow> do { s \<leftarrow> listRelease copy s; Some (s, None) }
                     | Some v \<Rightarrow>
                         do { r \<leftarrow> listAddNodeTail zmalloc s copy v;
                              (case r of
                                 None \<Rightarrow> do { s \<leftarrow> listRelease copy s; Some (s, None) }
                               | Some (s, copy) \<Rightarrow> listDup_loop fuel zmalloc it s copy) }) }) }"

definition listDup ::
    "nat \<Rightarrow> bool \<Rightarrow> ('v store \<Rightarrow> addr option) \<Rightarrow> 'v store \<Rightarrow> 'v adlist
     \<Rightarrow> ('v store \<times> 'v adlist option) option" where
  "listDup fuel mem zmalloc s orig =
     (case listCreate mem of
        None \<Rightarrow> Some (s, None)
      | Some copy \<Rightarrow>
          listDup_loop fuel zmalloc (listGetIterator orig AL_START_HEAD) s
            (copy\<lparr>al_dup := al_dup orig, al_free := al_free orig, al_match := al_match orig\<rparr>))"

fun listSearchKey_loop ::
    "nat \<Rightarrow> 'v store \<Rightarrow> 'v adlist \<Rightarrow> listIter \<Rightarrow> 'v \<Rightarrow> addr option option" where
  "listSearchKey_loop 0 s l it key = None"
| "listSearchKey_loop (Suc fuel) s l it key =
     do { (r, it) \<leftarrow> listNext s it;
          (case r of
             None \<Rightarrow> Some None
           | Some a \<Rightarrow>
               do { nd \<leftarrow> ld s a;
                    if (case al_match l of
                          Some match \<Rightarrow> match (ln_value nd) key
                        | None \<Rightarrow> key = ln_value nd)
                    then Some (Some a)
                    else listSearchKey_loop fuel s l it key }) }"

definition listSearchKey :: "nat \<Rightarrow> 'v store \<Rightarrow> 'v adlist \<Rightarrow> 'v \<Rightarrow> addr option option" where
  "listSearchKey fuel s l key =
     listSearchKey_loop fuel s l (listGetIterator l AL_START_HEAD) key"

fun listIndex_loop ::
    "nat \<Rightarrow> ('v listNode \<Rightarrow> addr option) \<Rightarrow> 'v store \<Rightarrow> addr option \<Rightarrow> addr option option" where
  "listIndex_loop 0 dir s n = Some n"
| "listIndex_loop (Suc index) dir s n =
     (case n of
        None \<Rightarrow> Some None
      | Some a \<Rightarrow> do { nd \<leftarrow> ld s a; listIndex_loop index dir s (dir nd) })"

definition listIndex :: "'v store \<Rightarrow> 'v adlist \<Rightarrow> int \<Rightarrow> addr option option" where
  "listIndex s l index =
     (if index < 0 then listIndex_loop (nat (- index - 1)) ln_prev s (al_tail l)
      else listIndex_loop (nat index) ln_next s (al_head l))"

definition listRotate :: "'v store \<Rightarrow> 'v adlist \<Rightarrow> ('v store \<times> 'v adlist) option" where
  "listRotate s l =
     (if al_len l \<le> 1 then Some (s, l)
      else
        do { tail \<leftarrow> al_tail l;
             nd \<leftarrow> ld s tail;
             let l = l\<lparr>al_tail := ln_prev nd\<rparr>;
             t \<leftarrow> al_tail l;
             s \<leftarrow> set_next s t None;
             h \<leftarrow> al_head l;
             s \<leftarrow> set_prev s h (Some tail);
             s \<leftarrow> set_prev s tail None;
             s \<leftarrow> set_next s tail (al_head l);
             Some (s, l\<lparr>al_head := Some tail\<rparr>) })"

section \<open>Well-formed lists in the store\<close>

text \<open>
  \<open>dseg h p as n\<close>: the cells at \<open>as\<close> form a doubly linked segment whose first node points
  back to \<open>p\<close> and whose last node points on to \<open>n\<close>.
\<close>

definition fst_or :: "addr list \<Rightarrow> addr option \<Rightarrow> addr option" where
  "fst_or as n = (case as of [] \<Rightarrow> n | a # _ \<Rightarrow> Some a)"

definition lst_or :: "addr list \<Rightarrow> addr option \<Rightarrow> addr option" where
  "lst_or as p = (if as = [] then p else Some (last as))"

fun dseg :: "(addr \<rightharpoonup> 'v listNode) \<Rightarrow> addr option \<Rightarrow> addr list \<Rightarrow> addr option \<Rightarrow> bool" where
  "dseg h p [] n = True"
| "dseg h p (a # as) n =
     ((case h a of None \<Rightarrow> False
       | Some nd \<Rightarrow> ln_prev nd = p \<and> ln_next nd = fst_or as n) \<and> dseg h (Some a) as n)"

definition wf_adlist :: "'v store \<Rightarrow> 'v adlist \<Rightarrow> addr list \<Rightarrow> bool" where
  "wf_adlist s l as \<longleftrightarrow> distinct as \<and> dseg (cells s) None as None \<and>
     al_head l = fst_or as None \<and> al_tail l = lst_or as None \<and> al_len l = length as"

definition al_values :: "'v store \<Rightarrow> addr list \<Rightarrow> 'v list" where
  "al_values s as = map (\<lambda>a. ln_value (the (cells s a))) as"

named_theorems al_simps \<open>unfolding the list operations\<close>

lemmas [al_simps] = ld_def st_def set_next_def set_prev_def zfree_def

lemma fst_or_simps [simp]:
  "fst_or [] n = n" "fst_or (a # as) n = Some a"
  "fst_or (as @ b # bs) n = fst_or as (Some b)"
  by (simp_all add: fst_or_def split: list.splits)

lemma lst_or_simps [simp]:
  "lst_or [] p = p" "lst_or (as @ [a]) p = Some a" "lst_or (a # as) p = lst_or as (Some a)"
  by (simp_all add: lst_or_def)

lemma lst_or_append [simp]: "lst_or (as @ bs) p = lst_or bs (lst_or as p)"
  by (simp add: lst_or_def)

lemma dseg_append [simp]:
  "dseg h p (as @ bs) n \<longleftrightarrow> dseg h p as (fst_or bs n) \<and> dseg h (lst_or as p) bs n"
  by (induction as arbitrary: p) (auto simp: fst_or_def split: option.splits list.splits)

lemma dseg_frame [simp]: "a \<notin> set as \<Longrightarrow> dseg (h(a := x)) p as n = dseg h p as n"
  by (induction as arbitrary: p) auto

lemma dseg_dom: "dseg h p as n \<Longrightarrow> a \<in> set as \<Longrightarrow> \<exists>nd. h a = Some nd"
  by (induction as arbitrary: p) (auto split: option.splits)

lemma al_values_frame: "a \<notin> set as \<Longrightarrow> cells t = (cells s)(a := x) \<Longrightarrow> al_values t as = al_values s as"
  by (auto simp: al_values_def)

lemma al_values_simps [simp]:
  "al_values s [] = []"
  "al_values s (a # as) = ln_value (the (cells s a)) # al_values s as"
  "al_values s (as @ bs) = al_values s as @ al_values s bs"
  by (simp_all add: al_values_def)

lemma wf_fresh: "wf_adlist s l as \<Longrightarrow> cells s a = None \<Longrightarrow> a \<notin> set as"
  using dseg_dom by (fastforce simp: wf_adlist_def)

text \<open>Outside the given addresses the two stores agree.\<close>

definition same_outside :: "'v store \<Rightarrow> 'v store \<Rightarrow> addr set \<Rightarrow> bool" where
  "same_outside s t A \<longleftrightarrow> (\<forall>b. b \<notin> A \<longrightarrow> cells t b = cells s b)"

lemma listAddNodeHead_ok:
  assumes wf: "wf_adlist s l as" and al: "zmalloc s = Some a" and fr: "cells s a = None"
  shows "\<exists>t k. listAddNodeHead zmalloc s l v = Some (Some (t, k)) \<and> wf_adlist t k (a # as) \<and>
    al_values t (a # as) = v # al_values s as \<and> freed t = freed s \<and>
    same_outside s t (insert a (set as))"
proof (cases as)
  case Nil
  with wf al show ?thesis
    by (simp add: listAddNodeHead_def wf_adlist_def al_simps same_outside_def)
next
  case (Cons b bs)
  with wf obtain nd where nd: "cells s b = Some nd"
    by (auto simp: wf_adlist_def split: option.splits)
  from wf fr have a: "a \<notin> set as" by (rule wf_fresh)
  with Cons wf nd al show ?thesis
    by (auto simp: listAddNodeHead_def wf_adlist_def al_simps same_outside_def al_values_def)
qed

lemma listAddNodeTail_ok:
  assumes wf: "wf_adlist s l as" and al: "zmalloc s = Some a" and fr: "cells s a = None"
  shows "\<exists>t k. listAddNodeTail zmalloc s l v = Some (Some (t, k)) \<and> wf_adlist t k (as @ [a]) \<and>
    al_values t (as @ [a]) = al_values s as @ [v] \<and> freed t = freed s \<and>
    same_outside s t (insert a (set as))"
proof (cases as rule: rev_cases)
  case Nil
  with wf al show ?thesis
    by (simp add: listAddNodeTail_def wf_adlist_def al_simps same_outside_def)
next
  case (snoc bs b)
  with wf obtain nd where nd: "cells s b = Some nd"
    by (auto simp: wf_adlist_def split: option.splits)
  from wf fr have a: "a \<notin> set as" by (rule wf_fresh)
  with snoc wf nd al show ?thesis
    by (auto simp: listAddNodeTail_def wf_adlist_def al_simps same_outside_def al_values_def)
qed

lemma listInsertNode_after_ok:
  assumes wf: "wf_adlist s l (as @ b # bs)" and al: "zmalloc s = Some a" and fr: "cells s a = None"
  shows "\<exists>t k. listInsertNode zmalloc s l b v True = Some (Some (t, k)) \<and>
    wf_adlist t k (as @ b # a # bs) \<and>
    al_values t (as @ b # a # bs) = al_values s (as @ [b]) @ v # al_values s bs \<and>
    freed t = freed s"
proof -
  from wf obtain nd where nd: "cells s b = Some nd" "ln_next nd = fst_or bs None"
    by (auto simp: wf_adlist_def split: option.splits)
  from wf fr have a: "a \<notin> set (as @ b # bs)" by (rule wf_fresh)
  have tl: "al_tail l = lst_or bs (Some b)" using wf by (simp add: wf_adlist_def)
  show ?thesis
  proof (cases bs)
    case Nil
    with wf nd a al tl show ?thesis
      by (auto simp: listInsertNode_def wf_adlist_def al_simps al_values_def)
  next
    case (Cons c cs)
    with wf obtain nc where nc: "cells s c = Some nc"
      by (auto simp: wf_adlist_def split: option.splits)
    from wf Cons have "al_tail l \<noteq> Some b" by (auto simp: wf_adlist_def lst_or_def split: if_splits)
    with Cons wf nd a al tl nc show ?thesis
      by (auto simp: listInsertNode_def wf_adlist_def al_simps al_values_def)
  qed
qed

lemma listInsertNode_before_ok:
  assumes wf: "wf_adlist s l (as @ b # bs)" and al: "zmalloc s = Some a" and fr: "cells s a = None"
  shows "\<exists>t k. listInsertNode zmalloc s l b v False = Some (Some (t, k)) \<and>
    wf_adlist t k (as @ a # b # bs) \<and>
    al_values t (as @ a # b # bs) = al_values s as @ v # al_values s (b # bs) \<and>
    freed t = freed s"
proof -
  from wf obtain nd where nd: "cells s b = Some nd" "ln_prev nd = lst_or as None"
    by (auto simp: wf_adlist_def split: option.splits)
  from wf fr have a: "a \<notin> set (as @ b # bs)" by (rule wf_fresh)
  show ?thesis
  proof (cases as rule: rev_cases)
    case Nil
    with wf nd a al show ?thesis
      by (auto simp: listInsertNode_def wf_adlist_def al_simps al_values_def)
  next
    case (snoc cs c)
    with wf obtain nc where nc: "cells s c = Some nc"
      by (auto simp: wf_adlist_def split: option.splits)
    from wf snoc have "al_head l \<noteq> Some b" by (cases cs) (auto simp: wf_adlist_def)
    with snoc wf nd a al nc show ?thesis
      by (auto simp: listInsertNode_def wf_adlist_def al_simps al_values_def)
  qed
qed

lemma listDelNode_ok:
  assumes wf: "wf_adlist s l (as @ b # bs)"
  shows "\<exists>t k. listDelNode s l b = Some (t, k) \<and> wf_adlist t k (as @ bs) \<and>
    al_values t (as @ bs) = al_values s as @ al_values s bs \<and> cells t b = None \<and>
    freed t = (if al_free l then freed s @ al_values s [b] else freed s)"
proof -
  from wf obtain nd where nd: "cells s b = Some nd" "ln_next nd = fst_or bs None"
      "ln_prev nd = lst_or as None"
    by (auto simp: wf_adlist_def split: option.splits)
  show ?thesis
  proof (cases as rule: rev_cases)
    case Nil
    show ?thesis
    proof (cases bs)
      case (Cons c cs)
      with wf Nil obtain nc where nc: "cells s c = Some nc"
        by (auto simp: wf_adlist_def split: option.splits)
      with Nil Cons wf nd show ?thesis
        by (auto simp: listDelNode_def wf_adlist_def al_simps al_values_def call_free_def lst_or_def)
    qed (use Nil wf nd in \<open>auto simp: listDelNode_def wf_adlist_def al_simps al_values_def call_free_def\<close>)
  next
    case (snoc ds d)
    with wf obtain nd' where nd': "cells s d = Some nd'"
      by (auto simp: wf_adlist_def split: option.splits)
    show ?thesis
    proof (cases bs)
      case (Cons c cs)
      with wf obtain nc where nc: "cells s c = Some nc"
        by (auto simp: wf_adlist_def split: option.splits)
      with snoc Cons wf nd nd' show ?thesis
        by (auto simp: listDelNode_def wf_adlist_def al_simps al_values_def call_free_def lst_or_def)
    qed (use snoc wf nd nd' in \<open>auto simp: listDelNode_def wf_adlist_def al_simps al_values_def call_free_def\<close>)
  qed
qed

lemma listRotate_ok:
  assumes wf: "wf_adlist s l (as @ [b])"
  shows "\<exists>t k. listRotate s l = Some (t, k) \<and> wf_adlist t k (b # as) \<and>
    al_values t (b # as) = al_values s [b] @ al_values s as \<and> freed t = freed s"
proof (cases as)
  case Nil
  with wf show ?thesis by (auto simp: listRotate_def wf_adlist_def)
next
  case (Cons c cs)
  from wf obtain nd where nd: "cells s b = Some nd" "ln_prev nd = lst_or as None"
    by (auto simp: wf_adlist_def split: option.splits)
  from wf Cons obtain nc where nc: "cells s c = Some nc"
    by (auto simp: wf_adlist_def split: option.splits)
  show ?thesis
  proof (cases cs rule: rev_cases)
    case Nil
    with Cons wf nd nc show ?thesis
      by (auto simp: listRotate_def wf_adlist_def al_simps al_values_def)
  next
    case (snoc ds d)
    with Cons wf obtain nd' where nd': "cells s d = Some nd'"
      by (auto simp: wf_adlist_def split: option.splits)
    with Cons wf nd nc snoc show ?thesis
      by (auto simp: listRotate_def wf_adlist_def al_simps al_values_def)
  qed
qed

lemma listIndex_loop_fwd:
  "dseg (cells s) p as None \<Longrightarrow>
   listIndex_loop i ln_next s (fst_or as None) = Some (if i < length as then Some (as ! i) else None)"
proof (induction as arbitrary: i p)
  case Nil then show ?case by (cases i) auto
next
  case (Cons a as)
  then show ?case by (cases i) (auto simp: ld_def split: option.splits)
qed

lemma listIndex_loop_bwd:
  "dseg (cells s) None as n \<Longrightarrow>
   listIndex_loop i ln_prev s (lst_or as None) =
     Some (if i < length as then Some (as ! (length as - 1 - i)) else None)"
proof (induction as arbitrary: i n rule: rev_induct)
  case Nil then show ?case by (cases i) auto
next
  case (snoc a as)
  then show ?case by (cases i) (auto simp: ld_def nth_append split: option.splits)
qed

lemma listIndex_ok:
  assumes "wf_adlist s l as"
  shows "listIndex s l i = Some
    (if 0 \<le> i \<and> i < int (length as) then Some (as ! nat i)
     else if i < 0 \<and> - i \<le> int (length as) then Some (as ! nat (int (length as) + i))
     else None)"
proof (cases "i < 0")
  case True
  then obtain k where k: "i = - int k - 1" by (metis add.commute diff_0 negD not_less_eq int_ops(4) minus_add_distrib uminus_add_conv_diff)
  have "nat (- i - 1) = k" using k by simp
  moreover have "nat (int (length as) + i) = length as - 1 - k" using k by simp
  moreover have "- i \<le> int (length as) \<longleftrightarrow> k < length as" using k by auto
  ultimately show ?thesis
    using assms True listIndex_loop_bwd [of s as None "k"]
    by (simp add: listIndex_def wf_adlist_def)
next
  case False
  then obtain k where "i = int k" by (metis nonneg_int_cases not_le)
  then show ?thesis
    using assms listIndex_loop_fwd [of s None as k] by (simp add: listIndex_def wf_adlist_def)
qed

lemma listSearchKey_loop_ok:
  "dseg (cells s) p as None \<Longrightarrow> length as < fuel \<Longrightarrow>
   listSearchKey_loop fuel s l \<lparr>it_next = fst_or as None, it_direction = AL_START_HEAD\<rparr> key =
     Some (find (\<lambda>a. (case al_match l of Some match \<Rightarrow> match (ln_value (the (cells s a))) key
                      | None \<Rightarrow> key = ln_value (the (cells s a)))) as)"
proof (induction as arbitrary: fuel p)
  case Nil
  then show ?case by (cases fuel) (auto simp: listNext_def)
next
  case (Cons a as)
  then show ?case by (cases fuel) (auto simp: listNext_def ld_def split: option.splits)
qed

lemma listSearchKey_ok:
  assumes "wf_adlist s l as" and "length as < fuel"
  shows "listSearchKey fuel s l key =
     Some (find (\<lambda>a. (case al_match l of Some match \<Rightarrow> match (ln_value (the (cells s a))) key
                      | None \<Rightarrow> key = ln_value (the (cells s a)))) as)"
  using assms listSearchKey_loop_ok [of s None as fuel l key]
  by (simp add: listSearchKey_def listGetIterator_def wf_adlist_def)

lemma listRelease_loop_ok:
  "dseg (cells s) p as None \<Longrightarrow> distinct as \<Longrightarrow>
   \<exists>t. listRelease_loop l (length as) (fst_or as None) s = Some t \<and>
     (\<forall>b. cells t b = (if b \<in> set as then None else cells s b)) \<and>
     freed t = (if al_free l then freed s @ al_values s as else freed s)"
proof (induction as arbitrary: s p)
  case (Cons a as)
  then obtain nd where nd: "cells s a = Some nd" "ln_next nd = fst_or as None"
    by (auto split: option.splits)
  define s' where "s' = zfree (call_free l (ln_value nd) s) a"
  have c: "cells s' = (cells s)(a := None)" by (simp add: s'_def zfree_def call_free_def)
  have "dseg (cells s') (Some a) as None" using Cons.prems c by simp
  from Cons.IH [OF this] Cons.prems(2) obtain t where
    t: "listRelease_loop l (length as) (fst_or as None) s' = Some t"
       "\<forall>b. cells t b = (if b \<in> set as then None else cells s' b)"
       "freed t = (if al_free l then freed s' @ al_values s' as else freed s')"
    by auto
  have "al_values s' as = al_values s as"
    using Cons.prems(2) c by (intro al_values_frame) auto
  with t nd c show ?case
    by (auto simp: ld_def s'_def [symmetric] Let_def) (auto simp: s'_def zfree_def call_free_def)
qed simp

lemma listRelease_ok:
  assumes "wf_adlist s l as"
  shows "\<exists>t. listRelease l s = Some t \<and>
     (\<forall>b. cells t b = (if b \<in> set as then None else cells s b)) \<and>
     freed t = (if al_free l then freed s @ al_values s as else freed s)"
  using assms listRelease_loop_ok [of s None as l] by (simp add: listRelease_def wf_adlist_def)

definition zmalloc_fresh :: "('v store \<Rightarrow> addr option) \<Rightarrow> bool" where
  "zmalloc_fresh zmalloc \<longleftrightarrow> (\<forall>s a. zmalloc s = Some a \<longrightarrow> cells s a = None)"

definition dup_of :: "('v \<Rightarrow> 'v option) option \<Rightarrow> 'v \<Rightarrow> 'v option" where
  "dup_of d v = (case d of Some dup \<Rightarrow> dup v | None \<Rightarrow> Some v)"

text \<open>Outside \<open>A\<close> nothing that was allocated has changed.\<close>

definition keeps :: "'v store \<Rightarrow> 'v store \<Rightarrow> addr set \<Rightarrow> bool" where
  "keeps s t A \<longleftrightarrow> (\<forall>b nd. b \<notin> A \<longrightarrow> cells s b = Some nd \<longrightarrow> cells t b = Some nd)"

lemma dseg_keeps: "dseg (cells s) p as n \<Longrightarrow> keeps s t A \<Longrightarrow> set as \<inter> A = {} \<Longrightarrow> dseg (cells t) p as n"
  by (induction as arbitrary: p) (auto simp: keeps_def split: option.splits)

lemma al_values_keeps:
  "dseg (cells s) p as n \<Longrightarrow> keeps s t A \<Longrightarrow> set as \<inter> A = {} \<Longrightarrow> al_values t as = al_values s as"
  by (induction as arbitrary: p) (auto simp: keeps_def split: option.splits)

lemma listDup_loop_ok:
  assumes "dseg (cells s) p as None" and "wf_adlist s copy bs" and "set as \<inter> set bs = {}"
    and "zmalloc_fresh zmalloc" and "length as < fuel"
  shows "\<exists>t r. listDup_loop fuel zmalloc \<lparr>it_next = fst_or as None, it_direction = AL_START_HEAD\<rparr> s copy
      = Some (t, r) \<and> keeps s t (set bs) \<and>
      (\<forall>k. r = Some k \<longrightarrow> (\<exists>cs. wf_adlist t k (bs @ cs) \<and> (\<forall>c \<in> set cs. cells s c = None) \<and>
         map Some (al_values t cs) = map (dup_of (al_dup copy)) (al_values s as) \<and>
         al_values t bs = al_values s bs \<and> al_dup k = al_dup copy)) \<and>
      (r = None \<longrightarrow> (\<exists>v \<in> set (al_values s as). dup_of (al_dup copy) v = None)
                  \<or> (\<exists>u. zmalloc u = None))"
  using assms
proof (induction as arbitrary: fuel p s copy bs)
  case Nil
  then show ?case
    by (cases fuel) (auto simp: listNext_def keeps_def intro!: exI [of _ "[]"])
next
  case (Cons a as)
  then obtain f nd where f: "fuel = Suc f" and nd: "cells s a = Some nd" "ln_next nd = fst_or as None"
    by (cases fuel) (auto split: option.splits)
  have seg: "dseg (cells s) (Some a) as None" using Cons.prems(1) by simp
  obtain t0 where rel: "listRelease copy s = Some t0"
      "\<forall>b. cells t0 b = (if b \<in> set bs then None else cells s b)"
    using listRelease_ok [OF Cons.prems(2)] by blast
  have k0: "keeps s t0 (set bs)" using rel by (auto simp: keeps_def)
  show ?case
  proof (cases "dup_of (al_dup copy) (ln_value nd)")
    case None
    with f nd rel k0 show ?thesis
      by (auto simp: listNext_def ld_def dup_of_def split: option.splits)
  next
    case (Some v)
    show ?thesis
    proof (cases "zmalloc s")
      case None
      with Some f nd rel k0 show ?thesis
        by (auto simp: listNext_def ld_def dup_of_def listAddNodeTail_def split: option.splits)
    next
      case (Some c)
      then have fr: "cells s c = None" using Cons.prems(4) by (simp add: zmalloc_fresh_def)
      obtain t1 k1 where t1: "listAddNodeTail zmalloc s copy v = Some (Some (t1, k1))"
          "wf_adlist t1 k1 (bs @ [c])" "al_values t1 (bs @ [c]) = al_values s bs @ [v]"
          "same_outside s t1 (insert c (set bs))"
        using listAddNodeTail_ok [where zmalloc = zmalloc, OF Cons.prems(2) Some fr, of v] by blast
      have dup1: "al_dup k1 = al_dup copy"
        using t1(1) Some by (auto simp: listAddNodeTail_def set_next_def Let_def bind_eq_Some_conv split: if_splits)
      have k1: "keeps s t1 (set bs)" using t1(4) fr unfolding keeps_def same_outside_def
        by (metis insert_iff option.distinct(1))
      have ca: "c \<notin> set (a # as)" using fr dseg_dom [OF Cons.prems(1), of c] by auto
      have seg1: "dseg (cells t1) (Some a) as None"
        using seg k1 Cons.prems(3) by (auto intro: dseg_keeps)
      have dis: "set as \<inter> set (bs @ [c]) = {}" using Cons.prems(3) ca by auto
      have "length as < f" using Cons.prems(5) f by simp
      from Cons.IH [OF seg1 t1(2) dis Cons.prems(4) this] obtain t r where
        r: "listDup_loop f zmalloc \<lparr>it_next = fst_or as None, it_direction = AL_START_HEAD\<rparr> t1 k1 = Some (t, r)"
        and kk: "keeps t1 t (set (bs @ [c]))"
        and ok: "\<forall>k. r = Some k \<longrightarrow> (\<exists>cs. wf_adlist t k ((bs @ [c]) @ cs) \<and> (\<forall>c \<in> set cs. cells t1 c = None) \<and>
         map Some (al_values t cs) = map (dup_of (al_dup k1)) (al_values t1 as) \<and>
         al_values t (bs @ [c]) = al_values t1 (bs @ [c]) \<and> al_dup k = al_dup k1)"
        and bad: "r = None \<longrightarrow> (\<exists>v \<in> set (al_values t1 as). dup_of (al_dup k1) v = None)
                  \<or> (\<exists>u. zmalloc u = None)"
        by blast
      have vals: "al_values t1 as = al_values s as"
        using seg k1 Cons.prems(3) by (auto intro: al_values_keeps)
      have step: "listDup_loop fuel zmalloc \<lparr>it_next = fst_or (a # as) None, it_direction = AL_START_HEAD\<rparr> s copy
          = Some (t, r)"
        using f nd \<open>dup_of (al_dup copy) (ln_value nd) = Some v\<close> t1(1) r
        by (auto simp: listNext_def ld_def dup_of_def split: option.splits)
      have keep: "keeps s t (set bs)"
        using k1 kk fr unfolding keeps_def
        by (metis Un_iff empty_iff insert_iff list.set option.distinct(1) set_append)
      have good: "\<exists>cs. wf_adlist t k (bs @ cs) \<and> (\<forall>c \<in> set cs. cells s c = None) \<and>
         map Some (al_values t cs) = map (dup_of (al_dup copy)) (al_values s (a # as)) \<and>
         al_values t bs = al_values s bs \<and> al_dup k = al_dup copy" if "r = Some k" for k
      proof -
        from ok that obtain cs where cs: "wf_adlist t k ((bs @ [c]) @ cs)" "\<forall>c \<in> set cs. cells t1 c = None"
         "map Some (al_values t cs) = map (dup_of (al_dup k1)) (al_values t1 as)"
         "al_values t (bs @ [c]) = al_values t1 (bs @ [c])" "al_dup k = al_dup k1" by blast
        have "cells s d = None" if "d \<in> set cs" for d
          using that cs(1,2) t1(4) by (auto simp: wf_adlist_def same_outside_def)
        then show ?thesis
          using cs t1(3) fr nd dup1 vals \<open>dup_of (al_dup copy) (ln_value nd) = Some v\<close>
          by (intro exI [of _ "c # cs"]) auto
      qed
      show ?thesis using step keep good bad dup1 vals by auto
    qed
  qed
qed


text \<open>Two nodes with the values 10 and 20, for the witnesses below.\<close>

definition sample_store :: "int store" where
  "sample_store = \<lparr>cells =
     [0 \<mapsto> \<lparr>ln_prev = None, ln_next = Some 1, ln_value = 10\<rparr>,
      1 \<mapsto> \<lparr>ln_prev = Some 0, ln_next = None, ln_value = 20\<rparr>], freed = []\<rparr>"

definition sample_list :: "int adlist" where
  "sample_list = \<lparr>al_head = Some 0, al_tail = Some 1, al_dup = None, al_free = True,
     al_match = None, al_len = 2\<rparr>"

definition first_free :: "'v store \<Rightarrow> addr option" where
  "first_free s = find (\<lambda>a. cells s a = None) [0..<10]"

lemma first_free_fresh: "zmalloc_fresh first_free"
  by (auto simp: zmalloc_fresh_def first_free_def find_Some_iff)

lemma sample_wf: "wf_adlist sample_store sample_list [0, 1]"
  by (simp add: wf_adlist_def sample_store_def sample_list_def lst_or_def)

section \<open>Properties\<close>

text \<open>
  Inserting before or after a node of a well-formed list succeeds, keeps the list well formed
  in both directions and inserts the value exactly there.
\<close>

theorem listInsertNode_refines:
  assumes "wf_adlist s l (as @ b # bs)" and "zmalloc s = Some a" and "cells s a = None"
  shows "\<exists>t k. listInsertNode zmalloc s l b v after = Some (Some (t, k)) \<and>
    wf_adlist t k (if after then as @ b # a # bs else as @ a # b # bs) \<and>
    al_values t (if after then as @ b # a # bs else as @ a # b # bs) =
      (if after then al_values s (as @ [b]) @ v # al_values s bs
       else al_values s as @ v # al_values s (b # bs))"
  using listInsertNode_after_ok [where zmalloc = zmalloc, OF assms, of v]
    listInsertNode_before_ok [where zmalloc = zmalloc, OF assms, of v]
  by (cases after) auto

theorem listInsertNode_refines_witness:
  "\<exists>t k. listInsertNode first_free sample_store sample_list 0 (15 :: int) True = Some (Some (t, k)) \<and>
    wf_adlist t k [0, 2, 1] \<and> al_values t [0, 2, 1] = [10, 15, 20]"
proof -
  have w: "wf_adlist sample_store sample_list ([] @ 0 # [1])" using sample_wf by simp
  have z: "first_free sample_store = Some 2"
    by (simp add: first_free_def sample_store_def upt_rec)
  have f: "cells sample_store 2 = None" by (simp add: sample_store_def)
  show ?thesis
    using listInsertNode_refines [where zmalloc = first_free and after = True and v = 15, OF w z f]
    by (simp add: sample_store_def)
qed

text \<open>
  Deleting a node of a well-formed list never follows a dangling pointer, leaves exactly
  the other nodes in order, releases the cell and calls the free method on its value if one is set.
\<close>

theorem listDelNode_refines:
  assumes "wf_adlist s l (as @ b # bs)"
  shows "\<exists>t k. listDelNode s l b = Some (t, k) \<and> wf_adlist t k (as @ bs) \<and>
    al_values t (as @ bs) = al_values s as @ al_values s bs \<and> cells t b = None \<and>
    freed t = (if al_free l then freed s @ al_values s [b] else freed s)"
  using listDelNode_ok [OF assms] .

theorem listDelNode_refines_witness:
  "\<exists>t k. listDelNode sample_store sample_list 1 = Some (t, k) \<and> wf_adlist t k [0] \<and>
    al_values t [0] = [10] \<and> freed t = [20]"
  using listDelNode_refines [of sample_store sample_list "[0]" 1 "[]"] sample_wf
  by (auto simp: sample_store_def sample_list_def)

text \<open>
  Duplicating a well-formed list terminates, never modifies the original, and when it
  succeeds the copy is a well-formed list on fresh nodes holding the duplicated values in
  order; it fails only when the dup method or the allocator fails.
\<close>

theorem listDup_copies:
  assumes wf: "wf_adlist s l as" and fr: "zmalloc_fresh zmalloc" and fuel: "length as < fuel"
  shows "\<exists>t r. listDup fuel True zmalloc s l = Some (t, r) \<and>
    wf_adlist t l as \<and> al_values t as = al_values s as \<and>
    (\<forall>k. r = Some k \<longrightarrow> (\<exists>cs. wf_adlist t k cs \<and> set cs \<inter> set as = {} \<and>
       map Some (al_values t cs) = map (dup_of (al_dup l)) (al_values s as))) \<and>
    (r = None \<longrightarrow> (\<exists>v \<in> set (al_values s as). dup_of (al_dup l) v = None) \<or> (\<exists>u. zmalloc u = None))"
proof -
  define copy where "copy = (\<lparr>al_head = None, al_tail = None, al_dup = al_dup l,
    al_free = al_free l, al_match = al_match l, al_len = 0\<rparr> :: 'a adlist)"
  have seg: "dseg (cells s) None as None" using wf by (simp add: wf_adlist_def)
  have "wf_adlist s copy []" by (simp add: wf_adlist_def copy_def)
  with listDup_loop_ok [where zmalloc = zmalloc, OF seg _ _ fr fuel, of copy "[]", simplified] obtain t r where
    t: "listDup_loop fuel zmalloc \<lparr>it_next = fst_or as None, it_direction = AL_START_HEAD\<rparr> s copy = Some (t, r)"
    and k: "keeps s t {}"
    and ok: "\<forall>k. r = Some k \<longrightarrow> (\<exists>cs. wf_adlist t k cs \<and> (\<forall>c \<in> set cs. cells s c = None) \<and>
         map Some (al_values t cs) = map (dup_of (al_dup copy)) (al_values s as))"
    and bad: "r = None \<longrightarrow> (\<exists>v \<in> set (al_values s as). dup_of (al_dup copy) v = None) \<or> (\<exists>u. zmalloc u = None)"
    by blast
  have 1: "listDup fuel True zmalloc s l = Some (t, r)"
    using t wf by (simp add: listDup_def listCreate_def listGetIterator_def copy_def wf_adlist_def)
  have 2: "wf_adlist t l as" using wf dseg_keeps [OF seg k] by (simp add: wf_adlist_def)
  have 3: "al_values t as = al_values s as" using al_values_keeps [OF seg k] by simp
  have 4: "set cs \<inter> set as = {}" if "\<forall>c \<in> set cs. cells s c = None" for cs
    using that dseg_dom [OF seg] by fastforce
  show ?thesis using 1 2 3 4 ok bad by (fastforce simp: copy_def)
qed

theorem listDup_copies_witness:
  "\<exists>t r. listDup 3 True first_free sample_store sample_list = Some (t, r) \<and>
    al_values t [0, 1] = [10, 20] \<and>
    (\<forall>k. r = Some k \<longrightarrow> (\<exists>cs. wf_adlist t k cs \<and> map Some (al_values t cs) = [Some 10, Some 20]))"
  using listDup_copies [where fuel = 3, OF sample_wf first_free_fresh]
  by (fastforce simp: sample_store_def sample_list_def dup_of_def)

text \<open>
  Indexing accepts negative indices from the tail: every index in range yields that node, every
  other index yields NULL, and no access is invalid.
\<close>

theorem listIndex_signed:
  assumes "wf_adlist s l as"
  shows "listIndex s l i = Some
    (if 0 \<le> i \<and> i < int (length as) then Some (as ! nat i)
     else if i < 0 \<and> - i \<le> int (length as) then Some (as ! nat (int (length as) + i))
     else None)"
  using listIndex_ok [OF assms] .

theorem listIndex_signed_witness:
  "listIndex sample_store sample_list (-1) = Some (Some 1) \<and> listIndex sample_store sample_list 2 = Some None"
  using listIndex_signed [OF sample_wf, of "-1"] listIndex_signed [OF sample_wf, of 2] by simp

end
