(* ===== verification/Dict.thy ===== *)
theory Dict
  imports Prelude "HOL-Library.Monad_Syntax" "HOL-Library.Multiset"
begin

text \<open>
  \<^verbatim>\<open>debug/redis/src/dict.c\<close>: the chained hash table with incremental rehashing between
  two tables. A table is an array of chains (a NULL \<^verbatim>\<open>table\<close> pointer is the empty array);
  a chain is the list of its entries from the bucket's head. An operation returns \<open>None\<close>
  where the C code would read outside a table or fail its assertion. Keys and values are
  opaque; the \<^verbatim>\<open>dictType\<close> supplies the hash function, the key comparison and the
  duplication methods. The contents of a freshly allocated entry are the argument \<open>junk\<close>.
  The global flag \<^verbatim>\<open>dict_can_resize\<close> is the argument \<open>can_resize\<close>. Sizes and counters
  are natural numbers: they count live heap objects, so they do not reach \<open>2 ^ 64\<close>.
\<close>

type_synonym ('k, 'v) chain = "('k \<times> 'v) list"

record ('k, 'v) dictType =
  hashFunction :: "'k \<Rightarrow> 32 word"
  keyDup :: "('k \<Rightarrow> 'k) option"
  valDup :: "('v \<Rightarrow> 'v) option"
  keyCompare :: "('k \<Rightarrow> 'k \<Rightarrow> bool) option"

record ('k, 'v) dictht =
  ht_table :: "('k, 'v) chain list"
  ht_size :: nat
  ht_sizemask :: nat
  ht_used :: nat

record ('k, 'v) dict =
  d_type :: "('k, 'v) dictType"
  d_ht0 :: "('k, 'v) dictht"
  d_ht1 :: "('k, 'v) dictht"
  d_rehashidx :: int
  d_iterators :: nat

datatype dict_ret = DICT_OK | DICT_ERR

text \<open>A pointer to an entry: the table, the bucket, and the position in the chain.\<close>

type_synonym entry_ref = "bool \<times> nat \<times> nat"

abbreviation DICT_HT_INITIAL_SIZE :: nat where
  "DICT_HT_INITIAL_SIZE \<equiv> 4"

abbreviation LONG_MAX :: nat where
  "LONG_MAX \<equiv> 2 ^ 63 - 1"

abbreviation dict_force_resize_ratio :: nat where
  "dict_force_resize_ratio \<equiv> 5"

section \<open>Macros of dict.h\<close>

definition dictCompareKeys :: "('k, 'v) dict \<Rightarrow> 'k \<Rightarrow> 'k \<Rightarrow> bool" where
  "dictCompareKeys d k1 k2 =
     (case keyCompare (d_type d) of Some cmp \<Rightarrow> cmp k1 k2 | None \<Rightarrow> k1 = k2)"

definition dictHashKey :: "('k, 'v) dict \<Rightarrow> 'k \<Rightarrow> 32 word" where
  "dictHashKey d k = hashFunction (d_type d) k"

definition dictKeyOf :: "('k, 'v) dict \<Rightarrow> 'k \<Rightarrow> 'k" where
  "dictKeyOf d k = (case keyDup (d_type d) of Some dup \<Rightarrow> dup k | None \<Rightarrow> k)"

definition dictValOf :: "('k, 'v) dict \<Rightarrow> 'v \<Rightarrow> 'v" where
  "dictValOf d v = (case valDup (d_type d) of Some dup \<Rightarrow> dup v | None \<Rightarrow> v)"

definition dictIsRehashing :: "('k, 'v) dict \<Rightarrow> bool" where
  "dictIsRehashing d \<longleftrightarrow> d_rehashidx d \<noteq> -1"

definition dictSize :: "('k, 'v) dict \<Rightarrow> nat" where
  "dictSize d = ht_used (d_ht0 d) + ht_used (d_ht1 d)"

definition dict_ht :: "('k, 'v) dict \<Rightarrow> bool \<Rightarrow> ('k, 'v) dictht" where
  "dict_ht d t = (if t then d_ht1 d else d_ht0 d)"

definition set_ht :: "('k, 'v) dict \<Rightarrow> bool \<Rightarrow> ('k, 'v) dictht \<Rightarrow> ('k, 'v) dict" where
  "set_ht d t ht = (if t then d\<lparr>d_ht1 := ht\<rparr> else d\<lparr>d_ht0 := ht\<rparr>)"

text \<open>\<^verbatim>\<open>ht->table[i]\<close>, and the bucket of a hash value.\<close>

definition bucket :: "('k, 'v) dictht \<Rightarrow> nat \<Rightarrow> ('k, 'v) chain option" where
  "bucket ht i = (if i < length (ht_table ht) then Some (ht_table ht ! i) else None)"

definition hash_idx :: "('k, 'v) dictht \<Rightarrow> 32 word \<Rightarrow> nat" where
  "hash_idx ht h = unat h AND ht_sizemask ht"

section \<open>Creation and growth\<close>

definition dictReset :: "('k, 'v) dictht" where
  "dictReset = \<lparr>ht_table = [], ht_size = 0, ht_sizemask = 0, ht_used = 0\<rparr>"

definition dictCreate :: "('k, 'v) dictType \<Rightarrow> ('k, 'v) dict" where
  "dictCreate type = \<lparr>d_type = type, d_ht0 = dictReset, d_ht1 = dictReset,
     d_rehashidx = -1, d_iterators = 0\<rparr>"

text \<open>The test \<open>i = 0\<close> only makes the recursion total: the loop starts at 4.\<close>

function dictNextPower_loop :: "nat \<Rightarrow> nat \<Rightarrow> nat" where
  "dictNextPower_loop i sz = (if sz \<le> i \<or> i = 0 then i else dictNextPower_loop (i * 2) sz)"
  by pat_completeness auto
termination
  by (relation "measure (\<lambda>(i, sz). sz - i)") auto

definition dictNextPower :: "nat \<Rightarrow> nat" where
  "dictNextPower sz =
     (if LONG_MAX \<le> sz then LONG_MAX else dictNextPower_loop DICT_HT_INITIAL_SIZE sz)"

definition dictExpand :: "('k, 'v) dict \<Rightarrow> nat \<Rightarrow> ('k, 'v) dict \<times> dict_ret" where
  "dictExpand d sz =
     (let realsize = dictNextPower sz in
      if dictIsRehashing d \<or> sz < ht_used (d_ht0 d) then (d, DICT_ERR)
      else
        let n = \<lparr>ht_table = replicate realsize [], ht_size = realsize,
                 ht_sizemask = realsize - 1, ht_used = 0\<rparr> in
        if ht_table (d_ht0 d) = [] then (d\<lparr>d_ht0 := n\<rparr>, DICT_OK)
        else (d\<lparr>d_ht1 := n, d_rehashidx := 0\<rparr>, DICT_OK))"

definition dictResize :: "bool \<Rightarrow> ('k, 'v) dict \<Rightarrow> ('k, 'v) dict \<times> dict_ret" where
  "dictResize can_resize d =
     (if \<not> can_resize \<or> dictIsRehashing d then (d, DICT_ERR)
      else
        let minimal = ht_used (d_ht0 d);
            minimal = (if minimal < DICT_HT_INITIAL_SIZE then DICT_HT_INITIAL_SIZE else minimal)
        in dictExpand d minimal)"

definition dictExpandIfNeeded :: "bool \<Rightarrow> ('k, 'v) dict \<Rightarrow> ('k, 'v) dict \<times> dict_ret" where
  "dictExpandIfNeeded can_resize d =
     (if dictIsRehashing d then (d, DICT_OK)
      else if ht_size (d_ht0 d) = 0 then dictExpand d DICT_HT_INITIAL_SIZE
      else if ht_size (d_ht0 d) \<le> ht_used (d_ht0 d) \<and>
              (can_resize \<or>
               dict_force_resize_ratio < ht_used (d_ht0 d) div ht_size (d_ht0 d))
      then dictExpand d
             ((if ht_used (d_ht0 d) < ht_size (d_ht0 d) then ht_size (d_ht0 d)
               else ht_used (d_ht0 d)) * 2)
      else (d, DICT_OK))"

section \<open>Incremental rehashing\<close>

text \<open>
  The inner loops of \<open>dictRehash\<close>: skip the empty buckets, then move the entries of the
  first non-empty one, each to the head of its bucket in the new table.
\<close>

function skip_empty :: "('k, 'v) chain list \<Rightarrow> nat \<Rightarrow> nat option" where
  "skip_empty tbl i =
     (if i < length tbl then (if tbl ! i = [] then skip_empty tbl (Suc i) else Some i)
      else None)"
  by pat_completeness auto
termination
  by (relation "measure (\<lambda>(tbl, i). length tbl - i)") auto

declare skip_empty.simps [simp del] dictNextPower_loop.simps [simp del]

fun move_entries :: "('k, 'v) dict \<Rightarrow> ('k, 'v) chain \<Rightarrow> ('k, 'v) dict option" where
  "move_entries d [] = Some d"
| "move_entries d (de # nextde) =
     do { let h = hash_idx (d_ht1 d) (dictHashKey d (fst de));
          c \<leftarrow> bucket (d_ht1 d) h;
          move_entries
            (d\<lparr>d_ht0 := (d_ht0 d)\<lparr>ht_used := ht_used (d_ht0 d) - 1\<rparr>,
               d_ht1 := (d_ht1 d)\<lparr>ht_table := (ht_table (d_ht1 d))[h := de # c],
                                  ht_used := ht_used (d_ht1 d) + 1\<rparr>\<rparr>) nextde }"

fun dictRehash_loop :: "nat \<Rightarrow> ('k, 'v) dict \<Rightarrow> (('k, 'v) dict \<times> bool) option" where
  "dictRehash_loop 0 d = Some (d, True)"
| "dictRehash_loop (Suc n) d =
     (if ht_used (d_ht0 d) = 0
      then Some (d\<lparr>d_ht0 := d_ht1 d, d_ht1 := dictReset, d_rehashidx := -1\<rparr>, False)
      else if \<not> nat (d_rehashidx d) < ht_size (d_ht0 d) then None
      else
        do { i \<leftarrow> skip_empty (ht_table (d_ht0 d)) (nat (d_rehashidx d));
             c \<leftarrow> bucket (d_ht0 d) i;
             d \<leftarrow> move_entries d c;
             dictRehash_loop n
               (d\<lparr>d_ht0 := (d_ht0 d)\<lparr>ht_table := (ht_table (d_ht0 d))[i := []]\<rparr>,
                  d_rehashidx := int i + 1\<rparr>) })"

definition dictRehash :: "('k, 'v) dict \<Rightarrow> nat \<Rightarrow> (('k, 'v) dict \<times> bool) option" where
  "dictRehash d n = (if \<not> dictIsRehashing d then Some (d, False) else dictRehash_loop n d)"

definition dictRehashStep :: "('k, 'v) dict \<Rightarrow> ('k, 'v) dict option" where
  "dictRehashStep d =
     (if d_iterators d = 0 then map_option fst (dictRehash d 1) else Some d)"

section \<open>Lookup, insertion, deletion\<close>

fun chain_pos :: "('k, 'v) dict \<Rightarrow> 'k \<Rightarrow> ('k, 'v) chain \<Rightarrow> nat option" where
  "chain_pos d key [] = None"
| "chain_pos d key (he # nx) =
     (if dictCompareKeys d key (fst he) then Some 0 else map_option Suc (chain_pos d key nx))"

definition dictKeyIndex ::
    "bool \<Rightarrow> ('k, 'v) dict \<Rightarrow> 'k \<Rightarrow> (('k, 'v) dict \<times> nat option) option" where
  "dictKeyIndex can_resize d key =
     (case dictExpandIfNeeded can_resize d of
        (d, DICT_ERR) \<Rightarrow> Some (d, None)
      | (d, DICT_OK) \<Rightarrow>
          do { let h = dictHashKey d key;
               let idx = hash_idx (d_ht0 d) h;
               c \<leftarrow> bucket (d_ht0 d) idx;
               if chain_pos d key c \<noteq> None then Some (d, None)
               else if \<not> dictIsRehashing d then Some (d, Some idx)
               else
                 do { let idx = hash_idx (d_ht1 d) h;
                      c \<leftarrow> bucket (d_ht1 d) idx;
                      if chain_pos d key c \<noteq> None then Some (d, None)
                      else Some (d, Some idx) } })"

definition rehash_if_needed :: "('k, 'v) dict \<Rightarrow> ('k, 'v) dict option" where
  "rehash_if_needed d = (if dictIsRehashing d then dictRehashStep d else Some d)"

definition dictAddRaw ::
    "bool \<Rightarrow> 'v \<Rightarrow> ('k, 'v) dict \<Rightarrow> 'k \<Rightarrow> (('k, 'v) dict \<times> entry_ref option) option" where
  "dictAddRaw can_resize junk d key =
     do { d \<leftarrow> rehash_if_needed d;
          (d, index) \<leftarrow> dictKeyIndex can_resize d key;
          (case index of
             None \<Rightarrow> Some (d, None)
           | Some i \<Rightarrow>
               do { let t = dictIsRehashing d;
                    let ht = dict_ht d t;
                    c \<leftarrow> bucket ht i;
                    let ht = ht\<lparr>ht_table := (ht_table ht)[i := (dictKeyOf d key, junk) # c],
                                ht_used := ht_used ht + 1\<rparr>;
                    Some (set_ht d t ht, Some (t, i, 0)) }) }"

definition dictSetVal :: "('k, 'v) dict \<Rightarrow> entry_ref \<Rightarrow> 'v \<Rightarrow> ('k, 'v) dict option" where
  "dictSetVal d r v =
     (case r of (t, i, p) \<Rightarrow>
        do { let ht = dict_ht d t;
             c \<leftarrow> bucket ht i;
             if p < length c
             then Some (set_ht d t (ht\<lparr>ht_table :=
                    (ht_table ht)[i := c[p := (fst (c ! p), dictValOf d v)]]\<rparr>))
             else None })"

definition dictAdd ::
    "bool \<Rightarrow> 'v \<Rightarrow> ('k, 'v) dict \<Rightarrow> 'k \<Rightarrow> 'v \<Rightarrow> (('k, 'v) dict \<times> dict_ret) option" where
  "dictAdd can_resize junk d key val =
     do { (d, entry) \<leftarrow> dictAddRaw can_resize junk d key;
          (case entry of
             None \<Rightarrow> Some (d, DICT_ERR)
           | Some r \<Rightarrow> do { d \<leftarrow> dictSetVal d r val; Some (d, DICT_OK) }) }"

definition dictFind :: "('k, 'v) dict \<Rightarrow> 'k \<Rightarrow> (('k, 'v) dict \<times> entry_ref option) option" where
  "dictFind d key =
     (if ht_size (d_ht0 d) = 0 then Some (d, None)
      else
        do { d \<leftarrow> rehash_if_needed d;
             let h = dictHashKey d key;
             let idx = hash_idx (d_ht0 d) h;
             c \<leftarrow> bucket (d_ht0 d) idx;
             (case chain_pos d key c of
                Some p \<Rightarrow> Some (d, Some (False, idx, p))
              | None \<Rightarrow>
                  if \<not> dictIsRehashing d then Some (d, None)
                  else
                    do { let idx = hash_idx (d_ht1 d) h;
                         c \<leftarrow> bucket (d_ht1 d) idx;
                         Some (d, map_option (\<lambda>p. (True, idx, p)) (chain_pos d key c)) }) })"

definition dictGetEntry :: "('k, 'v) dict \<Rightarrow> entry_ref \<Rightarrow> ('k \<times> 'v) option" where
  "dictGetEntry d r =
     (case r of (t, i, p) \<Rightarrow>
        do { c \<leftarrow> bucket (dict_ht d t) i; if p < length c then Some (c ! p) else None })"

definition dictFetchValue :: "('k, 'v) dict \<Rightarrow> 'k \<Rightarrow> (('k, 'v) dict \<times> 'v option) option" where
  "dictFetchValue d key =
     do { (d, he) \<leftarrow> dictFind d key;
          (case he of
             None \<Rightarrow> Some (d, None)
           | Some r \<Rightarrow> do { e \<leftarrow> dictGetEntry d r; Some (d, Some (snd e)) }) }"

definition dictReplace ::
    "bool \<Rightarrow> 'v \<Rightarrow> ('k, 'v) dict \<Rightarrow> 'k \<Rightarrow> 'v \<Rightarrow> (('k, 'v) dict \<times> bool) option" where
  "dictReplace can_resize junk d key val =
     do { (d, ret) \<leftarrow> dictAdd can_resize junk d key val;
          if ret = DICT_OK then Some (d, True)
          else
            do { (d, entry) \<leftarrow> dictFind d key;
                 r \<leftarrow> entry;
                 d \<leftarrow> dictSetVal d r val;
                 Some (d, False) } }"

definition dictReplaceRaw ::
    "bool \<Rightarrow> 'v \<Rightarrow> ('k, 'v) dict \<Rightarrow> 'k \<Rightarrow> (('k, 'v) dict \<times> entry_ref option) option" where
  "dictReplaceRaw can_resize junk d key =
     do { (d, entry) \<leftarrow> dictFind d key;
          (case entry of
             Some r \<Rightarrow> Some (d, Some r)
           | None \<Rightarrow> dictAddRaw can_resize junk d key) }"

text \<open>Unlinking the first matching entry of a chain.\<close>

fun chain_unlink :: "('k, 'v) dict \<Rightarrow> 'k \<Rightarrow> ('k, 'v) chain \<Rightarrow> ('k, 'v) chain option" where
  "chain_unlink d key [] = None"
| "chain_unlink d key (he # nx) =
     (if dictCompareKeys d key (fst he) then Some nx
      else map_option (\<lambda>c. he # c) (chain_unlink d key nx))"

definition unlink_in :: "('k, 'v) dict \<Rightarrow> bool \<Rightarrow> nat \<Rightarrow> ('k, 'v) chain \<Rightarrow> ('k, 'v) dict" where
  "unlink_in d t idx c =
     (let ht = dict_ht d t in
      set_ht d t (ht\<lparr>ht_table := (ht_table ht)[idx := c], ht_used := ht_used ht - 1\<rparr>))"

definition dictGenericDelete ::
    "('k, 'v) dict \<Rightarrow> 'k \<Rightarrow> (('k, 'v) dict \<times> dict_ret) option" where
  "dictGenericDelete d key =
     (if ht_size (d_ht0 d) = 0 then Some (d, DICT_ERR)
      else
        do { d \<leftarrow> rehash_if_needed d;
             let h = dictHashKey d key;
             let idx = hash_idx (d_ht0 d) h;
             c \<leftarrow> bucket (d_ht0 d) idx;
             (case chain_unlink d key c of
                Some c \<Rightarrow> Some (unlink_in d False idx c, DICT_OK)
              | None \<Rightarrow>
                  if \<not> dictIsRehashing d then Some (d, DICT_ERR)
                  else
                    do { let idx = hash_idx (d_ht1 d) h;
                         c \<leftarrow> bucket (d_ht1 d) idx;
                         (case chain_unlink d key c of
                            Some c \<Rightarrow> Some (unlink_in d True idx c, DICT_OK)
                          | None \<Rightarrow> Some (d, DICT_ERR)) }) })"

section \<open>Clearing\<close>

text \<open>
  \<open>dictClear_loop\<close> returns the entries handed to the destructors, in order; the loop stops
  early once \<^verbatim>\<open>used\<close> has reached zero.
\<close>

fun dictClear_loop :: "('k, 'v) chain list \<Rightarrow> nat \<Rightarrow> ('k \<times> 'v) list" where
  "dictClear_loop [] used = []"
| "dictClear_loop (c # cs) used =
     (if used = 0 then [] else c @ dictClear_loop cs (used - length c))"

definition dictClear :: "('k, 'v) dictht \<Rightarrow> ('k, 'v) dictht \<times> ('k \<times> 'v) list" where
  "dictClear ht = (dictReset, dictClear_loop (take (ht_size ht) (ht_table ht)) (ht_used ht))"

definition dictEmpty :: "('k, 'v) dict \<Rightarrow> ('k, 'v) dict \<times> ('k \<times> 'v) list" where
  "dictEmpty d =
     (let (h0, f0) = dictClear (d_ht0 d); (h1, f1) = dictClear (d_ht1 d)
      in (d\<lparr>d_ht0 := h0, d_ht1 := h1, d_rehashidx := -1, d_iterators := 0\<rparr>, f0 @ f1))"

section \<open>Well-formed dictionaries\<close>

definition type_ok :: "('k, 'v) dictType \<Rightarrow> bool" where
  "type_ok ty \<longleftrightarrow>
     (\<forall>f. keyDup ty = Some f \<longrightarrow> (\<forall>k. f k = k)) \<and>
     (\<forall>f. valDup ty = Some f \<longrightarrow> (\<forall>v. f v = v)) \<and>
     (\<forall>c. keyCompare ty = Some c \<longrightarrow> (\<forall>a b. c a b \<longleftrightarrow> a = b))"

definition ht_ok :: "('k, 'v) dictType \<Rightarrow> ('k, 'v) dictht \<Rightarrow> bool" where
  "ht_ok ty ht \<longleftrightarrow>
     ht_size ht = length (ht_table ht) \<and> ht_sizemask ht = ht_size ht - 1 \<and>
     ht_used ht = length (concat (ht_table ht)) \<and>
     (\<forall>i < length (ht_table ht). \<forall>e \<in> set (ht_table ht ! i).
        hash_idx ht (hashFunction ty (fst e)) = i)"

definition entries :: "('k, 'v) dict \<Rightarrow> ('k \<times> 'v) list" where
  "entries d = concat (ht_table (d_ht0 d)) @ concat (ht_table (d_ht1 d))"

definition rehash_ok :: "('k, 'v) dict \<Rightarrow> bool" where
  "rehash_ok d \<longleftrightarrow>
     (if d_rehashidx d = -1 then d_ht1 d = dictReset
      else 0 \<le> d_rehashidx d \<and> 0 < ht_size (d_ht0 d) \<and> 0 < ht_size (d_ht1 d) \<and>
           nat (d_rehashidx d) \<le> ht_size (d_ht0 d) \<and>
           (\<forall>i < nat (d_rehashidx d). ht_table (d_ht0 d) ! i = []))"

definition dict_ok :: "('k, 'v) dict \<Rightarrow> bool" where
  "dict_ok d \<longleftrightarrow> type_ok (d_type d) \<and> ht_ok (d_type d) (d_ht0 d) \<and> ht_ok (d_type d) (d_ht1 d) \<and>
     distinct (map fst (entries d)) \<and> rehash_ok d"

definition dict_map :: "('k, 'v) dict \<Rightarrow> 'k \<rightharpoonup> 'v" where
  "dict_map d = map_of (entries d)"

lemma and_nat_le_right: "(a AND b :: nat) \<le> b"
  by (metis AND_upper2 nat_int_comparison(3) of_nat_0_le_iff of_nat_and_eq)

lemma hash_idx_less: "ht_ok ty ht \<Longrightarrow> 0 < ht_size ht \<Longrightarrow> hash_idx ht h < length (ht_table ht)"
  using and_nat_le_right [of "unat h" "ht_sizemask ht"]
  unfolding ht_ok_def hash_idx_def by linarith

lemma bucket_hash: "ht_ok ty ht \<Longrightarrow> 0 < ht_size ht \<Longrightarrow>
   bucket ht (hash_idx ht h) = Some (ht_table ht ! hash_idx ht h)"
  by (simp add: bucket_def hash_idx_less)

lemma cmp_eq: "type_ok (d_type d) \<Longrightarrow> dictCompareKeys d a b \<longleftrightarrow> a = b"
  by (auto simp: type_ok_def dictCompareKeys_def split: option.splits)

lemma keyOf_eq: "type_ok (d_type d) \<Longrightarrow> dictKeyOf d k = k"
  by (auto simp: type_ok_def dictKeyOf_def split: option.splits)

lemma valOf_eq: "type_ok (d_type d) \<Longrightarrow> dictValOf d v = v"
  by (auto simp: type_ok_def dictValOf_def split: option.splits)

lemma chain_pos_None: "type_ok (d_type d) \<Longrightarrow> chain_pos d key c = None \<longleftrightarrow> key \<notin> fst ` set c"
  by (induction c) (auto simp: cmp_eq)

lemma chain_pos_Some:
  "type_ok (d_type d) \<Longrightarrow> chain_pos d key c = Some p \<Longrightarrow> p < length c \<and> fst (c ! p) = key"
  by (induction c arbitrary: p) (auto simp: cmp_eq split: if_splits)

lemma chain_unlink_None: "type_ok (d_type d) \<Longrightarrow> chain_unlink d key c = None \<longleftrightarrow> key \<notin> fst ` set c"
  by (induction c) (auto simp: cmp_eq)

lemma chain_unlink_Some:
  "type_ok (d_type d) \<Longrightarrow> chain_unlink d key c = Some c' \<Longrightarrow>
   \<exists>v. mset c = add_mset (key, v) (mset c')"
proof (induction c arbitrary: c')
  case (Cons e c)
  show ?case
  proof (cases "fst e = key")
    case True
    with Cons.prems show ?thesis by (cases e) (auto simp: cmp_eq)
  next
    case False
    with Cons.prems obtain c'' where c'': "chain_unlink d key c = Some c''" "c' = e # c''"
      by (auto simp: cmp_eq)
    from Cons.IH [OF Cons.prems(1) c''(1)] c''(2) show ?thesis by auto
  qed
qed simp

lemma key_in_bucket:
  assumes "ht_ok ty ht" "0 < ht_size ht" "e \<in> set (concat (ht_table ht))"
  shows "e \<in> set (ht_table ht ! hash_idx ht (hashFunction ty (fst e)))"
  using assms by (auto simp: ht_ok_def in_set_conv_nth) (metis nth_mem)

lemma mset_concat_update:
  "i < length tbl \<Longrightarrow> mset (concat (tbl[i := c])) + mset (tbl ! i) = mset (concat tbl) + mset c"
proof (induction tbl arbitrary: i)
  case (Cons x tbl)
  then show ?case by (cases i) (auto simp: algebra_simps)
qed simp

lemma length_concat_update:
  "i < length tbl \<Longrightarrow> length (concat (tbl[i := c])) + length (tbl ! i) = length (concat tbl) + length c"
  using mset_concat_update [of i tbl c] by (metis size_mset size_union)

text \<open>Replacing the chain of one bucket.\<close>

lemma ht_ok_update:
  assumes "ht_ok ty ht" "i < length (ht_table ht)"
    and "\<forall>e \<in> set c. hash_idx ht (hashFunction ty (fst e)) = i"
    and "u + length (ht_table ht ! i) = ht_used ht + length c"
  shows "ht_ok ty (ht\<lparr>ht_table := (ht_table ht)[i := c], ht_used := u\<rparr>)"
proof -
  have h: "hash_idx (ht\<lparr>ht_table := (ht_table ht)[i := c], ht_used := u\<rparr>) = hash_idx ht"
    by (simp add: hash_idx_def fun_eq_iff)
  have "u = length (concat ((ht_table ht)[i := c]))"
    using assms length_concat_update [of i "ht_table ht" c] by (simp add: ht_ok_def)
  then show ?thesis using assms h by (auto simp: ht_ok_def nth_list_update)
qed

lemma entries_perm:
  "mset (entries d') = mset (entries d) \<Longrightarrow> distinct (map fst (entries d)) \<Longrightarrow>
   distinct (map fst (entries d')) \<and> dict_map d' = dict_map d"
proof -
  assume m: "mset (entries d') = mset (entries d)" and di: "distinct (map fst (entries d))"
  have "mset (map fst (entries d')) = mset (map fst (entries d))" using m by simp
  then have d': "distinct (map fst (entries d'))" using di by (metis mset_eq_imp_distinct_iff)
  moreover have "set (entries d') = set (entries d)" using m by (rule mset_eq_setD)
  ultimately show ?thesis using di by (simp add: dict_map_def map_of_inject_set)
qed

lemma move_entries_ok:
  assumes "ht_ok (d_type d) (d_ht1 d)" "0 < ht_size (d_ht1 d)"
  shows "\<exists>h1. move_entries d c = Some (d\<lparr>d_ht0 := (d_ht0 d)\<lparr>ht_used := ht_used (d_ht0 d) - length c\<rparr>,
            d_ht1 := h1\<rparr>) \<and> ht_ok (d_type d) h1 \<and> ht_size h1 = ht_size (d_ht1 d) \<and>
          mset (concat (ht_table h1)) = mset (concat (ht_table (d_ht1 d))) + mset c"
  using assms
proof (induction c arbitrary: d)
  case Nil
  then show ?case by (intro exI [of _ "d_ht1 d"]) simp
next
  case (Cons e c)
  define h where "h = hash_idx (d_ht1 d) (dictHashKey d (fst e))"
  define x where "x = ht_table (d_ht1 d) ! h"
  define h1 where "h1 = (d_ht1 d)\<lparr>ht_table := (ht_table (d_ht1 d))[h := e # x],
                                  ht_used := ht_used (d_ht1 d) + 1\<rparr>"
  define d1 where "d1 = d\<lparr>d_ht0 := (d_ht0 d)\<lparr>ht_used := ht_used (d_ht0 d) - 1\<rparr>, d_ht1 := h1\<rparr>"
  have hl: "h < length (ht_table (d_ht1 d))"
    using Cons.prems hash_idx_less by (auto simp: h_def)
  have b: "bucket (d_ht1 d) h = Some x" using hl by (simp add: bucket_def x_def)
  have "\<forall>e' \<in> set (e # x). hash_idx (d_ht1 d) (hashFunction (d_type d) (fst e')) = h"
    using Cons.prems hl by (auto simp: ht_ok_def x_def h_def dictHashKey_def)
  then have ok1: "ht_ok (d_type d) h1"
    unfolding h1_def using Cons.prems hl by (intro ht_ok_update) (simp_all add: x_def)
  have m1: "mset (concat (ht_table h1)) = mset (concat (ht_table (d_ht1 d))) + {#e#}"
    using mset_concat_update [OF hl, of "e # x"] by (simp add: h1_def x_def)
  have "ht_ok (d_type d1) (d_ht1 d1)" "0 < ht_size (d_ht1 d1)"
    using ok1 Cons.prems by (simp_all add: d1_def h1_def)
  from Cons.IH [OF this] obtain h2 where
    "move_entries d1 c = Some (d1\<lparr>d_ht0 := (d_ht0 d1)\<lparr>ht_used := ht_used (d_ht0 d1) - length c\<rparr>, d_ht1 := h2\<rparr>)"
    "ht_ok (d_type d1) h2" "ht_size h2 = ht_size (d_ht1 d1)"
    "mset (concat (ht_table h2)) = mset (concat (ht_table (d_ht1 d1))) + mset c" by blast
  moreover have "move_entries d (e # c) = move_entries d1 c"
    using b by (simp add: h_def [symmetric] d1_def h1_def)
  ultimately show ?case using m1 by (auto simp: d1_def h1_def)
qed

section \<open>Rehashing keeps the contents\<close>

lemma skip_empty_Some:
  "(\<exists>j. i \<le> j \<and> j < length tbl \<and> tbl ! j \<noteq> []) \<Longrightarrow>
   \<exists>j. skip_empty tbl i = Some j \<and> i \<le> j \<and> j < length tbl \<and> tbl ! j \<noteq> [] \<and>
       (\<forall>k. i \<le> k \<and> k < j \<longrightarrow> tbl ! k = [])"
proof (induction tbl i rule: skip_empty.induct)
  case (1 tbl i)
  then obtain j where j: "i \<le> j" "j < length tbl" "tbl ! j \<noteq> []" by blast
  show ?case
  proof (cases "tbl ! i = []")
    case True
    with j have "Suc i \<le> j" by (metis Suc_leI le_neq_implies_less)
    with 1 True j obtain j' where
      "skip_empty tbl (Suc i) = Some j'" "Suc i \<le> j'" "j' < length tbl" "tbl ! j' \<noteq> []"
      "\<forall>k. Suc i \<le> k \<and> k < j' \<longrightarrow> tbl ! k = []" by auto
    with True j show ?thesis
      by (subst skip_empty.simps) (auto, metis le_antisym not_less_eq_eq)
  next
    case False
    with j show ?thesis by (subst skip_empty.simps) auto
  qed
qed

lemma used_pos_bucket:
  assumes "ht_ok ty ht" "0 < ht_used ht" "\<forall>i < n. ht_table ht ! i = []"
  shows "\<exists>j. n \<le> j \<and> j < length (ht_table ht) \<and> ht_table ht ! j \<noteq> []"
proof -
  from assms have "concat (ht_table ht) \<noteq> []" by (auto simp: ht_ok_def)
  then obtain c where "c \<in> set (ht_table ht)" "c \<noteq> []" by auto
  then obtain j where "j < length (ht_table ht)" "ht_table ht ! j \<noteq> []" by (auto simp: in_set_conv_nth)
  with assms(3) show ?thesis by (metis not_le)
qed

definition rehash_left :: "('k, 'v) dict \<Rightarrow> nat" where
  "rehash_left d = ht_size (d_ht0 d) - nat (d_rehashidx d)"

text \<open>One iteration of the loop that moves a bucket.\<close>

lemma rehash_iter_ok:
  assumes ok: "dict_ok d" and re: "dictIsRehashing d" and us: "0 < ht_used (d_ht0 d)"
  shows "\<exists>d'. dictRehash_loop (Suc n) d = dictRehash_loop n d' \<and> dict_ok d' \<and> dictIsRehashing d' \<and>
     mset (entries d') = mset (entries d) \<and> d_type d' = d_type d \<and> d_iterators d' = d_iterators d \<and>
     rehash_left d' < rehash_left d"
proof -
  let ?r = "nat (d_rehashidx d)"
  have rh: "0 \<le> d_rehashidx d" "0 < ht_size (d_ht0 d)" "0 < ht_size (d_ht1 d)"
    "\<forall>i < ?r. ht_table (d_ht0 d) ! i = []"
    using ok re by (auto simp: dict_ok_def rehash_ok_def dictIsRehashing_def)
  have h0: "ht_ok (d_type d) (d_ht0 d)" and h1: "ht_ok (d_type d) (d_ht1 d)"
    using ok by (auto simp: dict_ok_def)
  obtain j where j: "skip_empty (ht_table (d_ht0 d)) ?r = Some j" "?r \<le> j"
      "j < length (ht_table (d_ht0 d))" "\<forall>k. ?r \<le> k \<and> k < j \<longrightarrow> ht_table (d_ht0 d) ! k = []"
    using skip_empty_Some [OF used_pos_bucket [OF h0 us rh(4)]] by blast
  define c where "c = ht_table (d_ht0 d) ! j"
  obtain g where g: "move_entries d c = Some (d\<lparr>d_ht0 := (d_ht0 d)\<lparr>ht_used := ht_used (d_ht0 d) - length c\<rparr>,
      d_ht1 := g\<rparr>)" "ht_ok (d_type d) g" "ht_size g = ht_size (d_ht1 d)"
      "mset (concat (ht_table g)) = mset (concat (ht_table (d_ht1 d))) + mset c"
    using move_entries_ok [OF h1 rh(3)] by blast
  define h0' where "h0' = (d_ht0 d)\<lparr>ht_table := (ht_table (d_ht0 d))[j := []],
      ht_used := ht_used (d_ht0 d) - length c\<rparr>"
  define d' where "d' = d\<lparr>d_ht0 := h0', d_ht1 := g, d_rehashidx := int j + 1\<rparr>"
  have lc: "length c \<le> ht_used (d_ht0 d)"
    using length_concat_update [OF j(3), of "[]"] h0 by (simp add: ht_ok_def c_def)
  have ok0: "ht_ok (d_type d) h0'"
    unfolding h0'_def using h0 j(3) lc by (intro ht_ok_update) (simp_all add: c_def)
  have m0: "mset (concat (ht_table h0')) + mset c = mset (concat (ht_table (d_ht0 d)))"
    using mset_concat_update [OF j(3), of "[]"] by (simp add: h0'_def c_def)
  have m: "mset (entries d') = mset (entries d)"
    using m0 g(4) by (simp add: entries_def d'_def algebra_simps)
  have jl: "?r < ht_size (d_ht0 d)" "j < ht_size (d_ht0 d)" using j h0 by (auto simp: ht_ok_def)
  have "rehash_ok d'"
    using rh j g(3) h0 unfolding rehash_ok_def d'_def h0'_def
    by (auto simp: nth_list_update ht_ok_def less_Suc_eq nat_add_distrib) (metis not_le)
  then have "dict_ok d'"
    using ok ok0 g(2) entries_perm [OF m] by (auto simp: dict_ok_def d'_def)
  moreover have "dictRehash_loop (Suc n) d = dictRehash_loop n d'"
    using us jl(1) j(1,3) g(1)
    by (cases d, cases "d_ht0 d") (simp add: bucket_def c_def d'_def h0'_def)
  moreover have "rehash_left d' < rehash_left d"
    using jl j(2) by (simp add: rehash_left_def d'_def h0'_def nat_add_distrib)
  ultimately show ?thesis using m by (auto simp: d'_def dictIsRehashing_def)
qed

lemma rehash_done_ok:
  assumes ok: "dict_ok d" and re: "dictIsRehashing d" and us: "ht_used (d_ht0 d) = 0"
  defines "d' \<equiv> d\<lparr>d_ht0 := d_ht1 d, d_ht1 := dictReset, d_rehashidx := -1\<rparr>"
  shows "dict_ok d'" "mset (entries d') = mset (entries d)" "\<not> dictIsRehashing d'" "0 < ht_size (d_ht0 d')"
proof -
  have e: "concat (ht_table (d_ht0 d)) = []" using ok us by (auto simp: dict_ok_def ht_ok_def)
  show m: "mset (entries d') = mset (entries d)" using e by (simp add: entries_def d'_def dictReset_def)
  show "dict_ok d'"
    using ok entries_perm [OF m]
    by (auto simp: dict_ok_def d'_def rehash_ok_def ht_ok_def dictReset_def)
  show "\<not> dictIsRehashing d'" by (simp add: d'_def dictIsRehashing_def)
  show "0 < ht_size (d_ht0 d')" using ok re by (auto simp: d'_def dict_ok_def rehash_ok_def dictIsRehashing_def)
qed

lemma dictRehash_loop_ok:
  assumes "dict_ok d" and "dictIsRehashing d"
  shows "\<exists>d' b. dictRehash_loop n d = Some (d', b) \<and> dict_ok d' \<and> mset (entries d') = mset (entries d) \<and>
     d_type d' = d_type d \<and> d_iterators d' = d_iterators d \<and> 0 < ht_size (d_ht0 d') \<and>
     b = dictIsRehashing d' \<and> (rehash_left d < n \<longrightarrow> \<not> b)"
  using assms
proof (induction n arbitrary: d)
  case 0
  then show ?case by (auto simp: dict_ok_def rehash_ok_def dictIsRehashing_def)
next
  case (Suc n)
  show ?case
  proof (cases "ht_used (d_ht0 d) = 0")
    case True
    with rehash_done_ok [OF Suc.prems True] show ?thesis by auto
  next
    case False
    then obtain d' where d': "dictRehash_loop (Suc n) d = dictRehash_loop n d'" "dict_ok d'" "dictIsRehashing d'"
      "mset (entries d') = mset (entries d)" "d_type d' = d_type d" "d_iterators d' = d_iterators d"
      "rehash_left d' < rehash_left d"
      using rehash_iter_ok [OF Suc.prems, of n] by auto
    from Suc.IH [OF d'(2,3)] d'(1,4-7) show ?thesis by fastforce
  qed
qed

lemma rehash_if_needed_ok:
  assumes "dict_ok d" and "0 < ht_size (d_ht0 d)"
  shows "\<exists>d'. rehash_if_needed d = Some d' \<and> dict_ok d' \<and> mset (entries d') = mset (entries d) \<and>
     d_type d' = d_type d \<and> d_iterators d' = d_iterators d \<and> 0 < ht_size (d_ht0 d')"
proof (cases "dictIsRehashing d")
  case True
  from dictRehash_loop_ok [OF assms(1) True, of 1] True assms(2) show ?thesis
    by (auto simp: rehash_if_needed_def dictRehashStep_def dictRehash_def assms(1)
        simp del: dictRehash_loop.simps)
qed (use assms in \<open>simp add: rehash_if_needed_def\<close>)

section \<open>Growing and finding the insertion bucket\<close>

lemma entries_put:
  assumes "i < length (ht_table (dict_ht d t))"
  shows "mset (entries (set_ht d t ((dict_ht d t)\<lparr>ht_table := (ht_table (dict_ht d t))[i := c], ht_used := u\<rparr>)))
     + mset (ht_table (dict_ht d t) ! i) = mset (entries d) + mset c"
  using mset_concat_update [OF assms, of c] by (cases t) (auto simp: entries_def set_ht_def dict_ht_def algebra_simps)

lemma dict_ok_put:
  assumes ok: "dict_ok d" and i: "i < length (ht_table (dict_ht d t))"
    and c: "\<forall>e \<in> set c. hash_idx (dict_ht d t) (hashFunction (d_type d) (fst e)) = i"
    and u: "u + length (ht_table (dict_ht d t) ! i) = ht_used (dict_ht d t) + length c"
    and em: "\<not> t \<Longrightarrow> dictIsRehashing d \<Longrightarrow> ht_table (d_ht0 d) ! i \<noteq> []"
    and di: "distinct (map fst (entries (set_ht d t ((dict_ht d t)\<lparr>ht_table := (ht_table (dict_ht d t))[i := c], ht_used := u\<rparr>))))"
  shows "dict_ok (set_ht d t ((dict_ht d t)\<lparr>ht_table := (ht_table (dict_ht d t))[i := c], ht_used := u\<rparr>))"
proof -
  have "ht_ok (d_type d) (dict_ht d t)" using ok by (auto simp: dict_ok_def dict_ht_def)
  then have 1: "ht_ok (d_type d) ((dict_ht d t)\<lparr>ht_table := (ht_table (dict_ht d t))[i := c], ht_used := u\<rparr>)"
    using i c u by (intro ht_ok_update)
  have r: "rehash_ok d" using ok by (simp add: dict_ok_def)
  have 2: "rehash_ok (set_ht d t ((dict_ht d t)\<lparr>ht_table := (ht_table (dict_ht d t))[i := c], ht_used := u\<rparr>))"
  proof (cases t)
    case True
    with r i show ?thesis by (auto simp: rehash_ok_def set_ht_def dict_ht_def dictReset_def)
  next
    case False
    with r i em show ?thesis
      by (auto simp: rehash_ok_def set_ht_def dict_ht_def dictIsRehashing_def nth_list_update)
  qed
  from 1 2 ok di show ?thesis by (cases t) (auto simp: dict_ok_def set_ht_def dict_ht_def)
qed

lemma dictNextPower_loop_ge: "0 < i \<Longrightarrow> i \<le> dictNextPower_loop i n \<and> n \<le> dictNextPower_loop i n"
proof (induction i n rule: dictNextPower_loop.induct)
  case (1 i n)
  then show ?case by (subst (1 2) dictNextPower_loop.simps) force
qed

lemma dictNextPower_pos: "0 < dictNextPower n"
  using dictNextPower_loop_ge [of 4 n] by (auto simp: dictNextPower_def)

lemma ht_ok_fresh: "ht_ok ty \<lparr>ht_table = replicate n [], ht_size = n, ht_sizemask = n - 1, ht_used = 0\<rparr>"
  by (simp add: ht_ok_def)

lemma dictExpand_ok:
  assumes ok: "dict_ok d" and nr: "\<not> dictIsRehashing d" and u: "ht_used (d_ht0 d) \<le> n"
  shows "\<exists>d'. dictExpand d n = (d', DICT_OK) \<and> dict_ok d' \<and> mset (entries d') = mset (entries d) \<and>
     d_type d' = d_type d \<and> d_iterators d' = d_iterators d \<and> 0 < ht_size (d_ht0 d')"
proof -
  let ?N = "\<lparr>ht_table = replicate (dictNextPower n) [], ht_size = dictNextPower n,
                 ht_sizemask = dictNextPower n - 1, ht_used = 0\<rparr> :: ('a, 'b) dictht"
  have h1: "d_ht1 d = dictReset" using ok nr by (auto simp: dict_ok_def rehash_ok_def dictIsRehashing_def)
  have pos: "0 < dictNextPower n" by (rule dictNextPower_pos)
  show ?thesis
  proof (cases "ht_table (d_ht0 d) = []")
    case True
    define d' where "d' = d\<lparr>d_ht0 := ?N\<rparr>"
    have m: "mset (entries d') = mset (entries d)" using True by (simp add: entries_def d'_def)
    have "dict_ok d'"
      using ok entries_perm [OF m] ht_ok_fresh nr h1
      by (auto simp: dict_ok_def d'_def rehash_ok_def dictIsRehashing_def)
    moreover have "dictExpand d n = (d', DICT_OK)" using True nr u by (simp add: dictExpand_def Let_def d'_def)
    ultimately show ?thesis using m pos by (simp add: d'_def)
  next
    case False
    define d' where "d' = d\<lparr>d_ht1 := ?N, d_rehashidx := 0\<rparr>"
    have m: "mset (entries d') = mset (entries d)" using h1 by (simp add: entries_def d'_def dictReset_def)
    have s: "0 < ht_size (d_ht0 d)" using False ok by (auto simp: dict_ok_def ht_ok_def)
    have "dict_ok d'"
      using ok entries_perm [OF m] ht_ok_fresh nr h1 pos s
      by (auto simp: dict_ok_def d'_def rehash_ok_def)
    moreover have "dictExpand d n = (d', DICT_OK)" using False nr u by (simp add: dictExpand_def Let_def d'_def)
    ultimately show ?thesis using m s by (simp add: d'_def)
  qed
qed

lemma dictExpandIfNeeded_ok:
  assumes ok: "dict_ok d"
  shows "\<exists>d'. dictExpandIfNeeded cr d = (d', DICT_OK) \<and> dict_ok d' \<and> mset (entries d') = mset (entries d) \<and>
     d_type d' = d_type d \<and> d_iterators d' = d_iterators d \<and> 0 < ht_size (d_ht0 d')"
proof (cases "dictIsRehashing d")
  case True
  with ok show ?thesis by (auto simp: dictExpandIfNeeded_def dict_ok_def rehash_ok_def dictIsRehashing_def)
next
  case False
  have z: "ht_size (d_ht0 d) = 0 \<Longrightarrow> ht_used (d_ht0 d) \<le> 4" using ok by (auto simp: dict_ok_def ht_ok_def)
  show ?thesis
    using dictExpand_ok [OF ok False] z ok False by (auto simp: dictExpandIfNeeded_def)
qed

lemma dom_dict_map: "dom (dict_map d) = fst ` set (entries d)"
  by (simp add: dict_map_def dom_map_of_conv_image_fst)

text \<open>A key is present exactly if one of the (at most two) buckets the code inspects has it.\<close>

lemma key_in_ht:
  assumes "ht_ok ty ht" "0 < ht_size ht"
  shows "k \<in> fst ` set (concat (ht_table ht)) \<longleftrightarrow> k \<in> fst ` set (ht_table ht ! hash_idx ht (hashFunction ty k))"
proof
  assume "k \<in> fst ` set (concat (ht_table ht))"
  then obtain e where e: "e \<in> set (concat (ht_table ht))" "k = fst e" by blast
  with key_in_bucket [OF assms e(1)] show "k \<in> fst ` set (ht_table ht ! hash_idx ht (hashFunction ty k))"
    by blast
next
  assume "k \<in> fst ` set (ht_table ht ! hash_idx ht (hashFunction ty k))"
  then obtain e where e: "e \<in> set (ht_table ht ! hash_idx ht (hashFunction ty k))" "k = fst e" by blast
  have "ht_table ht ! hash_idx ht (hashFunction ty k) \<in> set (ht_table ht)"
    using hash_idx_less [OF assms] by (rule nth_mem)
  with e show "k \<in> fst ` set (concat (ht_table ht))" unfolding set_concat by blast
qed

lemma dict_sizes:
  assumes "dict_ok d" "0 < ht_size (d_ht0 d)"
  shows "ht_ok (d_type d) (d_ht0 d)" "ht_ok (d_type d) (d_ht1 d)" "type_ok (d_type d)"
    "dictIsRehashing d \<Longrightarrow> 0 < ht_size (d_ht1 d)" "\<not> dictIsRehashing d \<Longrightarrow> d_ht1 d = dictReset"
  using assms by (auto simp: dict_ok_def rehash_ok_def dictIsRehashing_def)

lemma dict_dom:
  assumes "dict_ok d" "0 < ht_size (d_ht0 d)"
  shows "k \<in> dom (dict_map d) \<longleftrightarrow>
     k \<in> fst ` set (ht_table (d_ht0 d) ! hash_idx (d_ht0 d) (dictHashKey d k)) \<or>
     dictIsRehashing d \<and> k \<in> fst ` set (ht_table (d_ht1 d) ! hash_idx (d_ht1 d) (dictHashKey d k))"
proof -
  note s = dict_sizes [OF assms]
  have "k \<in> dom (dict_map d) \<longleftrightarrow>
      k \<in> fst ` set (concat (ht_table (d_ht0 d))) \<or> k \<in> fst ` set (concat (ht_table (d_ht1 d)))"
    unfolding dom_dict_map entries_def set_append image_Un by blast
  moreover have "k \<in> fst ` set (concat (ht_table (d_ht1 d))) \<longleftrightarrow>
      dictIsRehashing d \<and> k \<in> fst ` set (ht_table (d_ht1 d) ! hash_idx (d_ht1 d) (dictHashKey d k))"
  proof (cases "dictIsRehashing d")
    case True
    with key_in_ht [OF s(2) s(4), of k] show ?thesis unfolding dictHashKey_def by blast
  qed (simp add: s(5) dictReset_def)
  ultimately show ?thesis using key_in_ht [OF s(1) assms(2), of k] unfolding dictHashKey_def by blast
qed

lemma dictKeyIndex_ok:
  assumes ok: "dict_ok d"
  shows "\<exists>d' r. dictKeyIndex cr d key = Some (d', r) \<and> dict_ok d' \<and> mset (entries d') = mset (entries d) \<and>
     d_type d' = d_type d \<and> d_iterators d' = d_iterators d \<and> 0 < ht_size (d_ht0 d') \<and>
     (r = None \<longleftrightarrow> key \<in> dom (dict_map d)) \<and>
     (\<forall>i. r = Some i \<longrightarrow> i = hash_idx (dict_ht d' (dictIsRehashing d')) (dictHashKey d' key))"
proof -
  obtain d' where d': "dictExpandIfNeeded cr d = (d', DICT_OK)" "dict_ok d'" "mset (entries d') = mset (entries d)"
    "d_type d' = d_type d" "d_iterators d' = d_iterators d" "0 < ht_size (d_ht0 d')"
    using dictExpandIfNeeded_ok [OF ok] by blast
  have dm: "dict_map d' = dict_map d" using entries_perm [OF d'(3)] ok by (simp add: dict_ok_def)
  note s = dict_sizes [OF d'(2,6)]
  have b0: "bucket (d_ht0 d') (hash_idx (d_ht0 d') h) = Some (ht_table (d_ht0 d') ! hash_idx (d_ht0 d') h)" for h
    using bucket_hash [OF s(1) d'(6)] .
  have b1: "dictIsRehashing d' \<Longrightarrow> bucket (d_ht1 d') (hash_idx (d_ht1 d') h) = Some (ht_table (d_ht1 d') ! hash_idx (d_ht1 d') h)" for h
    using bucket_hash [OF s(2) s(4)] .
  define k0 where "k0 \<longleftrightarrow> key \<in> fst ` set (ht_table (d_ht0 d') ! hash_idx (d_ht0 d') (dictHashKey d' key))"
  define k1 where "k1 \<longleftrightarrow> key \<in> fst ` set (ht_table (d_ht1 d') ! hash_idx (d_ht1 d') (dictHashKey d' key))"
  have dom: "key \<in> dom (dict_map d) \<longleftrightarrow> k0 \<or> dictIsRehashing d' \<and> k1"
    using dict_dom [OF d'(2,6), of key] unfolding dm k0_def k1_def .
  have eq: "dictKeyIndex cr d key = Some (d', if k0 then None
      else if \<not> dictIsRehashing d' then Some (hash_idx (d_ht0 d') (dictHashKey d' key))
      else if k1 then None else Some (hash_idx (d_ht1 d') (dictHashKey d' key)))"
    using d'(1) b0 b1 chain_pos_None [OF s(3)] by (simp add: dictKeyIndex_def Let_def k0_def k1_def)
  show ?thesis unfolding eq using d' dom by (auto simp: dict_ht_def)
qed

section \<open>Insertion and lookup\<close>

lemma distinct_entries_iff: "mset (entries d') = mset xs \<Longrightarrow> distinct (map fst (entries d')) \<longleftrightarrow> distinct (map fst xs)"
  by (metis mset_eq_imp_distinct_iff mset_map)

lemma dict_map_mset:
  "mset (entries d') = mset xs \<Longrightarrow> distinct (map fst xs) \<Longrightarrow> dict_map d' = map_of xs"
  using distinct_entries_iff [of d' xs] mset_eq_setD [of "entries d'" xs]
  by (simp add: dict_map_def map_of_inject_set)

lemma rehash_if_needed_any:
  assumes "dict_ok d"
  shows "\<exists>d'. rehash_if_needed d = Some d' \<and> dict_ok d' \<and> mset (entries d') = mset (entries d) \<and>
     d_type d' = d_type d \<and> d_iterators d' = d_iterators d"
proof (cases "0 < ht_size (d_ht0 d)")
  case True
  with rehash_if_needed_ok [OF assms] show ?thesis by blast
next
  case False
  with assms have "\<not> dictIsRehashing d"
    by (auto simp: dict_ok_def rehash_ok_def dictIsRehashing_def split: if_splits)
  with assms show ?thesis by (simp add: rehash_if_needed_def)
qed

lemma dictAddRaw_ok:
  assumes ok: "dict_ok d"
  shows "if key \<in> dom (dict_map d)
    then \<exists>d'. dictAddRaw cr junk d key = Some (d', None) \<and> dict_ok d' \<and> mset (entries d') = mset (entries d) \<and>
           d_type d' = d_type d \<and> d_iterators d' = d_iterators d \<and> 0 < ht_size (d_ht0 d')
    else \<exists>d' t i. dictAddRaw cr junk d key = Some (d', Some (t, i, 0)) \<and> dict_ok d' \<and>
           mset (entries d') = add_mset (key, junk) (mset (entries d)) \<and>
           d_type d' = d_type d \<and> d_iterators d' = d_iterators d \<and>
           i < length (ht_table (dict_ht d' t)) \<and>
           (\<exists>c. ht_table (dict_ht d' t) ! i = (key, junk) # c)"
proof -
  obtain d1 where d1: "rehash_if_needed d = Some d1" "dict_ok d1" "mset (entries d1) = mset (entries d)"
      "d_type d1 = d_type d" "d_iterators d1 = d_iterators d"
    using rehash_if_needed_any [OF ok] by blast
  obtain d2 r where d2: "dictKeyIndex cr d1 key = Some (d2, r)" "dict_ok d2" "mset (entries d2) = mset (entries d1)"
     "d_type d2 = d_type d1" "d_iterators d2 = d_iterators d1" "0 < ht_size (d_ht0 d2)"
     "r = None \<longleftrightarrow> key \<in> dom (dict_map d1)"
     "\<forall>i. r = Some i \<longrightarrow> i = hash_idx (dict_ht d2 (dictIsRehashing d2)) (dictHashKey d2 key)"
    using dictKeyIndex_ok [OF d1(2)] by blast
  have dm: "dict_map d1 = dict_map d" "dict_map d2 = dict_map d"
    using entries_perm [OF d1(3)] entries_perm [of d2 d] d2(3) d1(3) ok by (auto simp: dict_ok_def)
  show ?thesis
  proof (cases "key \<in> dom (dict_map d)")
    case True
    then have "r = None" using d2(7) dm by simp
    with True d1 d2 show ?thesis by (auto simp: dictAddRaw_def)
  next
    case False
    then obtain i where r: "r = Some i" using d2(7) dm by fastforce
    define t where "t = dictIsRehashing d2"
    note s = dict_sizes [OF d2(2,6)]
    have hi: "i = hash_idx (dict_ht d2 t) (dictHashKey d2 key)" using d2(8) r by (simp add: t_def)
    have ht: "ht_ok (d_type d2) (dict_ht d2 t)" "0 < ht_size (dict_ht d2 t)"
      using s d2(6) by (auto simp: dict_ht_def t_def)
    have il: "i < length (ht_table (dict_ht d2 t))" using hash_idx_less [OF ht] hi by simp
    define c where "c = ht_table (dict_ht d2 t) ! i"
    define d3 where "d3 = set_ht d2 t ((dict_ht d2 t)\<lparr>ht_table := (ht_table (dict_ht d2 t))[i := (key, junk) # c],
        ht_used := ht_used (dict_ht d2 t) + 1\<rparr>)"
    have m: "mset (entries d3) = add_mset (key, junk) (mset (entries d2))"
      using entries_put [OF il, where c = "(key, junk) # c"] by (simp add: d3_def c_def)
    have "distinct (map fst ((key, junk) # entries d2))"
      using d2(2) False dm by (auto simp: dict_ok_def dom_dict_map [symmetric])
    then have di: "distinct (map fst (entries d3))" using m distinct_entries_iff [of d3 "(key, junk) # entries d2"] by simp
    have "\<forall>e \<in> set ((key, junk) # c). hash_idx (dict_ht d2 t) (hashFunction (d_type d2) (fst e)) = i"
      using ht il hi by (auto simp: ht_ok_def c_def dictHashKey_def)
    then have "dict_ok d3"
      unfolding d3_def using d2(2) il di by (intro dict_ok_put) (simp_all add: c_def d3_def t_def)
    moreover have "dictAddRaw cr junk d key = Some (d3, Some (t, i, 0))"
      using d1(1) d2(1) r il keyOf_eq [OF s(3)]
      by (simp add: dictAddRaw_def bucket_def Let_def t_def [symmetric] c_def [symmetric] d3_def)
    moreover have "i < length (ht_table (dict_ht d3 t)) \<and> ht_table (dict_ht d3 t) ! i = (key, junk) # c"
      using il by (cases t) (simp_all add: d3_def dict_ht_def set_ht_def)
    moreover have "d_type d3 = d_type d" "d_iterators d3 = d_iterators d"
      using d1 d2 by (simp_all add: d3_def set_ht_def)
    ultimately show ?thesis using False m d1(3) d2(3) by auto
  qed
qed

text \<open>Writing the value of an existing entry.\<close>

lemma dictSetVal_ok:
  assumes ok: "dict_ok d" and i: "i < length (ht_table (dict_ht d t))"
    and p: "p < length (ht_table (dict_ht d t) ! i)" "ht_table (dict_ht d t) ! i ! p = (key, w)"
  shows "\<exists>d'. dictSetVal d (t, i, p) v = Some d' \<and> dict_ok d' \<and>
     mset (entries d') + {#(key, w)#} = add_mset (key, v) (mset (entries d)) \<and>
     d_type d' = d_type d \<and> d_iterators d' = d_iterators d"
proof -
  define c where "c = ht_table (dict_ht d t) ! i"
  define c' where "c' = c[p := (key, v)]"
  define d' where "d' = set_ht d t ((dict_ht d t)\<lparr>ht_table := (ht_table (dict_ht d t))[i := c'],
      ht_used := ht_used (dict_ht d t)\<rparr>)"
  have "mset c' = add_mset (key, v) (mset c - {#(key, w)#})"
    using p by (simp add: c'_def c_def mset_update)
  moreover have "(key, w) \<in> set c" using p nth_mem [of p c] by (simp add: c_def)
  ultimately have mc: "mset c' + {#(key, w)#} = add_mset (key, v) (mset c)" by simp
  have "mset (entries d') + mset c = mset (entries d) + mset c'"
    using entries_put [OF i, where c = c' and u = "ht_used (dict_ht d t)"] by (simp add: d'_def c_def)
  then have "mset (entries d') + mset c + {#(key, w)#} = mset (entries d) + (add_mset (key, v) (mset c))"
    using mc by (simp add: ac_simps)
  then have m: "mset (entries d') + {#(key, w)#} = add_mset (key, v) (mset (entries d))"
    by (simp add: ac_simps)
  then have "image_mset fst (mset (entries d') + {#(key, w)#}) = image_mset fst (add_mset (key, v) (mset (entries d)))"
    by (rule arg_cong)
  then have "mset (map fst (entries d')) = mset (map fst (entries d))" by simp
  then have di: "distinct (map fst (entries d'))" using ok by (metis dict_ok_def mset_eq_imp_distinct_iff)
  have ho: "ht_ok (d_type d) (dict_ht d t)" using ok by (auto simp: dict_ok_def dict_ht_def)
  have "\<forall>e \<in> set c'. hash_idx (dict_ht d t) (hashFunction (d_type d) (fst e)) = i"
  proof
    fix e assume "e \<in> set c'"
    then have "e \<in> set c \<or> e = (key, v)" using set_update_subset_insert [of c p "(key, v)"] by (auto simp: c'_def)
    then have "\<exists>e' \<in> set c. fst e' = fst e" using \<open>(key, w) \<in> set c\<close> by force
    then obtain e' where e': "e' \<in> set c" "fst e' = fst e" by blast
    then have "hash_idx (dict_ht d t) (hashFunction (d_type d) (fst e')) = i"
      using ho i e'(1) unfolding ht_ok_def c_def by blast
    then show "hash_idx (dict_ht d t) (hashFunction (d_type d) (fst e)) = i" using e'(2) by simp
  qed
  then have "dict_ok d'"
    unfolding d'_def using ok i di p by (intro dict_ok_put) (auto simp: c'_def c_def d'_def dict_ht_def)
  moreover have "dictSetVal d (t, i, p) v = Some d'"
    using i p valOf_eq [of d v] ok
    by (cases "dict_ht d t") (simp add: dictSetVal_def bucket_def d'_def c'_def c_def dict_ok_def)
  ultimately show ?thesis using m by (auto simp: d'_def set_ht_def)
qed

lemma dictAdd_ok:
  assumes ok: "dict_ok d"
  shows "\<exists>d'. dictAdd cr junk d key v = Some (d', if key \<in> dom (dict_map d) then DICT_ERR else DICT_OK) \<and>
     dict_ok d' \<and> d_type d' = d_type d \<and> d_iterators d' = d_iterators d \<and> 0 < ht_size (d_ht0 d') \<and>
     mset (entries d') = (if key \<in> dom (dict_map d) then mset (entries d) else add_mset (key, v) (mset (entries d)))"
proof (cases "key \<in> dom (dict_map d)")
  case True
  with dictAddRaw_ok [OF ok, of key cr junk] show ?thesis by (auto simp: dictAdd_def)
next
  case False
  then obtain d1 t i c where d1: "dictAddRaw cr junk d key = Some (d1, Some (t, i, 0))" "dict_ok d1"
     "mset (entries d1) = add_mset (key, junk) (mset (entries d))" "d_type d1 = d_type d"
     "d_iterators d1 = d_iterators d" "i < length (ht_table (dict_ht d1 t))"
     "ht_table (dict_ht d1 t) ! i = (key, junk) # c"
    using dictAddRaw_ok [OF ok, of key cr junk] unfolding if_not_P [OF False] by blast
  obtain d2 where d2: "dictSetVal d1 (t, i, 0) v = Some d2" "dict_ok d2"
     "mset (entries d2) + {#(key, junk)#} = add_mset (key, v) (mset (entries d1))"
     "d_type d2 = d_type d1" "d_iterators d2 = d_iterators d1"
    using dictSetVal_ok [OF d1(2) d1(6), of 0 key junk v] d1(7) by auto
  have m: "mset (entries d2) = add_mset (key, v) (mset (entries d))" using d2(3) d1(3) by simp
  have "entries d2 \<noteq> []" using m by (metis mset_zero_iff add_mset_not_empty)
  then have "0 < ht_size (d_ht0 d2)"
    using d2(2) by (auto simp: dict_ok_def rehash_ok_def ht_ok_def entries_def dictReset_def split: if_splits)
  with False d1 d2 m show ?thesis by (auto simp: dictAdd_def)
qed

lemma dictFind_ok:
  assumes ok: "dict_ok d"
  shows "\<exists>d' r. dictFind d key = Some (d', r) \<and> dict_ok d' \<and> mset (entries d') = mset (entries d) \<and>
     d_type d' = d_type d \<and> d_iterators d' = d_iterators d \<and> (r = None \<longleftrightarrow> key \<notin> dom (dict_map d)) \<and>
     (\<forall>t i p. r = Some (t, i, p) \<longrightarrow> i < length (ht_table (dict_ht d' t)) \<and>
        p < length (ht_table (dict_ht d' t) ! i) \<and>
        (\<exists>w. ht_table (dict_ht d' t) ! i ! p = (key, w) \<and> dict_map d key = Some w))"
proof (cases "ht_size (d_ht0 d) = 0")
  case True
  with ok have "entries d = []"
    by (auto simp: dict_ok_def rehash_ok_def ht_ok_def entries_def dictReset_def split: if_splits)
  with ok True show ?thesis by (auto simp: dictFind_def dict_map_def)
next
  case False
  then obtain d1 where d1: "rehash_if_needed d = Some d1" "dict_ok d1" "mset (entries d1) = mset (entries d)"
      "d_type d1 = d_type d" "d_iterators d1 = d_iterators d" "0 < ht_size (d_ht0 d1)"
    using rehash_if_needed_ok [OF ok] by auto
  have dm: "dict_map d1 = dict_map d" using entries_perm [OF d1(3)] ok by (simp add: dict_ok_def)
  note s = dict_sizes [OF d1(2,6)]
  define i0 where "i0 = hash_idx (d_ht0 d1) (dictHashKey d1 key)"
  define i1 where "i1 = hash_idx (d_ht1 d1) (dictHashKey d1 key)"
  have l0: "i0 < length (ht_table (d_ht0 d1))" using hash_idx_less [OF s(1) d1(6)] by (simp add: i0_def)
  have l1: "dictIsRehashing d1 \<Longrightarrow> i1 < length (ht_table (d_ht1 d1))"
    using hash_idx_less [OF s(2) s(4)] by (simp add: i1_def)
  define c0 where "c0 = ht_table (d_ht0 d1) ! i0"
  define c1 where "c1 = ht_table (d_ht1 d1) ! i1"
  define r where "r = (case chain_pos d1 key c0 of Some p \<Rightarrow> Some (False, i0, p)
      | None \<Rightarrow> if dictIsRehashing d1 then map_option (\<lambda>p. (True, i1, p)) (chain_pos d1 key c1) else None)"
  have eq: "dictFind d key = Some (d1, r)"
    using False d1(1) l0 l1
    by (auto simp: dictFind_def Let_def bucket_def r_def i0_def [symmetric] i1_def [symmetric]
        c0_def [symmetric] c1_def [symmetric] split: option.splits)
  have dom: "key \<in> dom (dict_map d) \<longleftrightarrow> key \<in> fst ` set c0 \<or> dictIsRehashing d1 \<and> key \<in> fst ` set c1"
    using dict_dom [OF d1(2,6), of key] unfolding dm c0_def c1_def i0_def i1_def .
  have none: "r = None \<longleftrightarrow> key \<notin> dom (dict_map d)"
    unfolding dom r_def using chain_pos_None [OF s(3), of key c0] chain_pos_None [OF s(3), of key c1]
    by (cases "chain_pos d1 key c0"; cases "chain_pos d1 key c1") simp_all
  have mem: "(key, w) \<in> set (entries d1) \<Longrightarrow> dict_map d key = Some w" for w
    using d1(2) unfolding dm [symmetric] by (simp add: dict_map_def dict_ok_def)
  have m0: "e \<in> set c0 \<Longrightarrow> e \<in> set (entries d1)" for e using l0 by (auto simp: c0_def entries_def)
  have m1: "dictIsRehashing d1 \<Longrightarrow> e \<in> set c1 \<Longrightarrow> e \<in> set (entries d1)" for e
    using l1 by (auto simp: c1_def entries_def)
  have some: "i < length (ht_table (dict_ht d1 t)) \<and> p < length (ht_table (dict_ht d1 t) ! i) \<and>
      (\<exists>w. ht_table (dict_ht d1 t) ! i ! p = (key, w) \<and> dict_map d key = Some w)"
    if "r = Some (t, i, p)" for t i p
  proof (cases t)
    case False
    with that have c: "i = i0" "chain_pos d1 key c0 = Some p" by (auto simp: r_def split: option.splits if_splits)
    then have p: "p < length c0" "fst (c0 ! p) = key" using chain_pos_Some [OF s(3)] by blast+
    then obtain w where w: "c0 ! p = (key, w)" by (cases "c0 ! p") auto
    then have "(key, w) \<in> set c0" using p(1) nth_mem by metis
    with w show ?thesis using False c p l0 mem m0 by (auto simp: dict_ht_def c0_def)
  next
    case True
    with that have c: "i = i1" "chain_pos d1 key c1 = Some p" "dictIsRehashing d1"
      by (auto simp: r_def split: option.splits if_splits)
    then have p: "p < length c1" "fst (c1 ! p) = key" using chain_pos_Some [OF s(3)] by blast+
    then obtain w where w: "c1 ! p = (key, w)" by (cases "c1 ! p") auto
    then have "(key, w) \<in> set c1" using p(1) nth_mem by metis
    with w show ?thesis using True c p l1 mem m1 by (auto simp: dict_ht_def c1_def)
  qed
  show ?thesis using eq d1 none some by blast
qed

section \<open>Replacement, deletion, clearing\<close>

lemma dictReplace_ok:
  assumes ok: "dict_ok d"
  shows "\<exists>d'. dictReplace cr junk d key v = Some (d', key \<notin> dom (dict_map d)) \<and> dict_ok d' \<and>
     dict_map d' = (dict_map d)(key \<mapsto> v) \<and> d_type d' = d_type d \<and> d_iterators d' = d_iterators d \<and>
     length (entries d') = length (entries d) + (if key \<in> dom (dict_map d) then 0 else 1)"
proof -
  obtain d1 where d1: "dictAdd cr junk d key v = Some (d1, if key \<in> dom (dict_map d) then DICT_ERR else DICT_OK)"
     "dict_ok d1" "d_type d1 = d_type d" "d_iterators d1 = d_iterators d"
     "mset (entries d1) = (if key \<in> dom (dict_map d) then mset (entries d) else add_mset (key, v) (mset (entries d)))"
    using dictAdd_ok [OF ok, of cr junk key v] by blast
  have di: "distinct (map fst (entries d))" using ok by (simp add: dict_ok_def)
  show ?thesis
  proof (cases "key \<in> dom (dict_map d)")
    case False
    then have m: "mset (entries d1) = mset ((key, v) # entries d)" using d1(5) by simp
    have "distinct (map fst ((key, v) # entries d))" using di False by (simp add: dom_dict_map)
    then have "dict_map d1 = map_of ((key, v) # entries d)" using m by (intro dict_map_mset)
    moreover have "length (entries d1) = length (entries d) + 1" using mset_eq_length [OF m] by simp
    moreover have "dictAdd cr junk d key v = Some (d1, DICT_OK)" using d1(1) False by simp
    ultimately show ?thesis using False d1(2-4) by (simp add: dictReplace_def dict_map_def)
  next
    case True
    then have m1: "mset (entries d1) = mset (entries d)" using d1(5) by simp
    have dm: "dict_map d1 = dict_map d" using entries_perm [OF m1 di] by simp
    obtain d2 r where d2: "dictFind d1 key = Some (d2, r)" "dict_ok d2" "mset (entries d2) = mset (entries d1)"
       "d_type d2 = d_type d1" "d_iterators d2 = d_iterators d1" "r = None \<longleftrightarrow> key \<notin> dom (dict_map d1)"
       "\<forall>t i p. r = Some (t, i, p) \<longrightarrow> i < length (ht_table (dict_ht d2 t)) \<and>
          p < length (ht_table (dict_ht d2 t) ! i) \<and>
          (\<exists>w. ht_table (dict_ht d2 t) ! i ! p = (key, w) \<and> dict_map d1 key = Some w)"
      using dictFind_ok [OF d1(2), of key] by blast
    then obtain t i p where r: "r = Some (t, i, p)" using True dm by (cases r) auto
    with d2(7) obtain w where w: "i < length (ht_table (dict_ht d2 t))" "p < length (ht_table (dict_ht d2 t) ! i)"
       "ht_table (dict_ht d2 t) ! i ! p = (key, w)" by blast
    obtain d3 where d3: "dictSetVal d2 (t, i, p) v = Some d3" "dict_ok d3"
       "mset (entries d3) + {#(key, w)#} = add_mset (key, v) (mset (entries d2))"
       "d_type d3 = d_type d2" "d_iterators d3 = d_iterators d2"
      using dictSetVal_ok [OF d2(2) w] by blast
    have m2: "mset (entries d2) = mset (entries d)" using d2(3) m1 by simp
    have "(key, w) \<in> set (ht_table (dict_ht d2 t) ! i)" using nth_mem [OF w(2)] w(3) by simp
    then have "(key, w) \<in> set (entries d2)"
      using nth_mem [OF w(1)] by (cases t) (auto simp: entries_def dict_ht_def)
    then have kw: "(key, w) \<in> set (entries d)" using mset_eq_setD [OF m2] by simp
    obtain xs where xs: "mset (entries d) = add_mset (key, w) (mset xs)"
      using kw by (metis insert_DiffM set_mset_mset ex_mset)
    have m3: "mset (entries d3) = mset ((key, v) # xs)" using d3(3) m2 xs by (simp add: add_mset_commute)
    have dx: "distinct (map fst ((key, w) # xs))" using di xs distinct_entries_iff [of d "(key, w) # xs"] by simp
    then have "dict_map d3 = map_of ((key, v) # xs)" using m3 by (intro dict_map_mset) auto
    moreover have "dict_map d = map_of ((key, w) # xs)" using dx xs by (intro dict_map_mset) auto
    moreover have "length (entries d3) = length (entries d)"
      using m3 xs by (metis size_mset size_add_mset mset.simps(2))
    moreover have "dictAdd cr junk d key v = Some (d1, DICT_ERR)" using d1(1) True by simp
    ultimately show ?thesis using True d1(2-4) d2(1,4,5) d3 r by (simp add: dictReplace_def)
  qed
qed

lemma dictFetchValue_ok:
  assumes ok: "dict_ok d"
  shows "\<exists>d'. dictFetchValue d key = Some (d', dict_map d key) \<and> dict_ok d' \<and> dict_map d' = dict_map d \<and>
     d_type d' = d_type d \<and> d_iterators d' = d_iterators d \<and> mset (entries d') = mset (entries d)"
proof -
  obtain d2 r where d2: "dictFind d key = Some (d2, r)" "dict_ok d2" "mset (entries d2) = mset (entries d)"
     "d_type d2 = d_type d" "d_iterators d2 = d_iterators d" "r = None \<longleftrightarrow> key \<notin> dom (dict_map d)"
     "\<forall>t i p. r = Some (t, i, p) \<longrightarrow> i < length (ht_table (dict_ht d2 t)) \<and>
        p < length (ht_table (dict_ht d2 t) ! i) \<and>
        (\<exists>w. ht_table (dict_ht d2 t) ! i ! p = (key, w) \<and> dict_map d key = Some w)"
    using dictFind_ok [OF ok, of key] by blast
  have dm: "dict_map d2 = dict_map d" using entries_perm [OF d2(3)] ok by (simp add: dict_ok_def)
  show ?thesis
  proof (cases r)
    case None
    with d2(6) have "dict_map d key = None" by auto
    with None d2 dm show ?thesis by (auto simp: dictFetchValue_def)
  next
    case (Some ref)
    obtain t i p where "ref = (t, i, p)" by (cases ref)
    with Some d2 dm show ?thesis by (fastforce simp: dictFetchValue_def dictGetEntry_def bucket_def)
  qed
qed

lemma unlink_in_ok:
  assumes ok: "dict_ok d" and i: "i < length (ht_table (dict_ht d t))"
    and u: "chain_unlink d key (ht_table (dict_ht d t) ! i) = Some c"
  shows "dict_ok (unlink_in d t i c) \<and> dict_map (unlink_in d t i c) = (dict_map d)(key := None) \<and>
    length (entries (unlink_in d t i c)) + 1 = length (entries d) \<and>
    d_type (unlink_in d t i c) = d_type d \<and> d_iterators (unlink_in d t i c) = d_iterators d"
proof -
  have ty: "type_ok (d_type d)" and ho: "ht_ok (d_type d) (dict_ht d t)"
    and di: "distinct (map fst (entries d))"
    using ok by (auto simp: dict_ok_def dict_ht_def)
  obtain v where v: "mset (ht_table (dict_ht d t) ! i) = add_mset (key, v) (mset c)"
    using chain_unlink_Some [OF ty u] by blast
  define d' where "d' = unlink_in d t i c"
  have d'u: "d' = set_ht d t ((dict_ht d t)\<lparr>ht_table := (ht_table (dict_ht d t))[i := c],
      ht_used := ht_used (dict_ht d t) - 1\<rparr>)" by (simp add: d'_def unlink_in_def Let_def)
  have len: "length (ht_table (dict_ht d t) ! i) = Suc (length c)" using v by (metis size_mset size_add_mset)
  have "mset (entries d') + mset (ht_table (dict_ht d t) ! i) = mset (entries d) + mset c"
    unfolding d'u using entries_put [OF i, where c = c and u = "ht_used (dict_ht d t) - 1"] .
  then have m: "mset (entries d) = mset ((key, v) # entries d')" using v by simp
  then have dd: "distinct (map fst ((key, v) # entries d'))" using di distinct_entries_iff by blast
  have up: "ht_used (dict_ht d t) - 1 + length (ht_table (dict_ht d t) ! i) = ht_used (dict_ht d t) + length c"
    using length_concat_update [OF i, of "[]"] ho len by (simp add: ht_ok_def)
  have sc: "set c \<subseteq> set (ht_table (dict_ht d t) ! i)" using v by (metis set_mset_mset set_mset_add_mset_insert subset_insertI)
  have ne: "ht_table (dict_ht d t) ! i \<noteq> []" using len by auto
  have hc: "\<forall>e \<in> set c. hash_idx (dict_ht d t) (hashFunction (d_type d) (fst e)) = i"
    using ho i sc unfolding ht_ok_def by blast
  have dd': "distinct (map fst (entries d'))" using dd by simp
  have "dict_ok d'"
    unfolding d'u using ok i hc up
    by (rule dict_ok_put) (use ne dd' in \<open>simp_all add: dict_ht_def d'u\<close>)
  moreover have "dict_map d = map_of ((key, v) # entries d')" using m dd by (rule dict_map_mset)
  moreover have "map_of (entries d') key = None" using dd by (simp add: map_of_eq_None_iff)
  moreover have "length (entries d) = Suc (length (entries d'))" using mset_eq_length [OF m] by simp
  ultimately show ?thesis unfolding d'_def [symmetric] by (auto simp: dict_map_def fun_eq_iff d'u set_ht_def)
qed

lemma dictGenericDelete_ok:
  assumes ok: "dict_ok d"
  shows "\<exists>d'. dictGenericDelete d key = Some (d', if key \<in> dom (dict_map d) then DICT_OK else DICT_ERR) \<and>
     dict_ok d' \<and> dict_map d' = (dict_map d)(key := None) \<and> d_type d' = d_type d \<and> d_iterators d' = d_iterators d \<and>
     length (entries d') + (if key \<in> dom (dict_map d) then 1 else 0) = length (entries d)"
proof (cases "ht_size (d_ht0 d) = 0")
  case True
  with ok have "entries d = []"
    by (auto simp: dict_ok_def rehash_ok_def ht_ok_def entries_def dictReset_def split: if_splits)
  with ok True show ?thesis by (auto simp: dictGenericDelete_def dict_map_def)
next
  case False
  then obtain d1 where d1: "rehash_if_needed d = Some d1" "dict_ok d1" "mset (entries d1) = mset (entries d)"
      "d_type d1 = d_type d" "d_iterators d1 = d_iterators d" "0 < ht_size (d_ht0 d1)"
    using rehash_if_needed_ok [OF ok] by auto
  have dm: "dict_map d1 = dict_map d" using entries_perm [OF d1(3)] ok by (simp add: dict_ok_def)
  have len: "length (entries d1) = length (entries d)" using d1(3) by (metis size_mset)
  note s = dict_sizes [OF d1(2,6)]
  define i0 where "i0 = hash_idx (d_ht0 d1) (dictHashKey d1 key)"
  define i1 where "i1 = hash_idx (d_ht1 d1) (dictHashKey d1 key)"
  have l0: "i0 < length (ht_table (d_ht0 d1))" using hash_idx_less [OF s(1) d1(6)] by (simp add: i0_def)
  have l1: "dictIsRehashing d1 \<Longrightarrow> i1 < length (ht_table (d_ht1 d1))"
    using hash_idx_less [OF s(2) s(4)] by (simp add: i1_def)
  define u0 where "u0 = chain_unlink d1 key (ht_table (d_ht0 d1) ! i0)"
  define u1 where "u1 = chain_unlink d1 key (ht_table (d_ht1 d1) ! i1)"
  have eq: "dictGenericDelete d key = Some (case u0 of Some c \<Rightarrow> (unlink_in d1 False i0 c, DICT_OK)
     | None \<Rightarrow> if dictIsRehashing d1 then (case u1 of Some c \<Rightarrow> (unlink_in d1 True i1 c, DICT_OK) | None \<Rightarrow> (d1, DICT_ERR))
               else (d1, DICT_ERR))"
    using False d1(1) l0 l1
    by (simp add: dictGenericDelete_def Let_def bucket_def i0_def [symmetric] i1_def [symmetric]
        u0_def [symmetric] u1_def [symmetric] split: option.splits)
  have dom: "key \<in> dom (dict_map d) \<longleftrightarrow> u0 \<noteq> None \<or> dictIsRehashing d1 \<and> u1 \<noteq> None"
    using dict_dom [OF d1(2,6), of key]
    unfolding dm u0_def u1_def i0_def i1_def by (simp add: chain_unlink_None [OF s(3)])
  show ?thesis
  proof (cases u0)
    case (Some c)
    then have "dict_ok (unlink_in d1 False i0 c) \<and> dict_map (unlink_in d1 False i0 c) = (dict_map d1)(key := None) \<and>
      length (entries (unlink_in d1 False i0 c)) + 1 = length (entries d1) \<and>
      d_type (unlink_in d1 False i0 c) = d_type d1 \<and> d_iterators (unlink_in d1 False i0 c) = d_iterators d1"
      using unlink_in_ok [OF d1(2), of i0 False key c] l0 by (simp add: dict_ht_def u0_def)
    moreover have "key \<in> dom (dict_map d)" using dom Some by blast
    ultimately show ?thesis using eq Some d1(4,5) dm len by simp
  next
    case u0: None
    show ?thesis
    proof (cases "dictIsRehashing d1 \<and> u1 \<noteq> None")
      case True
      then obtain c where c: "u1 = Some c" by blast
      then have "dict_ok (unlink_in d1 True i1 c) \<and> dict_map (unlink_in d1 True i1 c) = (dict_map d1)(key := None) \<and>
        length (entries (unlink_in d1 True i1 c)) + 1 = length (entries d1) \<and>
        d_type (unlink_in d1 True i1 c) = d_type d1 \<and> d_iterators (unlink_in d1 True i1 c) = d_iterators d1"
        using unlink_in_ok [OF d1(2), of i1 True key c] l1 True by (simp add: dict_ht_def u1_def)
      moreover have "key \<in> dom (dict_map d)" using dom True by blast
      ultimately show ?thesis using eq u0 c True d1(4,5) dm len by simp
    next
      case False
      then have nk: "key \<notin> dom (dict_map d)" using dom u0 by blast
      then have "(dict_map d)(key := None) = dict_map d" by (auto simp: fun_eq_iff)
      moreover have "dictGenericDelete d key = Some (d1, DICT_ERR)" using eq u0 False by auto
      ultimately show ?thesis using nk d1 dm len by auto
    qed
  qed
qed

lemma dictClear_loop_all: "length (concat cs) = used \<Longrightarrow> dictClear_loop cs used = concat cs"
  by (induction cs arbitrary: used) auto

lemma dictEmpty_ok:
  assumes ok: "dict_ok d"
  shows "dict_ok (fst (dictEmpty d)) \<and> entries (fst (dictEmpty d)) = [] \<and> snd (dictEmpty d) = entries d \<and>
    dict_map (fst (dictEmpty d)) = Map.empty"
proof -
  have "ht_ok (d_type d) (d_ht0 d)" "ht_ok (d_type d) (d_ht1 d)" using ok by (auto simp: dict_ok_def)
  then have "snd (dictEmpty d) = entries d"
    by (simp add: dictEmpty_def dictClear_def dictClear_loop_all ht_ok_def entries_def)
  then show ?thesis using ok
    by (auto simp: dictEmpty_def dictClear_def entries_def dictReset_def dict_map_def dict_ok_def ht_ok_def rehash_ok_def)
qed

section \<open>The dictionary as a store\<close>

section \<open>The contract of the dictionary\<close>

text \<open>
  What the users of a dictionary rely on: a map with lookups, replacing insertions and
  deletions, none of which fails on a well-formed dictionary.
\<close>

locale map_store =
  fixes invar :: "'d \<Rightarrow> bool" and contents :: "'d \<Rightarrow> 'k \<rightharpoonup> 'v"
    and fetch :: "'d \<Rightarrow> 'k \<Rightarrow> ('d \<times> 'v option) option"
    and put :: "'d \<Rightarrow> 'k \<Rightarrow> 'v \<Rightarrow> ('d \<times> bool) option"
    and del :: "'d \<Rightarrow> 'k \<Rightarrow> ('d \<times> dict_ret) option"
  assumes fetch_ok: "invar d \<Longrightarrow>
      \<exists>d'. fetch d k = Some (d', contents d k) \<and> invar d' \<and> contents d' = contents d"
    and put_ok: "invar d \<Longrightarrow>
      \<exists>d'. put d k v = Some (d', k \<notin> dom (contents d)) \<and> invar d' \<and>
        contents d' = (contents d)(k \<mapsto> v)"
    and del_ok: "invar d \<Longrightarrow>
      \<exists>d'. del d k = Some (d', if k \<in> dom (contents d) then DICT_OK else DICT_ERR) \<and> invar d' \<and>
        contents d' = (contents d)(k := None)"

text \<open>Sequences of operations, on the implementation and on maps.\<close>

datatype ('k, 'v) dop = Put 'k 'v | Del 'k | Fetch 'k

fun run_store ::
    "('d \<Rightarrow> 'k \<Rightarrow> ('d \<times> 'v option) option) \<Rightarrow> ('d \<Rightarrow> 'k \<Rightarrow> 'v \<Rightarrow> ('d \<times> bool) option)
     \<Rightarrow> ('d \<Rightarrow> 'k \<Rightarrow> ('d \<times> dict_ret) option) \<Rightarrow> 'd \<Rightarrow> ('k, 'v) dop list
     \<Rightarrow> ('d \<times> 'v option list) option" where
  "run_store fetch put del d [] = Some (d, [])"
| "run_store fetch put del d (Put k v # ops) =
     do { (d, _) \<leftarrow> put d k v; run_store fetch put del d ops }"
| "run_store fetch put del d (Del k # ops) =
     do { (d, _) \<leftarrow> del d k; run_store fetch put del d ops }"
| "run_store fetch put del d (Fetch k # ops) =
     do { (d, r) \<leftarrow> fetch d k; (d, rs) \<leftarrow> run_store fetch put del d ops; Some (d, r # rs) }"

fun run_map :: "('k \<rightharpoonup> 'v) \<Rightarrow> ('k, 'v) dop list \<Rightarrow> ('k \<rightharpoonup> 'v) \<times> 'v option list" where
  "run_map m [] = (m, [])"
| "run_map m (Put k v # ops) = run_map (m(k \<mapsto> v)) ops"
| "run_map m (Del k # ops) = run_map (m(k := None)) ops"
| "run_map m (Fetch k # ops) = (let (m', rs) = run_map m ops in (m', m k # rs))"

context map_store
begin

lemma run_refines:
  "invar d \<Longrightarrow> \<exists>d'. run_store fetch put del d ops = Some (d', snd (run_map (contents d) ops)) \<and>
     invar d' \<and> contents d' = fst (run_map (contents d) ops)"
proof (induction ops arbitrary: d)
  case (Cons op ops)
  show ?case
  proof (cases op)
    case (Put k v)
    with put_ok [OF Cons.prems, of k v] Cons.IH show ?thesis by fastforce
  next
    case (Del k)
    with del_ok [OF Cons.prems, of k] Cons.IH show ?thesis by fastforce
  next
    case (Fetch k)
    with fetch_ok [OF Cons.prems, of k] Cons.IH show ?thesis by (fastforce split: prod.splits)
  qed
qed auto

end

interpretation dstore: map_store dict_ok dict_map dictFetchValue "dictReplace cr junk" dictGenericDelete
  for cr :: bool and junk :: 'v
proof unfold_locales
  fix d :: "('k, 'v) dict" and k :: 'k and v :: 'v
  assume ok: "dict_ok d"
  show "\<exists>d'. dictFetchValue d k = Some (d', dict_map d k) \<and> dict_ok d' \<and> dict_map d' = dict_map d"
    using dictFetchValue_ok [OF ok, of k] by blast
  show "\<exists>d'. dictReplace cr junk d k v = Some (d', k \<notin> dom (dict_map d)) \<and> dict_ok d' \<and>
      dict_map d' = (dict_map d)(k \<mapsto> v)"
    using dictReplace_ok [OF ok, of cr junk k v] by blast
  show "\<exists>d'. dictGenericDelete d k = Some (d', if k \<in> dom (dict_map d) then DICT_OK else DICT_ERR) \<and>
      dict_ok d' \<and> dict_map d' = (dict_map d)(k := None)"
    using dictGenericDelete_ok [OF ok, of k] by blast
qed

lemma dictCreate_ok: "type_ok ty \<Longrightarrow> dict_ok (dictCreate ty) \<and> dict_map (dictCreate ty) = Map.empty"
  by (simp add: dict_ok_def dictCreate_def ht_ok_def dictReset_def entries_def rehash_ok_def dict_map_def)

lemma dictSize_card: "dict_ok d \<Longrightarrow> dictSize d = card (dom (dict_map d))"
proof -
  assume ok: "dict_ok d"
  have "card (dom (dict_map d)) = card (set (map fst (entries d)))" by (simp add: dom_dict_map)
  also have "\<dots> = length (entries d)" using ok distinct_card [of "map fst (entries d)"] by (simp add: dict_ok_def)
  finally show ?thesis using ok by (simp add: dictSize_def dict_ok_def ht_ok_def entries_def)
qed

text \<open>A dictionary keyed by words, for the witnesses.\<close>

definition sample_type :: "(nat, string) dictType" where
  "sample_type = \<lparr>hashFunction = (\<lambda>k. of_nat k), keyDup = None, valDup = None, keyCompare = None\<rparr>"

definition sample_ops :: "(nat, string) dop list" where
  "sample_ops = [Put 1 ''a'', Put 5 ''b'', Del 1, Fetch 5, Fetch 1]"

lemma sample_type_ok: "type_ok sample_type" by (simp add: type_ok_def sample_type_def)



text \<open>
  dictRehash never fails on a well-formed dictionary, keeps its contents and size, returns 1
  exactly while the rehash is unfinished, and finishes it when given more steps than the old
  table has buckets.
\<close>

theorem dictRehash_preserves:
  assumes "dict_ok d"
  shows "\<exists>d' b. dictRehash d n = Some (d', b) \<and> dict_ok d' \<and> dict_map d' = dict_map d \<and>
     dictSize d' = dictSize d \<and> b = dictIsRehashing d' \<and>
     (ht_size (d_ht0 d) < n \<longrightarrow> \<not> dictIsRehashing d')"
proof (cases "dictIsRehashing d")
  case False
  with assms show ?thesis by (simp add: dictRehash_def)
next
  case True
  then obtain d' b where d': "dictRehash d n = Some (d', b)" "dict_ok d'" "mset (entries d') = mset (entries d)"
      "b = dictIsRehashing d'" "rehash_left d < n \<longrightarrow> \<not> b"
    using dictRehash_loop_ok [OF assms True, of n] by (auto simp: dictRehash_def)
  have "dict_map d' = dict_map d" using entries_perm [OF d'(3)] assms by (simp add: dict_ok_def)
  moreover have "rehash_left d \<le> ht_size (d_ht0 d)" by (simp add: rehash_left_def)
  ultimately show ?thesis using d' dictSize_card [OF d'(2)] dictSize_card [OF assms] by auto
qed

definition sample_dict :: "(nat, string) dict" where
  "sample_dict = \<lparr>d_type = sample_type,
     d_ht0 = \<lparr>ht_table = [[(4, ''x'')], [(1, ''y''), (5, ''z'')], [], []], ht_size = 4, ht_sizemask = 3, ht_used = 3\<rparr>,
     d_ht1 = \<lparr>ht_table = [[], [], [], [], [], [], [], [(7, ''w'')]], ht_size = 8, ht_sizemask = 7, ht_used = 1\<rparr>,
     d_rehashidx = 0, d_iterators = 0\<rparr>"

lemma sample_dict_hts:
  "ht_ok sample_type (d_ht0 sample_dict)" "ht_ok sample_type (d_ht1 sample_dict)"
  "distinct (map fst (entries sample_dict))" "rehash_ok sample_dict"
  by code_simp+

lemma sample_dict_ok: "dict_ok sample_dict"
  using sample_type_ok sample_dict_hts by (simp add: dict_ok_def sample_dict_def)

theorem dictRehash_preserves_witness:
  "\<exists>d' b. dictRehash sample_dict 5 = Some (d', b) \<and> dict_map d' = dict_map sample_dict \<and> \<not> b"
  using dictRehash_preserves [OF sample_dict_ok, of 5]
  by (auto simp: sample_dict_def)

end
