(* ===== verification/Dict_Iter.thy ===== *)
theory Dict_Iter
  imports Dict
begin

text \<open>
  The iterators of \<^verbatim>\<open>debug/redis/src/dict.c\<close>: \<open>dictGetIterator\<close>,
  \<open>dictGetSafeIterator\<close>, \<open>dictNext\<close>, \<open>dictReleaseIterator\<close> and the fingerprint an
  unsafe iterator takes. The two table addresses that enter the fingerprint are the
  parameter \<open>table_addr\<close>. \<open>dictNext\<close> loops over empty buckets, so it takes fuel; the
  theorem of this theory gives a bound that is always enough. The \<^verbatim>\<open>int\<close> bucket
  index is unbounded here: it stays below the table size, which C compares as a signed int.
\<close>

record dictIterator =
  di_table :: bool
  di_index :: int
  di_safe :: bool
  di_entry :: "entry_ref option"
  di_nextEntry :: "entry_ref option"
  di_fingerprint :: "64 word"

definition fingerprint_mix :: "64 word \<Rightarrow> 64 word" where
  "fingerprint_mix hash =
     (let hash = NOT hash + push_bit 21 hash;
          hash = hash XOR signed_drop_bit 24 hash;
          hash = (hash + push_bit 3 hash) + push_bit 8 hash;
          hash = hash XOR signed_drop_bit 14 hash;
          hash = (hash + push_bit 2 hash) + push_bit 4 hash;
          hash = hash XOR signed_drop_bit 28 hash
      in hash + push_bit 31 hash)"

definition dictFingerprint :: "(bool \<Rightarrow> 64 word) \<Rightarrow> ('k, 'v) dict \<Rightarrow> 64 word" where
  "dictFingerprint table_addr d =
     fold (\<lambda>i hash. fingerprint_mix (hash + i))
       [table_addr False, of_nat (ht_size (d_ht0 d)), of_nat (ht_used (d_ht0 d)),
        table_addr True, of_nat (ht_size (d_ht1 d)), of_nat (ht_used (d_ht1 d))] 0"

definition dictGetIterator :: dictIterator where
  "dictGetIterator = \<lparr>di_table = False, di_index = -1, di_safe = False, di_entry = None,
     di_nextEntry = None, di_fingerprint = 0\<rparr>"

definition dictGetSafeIterator :: dictIterator where
  "dictGetSafeIterator = dictGetIterator\<lparr>di_safe := True\<rparr>"

definition ref_at :: "('k, 'v) dict \<Rightarrow> bool \<Rightarrow> nat \<Rightarrow> nat \<Rightarrow> entry_ref option option" where
  "ref_at d t i p =
     do { c \<leftarrow> bucket (dict_ht d t) i; Some (if p < length c then Some (t, i, p) else None) }"

definition first_step ::
    "(bool \<Rightarrow> 64 word) \<Rightarrow> ('k, 'v) dict \<Rightarrow> dictIterator \<Rightarrow> ('k, 'v) dict \<times> dictIterator" where
  "first_step table_addr d it =
     (if di_index it = -1 \<and> \<not> di_table it then
        (if di_safe it then (d\<lparr>d_iterators := d_iterators d + 1\<rparr>, it)
         else (d, it\<lparr>di_fingerprint := dictFingerprint table_addr d\<rparr>))
      else (d, it))"

fun dictNext ::
    "nat \<Rightarrow> (bool \<Rightarrow> 64 word) \<Rightarrow> ('k, 'v) dict \<Rightarrow> dictIterator
     \<Rightarrow> (('k, 'v) dict \<times> dictIterator \<times> entry_ref option) option" where
  "dictNext 0 table_addr d it = None"
| "dictNext (Suc fuel) table_addr d it =
     (if di_entry it = None then
        (let (d, it) = first_step table_addr d it;
             it = it\<lparr>di_index := di_index it + 1\<rparr>;
             past = int (ht_size (dict_ht d (di_table it))) \<le> di_index it in
         if past \<and> \<not> (dictIsRehashing d \<and> \<not> di_table it) then Some (d, it, None)
         else
           let it = (if past then it\<lparr>di_table := True, di_index := 0\<rparr> else it) in
           do { e \<leftarrow> ref_at d (di_table it) (nat (di_index it)) 0;
                let it = it\<lparr>di_entry := e\<rparr>;
                (case e of
                   None \<Rightarrow> dictNext fuel table_addr d it
                 | Some (t, i, p) \<Rightarrow>
                     do { n \<leftarrow> ref_at d t i (p + 1);
                          Some (d, it\<lparr>di_nextEntry := n\<rparr>, Some (t, i, p)) }) })
      else
        (let it = it\<lparr>di_entry := di_nextEntry it\<rparr> in
         case di_entry it of
           None \<Rightarrow> dictNext fuel table_addr d it
         | Some (t, i, p) \<Rightarrow>
             do { n \<leftarrow> ref_at d t i (p + 1);
                  Some (d, it\<lparr>di_nextEntry := n\<rparr>, Some (t, i, p)) }))"

definition dictReleaseIterator ::
    "(bool \<Rightarrow> 64 word) \<Rightarrow> ('k, 'v) dict \<Rightarrow> dictIterator \<Rightarrow> ('k, 'v) dict option" where
  "dictReleaseIterator table_addr d it =
     (if \<not> (di_index it = -1 \<and> \<not> di_table it) then
        (if di_safe it then Some (d\<lparr>d_iterators := d_iterators d - 1\<rparr>)
         else if di_fingerprint it = dictFingerprint table_addr d then Some d else None)
      else Some d)"

text \<open>What an iterator still has to deliver.\<close>

definition tables_after :: "('k, 'v) dict \<Rightarrow> bool \<Rightarrow> nat \<Rightarrow> ('k \<times> 'v) list" where
  "tables_after d t j = concat (drop j (ht_table (dict_ht d t))) @
     (if t then [] else concat (ht_table (d_ht1 d)))"

definition remaining :: "('k, 'v) dict \<Rightarrow> dictIterator \<Rightarrow> ('k \<times> 'v) list" where
  "remaining d it =
     (case di_entry it of None \<Rightarrow> []
      | Some _ \<Rightarrow> (case di_nextEntry it of None \<Rightarrow> []
                  | Some (t, i, p) \<Rightarrow> drop p (ht_table (dict_ht d t) ! i)))
     @ tables_after d (di_table it) (nat (di_index it + 1))"

definition iter_ok :: "('k, 'v) dict \<Rightarrow> dictIterator \<Rightarrow> bool" where
  "iter_ok d it \<longleftrightarrow> -1 \<le> di_index it \<and>
     di_index it < int (length (ht_table (dict_ht d (di_table it)))) \<and>
     (di_table it \<or> di_entry it \<noteq> None \<longrightarrow> 0 \<le> di_index it) \<and> (di_table it \<longrightarrow> dictIsRehashing d) \<and>
     (\<forall>t i p. di_entry it \<noteq> None \<longrightarrow> di_nextEntry it = Some (t, i, p) \<longrightarrow>
        i < length (ht_table (dict_ht d t)) \<and> p < length (ht_table (dict_ht d t) ! i))"

definition iter_measure :: "('k, 'v) dict \<Rightarrow> dictIterator \<Rightarrow> nat" where
  "iter_measure d it = (if di_entry it = None then 0 else 1) +
     (if di_table it then length (ht_table (d_ht1 d)) - nat (di_index it)
      else length (ht_table (d_ht0 d)) + length (ht_table (d_ht1 d)) + 1 - nat (di_index it + 1)) * 2"

lemma iters_irrelevant [simp]:
  "dict_ht (d\<lparr>d_iterators := n\<rparr>) = dict_ht d"
  "dictIsRehashing (d\<lparr>d_iterators := n\<rparr>) = dictIsRehashing d"
  "dictGetEntry (d\<lparr>d_iterators := n\<rparr>) = dictGetEntry d"
  "ref_at (d\<lparr>d_iterators := n\<rparr>) = ref_at d"
  "entries (d\<lparr>d_iterators := n\<rparr>) = entries d"
  by (simp_all add: fun_eq_iff dict_ht_def dictIsRehashing_def dictGetEntry_def ref_at_def entries_def)

text \<open>One step of an iterator: the entry returned is the next one still to deliver.\<close>

definition delivered :: "('k, 'v) dict \<Rightarrow> dictIterator \<Rightarrow> dictIterator \<Rightarrow> entry_ref option \<Rightarrow> bool" where
  "delivered d it it' r \<longleftrightarrow>
     (case r of None \<Rightarrow> remaining d it = []
      | Some ref \<Rightarrow> iter_ok d it' \<and> dictGetEntry d ref \<noteq> None \<and>
          remaining d it = the (dictGetEntry d ref) # remaining d it')"

lemma delivered_simps [simp]:
  "delivered d it it' None \<longleftrightarrow> remaining d it = []"
  "delivered d it it' (Some ref) \<longleftrightarrow> iter_ok d it' \<and> dictGetEntry d ref \<noteq> None \<and>
     remaining d it = the (dictGetEntry d ref) # remaining d it'"
  by (simp_all add: delivered_def)

lemma delivered_cong: "remaining d it1 = remaining d it2 \<Longrightarrow> delivered d it1 it' r = delivered d it2 it' r"
  by (cases r) simp_all

lemma iters_irrelevant2 [simp]:
  "remaining (d\<lparr>d_iterators := n\<rparr>) = remaining d"
  "iter_ok (d\<lparr>d_iterators := n\<rparr>) = iter_ok d"
  "iter_measure (d\<lparr>d_iterators := n\<rparr>) = iter_measure d"
  "dict_ok (d\<lparr>d_iterators := n\<rparr>) = dict_ok d"
  "delivered (d\<lparr>d_iterators := n\<rparr>) = delivered d"
  by (auto simp: delivered_def fun_eq_iff remaining_def tables_after_def iter_ok_def iter_measure_def dict_ok_def
      rehash_ok_def split: option.splits)

lemma ht_len: "dict_ok d \<Longrightarrow> ht_size (dict_ht d t) = length (ht_table (dict_ht d t))"
  by (auto simp: dict_ok_def ht_ok_def dict_ht_def)

text \<open>Delivering an entry at a valid position.\<close>

lemma deliver_ok:
  assumes "i < length (ht_table (dict_ht d t))" "p < length (ht_table (dict_ht d t) ! i)"
    and "it' = it\<lparr>di_entry := Some (t, i, p), di_nextEntry := n\<rparr>" "ref_at d t i (p + 1) = Some n"
    and "0 \<le> di_index it" "di_index it < int (length (ht_table (dict_ht d (di_table it))))"
    and "di_table it \<longrightarrow> dictIsRehashing d"
  shows "iter_ok d it' \<and> dictGetEntry d (t, i, p) \<noteq> None \<and>
     the (dictGetEntry d (t, i, p)) # remaining d it' =
       drop p (ht_table (dict_ht d t) ! i) @ tables_after d (di_table it) (nat (di_index it + 1))"
proof -
  have "n = (if p + 1 < length (ht_table (dict_ht d t) ! i) then Some (t, i, p + 1) else None)"
    using assms(1,4) by (auto simp: ref_at_def bucket_def)
  moreover have "drop p (ht_table (dict_ht d t) ! i) =
      ht_table (dict_ht d t) ! i ! p # drop (Suc p) (ht_table (dict_ht d t) ! i)"
    using assms(2) by (simp add: Cons_nth_drop_Suc)
  ultimately show ?thesis using assms
    by (auto simp: iter_ok_def remaining_def dictGetEntry_def bucket_def split: if_splits)
qed

lemma tables_after_step:
  "j < length (ht_table (dict_ht d t)) \<Longrightarrow>
   tables_after d t j = (ht_table (dict_ht d t) ! j) @ tables_after d t (Suc j)"
  by (simp add: tables_after_def Cons_nth_drop_Suc [symmetric])

lemma dictNext_ok:
  assumes "dict_ok d" "iter_ok d it" "iter_measure d it < fuel"
  shows "\<exists>m it' r. dictNext fuel a d it = Some (d\<lparr>d_iterators := m\<rparr>, it', r) \<and>
     (di_index it \<noteq> -1 \<or> di_table it \<longrightarrow> m = d_iterators d \<and> di_fingerprint it' = di_fingerprint it) \<and>
     (di_index it = -1 \<and> \<not> di_table it \<longrightarrow> m = (if di_safe it then d_iterators d + 1 else d_iterators d) \<and>
        (di_safe it \<or> di_fingerprint it' = dictFingerprint a d)) \<and>
     di_safe it' = di_safe it \<and> (di_index it' \<noteq> -1 \<or> di_table it') \<and>
     delivered d it it' r"
  using assms
proof (induction fuel arbitrary: d it)
  case 0
  then show ?case by simp
next
  case (Suc fuel)
  show ?case
  proof (cases "di_entry it")
    case (Some e)
    have ipos: "0 \<le> di_index it" using Suc.prems(2) Some by (simp add: iter_ok_def)
    show ?thesis
    proof (cases "di_nextEntry it")
      case None
      let ?it = "it\<lparr>di_entry := None\<rparr>"
      have "iter_ok d ?it" "iter_measure d ?it < fuel"
        using Suc.prems Some None by (auto simp: iter_ok_def iter_measure_def)
      from Suc.IH [OF Suc.prems(1) this] obtain m' it' r where
        ih: "dictNext fuel a d ?it = Some (d\<lparr>d_iterators := m'\<rparr>, it', r)"
          "m' = d_iterators d \<and> di_fingerprint it' = di_fingerprint it" "di_safe it' = di_safe it"
          "di_index it' \<noteq> -1 \<or> di_table it'"
          "delivered d ?it it' r"
        using ipos by auto
      have "remaining d ?it = remaining d it" using Some None by (simp add: remaining_def)
      moreover have "dictNext (Suc fuel) a d it = dictNext fuel a d ?it" using Some None by (simp add: Let_def)
      ultimately show ?thesis using ih ipos
        by (intro exI [of _ m'] exI [of _ it'] exI [of _ r]) (simp add: delivered_cong [of d it ?it] del: dictNext.simps)
    next
      case (Some e')
      obtain t i p where e': "e' = (t, i, p)" by (cases e')
      have v: "i < length (ht_table (dict_ht d t))" "p < length (ht_table (dict_ht d t) ! i)"
        using Suc.prems(2) Some e' \<open>di_entry it = Some e\<close> by (auto simp: iter_ok_def)
      then obtain n where n: "ref_at d t i (p + 1) = Some n" by (auto simp: ref_at_def bucket_def)
      define it' where "it' = it\<lparr>di_entry := Some (t, i, p), di_nextEntry := n\<rparr>"
      have dl: "iter_ok d it' \<and> dictGetEntry d (t, i, p) \<noteq> None \<and>
          the (dictGetEntry d (t, i, p)) # remaining d it' =
          drop p (ht_table (dict_ht d t) ! i) @ tables_after d (di_table it) (nat (di_index it + 1))"
        using Suc.prems(2) \<open>di_entry it = Some e\<close>
        by (intro deliver_ok [OF v it'_def n]) (auto simp: iter_ok_def)
      have "dictNext (Suc fuel) a d it = Some (d\<lparr>d_iterators := d_iterators d\<rparr>, it', Some (t, i, p))"
        using Some e' n \<open>di_entry it = Some e\<close> by (simp add: it'_def Let_def)
      moreover have "remaining d it = the (dictGetEntry d (t, i, p)) # remaining d it'"
        using dl Some e' \<open>di_entry it = Some e\<close> by (simp add: remaining_def)
      moreover have "0 \<le> di_index it" using Suc.prems(2) \<open>di_entry it = Some e\<close> by (simp add: iter_ok_def)
      ultimately show ?thesis using dl
        by (intro exI [of _ "d_iterators d"] exI [of _ it'] exI [of _ "Some (t, i, p)"]) (simp add: it'_def)
    qed
  next
    case None
    define m where "m = (if di_index it = -1 \<and> \<not> di_table it \<and> di_safe it then d_iterators d + 1 else d_iterators d)"
    define it1 where "it1 = (if di_index it = -1 \<and> \<not> di_table it \<and> \<not> di_safe it
        then it\<lparr>di_fingerprint := dictFingerprint a d\<rparr> else it)"
    have fs: "first_step a d it = (d\<lparr>d_iterators := m\<rparr>, it1)"
      by (auto simp: first_step_def m_def it1_def)
    have it1: "di_table it1 = di_table it" "di_index it1 = di_index it" "di_entry it1 = None" "di_safe it1 = di_safe it"
      using None by (simp_all add: it1_def)
    define j where "j = nat (di_index it + 1)"
    have ij: "di_index it + 1 = int j" using Suc.prems(2) by (simp add: iter_ok_def j_def)
    have jl: "j \<le> length (ht_table (dict_ht d (di_table it)))" using Suc.prems(2) ij by (simp add: iter_ok_def)
    have sz: "ht_size (dict_ht d t) = length (ht_table (dict_ht d t))" for t using ht_len [OF Suc.prems(1)] .
    have rem: "remaining d it = tables_after d (di_table it) j" using None by (simp add: remaining_def j_def)
    show ?thesis
    proof (cases "length (ht_table (dict_ht d (di_table it))) \<le> j \<and> \<not> (dictIsRehashing d \<and> \<not> di_table it)")
      case True
      have "remaining d it = []"
        using True Suc.prems(1) unfolding rem
        by (auto simp: tables_after_def dict_ht_def dict_ok_def rehash_ok_def dictIsRehashing_def dictReset_def)
      moreover have "dictNext (Suc fuel) a d it = Some (d\<lparr>d_iterators := m\<rparr>, it1\<lparr>di_index := int j\<rparr>, None)"
        using None fs it1 ij True by (simp add: Let_def sz)
      ultimately show ?thesis
        by (intro exI [of _ m] exI [of _ "it1\<lparr>di_index := int j\<rparr>"] exI [of _ None])
           (auto simp: m_def it1_def)
    next
      case False
      define t where "t = (di_table it \<or> length (ht_table (dict_ht d (di_table it))) \<le> j)"
      define k where "k = (if length (ht_table (dict_ht d (di_table it))) \<le> j then 0 else j)"
      define it2 where "it2 = it1\<lparr>di_table := t, di_index := int k\<rparr>"
      have kl: "k < length (ht_table (dict_ht d t))"
        using False Suc.prems(1)
        by (auto simp: ht_ok_def t_def k_def dict_ht_def dict_ok_def rehash_ok_def dictIsRehashing_def split: if_splits)
      have tr: "t \<longrightarrow> dictIsRehashing d" using False Suc.prems(2) by (auto simp: t_def iter_ok_def)
      have rem2: "remaining d it = (ht_table (dict_ht d t) ! k) @ tables_after d t (Suc k)"
        unfolding rem tables_after_step [OF kl, symmetric] using False jl
        by (auto simp: t_def k_def tables_after_def dict_ht_def)
      have step: "dictNext (Suc fuel) a d it =
        do { e \<leftarrow> ref_at d t k 0;
             (case e of None \<Rightarrow> dictNext fuel a (d\<lparr>d_iterators := m\<rparr>) (it2\<lparr>di_entry := None\<rparr>)
              | Some (t, i, p) \<Rightarrow> do { n \<leftarrow> ref_at d t i (p + 1);
                   Some (d\<lparr>d_iterators := m\<rparr>, it2\<lparr>di_entry := e, di_nextEntry := n\<rparr>, Some (t, i, p)) }) }"
      proof -
        let ?past = "length (ht_table (dict_ht d (di_table it))) \<le> j"
        have p: "(int (ht_size (dict_ht (d\<lparr>d_iterators := m\<rparr>) (di_table it))) \<le> int j) = ?past"
          by (simp add: sz)
        have i2: "(if ?past then (it1\<lparr>di_index := int j\<rparr>)\<lparr>di_table := True, di_index := 0\<rparr>
            else it1\<lparr>di_index := int j\<rparr>) = it2"
          using it1 by (simp add: it2_def t_def k_def)
        have tk: "di_table it2 = t" "nat (di_index it2) = k" by (simp_all add: it2_def)
        show ?thesis
          unfolding dictNext.simps(2) fs Let_def prod.case it1 ij
          using None False p by (simp add: i2 tk it1 ij cong: option.case_cong) blast
      qed
      show ?thesis
      proof (cases "ht_table (dict_ht d t) ! k")
        case Nil
        then have r0: "ref_at d t k 0 = Some None" using kl by (simp add: ref_at_def bucket_def)
        let ?it = "it2\<lparr>di_entry := None\<rparr>" and ?d = "d\<lparr>d_iterators := m\<rparr>"
        have i2: "iter_ok ?d ?it" using kl tr by (simp add: iter_ok_def it2_def)
        have "di_table it \<Longrightarrow> Suc (nat (di_index it)) = j"
          using Suc.prems(2) by (simp add: iter_ok_def j_def nat_add_distrib)
        then have "iter_measure ?d ?it < fuel"
          using Suc.prems(3) False jl ij kl
          by (auto simp: iter_measure_def it2_def t_def k_def dict_ht_def None split: if_splits)
        from Suc.IH [OF _ i2 this] Suc.prems(1) obtain m' it' r where
          ih: "dictNext fuel a ?d ?it = Some (?d\<lparr>d_iterators := m'\<rparr>, it', r)"
            "m' = m \<and> di_fingerprint it' = di_fingerprint ?it" "di_safe it' = di_safe ?it"
            "di_index it' \<noteq> -1 \<or> di_table it'"
            "delivered d ?it it' r"
          by (auto simp: it2_def)
        have "remaining d ?it = remaining d it" using rem2 Nil by (simp add: remaining_def it2_def nat_add_distrib)
        then have "delivered d it it' r" using ih(5) delivered_cong by blast
        with ih step r0 show ?thesis
          by (intro exI [of _ m] exI [of _ it'] exI [of _ r]) (auto simp: it2_def it1_def m_def)
      next
        case (Cons x xs)
        then have r0: "ref_at d t k 0 = Some (Some (t, k, 0))" using kl by (simp add: ref_at_def bucket_def)
        obtain n where n: "ref_at d t k (0 + 1) = Some n" using kl by (auto simp: ref_at_def bucket_def)
        define it' where "it' = it2\<lparr>di_entry := Some (t, k, 0), di_nextEntry := n\<rparr>"
        have "0 < length (ht_table (dict_ht d t) ! k)" using Cons by simp
        from deliver_ok [OF kl this it'_def n] kl tr
        have dl: "iter_ok d it' \<and> dictGetEntry d (t, k, 0) \<noteq> None \<and>
          the (dictGetEntry d (t, k, 0)) # remaining d it' = remaining d it"
          by (simp add: rem2 it2_def nat_add_distrib)
        have "dictNext (Suc fuel) a d it = Some (d\<lparr>d_iterators := m\<rparr>, it', Some (t, k, 0))"
          unfolding step r0 using n by (simp add: it'_def)
        with dl show ?thesis
          by (intro exI [of _ m] exI [of _ it'] exI [of _ "Some (t, k, 0)"])
             (auto simp: it'_def it2_def it1_def m_def)
      qed
    qed
  qed
qed


text \<open>A whole traversal: the entries an iterator returns until it returns NULL.\<close>

fun iterate ::
    "nat \<Rightarrow> nat \<Rightarrow> (bool \<Rightarrow> 64 word) \<Rightarrow> ('k, 'v) dict \<Rightarrow> dictIterator
     \<Rightarrow> (('k, 'v) dict \<times> dictIterator \<times> ('k \<times> 'v) list) option" where
  "iterate 0 fuel a d it = None"
| "iterate (Suc n) fuel a d it =
     do { (d, it, r) \<leftarrow> dictNext fuel a d it;
          (case r of
             None \<Rightarrow> Some (d, it, [])
           | Some ref \<Rightarrow>
               do { e \<leftarrow> dictGetEntry d ref;
                    (d, it, es) \<leftarrow> iterate n fuel a d it;
                    Some (d, it, e # es) }) }"

lemma iter_measure_bound:
  "iter_ok d it \<Longrightarrow>
   iter_measure d it < 2 * (length (ht_table (d_ht0 d)) + length (ht_table (d_ht1 d))) + 4"
  by (auto simp: iter_measure_def iter_ok_def)

lemma iterate_started:
  assumes "dict_ok d" "iter_ok d it" "di_index it \<noteq> -1 \<or> di_table it" "length (remaining d it) < n"
    and "2 * (length (ht_table (d_ht0 d)) + length (ht_table (d_ht1 d))) + 4 \<le> fuel"
  shows "\<exists>it'. iterate n fuel a d it = Some (d, it', remaining d it) \<and>
     di_fingerprint it' = di_fingerprint it \<and> di_safe it' = di_safe it \<and> (di_index it' \<noteq> -1 \<or> di_table it')"
  using assms
proof (induction n arbitrary: it)
  case (Suc n)
  have "iter_measure d it < fuel" using iter_measure_bound [OF Suc.prems(2)] Suc.prems(5) by linarith
  from dictNext_ok [OF Suc.prems(1,2) this, of a] Suc.prems(3) obtain it' r where
    nx: "dictNext fuel a d it = Some (d, it', r)" "di_fingerprint it' = di_fingerprint it"
      "di_safe it' = di_safe it" "di_index it' \<noteq> -1 \<or> di_table it'"
      "delivered d it it' r" by auto
  show ?case
  proof (cases r)
    case None
    with nx show ?thesis by simp
  next
    case (Some ref)
    with nx Suc.prems(4) have "iter_ok d it'" "length (remaining d it') < n" by auto
    from Suc.IH [OF Suc.prems(1) this(1) nx(4) this(2) Suc.prems(5)] nx Some show ?thesis by auto
  qed
qed simp

lemma iter_fresh:
  "iter_ok d (dictGetIterator\<lparr>di_safe := s\<rparr>)" "remaining d (dictGetIterator\<lparr>di_safe := s\<rparr>) = entries d"
  by (simp_all add: dictGetIterator_def iter_ok_def remaining_def tables_after_def entries_def dict_ht_def)

lemma iterate_fresh:
  assumes "dict_ok d" "dictSize d < n"
    and "2 * (ht_size (d_ht0 d) + ht_size (d_ht1 d)) + 4 \<le> fuel"
  shows "\<exists>m it'. iterate n fuel a d (dictGetIterator\<lparr>di_safe := s\<rparr>) = Some (d\<lparr>d_iterators := m\<rparr>, it', entries d) \<and>
     m = (if s then d_iterators d + 1 else d_iterators d) \<and> di_safe it' = s \<and>
     (s \<or> di_fingerprint it' = dictFingerprint a d) \<and> (di_index it' \<noteq> -1 \<or> di_table it')"
proof -
  let ?it = "dictGetIterator\<lparr>di_safe := s\<rparr>"
  have sz: "ht_size (d_ht0 d) = length (ht_table (d_ht0 d))" "ht_size (d_ht1 d) = length (ht_table (d_ht1 d))"
    using ht_len [OF assms(1), of False] ht_len [OF assms(1), of True] by (simp_all add: dict_ht_def)
  have len: "length (entries d) < n"
    using assms(1,2) by (simp add: dictSize_def dict_ok_def ht_ok_def entries_def)
  obtain n' where n: "n = Suc n'" using len by (cases n) auto
  have "iter_measure d ?it < fuel"
    using iter_measure_bound [OF iter_fresh(1) [of d s]] assms(3) sz by simp
  from dictNext_ok [OF assms(1) iter_fresh(1) this, of a] obtain m it' r where
    nx: "dictNext fuel a d ?it = Some (d\<lparr>d_iterators := m\<rparr>, it', r)"
      "m = (if s then d_iterators d + 1 else d_iterators d)" "s \<or> di_fingerprint it' = dictFingerprint a d"
      "di_safe it' = s" "di_index it' \<noteq> -1 \<or> di_table it'"
      "delivered d ?it it' r"
    by (auto simp: dictGetIterator_def)
  show ?thesis
  proof (cases r)
    case None
    with nx iter_fresh(2) [of d s] show ?thesis by (auto simp: n)
  next
    case (Some ref)
    let ?d = "d\<lparr>d_iterators := m\<rparr>"
    from Some nx len n iter_fresh(2) [of d s] have st: "dict_ok ?d" "iter_ok ?d it'" "length (remaining ?d it') < n'"
      "2 * (length (ht_table (d_ht0 ?d)) + length (ht_table (d_ht1 ?d))) + 4 \<le> fuel"
      using assms(1,3) sz by auto
    from iterate_started [OF st(1,2) nx(5) st(3,4), of a] nx Some iter_fresh(2) [of d s] show ?thesis by (auto simp: n)
  qed
qed

lemma dictFingerprint_iters: "dictFingerprint a (d\<lparr>d_iterators := m\<rparr>) = dictFingerprint a d"
  by (simp add: dictFingerprint_def)




end
