(* ===== verification/Rand48.thy ===== *)
theory Rand48
  imports Prelude
begin

text \<open>
  \<^verbatim>\<open>debug/redis/src/rand.c\<close>: the 48-bit linear congruential generator kept in three
  16-bit limbs. The limbs are \<^verbatim>\<open>uint32_t\<close>, so all arithmetic is on 32-bit words; the
  multiplier \<^verbatim>\<open>a\<close> and the increment \<^verbatim>\<open>c\<close> are static variables that are only ever
  set to \<open>A0 A1 A2\<close> and \<open>C\<close>, and are constants here. The theorem relates a step on the
  limbs, with its truncations and carries, to \<open>X' = (A X + C) mod 2^48\<close>.
\<close>

record rand48 =
  x0 :: "32 word"
  x1 :: "32 word"
  x2 :: "32 word"

definition LOW :: "32 word \<Rightarrow> 32 word" where
  "LOW x = x AND 0xFFFF"

text \<open>\<^verbatim>\<open>HIGH\<close> shifts right before masking: an \<^verbatim>\<open>int32_t\<close> keeps its sign.\<close>

definition HIGH :: "32 word \<Rightarrow> 32 word" where
  "HIGH x = LOW (signed_drop_bit 16 x)"

text \<open>\<^verbatim>\<open>MUL\<close>: a 64-bit product truncated to \<^verbatim>\<open>int32_t\<close>, then split.\<close>

definition MUL :: "32 word \<Rightarrow> 32 word \<Rightarrow> 32 word \<times> 32 word" where
  "MUL x y = (let l = ucast ((ucast x :: 64 word) * ucast y) in (LOW l, HIGH l))"

definition CARRY :: "32 word \<Rightarrow> 32 word \<Rightarrow> 32 word" where
  "CARRY x y = (if 0xFFFF < sint x + uint y then 1 else 0)"

definition ADDEQU :: "32 word \<Rightarrow> 32 word \<Rightarrow> 32 word \<times> 32 word" where
  "ADDEQU x y = (LOW (x + y), CARRY x y)"

definition next48 :: "rand48 \<Rightarrow> rand48" where
  "next48 s =
     (let (p0, p1) = MUL 0xE66D (x0 s);
          (p0, carry0) = ADDEQU p0 0xB;
          (p1, carry1) = ADDEQU p1 carry0;
          (q0, q1) = MUL 0xE66D (x1 s);
          (p1, carry0) = ADDEQU p1 q0;
          (r0, r1) = MUL 0xDEEC (x0 s)
      in \<lparr>x0 = LOW p0, x1 = LOW (p1 + r0),
          x2 = LOW (carry0 + carry1 + CARRY p1 r0 + q1 + r1 +
                    0xE66D * x2 s + 0xDEEC * x1 s + 0x5 * x0 s)\<rparr>)"

definition redisLrand48 :: "rand48 \<Rightarrow> rand48 \<times> int" where
  "redisLrand48 s = (let s = next48 s in (s, sint (push_bit 15 (x2 s) + drop_bit 1 (x1 s))))"

definition redisSrand48 :: "32 word \<Rightarrow> rand48" where
  "redisSrand48 seedval = \<lparr>x0 = 0x330E, x1 = LOW seedval, x2 = HIGH seedval\<rparr>"

section \<open>The limbs as numbers\<close>

definition limbs_ok :: "rand48 \<Rightarrow> bool" where
  "limbs_ok s \<longleftrightarrow> unat (x0 s) < 65536 \<and> unat (x1 s) < 65536 \<and> unat (x2 s) < 65536"

definition value48 :: "rand48 \<Rightarrow> nat" where
  "value48 s = unat (x0 s) + 65536 * unat (x1 s) + 65536 ^ 2 * unat (x2 s)"

lemma unat_LOW: "unat (LOW w) = unat w mod 65536"
proof -
  have "w AND 0xFFFF = take_bit 16 w"
    using take_bit_eq_mask [of 16 w] by (simp add: mask_numeral)
  then show ?thesis unfolding LOW_def by (simp add: take_bit_eq_mod unat_mod_distrib)
qed

lemma LOW_signed_shift: "LOW (signed_drop_bit 16 w) = drop_bit 16 w"
  unfolding LOW_def
proof (rule bit_word_eqI)
  fix n assume n: "n < LENGTH(32)"
  have m: "(0xFFFF :: 32 word) = mask 16" by (simp add: mask_numeral)
  show "bit (signed_drop_bit 16 w AND 0xFFFF) n = bit (drop_bit 16 w) n"
  proof (cases "n < 16")
    case True
    then show ?thesis unfolding m by (simp add: bit_simps min_def)
  next
    case False
    then have "\<not> bit w (16 + n)" using bit_imp_le_length [of w "16 + n"] by auto
    with False show ?thesis unfolding m by (simp add: bit_simps add.commute)
  qed
qed

lemma unat_HIGH: "unat (HIGH w) = unat w div 65536"
  by (simp add: HIGH_def LOW_signed_shift drop_bit_eq_div unat_div_distrib)

lemma MUL_limbs:
  assumes "unat x < 65536" "unat y < 65536"
  shows "MUL x y = (LOW (x * y), HIGH (x * y))" "unat (x * y) = unat x * unat y"
proof -
  have "unat x * unat y \<le> 65535 * 65535" using assms by (intro mult_le_mono) simp_all
  then have b: "unat x * unat y < 2 ^ 32" by simp
  then show "unat (x * y) = unat x * unat y" by (simp add: unat_word_ariths)
  have "unat ((ucast x :: 64 word) * ucast y) = unat x * unat y"
    using b assms by (simp add: unat_word_ariths unsigned_ucast_eq take_bit_eq_mod)
  then have "(ucast ((ucast x :: 64 word) * ucast y) :: 32 word) = x * y"
    by (subst of_nat_unat [symmetric]) simp
  then show "MUL x y = (LOW (x * y), HIGH (x * y))" by (simp add: MUL_def Let_def)
qed

text \<open>Adding two limbs: the carry and the low half are the two digits of the sum.\<close>

lemma CARRY_limbs:
  assumes "unat x < 65536" "unat y < 65536"
  shows "unat (CARRY x y) = (unat x + unat y) div 65536" "unat (x + y) = unat x + unat y"
proof -
  have u: "int (unat x) < 65536" "0 \<le> int (unat x)" using assms(1) by linarith+
  have "signed_take_bit 31 (int (unat x)) = int (unat x)"
    by (intro signed_take_bit_int_eq_self) (rule order_trans [OF _ u(2)], simp, use u(1) in simp)
  then have s: "sint x = int (unat x)" by (simp add: sint_uint)
  have "sint x + uint y = int (unat x + unat y)" by (simp add: s)
  then have "0xFFFF < sint x + uint y \<longleftrightarrow> 65535 < unat x + unat y" by linarith
  moreover have "(unat x + unat y) div 65536 = (if 65535 < unat x + unat y then 1 else 0)"
    using assms by auto
  ultimately show "unat (CARRY x y) = (unat x + unat y) div 65536" by (simp add: CARRY_def)
  show "unat (x + y) = unat x + unat y" using assms by (simp add: unat_word_ariths)
qed

lemma digits: "a = 65536 * (a div 65536) + a mod (65536 :: nat)"
  by simp

text \<open>The schoolbook product of the limbs, with the carries named.\<close>

lemma limb_product:
  fixes y0 y1 y2 :: nat
  assumes P: "0xE66D * y0 = 65536 * Pd + Pm" and Q: "0xE66D * y1 = 65536 * Qd + Qm"
    and R: "0xDEEC * y0 = 65536 * Rd + Rm"
    and s0: "Pm + 0xB = 65536 * d0 + m0" and s1: "Pd + d0 = 65536 * d1 + m1"
    and s2: "m1 + Qm = 65536 * d2 + m2" and s3: "m2 + Rm = 65536 * d3 + m3"
    and s4: "d2 + d1 + d3 + Qd + Rd + 0xE66D * y2 + 0xDEEC * y1 + 0x5 * y0 = 65536 * d4 + m4"
    and m: "m0 < 65536" "m3 < 65536" "m4 < 65536"
  shows "m0 + 65536 * m3 + 4294967296 * m4 =
     (0x5DEECE66D * (y0 + 65536 * y1 + 4294967296 * y2) + 0xB) mod 281474976710656"
proof -
  have "0x5DEECE66D * (y0 + 65536 * y1 + 4294967296 * y2) + 0xB =
      (m0 + 65536 * m3 + 4294967296 * m4)
      + (d4 + 0xDEEC * y2 + 0x5 * y1 + 65536 * (0x5 * y2)) * 281474976710656"
    using P s0 arg_cong [OF s1, of "(*) 65536"] arg_cong [OF Q, of "(*) 65536"]
      arg_cong [OF R, of "(*) 65536"] arg_cong [OF s2, of "(*) 65536"]
      arg_cong [OF s3, of "(*) 65536"] arg_cong [OF s4, of "(*) 4294967296"]
    by (simp add: algebra_simps)
  moreover have "m0 + 65536 * m3 + 4294967296 * m4 < 281474976710656" using m by linarith
  ultimately show ?thesis by (metis mod_less mod_mult_self1)
qed

lemmas unat_limb = unat_LOW unat_HIGH CARRY_limbs MUL_limbs(2)

lemma next48_ok:
  assumes "limbs_ok s"
  shows "limbs_ok (next48 s) \<and> value48 (next48 s) = (0x5DEECE66D * value48 s + 0xB) mod 2 ^ 48"
proof -
  define P Q R where PQR: "P = 0xE66D * x0 s" "Q = 0xE66D * x1 s" "R = 0xDEEC * x0 s"
  have b: "unat (x0 s) < 65536" "unat (x1 s) < 65536" "unat (x2 s) < 65536"
    using assms by (simp_all add: limbs_ok_def)
  have up: "unat P = 0xE66D * unat (x0 s)" "unat Q = 0xE66D * unat (x1 s)" "unat R = 0xDEEC * unat (x0 s)"
    unfolding PQR using MUL_limbs(2) [of "0xE66D" "x0 s"] MUL_limbs(2) [of "0xE66D" "x1 s"]
      MUL_limbs(2) [of "0xDEEC" "x0 s"] b by simp_all
  have mul: "MUL 0xE66D (x0 s) = (LOW P, HIGH P)" "MUL 0xE66D (x1 s) = (LOW Q, HIGH Q)"
    "MUL 0xDEEC (x0 s) = (LOW R, HIGH R)"
    unfolding PQR using b by (simp_all add: MUL_limbs(1))
  have lim: "unat (LOW w) < 65536" "unat (HIGH w) < 65536" for w
  proof -
    have "unat w < 4294967296" using unsigned_less [of w] by simp
    then show "unat (LOW w) < 65536" "unat (HIGH w) < 65536" by (simp_all add: unat_LOW unat_HIGH)
  qed
  define c0 where "c0 = CARRY (LOW P) 0xB"
  have c0: "unat c0 = (unat P mod 65536 + 0xB) div 65536" "unat c0 < 65536"
    using CARRY_limbs(1) [OF lim(1) [of P], of "0xB"] by (simp_all add: c0_def unat_LOW)
  define t1 where "t1 = HIGH P + c0"
  have t1: "unat t1 = unat P div 65536 + unat c0"
    using CARRY_limbs(2) [OF lim(2) [of P] c0(2)] by (simp add: t1_def unat_HIGH)
  define c1 where "c1 = CARRY (HIGH P) c0"
  have c1: "unat c1 = unat t1 div 65536"
    using CARRY_limbs(1) [OF lim(2) [of P] c0(2)] by (simp add: c1_def t1 unat_HIGH)
  define t2 where "t2 = LOW t1 + LOW Q"
  have t2: "unat t2 = unat t1 mod 65536 + unat Q mod 65536"
    using CARRY_limbs(2) [OF lim(1) lim(1), of t1 Q] by (simp add: t2_def unat_LOW)
  define c2 where "c2 = CARRY (LOW t1) (LOW Q)"
  have c2: "unat c2 = unat t2 div 65536"
    using CARRY_limbs(1) [OF lim(1) lim(1), of t1 Q] by (simp add: c2_def t2 unat_LOW)
  define t3 where "t3 = LOW t2 + LOW R"
  have t3: "unat t3 = unat t2 mod 65536 + unat R mod 65536"
    using CARRY_limbs(2) [OF lim(1) lim(1), of t2 R] by (simp add: t3_def unat_LOW)
  define c3 where "c3 = CARRY (LOW t2) (LOW R)"
  have c3: "unat c3 = unat t3 div 65536"
    using CARRY_limbs(1) [OF lim(1) lim(1), of t2 R] by (simp add: c3_def t3 unat_LOW)
  define t4 where "t4 = c2 + c1 + c3 + HIGH Q + HIGH R + 0xE66D * x2 s + 0xDEEC * x1 s + 0x5 * x0 s"
  define S where "S = unat c2 + unat c1 + unat c3 + unat (HIGH Q) + unat (HIGH R) +
      0xE66D * unat (x2 s) + 0xDEEC * unat (x1 s) + 0x5 * unat (x0 s)"
  have "t4 = of_nat S" by (simp add: t4_def S_def)
  then have t4: "unat t4 mod 65536 = S mod 65536"
    by (simp add: unat_of_nat mod_mod_cancel)
  have nx: "next48 s = \<lparr>x0 = LOW (LOW (LOW P + 0xB)), x1 = LOW t3, x2 = LOW t4\<rparr>"
    unfolding next48_def mul ADDEQU_def Let_def prod.case
    unfolding c0_def [symmetric] t1_def [symmetric] c1_def [symmetric] t2_def [symmetric]
      c2_def [symmetric] t3_def [symmetric] c3_def [symmetric] t4_def [symmetric] ..
  have p: "unat (LOW P + 0xB) = unat P mod 65536 + 0xB"
    using CARRY_limbs(2) [OF lim(1) [of P], of "0xB"] by (simp add: unat_LOW)
  let ?s0 = "unat P mod 65536 + 0xB"
  have "?s0 mod 65536 + 65536 * (unat t3 mod 65536) + 4294967296 * (S mod 65536) =
      (0x5DEECE66D * (unat (x0 s) + 65536 * unat (x1 s) + 4294967296 * unat (x2 s)) + 0xB)
        mod 281474976710656"
  proof (rule limb_product)
    show "0xE66D * unat (x0 s) = 65536 * (unat P div 65536) + unat P mod 65536" by (simp add: up [symmetric])
    show "0xE66D * unat (x1 s) = 65536 * (unat Q div 65536) + unat Q mod 65536" by (simp add: up [symmetric])
    show "0xDEEC * unat (x0 s) = 65536 * (unat R div 65536) + unat R mod 65536" by (simp add: up(3) [symmetric])
    show "?s0 = 65536 * unat c0 + ?s0 mod 65536" by (simp add: c0)
    show "unat P div 65536 + unat c0 = 65536 * unat c1 + unat t1 mod 65536" by (simp add: c1 t1 [symmetric])
    show "unat t1 mod 65536 + unat Q mod 65536 = 65536 * unat c2 + unat t2 mod 65536" by (simp add: c2 t2 [symmetric])
    show "unat t2 mod 65536 + unat R mod 65536 = 65536 * unat c3 + unat t3 mod 65536" by (simp add: c3 t3 [symmetric])
    show "unat c2 + unat c1 + unat c3 + unat Q div 65536 + unat R div 65536 + 0xE66D * unat (x2 s) +
        0xDEEC * unat (x1 s) + 0x5 * unat (x0 s) = 65536 * (S div 65536) + S mod 65536"
      by (simp add: S_def unat_HIGH)
  qed simp_all
  then show ?thesis
    by (simp add: nx limbs_ok_def value48_def unat_LOW p t4)
qed

lemma redisSrand48_limbs: "limbs_ok (redisSrand48 seed)"
proof -
  have "unat seed < 4294967296" using unsigned_less [of seed] by simp
  then show ?thesis by (simp add: limbs_ok_def redisSrand48_def unat_LOW unat_HIGH)
qed

text \<open>
  On a state of three 16-bit limbs, one call of redisLrand48 advances the 48-bit value of
  the limbs by the drand48 congruence, stays in range, and returns the top 31 bits of the
  new value as a non-negative number.
\<close>

theorem redisLrand48_lcg:
  assumes "limbs_ok s"
  shows "case redisLrand48 s of (s', r) \<Rightarrow>
     limbs_ok s' \<and> value48 s' = (0x5DEECE66D * value48 s + 0xB) mod 2 ^ 48 \<and>
     r = int (value48 s' div 2 ^ 17) \<and> 0 \<le> r \<and> r < 2 ^ 31"
proof -
  let ?s = "next48 s"
  have ok: "limbs_ok ?s" "value48 ?s = (0x5DEECE66D * value48 s + 0xB) mod 2 ^ 48"
    using next48_ok [OF assms] by auto
  define u v where uv: "u = unat (x2 ?s)" "v = unat (x1 ?s)"
  have b: "u < 65536" "v < 65536" "unat (x0 ?s) < 65536" using ok(1) by (simp_all add: limbs_ok_def uv)
  let ?w = "push_bit 15 (x2 ?s) + drop_bit 1 (x1 ?s)"
  have "unat (push_bit 15 (x2 ?s)) = 32768 * u" "unat (drop_bit 1 (x1 ?s)) = v div 2"
    using b by (simp_all add: push_bit_eq_mult unat_word_ariths uv drop_bit_eq_div unat_div_distrib)
  then have w: "unat ?w = 32768 * u + v div 2" using b by (simp add: unat_word_ariths)
  have d: "value48 ?s div 2 ^ 17 = 32768 * u + v div 2"
  proof -
    have "v = v div 2 * 2 + v mod 2" by simp
    then have "65536 * v = 65536 * (v mod 2) + v div 2 * 131072" by linarith
    then have "value48 ?s = (unat (x0 ?s) + 65536 * (v mod 2)) + (32768 * u + v div 2) * 131072"
      unfolding value48_def uv [symmetric] by simp
    moreover have "unat (x0 ?s) + 65536 * (v mod 2) < 131072"
      using b by (simp add: mod2_eq_if)
    ultimately show ?thesis by simp
  qed
  have lt: "int (unat ?w) < 2 ^ 31" using b w by simp
  have "signed_take_bit 31 (int (unat ?w)) = int (unat ?w)"
    by (intro signed_take_bit_int_eq_self) (rule order_trans [of _ 0], simp, simp, use lt in simp)
  then have "sint ?w = int (unat ?w)" by (simp add: sint_uint)
  then have "sint ?w = int (value48 ?s div 2 ^ 17)" by (simp only: w d)
  then show ?thesis using ok lt w d by (simp add: redisLrand48_def Let_def)
qed

theorem redisLrand48_lcg_witness:
  "snd (redisLrand48 (redisSrand48 0)) =
     int ((0x5DEECE66D * value48 (redisSrand48 0) + 0xB) mod 2 ^ 48 div 2 ^ 17)"
  using redisLrand48_lcg [OF redisSrand48_limbs, of 0] by (auto split: prod.splits)

end
