(* ===== verification/Intset.thy ===== *)
theory Intset
  imports Prelude
begin

text \<open>
  \<^verbatim>\<open>debug/redis/src/intset.c\<close>: a sorted set of integers in a byte array, with the
  element width (2, 4 or 8 bytes) chosen by the largest element and upgraded on demand.
  \<open>contents\<close> holds the little-endian two's complement bytes, as on the hosts of this
  repository, where the \<^verbatim>\<open>...ifbe\<close> macros are the identity. Element values are
  \<open>int\<close> in the range of \<^verbatim>\<open>int64_t\<close>; byte sizes are computed modulo \<open>2 ^ 32\<close> as in
  \<open>intsetResize\<close>. The bytes \<^verbatim>\<open>zrealloc\<close> hands out are the parameter \<open>junk\<close>.
  A write outside the array would change its length, so the length in the invariant
  also states that all writes stay in bounds.
\<close>

record intset =
  is_encoding :: nat
  is_length :: nat
  is_contents :: bytes

definition intsetValueEncoding :: "int \<Rightarrow> nat" where
  "intsetValueEncoding v =
     (if v < - (2 ^ 31) \<or> v > 2 ^ 31 - 1 then 8
      else if v < - (2 ^ 15) \<or> v > 2 ^ 15 - 1 then 4
      else 2)"

definition intsetGetEncoded :: "intset \<Rightarrow> nat \<Rightarrow> nat \<Rightarrow> int" where
  "intsetGetEncoded is pos enc =
     (if enc = 8 then sle_int (mem_read (is_contents is) (pos * 8) 8)
      else if enc = 4 then sle_int (mem_read (is_contents is) (pos * 4) 4)
      else sle_int (mem_read (is_contents is) (pos * 2) 2))"

definition intsetGet0 :: "intset \<Rightarrow> nat \<Rightarrow> int" where
  "intsetGet0 is pos = intsetGetEncoded is pos (is_encoding is)"

definition intsetSet0 :: "intset \<Rightarrow> nat \<Rightarrow> int \<Rightarrow> intset" where
  "intsetSet0 is pos v =
     (let enc = is_encoding is in
      if enc = 8 then is\<lparr>is_contents := mem_write (is_contents is) (pos * 8) (sle_bytes 8 v)\<rparr>
      else if enc = 4 then is\<lparr>is_contents := mem_write (is_contents is) (pos * 4) (sle_bytes 4 v)\<rparr>
      else is\<lparr>is_contents := mem_write (is_contents is) (pos * 2) (sle_bytes 2 v)\<rparr>)"

definition intsetNew :: intset where
  "intsetNew = \<lparr>is_encoding = 2, is_length = 0, is_contents = []\<rparr>"

definition intsetResize :: "(nat \<Rightarrow> byte) \<Rightarrow> intset \<Rightarrow> nat \<Rightarrow> intset" where
  "intsetResize junk is len =
     is\<lparr>is_contents := mem_resize junk (len * is_encoding is mod 2 ^ 32) (is_contents is)\<rparr>"

text \<open>The binary search: the variables \<open>min max mid cur\<close> when the loop ends.\<close>

function search_loop :: "intset \<Rightarrow> int \<Rightarrow> int \<Rightarrow> int \<Rightarrow> int \<Rightarrow> int \<Rightarrow> int \<times> int \<times> int" where
  "search_loop is v mn mx mid cur =
     (if mn \<le> mx then
        let mid = (mn + mx) div 2; cur = intsetGet0 is (nat mid) in
        if v > cur then search_loop is v (mid + 1) mx mid cur
        else if v < cur then search_loop is v mn (mid - 1) mid cur
        else (mn, mid, cur)
      else (mn, mid, cur))"
  by pat_completeness auto
termination
  by (relation "measure (\<lambda>(is, v, mn, mx, mid, cur). nat (mx - mn + 1))") auto

declare search_loop.simps [simp del]

definition intsetSearch :: "intset \<Rightarrow> int \<Rightarrow> bool \<times> nat" where
  "intsetSearch is v =
     (if is_length is = 0 then (False, 0)
      else if v > intsetGet0 is (is_length is - 1) then (False, is_length is)
      else if v < intsetGet0 is 0 then (False, 0)
      else
        let (mn, mid, cur) = search_loop is v 0 (int (is_length is) - 1) (-1) (-1)
        in if v = cur then (True, nat mid) else (False, nat mn))"

fun upgrade_loop :: "nat \<Rightarrow> nat \<Rightarrow> nat \<Rightarrow> intset \<Rightarrow> intset" where
  "upgrade_loop curenc prepend 0 is = is"
| "upgrade_loop curenc prepend (Suc len) is =
     upgrade_loop curenc prepend len
       (intsetSet0 is (len + prepend) (intsetGetEncoded is len curenc))"

definition intsetUpgradeAndAdd :: "(nat \<Rightarrow> byte) \<Rightarrow> intset \<Rightarrow> int \<Rightarrow> intset" where
  "intsetUpgradeAndAdd junk is v =
     (let curenc = is_encoding is;
          newenc = intsetValueEncoding v;
          len = is_length is;
          prepend = (if v < 0 then 1 else 0);
          is = is\<lparr>is_encoding := newenc\<rparr>;
          is = intsetResize junk is (is_length is + 1);
          is = upgrade_loop curenc prepend len is;
          is = (if prepend = 1 then intsetSet0 is 0 v else intsetSet0 is (is_length is) v)
      in is\<lparr>is_length := is_length is + 1\<rparr>)"

definition intsetMoveTail :: "intset \<Rightarrow> nat \<Rightarrow> nat \<Rightarrow> intset" where
  "intsetMoveTail is from to =
     (let n = is_length is - from; enc = is_encoding is in
      if enc = 8 then is\<lparr>is_contents := mem_move (is_contents is) (to * 8) (from * 8) (n * 8)\<rparr>
      else if enc = 4 then is\<lparr>is_contents := mem_move (is_contents is) (to * 4) (from * 4) (n * 4)\<rparr>
      else is\<lparr>is_contents := mem_move (is_contents is) (to * 2) (from * 2) (n * 2)\<rparr>)"

definition intsetAdd :: "(nat \<Rightarrow> byte) \<Rightarrow> intset \<Rightarrow> int \<Rightarrow> intset \<times> bool" where
  "intsetAdd junk is v =
     (let valenc = intsetValueEncoding v in
      if valenc > is_encoding is then (intsetUpgradeAndAdd junk is v, True)
      else
        let (found, pos) = intsetSearch is v in
        if found then (is, False)
        else
          let is = intsetResize junk is (is_length is + 1);
              is = (if pos < is_length is then intsetMoveTail is pos (pos + 1) else is);
              is = intsetSet0 is pos v
          in (is\<lparr>is_length := is_length is + 1\<rparr>, True))"

definition intsetRemove :: "(nat \<Rightarrow> byte) \<Rightarrow> intset \<Rightarrow> int \<Rightarrow> intset \<times> bool" where
  "intsetRemove junk is v =
     (let valenc = intsetValueEncoding v; (found, pos) = intsetSearch is v in
      if valenc \<le> is_encoding is \<and> found then
        let len = is_length is;
            is = (if pos < len - 1 then intsetMoveTail is (pos + 1) pos else is);
            is = intsetResize junk is (len - 1)
        in (is\<lparr>is_length := len - 1\<rparr>, True)
      else (is, False))"

definition intsetFind :: "intset \<Rightarrow> int \<Rightarrow> bool" where
  "intsetFind is v \<longleftrightarrow> intsetValueEncoding v \<le> is_encoding is \<and> fst (intsetSearch is v)"

definition intsetRandom :: "nat \<Rightarrow> intset \<Rightarrow> int" where
  "intsetRandom rand is = intsetGet0 is (rand mod is_length is)"

definition intsetGet :: "intset \<Rightarrow> nat \<Rightarrow> int option" where
  "intsetGet is pos = (if pos < is_length is then Some (intsetGet0 is pos) else None)"

definition intsetLen :: "intset \<Rightarrow> nat" where
  "intsetLen is = is_length is"

text \<open>\<^verbatim>\<open>sizeof(intset)\<close> is 8: the flexible array member has no size.\<close>

definition intsetBlobLen :: "intset \<Rightarrow> nat" where
  "intsetBlobLen is = 8 + is_length is * is_encoding is"

section \<open>Elements of the array\<close>

definition get_at :: "nat \<Rightarrow> bytes \<Rightarrow> nat \<Rightarrow> int" where
  "get_at enc c i = sle_int (mem_read c (i * enc) enc)"

definition vals :: "intset \<Rightarrow> int list" where
  "vals is = map (get_at (is_encoding is) (is_contents is)) [0..<is_length is]"

definition intset_ok :: "intset \<Rightarrow> bool" where
  "intset_ok is \<longleftrightarrow> is_encoding is \<in> {2, 4, 8} \<and>
     length (is_contents is) = is_length is * is_encoding is \<and>
     sorted_wrt (<) (vals is) \<and> is_length is * 8 < 2 ^ 32"

lemma intsetGetEncoded_at:
  "enc \<in> {2, 4, 8} \<Longrightarrow> intsetGetEncoded is pos enc = get_at enc (is_contents is) pos"
  by (auto simp: intsetGetEncoded_def get_at_def)

lemma intsetGet_at:
  "is_encoding is \<in> {2, 4, 8} \<Longrightarrow> intsetGet0 is pos = get_at (is_encoding is) (is_contents is) pos"
  by (simp add: intsetGet0_def intsetGetEncoded_at)

lemma intsetSet_at:
  "is_encoding is \<in> {2, 4, 8} \<Longrightarrow> intsetSet0 is pos v =
   is\<lparr>is_contents := mem_write (is_contents is) (pos * is_encoding is) (sle_bytes (is_encoding is) v)\<rparr>"
  by (auto simp: intsetSet0_def)

lemma intsetMoveTail_at:
  "is_encoding is \<in> {2, 4, 8} \<Longrightarrow> intsetMoveTail is from to =
   is\<lparr>is_contents := mem_move (is_contents is) (to * is_encoding is) (from * is_encoding is)
       ((is_length is - from) * is_encoding is)\<rparr>"
  by (auto simp: intsetMoveTail_def)

lemma slot_bound: "i < n \<Longrightarrow> i * e + e \<le> n * (e :: nat)"
  by (metis Suc_leI mult.commute mult_Suc_right mult_le_mono1 add.commute)

lemma get_at_write:
  assumes "p < n" "length c = n * e" "0 < e" "sfits e v" "i < n"
  shows "get_at e (mem_write c (p * e) (sle_bytes e v)) i = (if i = p then v else get_at e c i)"
proof (cases "i = p")
  case True
  then show ?thesis using assms slot_bound [of p n e] by (simp add: get_at_def mem_simps le_simps)
next
  case False
  then have "i * e + e \<le> p * e \<or> p * e + e \<le> i * e"
    using slot_bound [of i p e] slot_bound [of p i e] by linarith
  then show ?thesis using False assms slot_bound [of p n e] slot_bound [of i n e]
    by (simp add: get_at_def mem_simps)
qed

lemma get_at_write_any:
  assumes "i * e + e \<le> length c" "w + length xs \<le> length c" "i * e + e \<le> w \<or> w + length xs \<le> i * e"
  shows "get_at e (mem_write c w xs) i = get_at e c i"
  using assms by (simp add: get_at_def mem_read_write_disjoint)

lemma get_at_resize:
  "i * e + e \<le> length c \<Longrightarrow> i * e + e \<le> m \<Longrightarrow> get_at e (mem_resize junk m c) i = get_at e c i"
  by (simp add: get_at_def mem_resize_def mem_read_def take_drop)

lemma get_at_move:
  assumes "length c = n * e" "from + k \<le> n" "to + k \<le> n" "i < n"
  shows "get_at e (mem_move c (to * e) (from * e) (k * e)) i =
    (if to \<le> i \<and> i < to + k then get_at e c (i - to + from) else get_at e c i)"
proof (cases "to \<le> i \<and> i < to + k")
  case True
  have fk: "from * e + k * e \<le> length c" "to * e + k * e \<le> length c"
    using assms by (metis add_mult_distrib mult_le_mono1)+
  define d where "d = i - to"
  have i: "i = to + d" "d < k" using True by (auto simp: d_def)
  have "d * e + e \<le> k * e" using i(2) by (rule slot_bound)
  then have "mem_read (mem_move c (to * e) (from * e) (k * e)) (i * e) e = mem_read c ((i - to + from) * e) e"
    using mem_read_move [OF fk(2) fk(1), of "d * e" e]
    by (simp add: i(1) add_mult_distrib add.commute)
  then show ?thesis using True by (simp add: get_at_def)
next
  case False
  have fk: "from * e + k * e \<le> length c" "to * e + k * e \<le> length c"
    using assms by (metis add_mult_distrib mult_le_mono1)+
  have "i * e + e \<le> to * e \<or> to * e + k * e \<le> i * e"
    using False slot_bound [of i to e] mult_le_mono1 [of "to + k" i e] by (auto simp: add_mult_distrib)
  then show ?thesis using False assms fk slot_bound [of i n e] unfolding mem_move_def
    by (subst get_at_write_any) (auto simp: mem_simps)
qed

section \<open>Binary search\<close>

lemma length_vals [simp]: "length (vals is) = is_length is"
  by (simp add: vals_def)

lemma nth_vals: "i < is_length is \<Longrightarrow> vals is ! i = get_at (is_encoding is) (is_contents is) i"
  by (simp add: vals_def)

lemma intsetGet0_vals: "intset_ok is \<Longrightarrow> i < is_length is \<Longrightarrow> intsetGet0 is i = vals is ! i"
  by (simp add: intset_ok_def intsetGet_at nth_vals)

lemma vals_mono: "intset_ok is \<Longrightarrow> i < j \<Longrightarrow> j < is_length is \<Longrightarrow> vals is ! i < vals is ! j"
  by (simp add: intset_ok_def sorted_wrt_nth_less)

lemma vals_mono_le: "intset_ok is \<Longrightarrow> i \<le> j \<Longrightarrow> j < is_length is \<Longrightarrow> vals is ! i \<le> vals is ! j"
  using vals_mono [of "is" i j] by (cases "i = j") auto

text \<open>
  The loop keeps everything left of \<open>mn\<close> below the value and everything right of \<open>mx\<close>
  above it.
\<close>

lemma search_loop_ok:
  assumes "intset_ok is" "0 \<le> mn" "mn \<le> mx + 1" "mx < int (is_length is)"
    and "\<forall>i < is_length is. int i < mn \<longrightarrow> vals is ! i < v"
    and "\<forall>i < is_length is. mx < int i \<longrightarrow> v < vals is ! i"
    and "mn \<le> mx \<or> cur \<noteq> v"
  shows "case search_loop is v mn mx mid cur of (mn', mid', cur') \<Rightarrow>
     if cur' = v then 0 \<le> mid' \<and> nat mid' < is_length is \<and> vals is ! nat mid' = v
     else 0 \<le> mn' \<and> nat mn' \<le> is_length is \<and>
       (\<forall>i < is_length is. if i < nat mn' then vals is ! i < v else v < vals is ! i)"
  using assms
proof (induction "is" v mn mx mid cur rule: search_loop.induct)
  case (1 "is" v mn mx mid cur)
  define md where "md = (mn + mx) div 2"
  define cr where "cr = intsetGet0 is (nat md)"
  show ?case
  proof (cases "mn \<le> mx")
    case False
    then have "mn = mx + 1" using 1 by simp
    then show ?thesis using False 1(3-) by (subst search_loop.simps) (auto simp: nat_less_iff)
  next
    case True
    have md: "mn \<le> md" "md \<le> mx" "0 \<le> md" "nat md < is_length is" using True 1 by (auto simp: md_def)
    have cr: "cr = vals is ! nat md" using intsetGet0_vals [OF 1(3) md(4)] by (simp add: cr_def)
    consider "v > cr" | "v < cr" | "v = cr" by linarith
    then show ?thesis
    proof cases
      case 1: 1
      have "\<forall>i < is_length is. int i < md + 1 \<longrightarrow> vals is ! i < v"
      proof (intro allI impI)
        fix i assume i: "i < is_length is" "int i < md + 1"
        then have "i \<le> nat md" by linarith
        from vals_mono_le [OF \<open>intset_ok is\<close> this md(4)] show "vals is ! i < v" using cr 1 by simp
      qed
      then have "case search_loop is v (md + 1) mx md cr of (mn', mid', cur') \<Rightarrow>
         if cur' = v then 0 \<le> mid' \<and> nat mid' < is_length is \<and> vals is ! nat mid' = v
         else 0 \<le> mn' \<and> nat mn' \<le> is_length is \<and>
           (\<forall>i < is_length is. if i < nat mn' then vals is ! i < v else v < vals is ! i)"
        using "1.IH"(1) [OF True md_def cr_def 1] "1.prems" md 1 by simp
      then show ?thesis using True 1 by (subst search_loop.simps) (simp add: md_def [symmetric] cr_def [symmetric] Let_def)
    next
      case 2
      have "\<forall>i < is_length is. md - 1 < int i \<longrightarrow> v < vals is ! i"
      proof (intro allI impI)
        fix i assume i: "i < is_length is" "md - 1 < int i"
        then have "nat md \<le> i" by linarith
        from vals_mono_le [OF \<open>intset_ok is\<close> this i(1)] show "v < vals is ! i" using cr 2 by simp
      qed
      then have "case search_loop is v mn (md - 1) md cr of (mn', mid', cur') \<Rightarrow>
         if cur' = v then 0 \<le> mid' \<and> nat mid' < is_length is \<and> vals is ! nat mid' = v
         else 0 \<le> mn' \<and> nat mn' \<le> is_length is \<and>
           (\<forall>i < is_length is. if i < nat mn' then vals is ! i < v else v < vals is ! i)"
        using "1.IH"(2) [OF True md_def cr_def _ 2] "1.prems" md 2 by simp
      then show ?thesis using True 2 by (subst search_loop.simps) (simp add: md_def [symmetric] cr_def [symmetric] Let_def)
    next
      case 3
      then show ?thesis using True md cr
        by (subst search_loop.simps) (simp add: md_def [symmetric] cr_def [symmetric] Let_def)
    qed
  qed
qed

text \<open>The result of a search: the position of the value, or its insertion point.\<close>

lemma intsetSearch_ok:
  assumes "intset_ok is"
  shows "case intsetSearch is v of (found, pos) \<Rightarrow>
     if found then pos < is_length is \<and> vals is ! pos = v
     else pos \<le> is_length is \<and>
       (\<forall>i < is_length is. if i < pos then vals is ! i < v else v < vals is ! i)"
proof (cases "is_length is = 0")
  case True
  then show ?thesis by (simp add: intsetSearch_def)
next
  case False
  let ?n = "is_length is"
  have g: "intsetGet0 is (?n - 1) = vals is ! (?n - 1)" "intsetGet0 is 0 = vals is ! 0"
    using False intsetGet0_vals [OF assms] by auto
  consider "v > vals is ! (?n - 1)" | "v < vals is ! 0" "v \<le> vals is ! (?n - 1)"
    | "vals is ! 0 \<le> v" "v \<le> vals is ! (?n - 1)" by linarith
  then show ?thesis
  proof cases
    case 1
    have "vals is ! i < v" if "i < ?n" for i
      using 1 that vals_mono_le [OF assms, of i "?n - 1"] by fastforce
    then show ?thesis using 1 False g by (simp add: intsetSearch_def)
  next
    case 2
    have "v < vals is ! i" if "i < ?n" for i
      using 2 that vals_mono_le [OF assms, of 0 i] by fastforce
    then show ?thesis using 2 False g by (simp add: intsetSearch_def)
  next
    case 3
    then show ?thesis using False g search_loop_ok [OF assms, of 0 "int ?n - 1" v "-1" "-1"]
      by (auto simp: intsetSearch_def split: if_splits)
  qed
qed

section \<open>Upgrading the encoding\<close>

lemma upgrade_loop_ok:
  assumes "is_encoding is = ne" "ne \<in> {2, 4, 8}" "ce \<in> {2, 4, 8}" "ce \<le> ne"
    and "length (is_contents is) = N * ne" "L + pre \<le> N" "len \<le> L"
    and "\<forall>i < L. sfits ne (vs i)"
    and "\<forall>i < len. get_at ce (is_contents is) i = vs i"
    and "\<forall>i < L. len \<le> i \<longrightarrow> get_at ne (is_contents is) (i + pre) = vs i"
  shows "\<exists>c. upgrade_loop ce pre len is = is\<lparr>is_contents := c\<rparr> \<and> length c = N * ne \<and>
     (\<forall>i < L. get_at ne c (i + pre) = vs i)"
  using assms
proof (induction len arbitrary: "is")
  case 0
  then show ?case by (intro exI [of _ "is_contents is"]) simp
next
  case (Suc len)
  let ?c = "mem_write (is_contents is) ((len + pre) * ne) (sle_bytes ne (vs len))"
  let ?is = "is\<lparr>is_contents := ?c\<rparr>"
  have pos: "0 < ne" "len + pre < N" "len < L" using Suc.prems by auto
  have wb: "(len + pre) * ne + ne \<le> N * ne" using pos(2) by (rule slot_bound)
  have st: "intsetSet0 is (len + pre) (intsetGetEncoded is len ce) = ?is"
    using Suc.prems by (simp add: intsetSet_at intsetGetEncoded_at)
  have lc: "length ?c = N * ne" using Suc.prems wb by (simp add: mem_simps)
  have low: "get_at ce ?c i = vs i" if "i < len" for i
  proof -
    have "i * ce + ce \<le> len * ce" using that by (rule slot_bound)
    also have "\<dots> \<le> (len + pre) * ne" using Suc.prems(4) by (intro mult_le_mono) auto
    finally have a: "i * ce + ce \<le> (len + pre) * ne" .
    with wb Suc.prems(5) have "i * ce + ce \<le> length (is_contents is)" by linarith
    then show ?thesis using a wb that Suc.prems by (subst get_at_write_any) auto
  qed
  have high: "get_at ne ?c (i + pre) = vs i" if "i < L" "len \<le> i" for i
    using get_at_write [OF pos(2) Suc.prems(5) pos(1), of "vs len" "i + pre"] that Suc.prems
    by (cases "i = len") auto
  have "\<exists>c. upgrade_loop ce pre len ?is = ?is\<lparr>is_contents := c\<rparr> \<and> length c = N * ne \<and>
      (\<forall>i < L. get_at ne c (i + pre) = vs i)"
    using Suc.prems lc low high by (intro Suc.IH) auto
  then show ?case by (simp add: st)
qed

lemma sfits_get_at: "i * e + e \<le> length c \<Longrightarrow> sfits e (get_at e c i)"
  using sfits_sle_int [of "mem_read c (i * e) e"] by (simp add: get_at_def mem_simps)

lemma sfits_mono: "sfits a v \<Longrightarrow> a \<le> b \<Longrightarrow> sfits b v"
proof -
  assume "sfits a v" "a \<le> b"
  moreover have "(256 :: int) ^ a \<le> 256 ^ b" using \<open>a \<le> b\<close> by (intro power_increasing) auto
  ultimately show ?thesis unfolding sfits_def by linarith
qed

lemma encoding_fits:
  "sfits 8 v \<Longrightarrow> sfits (intsetValueEncoding v) v"
  "intsetValueEncoding v \<in> {2, 4, 8}"
  by (auto simp: sfits_def intsetValueEncoding_def)

lemma encoding_min: "sfits e v \<Longrightarrow> e \<in> {2, 4, 8} \<Longrightarrow> intsetValueEncoding v \<le> e"
  by (auto simp: sfits_def intsetValueEncoding_def)

text \<open>A value that needs a wider encoding lies outside the range of the present elements.\<close>

lemma wider_outside:
  "sfits e w \<Longrightarrow> e \<in> {2, 4, 8} \<Longrightarrow> e < intsetValueEncoding v \<Longrightarrow> if v < 0 then v < w else w < v"
  by (auto simp: sfits_def intsetValueEncoding_def split: if_splits)

lemma sorted_wrt_Cons_front: "sorted_wrt (<) xs \<Longrightarrow> \<forall>x \<in> set xs. v < x \<Longrightarrow> sorted_wrt (<) (v # xs)"
  by simp

lemma vals_in_range: "intset_ok is \<Longrightarrow> w \<in> set (vals is) \<Longrightarrow> sfits (is_encoding is) w"
  by (auto simp: intset_ok_def vals_def intro!: sfits_get_at slot_bound)

lemma intsetUpgradeAndAdd_ok:
  assumes ok: "intset_ok is" and v: "sfits 8 v" and w: "is_encoding is < intsetValueEncoding v"
    and room: "(is_length is + 1) * 8 < 2 ^ 32"
  shows "intset_ok (intsetUpgradeAndAdd junk is v) \<and>
    vals (intsetUpgradeAndAdd junk is v) = (if v < 0 then v # vals is else vals is @ [v])"
proof -
  let ?ne = "intsetValueEncoding v" and ?ce = "is_encoding is" and ?n = "is_length is"
  define pre where "pre = (if v < 0 then 1 else 0 :: nat)"
  have ne: "?ne \<in> {2, 4, 8}" "sfits ?ne v" using encoding_fits v by auto
  have ce: "?ce \<in> {2, 4, 8}" and lenc: "length (is_contents is) = ?n * ?ce" using ok by (auto simp: intset_ok_def)
  have "(?n + 1) * ?ne \<le> (?n + 1) * 8" using ne(1) by (intro mult_le_mono) auto
  then have md: "(?n + 1) * ?ne mod 2 ^ 32 = (?n + 1) * ?ne" using room by simp
  define c0 where "c0 = mem_resize junk ((?n + 1) * ?ne) (is_contents is)"
  have lc0: "length c0 = (?n + 1) * ?ne" by (simp add: c0_def mem_simps)
  have g0: "get_at ?ce c0 i = vals is ! i" if "i < ?n" for i
  proof -
    have a: "i * ?ce + ?ce \<le> ?n * ?ce" using that by (rule slot_bound)
    moreover have "?n * ?ce \<le> (?n + 1) * ?ne" using w by (intro mult_le_mono) auto
    ultimately show ?thesis using that lenc unfolding c0_def by (subst get_at_resize) (auto simp: nth_vals)
  qed
  let ?is = "is\<lparr>is_encoding := ?ne, is_contents := c0\<rparr>"
  have rs: "intsetResize junk (is\<lparr>is_encoding := ?ne\<rparr>) (?n + 1) = ?is"
    using md by (simp add: intsetResize_def c0_def)
  have fit: "\<forall>i < ?n. sfits ?ne (vals is ! i)"
    using vals_in_range [OF ok] w by (auto intro!: sfits_mono [of ?ce _ ?ne])
  have "\<exists>c. upgrade_loop ?ce pre ?n ?is = ?is\<lparr>is_contents := c\<rparr> \<and> length c = (?n + 1) * ?ne \<and>
      (\<forall>i < ?n. get_at ?ne c (i + pre) = vals is ! i)"
    by (rule upgrade_loop_ok [of _ ?ne]) (use ne ce w lc0 g0 fit in \<open>auto simp: pre_def\<close>)
  then obtain c where c: "upgrade_loop ?ce pre ?n ?is = ?is\<lparr>is_contents := c\<rparr>" "length c = (?n + 1) * ?ne"
    "\<forall>i < ?n. get_at ?ne c (i + pre) = vals is ! i" by blast
  define p where "p = (if v < 0 then 0 else ?n)"
  define c' where "c' = mem_write c (p * ?ne) (sle_bytes ?ne v)"
  have p: "p < ?n + 1" by (simp add: p_def)
  have lc': "length c' = (?n + 1) * ?ne"
    using c(2) slot_bound [OF p, of ?ne] by (simp add: c'_def mem_simps)
  have g': "get_at ?ne c' i = (if i = p then v else get_at ?ne c i)" if "i < ?n + 1" for i
    unfolding c'_def using ne that p c(2) by (intro get_at_write) auto
  have res: "intsetUpgradeAndAdd junk is v = is\<lparr>is_encoding := ?ne, is_length := ?n + 1, is_contents := c'\<rparr>"
    unfolding intsetUpgradeAndAdd_def Let_def pre_def [symmetric] using rs c(1) ne(1)
    by (cases "v < 0") (auto simp: intsetSet_at pre_def c'_def p_def)
  have vs: "vals (intsetUpgradeAndAdd junk is v) = (if v < 0 then v # vals is else vals is @ [v])"
  proof (rule nth_equalityI)
    show "length (vals (intsetUpgradeAndAdd junk is v)) = length (if v < 0 then v # vals is else vals is @ [v])"
      by (simp add: res)
    fix i assume "i < length (vals (intsetUpgradeAndAdd junk is v))"
    then have i: "i < ?n + 1" by (simp add: res)
    then have "vals (intsetUpgradeAndAdd junk is v) ! i = (if i = p then v else get_at ?ne c i)"
      using g' by (simp add: nth_vals res)
    then show "vals (intsetUpgradeAndAdd junk is v) ! i = (if v < 0 then v # vals is else vals is @ [v]) ! i"
      using i c(3) by (cases i) (auto simp: p_def pre_def nth_append)
  qed
  have "\<forall>x \<in> set (vals is). if v < 0 then v < x else x < v"
    using wider_outside [OF vals_in_range [OF ok] ce w] by blast
  then have "sorted_wrt (<) (vals (intsetUpgradeAndAdd junk is v))"
    using ok unfolding vs by (auto simp: intset_ok_def sorted_wrt_append)
  then show ?thesis using vs lc' ne(1) room by (simp add: intset_ok_def res)
qed

section \<open>Insertion, removal, membership\<close>

definition ins_at :: "nat \<Rightarrow> int \<Rightarrow> int list \<Rightarrow> int list" where
  "ins_at p v xs = take p xs @ v # drop p xs"

definition del_at :: "nat \<Rightarrow> int list \<Rightarrow> int list" where
  "del_at p xs = take p xs @ drop (Suc p) xs"

lemma ins_at_sorted:
  assumes "sorted_wrt (<) xs" "p \<le> length xs"
    and "\<forall>i < length xs. if i < p then xs ! i < v else v < xs ! i"
  shows "sorted_wrt (<) (ins_at p v xs) \<and> v \<notin> set xs \<and> set (ins_at p v xs) = insert v (set xs)"
proof -
  have lo: "\<forall>x \<in> set (take p xs). x < v"
    using assms by (auto simp: in_set_conv_nth split: if_splits)
  have hi: "\<forall>x \<in> set (drop p xs). v < x"
  proof
    fix x assume "x \<in> set (drop p xs)"
    then obtain i where "x = xs ! (p + i)" "p + i < length xs" by (auto simp: in_set_conv_nth)
    with assms(3) [rule_format, of "p + i"] show "v < x" by simp
  qed
  have "sorted_wrt (<) (take p xs @ drop p xs)" using assms(1) by simp
  then have "sorted_wrt (<) (ins_at p v xs)"
    using lo hi unfolding ins_at_def sorted_wrt_append by auto
  moreover have "set xs = set (take p xs) \<union> set (drop p xs)"
    by (metis append_take_drop_id set_append)
  ultimately show ?thesis using lo hi by (auto simp: ins_at_def)
qed

lemma del_at_sorted:
  assumes "sorted_wrt (<) (xs :: int list)" "p < length xs"
  shows "sorted_wrt (<) (del_at p xs) \<and> set (del_at p xs) = set xs - {xs ! p}"
proof -
  have eq: "take p xs @ xs ! p # drop (Suc p) xs = xs" using assms(2) by (rule id_take_nth_drop [symmetric])
  have "sorted_wrt (<) (take p xs @ xs ! p # drop (Suc p) xs)" using assms(1) eq by simp
  then have s: "sorted_wrt (<) (del_at p xs)" "\<forall>x \<in> set (take p xs). x < xs ! p"
    "\<forall>x \<in> set (drop (Suc p) xs). xs ! p < x"
    unfolding del_at_def sorted_wrt_append by auto
  have "set xs = set (take p xs) \<union> {xs ! p} \<union> set (drop (Suc p) xs)"
    by (subst eq [symmetric]) auto
  with s show ?thesis by (auto simp: del_at_def)
qed

text \<open>The straight-line tails of \<open>intsetAdd\<close> and \<open>intsetRemove\<close>, named for the proofs.\<close>

definition insert_raw :: "(nat \<Rightarrow> byte) \<Rightarrow> intset \<Rightarrow> nat \<Rightarrow> int \<Rightarrow> intset" where
  "insert_raw junk is p v =
     (let is = intsetResize junk is (is_length is + 1);
          is = (if p < is_length is then intsetMoveTail is p (p + 1) else is);
          is = intsetSet0 is p v
      in is\<lparr>is_length := is_length is + 1\<rparr>)"

definition delete_raw :: "(nat \<Rightarrow> byte) \<Rightarrow> intset \<Rightarrow> nat \<Rightarrow> intset" where
  "delete_raw junk is p =
     (let len = is_length is;
          is = (if p < len - 1 then intsetMoveTail is (p + 1) p else is);
          is = intsetResize junk is (len - 1)
      in is\<lparr>is_length := len - 1\<rparr>)"

lemma intsetAdd_raw:
  "\<not> intsetValueEncoding v > is_encoding is \<Longrightarrow> intsetSearch is v = (False, p) \<Longrightarrow>
   intsetAdd junk is v = (insert_raw junk is p v, True)"
  by (simp add: intsetAdd_def insert_raw_def Let_def)

lemma intsetRemove_raw:
  "intsetValueEncoding v \<le> is_encoding is \<Longrightarrow> intsetSearch is v = (True, p) \<Longrightarrow>
   intsetRemove junk is v = (delete_raw junk is p, True)"
  by (simp add: intsetRemove_def delete_raw_def Let_def)

lemma intsetInsert_at:
  fixes junk :: "nat \<Rightarrow> byte"
  assumes ok: "intset_ok is" and v: "sfits (is_encoding is) v" and p: "p \<le> is_length is"
    and room: "(is_length is + 1) * 8 < 2 ^ 32"
  defines "is1 \<equiv> intsetResize junk is (is_length is + 1)"
  defines "is2 \<equiv> (if p < is_length is1 then intsetMoveTail is1 p (p + 1) else is1)"
  defines "is' \<equiv> insert_raw junk is p v"
  shows "is_encoding is' = is_encoding is \<and> is_length is' = is_length is + 1 \<and>
    length (is_contents is') = (is_length is + 1) * is_encoding is \<and> vals is' = ins_at p v (vals is)"
proof -
  let ?e = "is_encoding is" and ?n = "is_length is"
  have e: "?e \<in> {2, 4, 8}" "0 < ?e" and lenc: "length (is_contents is) = ?n * ?e"
    using ok by (auto simp: intset_ok_def)
  have "(?n + 1) * ?e \<le> (?n + 1) * 8" using e(1) by (intro mult_le_mono) auto
  then have md: "(?n + 1) * ?e mod 2 ^ 32 = (?n + 1) * ?e" using room by simp
  define c1 where "c1 = mem_resize junk ((?n + 1) * ?e) (is_contents is)"
  have lc1: "length c1 = (?n + 1) * ?e" by (simp add: c1_def mem_simps)
  have g1: "get_at ?e c1 i = vals is ! i" if "i < ?n" for i
    using that slot_bound [OF that, of ?e] lenc unfolding c1_def
    by (subst get_at_resize) (auto simp: nth_vals)
  have is1: "is1 = is\<lparr>is_contents := c1\<rparr>"
    using md by (simp add: is1_def intsetResize_def c1_def)
  define c2 where "c2 = (if p < ?n then mem_move c1 ((p + 1) * ?e) (p * ?e) ((?n - p) * ?e) else c1)"
  have is2: "is2 = is\<lparr>is_contents := c2\<rparr>"
    using e(1) by (auto simp: is2_def is1 intsetMoveTail_at c2_def)
  have g2: "get_at ?e c2 i = (if p < i then vals is ! (i - 1) else vals is ! i)"
    if "i < ?n + 1" "i \<noteq> p" for i
    using that p g1 get_at_move [OF lc1, of p "?n - p" "p + 1" i] by (auto simp: c2_def)
  have "(p + 1) * ?e + (?n - p) * ?e = (?n + 1) * ?e" "p * ?e + (?n - p) * ?e \<le> (?n + 1) * ?e"
    using p by (simp_all add: add_mult_distrib [symmetric])
  then have lc2: "length c2 = (?n + 1) * ?e" by (simp add: c2_def lc1 mem_simps)
  define c3 where "c3 = mem_write c2 (p * ?e) (sle_bytes ?e v)"
  have is': "is' = is\<lparr>is_contents := c3, is_length := ?n + 1\<rparr>"
    unfolding is'_def insert_raw_def Let_def is1_def [symmetric] is2_def [symmetric]
    using e(1) by (simp add: is2 intsetSet_at c3_def)
  have p': "p < ?n + 1" using p by simp
  have lc3: "length c3 = (?n + 1) * ?e" using lc2 slot_bound [OF p', of ?e] by (simp add: c3_def mem_simps)
  have "vals is' = ins_at p v (vals is)"
  proof (rule nth_equalityI)
    show "length (vals is') = length (ins_at p v (vals is))" using p by (simp add: is' ins_at_def)
    fix i assume "i < length (vals is')"
    then have i: "i < ?n + 1" by (simp add: is')
    have "vals is' ! i = (if i = p then v else get_at ?e c2 i)"
      using i get_at_write [OF p' lc2 e(2) v i] by (simp add: nth_vals is' c3_def)
    then show "vals is' ! i = ins_at p v (vals is) ! i"
      using g2 [OF i] i p by (auto simp: ins_at_def nth_append nth_Cons')
  qed
  then show ?thesis using lc3 by (simp add: is')
qed

lemma intsetDelete_at:
  fixes junk :: "nat \<Rightarrow> byte"
  assumes ok: "intset_ok is" and p: "p < is_length is"
  defines "is1 \<equiv> (if p < is_length is - 1 then intsetMoveTail is (p + 1) p else is)"
  defines "is' \<equiv> delete_raw junk is p"
  shows "is_encoding is' = is_encoding is \<and> is_length is' = is_length is - 1 \<and>
    length (is_contents is') = (is_length is - 1) * is_encoding is \<and> vals is' = del_at p (vals is)"
proof -
  let ?e = "is_encoding is" and ?n = "is_length is"
  have e: "?e \<in> {2, 4, 8}" "0 < ?e" and lenc: "length (is_contents is) = ?n * ?e" and room: "?n * 8 < 2 ^ 32"
    using ok by (auto simp: intset_ok_def)
  have "(?n - 1) * ?e \<le> ?n * 8" using e(1) by (intro mult_le_mono) auto
  then have md: "(?n - 1) * ?e mod 2 ^ 32 = (?n - 1) * ?e" using room by simp
  define c1 where "c1 = (if p < ?n - 1 then
      mem_move (is_contents is) (p * ?e) ((p + 1) * ?e) ((?n - (p + 1)) * ?e) else is_contents is)"
  have is1: "is1 = is\<lparr>is_contents := c1\<rparr>"
    using e(1) by (auto simp: is1_def intsetMoveTail_at c1_def)
  have "(p + 1 + (?n - (p + 1))) * ?e = ?n * ?e" "(p + (?n - (p + 1))) * ?e \<le> ?n * ?e" using p by simp_all
  then have "(p + 1) * ?e + (?n - (p + 1)) * ?e = ?n * ?e" "p * ?e + (?n - (p + 1)) * ?e \<le> ?n * ?e"
    by (simp_all only: add_mult_distrib)
  then have lc1: "length c1 = ?n * ?e" by (simp add: c1_def lenc mem_simps)
  have g1: "get_at ?e c1 i = vals is ! (if i < p then i else i + 1)" if "i < ?n - 1" for i
    using that p get_at_move [OF lenc, of "p + 1" "?n - (p + 1)" p i] by (auto simp: c1_def nth_vals)
  define c2 where "c2 = mem_resize junk ((?n - 1) * ?e) c1"
  have is': "is' = is\<lparr>is_contents := c2, is_length := ?n - 1\<rparr>"
    unfolding is'_def delete_raw_def Let_def is1_def [symmetric]
    using md by (simp add: is1 intsetResize_def c2_def)
  have g2: "get_at ?e c2 i = get_at ?e c1 i" if "i < ?n - 1" for i
    using that slot_bound [OF that, of ?e] slot_bound [of i ?n ?e] lc1 unfolding c2_def
    by (intro get_at_resize) auto
  have "vals is' = del_at p (vals is)"
  proof (rule nth_equalityI)
    show "length (vals is') = length (del_at p (vals is))" using p by (simp add: is' del_at_def)
    fix i assume "i < length (vals is')"
    then have i: "i < ?n - 1" by (simp add: is')
    then have "vals is' ! i = get_at ?e c1 i" using g2 by (simp add: nth_vals is')
    then show "vals is' ! i = del_at p (vals is) ! i"
      using g1 [OF i] i p by (auto simp: del_at_def nth_append)
  qed
  then show ?thesis by (simp add: is' c2_def mem_simps)
qed

abbreviation iset :: "intset \<Rightarrow> int set" where
  "iset is \<equiv> set (vals is)"

lemma intsetFind_ok:
  assumes "intset_ok is"
  shows "intsetFind is v \<longleftrightarrow> v \<in> iset is"
proof -
  have "fst (intsetSearch is v) \<longleftrightarrow> v \<in> iset is"
    using intsetSearch_ok [OF assms, of v]
    by (auto simp: in_set_conv_nth split: prod.splits if_splits)
  moreover have "v \<in> iset is \<Longrightarrow> intsetValueEncoding v \<le> is_encoding is"
    using vals_in_range [OF assms] encoding_min assms by (auto simp: intset_ok_def)
  ultimately show ?thesis by (auto simp: intsetFind_def)
qed

lemma intsetAdd_ok:
  assumes ok: "intset_ok is" and v: "sfits 8 v" and room: "(is_length is + 1) * 8 < 2 ^ 32"
  shows "\<exists>is'. intsetAdd junk is v = (is', v \<notin> iset is) \<and> intset_ok is' \<and> iset is' = insert v (iset is)"
proof (cases "intsetValueEncoding v > is_encoding is")
  case True
  then have "v \<notin> iset is"
    using intsetFind_ok [OF ok, of v] by (auto simp: intsetFind_def)
  with True show ?thesis using intsetUpgradeAndAdd_ok [OF ok v True room, of junk]
    by (auto simp: intsetAdd_def)
next
  case False
  obtain found p where s: "intsetSearch is v = (found, p)" by (cases "intsetSearch is v")
  note so = intsetSearch_ok [OF ok, of v, unfolded s prod.case]
  show ?thesis
  proof (cases found)
    case True
    with so have "v \<in> iset is" by (auto simp: in_set_conv_nth)
    then show ?thesis using True False s ok by (auto simp: intsetAdd_def)
  next
    case nf: False
    with so have p: "p \<le> is_length is" and
      b: "\<forall>i < is_length is. if i < p then vals is ! i < v else v < vals is ! i" by auto
    have fit: "sfits (is_encoding is) v"
      using sfits_mono [OF encoding_fits(1) [OF v]] False by simp
    have so: "sorted_wrt (<) (vals is)" using ok by (simp add: intset_ok_def)
    have "sorted_wrt (<) (ins_at p v (vals is)) \<and> v \<notin> iset is \<and> set (ins_at p v (vals is)) = insert v (iset is)"
      using ins_at_sorted [OF so, of p v] p b by simp
    then show ?thesis
      using intsetInsert_at [OF ok fit p room, of junk] intsetAdd_raw [OF False, of p junk] nf s ok room
      by (simp add: intset_ok_def)
  qed
qed

lemma intsetRemove_ok:
  assumes ok: "intset_ok is"
  shows "\<exists>is'. intsetRemove junk is v = (is', v \<in> iset is) \<and> intset_ok is' \<and> iset is' = iset is - {v}"
proof (cases "intsetFind is v")
  case False
  then show ?thesis using intsetFind_ok [OF ok, of v] ok
    by (auto simp: intsetRemove_def intsetFind_def Let_def split: prod.splits)
next
  case True
  obtain p where s: "intsetSearch is v = (True, p)" and e: "intsetValueEncoding v \<le> is_encoding is"
    using True by (cases "intsetSearch is v") (auto simp: intsetFind_def)
  have p: "p < is_length is" "vals is ! p = v" using intsetSearch_ok [OF ok, of v] by (simp_all add: s)
  have "sorted_wrt (<) (del_at p (vals is)) \<and> set (del_at p (vals is)) = iset is - {v}"
    using del_at_sorted [of "vals is" p] p ok by (simp add: intset_ok_def)
  moreover have "v \<in> iset is" using True intsetFind_ok [OF ok] by simp
  moreover have room: "is_length is - Suc 0 < 536870912"
    using ok le_less_trans [OF diff_le_self] by (simp add: intset_ok_def)
  ultimately show ?thesis
    using intsetDelete_at [OF ok p(1), of junk] intsetRemove_raw [OF e s, of junk] ok room
    by (simp add: intset_ok_def)
qed

section \<open>The set interface\<close>

text \<open>
  What the set commands rely on: a representation with a membership test, insertion and
  removal that report whether they changed the set. \<open>room\<close> bounds what an insertion can
  still take.
\<close>

datatype 'v sop = SAdd 'v | SRem 'v | SIsMember 'v

locale set_store =
  fixes inv :: "'s \<Rightarrow> bool" and abs :: "'s \<Rightarrow> 'v set" and dom_ok :: "'v \<Rightarrow> bool" and cap :: nat
    and add :: "'s \<Rightarrow> 'v \<Rightarrow> 's \<times> bool" and rem :: "'s \<Rightarrow> 'v \<Rightarrow> 's \<times> bool" and mem :: "'s \<Rightarrow> 'v \<Rightarrow> bool"
  assumes finite_abs: "inv s \<Longrightarrow> finite (abs s)"
    and add_law: "inv s \<Longrightarrow> dom_ok v \<Longrightarrow> card (abs s) < cap \<Longrightarrow>
      \<exists>s'. add s v = (s', v \<notin> abs s) \<and> inv s' \<and> abs s' = insert v (abs s)"
    and rem_law: "inv s \<Longrightarrow> \<exists>s'. rem s v = (s', v \<in> abs s) \<and> inv s' \<and> abs s' = abs s - {v}"
    and mem_law: "inv s \<Longrightarrow> mem s v \<longleftrightarrow> v \<in> abs s"

fun run_set_ops ::
    "('s \<Rightarrow> 'v \<Rightarrow> 's \<times> bool) \<Rightarrow> ('s \<Rightarrow> 'v \<Rightarrow> 's \<times> bool) \<Rightarrow> ('s \<Rightarrow> 'v \<Rightarrow> bool)
     \<Rightarrow> 's \<Rightarrow> 'v sop list \<Rightarrow> 's \<times> bool list" where
  "run_set_ops add rem mem s [] = (s, [])"
| "run_set_ops add rem mem s (SAdd v # ops) =
     (let (s, b) = add s v; (s, bs) = run_set_ops add rem mem s ops in (s, b # bs))"
| "run_set_ops add rem mem s (SRem v # ops) =
     (let (s, b) = rem s v; (s, bs) = run_set_ops add rem mem s ops in (s, b # bs))"
| "run_set_ops add rem mem s (SIsMember v # ops) =
     (let (s', bs) = run_set_ops add rem mem s ops in (s', mem s v # bs))"

fun set_ops :: "'v set \<Rightarrow> 'v sop list \<Rightarrow> 'v set \<times> bool list" where
  "set_ops A [] = (A, [])"
| "set_ops A (SAdd v # ops) = (let (B, bs) = set_ops (insert v A) ops in (B, (v \<notin> A) # bs))"
| "set_ops A (SRem v # ops) = (let (B, bs) = set_ops (A - {v}) ops in (B, (v \<in> A) # bs))"
| "set_ops A (SIsMember v # ops) = (let (B, bs) = set_ops A ops in (B, (v \<in> A) # bs))"

context set_store
begin

lemma run_refines:
  "inv s \<Longrightarrow> \<forall>v. SAdd v \<in> set ops \<longrightarrow> dom_ok v \<Longrightarrow> card (abs s) + length ops \<le> cap \<Longrightarrow>
   \<exists>s'. run_set_ops add rem mem s ops = (s', snd (set_ops (abs s) ops)) \<and> inv s' \<and>
     abs s' = fst (set_ops (abs s) ops)"
proof (induction ops arbitrary: s)
  case (Cons op ops)
  show ?case
  proof (cases op)
    case (SAdd v)
    have "card (abs s) < cap" "dom_ok v" using Cons.prems SAdd by auto
    from add_law [OF Cons.prems(1) this(2,1)] obtain s' where
      s': "add s v = (s', v \<notin> abs s)" "inv s'" "abs s' = insert v (abs s)" by blast
    have "card (abs s') + length ops \<le> cap"
      using Cons.prems(3) s'(3) card_insert_le_m1 [of "card (abs s) + 1" "abs s" v] by simp
    with Cons.IH [OF s'(2)] Cons.prems(2) s' SAdd show ?thesis by (auto simp: split_beta Let_def)
  next
    case (SRem v)
    from rem_law [OF Cons.prems(1), of v] obtain s' where
      s': "rem s v = (s', v \<in> abs s)" "inv s'" "abs s' = abs s - {v}" by blast
    have "card (abs s') \<le> card (abs s)"
      using s'(3) finite_abs [OF Cons.prems(1)] by (simp add: card_Diff1_le)
    with Cons.IH [OF s'(2)] Cons.prems s' SRem show ?thesis by (auto simp: split_beta Let_def)
  next
    case (SIsMember v)
    with Cons.IH [OF Cons.prems(1)] Cons.prems mem_law [OF Cons.prems(1), of v] show ?thesis
      by (auto simp: split_beta Let_def)
  qed
qed simp

end

lemma card_iset: "intset_ok is \<Longrightarrow> card (iset is) = is_length is"
  using distinct_card [of "vals is"] strict_sorted_iff [of "vals is"] by (simp add: intset_ok_def)

interpretation intstore: set_store intset_ok iset "sfits 8" "2 ^ 29 - 1"
    "intsetAdd junk" "intsetRemove junk" intsetFind for junk
proof unfold_locales
  fix s v
  assume ok: "intset_ok s"
  show "intsetFind s v \<longleftrightarrow> v \<in> iset s" using intsetFind_ok [OF ok] .
  show "\<exists>s'. intsetRemove junk s v = (s', v \<in> iset s) \<and> intset_ok s' \<and> iset s' = iset s - {v}"
    using intsetRemove_ok [OF ok] .
  show "finite (iset s)" by simp
  assume "sfits 8 v" "card (iset s) < 2 ^ 29 - 1"
  then show "\<exists>s'. intsetAdd junk s v = (s', v \<notin> iset s) \<and> intset_ok s' \<and> iset s' = insert v (iset s)"
    using intsetAdd_ok [OF ok] card_iset [OF ok] by simp
qed

text \<open>
  C26: Starting from intsetNew, any sequence of fewer than 2^29 intsetAdd, intsetRemove and
  intsetFind calls with 64-bit values answers exactly as a mathematical set would (success
  flags included) and ends in a well-formed intset: strictly sorted elements that fill the byte
  array exactly, with every upgrade of the encoding along the way, whatever bytes realloc
  returns.
\<close>

theorem intset_run_refines_set:
  assumes "\<forall>v. SAdd v \<in> set ops \<longrightarrow> sfits 8 v" and "length ops < 2 ^ 29"
  shows "\<exists>is. run_set_ops (intsetAdd junk) (intsetRemove junk) intsetFind intsetNew ops =
      (is, snd (set_ops {} ops)) \<and> intset_ok is \<and> iset is = fst (set_ops {} ops) \<and>
      vals is = sorted_list_of_set (fst (set_ops {} ops)) \<and>
      intsetBlobLen is = 8 + length (is_contents is)"
proof -
  have new: "intset_ok intsetNew" "iset intsetNew = {}"
    by (simp_all add: intset_ok_def intsetNew_def vals_def)
  then obtain "is" where r: "run_set_ops (intsetAdd junk) (intsetRemove junk) intsetFind intsetNew ops =
      (is, snd (set_ops {} ops))" "intset_ok is" "iset is = fst (set_ops {} ops)"
    using intstore.run_refines [OF new(1), of ops junk] assms by auto
  have "sorted (vals is)" "distinct (vals is)"
    using r(2) strict_sorted_iff [of "vals is"] by (auto simp: intset_ok_def)
  then have "vals is = sorted_list_of_set (iset is)"
    by (simp add: sorted_list_of_set.idem_if_sorted_distinct)
  then show ?thesis using r by (auto simp: intsetBlobLen_def intset_ok_def)
qed

theorem intset_run_refines_set_witness:
  "\<exists>is. run_set_ops (intsetAdd (\<lambda>_. 0)) (intsetRemove (\<lambda>_. 0)) intsetFind intsetNew
      [SAdd 5, SAdd (-70000), SAdd 5, SIsMember 5, SRem 5, SIsMember 5] =
      (is, [True, True, False, True, True, False]) \<and> vals is = [-70000]"
  using intset_run_refines_set
    [of "[SAdd 5, SAdd (-70000), SAdd 5, SIsMember 5, SRem 5, SIsMember 5]" "\<lambda>_. 0"]
  by (auto simp: sfits_def insert_Diff_if)

text \<open>
  The search with its two shortcuts and the binary search loop returns the index of the value when
  it is an element, and otherwise the only index at which inserting it keeps the array
  sorted.
\<close>

theorem intsetSearch_finds:
  assumes "intset_ok is"
  shows "case intsetSearch is v of (found, pos) \<Rightarrow>
     found = (v \<in> iset is) \<and>
     (if found then pos < intsetLen is \<and> intsetGet is pos = Some v
      else pos \<le> intsetLen is \<and> sorted_wrt (<) (take pos (vals is) @ v # drop pos (vals is)))"
proof -
  obtain found p where s: "intsetSearch is v = (found, p)" by (cases "intsetSearch is v")
  note so = intsetSearch_ok [OF assms, of v, unfolded s prod.case]
  show ?thesis
  proof (cases found)
    case True
    with so have "v \<in> iset is" by (auto simp: in_set_conv_nth)
    with True so show ?thesis by (simp add: s intsetLen_def intsetGet_def intsetGet0_vals [OF assms])
  next
    case False
    with so assms ins_at_sorted [of "vals is" p v] show ?thesis
      by (simp add: s intset_ok_def intsetLen_def ins_at_def)
  qed
qed

definition sample_intset :: intset where
  "sample_intset = \<lparr>is_encoding = 2, is_length = 2, is_contents = [4, 0, 9, 0]\<rparr>"

lemma sample_intset_vals: "vals sample_intset = [4, 9]"
  by (simp add: vals_def sample_intset_def get_at_def mem_read_def sle_int_def upt_rec)

lemma sample_intset_len: "is_length sample_intset = 2"
  by (simp add: sample_intset_def)

lemma sample_intset_ok: "intset_ok sample_intset"
  using sample_intset_vals by (simp add: intset_ok_def sample_intset_def)

theorem intsetSearch_finds_witness: "\<exists>pos. intsetSearch sample_intset 9 = (True, pos) \<and> pos < 2"
  using intsetSearch_finds [OF sample_intset_ok, of 9]
  by (cases "intsetSearch sample_intset 9") (auto simp: sample_intset_vals intsetLen_def sample_intset_len)

end
