(* ===== verification/Util.thy ===== *)
theory Util
  imports Prelude
begin

text \<open>
  The integer conversions of \<^verbatim>\<open>debug/redis/src/util.c\<close>. A \<^verbatim>\<open>long long\<close> is an
  \<open>int\<close> between \<open>- 2 ^ 63\<close> and \<open>2 ^ 63 - 1\<close>; the \<^verbatim>\<open>unsigned long long\<close>
  accumulator is a natural number whose arithmetic is written modulo \<open>2 ^ 64\<close>. The negation of
  the least value in \<open>ll2string\<close> wraps, as on the two's complement hosts of the repository.
\<close>

definition is_ll :: "int \<Rightarrow> bool" where
  "is_ll v \<longleftrightarrow> - (2 ^ 63) \<le> v \<and> v < 2 ^ 63"

abbreviation ULLONG_MAX :: nat where
  "ULLONG_MAX \<equiv> 2 ^ 64 - 1"

abbreviation LLONG_MAX :: nat where
  "LLONG_MAX \<equiv> 2 ^ 63 - 1"

text \<open>Conversion of an unsigned to a signed 64-bit integer, and back.\<close>

definition to_ll :: "nat \<Rightarrow> int" where
  "to_ll v = (if v < 2 ^ 63 then int v else int v - 2 ^ 64)"

definition of_ll :: "int \<Rightarrow> nat" where
  "of_ll v = nat (v mod 2 ^ 64)"

definition digit :: "nat \<Rightarrow> byte" where
  "digit d = of_nat (48 + d)"

definition isdigit :: "byte \<Rightarrow> bool" where
  "isdigit c \<longleftrightarrow> 48 \<le> unat c \<and> unat c \<le> 57"

text \<open>The \<^verbatim>\<open>do ... while (v)\<close> loop of \<open>ll2string\<close>, filling the buffer from its end.\<close>

function ll2string_loop :: "nat \<Rightarrow> bytes \<Rightarrow> bytes" where
  "ll2string_loop v p =
     (let p = digit (v mod 10) # p; v = v div 10 in if v = 0 then p else ll2string_loop v p)"
  by pat_completeness auto
termination
  by (relation "measure fst") auto

declare ll2string_loop.simps [simp del]

text \<open>
  \<open>ll2string len v\<close> gives the bytes stored in the caller's buffer of \<open>len\<close> bytes, the
  terminating zero included, and the returned length.
\<close>

definition ll2string :: "nat \<Rightarrow> int \<Rightarrow> bytes \<times> nat" where
  "ll2string len v =
     (if len = 0 then ([], 0)
      else
        let u = of_ll (if v < 0 then - v else v);
            p = ll2string_loop u [];
            p = (if v < 0 then chr CHR ''-'' # p else p);
            l = length p;
            l = (if l + 1 > len then len - 1 else l)
        in (take l p @ [0], l))"

text \<open>The digit loop of \<open>string2ll\<close>: \<open>None\<close> is the early return on overflow.\<close>

fun string2ll_loop :: "nat \<Rightarrow> bytes \<Rightarrow> (nat \<times> bytes) option" where
  "string2ll_loop v [] = Some (v, [])"
| "string2ll_loop v (c # p) =
     (if isdigit c then
        (if v > ULLONG_MAX div 10 then None
         else
           let v = v * 10 mod 2 ^ 64; d = unat c - 48 in
           if v > ULLONG_MAX - d then None
           else string2ll_loop ((v + d) mod 2 ^ 64) p)
      else Some (v, c # p))"

definition string2ll :: "bytes \<Rightarrow> int option" where
  "string2ll s =
     (case s of
        [] \<Rightarrow> None
      | c # _ \<Rightarrow>
          if length s = 1 \<and> c = chr CHR ''0'' then Some 0
          else
            let negative = (c = chr CHR ''-''); p = (if negative then tl s else s) in
            case p of
              [] \<Rightarrow> None
            | d # p \<Rightarrow>
                if 49 \<le> unat d \<and> unat d \<le> 57 then
                  (case string2ll_loop (unat d - 48) p of
                     None \<Rightarrow> None
                   | Some (v, rest) \<Rightarrow>
                       if rest \<noteq> [] then None
                       else if negative then
                         (if v > LLONG_MAX + 1 then None else Some (to_ll (of_ll (- int v))))
                       else (if v > LLONG_MAX then None else Some (to_ll v)))
                else if d = chr CHR ''0'' \<and> length s = 1 then Some 0
                else None)"

definition string2l :: "bytes \<Rightarrow> int option" where
  "string2l s =
     (case string2ll s of
        None \<Rightarrow> None
      | Some v \<Rightarrow> if v < - (2 ^ 63) \<or> v > 2 ^ 63 - 1 then None else Some v)"

section \<open>Decimal digits\<close>

text \<open>The value of a digit string, and the shortest digit string of a number.\<close>

definition dec_val :: "bytes \<Rightarrow> nat" where
  "dec_val s = foldl (\<lambda>a c. 10 * a + (unat c - 48)) 0 s"

function dec :: "nat \<Rightarrow> bytes" where
  "dec v = (if v < 10 then [digit v] else dec (v div 10) @ [digit (v mod 10)])"
  by pat_completeness auto
termination
  by (relation "measure id") auto

declare dec.simps [simp del]

lemma loop_dec: "ll2string_loop v p = dec v @ p"
proof (induction v p rule: ll2string_loop.induct)
  case (1 v p)
  show ?case
  proof (cases "v < 10")
    case True
    then show ?thesis by (simp add: ll2string_loop.simps [of v p] dec.simps [of v])
  next
    case False
    then have "v div 10 \<noteq> 0" by simp
    with 1 False show ?thesis
      by (simp add: ll2string_loop.simps [of v p] dec.simps [of v] Let_def)
  qed
qed

lemma unat_digit: "d < 10 \<Longrightarrow> unat (digit d) = 48 + d"
  by (simp add: digit_def unat_of_nat del: of_nat_add)

lemma isdigit_digit [simp]: "d < 10 \<Longrightarrow> isdigit (digit d)"
  by (simp add: isdigit_def unat_digit)

lemma digit_of: "isdigit c \<Longrightarrow> digit (unat c - 48) = c"
  by (simp add: isdigit_def digit_def)

lemma dec_val_snoc: "dec_val (s @ [c]) = 10 * dec_val s + (unat c - 48)"
  by (simp add: dec_val_def)

lemma dec_val_dec: "dec_val (dec v) = v"
proof (induction v rule: dec.induct)
  case (1 v)
  show ?case
  proof (cases "v < 10")
    case True
    then show ?thesis by (simp add: dec.simps [of v] dec_val_def unat_digit)
  next
    case False
    then show ?thesis using 1 by (simp add: dec.simps [of v] dec_val_snoc unat_digit)
  qed
qed

lemma dec_digits: "list_all isdigit (dec v)"
  by (induction v rule: dec.induct) (subst dec.simps, simp)

lemma dec_nonempty: "dec v \<noteq> []"
  by (subst dec.simps) simp

lemma dec_hd: "0 < v \<Longrightarrow> 49 \<le> unat (hd (dec v))"
proof (induction v rule: dec.induct)
  case (1 v)
  then show ?case by (subst dec.simps) (auto simp: unat_digit dec_nonempty)
qed

text \<open>A digit string that starts with 1-9 is the shortest one of its value.\<close>

lemma dec_canonical:
  "list_all isdigit s \<Longrightarrow> s \<noteq> [] \<Longrightarrow> 49 \<le> unat (hd s) \<Longrightarrow> 0 < dec_val s \<and> dec (dec_val s) = s"
proof (induction s rule: rev_induct)
  case (snoc c s)
  have c: "unat c - 48 < 10" "isdigit c" using snoc.prems by (auto simp: isdigit_def)
  show ?case
  proof (cases "s = []")
    case True
    with snoc.prems c show ?thesis
      by (simp add: dec_val_def dec.simps [of "unat c - 48"] digit_of)
  next
    case False
    with snoc have ih: "0 < dec_val s" "dec (dec_val s) = s" by auto
    have "dec (10 * dec_val s + (unat c - 48)) = dec (dec_val s) @ [digit (unat c - 48)]"
      using ih(1) c(1) by (subst dec.simps) simp
    with ih c show ?thesis by (simp add: dec_val_snoc digit_of)
  qed
qed simp

section \<open>The parser\<close>

abbreviation dec_fold :: "nat \<Rightarrow> bytes \<Rightarrow> nat" where
  "dec_fold \<equiv> foldl (\<lambda>a c. 10 * a + (unat c - 48))"

lemma dec_fold_ge: "v \<le> dec_fold v s"
proof (induction s arbitrary: v)
  case (Cons c s)
  have "v \<le> 10 * v + (unat c - 48)" by simp
  also have "\<dots> \<le> dec_fold (10 * v + (unat c - 48)) s" by (rule Cons)
  finally show ?case by simp
qed simp

lemma string2ll_loop_digits:
  "list_all isdigit s \<Longrightarrow> v \<le> ULLONG_MAX \<Longrightarrow>
   string2ll_loop v s = (if dec_fold v s \<le> ULLONG_MAX then Some (dec_fold v s, []) else None)"
proof (induction s arbitrary: v)
  case (Cons c s)
  let ?w = "10 * v + (unat c - 48)"
  have c: "isdigit c" "unat c - 48 < 10" using Cons.prems by (auto simp: isdigit_def)
  show ?case
  proof (cases "?w \<le> ULLONG_MAX")
    case True
    then have "\<not> v > ULLONG_MAX div 10" "v * 10 mod 2 ^ 64 = v * 10"
      "\<not> v * 10 > ULLONG_MAX - (unat c - 48)" "(v * 10 + (unat c - 48)) mod 2 ^ 64 = ?w" by auto
    then have "string2ll_loop v (c # s) = string2ll_loop ?w s" using c(1) by (simp add: Let_def)
    with Cons.IH [OF _ True] Cons.prems show ?thesis by simp
  next
    case False
    then have "\<not> dec_fold v (c # s) \<le> ULLONG_MAX" using dec_fold_ge [of ?w s] by simp
    moreover have "string2ll_loop v (c # s) = None"
      using False c by (auto simp: Let_def)
    ultimately show ?thesis by simp
  qed
qed simp

lemma string2ll_loop_rest:
  "string2ll_loop v s = Some (w, []) \<Longrightarrow> list_all isdigit s"
  by (induction v s rule: string2ll_loop.induct) (auto simp: Let_def split: if_splits)

text \<open>The canonical decimal representation of a signed integer.\<close>

definition ll_repr :: "int \<Rightarrow> bytes" where
  "ll_repr v = (if v < 0 then chr CHR ''-'' # dec (nat (- v)) else dec (nat v))"

lemma minus_not_digit: "\<not> isdigit (chr CHR ''-'')" "\<not> 49 \<le> unat (chr CHR ''-'')"
  by (simp_all add: isdigit_def)

lemma dec_Cons: "0 < n \<Longrightarrow> \<exists>d p. dec n = d # p \<and> 49 \<le> unat d \<and> unat d \<le> 57 \<and>
    dec_fold (unat d - 48) p = n \<and> list_all isdigit p"
proof -
  assume n: "0 < n"
  obtain d p where dp: "dec n = d # p" using dec_nonempty [of n] by (cases "dec n") auto
  have "49 \<le> unat d" using dec_hd [OF n] dp by simp
  moreover have "isdigit d" "list_all isdigit p" using dec_digits [of n] dp by auto
  moreover have "dec_fold (unat d - 48) p = n" using dec_val_dec [of n] dp by (simp add: dec_val_def)
  ultimately show ?thesis using dp by (auto simp: isdigit_def)
qed

lemma to_ll_of_ll: "is_ll v \<Longrightarrow> to_ll (of_ll v) = v"
proof (cases "0 \<le> v")
  case True
  assume "is_ll v"
  with True show ?thesis by (simp add: is_ll_def to_ll_def of_ll_def)
next
  case False
  assume l: "is_ll v"
  have "v mod 2 ^ 64 = (v + 2 ^ 64) mod 2 ^ 64" by simp
  also have "\<dots> = v + 2 ^ 64" using l False by (intro mod_pos_pos_trivial) (auto simp: is_ll_def)
  finally have "of_ll v = nat (v + 2 ^ 64)" by (simp add: of_ll_def)
  then show ?thesis using l False by (simp add: to_ll_def is_ll_def nat_less_iff)
qed

lemma string2ll_repr:
  assumes "is_ll v"
  shows "string2ll (ll_repr v) = Some v"
proof -
  consider "v = 0" | "0 < v" | "v < 0" by linarith
  then show ?thesis
  proof cases
    case 1
    then show ?thesis by (simp add: ll_repr_def dec.simps [of 0] string2ll_def digit_def)
  next
    case 2
    then obtain d p where dp: "dec (nat v) = d # p" "49 \<le> unat d" "unat d \<le> 57"
      "dec_fold (unat d - 48) p = nat v" "list_all isdigit p" using dec_Cons [of "nat v"] by auto
    have nm: "d \<noteq> chr CHR ''-''" "d \<noteq> chr CHR ''0''" using dp(2) by auto
    have "string2ll_loop (unat d - 48) p = Some (nat v, [])"
      using string2ll_loop_digits [OF dp(5), of "unat d - 48"] dp(3,4) assms 2 by (auto simp: is_ll_def)
    then show ?thesis using 2 assms dp(1-3) nm
      by (simp add: ll_repr_def string2ll_def is_ll_def to_ll_def nat_less_iff)
  next
    case 3
    then obtain d p where dp: "dec (nat (- v)) = d # p" "49 \<le> unat d" "unat d \<le> 57"
      "dec_fold (unat d - 48) p = nat (- v)" "list_all isdigit p" using dec_Cons [of "nat (- v)"] by auto
    have "string2ll_loop (unat d - 48) p = Some (nat (- v), [])"
      using string2ll_loop_digits [OF dp(5), of "unat d - 48"] dp(3,4) assms 3 by (simp add: is_ll_def)
    moreover have "nat (- v) \<le> LLONG_MAX + 1" using assms 3 by (simp add: is_ll_def)
    ultimately show ?thesis using 3 dp(1-3) to_ll_of_ll [OF assms]
      by (simp add: ll_repr_def string2ll_def)
  qed
qed

lemma string2ll_pos:
  "c \<noteq> chr CHR ''-'' \<Longrightarrow> \<not> (r = [] \<and> c = chr CHR ''0'') \<Longrightarrow> string2ll (c # r) =
   (if 49 \<le> unat c \<and> unat c \<le> 57 then
      (case string2ll_loop (unat c - 48) r of
         None \<Rightarrow> None
       | Some (v, rest) \<Rightarrow> if rest \<noteq> [] \<or> v > LLONG_MAX then None else Some (to_ll v))
    else None)"
  by (auto simp: string2ll_def split: option.splits)

lemma string2ll_neg:
  "string2ll (chr CHR ''-'' # r) =
   (case r of [] \<Rightarrow> None
    | d # p \<Rightarrow>
        if 49 \<le> unat d \<and> unat d \<le> 57 then
          (case string2ll_loop (unat d - 48) p of
             None \<Rightarrow> None
           | Some (v, rest) \<Rightarrow>
               if rest \<noteq> [] \<or> v > LLONG_MAX + 1 then None else Some (to_ll (of_ll (- int v))))
        else None)"
  by (auto simp: string2ll_def split: option.splits list.splits)

lemma loop_canonical:
  assumes "49 \<le> unat d" "unat d \<le> 57" "string2ll_loop (unat d - 48) p = Some (w, [])"
  shows "0 < w \<and> dec w = d # p"
proof -
  have p: "list_all isdigit p" using string2ll_loop_rest [OF assms(3)] .
  have "unat d - 48 \<le> ULLONG_MAX" using assms(2) by auto
  then have "w = dec_val (d # p)"
    using string2ll_loop_digits [OF p, of "unat d - 48"] assms(3) by (auto simp: dec_val_def split: if_splits)
  moreover have "list_all isdigit (d # p)" using p assms by (simp add: isdigit_def)
  ultimately show ?thesis using dec_canonical [of "d # p"] assms(1) by simp
qed

lemma string2ll_sound:
  assumes "string2ll s = Some v"
  shows "is_ll v \<and> ll_repr v = s"
proof -
  obtain c r where s: "s = c # r" using assms by (cases s) (auto simp: string2ll_def)
  consider "r = []" "c = chr CHR ''0''" | "c = chr CHR ''-''"
    | "c \<noteq> chr CHR ''-''" "\<not> (r = [] \<and> c = chr CHR ''0'')" by blast
  then show ?thesis
  proof cases
    case 1
    then show ?thesis using assms s
      by (simp add: string2ll_def ll_repr_def is_ll_def dec.simps [of 0] digit_def)
  next
    case 2
    then obtain d p w where dp: "r = d # p" "49 \<le> unat d" "unat d \<le> 57"
      "string2ll_loop (unat d - 48) p = Some (w, [])" "w \<le> LLONG_MAX + 1" "v = to_ll (of_ll (- int w))"
      using assms unfolding s 2 string2ll_neg
      by (auto simp: not_less split: list.splits if_splits option.splits)
    have w: "0 < w" "dec w = d # p" using loop_canonical [OF dp(2-4)] by auto
    have l: "is_ll (- int w)" using dp(5) by (simp add: is_ll_def)
    then have "v = - int w" using dp(6) by (simp add: to_ll_of_ll)
    then show ?thesis using w l dp(1) 2 s by (simp add: ll_repr_def)
  next
    case 3
    then obtain w where dp: "49 \<le> unat c" "unat c \<le> 57"
      "string2ll_loop (unat c - 48) r = Some (w, [])" "w \<le> LLONG_MAX" "v = to_ll w"
      using assms unfolding s string2ll_pos [OF 3]
      by (auto simp: not_less split: if_splits option.splits)
    have w: "0 < w" "dec w = c # r" using loop_canonical [OF dp(1-3)] by auto
    have "v = int w" using dp(4,5) by (simp add: to_ll_def)
    then show ?thesis using w dp(4) s by (simp add: ll_repr_def is_ll_def)
  qed
qed

lemma sint_ll: "is_ll v \<Longrightarrow> sint (word_of_int v :: 64 word) = v"
  by (simp add: is_ll_def signed_of_int signed_take_bit_int_eq_self)

lemma ll2string_ok:
  assumes "is_ll v" "0 < len"
  shows "ll2string len v =
    (let l = min (length (ll_repr v)) (len - 1) in (take l (ll_repr v) @ [0], l))"
proof -
  have "of_ll (if v < 0 then - v else v) = nat \<bar>v\<bar>"
    using assms(1) by (auto simp: of_ll_def is_ll_def)
  then have "(if v < 0 then chr CHR ''-'' # ll2string_loop (of_ll (if v < 0 then - v else v)) []
      else ll2string_loop (of_ll (if v < 0 then - v else v)) []) = ll_repr v"
    by (cases "v < 0") (simp_all add: loop_dec ll_repr_def)
  then show ?thesis using assms(2) by (auto simp: ll2string_def Let_def min_def)
qed

lemma dec_length: "n < 10 ^ k \<Longrightarrow> 0 < k \<Longrightarrow> length (dec n) \<le> k"
proof (induction n arbitrary: k rule: dec.induct)
  case (1 n)
  show ?case
  proof (cases "n < 10")
    case True
    then show ?thesis using 1(3) by (subst dec.simps) simp
  next
    case False
    then obtain j where k: "k = Suc j" "0 < j" using 1(2,3) by (cases k; cases "k - 1") auto
    have "n div 10 < 10 ^ j" using 1(2) k by (simp add: less_mult_imp_div_less mult.commute)
    then have "length (dec (n div 10)) \<le> j" using 1(1) [OF False] k(2) by blast
    then show ?thesis using False k by (subst dec.simps) simp
  qed
qed

lemma ll_repr_length: "is_ll v \<Longrightarrow> length (ll_repr v) \<le> 20"
  using dec_length [of "nat \<bar>v\<bar>" 19] by (auto simp: ll_repr_def is_ll_def nat_less_iff)

lemma ll2string_take: "is_ll v \<Longrightarrow> 21 \<le> n \<Longrightarrow> ll2string n v = (ll_repr v @ [0], length (ll_repr v))"
  using ll2string_ok [of v n] ll_repr_length [of v] by (auto simp: min_def Let_def)

text \<open>
  C30: string2ll accepts exactly the canonical decimal representations of the 64-bit integers (no
  leading zeros, no plus sign, no minus zero, no overflow) and returns the number
  represented.
\<close>

theorem string2ll_accepts_exactly:
  "string2ll s = Some v \<longleftrightarrow> is_ll v \<and> s = ll_repr v"
  using string2ll_repr string2ll_sound by blast

text \<open>
  In a buffer of at least 21 bytes ll2string writes the complete text of a 64-bit integer
  with its terminating zero, returns its length, and string2ll and string2l read back the
  same integer; in a smaller buffer it writes a prefix and never more than the buffer holds.
\<close>

theorem ll2string_roundtrip:
  assumes "is_ll v" "0 < len"
  shows "case ll2string len v of (buf, l) \<Rightarrow>
     length buf = l + 1 \<and> l < len \<and> buf ! l = 0 \<and> take l buf = take l (ll_repr v) \<and>
     (21 \<le> len \<longrightarrow> string2ll (take l buf) = Some v \<and> string2l (take l buf) = Some v)"
proof -
  have r: "string2ll (ll_repr v) = Some v" using string2ll_repr [OF assms(1)] .
  have "string2l (ll_repr v) = Some v" using r assms(1) by (simp add: string2l_def is_ll_def)
  with r show ?thesis using ll2string_ok [OF assms] ll_repr_length [OF assms(1)] assms(2)
    by (auto simp: Let_def min_def nth_append)
qed

theorem ll2string_roundtrip_witness:
  "string2ll (take (snd (ll2string 32 (- 9223372036854775808))) (fst (ll2string 32 (- 9223372036854775808))))
     = Some (- 9223372036854775808)"
  using ll2string_roundtrip [of "- 9223372036854775808" 32]
  by (auto simp: is_ll_def split: prod.splits)

end
