(* ===== verification/Dict_Hash.thy ===== *)
theory Dict_Hash
  imports Dict
begin

text \<open>
  The hash functions of \<^verbatim>\<open>debug/redis/src/dict.c\<close>. All arithmetic is on
  \<^verbatim>\<open>uint32_t\<close>; the static seed is an argument. \<open>dictGenHashFunction\<close> is
  MurmurHash2 with its 4-byte little-endian reads and the fall-through \<^verbatim>\<open>switch\<close> on the
  remaining bytes; \<open>dictGenCaseHashFunction\<close> is the case-insensitive djb hash.
\<close>

definition dictIntHashFunction :: "32 word \<Rightarrow> 32 word" where
  "dictIntHashFunction key =
     (let key = key + NOT (push_bit 15 key);
          key = key XOR drop_bit 10 key;
          key = key + push_bit 3 key;
          key = key XOR drop_bit 6 key;
          key = key + NOT (push_bit 11 key);
          key = key XOR drop_bit 16 key
      in key)"

definition dictIdentityHashFunction :: "32 word \<Rightarrow> 32 word" where
  "dictIdentityHashFunction key = key"

abbreviation murmur_m :: "32 word" where
  "murmur_m \<equiv> 0x5bd1e995"

definition murmur_mix :: "32 word \<Rightarrow> 32 word \<Rightarrow> 32 word" where
  "murmur_mix h k =
     (let k = k * murmur_m; k = k XOR drop_bit 24 k; k = k * murmur_m
      in (h * murmur_m) XOR k)"

definition murmur_tail :: "32 word \<Rightarrow> bytes \<Rightarrow> 32 word" where
  "murmur_tail h rest =
     (let h = (if length rest = 3 then h XOR push_bit 16 (ucast (rest ! 2)) else h);
          h = (if 2 \<le> length rest then h XOR push_bit 8 (ucast (rest ! 1)) else h)
      in if 1 \<le> length rest then (h XOR ucast (rest ! 0)) * murmur_m else h)"

fun murmur_loop :: "32 word \<Rightarrow> bytes \<Rightarrow> 32 word" where
  "murmur_loop h (a # b # c # d # rest) =
     murmur_loop (murmur_mix h (of_nat (le_nat [a, b, c, d]))) rest"
| "murmur_loop h rest = murmur_tail h rest"

definition dictGenHashFunction :: "32 word \<Rightarrow> bytes \<Rightarrow> 32 word" where
  "dictGenHashFunction seed key =
     (let h = murmur_loop (seed XOR of_nat (length key)) key;
          h = h XOR drop_bit 13 h;
          h = h * murmur_m
      in h XOR drop_bit 15 h)"

fun dictGenCaseHashFunction :: "32 word \<Rightarrow> bytes \<Rightarrow> 32 word" where
  "dictGenCaseHashFunction hash [] = hash"
| "dictGenCaseHashFunction hash (c # buf) =
     dictGenCaseHashFunction ((push_bit 5 hash + hash) + ucast (tolower c)) buf"

section \<open>A case-insensitive dictionary\<close>

text \<open>
  The command table of the server is keyed by names compared without case
  (\<^verbatim>\<open>dictSdsCaseHash\<close> and \<^verbatim>\<open>dictSdsKeyCaseCompare\<close> in redis.c). A hash function fits a
  comparison when equal keys hash alike; only then does a lookup go to the right bucket.
\<close>

locale hash_for_compare =
  fixes h :: "'k \<Rightarrow> 32 word" and eq :: "'k \<Rightarrow> 'k \<Rightarrow> bool"
  assumes compatible: "eq a b \<Longrightarrow> h a = h b"
begin

lemma same_bucket: "eq a b \<Longrightarrow> hash_idx ht (h a) = hash_idx ht (h b)"
  by (simp add: compatible)

end

definition strcaseequal :: "bytes \<Rightarrow> bytes \<Rightarrow> bool" where
  "strcaseequal a b \<longleftrightarrow> map tolower a = map tolower b"

lemma case_hash_map:
  "dictGenCaseHashFunction hash a = foldl (\<lambda>h c. 33 * h + ucast c) hash (map tolower a)"
proof (induction a arbitrary: hash)
  case (Cons c a)
  have "push_bit 5 hash + hash = 33 * hash" by (simp add: push_bit_eq_mult)
  with Cons show ?case by simp
qed simp

interpretation casehash: hash_for_compare "dictGenCaseHashFunction seed" strcaseequal for seed
  by unfold_locales (simp add: case_hash_map strcaseequal_def)

text \<open>
  Two keys that differ only in the case of their ASCII letters get the same hash from
  dictGenCaseHashFunction, the 33-multiplier polynomial over the lowered bytes, and fall
  into the same bucket of every table, for every seed.
\<close>

theorem case_hash_same_bucket:
  assumes "map tolower a = map tolower b"
  shows "dictGenCaseHashFunction seed a = dictGenCaseHashFunction seed b \<and>
     dictGenCaseHashFunction seed a = foldl (\<lambda>h c. 33 * h + ucast c) seed (map tolower b) \<and>
     hash_idx ht (dictGenCaseHashFunction seed a) = hash_idx ht (dictGenCaseHashFunction seed b)"
  using casehash.same_bucket [of a b ht seed] casehash.compatible [of a b seed] assms
  by (simp add: strcaseequal_def case_hash_map)

theorem case_hash_same_bucket_witness:
  "dictGenCaseHashFunction 5381 (map chr ''GeT'') = dictGenCaseHashFunction 5381 (map chr ''get'')"
  using case_hash_same_bucket [of "map chr ''GeT''" "map chr ''get''" 5381 dictReset]
  by (simp add: tolower_def)

end
