(* ===== verification/Sds.thy ===== *)
theory Sds
  imports Util Dict_Hash
begin

text \<open>
  \<^verbatim>\<open>debug/redis/src/sds.c\<close>: the dynamic strings. The header fields \<^verbatim>\<open>len\<close> and
  \<^verbatim>\<open>free\<close> and the allocated byte array are the state; \<open>buf\<close> has one byte more than
  \<open>len + free\<close>, for the terminating zero. Lengths are natural numbers (the \<^verbatim>\<open>int\<close>
  fields of the header limit a string to \<open>2 ^ 31 - 1\<close> bytes). The allocator aborts the
  process when out of memory, so it has no failure branch; the bytes it hands out
  are the parameter \<open>junk\<close>. \<open>None\<close> is a failed assertion or a write before the buffer.
\<close>

record sdshdr =
  sds_len :: nat
  sds_free :: nat
  sds_buf :: bytes

abbreviation SDS_MAX_PREALLOC :: nat where
  "SDS_MAX_PREALLOC \<equiv> 1024 * 1024"

definition strlen :: "bytes \<Rightarrow> nat" where
  "strlen b = length (takeWhile (\<lambda>c. c \<noteq> 0) b)"

definition sdslen :: "sdshdr \<Rightarrow> nat" where
  "sdslen s = sds_len s"

definition sdsavail :: "sdshdr \<Rightarrow> nat" where
  "sdsavail s = sds_free s"

text \<open>\<open>init\<close> is \<open>None\<close> for a NULL pointer: the memory is then zeroed.\<close>

definition sdsnewlen :: "(nat \<Rightarrow> byte) \<Rightarrow> bytes option \<Rightarrow> nat \<Rightarrow> sdshdr" where
  "sdsnewlen junk init initlen =
     (let buf = (case init of Some _ \<Rightarrow> mem_resize junk (initlen + 1) []
                 | None \<Rightarrow> replicate (initlen + 1) 0);
          buf = (case init of
                   Some t \<Rightarrow> if initlen \<noteq> 0 then mem_write buf 0 (take initlen t) else buf
                 | None \<Rightarrow> buf)
      in \<lparr>sds_len = initlen, sds_free = 0, sds_buf = buf[initlen := 0]\<rparr>)"

definition sdsempty :: "(nat \<Rightarrow> byte) \<Rightarrow> sdshdr" where
  "sdsempty junk = sdsnewlen junk (Some []) 0"

definition sdsnew :: "(nat \<Rightarrow> byte) \<Rightarrow> bytes option \<Rightarrow> sdshdr" where
  "sdsnew junk init =
     (let initlen = (case init of None \<Rightarrow> 0 | Some t \<Rightarrow> strlen t) in sdsnewlen junk init initlen)"

definition sdsdup :: "(nat \<Rightarrow> byte) \<Rightarrow> sdshdr \<Rightarrow> sdshdr" where
  "sdsdup junk s = sdsnewlen junk (Some (sds_buf s)) (sdslen s)"

definition sdsupdatelen :: "sdshdr \<Rightarrow> sdshdr" where
  "sdsupdatelen s =
     (let reallen = strlen (sds_buf s)
      in s\<lparr>sds_free := sds_free s + (sds_len s - reallen), sds_len := reallen\<rparr>)"

definition sdsclear :: "sdshdr \<Rightarrow> sdshdr" where
  "sdsclear s =
     s\<lparr>sds_free := sds_free s + sds_len s, sds_len := 0, sds_buf := (sds_buf s)[0 := 0]\<rparr>"

definition sdsMakeRoomFor :: "(nat \<Rightarrow> byte) \<Rightarrow> sdshdr \<Rightarrow> nat \<Rightarrow> sdshdr" where
  "sdsMakeRoomFor junk s addlen =
     (if sdsavail s \<ge> addlen then s
      else
        let len = sdslen s;
            newlen = len + addlen;
            newlen = (if newlen < SDS_MAX_PREALLOC then newlen * 2 else newlen + SDS_MAX_PREALLOC)
        in s\<lparr>sds_buf := mem_resize junk (newlen + 1) (sds_buf s), sds_free := newlen - len\<rparr>)"

definition sdsRemoveFreeSpace :: "(nat \<Rightarrow> byte) \<Rightarrow> sdshdr \<Rightarrow> sdshdr" where
  "sdsRemoveFreeSpace junk s =
     s\<lparr>sds_buf := mem_resize junk (sds_len s + 1) (sds_buf s), sds_free := 0\<rparr>"

text \<open>\<^verbatim>\<open>sizeof(struct sdshdr)\<close> is 8.\<close>

definition sdsAllocSize :: "sdshdr \<Rightarrow> nat" where
  "sdsAllocSize s = 8 + sds_len s + sds_free s + 1"

definition sdsIncrLen :: "sdshdr \<Rightarrow> int \<Rightarrow> sdshdr option" where
  "sdsIncrLen s incr =
     (if \<not> int (sds_free s) \<ge> incr then None
      else
        let len = int (sds_len s) + incr; free = int (sds_free s) - incr in
        if \<not> free \<ge> 0 \<or> len < 0 then None
        else Some (s\<lparr>sds_len := nat len, sds_free := nat free,
                     sds_buf := (sds_buf s)[nat len := 0]\<rparr>))"

definition sdsgrowzero :: "(nat \<Rightarrow> byte) \<Rightarrow> sdshdr \<Rightarrow> nat \<Rightarrow> sdshdr" where
  "sdsgrowzero junk s len =
     (let curlen = sds_len s in
      if len \<le> curlen then s
      else
        let s = sdsMakeRoomFor junk s (len - curlen);
            buf = mem_write (sds_buf s) curlen (replicate (len - curlen + 1) 0);
            totlen = sds_len s + sds_free s
        in s\<lparr>sds_buf := buf, sds_len := len, sds_free := totlen - len\<rparr>)"

definition sdscatlen :: "(nat \<Rightarrow> byte) \<Rightarrow> sdshdr \<Rightarrow> bytes \<Rightarrow> nat \<Rightarrow> sdshdr" where
  "sdscatlen junk s t len =
     (let curlen = sdslen s;
          s = sdsMakeRoomFor junk s len;
          buf = mem_write (sds_buf s) curlen (take len t)
      in s\<lparr>sds_buf := buf[curlen + len := 0], sds_len := curlen + len, sds_free := sds_free s - len\<rparr>)"

definition sdscat :: "(nat \<Rightarrow> byte) \<Rightarrow> sdshdr \<Rightarrow> bytes \<Rightarrow> sdshdr" where
  "sdscat junk s t = sdscatlen junk s t (strlen t)"

definition sdscatsds :: "(nat \<Rightarrow> byte) \<Rightarrow> sdshdr \<Rightarrow> sdshdr \<Rightarrow> sdshdr" where
  "sdscatsds junk s t = sdscatlen junk s (sds_buf t) (sdslen t)"

definition sdscpylen :: "(nat \<Rightarrow> byte) \<Rightarrow> sdshdr \<Rightarrow> bytes \<Rightarrow> nat \<Rightarrow> sdshdr" where
  "sdscpylen junk s t len =
     (let totlen = sds_free s + sds_len s;
          s = (if totlen < len then sdsMakeRoomFor junk s (len - sds_len s) else s);
          totlen = sds_free s + sds_len s;
          buf = mem_write (sds_buf s) 0 (take len t)
      in s\<lparr>sds_buf := buf[len := 0], sds_len := len, sds_free := totlen - len\<rparr>)"

definition sdscpy :: "(nat \<Rightarrow> byte) \<Rightarrow> sdshdr \<Rightarrow> bytes \<Rightarrow> sdshdr" where
  "sdscpy junk s t = sdscpylen junk s t (strlen t)"

text \<open>
  \<^verbatim>\<open>strchr(cset, c)\<close> also finds the terminating zero of \<^verbatim>\<open>cset\<close>, so \<open>sdstrim\<close> strips
  zero bytes whatever the set. The two scans give the indices \<^verbatim>\<open>sp\<close> and
  \<^verbatim>\<open>ep\<close>; the second one stops at the first byte without testing it.
\<close>

definition in_cset :: "bytes \<Rightarrow> byte \<Rightarrow> bool" where
  "in_cset cset c \<longleftrightarrow> c = 0 \<or> c \<in> set cset"

function sp_scan :: "bytes \<Rightarrow> bytes \<Rightarrow> int \<Rightarrow> int \<Rightarrow> int" where
  "sp_scan cset buf end sp =
     (if sp \<le> end \<and> in_cset cset (buf ! nat sp) then sp_scan cset buf end (sp + 1) else sp)"
  by pat_completeness auto
termination
  by (relation "measure (\<lambda>(cset, buf, end, sp). nat (end - sp + 1))") auto

function ep_scan :: "bytes \<Rightarrow> bytes \<Rightarrow> int \<Rightarrow> int" where
  "ep_scan cset buf ep =
     (if ep > 0 \<and> in_cset cset (buf ! nat ep) then ep_scan cset buf (ep - 1) else ep)"
  by pat_completeness auto
termination
  by (relation "measure (\<lambda>(cset, buf, ep). nat ep)") auto

declare sp_scan.simps [simp del] ep_scan.simps [simp del]

definition sdstrim :: "sdshdr \<Rightarrow> bytes \<Rightarrow> sdshdr" where
  "sdstrim s cset =
     (let buf = sds_buf s;
          end = int (sdslen s) - 1;
          sp = sp_scan cset buf end 0;
          ep = ep_scan cset buf end;
          len = (if sp > ep then 0 else nat (ep - sp + 1));
          buf = (if sp \<noteq> 0 then mem_move buf 0 (nat sp) len else buf)
      in s\<lparr>sds_buf := buf[len := 0], sds_free := sds_free s + (sds_len s - len), sds_len := len\<rparr>)"

definition sdsrange :: "sdshdr \<Rightarrow> int \<Rightarrow> int \<Rightarrow> sdshdr" where
  "sdsrange s start end =
     (let len = int (sdslen s) in
      if len = 0 then s
      else
        let start = (if start < 0 then (let st = len + start in if st < 0 then 0 else st) else start);
            end = (if end < 0 then (let en = len + end in if en < 0 then 0 else en) else end);
            newlen = (if start > end then 0 else end - start + 1);
            (start, newlen) =
              (if newlen \<noteq> 0 then
                 (if start \<ge> len then (start, 0)
                  else if end \<ge> len then
                    (start, if start > len - 1 then 0 else len - 1 - start + 1)
                  else (start, newlen))
               else (0, newlen));
            buf = (if start \<noteq> 0 \<and> newlen \<noteq> 0
                   then mem_move (sds_buf s) 0 (nat start) (nat newlen) else sds_buf s)
        in s\<lparr>sds_buf := buf[nat newlen := 0],
             sds_free := sds_free s + (sds_len s - nat newlen), sds_len := nat newlen\<rparr>)"

definition toupper :: "byte \<Rightarrow> byte" where
  "toupper c = (if 97 \<le> c \<and> c \<le> 122 then c - 32 else c)"

definition sdstolower :: "sdshdr \<Rightarrow> sdshdr" where
  "sdstolower s = s\<lparr>sds_buf := mem_write (sds_buf s) 0 (map tolower (take (sdslen s) (sds_buf s)))\<rparr>"

definition sdstoupper :: "sdshdr \<Rightarrow> sdshdr" where
  "sdstoupper s = s\<lparr>sds_buf := mem_write (sds_buf s) 0 (map toupper (take (sdslen s) (sds_buf s)))\<rparr>"

text \<open>\<^verbatim>\<open>memcmp\<close>: only the sign of the result is specified; it is \<open>-1\<close>, \<open>0\<close> or \<open>1\<close> here.\<close>

fun memcmp :: "bytes \<Rightarrow> bytes \<Rightarrow> nat \<Rightarrow> int" where
  "memcmp (a # as) (b # bs) (Suc n) = (if a < b then -1 else if b < a then 1 else memcmp as bs n)"
| "memcmp as bs n = 0"

definition sdscmp :: "sdshdr \<Rightarrow> sdshdr \<Rightarrow> int" where
  "sdscmp s1 s2 =
     (let l1 = sdslen s1; l2 = sdslen s2; minlen = (if l1 < l2 then l1 else l2);
          cmp = memcmp (sds_buf s1) (sds_buf s2) minlen
      in if cmp = 0 then int l1 - int l2 else cmp)"

definition sdsfromlonglong :: "(nat \<Rightarrow> byte) \<Rightarrow> int \<Rightarrow> sdshdr" where
  "sdsfromlonglong junk v =
     (let u = of_ll (if v < 0 then - v else v);
          p = ll2string_loop u [];
          p = (if v < 0 then chr CHR ''-'' # p else p)
      in sdsnewlen junk (Some p) (length p))"

text \<open>The inner loop of \<open>sdsmapchars\<close>: the first matching position of \<open>from\<close> decides.\<close>

fun map_char :: "bytes \<Rightarrow> bytes \<Rightarrow> nat \<Rightarrow> byte \<Rightarrow> byte" where
  "map_char (f # from) (t # to) (Suc n) c = (if c = f then t else map_char from to n c)"
| "map_char from to n c = c"

definition sdsmapchars :: "sdshdr \<Rightarrow> bytes \<Rightarrow> bytes \<Rightarrow> nat \<Rightarrow> sdshdr" where
  "sdsmapchars s from to setlen =
     s\<lparr>sds_buf := mem_write (sds_buf s) 0 (map (map_char from to setlen) (take (sdslen s) (sds_buf s)))\<rparr>"

section \<open>Well-formed strings\<close>

definition sds_ok :: "sdshdr \<Rightarrow> bool" where
  "sds_ok s \<longleftrightarrow> length (sds_buf s) = sds_len s + sds_free s + 1 \<and> sds_buf s ! sds_len s = 0"

definition sds_str :: "sdshdr \<Rightarrow> bytes" where
  "sds_str s = take (sds_len s) (sds_buf s)"

lemma length_sds_str [simp]: "sds_ok s \<Longrightarrow> length (sds_str s) = sds_len s"
  by (simp add: sds_ok_def sds_str_def)

text \<open>Overwriting a prefix and cutting it with a zero.\<close>

lemma sds_cut:
  assumes "length b = n + f + 1" "take n b = str"
  shows "sds_ok \<lparr>sds_len = n, sds_free = f, sds_buf = b[n := 0]\<rparr> \<and>
    sds_str \<lparr>sds_len = n, sds_free = f, sds_buf = b[n := 0]\<rparr> = str"
  using assms by (simp add: sds_ok_def sds_str_def)

lemma sds_record: "s\<lparr>sds_len := l, sds_free := f, sds_buf := b\<rparr> = \<lparr>sds_len = l, sds_free = f, sds_buf = b\<rparr>"
  by (cases s) simp

lemma sdsnewlen_ok:
  assumes "initlen \<le> length t"
  shows "sds_ok (sdsnewlen junk (Some t) initlen) \<and> sds_str (sdsnewlen junk (Some t) initlen) = take initlen t \<and>
    sdsavail (sdsnewlen junk (Some t) initlen) = 0"
  using assms
  by (auto simp: sdsnewlen_def Let_def sdsavail_def sds_ok_def sds_str_def mem_resize_def mem_write_def)

lemma replicate_update [simp]: "(replicate n x)[i := x] = replicate n x"
  by (induction n arbitrary: i) (auto split: nat.splits)

lemma sdsnewlen_null_ok:
  "sds_ok (sdsnewlen junk None n) \<and> sds_str (sdsnewlen junk None n) = replicate n 0"
  unfolding sdsnewlen_def Let_def option.case replicate_update
  by (simp add: sds_ok_def sds_str_def del: replicate.simps)

lemma sdsMakeRoomFor_ok:
  assumes "sds_ok s"
  shows "sds_ok (sdsMakeRoomFor junk s n) \<and> sds_str (sdsMakeRoomFor junk s n) = sds_str s \<and>
    sdslen (sdsMakeRoomFor junk s n) = sdslen s \<and> n \<le> sdsavail (sdsMakeRoomFor junk s n)"
  using assms
  by (auto simp: sdsMakeRoomFor_def Let_def sds_ok_def sds_str_def sdslen_def sdsavail_def
      mem_resize_def nth_append)

lemma sdscatlen_ok:
  assumes ok: "sds_ok s" and n: "n \<le> length t"
  shows "sds_ok (sdscatlen junk s t n) \<and> sds_str (sdscatlen junk s t n) = sds_str s @ take n t"
proof -
  define r where "r = sdsMakeRoomFor junk s n"
  have r: "sds_ok r" "sds_str r = sds_str s" "sds_len r = sds_len s" "n \<le> sds_free r"
    using sdsMakeRoomFor_ok [OF ok, of junk n] by (simp_all add: r_def sdslen_def sdsavail_def)
  have "sdscatlen junk s t n = \<lparr>sds_len = sds_len s + n, sds_free = sds_free r - n,
      sds_buf = (mem_write (sds_buf r) (sds_len s) (take n t))[sds_len s + n := 0]\<rparr>"
    by (cases r) (simp add: sdscatlen_def Let_def r_def [symmetric] sdslen_def)
  moreover have "length (mem_write (sds_buf r) (sds_len s) (take n t)) = sds_len s + n + (sds_free r - n) + 1"
    using r n by (simp add: sds_ok_def mem_simps)
  moreover have "take (sds_len s + n) (mem_write (sds_buf r) (sds_len s) (take n t)) = sds_str s @ take n t"
    using r n ok by (simp add: mem_write_def sds_str_def sds_ok_def)
  ultimately show ?thesis using sds_cut by metis
qed

lemma sdsclear_ok: "sds_ok s \<Longrightarrow> sds_ok (sdsclear s) \<and> sds_str (sdsclear s) = []"
  by (simp add: sdsclear_def sds_ok_def sds_str_def)

lemma sdsRemoveFreeSpace_ok:
  "sds_ok s \<Longrightarrow> sds_ok (sdsRemoveFreeSpace junk s) \<and> sds_str (sdsRemoveFreeSpace junk s) = sds_str s \<and>
   sdsavail (sdsRemoveFreeSpace junk s) = 0"
  by (simp add: sdsRemoveFreeSpace_def sds_ok_def sds_str_def sdsavail_def mem_resize_def nth_append)

lemma sdsdup_ok:
  "sds_ok s \<Longrightarrow> sds_ok (sdsdup junk s) \<and> sds_str (sdsdup junk s) = sds_str s"
  using sdsnewlen_ok [of "sds_len s" "sds_buf s" junk]
  by (simp add: sdsdup_def sdslen_def sds_ok_def sds_str_def)

lemma sdsgrowzero_ok:
  assumes ok: "sds_ok s"
  shows "sds_ok (sdsgrowzero junk s n) \<and>
    sds_str (sdsgrowzero junk s n) = sds_str s @ replicate (n - sds_len s) 0"
proof (cases "n \<le> sds_len s")
  case True
  then show ?thesis using ok by (simp add: sdsgrowzero_def)
next
  case False
  define r where "r = sdsMakeRoomFor junk s (n - sds_len s)"
  have r: "sds_ok r" "sds_str r = sds_str s" "sds_len r = sds_len s" "n - sds_len s \<le> sds_free r"
    using sdsMakeRoomFor_ok [OF ok, of junk "n - sds_len s"] by (simp_all add: r_def sdslen_def sdsavail_def)
  let ?b = "mem_write (sds_buf r) (sds_len s) (replicate (n - sds_len s + 1) 0)"
  have eq: "sdsgrowzero junk s n = r\<lparr>sds_buf := ?b, sds_len := n, sds_free := sds_len r + sds_free r - n\<rparr>"
    using False by (simp add: sdsgrowzero_def Let_def r_def)
  have fit: "sds_len s + (n - sds_len s + 1) \<le> length (sds_buf r)" using r False by (simp add: sds_ok_def)
  then have len: "length ?b = n + (sds_len r + sds_free r - n) + 1"
    using r False by (subst length_mem_write) (simp_all add: sds_ok_def)
  have "?b ! n = 0" using fit False by (subst nth_mem_write) simp_all
  moreover have "take n ?b = sds_str s @ replicate (n - sds_len s) 0"
    using r False ok by (simp add: mem_write_def sds_str_def sds_ok_def replicate_add [symmetric] del: replicate.simps)
  ultimately show ?thesis using len unfolding eq by (simp add: sds_ok_def sds_str_def)
qed

lemma sdscpylen_ok:
  assumes ok: "sds_ok s" and n: "n \<le> length t"
  shows "sds_ok (sdscpylen junk s t n) \<and> sds_str (sdscpylen junk s t n) = take n t"
proof -
  define r where "r = (if sds_free s + sds_len s < n then sdsMakeRoomFor junk s (n - sds_len s) else s)"
  have r: "sds_ok r" "n \<le> sds_len r + sds_free r"
    using sdsMakeRoomFor_ok [OF ok, of junk "n - sds_len s"] ok
    by (auto simp: r_def sdslen_def sdsavail_def)
  have "sdscpylen junk s t n = \<lparr>sds_len = n, sds_free = sds_free r + sds_len r - n,
      sds_buf = (mem_write (sds_buf r) 0 (take n t))[n := 0]\<rparr>"
    by (cases r) (simp add: sdscpylen_def Let_def r_def [symmetric])
  moreover have "length (mem_write (sds_buf r) 0 (take n t)) = n + (sds_free r + sds_len r - n) + 1"
    using r n by (simp add: sds_ok_def mem_simps)
  moreover have "take n (mem_write (sds_buf r) 0 (take n t)) = take n t"
    using r n by (simp add: mem_write_def)
  ultimately show ?thesis using sds_cut by metis
qed

lemma sdsIncrLen_ok:
  assumes ok: "sds_ok s" and "incr \<le> int (sdsavail s)" "- int (sdslen s) \<le> incr"
  shows "\<exists>s'. sdsIncrLen s incr = Some s' \<and> sds_ok s' \<and> int (sdslen s') = int (sdslen s) + incr \<and>
    sds_str s' = take (nat (int (sdslen s) + incr)) (sds_buf s)"
proof -
  have "nat (int (sds_len s) + incr) < length (sds_buf s)"
    using assms by (simp add: sds_ok_def sdslen_def sdsavail_def)
  then show ?thesis using assms
    by (auto simp: sdsIncrLen_def Let_def sds_ok_def sds_str_def sdslen_def sdsavail_def)
qed

text \<open>Keeping a middle part of the buffer.\<close>

lemma keep_part:
  assumes ok: "sds_ok s" and "i + n \<le> sds_len s"
  defines "b \<equiv> (if i \<noteq> 0 \<and> n \<noteq> 0 then mem_move (sds_buf s) 0 i n else sds_buf s)"
  defines "s' \<equiv> s\<lparr>sds_buf := b[n := 0], sds_free := sds_free s + (sds_len s - n), sds_len := n\<rparr>"
  shows "sds_ok s' \<and> sds_str s' = take n (drop i (sds_str s))"
proof -
  have l: "length (sds_buf s) = sds_len s + sds_free s + 1" using ok by (simp add: sds_ok_def)
  have lb: "length b = n + (sds_free s + (sds_len s - n)) + 1"
    using l assms(2) by (auto simp: b_def mem_simps)
  have "take n b = take n (drop i (sds_str s))"
    using l assms(2) by (auto simp: b_def mem_move_def mem_write_def mem_read_def sds_str_def drop_take min_def)
  moreover have "s' = \<lparr>sds_len = n, sds_free = sds_free s + (sds_len s - n), sds_buf = b[n := 0]\<rparr>"
    by (cases s) (simp add: s'_def)
  ultimately show ?thesis using sds_cut [OF lb] by simp
qed

section \<open>Ranges and trimming\<close>

text \<open>
  The part of a string \<open>sdsrange\<close> keeps: indices from the left, or from the right when
  negative, both ends included; an index before the string is clipped to 0, so an end far to
  the left still keeps the first byte.
\<close>

definition range_spec :: "int \<Rightarrow> int \<Rightarrow> 'a list \<Rightarrow> 'a list" where
  "range_spec start end str =
     (let n = int (length str);
          i = (if start < 0 then max 0 (n + start) else start);
          j = (if end < 0 then max 0 (n + end) else min end (n - 1))
      in take (nat (j - i + 1)) (drop (nat i) str))"

lemma sdsrange_ok:
  assumes ok: "sds_ok s"
  shows "sds_ok (sdsrange s start end) \<and> sds_str (sdsrange s start end) = range_spec start end (sds_str s)"
proof (cases "sds_len s = 0")
  case True
  then show ?thesis using ok by (simp add: sdsrange_def sdslen_def range_spec_def sds_str_def)
next
  case False
  define len where "len = int (sds_len s)"
  define i where "i = (if start < 0 then max 0 (len + start) else start)"
  define j where "j = (if end < 0 then max 0 (len + end) else end)"
  define m where "m = min j (len - 1)"
  define n where "n = (if i > m then 0 else m - i + 1)"
  have len0: "0 < len" using False by (simp add: len_def)
  have ij: "0 \<le> i" "0 \<le> j" using len0 by (auto simp: i_def j_def)
  have raw: "(if start < 0 then (let st = len + start in if st < 0 then 0 else st) else start) = i"
    "(if end < 0 then (let en = len + end in if en < 0 then 0 else en) else end) = j"
    by (auto simp: i_def j_def Let_def)
  define k where "k = (if i > j then 0 else i)"
  have "(if (if i > j then 0 else j - i + 1) \<noteq> 0 then
           (if i \<ge> len then (i, 0)
            else if j \<ge> len then (i, if i > len - 1 then 0 else len - 1 - i + 1)
            else (i, if i > j then 0 else j - i + 1))
         else (0, if i > j then 0 else j - i + 1)) = (k, n)"
    using ij len0 by (auto simp: k_def n_def m_def min_def)
  then have eq: "sdsrange s start end =
      s\<lparr>sds_buf := (if nat k \<noteq> 0 \<and> nat n \<noteq> 0 then mem_move (sds_buf s) 0 (nat k) (nat n) else sds_buf s)[nat n := 0],
        sds_free := sds_free s + (sds_len s - nat n), sds_len := nat n\<rparr>"
    using len0 ij unfolding sdsrange_def sdslen_def len_def [symmetric] Let_def
    unfolding raw [unfolded Let_def] by (simp add: k_def n_def)
  have bound: "nat k + nat n \<le> sds_len s \<or> n = 0"
    using ij len0 by (auto simp: k_def n_def m_def len_def min_def)
  have "range_spec start end (sds_str s) = take (nat n) (drop (nat k) (sds_str s))"
    using ij len0 ok by (auto simp: range_spec_def Let_def i_def [symmetric] len_def [symmetric] k_def n_def m_def j_def)
  then show ?thesis
  proof (cases "n = 0")
    case True
    have "range_spec start end (sds_str s) = []" using \<open>range_spec start end (sds_str s) = _\<close> True by simp
    then show ?thesis using keep_part [OF ok, of 0 0] unfolding eq True by simp
  next
    case False
    then show ?thesis using keep_part [OF ok, of "nat k" "nat n"] bound
        \<open>range_spec start end (sds_str s) = _\<close> unfolding eq by simp
  qed
qed

definition trim_spec :: "('a \<Rightarrow> bool) \<Rightarrow> 'a list \<Rightarrow> 'a list" where
  "trim_spec P str = rev (dropWhile P (rev (dropWhile P str)))"

lemma sp_scan_ok:
  "0 \<le> sp \<Longrightarrow> sp \<le> int n \<Longrightarrow> \<forall>i < nat sp. in_cset cset (buf ! i) \<Longrightarrow>
   \<exists>r. sp_scan cset buf (int n - 1) sp = int r \<and> r \<le> n \<and> (\<forall>i < r. in_cset cset (buf ! i)) \<and>
     (r < n \<longrightarrow> \<not> in_cset cset (buf ! r))"
proof (induction cset buf "int n - 1" sp rule: sp_scan.induct)
  case (1 cset buf sp)
  show ?case
  proof (cases "sp \<le> int n - 1 \<and> in_cset cset (buf ! nat sp)")
    case True
    have "\<forall>i < nat (sp + 1). in_cset cset (buf ! i)"
      using 1(2,4) True by (auto simp: nat_add_distrib less_Suc_eq)
    then show ?thesis using 1(1) [OF True] 1(2) True by (subst sp_scan.simps) auto
  next
    case False
    then have "sp_scan cset buf (int n - 1) sp = int (nat sp)" using 1(2) by (subst sp_scan.simps) auto
    then show ?thesis using 1(2-4) False by (intro exI [of _ "nat sp"]) auto
  qed
qed

lemma ep_scan_ok:
  "0 \<le> ep \<Longrightarrow> \<exists>e. ep_scan cset buf ep = int e \<and> e \<le> nat ep \<and>
     (\<forall>i. e < i \<and> i \<le> nat ep \<longrightarrow> in_cset cset (buf ! i)) \<and> (e = 0 \<or> \<not> in_cset cset (buf ! e))"
proof (induction cset buf ep rule: ep_scan.induct)
  case (1 cset buf ep)
  show ?case
  proof (cases "ep > 0 \<and> in_cset cset (buf ! nat ep)")
    case True
    obtain e where e: "ep_scan cset buf (ep - 1) = int e" "e \<le> nat (ep - 1)"
      "\<forall>i. e < i \<and> i \<le> nat (ep - 1) \<longrightarrow> in_cset cset (buf ! i)" "e = 0 \<or> \<not> in_cset cset (buf ! e)"
      using 1(1) [OF True] True by auto
    have "\<forall>i. e < i \<and> i \<le> nat ep \<longrightarrow> in_cset cset (buf ! i)"
    proof (intro allI impI)
      fix i assume "e < i \<and> i \<le> nat ep"
      then show "in_cset cset (buf ! i)" using e(3) True by (cases "i = nat ep") auto
    qed
    then show ?thesis using e True by (subst ep_scan.simps) auto
  next
    case False
    then have "ep_scan cset buf ep = int (nat ep)" using 1(2) by (subst ep_scan.simps) auto
    then show ?thesis using False 1(2) by (intro exI [of _ "nat ep"]) auto
  qed
qed

lemma dropWhile_drop:
  assumes "r \<le> length xs" "\<forall>i < r. P (xs ! i)" "r < length xs \<longrightarrow> \<not> P (xs ! r)"
  shows "dropWhile P xs = drop r xs"
proof -
  have "takeWhile P xs = take r xs" using assms by (intro takeWhile_eq_take_P_nth) auto
  then show ?thesis using assms(1) by (metis dropWhile_eq_drop length_take min.absorb2)
qed

lemma trim_spec_part:
  assumes "r \<le> length xs" "\<forall>i < r. P (xs ! i)" "r < length xs \<longrightarrow> \<not> P (xs ! r)"
    and "e < length xs" "\<forall>i. e < i \<and> i < length xs \<longrightarrow> P (xs ! i)" "e = 0 \<or> \<not> P (xs ! e)"
  shows "trim_spec P xs = take (Suc e - r) (drop r xs)"
proof (cases "r = length xs")
  case True
  then show ?thesis unfolding trim_spec_def dropWhile_drop [OF assms(1-3)] by simp
next
  case False
  then have np: "\<not> P (xs ! r)" "r < length xs" using assms(1,3) by auto
  have re: "r \<le> e" using assms(5) np by (metis not_le)
  have nPe: "\<not> P (xs ! e)" using assms(6) np re by auto
  let ?ys = "drop r xs"
  have "dropWhile P (rev ?ys) = drop (length xs - Suc e) (rev ?ys)"
  proof (rule dropWhile_drop)
    show "length xs - Suc e \<le> length (rev ?ys)" using re by simp
    show "\<forall>i < length xs - Suc e. P (rev ?ys ! i)"
    proof (intro allI impI)
      fix i assume "i < length xs - Suc e"
      then have "e < length xs - Suc i" "length xs - Suc i < length xs" by auto
      with assms(5) re show "P (rev ?ys ! i)" by (simp add: rev_nth)
    qed
    show "length xs - Suc e < length (rev ?ys) \<longrightarrow> \<not> P (rev ?ys ! (length xs - Suc e))"
      using nPe re assms(4) by (simp add: rev_nth)
  qed
  then have "rev (dropWhile P (rev ?ys)) = take (length ?ys - (length xs - Suc e)) ?ys"
    using rev_drop [of "length xs - Suc e" "rev ?ys"] by (simp only: rev_rev_ident length_rev)
  then show ?thesis using dropWhile_drop [OF assms(1-3)] re assms(4) by (simp add: trim_spec_def)
qed

lemma sdstrim_ok:
  assumes ok: "sds_ok s"
  shows "sds_ok (sdstrim s cset) \<and> sds_str (sdstrim s cset) = trim_spec (in_cset cset) (sds_str s)"
proof -
  let ?P = "in_cset cset" and ?n = "sds_len s"
  obtain r where r: "sp_scan cset (sds_buf s) (int ?n - 1) 0 = int r" "r \<le> ?n"
    "\<forall>i < r. ?P (sds_buf s ! i)" "r < ?n \<longrightarrow> \<not> ?P (sds_buf s ! r)"
    using sp_scan_ok [of 0 ?n cset "sds_buf s"] by auto
  have len: "length (sds_str s) = ?n" using ok by simp
  have nth: "sds_str s ! i = sds_buf s ! i" if "i < ?n" for i using that by (simp add: sds_str_def)
  show ?thesis
  proof (cases "?n = 0")
    case True
    then have "ep_scan cset (sds_buf s) (- 1) = - 1" by (subst ep_scan.simps) simp
    then have "sdstrim s cset = s\<lparr>sds_buf := (sds_buf s)[0 := 0], sds_free := sds_free s + (sds_len s - 0), sds_len := 0\<rparr>"
      using True r(1,2) by (simp add: sdstrim_def Let_def sdslen_def)
    then show ?thesis using True keep_part [OF ok, of 0 0] by (simp add: trim_spec_def sds_str_def)
  next
    case False
    obtain e where e: "ep_scan cset (sds_buf s) (int ?n - 1) = int e" "e \<le> nat (int ?n - 1)"
      "\<forall>i. e < i \<and> i \<le> nat (int ?n - 1) \<longrightarrow> ?P (sds_buf s ! i)" "e = 0 \<or> \<not> ?P (sds_buf s ! e)"
      using ep_scan_ok [of "int ?n - 1" cset "sds_buf s"] False by auto
    have en: "e < ?n" using e(2) False by linarith
    define n where "n = (if r > e then 0 else e - r + 1)"
    have lenr: "(if int r > int e then 0 else nat (int e - int r + 1)) = n" by (auto simp: n_def)
    have tr: "trim_spec ?P (sds_str s) = take (Suc e - r) (drop r (sds_str s))"
    proof (rule trim_spec_part)
      show "\<forall>i. e < i \<and> i < length (sds_str s) \<longrightarrow> ?P (sds_str s ! i)"
        using e(3) nth unfolding len by auto
    qed (use r e nth en in \<open>auto simp: len\<close>)
    have eq: "sdstrim s cset = s\<lparr>sds_buf := (if r \<noteq> 0 \<and> n \<noteq> 0 then mem_move (sds_buf s) 0 r n else sds_buf s)[n := 0],
        sds_free := sds_free s + (sds_len s - n), sds_len := n\<rparr>"
    proof -
      have mv: "(if int r \<noteq> 0 then mem_move (sds_buf s) 0 r n else sds_buf s) =
          (if r \<noteq> 0 \<and> n \<noteq> 0 then mem_move (sds_buf s) 0 r n else sds_buf s)"
        by (simp add: mem_move_def mem_write_def mem_read_def)
      show ?thesis unfolding sdstrim_def Let_def sdslen_def r(1) e(1) lenr nat_int mv by simp
    qed
    have nn: "Suc e - r = n" by (auto simp: n_def)
    show ?thesis
    proof (cases "r + n \<le> ?n")
      case True
      then show ?thesis using keep_part [OF ok True] unfolding eq tr nn by simp
    next
      case False
      then have "n = 0" using r(2) en by (auto simp: n_def split: if_splits)
      then show ?thesis using keep_part [OF ok, of 0 0] unfolding eq tr nn by simp
    qed
  qed
qed

section \<open>Appending strings\<close>

text \<open>
  What the many callers that build replies and commands piece by piece rely on: an append
  that keeps the representation and concatenates.
\<close>

locale append_buffer =
  fixes ok :: "'s \<Rightarrow> bool" and str :: "'s \<Rightarrow> bytes" and app :: "'s \<Rightarrow> bytes \<Rightarrow> 's"
  assumes app_ok: "ok s \<Longrightarrow> ok (app s t)"
    and app_str: "ok s \<Longrightarrow> str (app s t) = str s @ t"
begin

lemma app_all: "ok s \<Longrightarrow> ok (foldl app s ts) \<and> str (foldl app s ts) = str s @ concat ts"
  by (induction ts arbitrary: s) (simp_all add: app_ok app_str)

end

interpretation sdsbuf: append_buffer sds_ok sds_str "\<lambda>s t. sdscatlen junk s t (length t)" for junk
  by unfold_locales (simp_all add: sdscatlen_ok)

text \<open>
  Building a string by any number of sdscatlen calls, starting with sdsempty, gives the
  concatenation of the pieces with a terminating zero, the reported length is its length, and
  the header accounts for every allocated byte, whatever bytes the allocator returns.
\<close>

theorem sds_append_all:
  "let s = foldl (\<lambda>s t. sdscatlen junk s t (length t)) (sdsempty junk) ts in
     sds_str s = concat ts \<and> sdslen s = length (concat ts) \<and> sds_buf s ! sdslen s = 0 \<and>
     sdsAllocSize s = 8 + length (sds_buf s)"
proof -
  have e: "sds_ok (sdsempty junk)" "sds_str (sdsempty junk) = []"
    using sdsnewlen_ok [of 0 "[]" junk] by (simp_all add: sdsempty_def)
  let ?s = "foldl (\<lambda>s t. sdscatlen junk s t (length t)) (sdsempty junk) ts"
  have "sds_ok ?s" "sds_str ?s = concat ts" using sdsbuf.app_all [OF e(1), of junk ts] e(2) by simp_all
  moreover from this have "sds_len ?s = length (concat ts)" using length_sds_str by metis
  ultimately show ?thesis by (simp add: Let_def sdslen_def sds_ok_def sdsAllocSize_def)
qed


definition sample_sds :: sdshdr where
  "sample_sds = \<lparr>sds_len = 3, sds_free = 1, sds_buf = [120, 97, 120, 0, 7]\<rparr>"


section \<open>Splitting\<close>

text \<open>
  \<open>sdssplitlen\<close>: the loop index \<^verbatim>\<open>j\<close> and the start of the current token move through
  the string; the growing token array has no bound of its own. Like the loop condition
  \<^verbatim>\<open>j < len-(seplen-1)\<close>, a separator is only searched where it still fits.
\<close>

function split_loop :: "(nat \<Rightarrow> byte) \<Rightarrow> bytes \<Rightarrow> bytes \<Rightarrow> nat \<Rightarrow> nat \<Rightarrow> sdshdr list \<Rightarrow> nat \<times> sdshdr list" where
  "split_loop junk s sep start j tokens =
     (if int j < int (length s) - (int (length sep) - 1) \<and> sep \<noteq> [] then
        (if mem_read s j (length sep) = sep
         then split_loop junk s sep (j + length sep) (j + length sep)
                (tokens @ [sdsnewlen junk (Some (drop start s)) (j - start)])
         else split_loop junk s sep start (j + 1) tokens)
      else (start, tokens))"
  by pat_completeness auto
termination
  by (relation "measure (\<lambda>(junk, s, sep, start, j, tokens). length s - j)")
    (auto simp: neq_Nil_conv)

declare split_loop.simps [simp del]

definition sdssplitlen :: "(nat \<Rightarrow> byte) \<Rightarrow> bytes \<Rightarrow> bytes \<Rightarrow> sdshdr list option" where
  "sdssplitlen junk s sep =
     (if length sep < 1 then None
      else if length s = 0 then Some []
      else
        let (start, tokens) = split_loop junk s sep 0 0 []
        in Some (tokens @ [sdsnewlen junk (Some (drop start s)) (length s - start)]))"

fun join :: "'a list \<Rightarrow> 'a list list \<Rightarrow> 'a list" where
  "join sep [] = []"
| "join sep [t] = t"
| "join sep (t # ts) = t @ sep @ join sep ts"

lemma join_snoc: "ts \<noteq> [] \<Longrightarrow> join sep (ts @ [t]) = join sep ts @ sep @ t"
  by (induction sep ts rule: join.induct) (auto simp: neq_Nil_conv)

lemma join_snoc2: "ts \<noteq> [] \<Longrightarrow> join sep (ts @ [t, u]) = join sep ts @ sep @ t @ sep @ u"
  using join_snoc [of "ts @ [t]" sep u] join_snoc [of ts sep t] by simp

lemma split_loop_ok:
  assumes "start \<le> j" "j \<le> length s" "sep \<noteq> []" "list_all sds_ok tokens"
    and "join sep (map sds_str tokens @ [drop start s]) = orig"
  shows "case split_loop junk s sep start j tokens of (start', tokens') \<Rightarrow>
     start' \<le> length s \<and> list_all sds_ok tokens' \<and> join sep (map sds_str tokens' @ [drop start' s]) = orig"
  using assms
proof (induction junk s sep start j tokens rule: split_loop.induct)
  case (1 junk s sep start j tokens)
  show ?case
  proof (cases "int j < int (length s) - (int (length sep) - 1) \<and> sep \<noteq> []")
    case False
    then show ?thesis using 1(3-7) by (subst split_loop.simps) auto
  next
    case True
    show ?thesis
    proof (cases "mem_read s j (length sep) = sep")
      case match: True
      let ?t = "sdsnewlen junk (Some (drop start s)) (j - start)"
      have t: "sds_ok ?t" "sds_str ?t = take (j - start) (drop start s)"
        using sdsnewlen_ok [of "j - start" "drop start s" junk] 1(3,4) by auto
      have "drop j s = sep @ drop (j + length sep) s"
        using match append_take_drop_id [of "length sep" "drop j s"] by (simp add: mem_read_def add.commute)
      moreover have "drop start s = take (j - start) (drop start s) @ drop j s"
        using 1(3) append_take_drop_id [of "j - start" "drop start s"] by simp
      ultimately have d: "drop start s = sds_str ?t @ sep @ drop (j + length sep) s" using t(2) by simp
      have "join sep (map sds_str (tokens @ [?t]) @ [drop (j + length sep) s]) = orig"
        using 1(7) d by (cases "tokens = []") (simp_all add: join_snoc join_snoc2)
      then show ?thesis using 1(1) [OF True match] 1(3-6) True match t
        by (subst split_loop.simps) simp
    next
      case nomatch: False
      have "Suc j \<le> length s" using True by (cases sep) auto
      then show ?thesis using 1(2) [OF True nomatch] 1(3-7) True nomatch
        by (subst split_loop.simps) simp
    qed
  qed
qed

text \<open>
  sdssplitlen refuses an empty separator, gives no token for the empty string, and otherwise
  returns well-formed strings that, joined with the separator, give back exactly the input:
  no byte is lost, duplicated or moved.
\<close>

theorem sdssplitlen_join:
  "(sep = [] \<longrightarrow> sdssplitlen junk s sep = None) \<and>
   (sep \<noteq> [] \<longrightarrow> (\<exists>tokens. sdssplitlen junk s sep = Some tokens \<and> list_all sds_ok tokens \<and>
      join sep (map sds_str tokens) = s \<and> (tokens = [] \<longleftrightarrow> s = [])))"
proof (cases "sep = [] \<or> s = []")
  case True
  then show ?thesis by (auto simp: sdssplitlen_def)
next
  case False
  obtain start tokens where r: "split_loop junk s sep 0 0 [] = (start, tokens)" by force
  have "start \<le> length s \<and> list_all sds_ok tokens \<and> join sep (map sds_str tokens @ [drop start s]) = s"
    using split_loop_ok [of 0 0 s sep "[]" s junk] False by (simp add: r)
  moreover have "sds_ok (sdsnewlen junk (Some (drop start s)) (length s - start)) \<and>
      sds_str (sdsnewlen junk (Some (drop start s)) (length s - start)) = drop start s"
    using sdsnewlen_ok [of "length s - start" "drop start s" junk] by simp
  ultimately show ?thesis using False by (auto simp: sdssplitlen_def r Suc_le_eq)
qed

theorem sdssplitlen_join_witness:
  "\<exists>tokens. sdssplitlen (\<lambda>_. 0) (map chr ''a--b'') (map chr ''--'') = Some tokens \<and>
     join (map chr ''--'') (map sds_str tokens) = map chr ''a--b''"
  using sdssplitlen_join [of "map chr ''--''" "\<lambda>_. 0" "map chr ''a--b''"] by auto

end
