(* ===== verification/Sds_Args.thy ===== *)
theory Sds_Args
  imports Sds
begin

text \<open>
  The quoting functions of \<^verbatim>\<open>debug/redis/src/sds.c\<close>: \<open>sdscatrepr\<close> prints a byte string
  in quotes with escapes, \<open>sdssplitargs\<close> parses a line of such arguments. A C string is its
  list of bytes before the terminating zero, so \<^verbatim>\<open>*p\<close> is zero exactly when the list is
  empty. \<open>None\<close> is the NULL result of \<^verbatim>\<open>goto err\<close>. \<^verbatim>\<open>isprint\<close> and
  \<^verbatim>\<open>isspace\<close> are those of the C locale.
\<close>

abbreviation BSL :: byte where "BSL \<equiv> 92"
abbreviation QUOT :: byte where "QUOT \<equiv> 34"
abbreviation SQUOT :: byte where "SQUOT \<equiv> 39"

definition isprint :: "byte \<Rightarrow> bool" where
  "isprint c \<longleftrightarrow> 32 \<le> c \<and> c \<le> 126"

definition isspace :: "byte \<Rightarrow> bool" where
  "isspace c \<longleftrightarrow> c = 32 \<or> (9 \<le> c \<and> c \<le> 13)"

definition hex_char :: "nat \<Rightarrow> byte" where
  "hex_char d = (if d < 10 then of_nat (48 + d) else of_nat (87 + d))"

text \<open>The bytes the \<^verbatim>\<open>switch\<close> of \<open>sdscatrepr\<close> appends for one input byte.\<close>

definition repr_char :: "byte \<Rightarrow> bytes" where
  "repr_char c =
     (if c = BSL \<or> c = QUOT then [BSL, c]
      else if c = 10 then [BSL, 110]
      else if c = 13 then [BSL, 114]
      else if c = 9 then [BSL, 116]
      else if c = 7 then [BSL, 97]
      else if c = 8 then [BSL, 98]
      else if isprint c then [c]
      else [BSL, 120, hex_char (unat c div 16), hex_char (unat c mod 16)])"

definition catstr :: "(nat \<Rightarrow> byte) \<Rightarrow> sdshdr \<Rightarrow> bytes \<Rightarrow> sdshdr" where
  "catstr junk s t = sdscatlen junk s t (length t)"

fun catrepr_loop :: "(nat \<Rightarrow> byte) \<Rightarrow> sdshdr \<Rightarrow> bytes \<Rightarrow> sdshdr" where
  "catrepr_loop junk s [] = s"
| "catrepr_loop junk s (c # p) = catrepr_loop junk (catstr junk s (repr_char c)) p"

definition sdscatrepr :: "(nat \<Rightarrow> byte) \<Rightarrow> sdshdr \<Rightarrow> bytes \<Rightarrow> sdshdr" where
  "sdscatrepr junk s p =
     catstr junk (catrepr_loop junk (catstr junk s [QUOT]) p) [QUOT]"

definition is_hex_digit :: "byte \<Rightarrow> bool" where
  "is_hex_digit c \<longleftrightarrow> (48 \<le> c \<and> c \<le> 57) \<or> (97 \<le> c \<and> c \<le> 102) \<or> (65 \<le> c \<and> c \<le> 70)"

definition hex_digit_to_int :: "byte \<Rightarrow> nat" where
  "hex_digit_to_int c =
     (if 48 \<le> c \<and> c \<le> 57 then unat c - 48
      else if 97 \<le> c \<and> c \<le> 102 then unat c - 87
      else if 65 \<le> c \<and> c \<le> 70 then unat c - 55
      else 0)"

text \<open>\<^verbatim>\<open>*(p+i)\<close>: a read at the terminating zero gives zero.\<close>

definition peek :: "bytes \<Rightarrow> nat \<Rightarrow> byte" where
  "peek p i = (if i < length p then p ! i else 0)"

definition unescape :: "byte \<Rightarrow> byte" where
  "unescape c =
     (if c = 110 then 10 else if c = 114 then 13 else if c = 116 then 9
      else if c = 98 then 8 else if c = 97 then 7 else c)"

text \<open>The \<^verbatim>\<open>while(!done)\<close> loop: the finished token and the rest of the line.\<close>

function get_token ::
    "(nat \<Rightarrow> byte) \<Rightarrow> bool \<Rightarrow> bool \<Rightarrow> sdshdr \<Rightarrow> bytes \<Rightarrow> (sdshdr \<times> bytes) option" where
  "get_token junk inq insq cur p =
     (if inq then
        (case p of
           [] \<Rightarrow> None
         | c # q \<Rightarrow>
             if c = BSL \<and> peek q 0 = 120 \<and> is_hex_digit (peek q 1) \<and> is_hex_digit (peek q 2) then
               let b = of_nat (hex_digit_to_int (peek q 1) * 16 + hex_digit_to_int (peek q 2))
               in get_token junk inq insq (catstr junk cur [b]) (drop 3 q)
             else if c = BSL \<and> q \<noteq> [] then
               get_token junk inq insq (catstr junk cur [unescape (hd q)]) (tl q)
             else if c = QUOT then
               (if q \<noteq> [] \<and> \<not> isspace (hd q) then None else Some (cur, q))
             else get_token junk inq insq (catstr junk cur [c]) q)
      else if insq then
        (case p of
           [] \<Rightarrow> None
         | c # q \<Rightarrow>
             if c = BSL \<and> peek q 0 = SQUOT then
               get_token junk inq insq (catstr junk cur [SQUOT]) (tl q)
             else if c = SQUOT then
               (if q \<noteq> [] \<and> \<not> isspace (hd q) then None else Some (cur, q))
             else get_token junk inq insq (catstr junk cur [c]) q)
      else
        (case p of
           [] \<Rightarrow> Some (cur, [])
         | c # q \<Rightarrow>
             if c = 32 \<or> c = 10 \<or> c = 13 \<or> c = 9 then Some (cur, q)
             else if c = QUOT then get_token junk True insq cur q
             else if c = SQUOT then get_token junk inq True cur q
             else get_token junk inq insq (catstr junk cur [c]) q))"
  by pat_completeness auto
termination
  by (relation "measure (\<lambda>(junk, inq, insq, cur, p). length p)") auto

declare get_token.simps [simp del]

lemma get_token_Nil: "get_token junk i j k [] = Some (cur', r) \<Longrightarrow> r = []"
  by (subst (asm) get_token.simps) (simp split: if_splits)

lemma get_token_shrinks:
  "get_token junk inq insq cur p = Some (cur', r) \<Longrightarrow> length r \<le> length p \<and> (p \<noteq> [] \<longrightarrow> length r < length p)"
proof (induction "length p" arbitrary: inq insq cur p rule: less_induct)
  case less
  have IH: "length r < length p"
    if "get_token junk inq insq cur p' = Some (cur', r)" "length p' < length p" for inq insq cur p'
    using less(1) [OF that(2,1)] that(2) by simp
  show ?case
  proof (cases p)
    case Nil
    then show ?thesis using less(2) by (subst (asm) get_token.simps) (simp split: if_splits)
  next
    case (Cons c q)
    have i: "get_token junk i j k (drop 3 q) = Some (cur', r) \<Longrightarrow> length r < Suc (length q)"
      "get_token junk i j k (tl q) = Some (cur', r) \<Longrightarrow> length r < Suc (length q)"
      "get_token junk i j k q = Some (cur', r) \<Longrightarrow> length r < Suc (length q)" for i j k
      using IH [of i j k "drop 3 q"] IH [of i j k "tl q"] IH [of i j k q] Cons by auto
    have "length r < length p"
      using less(2) unfolding Cons
      by (subst (asm) get_token.simps) (auto simp: Let_def dest: i get_token_Nil split: if_splits)
    then show ?thesis by simp
  qed
qed

function splitargs_loop :: "(nat \<Rightarrow> byte) \<Rightarrow> sdshdr list \<Rightarrow> bytes \<Rightarrow> sdshdr list option" where
  "splitargs_loop junk vector p =
     (case dropWhile isspace p of
        [] \<Rightarrow> Some vector
      | c # q \<Rightarrow>
          (case get_token junk False False (sdsempty junk) (c # q) of
             None \<Rightarrow> None
           | Some (cur, r) \<Rightarrow> splitargs_loop junk (vector @ [cur]) r))"
  by pat_completeness auto
termination
proof (relation "measure (\<lambda>(junk, vector, p). length p)", goal_cases)
  case (2 junk vector p c q tok cur r)
  then have "length r < length (c # q)" using get_token_shrinks by blast
  also have "\<dots> \<le> length p" using 2(1) length_dropWhile_le [of isspace p] by simp
  finally show ?case by simp
qed simp

declare splitargs_loop.simps [simp del]

definition sdssplitargs :: "(nat \<Rightarrow> byte) \<Rightarrow> bytes \<Rightarrow> sdshdr list option" where
  "sdssplitargs junk line = splitargs_loop junk [] (takeWhile (\<lambda>c. c \<noteq> 0) line)"

section \<open>Printing and parsing\<close>

lemma catstr_ok: "sds_ok s \<Longrightarrow> sds_ok (catstr junk s t) \<and> sds_str (catstr junk s t) = sds_str s @ t"
  unfolding catstr_def using sdsbuf.app_ok sdsbuf.app_str by blast

lemma catrepr_loop_ok:
  "sds_ok s \<Longrightarrow> sds_ok (catrepr_loop junk s p) \<and>
   sds_str (catrepr_loop junk s p) = sds_str s @ concat (map repr_char p)"
  by (induction p arbitrary: s) (simp_all add: catstr_ok)

lemma sdscatrepr_ok:
  "sds_ok s \<Longrightarrow> sds_ok (sdscatrepr junk s p) \<and>
   sds_str (sdscatrepr junk s p) = sds_str s @ QUOT # concat (map repr_char p) @ [QUOT]"
  by (simp add: sdscatrepr_def catstr_ok catrepr_loop_ok)

lemma hex_char_all:
  "\<forall>d \<in> set [0..<16]. is_hex_digit (hex_char d) \<and> hex_digit_to_int (hex_char d) = d \<and> hex_char d \<noteq> 0"
  by code_simp

lemma hex_char_digit:
  "d < 16 \<Longrightarrow> is_hex_digit (hex_char d) \<and> hex_digit_to_int (hex_char d) = d"
  "d < 16 \<Longrightarrow> hex_char d \<noteq> 0"
  using hex_char_all by auto

lemma hex_byte: "of_nat (hex_digit_to_int (hex_char (unat c div 16)) * 16
    + hex_digit_to_int (hex_char (unat c mod 16))) = (c :: byte)"
proof -
  have "unat c div 16 < 16" using unat_byte_less [of c] by simp
  then show ?thesis by (simp add: hex_char_digit)
qed

lemma get_token_repr_char:
  "get_token junk True False cur (repr_char c @ r) = get_token junk True False (catstr junk cur [c]) r"
proof -
  have d: "unat c div 16 < 16" "unat c mod 16 < 16" using unat_byte_less [of c] by simp_all
  show ?thesis
    by (subst get_token.simps)
       (simp add: repr_char_def peek_def unescape_def isprint_def hex_char_digit(1) [OF d(1)]
        hex_char_digit(1) [OF d(2)] hex_byte [of c] split: if_splits)
qed

lemma get_token_repr:
  "sds_ok cur \<Longrightarrow> \<exists>t. get_token junk True False cur (concat (map repr_char p) @ [QUOT]) = Some (t, []) \<and>
     sds_ok t \<and> sds_str t = sds_str cur @ p"
proof (induction p arbitrary: cur)
  case Nil
  then show ?case by (subst get_token.simps) (simp add: peek_def)
next
  case (Cons c p)
  have "sds_ok (catstr junk cur [c])" "sds_str (catstr junk cur [c]) = sds_str cur @ [c]"
    using catstr_ok [OF Cons.prems] by auto
  with Cons.IH [of "catstr junk cur [c]"] show ?case by (auto simp: get_token_repr_char)
qed

lemma repr_no_zero: "0 \<notin> set (repr_char c)"
  using hex_char_digit(2) [of "unat c div 16"] hex_char_digit(2) [of "unat c mod 16"] unat_byte_less [of c]
  by (auto simp: repr_char_def isprint_def)


end
