(* ===== verification/Lzf.thy ===== *)
theory Lzf
  imports Util "HOL-Library.Monad_Syntax"
begin

text \<open>
  The LZF compression of \<^verbatim>\<open>debug/redis/src/lzf_c.c\<close> and \<^verbatim>\<open>lzf_d.c\<close>, in the
  configuration of \<^verbatim>\<open>lzfP.h\<close> (a hash table of \<open>2 ^ 16\<close> entries,
  \<^verbatim>\<open>VERY_FAST\<close>, checked input, no initialisation of the table). Pointers into the input
  and the output are indices; the hash table holds pointers relative to the input, and since it is
  not initialised its first contents are a parameter. \<open>None\<close> stands for an access outside of a
  buffer; the result 0 is the failure that the code reports.
\<close>

definition MAX_LIT :: nat where "MAX_LIT = 32"
definition MAX_OFF :: int where "MAX_OFF = 8192"
definition MAX_REF :: nat where "MAX_REF = 264"

definition rd :: "bytes \<Rightarrow> nat \<Rightarrow> byte option" where
  "rd b i = (if i < length b then Some (b ! i) else None)"

definition wr :: "bytes \<Rightarrow> nat \<Rightarrow> byte \<Rightarrow> bytes option" where
  "wr b i v = (if i < length b then Some (b[i := v]) else None)"

section \<open>Compression\<close>

definition FRST :: "bytes \<Rightarrow> nat \<Rightarrow> 32 word option" where
  "FRST inp p = do { a \<leftarrow> rd inp p; b \<leftarrow> rd inp (p + 1); Some (push_bit 8 (ucast a) OR ucast b) }"

definition NEXT :: "32 word \<Rightarrow> bytes \<Rightarrow> nat \<Rightarrow> 32 word option" where
  "NEXT v inp p = do { c \<leftarrow> rd inp (p + 2); Some (push_bit 8 v OR ucast c) }"

definition IDX :: "32 word \<Rightarrow> nat" where
  "IDX h = unat ((drop_bit 8 h - h * 5) AND 0xFFFF)"

text \<open>
  The length of a match of which three bytes are known: sixteen steps without a test of the length
  when there are enough bytes, then one by one. \<open>Inl\<close> is the \<^verbatim>\<open>break\<close> at a mismatch.
\<close>

fun unrolled :: "bytes \<Rightarrow> nat \<Rightarrow> nat \<Rightarrow> nat \<Rightarrow> nat \<Rightarrow> (nat + nat) option" where
  "unrolled inp ref ip 0 len = Some (Inr len)"
| "unrolled inp ref ip (Suc k) len =
     do { a \<leftarrow> rd inp (ref + (len + 1));
          b \<leftarrow> rd inp (ip + (len + 1));
          if a \<noteq> b then Some (Inl (len + 1)) else unrolled inp ref ip k (len + 1) }"

function match_loop :: "bytes \<Rightarrow> nat \<Rightarrow> nat \<Rightarrow> nat \<Rightarrow> nat \<Rightarrow> nat option" where
  "match_loop inp ref ip maxlen len =
     (let len = len + 1 in
      if len < maxlen then
        do { a \<leftarrow> rd inp (ref + len);
             b \<leftarrow> rd inp (ip + len);
             if a = b then match_loop inp ref ip maxlen len else Some len }
      else Some len)"
  by pat_completeness auto
termination
  by (relation "measure (\<lambda>(_, _, _, maxlen, len). maxlen - len)") auto

declare match_loop.simps [simp del]

definition match_len :: "bytes \<Rightarrow> nat \<Rightarrow> nat \<Rightarrow> nat option" where
  "match_len inp ref ip =
     (let maxlen = min MAX_REF (length inp - ip - 2) in
      do { r \<leftarrow> (if maxlen > 16 then unrolled inp ref ip 16 2 else Some (Inr 2));
           case r of Inl len \<Rightarrow> Some len | Inr len \<Rightarrow> match_loop inp ref ip maxlen len })"

record lz =
  ip :: nat
  op :: nat
  lit :: nat
  outb :: bytes
  htab :: "nat \<Rightarrow> int"
  hval :: "32 word"

text \<open>\<^verbatim>\<open>op [- lit - 1] = lit - 1\<close> ends a run; a run of length zero is undone by the second line.\<close>

definition stop_run :: "lz \<Rightarrow> lz option" where
  "stop_run s = do { b \<leftarrow> wr (outb s) (op s - lit s - 1) (of_int (int (lit s) - 1)); Some (s\<lparr>outb := b\<rparr>) }"

definition undo_run :: "lz \<Rightarrow> lz" where
  "undo_run s = (if lit s = 0 then s\<lparr>op := op s - 1\<rparr> else s)"

definition put :: "byte \<Rightarrow> lz \<Rightarrow> lz option" where
  "put v s = do { b \<leftarrow> wr (outb s) (op s) v; Some (s\<lparr>outb := b, op := op s + 1\<rparr>) }"

definition start_run :: "lz \<Rightarrow> lz" where
  "start_run s = s\<lparr>lit := 0, op := op s + 1\<rparr>"

text \<open>One literal byte; a run that is full is ended.\<close>

definition literal :: "bytes \<Rightarrow> lz \<Rightarrow> lz option" where
  "literal inp s =
     do { c \<leftarrow> rd inp (ip s);
          s \<leftarrow> put c (s\<lparr>lit := lit s + 1\<rparr>);
          let s = s\<lparr>ip := ip s + 1\<rparr>;
          if lit s = MAX_LIT then map_option start_run (stop_run s) else Some s }"

definition hash_here :: "bytes \<Rightarrow> lz \<Rightarrow> lz option" where
  "hash_here inp s =
     do { h \<leftarrow> NEXT (hval s) inp (ip s);
          Some (s\<lparr>hval := h, htab := (htab s)(IDX h := int (ip s)), ip := ip s + 1\<rparr>) }"

text \<open>The test for a match: the pointer difference is unsigned, and garbage fails one of the tests.\<close>

definition offset :: "nat \<Rightarrow> int \<Rightarrow> int" where
  "offset p ref = (int p - ref - 1) mod 2 ^ 64"

definition is_match :: "bytes \<Rightarrow> nat \<Rightarrow> int \<Rightarrow> bool option" where
  "is_match inp p ref =
     (if offset p ref < MAX_OFF \<and> p + 4 < length inp \<and> ref > 0 then
        do { a0 \<leftarrow> rd inp (nat ref); b0 \<leftarrow> rd inp p;
             a1 \<leftarrow> rd inp (nat ref + 1); b1 \<leftarrow> rd inp (p + 1);
             if a0 = b0 \<and> a1 = b1 then
               do { a2 \<leftarrow> rd inp (nat ref + 2); b2 \<leftarrow> rd inp (p + 2); Some (a2 = b2) }
             else Some False }
      else Some False)"

text \<open>The back reference: \<open>Inl\<close> is the return of 0.\<close>

definition emit_ref :: "nat \<Rightarrow> nat \<Rightarrow> lz \<Rightarrow> lz option" where
  "emit_ref off len s =
     do { s \<leftarrow> (if len < 7 then put (of_nat (off div 256 + len * 32)) s
               else do { s \<leftarrow> put (of_nat (off div 256 + 7 * 32)) s; put (of_nat (len - 7)) s });
          s \<leftarrow> put (of_nat off) s;
          Some (start_run s) }"

datatype 'a outcome = Fail bytes | Go 'a

definition back_ref :: "bytes \<Rightarrow> nat \<Rightarrow> nat \<Rightarrow> lz \<Rightarrow> lz outcome option" where
  "back_ref inp out_len ref s =
     do { s \<leftarrow> stop_run s;
          let s = undo_run s;
          if op s + 3 + 1 \<ge> out_len then Some (Fail (outb s))
          else
            do { len \<leftarrow> match_len inp ref (ip s);
                 s \<leftarrow> emit_ref (nat (offset (ip s) (int ref))) (len - 2) s;
                 Some (Go (s\<lparr>ip := ip s + len\<rparr>)) } }"

text \<open>The table is updated for the last two positions of the match.\<close>

definition rehash :: "bytes \<Rightarrow> lz \<Rightarrow> lz option" where
  "rehash inp s =
     do { let s = s\<lparr>ip := ip s - 2\<rparr>;
          h \<leftarrow> FRST inp (ip s);
          s \<leftarrow> hash_here inp (s\<lparr>hval := h\<rparr>);
          hash_here inp s }"

definition step :: "bytes \<Rightarrow> nat \<Rightarrow> lz \<Rightarrow> (bool \<times> lz) outcome option" where
  "step inp out_len s =
     do { h \<leftarrow> NEXT (hval s) inp (ip s);
          let ref = htab s (IDX h);
          let s = s\<lparr>hval := h, htab := (htab s)(IDX h := int (ip s))\<rparr>;
          m \<leftarrow> is_match inp (ip s) ref;
          if m then
            do { r \<leftarrow> back_ref inp out_len (nat ref) s;
                 case r of
                   Fail b \<Rightarrow> Some (Fail b)
                 | Go s \<Rightarrow>
                     if ip s + 2 \<ge> length inp then Some (Go (True, s))
                     else map_option (\<lambda>s. Go (False, s)) (rehash inp s) }
          else if op s \<ge> out_len then Some (Fail (outb s))
          else map_option (\<lambda>s. Go (False, s)) (literal inp s) }"

lemma unrolled_ge: "unrolled inp ref p k len = Some r \<Longrightarrow> (case r of Inl l \<Rightarrow> len < l | Inr l \<Rightarrow> l = len + k)"
proof (induction k arbitrary: len)
  case (Suc k)
  then show ?case
    by (fastforce split: Option.bind_splits if_splits sum.splits)
qed auto

lemma match_loop_ge: "match_loop inp ref p maxlen len = Some l \<Longrightarrow> len < l"
proof (induction inp ref p maxlen len rule: match_loop.induct)
  case (1 inp ref p maxlen len)
  from 1(2) show ?case
    by (subst (asm) match_loop.simps)
       (auto simp: Let_def dest!: 1(1) [OF refl, simplified, rotated -1] split: if_splits Option.bind_splits)
qed

lemma match_len_ge: "match_len inp ref p = Some l \<Longrightarrow> 3 \<le> l"
  by (auto simp: match_len_def Let_def split: Option.bind_splits if_splits sum.splits
      dest!: unrolled_ge match_loop_ge)

lemma put_ip [simp]: "put v s = Some s' \<Longrightarrow> ip s' = ip s"
  by (auto simp: put_def split: Option.bind_splits)

lemma literal_ip: "literal inp s = Some s' \<Longrightarrow> ip s' = ip s + 1"
  by (auto simp: literal_def Let_def stop_run_def start_run_def split: Option.bind_splits if_splits dest!: put_ip)

lemma emit_ref_ip: "emit_ref off len s = Some s' \<Longrightarrow> ip s' = ip s"
  by (auto simp: emit_ref_def start_run_def split: Option.bind_splits if_splits dest!: put_ip)

lemma back_ref_ip: "back_ref inp out_len ref s = Some (Go s') \<Longrightarrow> ip s + 3 \<le> ip s'"
  by (auto simp: back_ref_def Let_def undo_run_def stop_run_def split: Option.bind_splits if_splits
      dest!: emit_ref_ip match_len_ge)

lemma rehash_ip: "rehash inp s = Some s' \<Longrightarrow> 2 \<le> ip s \<Longrightarrow> ip s' = ip s"
  by (auto simp: rehash_def hash_here_def Let_def split: Option.bind_splits)

lemma step_ip: "step inp out_len s = Some (Go (b, s')) \<Longrightarrow> ip s < ip s'"
  by (auto simp: step_def Let_def split: Option.bind_splits if_splits outcome.splits
      dest!: literal_ip back_ref_ip rehash_ip)

text \<open>The main loop, the loop over the last bytes, and the compressor.\<close>

function lzf_loop :: "bytes \<Rightarrow> nat \<Rightarrow> lz \<Rightarrow> lz outcome option" where
  "lzf_loop inp out_len s =
     (if ip s + 2 < length inp then
        do { r \<leftarrow> step inp out_len s;
             case r of
               Fail b \<Rightarrow> Some (Fail b)
             | Go (fin, s) \<Rightarrow> if fin then Some (Go s) else lzf_loop inp out_len s }
      else Some (Go s))"
  by pat_completeness auto
termination
  by (relation "measure (\<lambda>(inp, _, s). length inp - ip s)") (auto dest: step_ip)

declare lzf_loop.simps [simp del]

function tail_loop :: "bytes \<Rightarrow> lz \<Rightarrow> lz option" where
  "tail_loop inp s =
     (if ip s < length inp then do { s \<leftarrow> literal inp s; tail_loop inp s } else Some s)"
  by pat_completeness auto
termination
  by (relation "measure (\<lambda>(inp, s). length inp - ip s)") (auto dest: literal_ip)

declare tail_loop.simps [simp del]

definition lzf_compress :: "(nat \<Rightarrow> int) \<Rightarrow> bytes \<Rightarrow> bytes \<Rightarrow> nat \<Rightarrow> (nat \<times> bytes) option" where
  "lzf_compress tab inp out out_len =
     (if length inp = 0 \<or> out_len = 0 then Some (0, out)
      else
        do { h \<leftarrow> FRST inp 0;
             r \<leftarrow> lzf_loop inp out_len \<lparr>ip = 0, op = 1, lit = 0, outb = out, htab = tab, hval = h\<rparr>;
             case r of
               Fail b \<Rightarrow> Some (0, b)
             | Go s \<Rightarrow>
                 if op s + 3 > out_len then Some (0, outb s)
                 else
                   do { s \<leftarrow> tail_loop inp s;
                        s \<leftarrow> stop_run s;
                        let s = undo_run s;
                        Some (op s, outb s) } })"

section \<open>Decompression\<close>

fun copy_in :: "bytes \<Rightarrow> nat \<Rightarrow> bytes \<Rightarrow> nat \<Rightarrow> nat \<Rightarrow> bytes option" where
  "copy_in inp i out p 0 = Some out"
| "copy_in inp i out p (Suc k) =
     do { c \<leftarrow> rd inp i; out \<leftarrow> wr out p c; copy_in inp (i + 1) out (p + 1) k }"

fun copy_back :: "bytes \<Rightarrow> nat \<Rightarrow> nat \<Rightarrow> nat \<Rightarrow> bytes option" where
  "copy_back out ref p 0 = Some out"
| "copy_back out ref p (Suc k) =
     do { c \<leftarrow> rd out ref; out \<leftarrow> wr out p c; copy_back out (ref + 1) (p + 1) k }"

text \<open>The length and the offset of a back reference; \<open>Some None\<close> is the return of 0 on truncated input.\<close>

definition read_ref :: "bytes \<Rightarrow> nat \<Rightarrow> nat \<Rightarrow> (nat \<times> nat \<times> nat) option option" where
  "read_ref inp i ctrl =
     (let len = ctrl div 32; off = ctrl mod 32 * 256 in
      if i \<ge> length inp then Some None
      else if len = 7 then
        do { b \<leftarrow> rd inp i;
             if i + 1 \<ge> length inp then Some None
             else do { c \<leftarrow> rd inp (i + 1); Some (Some (len + unat b, off + unat c, i + 2)) } }
      else do { c \<leftarrow> rd inp i; Some (Some (len, off + unat c, i + 1)) })"

lemma read_ref_gt: "read_ref inp i ctrl = Some (Some (len, off, j)) \<Longrightarrow> i < j"
  by (auto simp: read_ref_def Let_def split: if_splits Option.bind_splits)

function lzf_dloop :: "bytes \<Rightarrow> nat \<Rightarrow> nat \<Rightarrow> bytes \<Rightarrow> nat \<Rightarrow> (nat \<times> bytes) option" where
  "lzf_dloop inp out_len i out p =
     do { c \<leftarrow> rd inp i;
          let i = i + 1;
          if unat c < 32 then
            (let ctrl = unat c + 1 in
             if p + ctrl > out_len then Some (0, out)
             else if i + ctrl > length inp then Some (0, out)
             else
               do { out \<leftarrow> copy_in inp i out p ctrl;
                    if i + ctrl < length inp then lzf_dloop inp out_len (i + ctrl) out (p + ctrl)
                    else Some (p + ctrl, out) })
          else
            do { r \<leftarrow> read_ref inp i (unat c);
                 case r of
                   None \<Rightarrow> Some (0, out)
                 | Some (len, off, j) \<Rightarrow>
                     if p + len + 2 > out_len then Some (0, out)
                     else if p < off + 1 then Some (0, out)
                     else
                       do { out \<leftarrow> copy_back out (p - off - 1) p (len + 2);
                            if j < length inp then lzf_dloop inp out_len j out (p + len + 2)
                            else Some (p + len + 2, out) } } }"
  by pat_completeness auto
termination
  by (relation "measure (\<lambda>(inp, _, i, _, _). length inp - i)") (auto simp: rd_def split: if_splits dest: read_ref_gt)

declare lzf_dloop.simps [simp del]

definition lzf_decompress :: "bytes \<Rightarrow> bytes \<Rightarrow> nat \<Rightarrow> (nat \<times> bytes) option" where
  "lzf_decompress inp out out_len = lzf_dloop inp out_len 0 out 0"

section \<open>The format\<close>

text \<open>
  A compressed string is a sequence of runs and of references to the text before; \<open>backcopy d off k\<close>
  appends \<open>k\<close> bytes, each copied from \<open>off + 1\<close> bytes before the end at that moment.
\<close>

fun backcopy :: "bytes \<Rightarrow> nat \<Rightarrow> nat \<Rightarrow> bytes" where
  "backcopy d off 0 = d"
| "backcopy d off (Suc k) = backcopy (d @ [d ! (length d - off - 1)]) off k"

definition ref_bytes :: "nat \<Rightarrow> nat \<Rightarrow> bytes" where
  "ref_bytes off len =
     (if len < 7 then [of_nat (off div 256 + len * 32), of_nat off]
      else [of_nat (off div 256 + 7 * 32), of_nat (len - 7), of_nat off])"

inductive encodes :: "bytes \<Rightarrow> bytes \<Rightarrow> bool" where
  encodes_nil: "encodes [] []"
| encodes_run: "encodes c d \<Longrightarrow> 1 \<le> length l \<Longrightarrow> length l \<le> 32 \<Longrightarrow> encodes (c @ of_nat (length l - 1) # l) (d @ l)"
| encodes_ref: "encodes c d \<Longrightarrow> off < length d \<Longrightarrow> off < 8192 \<Longrightarrow> 1 \<le> len \<Longrightarrow> len \<le> 262 \<Longrightarrow>
    encodes (c @ ref_bytes off len) (backcopy d off (len + 2))"

lemma length_backcopy [simp]: "length (backcopy d off k) = length d + k"
  by (induction k arbitrary: d) auto

lemma backcopy_take:
  assumes "p + k \<le> length inp" "off < p" "\<And>j. j < k \<Longrightarrow> inp ! (p - off - 1 + j) = inp ! (p + j)"
  shows "backcopy (take p inp) off k = take (p + k) inp"
  using assms
proof (induction k arbitrary: p)
  case (Suc k)
  have "take p inp @ [take p inp ! (p - off - 1)] = take (Suc p) inp"
    using Suc.prems(1,2) Suc.prems(3) [of 0] by (simp add: take_Suc_conv_app_nth)
  moreover have "backcopy (take (Suc p) inp) off k = take (Suc p + k) inp"
  proof (rule Suc.IH)
    fix j assume "j < k"
    moreover have "p - off - 1 + Suc j = Suc p - off - 1 + j" "p + Suc j = Suc p + j"
      using Suc.prems(2) by simp_all
    ultimately show "inp ! (Suc p - off - 1 + j) = inp ! (Suc p + j)"
      using Suc.prems(3) [of "Suc j"] by (metis Suc_mono)
  qed (use Suc.prems in simp_all)
  ultimately show ?case using Suc.prems(1) by (simp add: min_def)
qed simp

lemma encodes_empty: "encodes c d \<Longrightarrow> c = [] \<Longrightarrow> d = []"
  by (induction rule: encodes.induct) (auto simp: ref_bytes_def split: if_splits)

section \<open>The decompressor reads the format\<close>

lemma rd_some [simp]: "i < length b \<Longrightarrow> rd b i = Some (b ! i)"
  by (simp add: rd_def)

lemma wr_some [simp]: "i < length b \<Longrightarrow> wr b i v = Some (b[i := v])"
  by (simp add: wr_def)

lemma copy_in_eq:
  assumes "i + k \<le> length inp" "p + k \<le> length out"
  shows "copy_in inp i out p k = Some (mem_write out p (mem_read inp i k))"
  using assms
proof (induction k arbitrary: i out p)
  case 0
  then show ?case by (simp add: mem_write_def mem_read_def)
next
  case (Suc k)
  have "mem_write (out[p := inp ! i]) (p + 1) (mem_read inp (i + 1) k) = mem_write out p (mem_read inp i (Suc k))"
    using Suc.prems
    by (intro nth_equalityI)
       (auto simp: mem_simps nth_mem_write nth_mem_read nth_list_update less_Suc_eq_le mem_read_def not_less_eq_eq
         intro!: arg_cong [of _ _ "(!) inp"] split: if_splits)
  with Suc show ?case by simp
qed

lemma copy_back_eq:
  assumes "ref < p" "p + k \<le> length out"
  shows "\<exists>out'. copy_back out ref p k = Some out' \<and> length out' = length out \<and>
    take (p + k) out' = backcopy (take p out) (p - ref - 1) k"
  using assms
proof (induction k arbitrary: ref p out)
  case (Suc k)
  let ?out = "out[p := out ! ref]"
  obtain out' where out': "copy_back ?out (ref + 1) (p + 1) k = Some out'" "length out' = length out"
    "take (p + 1 + k) out' = backcopy (take (p + 1) ?out) (p + 1 - (ref + 1) - 1) k"
    using Suc.IH [of "ref + 1" "p + 1" ?out] Suc.prems by auto
  have "take (p + 1) ?out = take p out @ [take p out ! (p - (p - ref - 1) - 1)]"
    using Suc.prems by (simp add: take_Suc_conv_app_nth)
  with out' Suc.prems show ?case by (simp add: min_def)
qed simp

definition cont :: "bytes \<Rightarrow> nat \<Rightarrow> nat \<Rightarrow> bytes \<Rightarrow> nat \<Rightarrow> (nat \<times> bytes) option" where
  "cont inp out_len i out p = (if i < length inp then lzf_dloop inp out_len i out p else Some (p, out))"

lemma unat_of_nat_byte: "n < 256 \<Longrightarrow> unat (of_nat n :: byte) = n"
  by (simp add: unat_of_nat)

lemma dloop_run:
  assumes "inp = c @ of_nat (length l - 1) # l @ rest" "1 \<le> length l" "length l \<le> 32"
    and "p + length l \<le> out_len" "out_len \<le> length out"
  shows "lzf_dloop inp out_len (length c) out p = cont inp out_len (length c + 1 + length l) (mem_write out p l) (p + length l)"
proof -
  obtain k where k: "length l = Suc k" using assms(2) by (cases "length l") auto
  have "unat (of_nat k :: byte) = k" using assms(3) k by (intro unat_of_nat_byte) simp
  moreover have "inp ! length c = of_nat k" "mem_read inp (Suc (length c)) (Suc k) = l"
    using assms(1) k by (simp_all add: mem_read_def)
  ultimately show ?thesis
    using assms k copy_in_eq [of "Suc (length c)" "Suc k" inp p out]
    by (subst lzf_dloop.simps) (simp add: cont_def Let_def del: copy_in.simps)
qed

lemma read_ref_bytes:
  assumes "inp = c @ ref_bytes off len @ rest" "off < 8192" "1 \<le> len" "len \<le> 262"
  shows "length c < length inp \<and> 32 \<le> unat (inp ! length c) \<and>
    read_ref inp (length c + 1) (unat (inp ! length c)) = Some (Some (len, off, length c + length (ref_bytes off len)))"
proof -
  have off: "off div 256 < 32" "off div 256 * 256 + unat (of_nat off :: byte) = off"
    using assms(2) by (auto simp: unat_of_nat)
  show ?thesis
  proof (cases "len < 7")
    case True
    have "unat (of_nat (off div 256 + len * 32) :: byte) = off div 256 + len * 32"
      using off(1) True by (intro unat_of_nat_byte) simp
    then show ?thesis
      using assms True off by (simp add: ref_bytes_def read_ref_def Let_def nth_append del: of_nat_add of_nat_mult)
  next
    case False
    have "unat (of_nat (off div 256 + 7 * 32) :: byte) = off div 256 + 7 * 32" "unat (of_nat (len - 7) :: byte) = len - 7"
      using off(1) assms(4) by (intro unat_of_nat_byte; simp)+
    moreover have "(x + 7 * 32) div 32 = 7 \<and> (x + 7 * 32) mod 32 = x" if "x < 32" for x :: nat
      using that mod_mult_self1 [of x 7 32] div_mult_self1 [of 32 x 7] by (simp add: mult.commute)
    note this [OF off(1)]
    ultimately show ?thesis
      using assms False off
      by (simp add: ref_bytes_def read_ref_def Let_def nth_append del: of_nat_add of_nat_mult of_nat_diff)
  qed
qed

lemma dloop_ref:
  assumes "inp = c @ ref_bytes off len @ rest" "off < 8192" "1 \<le> len" "len \<le> 262"
    and "p + len + 2 \<le> out_len" "out_len \<le> length out" "off < p"
  shows "\<exists>out'. length out' = length out \<and> take (p + (len + 2)) out' = backcopy (take p out) off (len + 2) \<and>
    lzf_dloop inp out_len (length c) out p
      = cont inp out_len (length c + length (ref_bytes off len)) out' (p + (len + 2))"
proof -
  obtain out' where out': "copy_back out (p - off - 1) p (len + 2) = Some out'" "length out' = length out"
    "take (p + (len + 2)) out' = backcopy (take p out) (p - (p - off - 1) - 1) (len + 2)"
    using copy_back_eq [of "p - off - 1" p "len + 2" out] assms by auto
  then show ?thesis
    using read_ref_bytes [OF assms(1-4)] assms(5-7)
    by (intro exI [of _ out'], subst lzf_dloop.simps)
       (auto simp: cont_def Let_def add.assoc simp del: copy_back.simps backcopy.simps)
qed

lemma mem_write_take: "p + length l \<le> length out \<Longrightarrow> take (p + length l) (mem_write out p l) = take p out @ l"
  by (simp add: mem_write_def)

lemma dloop_encodes:
  assumes "encodes c d" "length d \<le> out_len" "out_len \<le> length out" "c @ rest \<noteq> []"
  shows "\<exists>out'. length out' = length out \<and> take (length d) out' = d \<and>
    lzf_dloop (c @ rest) out_len 0 out 0 = cont (c @ rest) out_len (length c) out' (length d)"
  using assms
proof (induction arbitrary: rest rule: encodes.induct)
  case encodes_nil
  then show ?case by (auto simp: cont_def)
next
  case (encodes_run c d l)
  let ?tok = "of_nat (length l - 1) # l"
  obtain out1 where o1: "length out1 = length out" "take (length d) out1 = d"
    "lzf_dloop (c @ ?tok @ rest) out_len 0 out 0 = lzf_dloop (c @ ?tok @ rest) out_len (length c) out1 (length d)"
    using encodes_run.IH [of "?tok @ rest"] encodes_run.prems by (auto simp: cont_def)
  then show ?case
    using dloop_run [of _ c l rest "length d" out_len out1] encodes_run.hyps encodes_run.prems
      mem_write_take [of "length d" l out1] length_mem_write [of "length d" l out1]
    by (intro exI [of _ "mem_write out1 (length d) l"]) simp
next
  case (encodes_ref c d off len)
  let ?tok = "ref_bytes off len"
  have "?tok @ rest \<noteq> []" by (simp add: ref_bytes_def)
  then obtain out1 where o1: "length out1 = length out" "take (length d) out1 = d"
    "lzf_dloop (c @ ?tok @ rest) out_len 0 out 0 = lzf_dloop (c @ ?tok @ rest) out_len (length c) out1 (length d)"
    using encodes_ref.IH [of "?tok @ rest"] encodes_ref.prems by (auto simp: cont_def)
  then show ?case
    using dloop_ref [OF refl encodes_ref.hyps(3-5), of "length d" out_len out1 c rest] encodes_ref.hyps(2) encodes_ref.prems
    by (auto simp del: backcopy.simps)
qed

lemma decompress_encodes:
  assumes "encodes c d" "c \<noteq> []" "length d \<le> out_len" "out_len \<le> length out"
  shows "\<exists>out'. lzf_decompress c out out_len = Some (length d, out') \<and> take (length d) out' = d \<and> length out' = length out"
  using dloop_encodes [OF assms(1,3,4), of "[]"] assms(2) by (auto simp: lzf_decompress_def cont_def)

section \<open>The compressor writes the format\<close>

lemma unrolled_matches:
  assumes "ref < p" "p + len + k < length inp" "\<forall>j \<le> len. inp ! (ref + j) = inp ! (p + j)"
  shows "\<exists>r. unrolled inp ref p k len = Some r \<and>
    (case r of Inl l \<Rightarrow> l \<le> len + k \<and> (\<forall>j < l. inp ! (ref + j) = inp ! (p + j))
     | Inr l \<Rightarrow> l = len + k \<and> (\<forall>j \<le> l. inp ! (ref + j) = inp ! (p + j)))"
  using assms
proof (induction k arbitrary: len)
  case (Suc k)
  show ?case
  proof (cases "inp ! (ref + (len + 1)) = inp ! (p + (len + 1))")
    case True
    then have "\<forall>j \<le> len + 1. inp ! (ref + j) = inp ! (p + j)" using Suc.prems(3) by (auto simp: le_Suc_eq)
    from Suc.IH [OF Suc.prems(1) _ this] Suc.prems True show ?thesis by (auto split: sum.splits)
  next
    case False
    with Suc.prems show ?thesis by auto
  qed
qed auto

lemma match_loop_matches:
  assumes "ref < p" "p + maxlen \<le> length inp" "\<forall>j \<le> len. inp ! (ref + j) = inp ! (p + j)"
  shows "\<exists>l. match_loop inp ref p maxlen len = Some l \<and> l \<le> max (len + 1) maxlen \<and>
    (\<forall>j < l. inp ! (ref + j) = inp ! (p + j))"
  using assms
proof (induction inp ref p maxlen len rule: match_loop.induct)
  case (1 inp ref p maxlen len)
  have pre: "\<forall>j < len + 1. inp ! (ref + j) = inp ! (p + j)" using 1(4) by auto
  show ?case
  proof (cases "len + 1 < maxlen \<and> inp ! (ref + (len + 1)) = inp ! (p + (len + 1))")
    case True
    then have "\<forall>j \<le> len + 1. inp ! (ref + j) = inp ! (p + j)" using 1(4) by (auto simp: le_Suc_eq)
    with 1(1) [OF refl] 1(2,3) True obtain l where "match_loop inp ref p maxlen (len + 1) = Some l"
      "l \<le> max (len + 1 + 1) maxlen" "\<forall>j < l. inp ! (ref + j) = inp ! (p + j)" by force
    then show ?thesis using True 1(2,3) by (subst match_loop.simps) (auto simp: max_def split: if_splits)
  next
    case False
    then show ?thesis using pre 1(2,3) by (subst match_loop.simps) (auto simp: Let_def)
  qed
qed

lemma match_len_matches:
  assumes "ref < p" "p + 4 < length inp" "\<forall>j \<le> 2. inp ! (ref + j) = inp ! (p + j)"
  shows "\<exists>l. match_len inp ref p = Some l \<and> 3 \<le> l \<and> l \<le> MAX_REF \<and> p + l \<le> length inp \<and>
    (\<forall>j < l. inp ! (ref + j) = inp ! (p + j))"
proof -
  define maxlen where "maxlen = min MAX_REF (length inp - p - 2)"
  have m: "maxlen \<le> MAX_REF" "p + maxlen + 2 \<le> length inp" "3 \<le> maxlen"
    using assms(2) by (auto simp: maxlen_def MAX_REF_def)
  have ml: "match_len inp ref p =
      do { r \<leftarrow> (if maxlen > 16 then unrolled inp ref p 16 2 else Some (Inr 2));
           case r of Inl len \<Rightarrow> Some len | Inr len \<Rightarrow> match_loop inp ref p maxlen len }"
    by (simp only: match_len_def Let_def maxlen_def)
  have "\<exists>l. match_len inp ref p = Some l \<and> l \<le> MAX_REF \<and> p + l \<le> length inp \<and>
    (\<forall>j < l. inp ! (ref + j) = inp ! (p + j))"
  proof (cases "maxlen > 16")
    case False
    with match_loop_matches [OF assms(1) _ assms(3), of maxlen] m obtain l where
      "match_loop inp ref p maxlen 2 = Some l" "l \<le> max 3 maxlen" "\<forall>j < l. inp ! (ref + j) = inp ! (p + j)" by auto
    then show ?thesis using False m by (auto simp: ml)
  next
    case True
    then obtain r where r: "unrolled inp ref p 16 2 = Some r"
      "case r of Inl l \<Rightarrow> l \<le> 2 + 16 \<and> (\<forall>j < l. inp ! (ref + j) = inp ! (p + j))
       | Inr l \<Rightarrow> l = 2 + 16 \<and> (\<forall>j \<le> l. inp ! (ref + j) = inp ! (p + j))"
      using unrolled_matches [OF assms(1) _ assms(3), of 16] m by auto
    show ?thesis
    proof (cases r)
      case (Inl l)
      then show ?thesis using True m r
        by (auto simp: ml MAX_REF_def simp del: unrolled.simps)
    next
      case (Inr l)
      with r match_loop_matches [OF assms(1), of maxlen inp 18] m obtain l' where
        "match_loop inp ref p maxlen 18 = Some l'" "l' \<le> max 19 maxlen" "\<forall>j < l'. inp ! (ref + j) = inp ! (p + j)" by auto
      then show ?thesis using True m Inr r
        by (auto simp: ml MAX_REF_def simp del: unrolled.simps)
    qed
  qed
  with match_len_ge show ?thesis by blast
qed

text \<open>
  The invariant of the compressor: what is before the current run encodes the input before it, and
  the run holds the last \<open>lit\<close> bytes of the input. The table holds differences of pointers.
\<close>

definition lz_inv :: "bytes \<Rightarrow> nat \<Rightarrow> lz \<Rightarrow> bool" where
  "lz_inv inp m s \<longleftrightarrow> lit s \<le> ip s \<and> lit s < MAX_LIT \<and> lit s + 1 \<le> op s \<and> op s \<le> m \<and> length (outb s) = m \<and>
     ip s \<le> length inp \<and> encodes (take (op s - lit s - 1) (outb s)) (take (ip s - lit s) inp) \<and>
     mem_read (outb s) (op s - lit s) (lit s) = mem_read inp (ip s - lit s) (lit s) \<and> (\<forall>h. is_ll (htab s h))"

text \<open>Between tokens.\<close>

definition lz_closed :: "bytes \<Rightarrow> nat \<Rightarrow> lz \<Rightarrow> bool" where
  "lz_closed inp m s \<longleftrightarrow> op s \<le> m \<and> length (outb s) = m \<and> ip s \<le> length inp \<and>
     encodes (take (op s) (outb s)) (take (ip s) inp) \<and> (\<forall>h. is_ll (htab s h))"

lemma closed_start:
  assumes "lz_closed inp m s" "op s < m"
  shows "lz_inv inp m (start_run s)"
  using assms by (simp add: lz_closed_def lz_inv_def start_run_def MAX_LIT_def mem_read_def)

lemma take_run:
  assumes "l \<le> i" "i \<le> length b"
  shows "take i b = take (i - l) b @ mem_read b (i - l) l"
  using assms by (metis add_diff_inverse_nat le_diff_conv2 linorder_not_le mem_read_def take_add le_add_diff_inverse2)

lemma mem_read_Suc: "i < length b \<Longrightarrow> mem_read b i (Suc k) = b ! i # mem_read b (Suc i) k"
  by (simp add: mem_read_def Cons_nth_drop_Suc [symmetric])

lemma stop_run_closed:
  assumes "lit s \<le> ip s" "0 < lit s" "lit s \<le> MAX_LIT" "lit s + 1 \<le> op s" "op s \<le> m" "length (outb s) = m" "ip s \<le> length inp"
    and "encodes (take (op s - lit s - 1) (outb s)) (take (ip s - lit s) inp)"
    and "mem_read (outb s) (op s - lit s) (lit s) = mem_read inp (ip s - lit s) (lit s)" "\<forall>h. is_ll (htab s h)"
  shows "\<exists>b. stop_run s = Some (s\<lparr>outb := b\<rparr>) \<and> lz_closed inp m (s\<lparr>outb := b\<rparr>)"
proof -
  let ?i = "op s - lit s - 1" and ?l = "mem_read inp (ip s - lit s) (lit s)"
  let ?b = "(outb s)[?i := of_int (int (lit s) - 1)]"
  have i: "?i < length (outb s)" using assms by simp
  have l: "length ?l = lit s" using assms by (simp add: mem_simps)
  have v: "(of_int (int (lit s) - 1) :: byte) = of_nat (lit s - 1)" using assms(2) by (simp add: of_nat_diff)
  have "take (op s) ?b = take ?i (outb s) @ of_nat (lit s - 1) # ?l"
  proof -
    have "take (op s) ?b = take ?i ?b @ mem_read ?b ?i (lit s + 1)"
      using take_run [of "lit s + 1" "op s" ?b] assms(4-6) by simp
    moreover have "mem_read ?b ?i (lit s + 1) = of_nat (lit s - 1) # mem_read (outb s) (op s - lit s) (lit s)"
      using i assms(4) v mem_read_Suc [of ?i ?b "lit s"] by (simp add: mem_read_def Suc_diff_Suc)
    ultimately show ?thesis using assms(9) by simp
  qed
  moreover have "take (ip s) inp = take (ip s - lit s) inp @ ?l" using take_run assms(1,7) by blast
  ultimately have "encodes (take (op s) ?b) (take (ip s) inp)"
    using encodes_run [OF assms(8), of ?l] l assms(2,3) by (simp add: MAX_LIT_def)
  with i assms show ?thesis by (auto simp: stop_run_def lz_closed_def)
qed

lemma finish_run:
  assumes "lz_inv inp m s"
  shows "\<exists>s1. stop_run s = Some s1 \<and> lz_closed inp m (undo_run s1) \<and> ip (undo_run s1) = ip s \<and>
    op (undo_run s1) = (if lit s = 0 then op s - 1 else op s)"
proof (cases "lit s = 0")
  case True
  then show ?thesis using assms
    by (auto simp: lz_inv_def lz_closed_def stop_run_def undo_run_def)
next
  case False
  then obtain b where "stop_run s = Some (s\<lparr>outb := b\<rparr>)" "lz_closed inp m (s\<lparr>outb := b\<rparr>)"
    using stop_run_closed [of s m inp] assms by (auto simp: lz_inv_def)
  then show ?thesis using False by (simp add: undo_run_def)
qed

lemma put_eq: "op s < length (outb s) \<Longrightarrow> put v s = Some (s\<lparr>outb := (outb s)[op s := v], op := op s + 1\<rparr>)"
  by (simp add: put_def)

lemma literal_inv:
  assumes "lz_inv inp m s" "ip s < length inp" "op s + 2 \<le> m"
  shows "\<exists>s'. literal inp s = Some s' \<and> lz_inv inp m s' \<and> ip s' = ip s + 1 \<and>
    (if lit s + 1 = MAX_LIT then op s' = op s + 2 \<and> lit s' = 0 else op s' = op s + 1 \<and> lit s' = lit s + 1)"
proof -
  let ?s = "s\<lparr>lit := lit s + 1, outb := (outb s)[op s := inp ! ip s], op := op s + 1, ip := ip s + 1\<rparr>"
  have o: "op s < length (outb s)" using assms by (simp add: lz_inv_def)
  have "mem_read (outb ?s) (op s - lit s) (lit s + 1) = mem_read (outb s) (op s - lit s) (lit s) @ [inp ! ip s]"
    using assms o by (simp add: mem_read_def lz_inv_def take_Suc_conv_app_nth drop_update_swap)
  moreover have "mem_read inp (ip s - lit s) (lit s + 1) = mem_read inp (ip s - lit s) (lit s) @ [inp ! ip s]"
    using assms by (simp add: mem_read_def lz_inv_def take_Suc_conv_app_nth)
  ultimately have run: "mem_read (outb ?s) (op ?s - lit ?s) (lit ?s) = mem_read inp (ip ?s - lit ?s) (lit ?s)"
    "encodes (take (op ?s - lit ?s - 1) (outb ?s)) (take (ip ?s - lit ?s) inp)"
    using assms(1) by (simp_all add: lz_inv_def)
  have l: "literal inp s = (if lit s + 1 = MAX_LIT then map_option start_run (stop_run ?s) else Some ?s)"
    using o assms(2) by (simp add: literal_def put_eq Let_def)
  show ?thesis
  proof (cases "lit s + 1 = MAX_LIT")
    case True
    have "\<exists>b. stop_run ?s = Some (?s\<lparr>outb := b\<rparr>) \<and> lz_closed inp m (?s\<lparr>outb := b\<rparr>)"
      by (rule stop_run_closed) (use run assms in \<open>simp_all add: lz_inv_def\<close>)
    then obtain b where b: "stop_run ?s = Some (?s\<lparr>outb := b\<rparr>)" "lz_closed inp m (?s\<lparr>outb := b\<rparr>)" by blast
    show ?thesis using closed_start [OF b(2)] assms(3) l b(1) True by (simp add: start_run_def)
  next
    case False
    have "lz_inv inp m ?s" using run assms False by (simp add: lz_inv_def)
    then show ?thesis using l False by simp
  qed
qed

lemma literal_keeps:
  assumes "lz_inv inp m s" "ip s < length inp" "op s + 2 \<le> m"
  shows "\<exists>s'. literal inp s = Some s' \<and> lz_inv inp m s' \<and> op s' \<le> op s + 2"
proof -
  obtain s' where "literal inp s = Some s'" "lz_inv inp m s'"
    and o: "if lit s + 1 = MAX_LIT then op s' = op s + 2 \<and> lit s' = 0 else op s' = op s + 1 \<and> lit s' = lit s + 1"
    using literal_inv [OF assms] by blast
  moreover have "op s' \<le> op s + 2" using o by presburger
  ultimately show ?thesis by blast
qed

lemma take_update_snoc: "i < length b \<Longrightarrow> take (Suc i) (b[i := v]) = take i b @ [v]"
  by (simp add: take_Suc_conv_app_nth)

lemma emit_ref_encodes:
  assumes "encodes (take (op s) (outb s)) d" "op s + 4 \<le> length (outb s)"
    and "off < length d" "off < 8192" "1 \<le> len" "len \<le> 262"
  shows "\<exists>s'. emit_ref off len s = Some s' \<and> lit s' = 0 \<and> 1 \<le> op s' \<and> op s' \<le> op s + 4 \<and>
    length (outb s') = length (outb s) \<and> htab s' = htab s \<and> ip s' = ip s \<and>
    encodes (take (op s' - 1) (outb s')) (backcopy d off (len + 2))"
proof -
  have e: "encodes (take (op s) (outb s) @ ref_bytes off len) (backcopy d off (len + 2))"
    using assms(1,3-6) by (rule encodes_ref)
  show ?thesis
  proof (cases "len < 7")
    case True
    then show ?thesis using e assms(2)
      by (auto simp: emit_ref_def ref_bytes_def put_eq start_run_def take_update_snoc simp del: backcopy.simps)
  next
    case False
    then show ?thesis using e assms(2)
      by (auto simp: emit_ref_def ref_bytes_def put_eq start_run_def take_update_snoc simp del: backcopy.simps)
  qed
qed

lemma is_match_spec:
  assumes "is_ll ref" "p < length inp" "length inp < 2 ^ 32"
  shows "\<exists>b. is_match inp p ref = Some b \<and>
    (b \<longrightarrow> 0 < ref \<and> nat ref < p \<and> p - nat ref - 1 < 8192 \<and> offset p ref = int (p - nat ref - 1) \<and> p + 4 < length inp \<and>
      (\<forall>j \<le> 2. inp ! (nat ref + j) = inp ! (p + j)))"
proof (cases "offset p ref < MAX_OFF \<and> p + 4 < length inp \<and> ref > 0")
  case True
  have r: "int p - ref - 1 < 2 ^ 63" "- (2 ^ 64) < int p - ref - 1" using assms True by (auto simp: is_ll_def)
  have nn: "0 \<le> int p - ref - 1"
  proof (rule ccontr)
    assume n: "\<not> 0 \<le> int p - ref - 1"
    have "offset p ref = (int p - ref - 1 + 2 ^ 64) mod 2 ^ 64"
      unfolding offset_def by (metis mod_add_self2)
    also have "\<dots> = int p - ref - 1 + 2 ^ 64" using r n by (intro mod_pos_pos_trivial) auto
    finally have "offset p ref = int p - ref - 1 + 2 ^ 64" .
    moreover have "int p - ref - 1 \<ge> - (2 ^ 63)" using assms(1) by (simp add: is_ll_def)
    ultimately show False using True by (simp add: MAX_OFF_def)
  qed
  then have off: "offset p ref = int p - ref - 1" using r by (simp add: offset_def)
  have "nat ref < p" using nn True by linarith
  moreover have "offset p ref = int (p - nat ref - 1)" using off calculation True by linarith
  moreover have "p - nat ref - 1 < 8192" using calculation(2) True by (simp add: MAX_OFF_def)
  moreover have "(\<forall>j \<le> 2. inp ! (nat ref + j) = inp ! (p + j)) \<longleftrightarrow>
      inp ! nat ref = inp ! p \<and> inp ! (nat ref + 1) = inp ! (p + 1) \<and> inp ! (nat ref + 2) = inp ! (p + 2)"
    by (auto simp: le_Suc_eq numeral_2_eq_2)
  ultimately show ?thesis using True by (auto simp: is_match_def)
qed (auto simp: is_match_def)

lemma back_ref_inv:
  assumes "lz_inv inp m s" "out_len < m" "0 < ref" "ref < ip s" "ip s - ref - 1 < 8192"
    and "offset (ip s) (int ref) = int (ip s - ref - 1)" "ip s + 4 < length inp" "\<forall>j \<le> 2. inp ! (ref + j) = inp ! (ip s + j)"
  shows "\<exists>r. back_ref inp out_len ref s = Some r \<and> (case r of Fail _ \<Rightarrow> True | Go s' \<Rightarrow> lz_inv inp m s' \<and> op s' \<le> out_len)"
proof -
  obtain s1 where s1: "stop_run s = Some s1" "lz_closed inp m (undo_run s1)" "ip (undo_run s1) = ip s"
    using finish_run [OF assms(1)] by blast
  let ?s = "undo_run s1"
  show ?thesis
  proof (cases "op ?s + 4 \<ge> out_len")
    case True
    then show ?thesis using s1(1) by (simp add: back_ref_def Let_def)
  next
    case False
    obtain l where l: "match_len inp ref (ip s) = Some l" "3 \<le> l" "l \<le> MAX_REF" "ip s + l \<le> length inp"
        "\<forall>j < l. inp ! (ref + j) = inp ! (ip s + j)"
      using match_len_matches [OF assms(4,7,8)] by blast
    let ?off = "ip s - ref - 1"
    have "encodes (take (op ?s) (outb ?s)) (take (ip s) inp)" "op ?s + 4 \<le> length (outb ?s)" "?off < length (take (ip s) inp)"
        "1 \<le> l - 2" "l - 2 \<le> 262"
      using s1(2,3) False assms l by (auto simp: lz_closed_def MAX_REF_def)
    from emit_ref_encodes [OF this(1-3) assms(5) this(4,5)] obtain s2 where s2:
      "emit_ref ?off (l - 2) ?s = Some s2" "lit s2 = 0" "1 \<le> op s2" "op s2 \<le> op ?s + 4" "length (outb s2) = length (outb ?s)"
      "htab s2 = htab ?s" "ip s2 = ip ?s" "encodes (take (op s2 - 1) (outb s2)) (backcopy (take (ip s) inp) ?off (l - 2 + 2))"
      by blast
    have "backcopy (take (ip s) inp) ?off l = take (ip s + l) inp"
      by (rule backcopy_take) (use assms(3,4) l in auto)
    moreover have "l - 2 + 2 = l" using l(2) by simp
    ultimately have "lz_inv inp m (s2\<lparr>ip := ip s2 + l\<rparr>)"
      using s2 s1(2,3) l False assms(2) by (simp add: lz_inv_def lz_closed_def MAX_LIT_def mem_read_def)
    moreover have "back_ref inp out_len ref s = Some (Go (s2\<lparr>ip := ip s2 + l\<rparr>))"
      using False s1(1,3) l(1) s2(1) assms(6) by (simp add: back_ref_def Let_def)
    ultimately show ?thesis using s2(4) False by simp
  qed
qed

lemma lz_inv_hash [simp]:
  "lz_inv inp m (s\<lparr>hval := h, htab := t\<rparr>) \<longleftrightarrow> lz_inv inp m (s\<lparr>htab := t\<rparr>)" "lz_inv inp m (s\<lparr>hval := h\<rparr>) \<longleftrightarrow> lz_inv inp m s"
  by (simp_all add: lz_inv_def)

lemma lz_inv_htab: "lz_inv inp m s \<Longrightarrow> is_ll v \<Longrightarrow> lz_inv inp m (s\<lparr>htab := (htab s)(i := v)\<rparr>)"
  by (simp add: lz_inv_def)

lemma rehash_inv:
  assumes "lz_inv inp m s" "2 \<le> ip s" "ip s + 2 < length inp" "length inp < 2 ^ 32"
  shows "\<exists>s'. rehash inp s = Some s' \<and> lz_inv inp m s' \<and> op s' = op s"
proof -
  obtain p where p: "ip s = p + 2" using assms(2) by (metis add.commute le_Suc_ex)
  have ll: "is_ll (int p)" "is_ll (1 + int p)" using p assms(3,4) by (simp_all add: is_ll_def)
  show ?thesis
    using assms p ll by (auto simp: rehash_def FRST_def hash_here_def NEXT_def Let_def lz_inv_def)
qed

lemma step_inv:
  assumes "lz_inv inp m s" "op s \<le> out_len + 1" "out_len < m" "ip s + 2 < length inp" "length inp < 2 ^ 32"
  shows "\<exists>r. step inp out_len s = Some r \<and>
    (case r of Fail _ \<Rightarrow> True
     | Go (fin, s') \<Rightarrow> lz_inv inp m s' \<and> op s' \<le> out_len + 1 \<and> (fin \<longrightarrow> length inp \<le> ip s' + 2))"
proof -
  obtain h where h: "NEXT (hval s) inp (ip s) = Some h" using assms(4) by (simp add: NEXT_def)
  let ?ref = "htab s (IDX h)" and ?s = "s\<lparr>hval := h, htab := (htab s)(IDX h := int (ip s))\<rparr>"
  have "is_ll (int (ip s))" using assms(4,5) by (simp add: is_ll_def)
  then have s: "lz_inv inp m ?s" using lz_inv_htab [OF assms(1)] by simp
  have "is_ll ?ref" using assms(1) by (simp add: lz_inv_def)
  then obtain b where b: "is_match inp (ip s) ?ref = Some b"
    "b \<longrightarrow> 0 < ?ref \<and> nat ?ref < ip s \<and> ip s - nat ?ref - 1 < 8192 \<and> offset (ip s) ?ref = int (ip s - nat ?ref - 1) \<and>
      ip s + 4 < length inp \<and> (\<forall>j \<le> 2. inp ! (nat ?ref + j) = inp ! (ip s + j))"
    using is_match_spec [of ?ref "ip s" inp] assms(4,5) by auto
  show ?thesis
  proof (cases b)
    case True
    then obtain r where r: "back_ref inp out_len (nat ?ref) ?s = Some r"
        "case r of Fail _ \<Rightarrow> True | Go s' \<Rightarrow> lz_inv inp m s' \<and> op s' \<le> out_len"
      using back_ref_inv [OF s assms(3), of "nat ?ref"] b(2) by auto
    show ?thesis
    proof (cases r)
      case (Fail x)
      then show ?thesis using h b(1) True r(1) by (simp add: step_def Let_def)
    next
      case (Go s')
      have "2 \<le> ip s'" using back_ref_ip [of inp out_len "nat ?ref" ?s s'] r(1) Go by simp
      have st: "step inp out_len s = (if ip s' + 2 \<ge> length inp then Some (Go (True, s'))
          else map_option (\<lambda>s. Go (False, s)) (rehash inp s'))"
        using h b(1) True r(1) Go by (simp add: step_def Let_def)
      show ?thesis
      proof (cases "ip s' + 2 \<ge> length inp")
        case True
        then show ?thesis using st r(2) Go by simp
      next
        case False
        then obtain s2 where "rehash inp s' = Some s2" "lz_inv inp m s2" "op s2 = op s'"
          using rehash_inv [of inp m s'] \<open>2 \<le> ip s'\<close> r(2) Go assms(5) by auto
        then show ?thesis using st r(2) Go False by simp
      qed
    qed
  next
    case False
    have st: "step inp out_len s = (if op s \<ge> out_len then Some (Fail (outb s))
        else map_option (\<lambda>s. Go (False, s)) (literal inp ?s))"
      using h b(1) False by (simp add: step_def Let_def)
    show ?thesis
    proof (cases "op s \<ge> out_len")
      case True
      then show ?thesis using st by simp
    next
      case lt: False
      then have "ip ?s < length inp" "op ?s + 2 \<le> m" using assms(3,4) by simp_all
      from literal_keeps [OF s this] obtain s2 where "literal inp ?s = Some s2" "lz_inv inp m s2" "op s2 \<le> op s + 2"
        by (elim exE conjE) simp
      then show ?thesis using st lt by simp
    qed
  qed
qed

lemma lzf_loop_inv:
  assumes "lz_inv inp m s" "op s \<le> out_len + 1" "out_len < m" "length inp < 2 ^ 32"
  shows "\<exists>r. lzf_loop inp out_len s = Some r \<and>
    (case r of Fail _ \<Rightarrow> True | Go s' \<Rightarrow> lz_inv inp m s' \<and> length inp \<le> ip s' + 2)"
  using assms
proof (induction inp out_len s rule: lzf_loop.induct)
  case (1 inp out_len s)
  show ?case
  proof (cases "ip s + 2 < length inp")
    case True
    obtain r where r: "step inp out_len s = Some r"
      "case r of Fail _ \<Rightarrow> True
       | Go (fin, s') \<Rightarrow> lz_inv inp m s' \<and> op s' \<le> out_len + 1 \<and> (fin \<longrightarrow> length inp \<le> ip s' + 2)"
      using step_inv [OF 1(2-4) True 1(5)] by blast
    then show ?thesis
      using True 1(1) [OF True r(1)] 1(4,5)
      by (subst lzf_loop.simps) (cases r; auto)
  next
    case False
    then show ?thesis using 1(2) by (simp add: lzf_loop.simps)
  qed
qed

lemma tail_loop_inv:
  assumes "lz_inv inp m s" "length inp \<le> ip s + 2"
    and "op s + (length inp - ip s) + (if lit s + (length inp - ip s) \<ge> MAX_LIT then 1 else 0) \<le> out_len" "out_len < m"
  shows "\<exists>s'. tail_loop inp s = Some s' \<and> lz_inv inp m s' \<and> ip s' = length inp \<and> op s' \<le> out_len"
  using assms
proof (induction "length inp - ip s" arbitrary: s)
  case 0
  then have "ip s = length inp" by (simp add: lz_inv_def)
  with 0 show ?case by (auto simp: tail_loop.simps split: if_splits)
next
  case (Suc k)
  then have lt: "ip s < length inp" "op s + 2 \<le> m" by (simp_all split: if_splits)
  then obtain s' where s': "literal inp s = Some s'" "lz_inv inp m s'" "ip s' = ip s + 1"
    and o: "if lit s + 1 = MAX_LIT then op s' = op s + 2 \<and> lit s' = 0 else op s' = op s + 1 \<and> lit s' = lit s + 1"
    using literal_inv [OF Suc.prems(1)] by blast
  have k: "length inp - ip s = k + 1" "length inp - ip s' = k" "k \<le> 1" using Suc.hyps(2) s'(3) Suc.prems(2) by simp_all
  have "op s' + k + (if lit s' + k \<ge> MAX_LIT then 1 else 0) \<le> out_len"
    using o Suc.prems(3) k unfolding k(1) by (auto simp: MAX_LIT_def split: if_splits)
  then obtain s'' where "tail_loop inp s' = Some s''" "lz_inv inp m s''" "ip s'' = length inp" "op s'' \<le> out_len"
    using Suc.hyps(1) [of s'] s' k Suc.prems(2,4) by auto
  with s'(1) lt(1) show ?case by (subst tail_loop.simps) simp
qed

text \<open>
  The compressor stays inside of an output buffer of one byte more than it is told, whatever the hash table
  held before; what it returns, when it succeeds, encodes the input.
\<close>

lemma compress_encodes:
  assumes "2 \<le> length inp" "length inp < 2 ^ 32" "out_len < length out" "\<forall>h. is_ll (tab h)"
  shows "\<exists>n b. lzf_compress tab inp out out_len = Some (n, b) \<and> n \<le> out_len \<and>
    (n \<noteq> 0 \<longrightarrow> encodes (take n b) inp \<and> n \<le> length b)"
proof (cases "out_len = 0")
  case False
  obtain h where h: "FRST inp 0 = Some h" using assms(1) by (cases inp; cases "tl inp") (auto simp: FRST_def)
  let ?s = "\<lparr>ip = 0, op = 1, lit = 0, outb = out, htab = tab, hval = h\<rparr>"
  have "lz_inv inp (length out) ?s"
    using assms(3,4) encodes_nil by (simp add: lz_inv_def MAX_LIT_def mem_read_def)
  then obtain r where r: "lzf_loop inp out_len ?s = Some r"
      "case r of Fail _ \<Rightarrow> True | Go s' \<Rightarrow> lz_inv inp (length out) s' \<and> length inp \<le> ip s' + 2"
    using lzf_loop_inv [of inp "length out" ?s out_len] assms(2,3) by auto
  have c: "lzf_compress tab inp out out_len =
      (case r of Fail b \<Rightarrow> Some (0, b)
       | Go s \<Rightarrow> if op s + 3 > out_len then Some (0, outb s)
           else do { s \<leftarrow> tail_loop inp s; s \<leftarrow> stop_run s; let s = undo_run s; Some (op s, outb s) })"
    using False assms(1) h r(1) by (auto simp: lzf_compress_def)
  show ?thesis
  proof (cases "\<exists>s. r = Go s \<and> op s + 3 \<le> out_len")
    case True
    then obtain s where s: "r = Go s" "op s + 3 \<le> out_len" by blast
    moreover from s r(2) have "op s + (length inp - ip s) + (if lit s + (length inp - ip s) \<ge> MAX_LIT then 1 else 0) \<le> out_len"
      by (simp, linarith)
    ultimately obtain s' where s': "tail_loop inp s = Some s'" "lz_inv inp (length out) s'" "ip s' = length inp" "op s' \<le> out_len"
      using tail_loop_inv [of inp "length out" s out_len] r(2) assms(3) by auto
    obtain s1 where s1: "stop_run s' = Some s1" "lz_closed inp (length out) (undo_run s1)" "ip (undo_run s1) = ip s'"
        "op (undo_run s1) = (if lit s' = 0 then op s' - 1 else op s')"
      using finish_run [OF s'(2)] by blast
    then show ?thesis using c s s' by (auto simp: lz_closed_def Let_def split: if_splits)
  next
    case False
    then show ?thesis using c by (cases r) auto
  qed
qed (simp add: lzf_compress_def)

text \<open>
  C9: Compression round trip: on every input of at least two bytes and for every content of the uninitialised hash table,
  the compressor terminates and stays inside of its buffers (the output buffer having the spare byte that the callers
  allocate), and if it reports a length, decompressing that many bytes into a buffer of the size of the input gives the
  input back.
\<close>

theorem lzf_roundtrip:
  assumes "2 \<le> length inp" "length inp < 2 ^ 32" "out_len < length out" "\<forall>h. is_ll (tab h)" "length inp \<le> length buf"
  shows "\<exists>n b. lzf_compress tab inp out out_len = Some (n, b) \<and> n \<le> out_len \<and>
    (n \<noteq> 0 \<longrightarrow> (\<exists>d. lzf_decompress (take n b) buf (length inp) = Some (length inp, d) \<and> take (length inp) d = inp))"
proof -
  obtain n b where c: "lzf_compress tab inp out out_len = Some (n, b)" "n \<le> out_len" "n \<noteq> 0 \<longrightarrow> encodes (take n b) inp"
    using compress_encodes [OF assms(1-4)] by blast
  moreover have "\<exists>d. lzf_decompress (take n b) buf (length inp) = Some (length inp, d) \<and> take (length inp) d = inp" if "n \<noteq> 0"
  proof -
    have e: "encodes (take n b) inp" using c(3) that by simp
    moreover have "take n b \<noteq> []" using encodes_empty [OF e] assms(1) by fastforce
    ultimately show ?thesis using decompress_encodes [of "take n b" inp "length inp" buf] assms(5) by auto
  qed
  ultimately show ?thesis by blast
qed

theorem lzf_roundtrip_witness:
  "\<exists>n b. lzf_compress (\<lambda>_. 7) (replicate 40 97) (replicate 37 0) 36 = Some (n, b) \<and>
     (n \<noteq> 0 \<longrightarrow> (\<exists>d. lzf_decompress (take n b) (replicate 40 0) 40 = Some (40, d) \<and> take 40 d = replicate 40 97))"
proof -
  have "\<forall>h. is_ll ((\<lambda>_. 7) h)" by (simp add: is_ll_def)
  from lzf_roundtrip [OF _ _ _ this, of "replicate 40 97" 36 "replicate 37 0" "replicate 40 0"] show ?thesis
    by (auto simp del: replicate.simps)
qed

text \<open>
  The spare byte is needed: when the last byte of the buffer completes a run, the length of the next run is reserved
  behind the end of the buffer, and a match that follows stores into it before the room is tested.
\<close>

lemma compress_overruns:
  assumes "lit s + 1 = MAX_LIT" "op s + 1 = length (outb s)" "ip s < length inp"
  shows "\<exists>s'. literal inp s = Some s' \<and> op s' = length (outb s) + 1 \<and> back_ref inp (length (outb s)) ref s' = None"
proof -
  let ?s = "s\<lparr>lit := lit s + 1, outb := (outb s)[op s := inp ! ip s], op := op s + 1, ip := ip s + 1\<rparr>"
  have "op s < length (outb s)" "op s - lit s < length (outb s)" using assms(2) by simp_all
  then have "literal inp s = map_option start_run (stop_run ?s)"
    using assms(1,3) by (simp add: literal_def put_eq Let_def)
  moreover obtain b where "stop_run ?s = Some (?s\<lparr>outb := b\<rparr>)" "length b = length (outb s)"
    using \<open>op s < length (outb s)\<close> by (simp add: stop_run_def)
  ultimately show ?thesis using assms(2)
    by (auto simp: start_run_def back_ref_def stop_run_def wr_def)
qed

end
