(* ===== verification/Redis_Object.thy ===== *)
theory Redis_Object
  imports Sds_Args
begin

text \<open>
  The string objects of \<^verbatim>\<open>debug/redis/src/object.c\<close>: raw and integer encoding, their comparison and their
  conversion to integers. A raw string is its bytes, without the zero that follows them in memory (the
  dynamic strings below are the subject of the theory of \<^verbatim>\<open>sds.c\<close>); objects of other types are
  opaque. Reference counts are an argument where the code looks at them. A failed assertion is \<open>None\<close>.
\<close>

datatype rtype = REDIS_LIST | REDIS_SET | REDIS_ZSET | REDIS_HASH

datatype 'o robj = RawStr bytes | IntStr int | Other rtype 'o

definition is_string :: "'o robj \<Rightarrow> bool" where
  "is_string o' \<longleftrightarrow> (case o' of Other _ _ \<Rightarrow> False | _ \<Rightarrow> True)"

text \<open>\<open>cstr\<close> is what C sees of a buffer that a zero byte follows.\<close>

definition cstr :: "bytes \<Rightarrow> bytes" where
  "cstr s = takeWhile (\<lambda>c. c \<noteq> 0) s"

definition int_text :: "nat \<Rightarrow> int \<Rightarrow> bytes" where
  "int_text bsz v = cstr (fst (ll2string bsz v))"

definition createStringObjectFromLongLong :: "int \<Rightarrow> 'o robj" where
  "createStringObjectFromLongLong v =
     (if 0 \<le> v \<and> v < 10000 then IntStr v
      else if - (2 ^ 63) \<le> v \<and> v \<le> 2 ^ 63 - 1 then IntStr v
      else RawStr (ll_repr v))"

definition isObjectRepresentableAsLongLong :: "'o robj \<Rightarrow> int option option" where
  "isObjectRepresentableAsLongLong o' =
     (case o' of IntStr v \<Rightarrow> Some (Some v) | RawStr s \<Rightarrow> Some (string2ll s) | Other _ _ \<Rightarrow> None)"

definition tryObjectEncoding :: "nat \<Rightarrow> 'o robj \<Rightarrow> 'o robj option" where
  "tryObjectEncoding refcount o' =
     (case o' of
        RawStr s \<Rightarrow>
          if refcount > 1 then Some o'
          else if length s > 21 then Some o'
          else (case string2l s of None \<Rightarrow> Some o' | Some v \<Rightarrow> Some (IntStr v))
      | IntStr v \<Rightarrow> Some o'
      | Other _ _ \<Rightarrow> if refcount > 1 then Some o' else None)"

definition getDecodedObject :: "'o robj \<Rightarrow> 'o robj option" where
  "getDecodedObject o' =
     (case o' of RawStr s \<Rightarrow> Some o' | IntStr v \<Rightarrow> Some (RawStr (int_text 32 v)) | Other _ _ \<Rightarrow> None)"

text \<open>\<^verbatim>\<open>memcmp\<close> on the common prefix and then the lengths, and \<^verbatim>\<open>strcmp\<close>, up to the sign.\<close>

definition sdscmp_bytes :: "bytes \<Rightarrow> bytes \<Rightarrow> int" where
  "sdscmp_bytes a b =
     (let cmp = memcmp a b (min (length a) (length b)) in if cmp = 0 then int (length a) - int (length b) else cmp)"

definition strcmp :: "bytes \<Rightarrow> bytes \<Rightarrow> int" where
  "strcmp a b = sdscmp_bytes (cstr a) (cstr b)"

definition compareStringObjects :: "'o robj \<Rightarrow> 'o robj \<Rightarrow> int option" where
  "compareStringObjects a b =
     (case (a, b) of
        (RawStr x, RawStr y) \<Rightarrow> Some (sdscmp_bytes x y)
      | (RawStr x, IntStr y) \<Rightarrow> Some (strcmp x (int_text 128 y))
      | (IntStr x, RawStr y) \<Rightarrow> Some (strcmp (int_text 128 x) y)
      | (IntStr x, IntStr y) \<Rightarrow> Some (strcmp (int_text 128 x) (int_text 128 y))
      | _ \<Rightarrow> None)"

definition equalStringObjects :: "'o robj \<Rightarrow> 'o robj \<Rightarrow> bool option" where
  "equalStringObjects a b =
     (case (a, b) of
        (IntStr x, IntStr y) \<Rightarrow> Some (x = y)
      | _ \<Rightarrow> map_option (\<lambda>c. c = 0) (compareStringObjects a b))"

definition stringObjectLen :: "'o robj \<Rightarrow> nat option" where
  "stringObjectLen o' =
     (case o' of RawStr s \<Rightarrow> Some (length s) | IntStr v \<Rightarrow> Some (snd (ll2string 32 v)) | Other _ _ \<Rightarrow> None)"

text \<open>
  \<^verbatim>\<open>strtoll\<close> in base 10: the value, what is left of the C string at \<^verbatim>\<open>*eptr\<close>, and whether
  \<^verbatim>\<open>errno\<close> is \<^verbatim>\<open>ERANGE\<close>. Without digits nothing is consumed.
\<close>

definition strtoll :: "bytes \<Rightarrow> int \<times> bytes \<times> bool" where
  "strtoll s =
     (let s0 = cstr s; s1 = dropWhile isspace s0;
          neg = (s1 \<noteq> [] \<and> hd s1 = chr CHR ''-'');
          s2 = (if s1 \<noteq> [] \<and> (hd s1 = chr CHR ''-'' \<or> hd s1 = chr CHR ''+'') then tl s1 else s1);
          ds = takeWhile isdigit s2;
          v = (if neg then - int (dec_val ds) else int (dec_val ds))
      in if ds = [] then (0, s0, False)
         else if v > 2 ^ 63 - 1 then (2 ^ 63 - 1, dropWhile isdigit s2, True)
         else if v < - (2 ^ 63) then (- (2 ^ 63), dropWhile isdigit s2, True)
         else (v, dropWhile isdigit s2, False))"

text \<open>\<open>Some None\<close> is \<^verbatim>\<open>REDIS_ERR\<close>; a null object reads as 0.\<close>

definition getLongLongFromObject :: "'o robj option \<Rightarrow> int option option" where
  "getLongLongFromObject oo =
     (case oo of
        None \<Rightarrow> Some (Some 0)
      | Some (RawStr s) \<Rightarrow>
          (case strtoll s of (v, eptr, erange) \<Rightarrow>
             if (s \<noteq> [] \<and> isspace (hd s)) \<or> eptr \<noteq> [] \<or> erange then Some None else Some (Some v))
      | Some (IntStr v) \<Rightarrow> Some (Some v)
      | Some (Other _ _) \<Rightarrow> None)"

definition getLongFromObject :: "'o robj option \<Rightarrow> int option option" where
  "getLongFromObject oo =
     (case getLongLongFromObject oo of
        Some (Some v) \<Rightarrow> if v < - (2 ^ 63) \<or> v > 2 ^ 63 - 1 then Some None else Some (Some v)
      | r \<Rightarrow> r)"

section \<open>The text of a string object\<close>

definition obj_ok :: "'o robj \<Rightarrow> bool" where
  "obj_ok o' \<longleftrightarrow> (case o' of IntStr v \<Rightarrow> is_ll v | _ \<Rightarrow> True)"

definition str_of :: "'o robj \<Rightarrow> bytes" where
  "str_of o' = (case o' of RawStr s \<Rightarrow> s | IntStr v \<Rightarrow> ll_repr v | Other _ _ \<Rightarrow> [])"

lemma str_of_simps [simp]: "str_of (RawStr s) = s" "str_of (IntStr v) = ll_repr v"
  by (simp_all add: str_of_def)

lemma obj_ok_simps [simp]: "obj_ok (RawStr s)" "obj_ok (IntStr v) \<longleftrightarrow> is_ll v" "obj_ok (Other t x)"
  by (simp_all add: obj_ok_def)

lemma is_string_simps [simp]: "is_string (RawStr s)" "is_string (IntStr v)" "\<not> is_string (Other t x)"
  by (simp_all add: is_string_def)

lemma ll_repr_no_zero: "0 \<notin> set (ll_repr v)"
proof -
  have "\<forall>c \<in> set (dec n). c \<noteq> 0" for n
    using dec_digits [of n] by (auto simp: list_all_iff isdigit_def)
  then show ?thesis by (auto simp: ll_repr_def)
qed

lemma cstr_id: "0 \<notin> set s \<Longrightarrow> cstr s = s"
  by (auto simp: cstr_def takeWhile_eq_all_conv)

lemma cstr_zero: "0 \<notin> set s \<Longrightarrow> cstr (s @ 0 # r) = s"
  by (induction s) (auto simp: cstr_def)

lemma int_text_ok:
  assumes "is_ll v" "21 \<le> bsz"
  shows "int_text bsz v = ll_repr v"
  using ll2string_ok [OF assms(1), of bsz] ll_repr_length [OF assms(1)] assms(2) cstr_zero [OF ll_repr_no_zero, of v "[]"]
  by (simp add: int_text_def Let_def)

lemma stringObjectLen_ok: "obj_ok o' \<Longrightarrow> is_string o' \<Longrightarrow> stringObjectLen o' = Some (length (str_of o'))"
  using ll2string_ok [of _ 32] order_trans [OF ll_repr_length, of _ 31]
  by (cases o') (simp_all add: stringObjectLen_def Let_def min_def)

lemma getDecodedObject_ok: "obj_ok o' \<Longrightarrow> is_string o' \<Longrightarrow> getDecodedObject o' = Some (RawStr (str_of o'))"
  by (cases o') (auto simp: getDecodedObject_def int_text_ok)

lemma string2l_some: "string2l s = Some v \<longleftrightarrow> is_ll v \<and> s = ll_repr v"
  using string2ll_repr string2ll_sound
  by (auto simp: string2l_def is_ll_def split: option.splits)

text \<open>Encoding a string as an integer keeps its text.\<close>

lemma tryObjectEncoding_ok:
  "\<exists>o'. tryObjectEncoding rc (RawStr s) = Some o' \<and> obj_ok o' \<and> is_string o' \<and> str_of o' = s"
  by (auto simp: tryObjectEncoding_def string2l_some split: option.splits)

lemma createStringObjectFromLongLong_ok:
  "is_ll v \<Longrightarrow> createStringObjectFromLongLong v = IntStr v"
  by (auto simp: createStringObjectFromLongLong_def is_ll_def)

section \<open>Comparison\<close>

lemma memcmp_0: "length a = length b \<Longrightarrow> memcmp a b (length b) = 0 \<longleftrightarrow> a = b"
  by (induction a b rule: list_induct2) auto

lemma sdscmp_bytes_0: "sdscmp_bytes a b = 0 \<longleftrightarrow> a = b"
  using memcmp_0 [of a b] by (auto simp: sdscmp_bytes_def Let_def)

text \<open>Two string objects of which neither text has a zero byte are equal exactly when their texts
  are, in every combination of encodings.\<close>

theorem equalStringObjects_texts:
  assumes "obj_ok a" "obj_ok b" "is_string a" "is_string b" "0 \<notin> set (str_of a)" "0 \<notin> set (str_of b)"
  shows "equalStringObjects a b = Some (str_of a = str_of b)"
proof -
  have ll: "ll_repr x = ll_repr y \<longleftrightarrow> x = y" if "is_ll x" "is_ll y" for x y
    using string2ll_repr that by (metis option.inject)
  show ?thesis using assms
    by (cases a; cases b)
       (auto simp: equalStringObjects_def compareStringObjects_def strcmp_def sdscmp_bytes_0 int_text_ok cstr_id ll_repr_no_zero ll)
qed

text \<open>Comparing an integer-encoded object with a raw one stops at the first zero byte: the
  two objects compare equal although their texts differ.\<close>

theorem equalStringObjects_embedded_zero:
  "is_ll v \<Longrightarrow> equalStringObjects (IntStr v) (RawStr (ll_repr v @ 0 # rest)) = Some True \<and>
     str_of (IntStr v :: 'o robj) \<noteq> str_of (RawStr (ll_repr v @ 0 # rest) :: 'o robj)"
  by (simp add: equalStringObjects_def compareStringObjects_def strcmp_def sdscmp_bytes_0 int_text_ok cstr_zero cstr_id ll_repr_no_zero)

theorem equalStringObjects_texts_witness:
  "equalStringObjects (IntStr 12 :: unit robj) (RawStr [49, 50]) = Some True"
proof -
  have "ll_repr 12 = [49, 50]" by (simp add: ll_repr_def dec.simps [of 12] dec.simps [of "Suc 0"] digit_def)
  then show ?thesis using equalStringObjects_texts [of "IntStr 12 :: unit robj" "RawStr [49, 50]"]
    by (simp add: is_ll_def)
qed

theorem equalStringObjects_embedded_zero_witness:
  "equalStringObjects (IntStr 12 :: unit robj) (RawStr (ll_repr 12 @ [0, 7])) = Some True"
  using equalStringObjects_embedded_zero [of 12 "[7]", where ?'o = unit] by (simp add: is_ll_def)

section \<open>Reading integers\<close>

lemma dec_val_canonical: "takeWhile isdigit (dec n) = dec n" "dropWhile isdigit (dec n) = []"
  using dec_digits [of n] by (auto simp: list_all_iff takeWhile_eq_all_conv dropWhile_eq_Nil_conv)

lemma dec_Cons_digit: "\<exists>d p. dec n = d # p \<and> isdigit d"
  using dec_nonempty [of n] dec_digits [of n] by (cases "dec n") auto

lemma digit_not_space: "isdigit d \<Longrightarrow> \<not> isspace d \<and> d \<noteq> chr CHR ''-'' \<and> d \<noteq> chr CHR ''+''"
  by (auto simp: isdigit_def isspace_def word_le_nat_alt)

text \<open>Every canonical text of a 64-bit integer is read as that integer.\<close>

lemma strtoll_repr:
  assumes "is_ll v"
  shows "strtoll (ll_repr v) = (v, [], False)"
proof -
  have c: "cstr (ll_repr v) = ll_repr v" by (rule cstr_id [OF ll_repr_no_zero])
  show ?thesis
  proof (cases "v < 0")
    case True
    have "\<not> isspace (chr CHR ''-'')" by (simp add: isspace_def)
    then show ?thesis using assms True c
      by (simp add: strtoll_def ll_repr_def Let_def dec_val_canonical dec_nonempty dec_val_dec is_ll_def)
  next
    case False
    obtain d p where d: "dec (nat v) = d # p" "isdigit d" using dec_Cons_digit by blast
    have w: "dropWhile isspace (dec (nat v)) = dec (nat v)" "hd (dec (nat v)) = d" using d digit_not_space [of d] by auto
    show ?thesis using assms False c digit_not_space [OF d(2)]
      by (simp add: strtoll_def ll_repr_def Let_def dec_val_canonical dec_nonempty dec_val_dec is_ll_def w)
  qed
qed

lemma getLongLong_repr:
  assumes "obj_ok o'" "is_ll v" "str_of o' = ll_repr v" "is_string o'"
  shows "getLongLongFromObject (Some o') = Some (Some v)"
proof (cases o')
  case (RawStr s)
  have "\<not> isspace (hd (ll_repr v))"
    using dec_Cons_digit [of "nat v"] digit_not_space by (auto simp: ll_repr_def isspace_def)
  then show ?thesis using RawStr assms strtoll_repr [OF assms(2)] by (simp add: getLongLongFromObject_def)
next
  case (IntStr w)
  then have "string2ll (ll_repr w) = Some w" "ll_repr w = ll_repr v"
    using assms(1,3) string2ll_repr [of w] by auto
  then show ?thesis using IntStr string2ll_repr [OF assms(2)] by (simp add: getLongLongFromObject_def)
qed (use assms in simp)

lemma getLongLong_range:
  assumes "case oo of None \<Rightarrow> True | Some o' \<Rightarrow> obj_ok o'" "getLongLongFromObject oo = Some (Some v)"
  shows "is_ll v"
  using assms
  by (auto simp: getLongLongFromObject_def strtoll_def Let_def is_ll_def split: option.splits robj.splits if_splits)

lemma getLong_LongLong:
  assumes "case oo of None \<Rightarrow> True | Some o' \<Rightarrow> obj_ok o'"
  shows "getLongFromObject oo = getLongLongFromObject oo"
proof (cases "getLongLongFromObject oo")
  case (Some r)
  then show ?thesis using getLongLong_range [OF assms]
    by (cases r) (auto simp: getLongFromObject_def is_ll_def)
qed (simp add: getLongFromObject_def)

lemma getLongLong_total: "(case oo of None \<Rightarrow> True | Some o' \<Rightarrow> is_string o') \<Longrightarrow> \<exists>r. getLongLongFromObject oo = Some r"
  by (auto simp: getLongLongFromObject_def split: option.splits robj.splits prod.splits)

end
