(* ===== verification/Rdb_Format.thy ===== *)
theory Rdb_Format
  imports Crc64 Lzf Redis_Object
begin

text \<open>
  The encodings of the dump file, \<^verbatim>\<open>debug/redis/src/rdb.c\<close> over the streams of
  \<^verbatim>\<open>rio.c\<close>: types, times, lengths and strings, with the integer encoding and the
  compression. The outcomes of the writes to the file are a parameter of the stream (\<open>w_ok\<close>, when it
  is used up the writes succeed). A save function gives the number of bytes, or \<open>None\<close> for the
  return of -1, and the stream; the outer \<open>None\<close> stands for a panic or an access outside of a buffer.
\<close>

section \<open>Streams\<close>

record wio =
  w_out :: bytes
  w_check :: bool
  w_cksum :: "64 word"
  w_ok :: "bool list"

record rio =
  r_in :: bytes
  r_check :: bool
  r_cksum :: "64 word"

text \<open>\<^verbatim>\<open>fwrite\<close> and \<^verbatim>\<open>fread\<close> of zero bytes return 0.\<close>

definition rioFileWrite :: "wio \<Rightarrow> bytes \<Rightarrow> bool \<times> wio" where
  "rioFileWrite r buf =
     (let ok = (buf \<noteq> [] \<and> (w_ok r = [] \<or> hd (w_ok r)))
      in (ok, r\<lparr>w_out := (if ok then w_out r @ buf else w_out r), w_ok := tl (w_ok r)\<rparr>))"

definition rioWrite :: "wio \<Rightarrow> bytes \<Rightarrow> bool \<times> wio" where
  "rioWrite r buf = rioFileWrite (if w_check r then r\<lparr>w_cksum := crc64 (w_cksum r) buf\<rparr> else r) buf"

definition rioFileRead :: "rio \<Rightarrow> nat \<Rightarrow> (bytes \<times> rio) option" where
  "rioFileRead r n =
     (if n = 0 \<or> length (r_in r) < n then None else Some (take n (r_in r), r\<lparr>r_in := drop n (r_in r)\<rparr>))"

definition rioRead :: "rio \<Rightarrow> nat \<Rightarrow> (bytes \<times> rio) option" where
  "rioRead r n =
     (case rioFileRead r n of
        None \<Rightarrow> None
      | Some (buf, r) \<Rightarrow> Some (buf, if r_check r then r\<lparr>r_cksum := crc64 (r_cksum r) buf\<rparr> else r))"

type_synonym save = "wio \<Rightarrow> (nat option \<times> wio) option"

definition rdbWriteRaw :: "bytes \<Rightarrow> save" where
  "rdbWriteRaw p r = (case rioWrite r p of (ok, r) \<Rightarrow> Some (if ok then Some (length p) else None, r))"

text \<open>\<^verbatim>\<open>if ((n = f) == -1) return -1; nwritten += n\<close>, and then the rest.\<close>

definition and_then :: "save \<Rightarrow> save \<Rightarrow> save" where
  "and_then f g r =
     (case f r of
        None \<Rightarrow> None
      | Some (None, r) \<Rightarrow> Some (None, r)
      | Some (Some n, r) \<Rightarrow> (case g r of None \<Rightarrow> None | Some (m, r) \<Rightarrow> Some (map_option ((+) n) m, r)))"

section \<open>Types, times and lengths\<close>

definition rdbSaveType :: "byte \<Rightarrow> save" where
  "rdbSaveType type = rdbWriteRaw [type]"

definition rdbLoadType :: "rio \<Rightarrow> (byte \<times> rio) option" where
  "rdbLoadType r = map_option (apfst hd) (rioRead r 1)"

definition rdbSaveMillisecondTime :: "int \<Rightarrow> save" where
  "rdbSaveMillisecondTime t = rdbWriteRaw (sle_bytes 8 t)"

text \<open>The return value -1 is also the error.\<close>

definition rdbLoadMillisecondTime :: "rio \<Rightarrow> int \<times> rio" where
  "rdbLoadMillisecondTime r = (case rioRead r 8 of None \<Rightarrow> (- 1, r) | Some (b, r) \<Rightarrow> (sle_int b, r))"

definition rdbLoadTime :: "rio \<Rightarrow> int \<times> rio" where
  "rdbLoadTime r = (case rioRead r 4 of None \<Rightarrow> (- 1, r) | Some (b, r) \<Rightarrow> (sle_int b, r))"

text \<open>
  A length of up to 6, 14 or 32 bits. The code compares the result of the last write with -4, which
  \<open>rdbWriteRaw\<close> never returns: its failure is not noticed.
\<close>

definition rdbSaveLen :: "nat \<Rightarrow> save" where
  "rdbSaveLen len r =
     (let len = len mod 2 ^ 32 in
      if len < 2 ^ 6 then rdbWriteRaw [of_nat len] r
      else if len < 2 ^ 14 then rdbWriteRaw [of_nat (len div 256) OR push_bit 6 1, of_nat len] r
      else
        (case rdbWriteRaw [push_bit 6 2] r of
           Some (Some _, r) \<Rightarrow> map_option (\<lambda>(_, r). (Some 5, r)) (rdbWriteRaw (rev (le_bytes 4 len)) r)
         | e \<Rightarrow> e))"

definition REDIS_RDB_LENERR :: nat where "REDIS_RDB_LENERR = 2 ^ 32 - 1"

definition rdbLoadLen :: "rio \<Rightarrow> bool \<times> nat \<times> rio" where
  "rdbLoadLen r =
     (case rioRead r 1 of
        None \<Rightarrow> (False, REDIS_RDB_LENERR, r)
      | Some (buf, r) \<Rightarrow>
          let b0 = hd buf; type = unat (drop_bit 6 (b0 AND 0xC0)) in
          if type = 3 then (True, unat (b0 AND 0x3F), r)
          else if type = 0 then (False, unat (b0 AND 0x3F), r)
          else if type = 1 then
            (case rioRead r 1 of
               None \<Rightarrow> (False, REDIS_RDB_LENERR, r)
             | Some (buf, r) \<Rightarrow> (False, unat (b0 AND 0x3F) * 256 + unat (hd buf), r))
          else
            (case rioRead r 4 of
               None \<Rightarrow> (False, REDIS_RDB_LENERR, r)
             | Some (buf, r) \<Rightarrow> (False, le_nat (rev buf), r)))"

section \<open>Strings\<close>

definition rdbEncodeInteger :: "int \<Rightarrow> bytes option" where
  "rdbEncodeInteger value =
     (if value \<ge> - (2 ^ 7) \<and> value \<le> 2 ^ 7 - 1 then Some (0xC0 # sle_bytes 1 value)
      else if value \<ge> - (2 ^ 15) \<and> value \<le> 2 ^ 15 - 1 then Some (0xC1 # sle_bytes 2 value)
      else if value \<ge> - (2 ^ 31) \<and> value \<le> 2 ^ 31 - 1 then Some (0xC2 # sle_bytes 4 value)
      else None)"

definition rdbTryIntegerEncoding :: "bytes \<Rightarrow> bytes option" where
  "rdbTryIntegerEncoding s =
     (case strtoll s of (value, endptr, _) \<Rightarrow>
        if endptr \<noteq> [] then None
        else if int_text 32 value \<noteq> s then None
        else rdbEncodeInteger value)"

text \<open>What the compressor finds in its uninitialised table and buffer, and the configuration.\<close>

record rdb_env =
  lz_tab :: "nat \<Rightarrow> int"
  lz_junk :: "nat \<Rightarrow> byte"
  rdb_compression :: bool

text \<open>\<open>Some 0\<close> means that the string was not compressed.\<close>

definition rdbSaveLzfStringObject :: "rdb_env \<Rightarrow> bytes \<Rightarrow> save" where
  "rdbSaveLzfStringObject env s r =
     (if length s \<le> 4 then Some (Some 0, r)
      else
        (let outlen = length s - 4 in
         case lzf_compress (lz_tab env) s (map (lz_junk env) [0..<outlen + 1]) outlen of
           None \<Rightarrow> None
         | Some (comprlen, out) \<Rightarrow>
             if comprlen = 0 then Some (Some 0, r)
             else
               and_then (rdbWriteRaw [0xC3])
                 (and_then (rdbSaveLen comprlen) (and_then (rdbSaveLen (length s)) (rdbWriteRaw (take comprlen out)))) r))"

definition rdbSaveRawString :: "rdb_env \<Rightarrow> bytes \<Rightarrow> save" where
  "rdbSaveRawString env s r =
     (let verbatim = (if length s > 0 then and_then (rdbSaveLen (length s)) (rdbWriteRaw s) else rdbSaveLen (length s));
          compress = (if rdb_compression env \<and> length s > 20 then
              (\<lambda>r. case rdbSaveLzfStringObject env s r of Some (Some 0, r) \<Rightarrow> verbatim r | res \<Rightarrow> res)
            else verbatim)
      in if length s \<le> 11 then (case rdbTryIntegerEncoding s of Some enc \<Rightarrow> rdbWriteRaw enc r | None \<Rightarrow> compress r)
         else compress r)"

definition rdbSaveLongLongAsStringObject :: "int \<Rightarrow> save" where
  "rdbSaveLongLongAsStringObject value =
     (case rdbEncodeInteger value of
        Some enc \<Rightarrow> rdbWriteRaw enc
      | None \<Rightarrow> (case ll2string 32 value of (buf, enclen) \<Rightarrow> and_then (rdbSaveLen enclen) (rdbWriteRaw (take enclen buf))))"

definition rdbSaveStringObject :: "rdb_env \<Rightarrow> 'o robj \<Rightarrow> save" where
  "rdbSaveStringObject env obj =
     (case obj of
        IntStr v \<Rightarrow> rdbSaveLongLongAsStringObject v
      | RawStr s \<Rightarrow> rdbSaveRawString env s
      | Other _ _ \<Rightarrow> (\<lambda>_. None))"

text \<open>The loaded object, where \<open>None\<close> is the null pointer.\<close>

type_synonym 'o loaded = "('o robj option \<times> rio) option"

definition rdbLoadIntegerObject :: "rio \<Rightarrow> nat \<Rightarrow> bool \<Rightarrow> 'o loaded" where
  "rdbLoadIntegerObject r enctype encode =
     (if enctype \<le> 2 then
        (case rioRead r (2 ^ enctype) of
           None \<Rightarrow> Some (None, r)
         | Some (enc, r) \<Rightarrow>
             let val = sle_int enc in
             Some (Some (if encode then createStringObjectFromLongLong val else RawStr (ll_repr val)), r))
      else None)"

definition rdbLoadLzfStringObject :: "rio \<Rightarrow> 'o loaded" where
  "rdbLoadLzfStringObject r =
     (case rdbLoadLen r of (_, clen, r) \<Rightarrow>
        if clen = REDIS_RDB_LENERR then Some (None, r)
        else
          case rdbLoadLen r of (_, len, r) \<Rightarrow>
            if len = REDIS_RDB_LENERR then Some (None, r)
            else
              case rioRead r clen of
                None \<Rightarrow> Some (None, r)
              | Some (c, r) \<Rightarrow>
                  (case lzf_decompress c (replicate len 0) len of
                     None \<Rightarrow> None
                   | Some (n, val) \<Rightarrow> if n = 0 then Some (None, r) else Some (Some (RawStr val), r)))"

definition rdbGenericLoadStringObject :: "bool \<Rightarrow> rio \<Rightarrow> 'o loaded" where
  "rdbGenericLoadStringObject encode r =
     (case rdbLoadLen r of (isencoded, len, r) \<Rightarrow>
        if isencoded then
          (if len \<le> 2 then rdbLoadIntegerObject r len encode
           else if len = 3 then rdbLoadLzfStringObject r
           else None)
        else if len = REDIS_RDB_LENERR then Some (None, r)
        else if len = 0 then Some (Some (RawStr []), r)
        else
          case rioRead r len of
            None \<Rightarrow> Some (None, r)
          | Some (val, r) \<Rightarrow> Some (Some (RawStr val), r))"

definition rdbLoadStringObject :: "rio \<Rightarrow> 'o loaded" where
  "rdbLoadStringObject = rdbGenericLoadStringObject False"

definition rdbLoadEncodedStringObject :: "rio \<Rightarrow> 'o loaded" where
  "rdbLoadEncodedStringObject = rdbGenericLoadStringObject True"

section \<open>What is written and what is read\<close>

lemma crc64_append: "crc64 c (a @ b) = crc64 (crc64 c a) b"
  by (induction a arbitrary: c) simp_all

definition emit :: "wio \<Rightarrow> bytes \<Rightarrow> wio" where
  "emit r bs = r\<lparr>w_out := w_out r @ bs, w_cksum := (if w_check r then crc64 (w_cksum r) bs else w_cksum r)\<rparr>"

lemma emit_emit [simp]: "emit (emit r a) b = emit r (a @ b)"
  by (simp add: emit_def crc64_append)

lemma emit_simps [simp]:
  "w_ok (emit r bs) = w_ok r" "w_check (emit r bs) = w_check r" "w_out (emit r bs) = w_out r @ bs"
  "w_cksum (emit r bs) = (if w_check r then crc64 (w_cksum r) bs else w_cksum r)" "emit r [] = r"
  by (simp_all add: emit_def)

text \<open>\<open>saves f bs\<close>: when the writes succeed, \<open>f\<close> writes \<open>bs\<close>.\<close>

definition saves :: "save \<Rightarrow> bytes \<Rightarrow> bool" where
  "saves f bs \<longleftrightarrow> (\<forall>r. w_ok r = [] \<longrightarrow> f r = Some (Some (length bs), emit r bs))"

lemma savesD: "saves f bs \<Longrightarrow> w_ok r = [] \<Longrightarrow> f r = Some (Some (length bs), emit r bs)"
  by (simp add: saves_def)

lemma saves_raw: "p \<noteq> [] \<Longrightarrow> saves (rdbWriteRaw p) p"
  by (auto simp: saves_def rdbWriteRaw_def rioWrite_def rioFileWrite_def emit_def Let_def)

lemma saves_then: "saves f a \<Longrightarrow> saves g b \<Longrightarrow> saves (and_then f g) (a @ b)"
  by (simp add: saves_def and_then_def)

definition eats :: "bytes \<Rightarrow> rio \<Rightarrow> rio" where
  "eats bs r = r\<lparr>r_in := drop (length bs) (r_in r), r_cksum := (if r_check r then crc64 (r_cksum r) bs else r_cksum r)\<rparr>"

lemma eats_eats [simp]: "eats b (eats a r) = eats (a @ b) r"
  by (simp add: eats_def crc64_append add.commute)

lemma eats_simps [simp]:
  "r_in (eats bs r) = drop (length bs) (r_in r)" "r_check (eats bs r) = r_check r"
  "r_cksum (eats bs r) = (if r_check r then crc64 (r_cksum r) bs else r_cksum r)" "eats [] r = r"
  by (simp_all add: eats_def)

lemma rioRead_eats: "r_in r = bs @ rest \<Longrightarrow> bs \<noteq> [] \<Longrightarrow> n = length bs \<Longrightarrow> rioRead r n = Some (bs, eats bs r)"
  by (simp add: rioRead_def rioFileRead_def eats_def)

text \<open>Lengths.\<close>

definition enc_len :: "nat \<Rightarrow> bytes" where
  "enc_len len =
     (if len < 2 ^ 6 then [of_nat len]
      else if len < 2 ^ 14 then [of_nat (len div 256) OR push_bit 6 1, of_nat len]
      else push_bit 6 2 # rev (le_bytes 4 len))"

lemma saves_len: "len < 2 ^ 32 \<Longrightarrow> saves (rdbSaveLen len) (enc_len len)"
  using saves_raw [of "[of_nat len]"] saves_raw [of "[of_nat (len div 256) OR push_bit 6 1, of_nat len]"]
    saves_raw [of "[push_bit 6 2]"] saves_raw [of "rev (le_bytes 4 len)"]
  by (auto simp: saves_def rdbSaveLen_def enc_len_def Let_def simp flip: length_0_conv)

lemma low6: "unat ((b :: byte) AND 0x3F) = unat b mod 64"
proof -
  have "b AND 0x3F = take_bit 6 b" by (simp add: take_bit_eq_mask mask_eq_exp_minus_1)
  then show ?thesis by (simp add: take_bit_eq_mod unat_mod_distrib)
qed

lemma high2: "unat (drop_bit 6 (b :: byte) AND 3) = unat b div 64"
proof -
  have "drop_bit 6 b AND 3 = take_bit 2 (drop_bit 6 b)" by (simp add: take_bit_eq_mask mask_eq_exp_minus_1)
  also have "\<dots> = drop_bit 6 b" by (rule bit_word_eqI) (auto simp: bit_simps dest: bit_imp_le_length)
  finally show ?thesis by (simp add: drop_bit_eq_div unat_div_distrib)
qed

lemma or64: "x < 64 \<Longrightarrow> unat ((of_nat x :: byte) OR push_bit 6 1) = x + 64"
proof -
  assume "x < 64"
  have "\<forall>x \<in> set [0..<64]. unat ((of_nat x :: byte) OR push_bit 6 1) = x + 64" by code_simp
  with \<open>x < 64\<close> show ?thesis by simp
qed

lemma load_len:
  assumes "r_in r = enc_len len @ rest" "len < 2 ^ 32"
  shows "rdbLoadLen r = (False, len, eats (enc_len len) r)"
proof -
  consider "len < 64" | "64 \<le> len" "len < 2 ^ 14" | "2 ^ 14 \<le> len" by linarith
  then show ?thesis
  proof cases
    case 1
    then have "unat (of_nat len :: byte) = len" by (simp add: unat_of_nat)
    then show ?thesis using 1 assms rioRead_eats [of r "[of_nat len]" rest 1]
      by (simp add: rdbLoadLen_def enc_len_def low6 high2 Let_def)
  next
    case 2
    let ?b = "of_nat (len div 256) OR push_bit 6 1 :: byte"
    have b: "unat ?b = len div 256 + 64" using 2 by (intro or64) simp
    have r1: "rioRead r 1 = Some ([?b], eats [?b] r)"
      using 2 assms(1) by (intro rioRead_eats) (auto simp: enc_len_def)
    have r2: "rioRead (eats [?b] r) 1 = Some ([of_nat len], eats [?b, of_nat len] r)"
      using 2 assms(1) rioRead_eats [of "eats [?b] r" "[of_nat len]" rest 1] by (simp add: enc_len_def)
    have "(len div 256 + 64) div 64 = 1" "(len div 256 + 64) mod 64 = len div 256"
      using 2 by (auto simp: div_add_self2)
    then show ?thesis using 2 r1 r2 b
      by (simp add: rdbLoadLen_def enc_len_def low6 high2 Let_def unat_of_nat)
  next
    case 3
    have r1: "rioRead r 1 = Some ([push_bit 6 2], eats [push_bit 6 2] r)"
      using 3 assms(1) by (intro rioRead_eats) (auto simp: enc_len_def)
    have r2: "rioRead (eats [push_bit 6 2] r) 4 = Some (rev (le_bytes 4 len), eats (push_bit 6 2 # rev (le_bytes 4 len)) r)"
      using 3 assms(1) rioRead_eats [of "eats [push_bit 6 2] r" "rev (le_bytes 4 len)" rest 4]
      by (simp add: enc_len_def flip: length_0_conv)
    have "le_nat (le_bytes 4 len) = len" using assms(2) by (simp add: le_nat_le_bytes)
    then show ?thesis using 3 r1 r2 high2 [of "push_bit 6 2"]
      by (simp add: rdbLoadLen_def enc_len_def Let_def)
  qed
qed

lemma enc_len_nonempty [simp]: "enc_len n \<noteq> []"
  by (simp add: enc_len_def)

section \<open>Strings are read back\<close>

text \<open>\<open>restores bs obj\<close>: reading \<open>bs\<close> gives a string object with the text of \<open>obj\<close>, whatever follows.\<close>

definition restores :: "bytes \<Rightarrow> 'o robj \<Rightarrow> bool" where
  "restores bs obj \<longleftrightarrow> (\<forall>r rest encode. r_in r = bs @ rest \<longrightarrow>
     (\<exists>o' :: 'o robj. rdbGenericLoadStringObject encode r = Some (Some o', eats bs r) \<and> str_of o' = str_of obj \<and>
        is_string o' \<and> obj_ok o' \<and> (\<not> encode \<longrightarrow> o' = RawStr (str_of obj))))"

lemma load_encoded:
  assumes "r_in r = b # rest" "192 \<le> unat b"
  shows "rdbLoadLen r = (True, unat b - 192, eats [b] r)"
proof -
  have "unat b div 64 = 3" using assms(2) unat_byte_less [of b] by (simp add: div_nat_eqI)
  moreover from this have "unat b mod 64 = unat b - 192" using minus_mult_div_eq_mod [of "unat b" 64] by simp
  ultimately have "unat b div 64 = 3" "unat b mod 64 = unat b - 192" by simp_all
  then show ?thesis
    using rioRead_eats [of r "[b]" rest 1] assms(1) by (simp add: rdbLoadLen_def low6 high2 Let_def)
qed

lemma encode_integer_cases:
  assumes "rdbEncodeInteger v = Some bs"
  shows "\<exists>n \<le> 2. bs = of_nat (192 + n) # sle_bytes (2 ^ n) v \<and> sfits (2 ^ n) v"
proof -
  consider "bs = 0xC0 # sle_bytes 1 v" "sfits 1 v" | "bs = 0xC1 # sle_bytes 2 v" "sfits 2 v"
    | "bs = 0xC2 # sle_bytes 4 v" "sfits 4 v"
    using assms by (auto simp: rdbEncodeInteger_def sfits_def split: if_splits)
  then show ?thesis
  proof cases
    case 1 then show ?thesis by (intro exI [of _ 0]) simp
  next
    case 2 then show ?thesis by (intro exI [of _ 1]) simp
  next
    case 3 then show ?thesis by (intro exI [of _ 2]) simp
  qed
qed

lemma sfits_ll: "sfits (2 ^ n) v \<Longrightarrow> n \<le> 2 \<Longrightarrow> is_ll v"
  by (auto simp: sfits_def is_ll_def le_Suc_eq numeral_2_eq_2)

lemma encode_integer_restores:
  assumes "rdbEncodeInteger v = Some bs" "str_of obj = ll_repr v"
  shows "restores bs obj"
proof -
  obtain n where n: "n \<le> 2" "bs = of_nat (192 + n) # sle_bytes (2 ^ n) v" "sfits (2 ^ n) v"
    using encode_integer_cases [OF assms(1)] by blast
  have u: "unat (of_nat (192 + n) :: byte) = 192 + n" using n(1) by (simp add: unat_of_nat del: of_nat_add)
  show ?thesis
    unfolding restores_def
  proof (intro allI impI)
    fix r :: rio and rest encode assume r: "r_in r = bs @ rest"
    then have "rdbLoadLen r = (True, n, eats [of_nat (192 + n)] r)"
      using load_encoded [of r "of_nat (192 + n)" "sle_bytes (2 ^ n) v @ rest"] n(2) u by simp
    moreover have "rioRead (eats [of_nat (192 + n)] r) (2 ^ n) = Some (sle_bytes (2 ^ n) v, eats bs r)"
      using rioRead_eats [of "eats [of_nat (192 + n)] r" "sle_bytes (2 ^ n) v" rest "2 ^ n"] r n(2)
      by (simp flip: length_0_conv)
    moreover have "sle_int (sle_bytes (2 ^ n) v) = v" using n(3) by (rule sle_int_sle_bytes)
    ultimately show "\<exists>o' :: 'a robj. rdbGenericLoadStringObject encode r = Some (Some o', eats bs r) \<and> str_of o' = str_of obj \<and>
        is_string o' \<and> obj_ok o' \<and> (\<not> encode \<longrightarrow> o' = RawStr (str_of obj))"
      using n(1) assms(2) sfits_ll [OF n(3,1)]
      by (simp add: rdbGenericLoadStringObject_def rdbLoadIntegerObject_def createStringObjectFromLongLong_ok)
  qed
qed

lemma verbatim_restores:
  assumes "s = str_of obj" "length s < 2 ^ 32 - 1"
  shows "restores (enc_len (length s) @ s) obj"
  unfolding restores_def
proof (intro allI impI)
  fix r :: rio and rest encode assume r: "r_in r = (enc_len (length s) @ s) @ rest"
  have "rdbLoadLen r = (False, length s, eats (enc_len (length s)) r)"
    using load_len [of r "length s" "s @ rest"] r assms(2) by simp
  moreover have "s \<noteq> [] \<Longrightarrow> rioRead (eats (enc_len (length s)) r) (length s) = Some (s, eats (enc_len (length s) @ s) r)"
    using rioRead_eats [of "eats (enc_len (length s)) r" s rest] r by simp
  ultimately show "\<exists>o' :: 'a robj. rdbGenericLoadStringObject encode r = Some (Some o', eats (enc_len (length s) @ s) r) \<and>
      str_of o' = str_of obj \<and> is_string o' \<and> obj_ok o' \<and> (\<not> encode \<longrightarrow> o' = RawStr (str_of obj))"
    using assms by (auto simp: rdbGenericLoadStringObject_def REDIS_RDB_LENERR_def)
qed

lemma compressed_restores:
  assumes "s = str_of obj" "length s < 2 ^ 32 - 1" "c \<noteq> []" "length c < 2 ^ 32 - 1"
    and "lzf_decompress c (replicate (length s) 0) (length s) = Some (length s, s)" "s \<noteq> []"
  shows "restores (0xC3 # enc_len (length c) @ enc_len (length s) @ c) obj"
  unfolding restores_def
proof (intro allI impI)
  let ?bs = "0xC3 # enc_len (length c) @ enc_len (length s) @ c"
  fix r :: rio and rest encode assume r: "r_in r = ?bs @ rest"
  let ?r1 = "eats [0xC3] r" let ?r2 = "eats (enc_len (length c)) ?r1" let ?r3 = "eats (enc_len (length s)) ?r2"
  have "rdbLoadLen r = (True, 3, ?r1)" using load_encoded [of r "0xC3"] r by simp
  moreover have "rdbLoadLen ?r1 = (False, length c, ?r2)" using load_len [of ?r1 "length c"] r assms(4) by simp
  moreover have "rdbLoadLen ?r2 = (False, length s, ?r3)" using load_len [of ?r2 "length s"] r assms(2) by simp
  moreover have "rioRead ?r3 (length c) = Some (c, eats ?bs r)" using rioRead_eats [of ?r3 c rest] r assms(3) by simp
  ultimately show "\<exists>o' :: 'a robj. rdbGenericLoadStringObject encode r = Some (Some o', eats ?bs r) \<and>
      str_of o' = str_of obj \<and> is_string o' \<and> obj_ok o' \<and> (\<not> encode \<longrightarrow> o' = RawStr (str_of obj))"
    using assms by (simp add: rdbGenericLoadStringObject_def rdbLoadLzfStringObject_def REDIS_RDB_LENERR_def del: eats_eats)
qed

lemma saves_cong: "(\<And>r. w_ok r = [] \<Longrightarrow> f r = g r) \<Longrightarrow> saves f bs = saves g bs"
  by (simp add: saves_def)

lemma save_lzf:
  assumes "s = str_of obj" "5 \<le> length s" "length s < 2 ^ 32 - 1" "\<forall>h. is_ll (lz_tab env h)"
  shows "(\<forall>r. rdbSaveLzfStringObject env s r = Some (Some 0, r)) \<or>
    (\<exists>bs. saves (rdbSaveLzfStringObject env s) bs \<and> bs \<noteq> [] \<and> restores bs obj)"
proof -
  let ?out = "map (lz_junk env) [0..<length s - 4 + 1]"
  have l: "length s - 4 < length ?out" "length s < 2 ^ 32" "2 \<le> length s" using assms(2,3) by simp_all
  obtain n b where n: "lzf_compress (lz_tab env) s ?out (length s - 4) = Some (n, b)" "n \<le> length s - 4"
      "n \<noteq> 0 \<longrightarrow> encodes (take n b) s \<and> n \<le> length b"
    using compress_encodes [OF l(3,2,1) assms(4)] by blast
  have sv: "rdbSaveLzfStringObject env s = (if n = 0 then (\<lambda>r. Some (Some 0, r)) else
      and_then (rdbWriteRaw [0xC3]) (and_then (rdbSaveLen n) (and_then (rdbSaveLen (length s)) (rdbWriteRaw (take n b)))))"
    using n(1) assms(2) by (auto simp: rdbSaveLzfStringObject_def fun_eq_iff)
  show ?thesis
  proof (cases "n = 0")
    case True
    then show ?thesis using sv by simp
  next
    case False
    let ?c = "take n b"
    have e: "encodes ?c s" using n(3) False by simp
    have c: "?c \<noteq> []" using encodes_empty [OF e] assms(2) by fastforce
    have n': "length ?c = n" "n < 2 ^ 32 - 1" using n(2,3) False assms(3) by simp_all
    have d: "lzf_decompress ?c (replicate (length s) 0) (length s) = Some (length s, s)"
      using decompress_encodes [OF e c, of "length s" "replicate (length s) 0"] by auto
    let ?bs = "[0xC3] @ enc_len n @ enc_len (length s) @ ?c"
    have "saves (rdbSaveLzfStringObject env s) ?bs"
      using False assms(3) n'(2) c unfolding sv if_not_P [OF False]
      by (intro saves_then saves_raw saves_len) simp_all
    moreover have "restores ?bs obj"
      using compressed_restores [OF assms(1,3) c _ d] n' assms(2) by (cases s) auto
    ultimately show ?thesis by blast
  qed
qed

lemma saves_verbatim:
  assumes "length s < 2 ^ 32 - 1"
  shows "saves (if length s > 0 then and_then (rdbSaveLen (length s)) (rdbWriteRaw s) else rdbSaveLen (length s)) (enc_len (length s) @ s)"
  using assms saves_then [OF saves_len saves_raw, of "length s" s] saves_len [of 0] by (cases s) auto

lemma try_integer_restores:
  assumes "rdbTryIntegerEncoding s = Some bs" "s = str_of obj"
  shows "saves (rdbWriteRaw bs) bs \<and> bs \<noteq> [] \<and> restores bs obj"
proof -
  obtain v where v: "rdbEncodeInteger v = Some bs" "int_text 32 v = s"
    using assms(1) by (auto simp: rdbTryIntegerEncoding_def split: prod.splits if_splits)
  then have ll: "is_ll v" using encode_integer_cases [OF v(1)] sfits_ll by blast
  then have "s = ll_repr v" using v(2) int_text_ok by simp
  moreover have "bs \<noteq> []" using encode_integer_cases [OF v(1)] by auto
  ultimately show ?thesis using v(1) assms(2) encode_integer_restores saves_raw by metis
qed

lemma save_raw_string:
  assumes "s = str_of obj" "length s < 2 ^ 32 - 1" "\<forall>h. is_ll (lz_tab env h)"
  shows "\<exists>bs. saves (rdbSaveRawString env s) bs \<and> bs \<noteq> [] \<and> restores bs obj"
proof -
  let ?v = "if length s > 0 then and_then (rdbSaveLen (length s)) (rdbWriteRaw s) else rdbSaveLen (length s)"
  define cmp where "cmp = (if rdb_compression env \<and> length s > 20 then
      (\<lambda>r. case rdbSaveLzfStringObject env s r of Some (Some 0, r) \<Rightarrow> ?v r | res \<Rightarrow> res) else ?v)"
  have def: "rdbSaveRawString env s = (if length s \<le> 11 then
      (case rdbTryIntegerEncoding s of Some enc \<Rightarrow> rdbWriteRaw enc | None \<Rightarrow> cmp) else cmp)"
    by (auto simp: rdbSaveRawString_def cmp_def Let_def fun_eq_iff split: option.split)
  have v: "saves ?v (enc_len (length s) @ s)" "restores (enc_len (length s) @ s) obj"
    using saves_verbatim verbatim_restores assms by blast+
  have "\<exists>bs. saves cmp bs \<and> bs \<noteq> [] \<and> restores bs obj"
  proof (cases "rdb_compression env \<and> length s > 20")
    case False
    then have "cmp = ?v" unfolding cmp_def by (rule if_not_P)
    then show ?thesis using v by force
  next
    case True
    then have c: "cmp = (\<lambda>r. case rdbSaveLzfStringObject env s r of Some (Some 0, r) \<Rightarrow> ?v r | res \<Rightarrow> res)"
      unfolding cmp_def by (rule if_P)
    from save_lzf [OF assms(1) _ assms(2,3)] True consider
        "\<forall>r. rdbSaveLzfStringObject env s r = Some (Some 0, r)"
      | bs where "saves (rdbSaveLzfStringObject env s) bs" "bs \<noteq> []" "restores bs obj" by auto
    then show ?thesis
    proof cases
      case 1
      then have "cmp = ?v" unfolding c by simp
      then show ?thesis using v by force
    next
      case 2
      then have "saves cmp bs" unfolding c saves_def by (auto split: nat.split)
      then show ?thesis using 2 by blast
    qed
  qed
  moreover have "\<exists>bs. saves (rdbWriteRaw enc) bs \<and> bs \<noteq> [] \<and> restores bs obj"
    if "rdbTryIntegerEncoding s = Some enc" for enc
    using try_integer_restores [OF that assms(1)] by blast
  ultimately show ?thesis unfolding def by (simp split: option.split)
qed

lemma save_string_object:
  assumes "is_string obj" "obj_ok obj" "length (str_of obj) < 2 ^ 32 - 1" "\<forall>h. is_ll (lz_tab env h)"
  shows "\<exists>bs. saves (rdbSaveStringObject env obj) bs \<and> bs \<noteq> [] \<and> restores bs obj"
proof (cases obj)
  case (RawStr s)
  then show ?thesis using save_raw_string [of s obj env] assms by (simp add: rdbSaveStringObject_def)
next
  case (IntStr v)
  show ?thesis
  proof (cases "rdbEncodeInteger v")
    case None
    let ?s = "ll_repr v"
    have "ll2string 32 v = (?s @ [0], length ?s)" using IntStr assms(2) ll2string_take [of v 32] by simp
    then have "saves (rdbSaveStringObject env obj) (enc_len (length ?s) @ ?s)"
      using IntStr None assms(3) by (auto simp: rdbSaveStringObject_def rdbSaveLongLongAsStringObject_def ll_repr_def dec_nonempty
          intro!: saves_then saves_len saves_raw)
    then show ?thesis using verbatim_restores [of ?s obj] IntStr assms(3) by force
  next
    case (Some bs)
    then have "saves (rdbSaveStringObject env obj) bs" "bs \<noteq> []"
      using IntStr encode_integer_cases [OF Some] saves_raw [of bs]
      by (auto simp: rdbSaveStringObject_def rdbSaveLongLongAsStringObject_def)
    then show ?thesis using encode_integer_restores [OF Some] IntStr by force
  qed
next
  case Other
  then show ?thesis using assms(1) by simp
qed

text \<open>When the four bytes of a length cannot be written, the length counts as written.\<close>

lemma rdbSaveLen_unnoticed:
  assumes "2 ^ 14 \<le> len" "len < 2 ^ 32" "w_ok r = [True, False]"
  shows "\<exists>r'. rdbSaveLen len r = Some (Some 5, r') \<and> w_out r' = w_out r @ [0x80]"
  using assms by (auto simp: rdbSaveLen_def rdbWriteRaw_def rioWrite_def rioFileWrite_def Let_def)

end
