(* ===== verification/Keyspace.thy ===== *)
theory Keyspace
  imports Redis_Object "HOL-Library.Monad_Syntax"
begin

text \<open>
  \<^verbatim>\<open>debug/redis/src/db.c\<close>: the key space with its expiry times, and the commands that do not depend on
  the type of a value. The two hash tables of a database are maps (\<^verbatim>\<open>dict.c\<close> implements maps: theory Dict).
  A command is a function from the server and the number of the selected database to the new server
  and the reply, \<open>None\<close> when an assertion fails. The clock stands still during a command. The hooks for
  modified keys and flushed databases are recorded in \<open>signals\<close>, in their order; the deletions that
  expiry propagates are recorded in \<open>aof_log\<close> and \<open>repl_log\<close>. The access time of objects and the background
  save that \<^verbatim>\<open>FLUSHALL\<close> may start are left out.
\<close>

record 'o redisDb =
  db_dict :: "bytes \<rightharpoonup> 'o robj"
  expires :: "bytes \<rightharpoonup> int"

datatype signal = Modified nat bytes | Flushed int

record 'o server =
  dbs :: "nat \<Rightarrow> 'o redisDb"
  dbnum :: nat
  dirty :: int
  loading :: bool
  masterhost :: bool
  mstime :: int
  aof_on :: bool
  has_slaves :: bool
  aof_log :: "(nat \<times> bytes) list"
  repl_log :: "(nat \<times> bytes) list"
  signals :: "signal list"
  stat_hits :: nat
  stat_misses :: nat
  stat_expired :: nat

datatype reply = ROk | RErr string | RInt int | RBulk bytes | RNull | REmpty | RStatus string | RMulti "reply list"

type_synonym 'o command = "'o server \<Rightarrow> nat \<Rightarrow> ('o server \<times> reply) option"

definition upd_db :: "'o server \<Rightarrow> nat \<Rightarrow> ('o redisDb \<Rightarrow> 'o redisDb) \<Rightarrow> 'o server" where
  "upd_db s i f = s\<lparr>dbs := (dbs s)(i := f (dbs s i))\<rparr>"

abbreviation add_dirty :: "int \<Rightarrow> 'o server \<Rightarrow> 'o server" where
  "add_dirty n s \<equiv> s\<lparr>dirty := dirty s + n\<rparr>"

text \<open>Arithmetic on \<^verbatim>\<open>long long\<close> that wraps around (undefined in C, as compiled here).\<close>

definition wrap_ll :: "int \<Rightarrow> int" where
  "wrap_ll v = to_ll (of_ll v)"

section \<open>The low-level API\<close>

definition lookupKey :: "'o server \<Rightarrow> nat \<Rightarrow> bytes \<Rightarrow> 'o robj option" where
  "lookupKey s i key = db_dict (dbs s i) key"

definition signalModifiedKey :: "'o server \<Rightarrow> nat \<Rightarrow> bytes \<Rightarrow> 'o server" where
  "signalModifiedKey s i key = s\<lparr>signals := signals s @ [Modified i key]\<rparr>"

definition signalFlushedDb :: "'o server \<Rightarrow> int \<Rightarrow> 'o server" where
  "signalFlushedDb s dbid = s\<lparr>signals := signals s @ [Flushed dbid]\<rparr>"

definition dbDelete :: "'o server \<Rightarrow> nat \<Rightarrow> bytes \<Rightarrow> bool \<times> 'o server" where
  "dbDelete s i key =
     (let s = upd_db s i (\<lambda>d. d\<lparr>expires := (expires d)(key := None)\<rparr>) in
      if db_dict (dbs s i) key \<noteq> None
      then (True, upd_db s i (\<lambda>d. d\<lparr>db_dict := (db_dict d)(key := None)\<rparr>))
      else (False, s))"

definition getExpire :: "'o server \<Rightarrow> nat \<Rightarrow> bytes \<Rightarrow> int option" where
  "getExpire s i key =
     (case expires (dbs s i) key of
        None \<Rightarrow> Some (- 1)
      | Some when \<Rightarrow> if db_dict (dbs s i) key = None then None else Some when)"

definition propagateExpire :: "'o server \<Rightarrow> nat \<Rightarrow> bytes \<Rightarrow> 'o server" where
  "propagateExpire s i key =
     (let s = (if aof_on s then s\<lparr>aof_log := aof_log s @ [(i, key)]\<rparr> else s)
      in if has_slaves s then s\<lparr>repl_log := repl_log s @ [(i, key)]\<rparr> else s)"

definition expireIfNeeded :: "'o server \<Rightarrow> nat \<Rightarrow> bytes \<Rightarrow> (bool \<times> 'o server) option" where
  "expireIfNeeded s i key =
     do { when \<leftarrow> getExpire s i key;
          if when < 0 then Some (False, s)
          else if loading s then Some (False, s)
          else if masterhost s then Some (mstime s > when, s)
          else if mstime s \<le> when then Some (False, s)
          else
            let s = s\<lparr>stat_expired := stat_expired s + 1\<rparr>;
                s = propagateExpire s i key
            in Some (dbDelete s i key) }"

definition lookupKeyRead :: "'o server \<Rightarrow> nat \<Rightarrow> bytes \<Rightarrow> ('o robj option \<times> 'o server) option" where
  "lookupKeyRead s i key =
     do { (_, s) \<leftarrow> expireIfNeeded s i key;
          let val = lookupKey s i key;
          Some (val, (if val = None then s\<lparr>stat_misses := stat_misses s + 1\<rparr> else s\<lparr>stat_hits := stat_hits s + 1\<rparr>)) }"

definition lookupKeyWrite :: "'o server \<Rightarrow> nat \<Rightarrow> bytes \<Rightarrow> ('o robj option \<times> 'o server) option" where
  "lookupKeyWrite s i key = do { (_, s) \<leftarrow> expireIfNeeded s i key; Some (lookupKey s i key, s) }"

definition dbAdd :: "'o server \<Rightarrow> nat \<Rightarrow> bytes \<Rightarrow> 'o robj \<Rightarrow> 'o server option" where
  "dbAdd s i key val =
     (if db_dict (dbs s i) key \<noteq> None then None
      else Some (upd_db s i (\<lambda>d. d\<lparr>db_dict := (db_dict d)(key \<mapsto> val)\<rparr>)))"

definition dbOverwrite :: "'o server \<Rightarrow> nat \<Rightarrow> bytes \<Rightarrow> 'o robj \<Rightarrow> 'o server option" where
  "dbOverwrite s i key val =
     (if db_dict (dbs s i) key = None then None
      else Some (upd_db s i (\<lambda>d. d\<lparr>db_dict := (db_dict d)(key \<mapsto> val)\<rparr>)))"

definition removeExpire :: "'o server \<Rightarrow> nat \<Rightarrow> bytes \<Rightarrow> (bool \<times> 'o server) option" where
  "removeExpire s i key =
     (if db_dict (dbs s i) key = None then None
      else Some (expires (dbs s i) key \<noteq> None, upd_db s i (\<lambda>d. d\<lparr>expires := (expires d)(key := None)\<rparr>)))"

definition setExpire :: "'o server \<Rightarrow> nat \<Rightarrow> bytes \<Rightarrow> int \<Rightarrow> 'o server option" where
  "setExpire s i key when =
     (if db_dict (dbs s i) key = None then None
      else Some (upd_db s i (\<lambda>d. d\<lparr>expires := (expires d)(key \<mapsto> when)\<rparr>)))"

definition setKey :: "'o server \<Rightarrow> nat \<Rightarrow> bytes \<Rightarrow> 'o robj \<Rightarrow> 'o server option" where
  "setKey s i key val =
     do { (old, s) \<leftarrow> lookupKeyWrite s i key;
          s \<leftarrow> (if old = None then dbAdd s i key val else dbOverwrite s i key val);
          (_, s) \<leftarrow> removeExpire s i key;
          Some (signalModifiedKey s i key) }"

definition dbExists :: "'o server \<Rightarrow> nat \<Rightarrow> bytes \<Rightarrow> bool" where
  "dbExists s i key \<longleftrightarrow> db_dict (dbs s i) key \<noteq> None"

definition empty_db :: "'o redisDb \<Rightarrow> 'o redisDb" where
  "empty_db d = d\<lparr>db_dict := Map.empty, expires := Map.empty\<rparr>"

definition db_size :: "'o server \<Rightarrow> nat \<Rightarrow> int" where
  "db_size s i = int (card (dom (db_dict (dbs s i))))"

fun emptyDb_loop :: "nat \<Rightarrow> nat \<Rightarrow> 'o server \<Rightarrow> int \<Rightarrow> 'o server \<times> int" where
  "emptyDb_loop j 0 s removed = (s, removed)"
| "emptyDb_loop j (Suc n) s removed = emptyDb_loop (Suc j) n (upd_db s j empty_db) (removed + db_size s j)"

definition emptyDb :: "'o server \<Rightarrow> 'o server \<times> int" where
  "emptyDb s = emptyDb_loop 0 (dbnum s) s 0"

definition selectDb :: "'o server \<Rightarrow> int \<Rightarrow> nat option" where
  "selectDb s dbid = (if dbid < 0 \<or> dbid \<ge> int (dbnum s) then None else Some (nat dbid))"

section \<open>Commands on keys of any type\<close>

definition flushdbCommand :: "'o command" where
  "flushdbCommand s i =
     (let s = add_dirty (db_size s i) s;
          s = signalFlushedDb s (int i);
          s = upd_db s i empty_db
      in Some (s, ROk))"

definition flushallCommand :: "'o command" where
  "flushallCommand s i =
     (let s = signalFlushedDb s (- 1); (s, removed) = emptyDb s; s = add_dirty removed s; s = add_dirty 1 s
      in Some (s, ROk))"

fun del_loop :: "'o server \<Rightarrow> nat \<Rightarrow> bytes list \<Rightarrow> int \<Rightarrow> 'o server \<times> int" where
  "del_loop s i [] deleted = (s, deleted)"
| "del_loop s i (key # keys) deleted =
     (case dbDelete s i key of (ok, s) \<Rightarrow>
        if ok then del_loop (add_dirty 1 (signalModifiedKey s i key)) i keys (deleted + 1)
        else del_loop s i keys deleted)"

definition delCommand :: "bytes list \<Rightarrow> 'o command" where
  "delCommand keys s i = (case del_loop s i keys 0 of (s, deleted) \<Rightarrow> Some (s, RInt deleted))"

definition existsCommand :: "bytes \<Rightarrow> 'o command" where
  "existsCommand key s i =
     do { (_, s) \<leftarrow> expireIfNeeded s i key; Some (s, if dbExists s i key then RInt 1 else RInt 0) }"

definition selectCommand :: "bytes \<Rightarrow> 'o server \<Rightarrow> nat \<Rightarrow> (nat \<times> reply) option" where
  "selectCommand arg s i =
     do { r \<leftarrow> getLongFromObject (Some (RawStr arg :: 'o robj));
          case r of
            None \<Rightarrow> Some (i, RErr ''ERR invalid DB index'')
          | Some dbid \<Rightarrow> (case selectDb s dbid of None \<Rightarrow> Some (i, RErr ''ERR invalid DB index'') | Some j \<Rightarrow> Some (j, ROk)) }"

definition dbsizeCommand :: "'o command" where
  "dbsizeCommand s i = Some (s, RInt (db_size s i))"

definition type_name :: "'o robj \<Rightarrow> string" where
  "type_name o' = (case o' of
     Other REDIS_LIST _ \<Rightarrow> ''list'' | Other REDIS_SET _ \<Rightarrow> ''set'' | Other REDIS_ZSET _ \<Rightarrow> ''zset''
   | Other REDIS_HASH _ \<Rightarrow> ''hash'' | _ \<Rightarrow> ''string'')"

definition typeCommand :: "bytes \<Rightarrow> 'o command" where
  "typeCommand key s i =
     do { (v, s) \<leftarrow> lookupKeyRead s i key;
          Some (s, RStatus (case v of None \<Rightarrow> ''none'' | Some o' \<Rightarrow> type_name o')) }"

definition renameGenericCommand :: "bytes \<Rightarrow> bytes \<Rightarrow> bool \<Rightarrow> 'o command" where
  "renameGenericCommand src dst nx s i =
     (if src = dst then Some (s, RErr ''ERR source and destination objects are the same'')
      else
        do { (v, s) \<leftarrow> lookupKeyWrite s i src;
             case v of
               None \<Rightarrow> Some (s, RErr ''ERR no such key'')
             | Some o' \<Rightarrow>
                 do { expire \<leftarrow> getExpire s i src;
                      (w, s) \<leftarrow> lookupKeyWrite s i dst;
                      if w \<noteq> None \<and> nx then Some (s, RInt 0)
                      else
                        do { let s = (if w \<noteq> None then snd (dbDelete s i dst) else s);
                             s \<leftarrow> dbAdd s i dst o';
                             s \<leftarrow> (if expire \<noteq> - 1 then setExpire s i dst expire else Some s);
                             let s = snd (dbDelete s i src);
                             let s = signalModifiedKey s i src;
                             let s = signalModifiedKey s i dst;
                             let s = add_dirty 1 s;
                             Some (s, if nx then RInt 1 else ROk) } } })"

text \<open>\<^verbatim>\<open>atoi\<close> as the conversion by \<open>strtoll\<close>, cut to 32 bits.\<close>

definition atoi :: "bytes \<Rightarrow> int" where
  "atoi s = sint (word_of_int (fst (strtoll s)) :: 32 word)"

definition moveCommand :: "bytes \<Rightarrow> bytes \<Rightarrow> 'o command" where
  "moveCommand key arg s src =
     (case selectDb s (atoi arg) of
        None \<Rightarrow> Some (s, RErr ''ERR index out of range'')
      | Some dst \<Rightarrow>
          if src = dst then Some (s, RErr ''ERR source and destination objects are the same'')
          else
            do { (v, s) \<leftarrow> lookupKeyWrite s src key;
                 case v of
                   None \<Rightarrow> Some (s, RInt 0)
                 | Some o' \<Rightarrow>
                     do { (w, s) \<leftarrow> lookupKeyWrite s dst key;
                          if w \<noteq> None then Some (s, RInt 0)
                          else
                            do { s \<leftarrow> dbAdd s dst key o';
                                 let s = snd (dbDelete s src key);
                                 Some (add_dirty 1 s, RInt 1) } } })"

section \<open>Commands on expiry times\<close>

definition expireGenericCommand :: "bytes \<Rightarrow> bytes \<Rightarrow> int \<Rightarrow> bool \<Rightarrow> 'o command" where
  "expireGenericCommand key param basetime unit_seconds s i =
     do { r \<leftarrow> getLongLongFromObject (Some (RawStr param :: 'o robj));
          case r of
            None \<Rightarrow> Some (s, RErr ''ERR value is not an integer or out of range'')
          | Some when \<Rightarrow>
              do { let when = (if unit_seconds then wrap_ll (when * 1000) else when);
                   let when = wrap_ll (when + basetime);
                   (v, s) \<leftarrow> lookupKeyRead s i key;
                   if v = None then Some (s, RInt 0)
                   else if when \<le> mstime s \<and> \<not> loading s \<and> \<not> masterhost s then
                     (case dbDelete s i key of (ok, s) \<Rightarrow>
                        if \<not> ok then None
                        else Some (signalModifiedKey (add_dirty 1 s) i key, RInt 1))
                   else
                     do { s \<leftarrow> setExpire s i key when;
                          Some (add_dirty 1 (signalModifiedKey s i key), RInt 1) } } }"

definition expireCommand :: "bytes \<Rightarrow> bytes \<Rightarrow> 'o command" where
  "expireCommand key param s i = expireGenericCommand key param (mstime s) True s i"

definition expireatCommand :: "bytes \<Rightarrow> bytes \<Rightarrow> 'o command" where
  "expireatCommand key param s i = expireGenericCommand key param 0 True s i"

definition pexpireCommand :: "bytes \<Rightarrow> bytes \<Rightarrow> 'o command" where
  "pexpireCommand key param s i = expireGenericCommand key param (mstime s) False s i"

definition pexpireatCommand :: "bytes \<Rightarrow> bytes \<Rightarrow> 'o command" where
  "pexpireatCommand key param s i = expireGenericCommand key param 0 False s i"

definition ttlGenericCommand :: "bytes \<Rightarrow> bool \<Rightarrow> 'o command" where
  "ttlGenericCommand key output_ms s i =
     do { expire \<leftarrow> getExpire s i key;
          let ttl = (if expire \<noteq> - 1 then (let t = wrap_ll (expire - mstime s) in if t < 0 then - 1 else t) else - 1);
          Some (s, if ttl = - 1 then RInt (- 1) else RInt (if output_ms then ttl
              else (let u = wrap_ll (ttl + 500) in if u < 0 then - (- u div 1000) else u div 1000))) }"

definition persistCommand :: "bytes \<Rightarrow> 'o command" where
  "persistCommand key s i =
     (if db_dict (dbs s i) key = None then Some (s, RInt 0)
      else do { (ok, s) \<leftarrow> removeExpire s i key;
                Some (if ok then (add_dirty 1 s, RInt 1) else (s, RInt 0)) })"

section \<open>The invariant and the reported changes\<close>

text \<open>Every key with an expiry time exists, and integer-encoded values are 64-bit integers.\<close>

definition keys_ok :: "'o server \<Rightarrow> bool" where
  "keys_ok s \<longleftrightarrow> (\<forall>i. dom (expires (dbs s i)) \<subseteq> dom (db_dict (dbs s i)) \<and>
     (\<forall>k o'. db_dict (dbs s i) k = Some o' \<longrightarrow> obj_ok o'))"

definition keyval :: "'o server \<Rightarrow> nat \<Rightarrow> bytes \<Rightarrow> 'o robj option \<times> int option" where
  "keyval s d k = (db_dict (dbs s d) k, expires (dbs s d) k)"

text \<open>
  \<open>eff s s' K new\<close>: from \<open>s\<close> to \<open>s'\<close> only keys in \<open>K\<close> changed, the hooks in \<open>new\<close> were called, and
  the configuration is the same.
\<close>

definition eff :: "'o server \<Rightarrow> 'o server \<Rightarrow> (nat \<times> bytes) set \<Rightarrow> signal list \<Rightarrow> bool" where
  "eff s s' K new \<longleftrightarrow> signals s' = signals s @ new \<and>
     (\<forall>d k. (d, k) \<notin> K \<longrightarrow> keyval s' d k = keyval s d k) \<and>
     dbnum s' = dbnum s \<and> loading s' = loading s \<and> masterhost s' = masterhost s \<and> mstime s' = mstime s"

lemma eff_refl: "eff s s {} []"
  by (simp add: eff_def)

lemma eff_trans: "eff s s' K new \<Longrightarrow> eff s' s'' L new' \<Longrightarrow> eff s s'' (K \<union> L) (new @ new')"
  by (auto simp: eff_def)

lemma eff_same: "eff s s' {(i, key)} new \<Longrightarrow> keyval s' i key = keyval s i key \<Longrightarrow> eff s s' {} new"
  unfolding eff_def by (metis empty_iff insertE prod.inject)

lemma eff_mono: "eff s s' K new \<Longrightarrow> K \<subseteq> L \<Longrightarrow> eff s s' L new"
  by (auto simp: eff_def)

lemma keyval_upd_db: "keyval (upd_db s i f) d k =
   (if d = i then (db_dict (f (dbs s i)) k, expires (f (dbs s i)) k) else keyval s d k)"
  by (simp add: keyval_def upd_db_def)

lemma upd_db_simps [simp]:
  "signals (upd_db s i f) = signals s" "dbnum (upd_db s i f) = dbnum s" "loading (upd_db s i f) = loading s"
  "masterhost (upd_db s i f) = masterhost s" "mstime (upd_db s i f) = mstime s"
  "dbs (upd_db s i f) j = (if j = i then f (dbs s i) else dbs s j)"
  by (simp_all add: upd_db_def)

text \<open>A command that calls the hook for every key it changes, unless an expiry time was set on it.\<close>

definition touched :: "'o server \<Rightarrow> signal list \<Rightarrow> nat \<Rightarrow> bytes \<Rightarrow> bool" where
  "touched s new d k \<longleftrightarrow> Modified d k \<in> set new \<or>
     (db_dict (dbs s d) k \<noteq> None \<and> (Flushed (- 1) \<in> set new \<or> Flushed (int d) \<in> set new))"

definition reported :: "'o server \<Rightarrow> 'o server \<Rightarrow> bool" where
  "reported s s' \<longleftrightarrow> (\<exists>new. signals s' = signals s @ new \<and>
     (\<forall>d k. expires (dbs s d) k = None \<longrightarrow> keyval s' d k = keyval s d k \<or> touched s new d k)) \<and>
     dbnum s' = dbnum s \<and> loading s' = loading s \<and> masterhost s' = masterhost s \<and> mstime s' = mstime s"

lemma reported_refl: "reported s s"
  by (auto simp: reported_def)

lemma reported_trans:
  assumes "reported s s'" "reported s' s''"
  shows "reported s s''"
proof -
  obtain new new' where n: "signals s' = signals s @ new" "signals s'' = signals s' @ new'"
    "\<And>d k. expires (dbs s d) k = None \<Longrightarrow> keyval s' d k = keyval s d k \<or> touched s new d k"
    "\<And>d k. expires (dbs s' d) k = None \<Longrightarrow> keyval s'' d k = keyval s' d k \<or> touched s' new' d k"
    using assms by (auto simp: reported_def)
  have "keyval s'' d k = keyval s d k \<or> touched s (new @ new') d k" if e: "expires (dbs s d) k = None" for d k
  proof (cases "touched s new d k")
    case False
    then have same: "keyval s' d k = keyval s d k" using n(3) [OF e] by simp
    then have "expires (dbs s' d) k = None" "db_dict (dbs s' d) k = db_dict (dbs s d) k"
      using e by (auto simp: keyval_def)
    then show ?thesis using n(4) [of d k] same by (auto simp: touched_def)
  qed (auto simp: touched_def)
  then show ?thesis using assms n(1,2) unfolding reported_def by (intro conjI exI [of _ "new @ new'"]) auto
qed

lemma eff_reported:
  assumes "eff s s' K new" "\<And>d k. (d, k) \<in> K \<Longrightarrow> expires (dbs s d) k = None \<Longrightarrow> Modified d k \<in> set new"
  shows "reported s s'"
proof -
  have "keyval s' d k = keyval s d k \<or> touched s new d k" if "expires (dbs s d) k = None" for d k
    using assms that by (cases "(d, k) \<in> K") (auto simp: eff_def touched_def)
  then show ?thesis using assms(1) unfolding reported_def by (auto simp: eff_def)
qed

section \<open>Effects of the low-level operations\<close>

definition lapsed :: "'o server \<Rightarrow> nat \<Rightarrow> bytes \<Rightarrow> bool" where
  "lapsed s i key \<longleftrightarrow> (case expires (dbs s i) key of None \<Rightarrow> False
     | Some when \<Rightarrow> 0 \<le> when \<and> \<not> loading s \<and> \<not> masterhost s \<and> when < mstime s)"

definition vol :: "'o server \<Rightarrow> nat \<Rightarrow> bytes \<Rightarrow> (nat \<times> bytes) set" where
  "vol s i key = (if lapsed s i key then {(i, key)} else {})"

lemma vol_expires: "(d, k) \<in> vol s i key \<Longrightarrow> d = i \<and> k = key \<and> expires (dbs s i) key \<noteq> None"
  by (auto simp: vol_def lapsed_def split: if_splits option.splits)

lemma keys_ok_obj: "keys_ok s \<Longrightarrow> db_dict (dbs s i) k = Some o' \<Longrightarrow> obj_ok o'"
  by (auto simp: keys_ok_def)

lemma keys_ok_expires: "keys_ok s \<Longrightarrow> expires (dbs s i) k = Some w \<Longrightarrow> \<exists>o'. db_dict (dbs s i) k = Some o'"
  by (fastforce simp: keys_ok_def)

lemma keys_ok_dbs: "keys_ok s \<Longrightarrow> dbs s' = dbs s \<Longrightarrow> keys_ok s'"
  by (simp add: keys_ok_def)

lemma keys_ok_upd:
  assumes "keys_ok s" "dom (expires (f (dbs s i))) \<subseteq> dom (db_dict (f (dbs s i)))"
    "\<And>k o'. db_dict (f (dbs s i)) k = Some o' \<Longrightarrow> obj_ok o'"
  shows "keys_ok (upd_db s i f)"
  using assms by (auto simp: keys_ok_def)

lemma dbDelete_ok:
  assumes "keys_ok s"
  shows "keys_ok (snd (dbDelete s i key)) \<and> eff s (snd (dbDelete s i key)) {(i, key)} [] \<and>
    keyval (snd (dbDelete s i key)) i key = (None, None) \<and>
    (fst (dbDelete s i key) \<longleftrightarrow> db_dict (dbs s i) key \<noteq> None) \<and> dirty (snd (dbDelete s i key)) = dirty s"
proof -
  have "keys_ok (upd_db s i (\<lambda>d. d\<lparr>expires := (expires d)(key := None)\<rparr>))"
    using assms by (intro keys_ok_upd) (auto simp: keys_ok_def)
  moreover have "keys_ok (upd_db (upd_db s i (\<lambda>d. d\<lparr>expires := (expires d)(key := None)\<rparr>)) i
      (\<lambda>d. d\<lparr>db_dict := (db_dict d)(key := None)\<rparr>))"
    using assms by (intro keys_ok_upd) (fastforce simp: keys_ok_def split: if_splits)+
  ultimately show ?thesis
    by (auto simp: dbDelete_def Let_def eff_def keyval_upd_db) (auto simp: keyval_def upd_db_def)
qed

lemma propagateExpire_simps [simp]:
  "dbs (propagateExpire s i key) = dbs s" "signals (propagateExpire s i key) = signals s"
  "dbnum (propagateExpire s i key) = dbnum s" "loading (propagateExpire s i key) = loading s"
  "masterhost (propagateExpire s i key) = masterhost s" "mstime (propagateExpire s i key) = mstime s"
  "dirty (propagateExpire s i key) = dirty s"
  by (simp_all add: propagateExpire_def Let_def)

text \<open>After \<open>expireIfNeeded\<close> a key that has lapsed is gone, and nothing else has changed.\<close>

definition fresh :: "'o server \<Rightarrow> nat \<Rightarrow> bytes \<Rightarrow> 'o robj option \<times> int option" where
  "fresh s i key = (if lapsed s i key then (None, None) else keyval s i key)"

lemma expireIfNeeded_ok:
  assumes "keys_ok s"
  shows "\<exists>b s'. expireIfNeeded s i key = Some (b, s') \<and> keys_ok s' \<and> eff s s' (vol s i key) [] \<and>
    keyval s' i key = fresh s i key \<and> dirty s' = dirty s"
proof (cases "lapsed s i key")
  case False
  have "getExpire s i key = Some (case expires (dbs s i) key of None \<Rightarrow> - 1 | Some w \<Rightarrow> w)"
    using keys_ok_expires [OF assms, of i key] by (cases "expires (dbs s i) key") (auto simp: getExpire_def)
  then have "\<exists>b. expireIfNeeded s i key = Some (b, s)"
    using False by (auto simp: expireIfNeeded_def lapsed_def split: option.splits)
  then show ?thesis using assms False by (auto simp: eff_def fresh_def)
next
  case True
  then obtain w where w: "expires (dbs s i) key = Some w" "0 \<le> w" "\<not> loading s" "\<not> masterhost s" "w < mstime s"
    by (auto simp: lapsed_def split: option.splits)
  let ?s = "propagateExpire (s\<lparr>stat_expired := stat_expired s + 1\<rparr>) i key"
  have "getExpire s i key = Some w" using keys_ok_expires [OF assms w(1)] w(1) by (auto simp: getExpire_def)
  then have e: "expireIfNeeded s i key = Some (dbDelete ?s i key)"
    using w by (simp add: expireIfNeeded_def Let_def)
  have k: "keys_ok ?s" using assms by (rule keys_ok_dbs) simp
  have "eff s ?s {} []" "dirty ?s = dirty s" by (simp_all add: eff_def keyval_def)
  then show ?thesis
    using e True dbDelete_ok [OF k, of i key] eff_trans [of s ?s "{}" "[]"]
    by (cases "dbDelete ?s i key") (fastforce simp: vol_def fresh_def)
qed

lemma lookupKey_keyval: "lookupKey s i key = fst (keyval s i key)"
  by (simp add: lookupKey_def keyval_def)

lemma lookupKeyWrite_ok:
  assumes "keys_ok s"
  shows "\<exists>s'. lookupKeyWrite s i key = Some (fst (fresh s i key), s') \<and> keys_ok s' \<and> eff s s' (vol s i key) [] \<and>
    keyval s' i key = fresh s i key \<and> dirty s' = dirty s"
  using expireIfNeeded_ok [OF assms, of i key] by (auto simp: lookupKeyWrite_def lookupKey_keyval)

lemma lookupKeyRead_ok:
  assumes "keys_ok s"
  shows "\<exists>s'. lookupKeyRead s i key = Some (fst (fresh s i key), s') \<and> keys_ok s' \<and> eff s s' (vol s i key) [] \<and>
    keyval s' i key = fresh s i key \<and> dirty s' = dirty s"
proof -
  obtain b s' where e: "expireIfNeeded s i key = Some (b, s')" "keys_ok s'" "eff s s' (vol s i key) []"
    "keyval s' i key = fresh s i key" "dirty s' = dirty s" using expireIfNeeded_ok [OF assms] by blast
  let ?s = "if lookupKey s' i key = None then s'\<lparr>stat_misses := stat_misses s' + 1\<rparr> else s'\<lparr>stat_hits := stat_hits s' + 1\<rparr>"
  have "lookupKeyRead s i key = Some (fst (fresh s i key), ?s)"
    using e(1,4) by (simp add: lookupKeyRead_def lookupKey_keyval Let_def)
  moreover have "keys_ok ?s" using e(2) by (rule keys_ok_dbs) simp
  moreover have "eff s ?s (vol s i key) []" "keyval ?s i key = fresh s i key" "dirty ?s = dirty s"
    using e by (auto simp: eff_def keyval_def)
  ultimately show ?thesis by blast
qed

lemma dirty_irrelevant [simp]:
  "keys_ok (s\<lparr>dirty := x\<rparr>) = keys_ok s" "reported s0 (s\<lparr>dirty := x\<rparr>) = reported s0 s"
  "reported (s\<lparr>dirty := x\<rparr>) s0 = reported s s0"
  "eff s0 (s\<lparr>dirty := x\<rparr>) K new = eff s0 s K new" "keyval (s\<lparr>dirty := x\<rparr>) d k = keyval s d k"
  "eff (s\<lparr>dirty := x\<rparr>) s0 K new = eff s s0 K new"
  by (simp_all add: keys_ok_def reported_def touched_def eff_def keyval_def)

lemma signal_simps [simp]:
  "keys_ok (signalModifiedKey s i key) = keys_ok s" "keyval (signalModifiedKey s i key) d k = keyval s d k"
  "dbs (signalModifiedKey s i key) = dbs s" "dirty (signalModifiedKey s i key) = dirty s"
  by (simp_all add: signalModifiedKey_def keys_ok_def keyval_def)

lemma signal_dirty [simp]: "signalModifiedKey (s\<lparr>dirty := x\<rparr>) i key = (signalModifiedKey s i key)\<lparr>dirty := x\<rparr>"
  by (simp add: signalModifiedKey_def)

lemma eff_signal: "eff s (signalModifiedKey s i key) {} [Modified i key]"
  by (simp add: eff_def keyval_def signalModifiedKey_def)

lemma signal_reported: "eff s s' {(i, key)} [] \<Longrightarrow> reported s (signalModifiedKey s' i key)"
  using eff_trans [OF _ eff_signal, of s s' "{(i, key)}" "[]" i key] by (auto intro!: eff_reported)

lemma vol_reported: "eff s s' (vol s i key) [] \<Longrightarrow> reported s s'"
  by (rule eff_reported) (auto dest: vol_expires)

lemma dbAdd_ok:
  assumes "keys_ok s" "fst (keyval s i key) = None" "obj_ok val"
  shows "\<exists>s'. dbAdd s i key val = Some s' \<and> keys_ok s' \<and> eff s s' {(i, key)} [] \<and>
    keyval s' i key = (Some val, snd (keyval s i key)) \<and> dirty s' = dirty s"
proof -
  let ?s = "upd_db s i (\<lambda>d. d\<lparr>db_dict := (db_dict d)(key \<mapsto> val)\<rparr>)"
  have "keys_ok ?s" using assms by (intro keys_ok_upd) (fastforce simp: keys_ok_def split: if_splits)+
  then show ?thesis using assms(2)
    by (auto simp: dbAdd_def keyval_upd_db eff_def) (auto simp: keyval_def upd_db_def)
qed

lemma dbOverwrite_ok:
  assumes "keys_ok s" "fst (keyval s i key) \<noteq> None" "obj_ok val"
  shows "\<exists>s'. dbOverwrite s i key val = Some s' \<and> keys_ok s' \<and> eff s s' {(i, key)} [] \<and>
    keyval s' i key = (Some val, snd (keyval s i key)) \<and> dirty s' = dirty s"
proof -
  let ?s = "upd_db s i (\<lambda>d. d\<lparr>db_dict := (db_dict d)(key \<mapsto> val)\<rparr>)"
  have "keys_ok ?s" using assms by (intro keys_ok_upd) (fastforce simp: keys_ok_def split: if_splits)+
  then show ?thesis using assms(2)
    by (auto simp: dbOverwrite_def keyval_upd_db eff_def) (auto simp: keyval_def upd_db_def)
qed

lemma setExpire_ok:
  assumes "keys_ok s" "fst (keyval s i key) \<noteq> None"
  shows "\<exists>s'. setExpire s i key w = Some s' \<and> keys_ok s' \<and> eff s s' {(i, key)} [] \<and>
    keyval s' i key = (fst (keyval s i key), Some w) \<and> dirty s' = dirty s"
proof -
  let ?s = "upd_db s i (\<lambda>d. d\<lparr>expires := (expires d)(key \<mapsto> w)\<rparr>)"
  have "keys_ok ?s" using assms by (intro keys_ok_upd) (auto simp: keys_ok_def keyval_def split: if_splits)
  then show ?thesis using assms(2)
    by (auto simp: setExpire_def keyval_upd_db eff_def) (auto simp: keyval_def upd_db_def)
qed

lemma removeExpire_ok:
  assumes "keys_ok s" "fst (keyval s i key) \<noteq> None"
  shows "\<exists>s'. removeExpire s i key = Some (snd (keyval s i key) \<noteq> None, s') \<and> keys_ok s' \<and>
    eff s s' (if snd (keyval s i key) = None then {} else {(i, key)}) [] \<and>
    keyval s' i key = (fst (keyval s i key), None) \<and> dirty s' = dirty s"
proof -
  let ?s = "upd_db s i (\<lambda>d. d\<lparr>expires := (expires d)(key := None)\<rparr>)"
  have "keys_ok ?s" using assms by (intro keys_ok_upd) (auto simp: keys_ok_def keyval_def split: if_splits)
  then show ?thesis using assms(2)
    by (auto simp: removeExpire_def keyval_upd_db eff_def) (auto simp: keyval_def upd_db_def)
qed

lemma setKey_ok:
  assumes "keys_ok s" "obj_ok val"
  shows "\<exists>s'. setKey s i key val = Some s' \<and> keys_ok s' \<and> eff s s' {(i, key)} [Modified i key] \<and>
    keyval s' i key = (Some val, None) \<and> dirty s' = dirty s"
proof -
  obtain s1 where s1: "lookupKeyWrite s i key = Some (fst (fresh s i key), s1)" "keys_ok s1"
    "eff s s1 (vol s i key) []" "keyval s1 i key = fresh s i key" "dirty s1 = dirty s"
    using lookupKeyWrite_ok [OF assms(1)] by blast
  have "\<exists>s2. (if fst (fresh s i key) = None then dbAdd s1 i key val else dbOverwrite s1 i key val) = Some s2 \<and>
      keys_ok s2 \<and> eff s1 s2 {(i, key)} [] \<and> fst (keyval s2 i key) = Some val \<and> dirty s2 = dirty s1"
    using dbAdd_ok [OF s1(2) _ assms(2), of i key] dbOverwrite_ok [OF s1(2) _ assms(2), of i key] s1(4) by auto
  then obtain s2 where s2: "(if fst (fresh s i key) = None then dbAdd s1 i key val else dbOverwrite s1 i key val) = Some s2"
    "keys_ok s2" "eff s1 s2 {(i, key)} []" "fst (keyval s2 i key) = Some val" "dirty s2 = dirty s1" by blast
  obtain b s3 where s3: "removeExpire s2 i key = Some (b, s3)" "keys_ok s3" "eff s2 s3 {(i, key)} []"
    "keyval s3 i key = (Some val, None)" "dirty s3 = dirty s2"
    using removeExpire_ok [OF s2(2), of i key] s2(4) eff_mono by (fastforce split: if_splits)
  have "eff s (signalModifiedKey s3 i key) (vol s i key \<union> {(i, key)} \<union> {(i, key)} \<union> {}) [Modified i key]"
    using eff_trans [OF eff_trans [OF eff_trans [OF s1(3) s2(3)] s3(3)] eff_signal [of s3 i key]] by simp
  then have "eff s (signalModifiedKey s3 i key) {(i, key)} [Modified i key]"
    by (rule eff_mono) (auto dest: vol_expires)
  then show ?thesis using s1 s2 s3 by (simp add: setKey_def)
qed

section \<open>Commands never fail an assertion and report what they change\<close>

definition cmd_ok :: "'o command \<Rightarrow> bool" where
  "cmd_ok f \<longleftrightarrow> (\<forall>s i. keys_ok s \<longrightarrow> (\<exists>s' r. f s i = Some (s', r) \<and> keys_ok s' \<and> reported s s'))"

lemma cmd_okI: "(\<And>s i. keys_ok s \<Longrightarrow> \<exists>s' r. f s i = Some (s', r) \<and> keys_ok s' \<and> reported s s') \<Longrightarrow> cmd_ok f"
  by (simp add: cmd_ok_def)

lemma keys_ok_empty: "keys_ok s \<Longrightarrow> keys_ok (upd_db s i empty_db)"
  by (rule keys_ok_upd) (auto simp: empty_db_def)

lemma flush_ok: "cmd_ok flushdbCommand"
proof (rule cmd_okI)
  fix s :: "'o server" and i
  assume k: "keys_ok s"
  let ?s = "upd_db (signalFlushedDb (s\<lparr>dirty := dirty s + db_size s i\<rparr>) (int i)) i empty_db"
  have "keys_ok ?s" using k by (intro keys_ok_empty) (simp add: signalFlushedDb_def keys_ok_def)
  moreover have "reported s ?s"
    unfolding reported_def
    by (intro conjI exI [of _ "[Flushed (int i)]"])
       (auto simp: signalFlushedDb_def keyval_upd_db touched_def empty_db_def, simp_all add: keyval_def)
  ultimately show "\<exists>s' r. flushdbCommand s i = Some (s', r) \<and> keys_ok s' \<and> reported s s'"
    by (simp add: flushdbCommand_def)
qed

lemma emptyDb_loop_ok:
  "emptyDb_loop j n s removed = (s', m) \<Longrightarrow> keys_ok s \<Longrightarrow>
   keys_ok s' \<and> signals s' = signals s \<and> dbnum s' = dbnum s \<and> loading s' = loading s \<and> masterhost s' = masterhost s \<and>
   mstime s' = mstime s \<and> (\<forall>d k. keyval s' d k = (if j \<le> d \<and> d < j + n then (None, None) else keyval s d k))"
proof (induction j n s removed rule: emptyDb_loop.induct)
  case (2 j n s removed)
  from "2.IH" [OF _ keys_ok_empty [OF "2.prems"(2)]] "2.prems"(1) show ?case
    by (auto simp: keyval_upd_db empty_db_def)
qed auto

lemma flushall_ok: "cmd_ok flushallCommand"
proof (rule cmd_okI)
  fix s :: "'o server" and i
  assume k: "keys_ok s"
  obtain s' m where e: "emptyDb (signalFlushedDb s (- 1)) = (s', m)" by force
  have "keys_ok (signalFlushedDb s (- 1))" using k by (simp add: signalFlushedDb_def keys_ok_def)
  from emptyDb_loop_ok [OF e [unfolded emptyDb_def] this]
  have s': "keys_ok s'" "signals s' = signals s @ [Flushed (- 1)]" "dbnum s' = dbnum s" "loading s' = loading s"
    "masterhost s' = masterhost s" "mstime s' = mstime s"
    "\<And>d k. keyval s' d k = (if d < dbnum s then (None, None) else keyval s d k)"
    by (auto simp: signalFlushedDb_def keyval_def)
  have "reported s s'"
    unfolding reported_def using s'
    by (intro conjI exI [of _ "[Flushed (- 1)]"]) (auto simp: touched_def keyval_def)
  then show "\<exists>s' r. flushallCommand s i = Some (s', r) \<and> keys_ok s' \<and> reported s s'"
    using e s'(1) by (simp add: flushallCommand_def Let_def)
qed

lemma delete_reported:
  assumes "keys_ok s" "dbDelete s i key = (ok, s1)"
  shows "keys_ok s1 \<and> reported s (if ok then signalModifiedKey s1 i key else s1)"
proof -
  from dbDelete_ok [OF assms(1), of i key] have s1: "keys_ok s1" "eff s s1 {(i, key)} []"
    "ok \<longleftrightarrow> db_dict (dbs s i) key \<noteq> None" "keyval s1 i key = (None, None)" by (simp_all add: assms(2))
  show ?thesis
  proof (cases ok)
    case True
    then show ?thesis using s1(1) signal_reported [OF s1(2)] by simp
  next
    case False
    then have "keyval s i key = (None, None)" using s1(3) keys_ok_expires [OF assms(1), of i key] by (cases "expires (dbs s i) key") (auto simp: keyval_def)
    then have "eff s s1 {} []" using eff_same [OF s1(2)] s1(4) by simp
    then have "reported s s1" by (rule eff_reported) simp
    then show ?thesis using False s1(1) by simp
  qed
qed

lemma del_loop_ok:
  "keys_ok s \<Longrightarrow> keys_ok (fst (del_loop s i ks n)) \<and> reported s (fst (del_loop s i ks n))"
proof (induction ks arbitrary: s n)
  case (Cons key ks)
  obtain ok s1 where d: "dbDelete s i key = (ok, s1)" by force
  note r = delete_reported [OF Cons.prems d]
  show ?case
  proof (cases ok)
    case True
    then show ?thesis using Cons.IH [of "add_dirty 1 (signalModifiedKey s1 i key)" "n + 1"] r d reported_trans by fastforce
  next
    case False
    then show ?thesis using Cons.IH [of s1 n] r d reported_trans by fastforce
  qed
qed (simp add: reported_refl)

lemma del_ok: "cmd_ok (delCommand keys)"
proof (rule cmd_okI)
  fix s :: "'o server" and i
  assume "keys_ok s"
  from del_loop_ok [OF this, of i keys 0] show "\<exists>s' r. delCommand keys s i = Some (s', r) \<and> keys_ok s' \<and> reported s s'"
    by (cases "del_loop s i keys 0") (simp add: delCommand_def)
qed

lemma exists_ok: "cmd_ok (existsCommand key)"
proof (rule cmd_okI)
  fix s :: "'o server" and i
  assume "keys_ok s"
  then show "\<exists>s' r. existsCommand key s i = Some (s', r) \<and> keys_ok s' \<and> reported s s'"
    using expireIfNeeded_ok [of s i key] vol_reported by (fastforce simp: existsCommand_def)
qed

lemma dbsize_ok: "cmd_ok dbsizeCommand"
  by (simp add: cmd_ok_def dbsizeCommand_def reported_refl)

lemma type_ok: "cmd_ok (typeCommand key)"
proof (rule cmd_okI)
  fix s :: "'o server" and i
  assume "keys_ok s"
  then show "\<exists>s' r. typeCommand key s i = Some (s', r) \<and> keys_ok s' \<and> reported s s'"
    using lookupKeyRead_ok [of s i key] vol_reported by (fastforce simp: typeCommand_def)
qed

lemma getExpire_ok: "keys_ok s \<Longrightarrow> getExpire s i key = Some (case snd (keyval s i key) of None \<Rightarrow> - 1 | Some w \<Rightarrow> w)"
  using keys_ok_expires [of s i key] by (cases "expires (dbs s i) key") (auto simp: getExpire_def keyval_def)

lemma eff_keyval: "eff s s' K new \<Longrightarrow> (d, k) \<notin> K \<Longrightarrow> keyval s' d k = keyval s d k"
  by (auto simp: eff_def)

lemma eff_lapsed: "eff s s' K new \<Longrightarrow> (d, k) \<notin> K \<Longrightarrow> lapsed s' d k = lapsed s d k"
  by (auto simp: eff_def lapsed_def keyval_def split: option.splits)

lemma eff_fresh: "eff s s' K new \<Longrightarrow> (d, k) \<notin> K \<Longrightarrow> fresh s' d k = fresh s d k"
  using eff_keyval eff_lapsed by (metis fresh_def)

lemma vol_other: "(d, k) \<noteq> (i, key) \<Longrightarrow> (d, k) \<notin> vol s i key"
  by (auto simp: vol_def)

lemma keys_ok_fresh: "keys_ok s \<Longrightarrow> fst (fresh s i key) = None \<Longrightarrow> snd (fresh s i key) = None"
  using keys_ok_expires [of s i key] by (cases "expires (dbs s i) key") (auto simp: fresh_def keyval_def split: if_splits)

definition moved_expire :: "int option \<Rightarrow> int option" where
  "moved_expire e = (if e = Some (- 1) then None else e)"

text \<open>The successful branch of a renaming, from the state in which both keys have been looked up.\<close>

lemma rename_moves:
  assumes k: "keys_ok s" and ne: "src \<noteq> dst" and src: "keyval s i src = (Some o', e)" and
    dst: "fst (keyval s i dst) = None \<longrightarrow> snd (keyval s i dst) = None"
  shows "\<exists>s1 s2. dbAdd (if fst (keyval s i dst) \<noteq> None then snd (dbDelete s i dst) else s) i dst o' = Some s1 \<and>
    (if (case e of None \<Rightarrow> - 1 | Some w \<Rightarrow> w) \<noteq> - 1 then setExpire s1 i dst (case e of None \<Rightarrow> - 1 | Some w \<Rightarrow> w) else Some s1) = Some s2 \<and>
    keys_ok (snd (dbDelete s2 i src)) \<and> eff s (snd (dbDelete s2 i src)) {(i, src), (i, dst)} [] \<and>
    keyval (snd (dbDelete s2 i src)) i dst = (Some o', moved_expire e) \<and>
    keyval (snd (dbDelete s2 i src)) i src = (None, None)"
proof -
  let ?s0 = "if fst (keyval s i dst) \<noteq> None then snd (dbDelete s i dst) else s"
  have s0: "keys_ok ?s0" "eff s ?s0 {(i, dst)} []" "keyval ?s0 i dst = (None, None)"
    using dbDelete_ok [OF k, of i dst] k dst eff_mono [OF eff_refl, of "{(i, dst)}" s] by (auto simp: prod_eq_iff)
  have ok: "obj_ok o'" using src keys_ok_obj [OF k, of i src] by (simp add: keyval_def)
  obtain s1 where s1: "dbAdd ?s0 i dst o' = Some s1" "keys_ok s1" "eff ?s0 s1 {(i, dst)} []" "keyval s1 i dst = (Some o', None)"
    using dbAdd_ok [OF s0(1) _ ok, of i dst] s0(3) by auto
  have "\<exists>s2. (if (case e of None \<Rightarrow> - 1 | Some w \<Rightarrow> w) \<noteq> - 1 then setExpire s1 i dst (case e of None \<Rightarrow> - 1 | Some w \<Rightarrow> w) else Some s1) = Some s2 \<and>
      keys_ok s2 \<and> eff s1 s2 {(i, dst)} [] \<and> keyval s2 i dst = (Some o', moved_expire e)"
    using setExpire_ok [OF s1(2), of i dst] s1 eff_mono [OF eff_refl, of "{(i, dst)}" s1]
    by (auto simp: moved_expire_def split: option.splits)
  then obtain s2 where s2: "(if (case e of None \<Rightarrow> - 1 | Some w \<Rightarrow> w) \<noteq> - 1 then setExpire s1 i dst (case e of None \<Rightarrow> - 1 | Some w \<Rightarrow> w) else Some s1) = Some s2"
      "keys_ok s2" "eff s1 s2 {(i, dst)} []" "keyval s2 i dst = (Some o', moved_expire e)" by blast
  from dbDelete_ok [OF s2(2), of i src] have s3: "keys_ok (snd (dbDelete s2 i src))" "eff s2 (snd (dbDelete s2 i src)) {(i, src)} []"
    "keyval (snd (dbDelete s2 i src)) i src = (None, None)" by auto
  have "eff s (snd (dbDelete s2 i src)) {(i, src), (i, dst)} []"
    using eff_trans [OF eff_trans [OF eff_trans [OF s0(2) s1(3)] s2(3)] s3(2)] by (auto intro: eff_mono)
  moreover have "keyval (snd (dbDelete s2 i src)) i dst = (Some o', moved_expire e)"
    using eff_keyval [OF s3(2), of i dst] s2(4) ne by simp
  ultimately show ?thesis using s1(1) s2(1) s3 by blast
qed

text \<open>All branches of a renaming at once.\<close>

lemma rename_cases:
  assumes k: "keys_ok s" and ne: "src \<noteq> dst"
  shows "\<exists>s' r. renameGenericCommand src dst nx s i = Some (s', r) \<and> keys_ok s' \<and> reported s s' \<and>
    (fst (fresh s i src) \<noteq> None \<and> (fst (fresh s i dst) = None \<or> \<not> nx) \<longrightarrow>
       keyval s' i dst = (fst (fresh s i src), moved_expire (snd (fresh s i src))) \<and> keyval s' i src = (None, None) \<and>
       r = (if nx then RInt 1 else ROk))"
proof -
  obtain s1 where s1: "lookupKeyWrite s i src = Some (fst (fresh s i src), s1)" "keys_ok s1"
    "eff s s1 (vol s i src) []" "keyval s1 i src = fresh s i src" using lookupKeyWrite_ok [OF k] by blast
  note r1 = vol_reported [OF s1(3)]
  show ?thesis
  proof (cases "fst (fresh s i src)")
    case None
    then show ?thesis using s1 ne r1 by (auto simp: renameGenericCommand_def)
  next
    case (Some o')
    obtain s2 where s2: "lookupKeyWrite s1 i dst = Some (fst (fresh s1 i dst), s2)" "keys_ok s2"
      "eff s1 s2 (vol s1 i dst) []" "keyval s2 i dst = fresh s1 i dst" using lookupKeyWrite_ok [OF s1(2)] by blast
    have fd: "fresh s1 i dst = fresh s i dst" using eff_fresh [OF s1(3) vol_other] ne by auto
    have src2: "keyval s2 i src = fresh s i src" using eff_keyval [OF s2(3) vol_other] ne s1(4) by auto
    note r2 = reported_trans [OF r1 vol_reported [OF s2(3)]]
    obtain e where e: "fresh s i src = (Some o', e)" using Some by (cases "fresh s i src") auto
    have g: "getExpire s1 i src = Some (case e of None \<Rightarrow> - 1 | Some w \<Rightarrow> w)"
      using getExpire_ok [OF s1(2), of i src] s1(4) e by simp
    show ?thesis
    proof (cases "fst (fresh s i dst) \<noteq> None \<and> nx")
      case True
      then show ?thesis using s1(1) s2(1,2) ne Some g r2 fd by (auto simp: renameGenericCommand_def)
    next
      case False
      have d: "fst (keyval s2 i dst) = None \<longrightarrow> snd (keyval s2 i dst) = None"
        using keys_ok_fresh [OF s1(2), of i dst] s2(4) by simp
      from rename_moves [OF s2(2) ne _ d, of o' e] src2 e obtain s3 s4 where
        m: "dbAdd (if fst (keyval s2 i dst) \<noteq> None then snd (dbDelete s2 i dst) else s2) i dst o' = Some s3"
        "(if (case e of None \<Rightarrow> - 1 | Some w \<Rightarrow> w) \<noteq> - 1 then setExpire s3 i dst (case e of None \<Rightarrow> - 1 | Some w \<Rightarrow> w) else Some s3) = Some s4"
        "keys_ok (snd (dbDelete s4 i src))" "eff s2 (snd (dbDelete s4 i src)) {(i, src), (i, dst)} []"
        "keyval (snd (dbDelete s4 i src)) i dst = (Some o', moved_expire e)"
        "keyval (snd (dbDelete s4 i src)) i src = (None, None)" by auto
      let ?s5 = "signalModifiedKey (signalModifiedKey (snd (dbDelete s4 i src)) i src) i dst"
      have "eff s2 ?s5 ({(i, src), (i, dst)} \<union> {} \<union> {}) [Modified i src, Modified i dst]"
        using eff_trans [OF eff_trans [OF m(4) eff_signal] eff_signal] by simp
      then have "reported s2 ?s5" by (rule eff_reported) auto
      then have "reported s ?s5" using r2 reported_trans by blast
      moreover have "renameGenericCommand src dst nx s i = Some (add_dirty 1 ?s5, if nx then RInt 1 else ROk)"
        using s1(1) s2(1) ne Some g False fd m(1,2) s2(4) by (auto simp: renameGenericCommand_def Let_def)
      ultimately show ?thesis using m(3,5,6) e by simp
    qed
  qed
qed

lemma rename_ok: "cmd_ok (renameGenericCommand src dst nx)"
proof (rule cmd_okI)
  fix s :: "'o server" and i
  assume k: "keys_ok s"
  show "\<exists>s' r. renameGenericCommand src dst nx s i = Some (s', r) \<and> keys_ok s' \<and> reported s s'"
  proof (cases "src = dst")
    case True
    then show ?thesis using k by (simp add: renameGenericCommand_def reported_refl)
  next
    case False
    then show ?thesis using rename_cases [OF k, of src dst nx i] by blast
  qed
qed

lemma expireGeneric_ok: "\<exists>s' r. expireGenericCommand key param base sec s i = Some (s', r) \<and> keys_ok s' \<and> reported s s'"
  if k: "keys_ok s"
proof -
  obtain s1 where s1: "lookupKeyRead s i key = Some (fst (fresh s i key), s1)" "keys_ok s1"
    "eff s s1 (vol s i key) []" "keyval s1 i key = fresh s i key" using lookupKeyRead_ok [OF k] by blast
  note r1 = vol_reported [OF s1(3)]
  obtain r where r: "getLongLongFromObject (Some (RawStr param :: 'a robj)) = Some r"
    using getLongLong_total [of "Some (RawStr param)"] by auto
  show ?thesis
  proof (cases r)
    case None
    then show ?thesis using r k by (simp add: expireGenericCommand_def reported_refl)
  next
    case (Some v)
    let ?w = "wrap_ll ((if sec then wrap_ll (v * 1000) else v) + base)"
    obtain ok s2 where d: "dbDelete s1 i key = (ok, s2)" by force
    have s2: "keys_ok s2" "eff s1 s2 {(i, key)} []" "ok \<longleftrightarrow> fst (keyval s1 i key) \<noteq> None"
      using dbDelete_ok [OF s1(2), of i key] d by (simp_all add: keyval_def)
    have r2: "reported s (signalModifiedKey s2 i key)" using r1 signal_reported [OF s2(2)] reported_trans by blast
    have "\<exists>s3. setExpire s1 i key ?w = Some s3 \<and> keys_ok s3 \<and> reported s (signalModifiedKey s3 i key)" if "fst (fresh s i key) \<noteq> None"
      using setExpire_ok [OF s1(2), of i key ?w] s1(4) that r1 signal_reported reported_trans by metis
    then show ?thesis using r Some s1 d s2 r1 r2
      by (auto simp: expireGenericCommand_def Let_def)
  qed
qed

lemma expire_ok: "cmd_ok (expireCommand key param)" "cmd_ok (expireatCommand key param)"
  "cmd_ok (pexpireCommand key param)" "cmd_ok (pexpireatCommand key param)"
  using expireGeneric_ok
  by (auto simp: cmd_ok_def expireCommand_def expireatCommand_def pexpireCommand_def pexpireatCommand_def)

lemma ttl_ok: "cmd_ok (ttlGenericCommand key ms)"
  by (rule cmd_okI) (auto simp: ttlGenericCommand_def getExpire_ok Let_def reported_refl)

lemma persist_ok: "cmd_ok (persistCommand key)"
proof (rule cmd_okI)
  fix s :: "'o server" and i
  assume k: "keys_ok s"
  show "\<exists>s' r. persistCommand key s i = Some (s', r) \<and> keys_ok s' \<and> reported s s'"
  proof (cases "db_dict (dbs s i) key")
    case None
    then show ?thesis using k by (simp add: persistCommand_def reported_refl)
  next
    case (Some o')
    then obtain s' where s': "removeExpire s i key = Some (snd (keyval s i key) \<noteq> None, s')" "keys_ok s'"
      "eff s s' (if snd (keyval s i key) = None then {} else {(i, key)}) []"
      using removeExpire_ok [OF k, of i key] by (auto simp: keyval_def)
    have "reported s s'" using s'(3) by (rule eff_reported) (auto simp: keyval_def split: if_splits)
    then show ?thesis using s'(1,2) Some by (simp add: persistCommand_def)
  qed
qed

section \<open>Moving a key between databases\<close>

lemma move_cases:
  assumes k: "keys_ok s"
  shows "\<exists>s' r. moveCommand key arg s src = Some (s', r) \<and> keys_ok s' \<and>
    (\<forall>dst. selectDb s (atoi arg) = Some dst \<and> dst \<noteq> src \<and> fst (fresh s src key) \<noteq> None \<and> fst (fresh s dst key) = None \<longrightarrow>
       r = RInt 1 \<and> signals s' = signals s \<and> keyval s' src key = (None, None) \<and>
       keyval s' dst key = (fst (fresh s src key), None))"
proof (cases "selectDb s (atoi arg)")
  case None
  then show ?thesis using k by (simp add: moveCommand_def)
next
  case (Some dst)
  show ?thesis
  proof (cases "src = dst")
    case True
    then show ?thesis using k Some by (simp add: moveCommand_def)
  next
    case ne: False
    obtain s1 where s1: "lookupKeyWrite s src key = Some (fst (fresh s src key), s1)" "keys_ok s1"
      "eff s s1 (vol s src key) []" "keyval s1 src key = fresh s src key" using lookupKeyWrite_ok [OF k] by blast
    obtain s2 where s2: "lookupKeyWrite s1 dst key = Some (fst (fresh s1 dst key), s2)" "keys_ok s2"
      "eff s1 s2 (vol s1 dst key) []" "keyval s2 dst key = fresh s1 dst key" using lookupKeyWrite_ok [OF s1(2)] by blast
    have fd: "fresh s1 dst key = fresh s dst key" using eff_fresh [OF s1(3) vol_other] ne by auto
    show ?thesis
    proof (cases "fst (fresh s src key) = None \<or> fst (fresh s dst key) \<noteq> None")
      case True
      then show ?thesis using Some ne s1 s2 fd by (auto simp: moveCommand_def split: option.splits)
    next
      case False
      then obtain o' where o': "fst (fresh s src key) = Some o'" by auto
      have "fst (keyval s1 src key) = Some o'" using o' s1(4) by simp
      then have "obj_ok o'" using keys_ok_obj [OF s1(2), of src key] by (simp add: keyval_def)
      then obtain s3 where s3: "dbAdd s2 dst key o' = Some s3" "keys_ok s3" "eff s2 s3 {(dst, key)} []"
        "keyval s3 dst key = (Some o', snd (fresh s dst key))"
        using dbAdd_ok [OF s2(2), of dst key o'] s2(4) fd False by auto
      have e: "snd (fresh s dst key) = None" using keys_ok_fresh [OF k, of dst key] False by simp
      have s4: "keys_ok (snd (dbDelete s3 src key))" "eff s3 (snd (dbDelete s3 src key)) {(src, key)} []"
        "keyval (snd (dbDelete s3 src key)) src key = (None, None)" using dbDelete_ok [OF s3(2), of src key] by auto
      have "keyval (snd (dbDelete s3 src key)) dst key = (Some o', None)"
        using eff_keyval [OF s4(2), of dst key] s3(4) ne e by simp
      moreover have "signals (snd (dbDelete s3 src key)) = signals s"
        using s1(3) s2(3) s3(3) s4(2) by (simp add: eff_def)
      moreover have "moveCommand key arg s src = Some (add_dirty 1 (snd (dbDelete s3 src key)), RInt 1)"
        using Some ne s1(1) s2(1) fd False o' s3(1) by (simp add: moveCommand_def Let_def)
      ultimately show ?thesis using s4 Some o' ne by auto
    qed
  qed
qed

text \<open>A successful MOVE changes the key in both databases without calling the hook for modified keys, so
  no client watching the key is marked; and the key loses its expiry time.\<close>

theorem move_not_signalled:
  assumes "keys_ok s" "selectDb s (atoi arg) = Some dst" "dst \<noteq> src"
    "fst (fresh s src key) = Some o'" "fst (fresh s dst key) = None"
  shows "\<exists>s'. moveCommand key arg s src = Some (s', RInt 1) \<and> signals s' = signals s \<and>
    keyval s' src key = (None, None) \<and> keyval s' dst key = (Some o', None)"
  using move_cases [OF assms(1), of key arg src] assms(2-5) by auto

text \<open>
  Renaming an existing key to a different name moves its value and its expiry time to the new
  name, replaces what was there, leaves no key under the old name, and reports both names as modified.
\<close>

theorem rename_carries_expiry:
  assumes "keys_ok s" "src \<noteq> dst" "fresh s i src = (Some o', e)" "e \<noteq> Some (- 1)"
  shows "\<exists>s'. renameGenericCommand src dst False s i = Some (s', ROk) \<and> keys_ok s' \<and> reported s s' \<and>
    keyval s' i dst = (Some o', e) \<and> keyval s' i src = (None, None)"
  using rename_cases [OF assms(1,2), of False i] assms(3,4) by (auto simp: moved_expire_def)

text \<open>
  C36: On a master that is not loading, reading a key whose time has passed finds nothing, deletes exactly
  that key, and sends one deletion to the append-only file and to the slaves when there are any.
\<close>

theorem expired_key_deleted:
  assumes "keys_ok s" "lapsed s i key"
  shows "\<exists>s'. lookupKeyRead s i key = Some (None, s') \<and> keyval s' i key = (None, None) \<and>
    (\<forall>d k. (d, k) \<noteq> (i, key) \<longrightarrow> keyval s' d k = keyval s d k) \<and>
    aof_log s' = aof_log s @ (if aof_on s then [(i, key)] else []) \<and>
    repl_log s' = repl_log s @ (if has_slaves s then [(i, key)] else [])"
proof -
  obtain s' where s': "lookupKeyRead s i key = Some (fst (fresh s i key), s')" "eff s s' (vol s i key) []"
    "keyval s' i key = fresh s i key" using lookupKeyRead_ok [OF assms(1)] by blast
  have f: "fresh s i key = (None, None)" using assms(2) by (simp add: fresh_def)
  from assms(2) obtain w where w: "expires (dbs s i) key = Some w" "0 \<le> w" "\<not> loading s" "\<not> masterhost s" "w < mstime s"
    by (auto simp: lapsed_def split: option.splits)
  have "getExpire s i key = Some w" using keys_ok_expires [OF assms(1) w(1)] w(1) by (auto simp: getExpire_def)
  then have "aof_log s' = aof_log s @ (if aof_on s then [(i, key)] else []) \<and>
      repl_log s' = repl_log s @ (if has_slaves s then [(i, key)] else [])"
    using s'(1) w
    by (auto simp: lookupKeyRead_def expireIfNeeded_def Let_def propagateExpire_def dbDelete_def upd_db_def split: if_splits prod.splits)
  then show ?thesis using s' f eff_keyval [OF s'(2) vol_other] by auto
qed

section \<open>Witnesses\<close>

definition sample_server :: "unit server" where
  "sample_server = \<lparr>dbs = (\<lambda>i. if i = 0 then \<lparr>db_dict = [[107] \<mapsto> IntStr 5, [108] \<mapsto> RawStr [1]], expires = [[107] \<mapsto> 50]\<rparr>
       else \<lparr>db_dict = Map.empty, expires = Map.empty\<rparr>),
     dbnum = 16, dirty = 0, loading = False, masterhost = False, mstime = 40, aof_on = True, has_slaves = False,
     aof_log = [], repl_log = [], signals = [], stat_hits = 0, stat_misses = 0, stat_expired = 0\<rparr>"

lemma sample_server_ok: "keys_ok sample_server" "keys_ok (sample_server\<lparr>mstime := 60\<rparr>)"
  by (auto simp: keys_ok_def sample_server_def is_ll_def split: if_splits)

theorem move_not_signalled_witness:
  "\<exists>s'. moveCommand [108] [49] sample_server 0 = Some (s', RInt 1) \<and> signals s' = [] \<and> keyval s' 1 [108] = (Some (RawStr [1]), None)"
proof -
  have a: "atoi [49] = 1"
    by (simp add: atoi_def strtoll_def cstr_def isspace_def isdigit_def dec_val_def Let_def)
  have "selectDb sample_server (atoi [49]) = Some 1" by (simp add: a selectDb_def sample_server_def)
  moreover have "fst (fresh sample_server 0 [108]) = Some (RawStr [1])" "fst (fresh sample_server 1 [108]) = None"
    by (simp_all add: fresh_def lapsed_def keyval_def sample_server_def)
  ultimately show ?thesis using move_not_signalled [OF sample_server_ok(1), of "[49]" 1 0 "[108]" "RawStr [1]"]
    by (auto simp: sample_server_def)
qed

theorem rename_carries_expiry_witness:
  "\<exists>s'. renameGenericCommand [107] [108] False sample_server 0 = Some (s', ROk) \<and> keyval s' 0 [108] = (Some (IntStr 5), Some 50)"
  using rename_carries_expiry [OF sample_server_ok(1), of "[107]" "[108]" 0 "IntStr 5" "Some 50"]
  by (auto simp: fresh_def lapsed_def keyval_def sample_server_def)

theorem expired_key_deleted_witness:
  "\<exists>s'. lookupKeyRead (sample_server\<lparr>mstime := 60\<rparr>) 0 [107] = Some (None, s') \<and> aof_log s' = [(0, [107])]"
  using expired_key_deleted [OF sample_server_ok(2), of 0 "[107]"]
  by (auto simp: lapsed_def sample_server_def)

end
