(* ===== verification/Rdb.thy ===== *)
theory Rdb
  imports Rdb_Format Keyspace
begin

text \<open>
  Saving and loading the key space, \<open>rdbSave\<close> and \<open>rdbLoad\<close> of \<^verbatim>\<open>debug/redis/src/rdb.c\<close>, for
  databases of string values; a value of another type leaves the model (\<open>None\<close>, as for a panic or a failed
  assertion). The iterators visit the keys in the order given by \<open>order\<close>. Opening the temporary file, flushing it
  and renaming it over the old one are taken to succeed; that a write fails is modelled. The event loop is not run
  while loading.
\<close>

section \<open>Saving\<close>

definition rdbSaveObjectType :: "'o robj \<Rightarrow> save" where
  "rdbSaveObjectType o' = (if is_string o' then rdbSaveType 0 else (\<lambda>_. None))"

definition rdbSaveObject :: "rdb_env \<Rightarrow> 'o robj \<Rightarrow> save" where
  "rdbSaveObject env o' = (if is_string o' then rdbSaveStringObject env o' else (\<lambda>_. None))"

text \<open>The result counts bytes where the code returns 1; only -1 is told apart by the caller.\<close>

definition rdbSaveKeyValuePair :: "rdb_env \<Rightarrow> bytes \<Rightarrow> 'o robj \<Rightarrow> int \<Rightarrow> int \<Rightarrow> save" where
  "rdbSaveKeyValuePair env key val expiretime now =
     (if expiretime \<noteq> - 1 \<and> expiretime < now then (\<lambda>r. Some (Some 0, r))
      else
        (let pair = and_then (rdbSaveObjectType val)
                      (and_then (rdbSaveStringObject env (RawStr key :: 'o robj)) (rdbSaveObject env val))
         in if expiretime \<noteq> - 1 then and_then (rdbSaveType 252) (and_then (rdbSaveMillisecondTime expiretime) pair)
            else pair))"

fun save_keys :: "rdb_env \<Rightarrow> int \<Rightarrow> 'o server \<Rightarrow> nat \<Rightarrow> bytes list \<Rightarrow> save" where
  "save_keys env now s j [] = (\<lambda>r. Some (Some 0, r))"
| "save_keys env now s j (key # keys) =
     (case db_dict (dbs s j) key of
        None \<Rightarrow> (\<lambda>_. None)
      | Some o' \<Rightarrow>
          (case getExpire s j key of
             None \<Rightarrow> (\<lambda>_. None)
           | Some expire \<Rightarrow> and_then (rdbSaveKeyValuePair env key o' expire now) (save_keys env now s j keys)))"

fun save_dbs :: "rdb_env \<Rightarrow> int \<Rightarrow> (nat \<Rightarrow> bytes list) \<Rightarrow> 'o server \<Rightarrow> nat list \<Rightarrow> save" where
  "save_dbs env now order s [] = (\<lambda>r. Some (Some 0, r))"
| "save_dbs env now order s (j # js) =
     (if order j = [] then save_dbs env now order s js
      else
        and_then (rdbSaveType 254)
          (and_then (rdbSaveLen j) (and_then (save_keys env now s j (order j)) (save_dbs env now order s js))))"

text \<open>\<open>Some None\<close> is \<^verbatim>\<open>REDIS_ERR\<close>; the write of the checksum is not tested.\<close>

definition rdbSave ::
    "rdb_env \<Rightarrow> bool \<Rightarrow> bool list \<Rightarrow> int \<Rightarrow> (nat \<Rightarrow> bytes list) \<Rightarrow> 'o server \<Rightarrow> (bytes \<times> 'o server) option option" where
  "rdbSave env checksum oks now order s =
     (case and_then (rdbWriteRaw (ctext ''REDIS0006''))
             (and_then (save_dbs env now order s [0..<dbnum s]) (rdbSaveType 255))
             \<lparr>w_out = [], w_check = checksum, w_cksum = 0, w_ok = oks\<rparr> of
        None \<Rightarrow> None
      | Some (None, r) \<Rightarrow> Some None
      | Some (Some _, r) \<Rightarrow>
          (case rioWrite r (le_bytes 8 (unat (w_cksum r))) of (_, r) \<Rightarrow> Some (Some (w_out r, s\<lparr>dirty := 0\<rparr>))))"

section \<open>Loading\<close>

definition rdbLoadObject :: "byte \<Rightarrow> rio \<Rightarrow> 'o loaded" where
  "rdbLoadObject type r =
     (if type = 0 then
        (case rdbLoadEncodedStringObject r of
           Some (Some o', r) \<Rightarrow> map_option (\<lambda>o'. (Some o', r)) (tryObjectEncoding 1 o')
         | res \<Rightarrow> res)
      else None)"

text \<open>The opcode with the expiry time in front of it; \<open>None\<close> is the exit on a short read.\<close>

definition load_opcode :: "rio \<Rightarrow> (byte \<times> int \<times> rio) option" where
  "load_opcode r =
     (case rdbLoadType r of
        None \<Rightarrow> None
      | Some (type, r) \<Rightarrow>
          if type = 253 then
            (case rdbLoadTime r of (t, r) \<Rightarrow>
               if t = - 1 then None else map_option (\<lambda>(type, r). (type, t * 1000, r)) (rdbLoadType r))
          else if type = 252 then
            (case rdbLoadMillisecondTime r of (t, r) \<Rightarrow>
               if t = - 1 then None else map_option (\<lambda>(type, r). (type, t, r)) (rdbLoadType r))
          else Some (type, - 1, r))"

definition add_loaded :: "int \<Rightarrow> int \<Rightarrow> 'o server \<Rightarrow> nat \<Rightarrow> bytes \<Rightarrow> 'o robj \<Rightarrow> 'o server option" where
  "add_loaded now expiretime s db key val =
     (if \<not> masterhost s \<and> expiretime \<noteq> - 1 \<and> expiretime < now then Some s
      else
        do { s \<leftarrow> dbAdd s db key val;
             if expiretime \<noteq> - 1 then setExpire s db key expiretime else Some s })"

lemma rioRead_length: "rioRead r n = Some (b, r') \<Longrightarrow> length (r_in r') + n = length (r_in r) \<and> 0 < n"
  by (auto simp: rioRead_def rioFileRead_def split: if_splits)

lemma rdbLoadType_length: "rdbLoadType r = Some (t, r') \<Longrightarrow> length (r_in r') < length (r_in r)"
  by (auto simp: rdbLoadType_def dest!: rioRead_length)

lemma rdbLoadLen_length: "rdbLoadLen r = (e, n, r') \<Longrightarrow> length (r_in r') \<le> length (r_in r)"
  by (auto simp: rdbLoadLen_def Let_def split: option.splits if_splits dest!: rioRead_length)

lemma load_opcode_length: "load_opcode r = Some (t, e, r') \<Longrightarrow> length (r_in r') < length (r_in r)"
  by (fastforce simp: load_opcode_def rdbLoadTime_def rdbLoadMillisecondTime_def split: option.splits if_splits
      dest!: rioRead_length rdbLoadType_length)

lemma load_string_length:
  "rdbGenericLoadStringObject encode r = Some (x, r') \<Longrightarrow> length (r_in r') \<le> length (r_in r)"
  by (fastforce simp: rdbGenericLoadStringObject_def rdbLoadIntegerObject_def rdbLoadLzfStringObject_def Let_def
      split: option.splits if_splits prod.splits dest!: rioRead_length rdbLoadLen_length)

lemma load_object_length: "rdbLoadObject type r = Some (x, r') \<Longrightarrow> length (r_in r') \<le> length (r_in r)"
  by (auto simp: rdbLoadObject_def rdbLoadEncodedStringObject_def split: if_splits option.splits dest!: load_string_length)

text \<open>The main loop up to the end opcode. \<open>Some None\<close> is the exit of the process.\<close>

function load_loop :: "int \<Rightarrow> rio \<Rightarrow> 'o server \<Rightarrow> nat \<Rightarrow> (rio \<times> 'o server) option option" where
  "load_loop now r s db =
     (case load_opcode r of
        None \<Rightarrow> Some None
      | Some (type, expiretime, r) \<Rightarrow>
          if type = 255 then Some (Some (r, s))
          else if type = 254 then
            (case rdbLoadLen r of (_, dbid, r) \<Rightarrow>
               if dbid = REDIS_RDB_LENERR then Some None
               else if dbid \<ge> dbnum s then Some None
               else load_loop now r s dbid)
          else
            (case rdbLoadStringObject r :: 'o loaded of
               None \<Rightarrow> None
             | Some (None, r) \<Rightarrow> Some None
             | Some (Some key, r) \<Rightarrow>
                 (case rdbLoadObject type r of
                    None \<Rightarrow> None
                  | Some (None, r) \<Rightarrow> Some None
                  | Some (Some val, r) \<Rightarrow>
                      (case add_loaded now expiretime s db (str_of key) val of
                         None \<Rightarrow> None
                       | Some s \<Rightarrow> load_loop now r s db))))"
  by pat_completeness auto
termination
  by (relation "measure (\<lambda>(_, r, _, _). length (r_in r))")
     (fastforce simp: rdbLoadStringObject_def
       dest!: load_opcode_length rdbLoadLen_length [OF sym] load_string_length load_object_length)+

declare load_loop.simps [simp del]

datatype 'o load_result = Rejected | Exited | Loaded 'o

definition rdbLoad :: "bool \<Rightarrow> int \<Rightarrow> bytes \<Rightarrow> 'o server \<Rightarrow> 'o server load_result option" where
  "rdbLoad checksum now file s =
     (case rioRead \<lparr>r_in = file, r_check = checksum, r_cksum = 0\<rparr> 9 of
        None \<Rightarrow> Some Exited
      | Some (buf, r) \<Rightarrow>
          let rdbver = atoi (drop 5 buf) in
          if take 5 buf \<noteq> ctext ''REDIS'' then Some Rejected
          else if rdbver < 1 \<or> rdbver > 6 then Some Rejected
          else
            (case load_loop now r (s\<lparr>loading := True\<rparr>) 0 of
               None \<Rightarrow> None
             | Some None \<Rightarrow> Some Exited
             | Some (Some (r, s)) \<Rightarrow>
                 if rdbver \<ge> 5 \<and> checksum then
                   (case rioRead r 8 of
                      None \<Rightarrow> Some Exited
                    | Some (b, _) \<Rightarrow>
                        let cksum = (of_nat (le_nat b) :: 64 word) in
                        if cksum \<noteq> 0 \<and> cksum \<noteq> r_cksum r then Some Exited else Some (Loaded (s\<lparr>loading := False\<rparr>)))
                 else Some (Loaded (s\<lparr>loading := False\<rparr>))))"

section \<open>What is saved\<close>

text \<open>Like \<open>saves\<close>, for operations of which only failure is looked at.\<close>

definition writes :: "save \<Rightarrow> bytes \<Rightarrow> bool" where
  "writes f bs \<longleftrightarrow> (\<forall>r. w_ok r = [] \<longrightarrow> (\<exists>n. f r = Some (Some n, emit r bs)))"

lemma saves_writes: "saves f bs \<Longrightarrow> writes f bs"
  by (simp add: saves_def writes_def)

lemma writes_then:
  assumes "writes f a" "writes g b"
  shows "writes (and_then f g) (a @ b)"
  unfolding writes_def
proof (intro allI impI)
  fix r :: wio assume r: "w_ok r = []"
  obtain n where "f r = Some (Some n, emit r a)" using assms(1) r by (auto simp: writes_def)
  moreover obtain m where "g (emit r a) = Some (Some m, emit (emit r a) b)"
    using assms(2) r by (metis emit_simps(1) writes_def)
  ultimately show "\<exists>n. and_then f g r = Some (Some n, emit r (a @ b))" by (simp add: and_then_def)
qed

lemma writes_nothing: "writes (\<lambda>r. Some (Some 0, r)) []"
  by (simp add: writes_def)

text \<open>An entry of the file, with the encodings of the key and of the value.\<close>

definition entry :: "int option \<Rightarrow> bytes \<Rightarrow> bytes \<Rightarrow> bytes" where
  "entry expire kb vb = (case expire of None \<Rightarrow> [] | Some w \<Rightarrow> 252 # sle_bytes 8 w) @ 0 # kb @ vb"

definition storable :: "'o robj \<Rightarrow> bool" where
  "storable o' \<longleftrightarrow> is_string o' \<and> obj_ok o' \<and> length (str_of o') < 2 ^ 32 - 1"

definition env_ok :: "rdb_env \<Rightarrow> bool" where
  "env_ok env \<longleftrightarrow> (\<forall>h. is_ll (lz_tab env h))"

lemma save_pair:
  fixes val :: "'o robj"
  assumes "storable val" "length key < 2 ^ 32 - 1" "env_ok env" "case expire of None \<Rightarrow> True | Some w \<Rightarrow> 0 \<le> w \<and> now \<le> w"
  shows "\<exists>kb vb. writes (rdbSaveKeyValuePair env key val (case expire of None \<Rightarrow> - 1 | Some w \<Rightarrow> w) now) (entry expire kb vb) \<and>
    restores kb (RawStr key :: 'o robj) \<and> restores vb val"
proof -
  obtain kb where kb: "saves (rdbSaveStringObject env (RawStr key :: 'o robj)) kb" "restores kb (RawStr key :: 'o robj)"
    using save_string_object [of "RawStr key :: 'o robj" env] assms(2,3) by (auto simp: env_ok_def)
  obtain vb where vb: "saves (rdbSaveStringObject env val) vb" "restores vb val"
    using save_string_object [of val env] assms(1,3) by (auto simp: storable_def env_ok_def)
  have o: "is_string val" using assms(1) by (simp add: storable_def)
  have pair: "writes (and_then (rdbSaveObjectType val)
      (and_then (rdbSaveStringObject env (RawStr key :: 'o robj)) (rdbSaveObject env val))) ([0] @ kb @ vb)"
    unfolding rdbSaveObjectType_def rdbSaveObject_def rdbSaveType_def if_P [OF o]
    by (intro writes_then saves_writes kb vb saves_raw) simp
  show ?thesis
  proof (cases expire)
    case None
    then show ?thesis using pair kb(2) vb(2) by (force simp: rdbSaveKeyValuePair_def entry_def)
  next
    case (Some w)
    have "writes (and_then (rdbSaveType 252) (and_then (rdbSaveMillisecondTime w)
        (and_then (rdbSaveObjectType val) (and_then (rdbSaveStringObject env (RawStr key :: 'o robj)) (rdbSaveObject env val)))))
      ([252] @ sle_bytes 8 w @ [0] @ kb @ vb)"
      unfolding rdbSaveType_def rdbSaveMillisecondTime_def
      by (intro writes_then pair [unfolded rdbSaveType_def] saves_writes saves_raw) (simp_all flip: length_0_conv)
    then show ?thesis using Some assms(4) kb(2) vb(2)
      by (intro exI [of _ kb] exI [of _ vb]) (auto simp: rdbSaveKeyValuePair_def entry_def)
  qed
qed

section \<open>What is loaded\<close>

lemma load_type: "r_in r = b # rest \<Longrightarrow> rdbLoadType r = Some (b, eats [b] r)"
  using rioRead_eats [of r "[b]" rest 1] by (simp add: rdbLoadType_def)

lemma load_opcode_entry:
  assumes "r_in r = entry expire kb vb @ rest" "case expire of None \<Rightarrow> True | Some w \<Rightarrow> 0 \<le> w \<and> is_ll w"
  shows "load_opcode r = Some (0, case expire of None \<Rightarrow> - 1 | Some w \<Rightarrow> w,
      eats (case expire of None \<Rightarrow> [0] | Some w \<Rightarrow> 252 # sle_bytes 8 w @ [0]) r)"
proof (cases expire)
  case None
  then show ?thesis using assms(1) load_type [of r 0] by (simp add: load_opcode_def entry_def)
next
  case (Some w)
  have 1: "rdbLoadType r = Some (252, eats [252] r)" using assms(1) Some by (auto simp: entry_def intro!: load_type)
  have "rioRead (eats [252] r) 8 = Some (sle_bytes 8 w, eats (252 # sle_bytes 8 w) r)"
    using rioRead_eats [of "eats [252] r" "sle_bytes 8 w" _ 8] assms(1) Some by (simp add: entry_def flip: length_0_conv)
  moreover have "sle_int (sle_bytes 8 w) = w"
    by (rule sle_int_sle_bytes) (use assms(2) Some in \<open>simp add: is_ll_def sfits_def\<close>)
  ultimately have 2: "rdbLoadMillisecondTime (eats [252] r) = (w, eats (252 # sle_bytes 8 w) r)"
    by (simp add: rdbLoadMillisecondTime_def)
  have 3: "rdbLoadType (eats (252 # sle_bytes 8 w) r) = Some (0, eats (252 # sle_bytes 8 w @ [0]) r)"
    using load_type [of "eats (252 # sle_bytes 8 w) r" 0] assms(1) Some by (simp add: entry_def)
  show ?thesis using 1 2 3 assms(2) Some by (auto simp: load_opcode_def)
qed

text \<open>What a client sees of a key: the text of the value and the expiry time.\<close>

definition view :: "'o server \<Rightarrow> nat \<Rightarrow> bytes \<Rightarrow> bytes option \<times> int option" where
  "view s i key = (map_option str_of (db_dict (dbs s i) key), expires (dbs s i) key)"

definition kept :: "int \<Rightarrow> 'o server \<Rightarrow> int option \<Rightarrow> bool" where
  "kept now t expire \<longleftrightarrow> (case expire of None \<Rightarrow> True | Some w \<Rightarrow> masterhost t \<or> now \<le> w)"

lemma add_loaded_view:
  assumes "view t db key = (None, None)" "case expire of None \<Rightarrow> True | Some w \<Rightarrow> 0 \<le> w"
  shows "\<exists>t'. add_loaded now (case expire of None \<Rightarrow> - 1 | Some w \<Rightarrow> w) t db key val = Some t' \<and>
    dbnum t' = dbnum t \<and> masterhost t' = masterhost t \<and>
    view t' = (\<lambda>i k. if i = db \<and> k = key \<and> kept now t expire then (Some (str_of val), expire) else view t i k)"
proof (cases "kept now t expire")
  case False
  then obtain w where "expire = Some w" "\<not> masterhost t" "w < now" by (auto simp: kept_def split: option.splits)
  then show ?thesis using False assms(2) by (simp add: add_loaded_def)
next
  case True
  have d: "db_dict (dbs t db) key = None" "expires (dbs t db) key = None" using assms(1) by (auto simp: view_def)
  show ?thesis
  proof (cases expire)
    case None
    then show ?thesis using d by (auto simp: add_loaded_def dbAdd_def view_def fun_eq_iff kept_def)
  next
    case (Some w)
    then show ?thesis using d True assms(2)
      by (auto simp: add_loaded_def dbAdd_def setExpire_def view_def fun_eq_iff kept_def)
  qed
qed

lemma load_entry:
  fixes t :: "'o server" and val :: "'o robj"
  assumes "r_in r = entry expire kb vb @ rest" "case expire of None \<Rightarrow> True | Some w \<Rightarrow> 0 \<le> w \<and> is_ll w"
    and "restores kb (RawStr key :: 'o robj)" "restores vb val" "view t db key = (None, None)"
  shows "\<exists>t'. load_loop now r t db = load_loop now (eats (entry expire kb vb) r) t' db \<and>
    dbnum t' = dbnum t \<and> masterhost t' = masterhost t \<and>
    view t' = (\<lambda>i k. if i = db \<and> k = key \<and> kept now t expire then (Some (str_of val), expire) else view t i k)"
proof -
  let ?h = "case expire of None \<Rightarrow> [0] | Some w \<Rightarrow> 252 # sle_bytes 8 w @ [0]"
  let ?e = "case expire of None \<Rightarrow> - 1 | Some w \<Rightarrow> w"
  have e: "entry expire kb vb = ?h @ kb @ vb" by (simp add: entry_def split: option.split)
  have "r_in (eats ?h r) = kb @ vb @ rest" using assms(1) by (simp add: e)
  then have k: "rdbLoadStringObject (eats ?h r) = Some (Some (RawStr key :: 'o robj), eats (?h @ kb) r)"
    using assms(3) unfolding restores_def rdbLoadStringObject_def by fastforce
  have "r_in (eats (?h @ kb) r) = vb @ rest" using assms(1) by (simp add: e)
  then obtain v where v: "rdbLoadEncodedStringObject (eats (?h @ kb) r) = Some (Some v, eats (?h @ kb @ vb) r)"
      "str_of v = str_of val" "is_string (v :: 'o robj)"
    using assms(4) unfolding restores_def rdbLoadEncodedStringObject_def by (metis append_assoc eats_eats)
  obtain v' where v': "tryObjectEncoding 1 v = Some v'" "str_of v' = str_of val"
    using tryObjectEncoding_ok [of 1] v(2,3) by (cases v) (auto simp: tryObjectEncoding_def)
  have o: "rdbLoadObject 0 (eats (?h @ kb) r) = Some (Some v', eats (?h @ kb @ vb) r)"
    using v(1) v'(1) by (simp add: rdbLoadObject_def)
  have e2: "case expire of None \<Rightarrow> True | Some w \<Rightarrow> 0 \<le> w" using assms(2) by (auto split: option.splits)
  obtain t' where t': "add_loaded now ?e t db key v' = Some t'" "dbnum t' = dbnum t" "masterhost t' = masterhost t"
      "view t' = (\<lambda>i k. if i = db \<and> k = key \<and> kept now t expire then (Some (str_of v'), expire) else view t i k)"
    using add_loaded_view [OF assms(5) e2] by blast
  have "load_loop now r t db = load_loop now (eats (?h @ kb @ vb) r) t' db"
    using load_opcode_entry [OF assms(1,2)] k o t'(1) by (subst load_loop.simps) simp
  then show ?thesis using t'(2,3) t'(4) [unfolded v'(2)] e by (intro exI [of _ t']) simp
qed

section \<open>The whole key space\<close>

definition good :: "'o server \<Rightarrow> nat \<Rightarrow> bytes \<Rightarrow> bool" where
  "good s i key \<longleftrightarrow> length key < 2 ^ 32 - 1 \<and>
     (case db_dict (dbs s i) key of None \<Rightarrow> False | Some o' \<Rightarrow> storable o') \<and>
     (case expires (dbs s i) key of None \<Rightarrow> True | Some w \<Rightarrow> 0 \<le> w \<and> is_ll w)"

text \<open>A key survives when it has expired neither at the time of saving nor, on a master, at the time of loading.\<close>

definition survives :: "int \<Rightarrow> int \<Rightarrow> bool \<Rightarrow> int option \<Rightarrow> bool" where
  "survives saved now slave expire \<longleftrightarrow> (case expire of None \<Rightarrow> True | Some w \<Rightarrow> saved \<le> w \<and> (slave \<or> now \<le> w))"

text \<open>
  \<open>reloads\<close>: the bytes, wherever they are found, take the loader from database \<open>db\<close> to \<open>db'\<close> and
  put the keys \<open>new\<close> of \<open>s\<close> in place; the keys \<open>clean\<close> must not be there before.
\<close>

definition reloads ::
    "int \<Rightarrow> 'o server \<Rightarrow> nat \<Rightarrow> nat \<Rightarrow> nat \<Rightarrow> bytes \<Rightarrow> (nat \<Rightarrow> bytes \<Rightarrow> bool) \<Rightarrow> (bool \<Rightarrow> nat \<Rightarrow> bytes \<Rightarrow> bool) \<Rightarrow> bool" where
  "reloads now s n db db' bs clean new \<longleftrightarrow>
     (\<forall>r rest (t :: 'o server). r_in r = bs @ rest \<and> n \<le> dbnum t \<and> (\<forall>i k. clean i k \<longrightarrow> view t i k = (None, None)) \<longrightarrow>
        (\<exists>t'. load_loop now r t db = load_loop now (eats bs r) t' db' \<and> dbnum t' = dbnum t \<and> masterhost t' = masterhost t \<and>
           view t' = (\<lambda>i k. if new (masterhost t) i k then view s i k else view t i k)))"

lemma reloadsD:
  fixes s t :: "'o server"
  assumes "reloads now s n db db' bs clean new" "r_in r = bs @ rest" "n \<le> dbnum t" "\<And>i k. clean i k \<Longrightarrow> view t i k = (None, None)"
  obtains t' where "load_loop now r t db = load_loop now (eats bs r) t' db'" "dbnum t' = dbnum t" "masterhost t' = masterhost t"
    "view t' = (\<lambda>i k. if new (masterhost t) i k then view s i k else view t i k)"
  using assms unfolding reloads_def by blast

lemma reloads_nothing: "reloads now s n db db [] clean (\<lambda>_ _ _. False)"
  by (auto simp: reloads_def)

lemma reloads_append:
  assumes "reloads now s n db1 db2 a clean1 new1" "reloads now s n db2 db3 b clean2 new2" "\<And>m i k. new1 m i k \<Longrightarrow> \<not> clean2 i k"
  shows "reloads now s n db1 db3 (a @ b) (\<lambda>i k. clean1 i k \<or> clean2 i k) (\<lambda>m i k. new1 m i k \<or> new2 m i k)"
  unfolding reloads_def
proof (intro allI impI)
  fix r :: rio and rest and t :: "'a server"
  assume h: "r_in r = (a @ b) @ rest \<and> n \<le> dbnum t \<and> (\<forall>i k. clean1 i k \<or> clean2 i k \<longrightarrow> view t i k = (None, None))"
  obtain t1 where t1: "load_loop now r t db1 = load_loop now (eats a r) t1 db2" "dbnum t1 = dbnum t" "masterhost t1 = masterhost t"
      "view t1 = (\<lambda>i k. if new1 (masterhost t) i k then view s i k else view t i k)"
    by (rule reloadsD [OF assms(1), of r "b @ rest" t]) (use h in auto)
  obtain t2 where t2: "load_loop now (eats a r) t1 db2 = load_loop now (eats b (eats a r)) t2 db3" "dbnum t2 = dbnum t1"
      "masterhost t2 = masterhost t1" "view t2 = (\<lambda>i k. if new2 (masterhost t1) i k then view s i k else view t1 i k)"
    by (rule reloadsD [OF assms(2), of "eats a r" rest t1]) (use h t1(2,4) assms(3) in auto)
  have "view t2 = (\<lambda>i k. if new1 (masterhost t) i k \<or> new2 (masterhost t) i k then view s i k else view t i k)"
    unfolding t2(4) t1(3,4) by (auto simp: fun_eq_iff)
  then show "\<exists>t'. load_loop now r t db1 = load_loop now (eats (a @ b) r) t' db3 \<and> dbnum t' = dbnum t \<and> masterhost t' = masterhost t \<and>
      view t' = (\<lambda>i k. if new1 (masterhost t) i k \<or> new2 (masterhost t) i k then view s i k else view t i k)"
    using t1(1-3) t2(1-3) by auto
qed

lemma entry_reloads:
  assumes "db_dict (dbs s j) key = Some val" "expires (dbs s j) key = expire" "case expire of None \<Rightarrow> True | Some w \<Rightarrow> 0 \<le> w \<and> is_ll w \<and> saved \<le> w"
    and "restores kb (RawStr key :: 'o robj)" "restores vb (val :: 'o robj)"
  shows "reloads now s n j j (entry expire kb vb) (\<lambda>i k. i = j \<and> k = key)
    (\<lambda>m i k. i = j \<and> k = key \<and> survives saved now m (expires (dbs s i) k))"
  unfolding reloads_def
proof (intro allI impI)
  let ?e = "entry expire kb vb"
  fix r :: rio and rest and t :: "'o server"
  assume h: "r_in r = ?e @ rest \<and> n \<le> dbnum t \<and> (\<forall>i k. i = j \<and> k = key \<longrightarrow> view t i k = (None, None))"
  have w: "case expire of None \<Rightarrow> True | Some w \<Rightarrow> 0 \<le> w \<and> is_ll w" using assms(3) by (auto split: option.splits)
  obtain t1 where t1: "load_loop now r t j = load_loop now (eats ?e r) t1 j" "dbnum t1 = dbnum t" "masterhost t1 = masterhost t"
      "view t1 = (\<lambda>i k. if i = j \<and> k = key \<and> kept now t expire then (Some (str_of val), expire) else view t i k)"
    using load_entry [OF _ w assms(4,5), of r rest t j] h by blast
  have "kept now t expire \<longleftrightarrow> survives saved now (masterhost t) expire"
    using assms(3) by (auto simp: kept_def survives_def split: option.splits)
  then have "view t1 = (\<lambda>i k. if i = j \<and> k = key \<and> survives saved now (masterhost t) (expires (dbs s i) k) then view s i k else view t i k)"
    unfolding t1(4) using assms(1,2) by (auto simp: fun_eq_iff view_def)
  then show "\<exists>t'. load_loop now r t j = load_loop now (eats ?e r) t' j \<and> dbnum t' = dbnum t \<and> masterhost t' = masterhost t \<and>
      view t' = (\<lambda>i k. if i = j \<and> k = key \<and> survives saved now (masterhost t) (expires (dbs s i) k) then view s i k else view t i k)"
    using t1 by auto
qed

lemma reloads_weaken:
  "reloads now s n a b bs clean new \<Longrightarrow> (\<And>i k. clean i k \<Longrightarrow> clean' i k) \<Longrightarrow> new = new' \<Longrightarrow> reloads now s n a b bs clean' new'"
  unfolding reloads_def by blast

lemma save_keys_reloads:
  fixes s :: "'o server"
  assumes "distinct keys" "\<forall>k \<in> set keys. good s j k" "env_ok env"
  shows "\<exists>bs. writes (save_keys env saved s j keys) bs \<and>
    reloads now s n j j bs (\<lambda>i k. i = j \<and> k \<in> set keys)
      (\<lambda>m i k. i = j \<and> k \<in> set keys \<and> survives saved now m (expires (dbs s i) k))"
  using assms(1,2)
proof (induction keys)
  case Nil
  show ?case using reloads_nothing [of now s n j] by (intro exI [of _ "[]"]) (simp add: writes_nothing)
next
  case (Cons key keys)
  obtain bs where bs: "writes (save_keys env saved s j keys) bs"
    "reloads now s n j j bs (\<lambda>i k. i = j \<and> k \<in> set keys)
      (\<lambda>m i k. i = j \<and> k \<in> set keys \<and> survives saved now m (expires (dbs s i) k))"
    using Cons.IH Cons.prems by auto
  let ?x = "expires (dbs s j) key"
  let ?t = "case ?x of None \<Rightarrow> - 1 | Some w \<Rightarrow> w"
  obtain o' where o': "db_dict (dbs s j) key = Some o'" "storable o'" "length key < 2 ^ 32 - 1"
      "case ?x of None \<Rightarrow> True | Some w \<Rightarrow> 0 \<le> w \<and> is_ll w"
    using Cons.prems(2) by (auto simp: good_def split: option.splits)
  have "getExpire s j key = Some ?t" using o'(1) by (simp add: getExpire_def split: option.split)
  then have sk: "save_keys env saved s j (key # keys)
      = and_then (rdbSaveKeyValuePair env key o' ?t saved) (save_keys env saved s j keys)"
    using o'(1) by simp
  show ?case
  proof (cases "case ?x of None \<Rightarrow> True | Some w \<Rightarrow> saved \<le> w")
    case False
    then have "rdbSaveKeyValuePair env key o' ?t saved = (\<lambda>r. Some (Some 0, r))"
      using o'(4) by (auto simp: rdbSaveKeyValuePair_def split: option.splits)
    then have "writes (save_keys env saved s j (key # keys)) ([] @ bs)"
      unfolding sk using writes_then [OF writes_nothing bs(1)] by simp
    moreover have "\<not> survives saved now m ?x" for m using False by (auto simp: survives_def split: option.splits)
    then have "reloads now s n j j bs (\<lambda>i k. i = j \<and> k \<in> set (key # keys))
        (\<lambda>m i k. i = j \<and> k \<in> set (key # keys) \<and> survives saved now m (expires (dbs s i) k))"
      by (intro reloads_weaken [OF bs(2)]) (auto simp: fun_eq_iff)
    ultimately show ?thesis by auto
  next
    case True
    then have x: "case ?x of None \<Rightarrow> True | Some w \<Rightarrow> 0 \<le> w \<and> saved \<le> w"
        "case ?x of None \<Rightarrow> True | Some w \<Rightarrow> 0 \<le> w \<and> is_ll w \<and> saved \<le> w"
      using o'(4) by (auto split: option.splits)
    from save_pair [OF o'(2,3) assms(3) x(1)] obtain kb vb where kv:
      "writes (rdbSaveKeyValuePair env key o' ?t saved) (entry ?x kb vb)"
      "restores kb (RawStr key :: 'o robj)" "restores vb o'" by blast
    have "reloads now s n j j (entry ?x kb vb @ bs) (\<lambda>i k. i = j \<and> k \<in> set (key # keys))
        (\<lambda>m i k. i = j \<and> k \<in> set (key # keys) \<and> survives saved now m (expires (dbs s i) k))"
      by (rule reloads_weaken [OF reloads_append [OF entry_reloads [OF o'(1) refl x(2) kv(2,3)] bs(2)]])
         (use Cons.prems(1) in \<open>auto simp: fun_eq_iff\<close>)
    then show ?thesis unfolding sk using writes_then [OF kv(1) bs(1)] by blast
  qed
qed

lemma select_reloads:
  assumes "j < n" "n < 2 ^ 32"
  shows "reloads now s n db j (254 # enc_len j) (\<lambda>_ _. False) (\<lambda>_ _ _. False)"
proof -
  have "load_loop now r t db = load_loop now (eats (254 # enc_len j) r) t j"
    if "r_in r = (254 # enc_len j) @ rest" "n \<le> dbnum t" for r rest and t :: "'a server"
  proof -
    have "rdbLoadLen (eats [254] r) = (False, j, eats (254 # enc_len j) r)"
      using load_len [of "eats [254] r" j rest] that assms by simp
    then show ?thesis using load_type [of r 254] that assms
      by (subst load_loop.simps) (simp add: load_opcode_def REDIS_RDB_LENERR_def)
  qed
  then show ?thesis unfolding reloads_def by simp blast
qed

text \<open>The keys of a database are all the keys the iterator gives, once each.\<close>

definition dump_ok :: "'o server \<Rightarrow> (nat \<Rightarrow> bytes list) \<Rightarrow> nat \<Rightarrow> bool" where
  "dump_ok s order j \<longleftrightarrow> distinct (order j) \<and> set (order j) = dom (db_dict (dbs s j)) \<and> (\<forall>k \<in> set (order j). good s j k)"

lemma save_dbs_reloads:
  fixes s :: "'o server"
  assumes "distinct js" "\<forall>j \<in> set js. j < n \<and> dump_ok s order j" "n < 2 ^ 32" "env_ok env"
  shows "\<exists>bs. writes (save_dbs env saved order s js) bs \<and>
    (\<forall>db. \<exists>db'. reloads now s n db db' bs (\<lambda>i k. i \<in> set js \<and> k \<in> set (order i))
       (\<lambda>m i k. i \<in> set js \<and> k \<in> set (order i) \<and> survives saved now m (expires (dbs s i) k)))"
  using assms(1,2)
proof (induction js)
  case Nil
  show ?case using reloads_nothing [of now s n] by (intro exI [of _ "[]"]) (auto simp: writes_nothing)
next
  case (Cons j js)
  obtain bs where bs: "writes (save_dbs env saved order s js) bs"
    "\<And>db. \<exists>db'. reloads now s n db db' bs (\<lambda>i k. i \<in> set js \<and> k \<in> set (order i))
       (\<lambda>m i k. i \<in> set js \<and> k \<in> set (order i) \<and> survives saved now m (expires (dbs s i) k))"
    using Cons by auto
  show ?case
  proof (cases "order j = []")
    case True
    have "reloads now s n db db' bs (\<lambda>i k. i \<in> set (j # js) \<and> k \<in> set (order i))
        (\<lambda>m i k. i \<in> set (j # js) \<and> k \<in> set (order i) \<and> survives saved now m (expires (dbs s i) k))"
      if "reloads now s n db db' bs (\<lambda>i k. i \<in> set js \<and> k \<in> set (order i))
        (\<lambda>m i k. i \<in> set js \<and> k \<in> set (order i) \<and> survives saved now m (expires (dbs s i) k))" for db db'
      by (rule reloads_weaken [OF that]) (use True in \<open>auto simp: fun_eq_iff\<close>)
    then show ?thesis using True bs by (intro exI [of _ bs]) (simp, blast)
  next
    case False
    have j: "j < n" "distinct (order j)" "\<forall>k \<in> set (order j). good s j k" using Cons.prems(2) by (auto simp: dump_ok_def)
    obtain kb where kb: "writes (save_keys env saved s j (order j)) kb"
      "reloads now s n j j kb (\<lambda>i k. i = j \<and> k \<in> set (order j))
        (\<lambda>m i k. i = j \<and> k \<in> set (order j) \<and> survives saved now m (expires (dbs s i) k))"
      using save_keys_reloads [OF j(2,3) assms(4)] by blast
    let ?bs = "[254] @ enc_len j @ kb @ bs"
    have "writes (save_dbs env saved order s (j # js)) ?bs"
      using False j(1) assms(3) unfolding save_dbs.simps if_not_P [OF False] rdbSaveType_def
      by (intro writes_then kb(1) bs(1) saves_writes saves_raw saves_len) simp_all
    moreover have "\<exists>db'. reloads now s n db db' ?bs (\<lambda>i k. i \<in> set (j # js) \<and> k \<in> set (order i))
       (\<lambda>m i k. i \<in> set (j # js) \<and> k \<in> set (order i) \<and> survives saved now m (expires (dbs s i) k))" for db
    proof -
      obtain db' where "reloads now s n j db' bs (\<lambda>i k. i \<in> set js \<and> k \<in> set (order i))
          (\<lambda>m i k. i \<in> set js \<and> k \<in> set (order i) \<and> survives saved now m (expires (dbs s i) k))"
        using bs(2) by blast
      note all = reloads_append [OF select_reloads [OF j(1) assms(3), of now s db] reloads_append [OF kb(2) this]]
      have "reloads now s n db db' ((254 # enc_len j) @ kb @ bs) (\<lambda>i k. i \<in> set (j # js) \<and> k \<in> set (order i))
        (\<lambda>m i k. i \<in> set (j # js) \<and> k \<in> set (order i) \<and> survives saved now m (expires (dbs s i) k))"
        by (rule reloads_weaken [OF all]) (use Cons.prems(1) in \<open>auto simp: fun_eq_iff\<close>)
      then show ?thesis by auto
    qed
    ultimately show ?thesis by blast
  qed
qed

section \<open>The round trip\<close>

lemma writes_start:
  "writes f bs \<Longrightarrow> \<exists>n. f \<lparr>w_out = [], w_check = c, w_cksum = 0, w_ok = []\<rparr> = Some (Some n, emit \<lparr>w_out = [], w_check = c, w_cksum = 0, w_ok = []\<rparr> bs)"
  by (simp add: writes_def)

lemma le_bytes_word: "of_nat (le_nat (le_bytes 8 (unat (w :: 64 word)))) = w"
proof -
  have "unat w < 256 ^ 8" using unsigned_less [of w] by simp
  then show ?thesis by (simp add: le_nat_le_bytes)
qed

text \<open>The bytes of a successful save.\<close>

lemma save_file:
  assumes "writes (save_dbs env saved order s [0..<dbnum s]) bs"
  defines "body \<equiv> ctext ''REDIS0006'' @ bs @ [255]"
  shows "rdbSave env checksum [] saved order s =
    Some (Some (body @ le_bytes 8 (unat (if checksum then crc64 0 body else 0)), s\<lparr>dirty := 0\<rparr>))"
proof -
  let ?r = "\<lparr>w_out = [], w_check = checksum, w_cksum = 0, w_ok = []\<rparr>"
  have "writes (and_then (rdbWriteRaw (ctext ''REDIS0006''))
      (and_then (save_dbs env saved order s [0..<dbnum s]) (rdbSaveType 255))) body"
    unfolding body_def rdbSaveType_def by (intro writes_then assms(1) saves_writes saves_raw) (simp_all add: ctext_def)
  then obtain n where "and_then (rdbWriteRaw (ctext ''REDIS0006''))
      (and_then (save_dbs env saved order s [0..<dbnum s]) (rdbSaveType 255)) ?r = Some (Some n, emit ?r body)"
    using writes_start by blast
  moreover have "w_cksum (emit ?r body) = (if checksum then crc64 0 body else 0)" by simp
  moreover have "w_out (snd (rioWrite (emit ?r body) c)) = body @ c" if "c \<noteq> []" for c
    using that by (simp add: rioWrite_def rioFileWrite_def Let_def)
  moreover have "(le_bytes 8 n = []) = False" for n by (simp flip: length_0_conv)
  ultimately show ?thesis by (simp only: rdbSave_def option.case prod.case case_prod_beta' fst_conv snd_conv not_False_eq_True)
qed

definition verdict :: "bool \<Rightarrow> bytes \<Rightarrow> bytes \<Rightarrow> 'o server \<Rightarrow> 'o server load_result" where
  "verdict checksum body c t =
     (if \<not> checksum then Loaded t
      else if length c < 8 then Exited
      else if of_nat (le_nat (take 8 c)) \<notin> {0, crc64 0 body} then Exited
      else Loaded t)"

lemma load_file:
  fixes s t :: "'o server"
  assumes "reloads now s n 0 db bs clean new" "n \<le> dbnum t" "\<And>i k. clean i k \<Longrightarrow> view t i k = (None, None)"
  defines "body \<equiv> ctext ''REDIS0006'' @ bs @ [255]"
  shows "\<exists>t'. rdbLoad checksum now (body @ c) t = Some (verdict checksum body c t') \<and>
    view t' = (\<lambda>i k. if new (masterhost t) i k then view s i k else view t i k)"
proof -
  let ?h = "ctext ''REDIS0006''"
  let ?r = "\<lparr>r_in = body @ c, r_check = checksum, r_cksum = 0\<rparr>" and ?t = "t\<lparr>loading := True\<rparr>"
  have h: "?h \<noteq> []" "length ?h = 9" "take 5 ?h = ctext ''REDIS''" "drop 5 ?h = ctext ''0006''" by (simp_all add: ctext_def)
  have ver: "atoi (ctext ''0006'') = 6"
    by (simp add: ctext_def atoi_def strtoll_def cstr_def isspace_def isdigit_def dec_val_def Let_def)
  have r1: "rioRead ?r 9 = Some (?h, eats ?h ?r)"
    by (rule rioRead_eats [where rest = "bs @ [255] @ c"]) (simp_all add: body_def h)
  have v: "view (x\<lparr>loading := b\<rparr>) = view x" for x :: "'o server" and b by (simp add: view_def fun_eq_iff)
  have in1: "r_in (eats ?h ?r) = bs @ 255 # c" by (simp add: body_def)
  have v': "\<And>i k. clean i k \<Longrightarrow> view ?t i k = (None, None)" "n \<le> dbnum ?t" using assms(2,3) v by simp_all
  obtain t' where t': "load_loop now (eats ?h ?r) ?t 0 = load_loop now (eats bs (eats ?h ?r)) t' db"
      "view t' = (\<lambda>i k. if new (masterhost ?t) i k then view s i k else view ?t i k)"
    by (rule reloadsD [OF assms(1) in1 v'(2,1)])
  have r2: "rdbLoadType (eats bs (eats ?h ?r)) = Some (255, eats [255] (eats bs (eats ?h ?r)))"
    by (rule load_type) (simp add: body_def)
  have e: "eats [255] (eats bs (eats ?h ?r)) = eats body ?r" by (simp add: body_def)
  have l: "load_loop now (eats ?h ?r) ?t 0 = Some (Some (eats body ?r, t'))"
    unfolding t'(1) using r2 unfolding e by (subst load_loop.simps) (simp add: load_opcode_def)
  have r3: "rioRead (eats body ?r) 8 = (if length c < 8 then None else Some (take 8 c, eats (take 8 c) (eats body ?r)))"
    using rioRead_eats [of "eats body ?r" "take 8 c" "drop 8 c" 8] by (cases c) (auto simp: rioRead_def rioFileRead_def)
  have ck: "r_cksum (eats body ?r) = (if checksum then crc64 0 body else 0)" by simp
  have "rdbLoad checksum now (body @ c) t = Some (verdict checksum body c (t'\<lparr>loading := False\<rparr>))"
    unfolding rdbLoad_def Let_def r1 option.case prod.case h ver l r3 ck by (simp add: verdict_def)
  then show ?thesis using t'(2) [unfolded v] v by auto
qed


text \<open>When the checksum cannot be written the save succeeds, and the file cannot be loaded.\<close>

lemma save_nothing: "save_dbs env now (\<lambda>_. []) s js = (\<lambda>r. Some (Some 0, r))"
  by (induction js) simp_all

lemma checksum_write_unnoticed:
  "rdbSave env True [True, True, False] saved (\<lambda>_. []) s = Some (Some (ctext ''REDIS0006'' @ [255], s\<lparr>dirty := 0\<rparr>)) \<and>
   rdbLoad True now (ctext ''REDIS0006'' @ [255]) t = Some Exited"
proof
  show "rdbSave env True [True, True, False] saved (\<lambda>_. []) s = Some (Some (ctext ''REDIS0006'' @ [255], s\<lparr>dirty := 0\<rparr>))"
    by (simp add: rdbSave_def save_nothing and_then_def rdbSaveType_def rdbWriteRaw_def rioWrite_def rioFileWrite_def Let_def ctext_def)
  show "rdbLoad True now (ctext ''REDIS0006'' @ [255]) t = Some Exited"
    using load_file [OF reloads_nothing [of now t 0 0 "\<lambda>_ _. False"], of t True "[]"] by (auto simp: verdict_def)
qed

definition empty_server :: "unit server" where
  "empty_server = sample_server\<lparr>dbs := (\<lambda>_. \<lparr>db_dict = Map.empty, expires = Map.empty\<rparr>)\<rparr>"


end
