(* ===== verification/Glob.thy ===== *)
theory Glob
  imports Prelude "HOL-Library.Monad_Syntax"
begin

text \<open>
  Glob-style matching, \<open>stringmatchlen\<close> of \<^verbatim>\<open>debug/redis/src/util.c\<close>. The
  pattern and the string are byte strings followed by a zero byte, as \<^verbatim>\<open>sds\<close> strings
  are; a position in one of them is an index, and \<^verbatim>\<open>patternLen\<close> and
  \<^verbatim>\<open>stringLen\<close>, which move with the pointers, are the differences to the lengths.
  \<open>None\<close> stands for an access outside of a buffer (or a pointer more than one past its end).
\<close>

definition getc :: "bytes \<Rightarrow> nat \<Rightarrow> byte option" where
  "getc s i = (if i < length s then Some (s ! i) else if i = length s then Some 0 else None)"

definition same_char :: "bool \<Rightarrow> byte \<Rightarrow> byte \<Rightarrow> bool" where
  "same_char nocase a b \<longleftrightarrow> (if nocase then tolower a = tolower b else a = b)"

text \<open>A \<^verbatim>\<open>char\<close> is signed on the hosts of the repository.\<close>

definition in_range :: "bool \<Rightarrow> byte \<Rightarrow> byte \<Rightarrow> byte \<Rightarrow> bool" where
  "in_range nocase start end c =
     (let (start, end) = (if sint start > sint end then (end, start) else (start, end));
          f = (if nocase then tolower else id)
      in sint (f c) \<ge> sint (f start) \<and> sint (f c) \<le> sint (f end))"

text \<open>The loop over the members of a class; \<open>sc\<close> is the access to \<^verbatim>\<open>string[0]\<close>.\<close>

function class_loop :: "bool \<Rightarrow> bytes \<Rightarrow> byte option \<Rightarrow> nat \<Rightarrow> bool \<Rightarrow> (nat \<times> bool) option" where
  "class_loop nocase p sc i match =
     do { p0 \<leftarrow> getc p i;
          if p0 = chr CHR 0x5C then
            do { p1 \<leftarrow> getc p (i + 1);
                 c \<leftarrow> sc;
                 class_loop nocase p sc (i + 2) (match \<or> p1 = c) }
          else if p0 = chr CHR '']'' then Some (i, match)
          else if i = length p then Some (i - 1, match)
          else
            do { p1 \<leftarrow> getc p (i + 1);
                 if p1 = chr CHR ''-'' \<and> length p - i \<ge> 3 then
                   do { p2 \<leftarrow> getc p (i + 2);
                        c \<leftarrow> sc;
                        class_loop nocase p sc (i + 3) (match \<or> in_range nocase p0 p2 c) }
                 else
                   do { c \<leftarrow> sc;
                        class_loop nocase p sc (i + 1) (match \<or> same_char nocase p0 c) } } }"
  by pat_completeness auto
termination
  by (relation "measure (\<lambda>(_, p, _, i, _). Suc (length p) - i)")
     (auto simp: getc_def split: if_splits)

declare class_loop.simps [simp del]

text \<open>The first position from \<open>i\<close> on that does not hold a star.\<close>

function stars :: "bytes \<Rightarrow> nat \<Rightarrow> nat option" where
  "stars p i =
     do { c \<leftarrow> getc p i;
          if c = chr CHR ''*'' then stars p (i + 1) else Some i }"
  by pat_completeness auto
termination
  by (relation "measure (\<lambda>(p, i). Suc (length p) - i)") (auto simp: getc_def split: if_splits)

declare stars.simps [simp del]

lemma class_loop_ge: "class_loop nocase p sc i m = Some (k, m') \<Longrightarrow> i \<le> Suc k"
proof (induction nocase p sc i m arbitrary: k m' rule: class_loop.induct)
  case (1 nocase p sc i m)
  note IH = 1(1-3) and eq = 1(4)
  show ?case
  proof (rule ccontr)
    assume k: "\<not> i \<le> Suc k"
    from eq obtain p0 where p0: "getc p i = Some p0"
      by (subst (asm) class_loop.simps) (auto split: Option.bind_splits)
    with eq show False
      using IH(1) [OF p0] IH(2,3) [OF p0] k
      by (subst (asm) class_loop.simps)
         (simp split: if_splits Option.bind_splits; fastforce)
  qed
qed

lemma stars_ge: "stars p i = Some k \<Longrightarrow> i \<le> k"
proof (induction p i rule: stars.induct)
  case (1 p i)
  from 1(2) show ?case
    by (subst (asm) stars.simps) (fastforce split: if_splits Option.bind_splits dest: 1(1))
qed

function stringmatchlen :: "bool \<Rightarrow> bytes \<Rightarrow> bytes \<Rightarrow> nat \<Rightarrow> nat \<Rightarrow> bool option"
  and star_loop :: "bool \<Rightarrow> bytes \<Rightarrow> bytes \<Rightarrow> nat \<Rightarrow> nat \<Rightarrow> bool option"
  and next_char :: "bool \<Rightarrow> bytes \<Rightarrow> bytes \<Rightarrow> nat \<Rightarrow> nat \<Rightarrow> bool option" where
  "stringmatchlen nocase p s i j =
     (if i = length p then Some (j = length s)
      else
        do { p0 \<leftarrow> getc p i;
             if p0 = chr CHR ''*'' then
               do { k \<leftarrow> stars p (i + 1);
                    if length p - (k - 1) = 1 then Some True else star_loop nocase p s (k - 1) j }
             else if p0 = chr CHR ''?'' then
               (if j = length s then Some False else next_char nocase p s (i + 1) (j + 1))
             else if p0 = chr CHR ''['' then
               do { p1 \<leftarrow> getc p (i + 1);
                    let neg = (p1 = chr CHR 0x5E);
                    (k, match) \<leftarrow> class_loop nocase p (getc s j) (if neg then i + 2 else i + 1) False;
                    if match \<noteq> neg then next_char nocase p s (k + 1) (j + 1) else Some False }
             else
               do { let k = (if p0 = chr CHR 0x5C \<and> length p - i \<ge> 2 then i + 1 else i);
                    p0 \<leftarrow> getc p k;
                    c \<leftarrow> getc s j;
                    if same_char nocase p0 c then next_char nocase p s (k + 1) (j + 1)
                    else Some False } })"
| "star_loop nocase p s i j =
     (if j = length s then Some False
      else if j > length s then None
      else
        do { b \<leftarrow> stringmatchlen nocase p s (i + 1) j;
             if b then Some True else star_loop nocase p s i (j + 1) })"
| "next_char nocase p s i j =
     (if j = length s then map_option (\<lambda>k. k = length p) (stars p i)
      else if j > length s + 1 then None
      else stringmatchlen nocase p s i j)"
  by pat_completeness auto
termination
  by (relation "measures [(\<lambda>x. case x of Inl (_, p, _, i, _) \<Rightarrow> Suc (length p) - i
      | Inr (Inl (_, p, _, i, _)) \<Rightarrow> Suc (length p - i) | Inr (Inr (_, p, _, i, _)) \<Rightarrow> Suc (length p) - i),
    (\<lambda>x. case x of Inl _ \<Rightarrow> 1 | Inr (Inl _) \<Rightarrow> 0 | Inr (Inr _) \<Rightarrow> 2),
    (\<lambda>x. case x of Inr (Inl (_, _, s, _, j)) \<Rightarrow> Suc (length s) - j | _ \<Rightarrow> 0)]")
     (auto simp: getc_def dest!: class_loop_ge stars_ge split: if_splits)

declare stringmatchlen.simps [simp del] star_loop.simps [simp del] next_char.simps [simp del]

section \<open>What a pattern means\<close>

text \<open>
  A pattern is a sequence of tokens: any sequence, any byte, one byte of a class or of its
  complement, and a byte. An escaped member of a class ignores the case option.
\<close>

datatype member = Exact byte | Between byte byte | One byte

datatype token = Star | Any | Class bool "member list" | Lit byte

fun class_items :: "bytes \<Rightarrow> (member list \<times> bytes) option" where
  "class_items [] = Some ([], [])"
| "class_items [c] =
     (if c = chr CHR 0x5C then None
      else if c = chr CHR '']'' then Some ([], [])
      else Some ([One c], []))"
| "class_items (c # d # p) =
     (if c = chr CHR 0x5C then map_option (apfst ((#) (Exact d))) (class_items p)
      else if c = chr CHR '']'' then Some ([], d # p)
      else if d = chr CHR ''-'' \<and> p \<noteq> [] then
        map_option (apfst ((#) (Between c (hd p)))) (class_items (tl p))
      else map_option (apfst ((#) (One c))) (class_items (d # p)))"

lemma class_items_length: "class_items p = Some (its, r) \<Longrightarrow> length r \<le> length p"
  by (induction p arbitrary: its r rule: class_items.induct) (fastforce split: if_splits)+

function tokens :: "bytes \<Rightarrow> token list option" where
  "tokens [] = Some []"
| "tokens (c # p) =
     (if c = chr CHR ''*'' then map_option ((#) Star) (tokens p)
      else if c = chr CHR ''?'' then map_option ((#) Any) (tokens p)
      else if c = chr CHR ''['' then
        do { let neg = (p \<noteq> [] \<and> hd p = chr CHR 0x5E);
             (its, r) \<leftarrow> class_items (if neg then tl p else p);
             map_option ((#) (Class neg its)) (tokens r) }
      else if c = chr CHR 0x5C \<and> p \<noteq> [] then map_option ((#) (Lit (hd p))) (tokens (tl p))
      else map_option ((#) (Lit c)) (tokens p))"
  by pat_completeness auto
termination
  by (relation "measure length") (fastforce dest: class_items_length split: if_splits)+

fun member_is :: "bool \<Rightarrow> byte \<Rightarrow> member \<Rightarrow> bool" where
  "member_is nocase c (Exact a) \<longleftrightarrow> a = c"
| "member_is nocase c (Between a b) \<longleftrightarrow> in_range nocase a b c"
| "member_is nocase c (One a) \<longleftrightarrow> same_char nocase a c"

fun token_is :: "bool \<Rightarrow> byte \<Rightarrow> token \<Rightarrow> bool" where
  "token_is nocase c Star \<longleftrightarrow> False"
| "token_is nocase c Any \<longleftrightarrow> True"
| "token_is nocase c (Class neg its) \<longleftrightarrow> list_ex (member_is nocase c) its \<noteq> neg"
| "token_is nocase c (Lit a) \<longleftrightarrow> same_char nocase a c"

fun matches :: "bool \<Rightarrow> token list \<Rightarrow> bytes \<Rightarrow> bool" where
  "matches nocase [] s \<longleftrightarrow> s = []"
| "matches nocase (Star # g) [] \<longleftrightarrow> matches nocase g []"
| "matches nocase (Star # g) (c # s) \<longleftrightarrow> matches nocase g (c # s) \<or> matches nocase (Star # g) s"
| "matches nocase (t # g) [] \<longleftrightarrow> False"
| "matches nocase (t # g) (c # s) \<longleftrightarrow> token_is nocase c t \<and> matches nocase g s"

lemma ex_le_Suc: "(\<exists>k \<le> Suc n. P k) \<longleftrightarrow> P 0 \<or> (\<exists>k \<le> n. P (Suc k))"
  by (metis Suc_le_mono le0 not0_implies_Suc)

lemma matches_star: "matches nocase (Star # g) s \<longleftrightarrow> (\<exists>k \<le> length s. matches nocase g (drop k s))"
  by (induction s) (simp_all add: ex_le_Suc)

lemma matches_stars: "matches nocase (Star # Star # g) s \<longleftrightarrow> matches nocase (Star # g) s"
  by (induction s) auto

lemma matches_empty: "matches nocase g [] \<longleftrightarrow> set g \<subseteq> {Star}"
proof (induction g)
  case (Cons t g)
  then show ?case by (cases t) auto
qed simp

section \<open>The class loop\<close>

lemma getc_in [simp]: "i < length s \<Longrightarrow> getc s i = Some (s ! i)"
  by (simp add: getc_def)

lemma getc_end [simp]: "getc s (length s) = Some 0"
  by (simp add: getc_def)

lemma drop_at: "i < length p \<Longrightarrow> drop i p = p ! i # drop (Suc i) p"
  by (simp add: Cons_nth_drop_Suc)

lemma getc_append [simp]: "getc (pre @ c # q) (length pre) = Some c"
  by simp

lemma getc_append1 [simp]: "getc (pre @ c # q) (Suc (length pre)) = getc q 0"
  by (cases q) (auto simp: getc_def nth_append)

lemma getc_append2 [simp]: "getc (pre @ c # d # q) (Suc (Suc (length pre))) = getc q 0"
  using getc_append1 [of "pre @ [c]" d q] by simp

lemma class_loop_spec:
  assumes "class_items q = Some (its, r)" "pre \<noteq> []"
  shows "\<exists>pre'. class_loop nocase (pre @ q) (Some c) (length pre) m
      = Some (length pre' - 1, m \<or> list_ex (member_is nocase c) its) \<and> pre' \<noteq> [] \<and> pre @ q = pre' @ r"
  using assms
proof (induction q arbitrary: its pre m rule: class_items.induct)
  case 1
  then show ?case using getc_end [of pre]
    by (intro exI [of _ pre]) (simp add: class_loop.simps [of _ _ _ "length pre"] del: getc_end)
next
  case (2 x)
  then show ?case using getc_end [of "pre @ [x]"]
    by (intro exI [of _ "pre @ [x]"])
       (auto simp: class_loop.simps [of _ _ _ "length pre"] class_loop.simps [of _ _ _ "Suc (length pre)"]
         simp del: getc_end split: if_splits)
next
  case (3 x d q)
  note unf = class_loop.simps [of _ _ _ "length pre"]
  consider (esc) "x = chr CHR 0x5C" | (fin) "x \<noteq> chr CHR 0x5C" "x = chr CHR '']''"
    | (rng) e q' where "x \<noteq> chr CHR 0x5C" "x \<noteq> chr CHR '']''" "d = chr CHR ''-''" "q = e # q'"
    | (one) "x \<noteq> chr CHR 0x5C" "x \<noteq> chr CHR '']''" "\<not> (d = chr CHR ''-'' \<and> q \<noteq> [])"
    by (cases q) auto
  then show ?case
  proof cases
    case esc
    with 3(4) obtain its' where its': "class_items q = Some (its', r)" "its = Exact d # its'" by auto
    from 3(1) [OF esc its'(1), of "pre @ [x, d]" "m \<or> d = c"] esc its' show ?thesis
      by (simp add: unf disj_assoc)
  next
    case fin
    with 3(4) show ?thesis by (intro exI [of _ "pre @ [x]"]) (simp add: unf)
  next
    case rng
    with 3(4) obtain its' where its': "class_items q' = Some (its', r)" "its = Between x e # its'" by auto
    from 3(2) [of its' "pre @ [x, d, e]" "m \<or> in_range nocase x e c"] rng its' show ?thesis
      by (simp add: unf disj_assoc eval_nat_numeral)
  next
    case one
    with 3(4) obtain its' where its': "class_items (d # q) = Some (its', r)" "its = One x # its'"
      by auto
    from 3(3) [of its' "pre @ [x]" "m \<or> same_char nocase x c"] one its' show ?thesis
      by (auto simp: unf disj_assoc Suc_le_eq)
  qed
qed

section \<open>The matcher\<close>

abbreviation star :: byte where
  "star \<equiv> chr CHR ''*''"

lemma stars_spec:
  "stars (pre @ q) (length pre) = Some (length pre + length (takeWhile (\<lambda>c. c = star) q))"
proof (induction q arbitrary: pre)
  case Nil
  show ?case using getc_end [of pre] by (simp add: stars.simps [of _ "length pre"] del: getc_end)
next
  case (Cons c q)
  from Cons [of "pre @ [c]"] show ?case by (auto simp: stars.simps [of _ "length pre"])
qed

lemma tokens_only_stars: "tokens q = Some g \<Longrightarrow> set g \<subseteq> {Star} \<longleftrightarrow> set q \<subseteq> {star}"
  by (induction q arbitrary: g rule: tokens.induct)
     (auto simp: Let_def split: if_splits Option.bind_splits)

lemma star_loop_spec:
  assumes "\<And>k. k < length s \<Longrightarrow> stringmatchlen nocase p s (Suc i) k = Some (P k)" "j \<le> length s"
  shows "star_loop nocase p s i j = Some (\<exists>k. j \<le> k \<and> k < length s \<and> P k)"
  using assms(2)
proof (induction rule: inc_induct)
  case base
  show ?case by (simp add: star_loop.simps)
next
  case (step j)
  then show ?case
    using assms(1) [of j]
    by (simp add: star_loop.simps [of _ _ _ _ j]) (metis Suc_leD Suc_leI le_antisym not_le order.strict_iff_order)
qed

lemma next_char_spec:
  assumes "tokens q = Some g" "j \<le> length s"
    and "j < length s \<Longrightarrow> stringmatchlen nocase (pre @ q) s (length pre) j = Some (matches nocase g (drop j s))"
  shows "next_char nocase (pre @ q) s (length pre) j = Some (matches nocase g (drop j s))"
proof (cases "j = length s")
  case True
  have "length (takeWhile (\<lambda>c. c = star) q) = length q \<longleftrightarrow> set q \<subseteq> {star}"
    by (induction q) auto
  with True show ?thesis
    using tokens_only_stars [OF assms(1)]
    by (simp add: next_char.simps stars_spec matches_empty)
next
  case False
  with assms(2,3) show ?thesis by (simp add: next_char.simps)
qed

lemma drop_stars:
  "tokens q = Some g \<Longrightarrow> \<exists>g'. tokens (dropWhile (\<lambda>c. c = star) q) = Some g'
     \<and> matches nocase (Star # g) s = matches nocase (Star # g') s"
proof (induction q arbitrary: g)
  case (Cons c q)
  show ?case
  proof (cases "c = star")
    case True
    with Cons(2) obtain g1 where g1: "tokens q = Some g1" "g = Star # g1" by auto
    with Cons(1) [OF g1(1)] True show ?thesis by (simp add: matches_stars)
  next
    case False
    with Cons(2) show ?thesis by auto
  qed
qed simp

lemma tokens_not_star:
  "tokens (c # q) = Some g \<Longrightarrow> c \<noteq> star \<Longrightarrow> \<exists>t g'. g = t # g' \<and> t \<noteq> Star"
  by (auto simp: Let_def split: if_splits Option.bind_splits)

lemma matches_token:
  "t \<noteq> Star \<Longrightarrow> matches nocase (t # g) (c # s) \<longleftrightarrow> token_is nocase c t \<and> matches nocase g s"
  by (cases t) auto

lemma match_star:
  assumes IH: "\<And>r pre g j. length r < length (star # q) \<Longrightarrow> tokens r = Some g \<Longrightarrow> j < length s
      \<Longrightarrow> stringmatchlen nocase (pre @ r) s (length pre) j = Some (matches nocase g (drop j s))"
    and g: "tokens q = Some g" and j: "j \<le> length s"
  shows "stringmatchlen nocase (pre @ star # q) s (length pre) j = Some (matches nocase (Star # g) (drop j s))"
proof -
  define n where "n = length (takeWhile (\<lambda>c. c = star) q)"
  define r where "r = dropWhile (\<lambda>c. c = star) q"
  obtain g' where g': "tokens r = Some g'"
    and eq: "\<And>s. matches nocase (Star # g) s = matches nocase (Star # g') s"
    using drop_stars [OF g] unfolding r_def by (metis option.inject)
  have "takeWhile (\<lambda>c. c = star) q = replicate n star"
    unfolding n_def by (rule replicate_eqI) (auto dest: set_takeWhileD)
  then have q: "q = replicate n star @ r"
    unfolding r_def by (metis takeWhile_dropWhile_id)
  have k: "stars (pre @ star # q) (Suc (length pre)) = Some (Suc (length pre + n))"
    using stars_spec [of "pre @ [star]" q] by (simp add: n_def)
  show ?thesis
  proof (cases "r = []")
    case True
    with g' have "g' = []" by simp
    then have "matches nocase (Star # g') (drop j s)" by (auto simp: matches_star)
    moreover have "length q = n" using True q by simp
    ultimately show ?thesis using k eq by (simp add: stringmatchlen.simps)
  next
    case False
    then obtain c r' where r: "r = c # r'" by (cases r) auto
    have "c \<noteq> star" using r unfolding r_def by (metis (mono_tags) dropWhile_eq_Cons_conv)
    then obtain t g1 where t: "g' = t # g1" "t \<noteq> Star"
      using tokens_not_star g' r by blast
    have p: "pre @ star # q = (pre @ star # replicate n star) @ r" using q by simp
    have "stringmatchlen nocase (pre @ star # q) s (Suc (length pre + n)) k
        = Some (matches nocase g' (drop k s))" if "k < length s" for k
      using IH [OF _ g' that, of "pre @ star # replicate n star"] p q by simp
    from star_loop_spec [OF this j]
    have "star_loop nocase (pre @ star # q) s (length pre + n) j
        = Some (\<exists>k. j \<le> k \<and> k < length s \<and> matches nocase g' (drop k s))" .
    moreover have "(\<exists>k. j \<le> k \<and> k < length s \<and> matches nocase g' (drop k s))
        = matches nocase (Star # g') (drop j s)" (is "?l = ?r")
    proof
      assume ?r
      then obtain k where "k \<le> length s - j" "matches nocase g' (drop (j + k) s)"
        by (auto simp: matches_star add.commute)
      moreover from this t have "drop (j + k) s \<noteq> []" by (auto simp: matches_empty)
      ultimately show ?l by (intro exI [of _ "j + k"]) auto
    next
      assume ?l
      then obtain k where "j \<le> k" "k < length s" "matches nocase g' (drop k s)" by blast
      then show ?r unfolding matches_star by (intro exI [of _ "k - j"]) simp
    qed
    moreover have "Suc (length q) - n \<noteq> Suc 0" using q r by simp
    ultimately show ?thesis using k eq by (simp add: stringmatchlen.simps [of _ _ _ "length pre"])
  qed
qed

lemma match_token:
  assumes "stringmatchlen nocase (pre @ q) s (length pre) j
      = (if token_is nocase (s ! j) t then next_char nocase (pre' @ r) s (length pre') (Suc j) else Some False)"
    and "tokens r = Some g" "t \<noteq> Star" "j < length s"
    and "Suc j < length s \<Longrightarrow>
      stringmatchlen nocase (pre' @ r) s (length pre') (Suc j) = Some (matches nocase g (drop (Suc j) s))"
  shows "stringmatchlen nocase (pre @ q) s (length pre) j = Some (matches nocase (t # g) (drop j s))"
  using assms(1) next_char_spec [OF assms(2) _ assms(5)] assms(3,4)
  by (simp add: drop_at [of j s] matches_token)

lemma match_class:
  assumes IH: "\<And>r pre g. length r \<le> length p \<Longrightarrow> tokens r = Some g \<Longrightarrow> Suc j < length s
      \<Longrightarrow> stringmatchlen nocase (pre @ r) s (length pre) (Suc j) = Some (matches nocase g (drop (Suc j) s))"
    and c: "c = chr CHR ''[''" and g: "tokens (c # p) = Some g" and j: "j < length s"
  shows "stringmatchlen nocase (pre @ c # p) s (length pre) j = Some (matches nocase g (drop j s))"
proof -
  define neg where "neg = (p \<noteq> [] \<and> hd p = chr CHR 0x5E)"
  define p' where "p' = (if neg then tl p else p)"
  define pre1 where "pre1 = pre @ c # (if neg then [hd p] else [])"
  from g c obtain its r g' where
    its: "class_items p' = Some (its, r)" and g': "tokens r = Some g'" "g = Class neg its # g'"
    by (auto simp: Let_def neg_def p'_def split: Option.bind_splits)
  have eq: "pre @ c # p = pre1 @ p'" by (cases p) (auto simp: pre1_def p'_def neg_def)
  obtain pre' where cl: "class_loop nocase (pre1 @ p') (Some (s ! j)) (length pre1) False
        = Some (length pre' - 1, list_ex (member_is nocase (s ! j)) its)"
    and pre': "pre' \<noteq> []" "pre1 @ p' = pre' @ r"
    using class_loop_spec [OF its, of pre1 nocase "s ! j" False] by (auto simp: pre1_def)
  have p1: "getc (pre @ c # p) (Suc (length pre)) = Some (if p = [] then 0 else hd p)"
    by (cases p) (auto simp: getc_def nth_append)
  have "stringmatchlen nocase (pre @ c # p) s (length pre) j =
      do { (k, match) \<leftarrow> class_loop nocase (pre1 @ p') (Some (s ! j)) (length pre1) False;
           if match \<noteq> neg then next_char nocase (pre1 @ p') s (k + 1) (j + 1) else Some False }"
    using j c p1 unfolding eq [symmetric]
    by (subst stringmatchlen.simps) (auto simp: pre1_def neg_def Let_def simp del: getc_append1)
  moreover have lr: "length r \<le> length p"
    using class_items_length [OF its] by (auto simp: p'_def split: if_splits)
  ultimately have "stringmatchlen nocase (pre @ c # p) s (length pre) j
      = (if token_is nocase (s ! j) (Class neg its)
         then next_char nocase (pre' @ r) s (length pre') (Suc j) else Some False)"
    using cl pre' by simp
  then show ?thesis
    unfolding g'(2) by (rule match_token [OF _ g'(1)]) (use IH [OF lr g'(1)] j in simp_all)
qed

lemma match_spec:
  assumes "tokens q = Some g" "j < length s"
  shows "stringmatchlen nocase (pre @ q) s (length pre) j = Some (matches nocase g (drop j s))"
  using assms
proof (induction q arbitrary: pre g j rule: measure_induct_rule [where f = length])
  case (less q)
  note unf = stringmatchlen.simps [of _ _ _ "length pre"]
  show ?case
  proof (cases q)
    case Nil
    with less(2,3) show ?thesis by (simp add: unf)
  next
    case q: (Cons c p)
    consider (star) "c = star" | (any) "c = chr CHR ''?''" | (cls) "c = chr CHR ''[''"
      | (esc) d p' where "c = chr CHR 0x5C" "p = d # p'"
      | (lit) "c \<noteq> star" "c \<noteq> chr CHR ''?''" "c \<noteq> chr CHR ''[''" "\<not> (c = chr CHR 0x5C \<and> p \<noteq> [])"
      by (cases p) auto
    then show ?thesis
    proof cases
      case star
      with less(2) q obtain g' where g': "tokens p = Some g'" "g = Star # g'" by auto
      show ?thesis
        unfolding q star g'(2) using less(1,3) q star by (intro match_star [OF _ g'(1)]) auto
    next
      case any
      with less(2) q obtain g' where g': "tokens p = Some g'" "g = Any # g'" by auto
      show ?thesis
        unfolding g'(2) using any q less(1) [OF _ g'(1), of "Suc j" "pre @ [c]"] less(3)
        by (intro match_token [OF _ g'(1), of _ _ _ _ _ _ "pre @ [c]"]) (simp_all add: unf)
    next
      case cls
      from less(1) [of _ _ "Suc j"] less(2,3) show ?thesis
        unfolding q by (intro match_class [OF _ cls]) (auto simp: q)
    next
      case esc
      with less(2) q obtain g' where g': "tokens p' = Some g'" "g = Lit d # g'" by auto
      show ?thesis
        unfolding g'(2) using esc q less(1) [OF _ g'(1), of "Suc j" "pre @ [c, d]"] less(3)
        by (intro match_token [OF _ g'(1), of _ _ _ _ _ _ "pre @ [c, d]"]) (simp_all add: unf getc_def nth_append)
    next
      case lit
      with less(2) q obtain g' where g': "tokens p = Some g'" "g = Lit c # g'" by auto
      show ?thesis
        unfolding g'(2) using lit q less(1) [OF _ g'(1), of "Suc j" "pre @ [c]"] less(3)
        by (intro match_token [OF _ g'(1), of _ _ _ _ _ _ "pre @ [c]"]) (auto simp: unf)
    qed
  qed
qed

lemma match_empty_string:
  assumes "tokens p = Some g" "p = [] \<or> hd p \<notin> {chr CHR ''['', chr CHR 0x5C, 0}"
  shows "stringmatchlen nocase p [] 0 0 = Some (matches nocase g [])"
proof (cases p)
  case (Cons c q)
  show ?thesis
  proof (cases "c = star")
    case True
    with assms(1) Cons obtain g' where "tokens q = Some g'" "g = Star # g'" by auto
    then show ?thesis using match_star [of q "[]" nocase g' 0 "[]"] True Cons by simp
  next
    case False
    moreover from this assms(1) Cons have "\<not> matches nocase g []"
      using tokens_not_star by (fastforce simp: matches_empty)
    moreover have "tolower c = tolower 0 \<longleftrightarrow> c = 0"
      by (auto simp: tolower_def word_le_nat_alt word_unat_eq_iff unat_word_ariths)
    ultimately show ?thesis
      using Cons assms(2) by (auto simp: stringmatchlen.simps same_char_def getc_def)
  qed
qed (use assms in \<open>simp add: stringmatchlen.simps\<close>)

lemma stringmatchlen_eq:
  assumes "tokens p = Some g" "s \<noteq> [] \<or> p = [] \<or> hd p \<notin> {chr CHR ''['', chr CHR 0x5C, 0}"
  shows "stringmatchlen nocase p s 0 0 = Some (matches nocase g s)"
proof (cases "s = []")
  case True
  with assms match_empty_string show ?thesis by auto
next
  case False
  then show ?thesis using match_spec [OF assms(1), of 0 s nocase "[]"] by simp
qed

text \<open>
  C15: The matcher decides the language of the pattern: it never leaves the pattern or the string, it
  terminates, and its answer is the one of the declarative meaning of the tokens, where a star
  stands for any sequence. The pattern must not end in an escape inside of a class, and the empty
  string must not be matched against a pattern that begins with a class, an escape or a zero byte.
\<close>

theorem stringmatchlen_decides:
  assumes "tokens p = Some g" "s \<noteq> [] \<or> p = [] \<or> hd p \<notin> {chr CHR ''['', chr CHR 0x5C, 0}"
  shows "stringmatchlen nocase p s 0 0 = Some (matches nocase g s)"
  using assms by (rule stringmatchlen_eq)

theorem stringmatchlen_decides_witness:
  "tokens (ctext ''n[a-f]*.[^0-9]?'')
     = Some [Lit (chr CHR ''n''), Class False [Between (chr CHR ''a'') (chr CHR ''f'')], Star,
             Lit (chr CHR ''.''), Class True [Between (chr CHR ''0'') (chr CHR ''9'')], Any]
   \<and> stringmatchlen False (ctext ''n[a-f]*.[^0-9]?'') (ctext ''news.uk'') 0 0 = Some True
   \<and> stringmatchlen False (ctext ''n[a-f]*.[^0-9]?'') (ctext ''news.3g'') 0 0 = Some False"
proof -
  have t: "tokens (ctext ''n[a-f]*.[^0-9]?'')
     = Some [Lit (chr CHR ''n''), Class False [Between (chr CHR ''a'') (chr CHR ''f'')], Star,
             Lit (chr CHR ''.''), Class True [Between (chr CHR ''0'') (chr CHR ''9'')], Any]"
    by (simp add: ctext_def)
  show ?thesis
    using stringmatchlen_decides [OF t, of "ctext ''news.uk''" False]
      stringmatchlen_decides [OF t, of "ctext ''news.3g''" False] t
    by (simp add: ctext_def same_char_def in_range_def)
qed

text \<open>
  Outside of these conditions the matcher goes wrong. On the empty string, the byte that a
  complemented class takes is the terminator: \<^verbatim>\<open>[^a]*\<close> is reported to match, and
  \<^verbatim>\<open>[^a]*b\<close> walks out of the string. A pattern that ends in an escape inside of a class
  is read past its end.
\<close>

lemma complement_matches_empty:
  "stringmatchlen False (ctext ''[^a]*'') [] 0 0 = Some True
   \<and> map_option (\<lambda>g. matches False g []) (tokens (ctext ''[^a]*'')) = Some False"
  by (simp add: ctext_def stringmatchlen.simps next_char.simps class_loop.simps stars.simps getc_def same_char_def)

lemma complement_overruns_empty: "stringmatchlen False (ctext ''[^a]*b'') [] 0 0 = None"
  by (simp add: ctext_def stringmatchlen.simps next_char.simps star_loop.simps class_loop.simps stars.simps
      getc_def same_char_def)

lemma class_escape_overruns: "stringmatchlen nocase (ctext [CHR ''['', CHR 0x5C]) s 0 0 = None"
  by (simp add: ctext_def stringmatchlen.simps class_loop.simps getc_def)

end
