(* ===== verification/Output_Buffer.thy ===== *)
theory Output_Buffer
  imports Redis_Object
begin

text \<open>
  The output half of \<^verbatim>\<open>debug/redis/src/networking.c\<close>: what is added for a client goes into a static buffer
  of 16 KB and, when that is full, into a list of chunks; the write handler sends from both. A chunk that is \<open>None\<close> is
  the deferred length of a multi bulk reply. Reference counts and \<^verbatim>\<open>reply_bytes\<close>, with the limit on it that closes the
  client later, do not change what is sent and are left out.
\<close>

definition REDIS_REPLY_CHUNK_BYTES :: nat where "REDIS_REPLY_CHUNK_BYTES = 16 * 1024"
definition REDIS_MAX_WRITE_PER_EVENT :: nat where "REDIS_MAX_WRITE_PER_EVENT = 1024 * 64"

text \<open>
  \<open>repl_ready\<close> is the test of \<^verbatim>\<open>replstate\<close>, \<open>el_ok\<close> whether the event loop accepts the descriptor;
  \<^verbatim>\<open>bufpos\<close> is the length of \<open>obuf\<close>.
\<close>

record oclient =
  lua_client :: bool
  fd :: int
  repl_ready :: bool
  el_ok :: bool
  handler :: bool
  master :: bool
  closing :: bool
  obuf :: bytes
  chunks :: "bytes option list"
  sentlen :: nat

definition prepareClientToWrite :: "oclient \<Rightarrow> oclient option" where
  "prepareClientToWrite c =
     (if lua_client c then Some c
      else if fd c \<le> 0 then None
      else if obuf c = [] \<and> chunks c = [] \<and> repl_ready c
      then (if el_ok c then Some (c\<lparr>handler := True\<rparr>) else None)
      else Some c)"

section \<open>Adding to the output\<close>

definition addReplyToBuffer :: "oclient \<Rightarrow> bytes \<Rightarrow> bool \<times> oclient" where
  "addReplyToBuffer c s =
     (let available = REDIS_REPLY_CHUNK_BYTES - length (obuf c) in
      if closing c then (True, c)
      else if chunks c \<noteq> [] then (False, c)
      else if length s > available then (False, c)
      else (True, c\<lparr>obuf := obuf c @ s\<rparr>))"

text \<open>The three variants differ in who owns the string; a shared tail is duplicated before it grows.\<close>

definition glue :: "bytes option list \<Rightarrow> bytes \<Rightarrow> bytes option list" where
  "glue cs s =
     (if cs = [] then [Some s]
      else
        case last cs of
          Some t \<Rightarrow> if length t + length s \<le> REDIS_REPLY_CHUNK_BYTES then butlast cs @ [Some (t @ s)] else cs @ [Some s]
        | None \<Rightarrow> cs @ [Some s])"

definition addReplyObjectToList :: "oclient \<Rightarrow> bytes \<Rightarrow> oclient" where
  "addReplyObjectToList c s = (if closing c then c else c\<lparr>chunks := glue (chunks c) s\<rparr>)"

definition addReplySdsToList :: "oclient \<Rightarrow> bytes \<Rightarrow> oclient" where
  "addReplySdsToList c s = (if closing c then c else c\<lparr>chunks := glue (chunks c) s\<rparr>)"

definition addReplyStringToList :: "oclient \<Rightarrow> bytes \<Rightarrow> oclient" where
  "addReplyStringToList c s = (if closing c then c else c\<lparr>chunks := glue (chunks c) s\<rparr>)"

text \<open>\<open>None\<close> is the panic on an object that is not a string.\<close>

definition addReply :: "oclient \<Rightarrow> 'o robj \<Rightarrow> oclient option" where
  "addReply c obj =
     (case prepareClientToWrite c of
        None \<Rightarrow> Some c
      | Some c \<Rightarrow>
          let slow = (\<lambda>s c. case addReplyToBuffer c s of (ok, c) \<Rightarrow> if ok then c else addReplyObjectToList c s) in
          (case obj of
             RawStr s \<Rightarrow> Some (slow s c)
           | IntStr v \<Rightarrow>
               let (done, c) =
                     (if chunks c = [] \<and> REDIS_REPLY_CHUNK_BYTES - length (obuf c) \<ge> 32
                      then (case ll2string 32 v of (buf, len) \<Rightarrow> addReplyToBuffer c (take len buf)) else (False, c))
               in if done then Some c
                  else (case getDecodedObject obj of Some (RawStr s) \<Rightarrow> Some (slow s c) | _ \<Rightarrow> None)
           | Other _ _ \<Rightarrow> None))"

definition addReplySds :: "oclient \<Rightarrow> bytes \<Rightarrow> oclient" where
  "addReplySds c s =
     (case prepareClientToWrite c of
        None \<Rightarrow> c
      | Some c \<Rightarrow> (case addReplyToBuffer c s of (ok, c) \<Rightarrow> if ok then c else addReplySdsToList c s))"

definition addReplyString :: "oclient \<Rightarrow> bytes \<Rightarrow> oclient" where
  "addReplyString c s =
     (case prepareClientToWrite c of
        None \<Rightarrow> c
      | Some c \<Rightarrow> (case addReplyToBuffer c s of (ok, c) \<Rightarrow> if ok then c else addReplyStringToList c s))"

definition CRLF :: bytes where "CRLF = [13, 10]"

definition addReplyErrorLength :: "oclient \<Rightarrow> bytes \<Rightarrow> oclient" where
  "addReplyErrorLength c s = addReplyString (addReplyString (addReplyString c (ctext ''-ERR '')) s) CRLF"

definition addReplyError :: "oclient \<Rightarrow> bytes \<Rightarrow> oclient" where
  "addReplyError c s = addReplyErrorLength c (cstr s)"

text \<open>The message is the formatted string.\<close>

definition addReplyErrorFormat :: "oclient \<Rightarrow> bytes \<Rightarrow> oclient" where
  "addReplyErrorFormat c s = addReplyErrorLength c (map (\<lambda>b. if b = 13 \<or> b = 10 then 32 else b) s)"

definition addReplyStatusLength :: "oclient \<Rightarrow> bytes \<Rightarrow> oclient" where
  "addReplyStatusLength c s = addReplyString (addReplyString (addReplyString c (ctext ''+'')) s) CRLF"

definition addReplyStatus :: "oclient \<Rightarrow> bytes \<Rightarrow> oclient" where
  "addReplyStatus c s = addReplyStatusLength c (cstr s)"

text \<open>The node of the deferred length is its position in the list.\<close>

definition addDeferredMultiBulkLength :: "oclient \<Rightarrow> oclient \<times> nat option" where
  "addDeferredMultiBulkLength c =
     (case prepareClientToWrite c of
        None \<Rightarrow> (c, None)
      | Some c \<Rightarrow> (c\<lparr>chunks := chunks c @ [None]\<rparr>, Some (length (chunks c))))"

definition setDeferredMultiBulkLength :: "oclient \<Rightarrow> nat option \<Rightarrow> int \<Rightarrow> oclient" where
  "setDeferredMultiBulkLength c node len =
     (case node of
        None \<Rightarrow> c
      | Some i \<Rightarrow>
          let hdr = ctext ''*'' @ ll_repr len @ CRLF in
          (case drop (Suc i) (chunks c) of
             Some nxt # rest \<Rightarrow> c\<lparr>chunks := take i (chunks c) @ Some (hdr @ nxt) # rest\<rparr>
           | _ \<Rightarrow> c\<lparr>chunks := (chunks c)[i := Some hdr]\<rparr>))"

section \<open>Numbers and bulk strings\<close>

text \<open>\<^verbatim>\<open>shared.mbulkhdr\<close> and \<^verbatim>\<open>shared.bulkhdr\<close> hold the headers of the first 32 lengths; a negative index is out of them.\<close>

definition REDIS_SHARED_BULKHDR_LEN :: int where "REDIS_SHARED_BULKHDR_LEN = 32"

definition shared_hdr :: "byte \<Rightarrow> int \<Rightarrow> unit robj option" where
  "shared_hdr prefix ll = (if 0 \<le> ll then Some (RawStr (prefix # ll_repr ll @ CRLF)) else None)"

definition addReplyLongLongWithPrefix :: "oclient \<Rightarrow> int \<Rightarrow> byte \<Rightarrow> oclient option" where
  "addReplyLongLongWithPrefix c ll prefix =
     (if (prefix = chr CHR ''*'' \<or> prefix = chr CHR ''$'') \<and> ll < REDIS_SHARED_BULKHDR_LEN
      then (case shared_hdr prefix ll of None \<Rightarrow> None | Some obj \<Rightarrow> addReply c obj)
      else (case ll2string 127 ll of (buf, len) \<Rightarrow> Some (addReplyString c (prefix # take len buf @ CRLF))))"

definition addReplyLongLong :: "oclient \<Rightarrow> int \<Rightarrow> oclient option" where
  "addReplyLongLong c ll =
     (if ll = 0 then addReply c (RawStr (ctext '':0'' @ CRLF) :: unit robj)
      else if ll = 1 then addReply c (RawStr (ctext '':1'' @ CRLF) :: unit robj)
      else addReplyLongLongWithPrefix c ll (chr CHR '':''))"

definition addReplyMultiBulkLen :: "oclient \<Rightarrow> int \<Rightarrow> oclient option" where
  "addReplyMultiBulkLen c len = addReplyLongLongWithPrefix c len (chr CHR ''*'')"

text \<open>The digits of a \<^verbatim>\<open>long\<close>, by division towards zero; the negation wraps for the least integer.\<close>

function digits_left :: "int \<Rightarrow> nat" where
  "digits_left n = (let m = sgn n * (\<bar>n\<bar> div 10) in if m \<noteq> 0 then Suc (digits_left m) else 0)"
  by auto
termination
  by (relation "measure (\<lambda>n. nat \<bar>n\<bar>)") (auto simp: abs_mult sgn_if split: if_splits)

declare digits_left.simps [simp del]

definition bulk_len :: "'o robj \<Rightarrow> nat option" where
  "bulk_len obj =
     (case obj of
        RawStr s \<Rightarrow> Some (length s)
      | IntStr n \<Rightarrow> Some (1 + (if n < 0 then 1 else 0) + digits_left (if n < 0 then sint (word_of_int (- n) :: 64 word) else n))
      | Other _ _ \<Rightarrow> None)"

definition addReplyBulkLen :: "oclient \<Rightarrow> 'o robj \<Rightarrow> oclient option" where
  "addReplyBulkLen c obj = (case bulk_len obj of None \<Rightarrow> None | Some len \<Rightarrow> addReplyLongLongWithPrefix c (int len) (chr CHR ''$''))"

definition addReplyBulk :: "oclient \<Rightarrow> 'o robj \<Rightarrow> oclient option" where
  "addReplyBulk c obj =
     do { c \<leftarrow> addReplyBulkLen c obj; c \<leftarrow> addReply c obj; addReply c (RawStr CRLF :: unit robj) }"

definition addReplyBulkCBuffer :: "oclient \<Rightarrow> bytes \<Rightarrow> oclient option" where
  "addReplyBulkCBuffer c s =
     do { c \<leftarrow> addReplyLongLongWithPrefix c (int (length s)) (chr CHR ''$'');
          addReply (addReplyString c s) (RawStr CRLF :: unit robj) }"

definition addReplyBulkCString :: "oclient \<Rightarrow> bytes option \<Rightarrow> oclient option" where
  "addReplyBulkCString c s =
     (case s of None \<Rightarrow> addReply c (RawStr (ctext ''$-1'' @ CRLF) :: unit robj) | Some s \<Rightarrow> addReplyBulkCBuffer c (cstr s))"

definition addReplyBulkLongLong :: "oclient \<Rightarrow> int \<Rightarrow> oclient option" where
  "addReplyBulkLongLong c ll = (case ll2string 64 ll of (buf, len) \<Rightarrow> addReplyBulkCBuffer c (take len buf))"

definition copyClientOutputBuffer :: "oclient \<Rightarrow> oclient \<Rightarrow> oclient" where
  "copyClientOutputBuffer dst src = dst\<lparr>chunks := chunks src, obuf := obuf src\<rparr>"

section \<open>Sending\<close>

text \<open>
  The outcome of each \<^verbatim>\<open>write\<close>: at most so many bytes were taken, the socket is full, or an error. After the last one
  the socket is full. \<open>None\<close> as a result is an exhausted fuel or a chunk whose length is still deferred.
\<close>

datatype wres = Wrote nat | Again | Failed

record sending =
  sc :: oclient
  wire_out :: bytes
  totwritten :: nat
  last_failed :: bool

definition sent :: "nat \<Rightarrow> oclient \<Rightarrow> bytes \<Rightarrow> nat" where
  "sent n c s = min n (length s - sentlen c)"

definition buf_step :: "nat \<Rightarrow> sending \<Rightarrow> sending" where
  "buf_step n st =
     (let c = sc st; c' = c\<lparr>sentlen := sentlen c + n\<rparr>;
          w = (if master c then [] else take n (drop (sentlen c) (obuf c)))
      in st\<lparr>sc := (if sentlen c' = length (obuf c) then c'\<lparr>obuf := [], sentlen := 0\<rparr> else c'),
            wire_out := wire_out st @ w, totwritten := totwritten st + n\<rparr>)"

definition chunk_step :: "nat \<Rightarrow> bytes \<Rightarrow> sending \<Rightarrow> sending" where
  "chunk_step n s st =
     (let c = sc st; c' = c\<lparr>sentlen := sentlen c + n\<rparr>;
          w = (if master c then [] else take n (drop (sentlen c) s))
      in st\<lparr>sc := (if sentlen c' = length s then c'\<lparr>chunks := tl (chunks c), sentlen := 0\<rparr> else c'),
            wire_out := wire_out st @ w, totwritten := totwritten st + n\<rparr>)"

text \<open>The outcome of writing the rest of \<open>s\<close>: the count, or the end of the loop, with an error or not.\<close>

definition do_write :: "oclient \<Rightarrow> wres list \<Rightarrow> bytes \<Rightarrow> (bool + nat) \<times> wres list" where
  "do_write c ws s =
     (if master c then (Inr (length s - sentlen c), ws)
      else
        case ws of
          [] \<Rightarrow> (Inl False, [])
        | Again # ws \<Rightarrow> (Inl False, ws)
        | Failed # ws \<Rightarrow> (Inl True, ws)
        | Wrote n # ws \<Rightarrow> (let k = sent n c s in (if k = 0 then Inl False else Inr k, ws)))"

fun send_loop :: "bool \<Rightarrow> nat \<Rightarrow> wres list \<Rightarrow> sending \<Rightarrow> (sending \<times> wres list) option" where
  "send_loop over 0 ws st = None"
| "send_loop over (Suc fuel) ws st =
     (let c = sc st;
          go = (\<lambda>ws st. if totwritten st > REDIS_MAX_WRITE_PER_EVENT \<and> \<not> over then Some (st, ws) else send_loop over fuel ws st)
      in
      if obuf c \<noteq> [] then
        (case do_write c ws (obuf c) of
           (Inl e, ws) \<Rightarrow> Some (st\<lparr>last_failed := e\<rparr>, ws)
         | (Inr n, ws) \<Rightarrow> go ws (buf_step n st))
      else
        case chunks c of
          [] \<Rightarrow> Some (st, ws)
        | None # _ \<Rightarrow> None
        | Some s # rest \<Rightarrow>
            if s = [] then send_loop over fuel ws (st\<lparr>sc := c\<lparr>chunks := rest\<rparr>\<rparr>)
            else
              (case do_write c ws s of
                 (Inl e, ws) \<Rightarrow> Some (st\<lparr>last_failed := e\<rparr>, ws)
               | (Inr n, ws) \<Rightarrow> go ws (chunk_step n s st)))"

definition room :: "oclient \<Rightarrow> nat" where
  "room c = length (obuf c) + sum_list (map (\<lambda>x. case x of None \<Rightarrow> 1 | Some s \<Rightarrow> Suc (length s)) (chunks c))"

text \<open>\<open>over\<close>: the memory limit is exceeded, so the bound on a single event is ignored. The result is the client, or
  \<open>None\<close> when it was freed, and the bytes that went to the socket.\<close>

definition sendReplyToClient :: "bool \<Rightarrow> wres list \<Rightarrow> oclient \<Rightarrow> (oclient option \<times> bytes \<times> wres list) option" where
  "sendReplyToClient over ws c =
     do { (st, ws) \<leftarrow> send_loop over (Suc (room c)) ws \<lparr>sc = c, wire_out = [], totwritten = 0, last_failed = False\<rparr>;
          let c = sc st;
          Some (if last_failed st then (None, wire_out st, ws)
                else if obuf c = [] \<and> chunks c = [] then
                  (if closing c then (None, wire_out st, ws) else (Some (c\<lparr>sentlen := 0, handler := False\<rparr>), wire_out st, ws))
                else (Some c, wire_out st, ws)) }"


section \<open>What is still to be sent\<close>

abbreviation chunk :: "bytes option \<Rightarrow> bytes" where
  "chunk x \<equiv> case x of None \<Rightarrow> [] | Some s \<Rightarrow> s"

definition flat :: "bytes option list \<Rightarrow> bytes" where
  "flat cs = concat (map chunk cs)"

definition pending :: "oclient \<Rightarrow> bytes" where
  "pending c = drop (sentlen c) (obuf c @ flat (chunks c))"

text \<open>The counter \<^verbatim>\<open>sentlen\<close> always lies within the part that is sent first.\<close>

definition out_inv :: "oclient \<Rightarrow> bool" where
  "out_inv c \<longleftrightarrow> length (obuf c) \<le> REDIS_REPLY_CHUNK_BYTES \<and>
     (if obuf c \<noteq> [] then sentlen c < length (obuf c)
      else case chunks c of Some s # _ \<Rightarrow> sentlen c < length s \<or> sentlen c = 0 | _ \<Rightarrow> sentlen c = 0)"

definition writable :: "oclient \<Rightarrow> bool" where
  "writable c \<longleftrightarrow> \<not> closing c \<and> (lua_client c \<or> 0 < fd c \<and> el_ok c)"

text \<open>\<open>adds s c c'\<close>: the change from \<open>c\<close> to \<open>c'\<close> appends \<open>s\<close> to what is to be sent.\<close>

definition adds :: "bytes \<Rightarrow> oclient \<Rightarrow> oclient \<Rightarrow> bool" where
  "adds s c c' \<longleftrightarrow> (out_inv c \<and> writable c \<longrightarrow> out_inv c' \<and> writable c' \<and> pending c' = pending c @ s \<and> master c' = master c)"

lemma adds_trans: "adds s c c' \<Longrightarrow> adds t c' c'' \<Longrightarrow> adds (s @ t) c c''"
  by (auto simp: adds_def)

lemma adds_refl: "adds [] c c"
  by (simp add: adds_def)

lemma flat_simps [simp]: "flat [] = []" "flat (x # cs) = chunk x @ flat cs" "flat (cs @ ds) = flat cs @ flat ds"
  by (simp_all add: flat_def)

lemma flat_glue [simp]: "flat (glue cs s) = flat cs @ s"
proof (cases cs rule: rev_cases)
  case (snoc ds x)
  then show ?thesis by (cases x) (auto simp: glue_def)
qed (simp add: glue_def)

lemma glue_hd: "cs \<noteq> [] \<Longrightarrow> \<exists>x ds. glue cs s = x # ds \<and> (case hd cs of None \<Rightarrow> x = None | Some t \<Rightarrow> \<exists>u. x = Some (t @ u))"
proof (cases cs rule: rev_cases)
  case (snoc ds x)
  then show ?thesis by (cases ds) (auto simp: glue_def split: option.split)
qed simp

lemma sentlen_le: "out_inv c \<Longrightarrow> sentlen c \<le> length (obuf c @ flat (chunks c))"
  by (auto simp: out_inv_def split: if_splits list.splits option.splits)

lemma prepare_adds:
  assumes "writable c"
  shows "\<exists>c'. prepareClientToWrite c = Some c' \<and> adds [] c c' \<and> closing c' = False \<and> obuf c' = obuf c \<and> chunks c' = chunks c"
  using assms by (auto simp: prepareClientToWrite_def writable_def adds_def out_inv_def pending_def)

lemma buffer_adds:
  assumes "addReplyToBuffer c s = (True, c')" "writable c"
  shows "adds s c c'"
  using assms sentlen_le [of c]
  by (auto simp: addReplyToBuffer_def Let_def adds_def writable_def out_inv_def pending_def split: if_splits)

lemma list_adds:
  assumes "chunks c \<noteq> [] \<or> s \<noteq> []"
  shows "adds s c (c\<lparr>chunks := glue (chunks c) s\<rparr>)"
proof (cases "chunks c = []")
  case True
  then show ?thesis using sentlen_le [of c]
    by (auto simp: adds_def writable_def out_inv_def pending_def glue_def)
next
  case False
  obtain x ds where x: "glue (chunks c) s = x # ds" "case hd (chunks c) of None \<Rightarrow> x = None | Some t \<Rightarrow> \<exists>u. x = Some (t @ u)"
    using glue_hd [OF False] by blast
  then have i: "out_inv c \<Longrightarrow> out_inv (c\<lparr>chunks := glue (chunks c) s\<rparr>)"
    using False by (cases "chunks c") (auto simp: out_inv_def split: option.splits)
  have "out_inv c \<Longrightarrow> pending (c\<lparr>chunks := glue (chunks c) s\<rparr>) = pending c @ s"
    using sentlen_le [of c] by (simp add: pending_def)
  then show ?thesis using i by (simp add: adds_def writable_def)
qed

lemmas to_list_defs = addReplyObjectToList_def addReplySdsToList_def addReplyStringToList_def

lemma buffer_or_list:
  assumes "writable c" "addReplyToBuffer c s = (ok, c')"
  shows "adds s c (if ok then c' else addReplyStringToList c' s)"
proof (cases ok)
  case True
  then show ?thesis using buffer_adds assms by simp
next
  case False
  have "c' = c" "chunks c \<noteq> [] \<or> s \<noteq> []" using assms False
    by (auto simp: addReplyToBuffer_def Let_def writable_def split: if_splits)
  then show ?thesis using list_adds [of c s] False assms(1) by (simp add: to_list_defs writable_def)
qed


section \<open>Replies are appended byte by byte\<close>

named_theorems adds_rules \<open>what each reply function appends\<close>

lemma addReplyString_adds [adds_rules]: "adds s c (addReplyString c s)"
proof (cases "writable c")
  case True
  obtain c1 where c1: "prepareClientToWrite c = Some c1" "adds [] c c1" using prepare_adds [OF True] by blast
  obtain ok c2 where c2: "addReplyToBuffer c1 s = (ok, c2)" by fastforce
  show ?thesis
  proof (cases "out_inv c")
    case o: True
    have "writable c1" using c1(2) True o by (simp add: adds_def)
    from adds_trans [OF c1(2) buffer_or_list [OF this c2]] show ?thesis using c1(1) c2 by (simp add: addReplyString_def)
  qed (simp add: adds_def)
qed (simp add: adds_def)

lemma three_adds: "adds (s @ t @ u) c (addReplyString (addReplyString (addReplyString c s) t) u)"
  using adds_trans [OF adds_trans [OF addReplyString_adds addReplyString_adds] addReplyString_adds] by simp

lemma addReplySds_String: "addReplySds c s = addReplyString c s"
  by (simp add: addReplySds_def addReplyString_def to_list_defs split: option.split prod.split)

lemma addReply_raw: "addReply c (RawStr s) = Some (addReplyString c s)"
  by (simp add: addReply_def addReplyString_def to_list_defs Let_def split: option.split prod.split)

text \<open>The shortcut for integers writes the same bytes as the general path.\<close>

lemma cstr_repr: "cstr (ll_repr v @ [0]) = ll_repr v"
proof -
  have "\<forall>b \<in> set (ll_repr v). b \<noteq> 0"
    using dec_digits [of "nat (- v)"] dec_digits [of "nat v"] by (auto simp: ll_repr_def list_all_iff isdigit_def)
  then show ?thesis by (simp add: cstr_def takeWhile_eq_all_conv takeWhile_append2)
qed

lemma addReply_int:
  assumes "is_ll v"
  shows "addReply c (IntStr v) = Some (addReplyString c (ll_repr v))"
proof -
  have "getDecodedObject (IntStr v :: 'a robj) = Some (RawStr (ll_repr v))"
    using ll2string_take [OF assms, of 32] cstr_repr by (simp add: getDecodedObject_def int_text_def)
  then show ?thesis using ll2string_take [OF assms, of 32]
    by (auto simp: addReply_def addReplyString_def to_list_defs Let_def addReplyToBuffer_def split: option.split)
qed

lemma digits_left_dec: "0 \<le> n \<Longrightarrow> 1 + digits_left n = length (dec (nat n))"
proof (induction n rule: digits_left.induct)
  case (1 n)
  have m: "sgn n * (\<bar>n\<bar> div 10) = n div 10" using 1(2) by (simp add: sgn_if)
  show ?case
  proof (cases "n div 10 = 0")
    case True
    then have "nat n < 10" using 1(2) by simp
    then show ?thesis using m True by (simp add: digits_left.simps dec.simps)
  next
    case False
    have "1 + digits_left (n div 10) = length (dec (nat (n div 10)))" using 1(1) [OF refl] m False 1(2) by simp
    moreover have "dec (nat n) = dec (nat n div 10) @ [digit (nat n mod 10)]" using False 1(2) by (subst dec.simps) auto
    moreover have "digits_left n = Suc (digits_left (n div 10))" using m False by (subst digits_left.simps) (simp add: Let_def)
    ultimately show ?thesis using 1(2) by (simp add: nat_div_distrib)
  qed
qed

lemma digits_left_min: "digits_left (- (2 ^ 63)) = 18"
  by (simp add: digits_left.simps Let_def)

text \<open>The announced length is the length of the decimal text, for the least integer too.\<close>

lemma bulk_len_int: 
  assumes "is_ll v"
  shows "bulk_len (IntStr v) = Some (length (ll_repr v))"
proof (cases "v = - (2 ^ 63)")
  case True
  have "length (dec (nat (2 ^ 63))) = 19" by (simp add: dec.simps)
  then show ?thesis using True digits_left_min by (simp add: bulk_len_def ll_repr_def)
next
  case False
  have "sint (word_of_int (- v) :: 64 word) = - v" if "v < 0"
    by (rule sint_ll) (use that False assms in \<open>simp add: is_ll_def\<close>)
  then show ?thesis using digits_left_dec [of v] digits_left_dec [of "- v"] by (auto simp: bulk_len_def ll_repr_def)
qed


definition num :: "byte \<Rightarrow> int \<Rightarrow> bytes" where
  "num prefix v = prefix # ll_repr v @ CRLF"

lemma addReplyLongLongWithPrefix_eq:
  assumes "is_ll v" "prefix = chr CHR ''*'' \<or> prefix = chr CHR ''$'' \<longrightarrow> 0 \<le> v"
  shows "addReplyLongLongWithPrefix c v prefix = Some (addReplyString c (num prefix v))"
  using assms ll2string_take [OF assms(1), of 127]
  by (auto simp: addReplyLongLongWithPrefix_def shared_hdr_def addReply_raw num_def)

lemma addReplyLongLong_eq: "is_ll v \<Longrightarrow> addReplyLongLong c v = Some (addReplyString c (num (chr CHR '':'') v))"
  using addReplyLongLongWithPrefix_eq [of v "chr CHR '':''" c]
  by (auto simp: addReplyLongLong_def addReply_raw num_def ctext_def ll_repr_def dec.simps digit_def)

lemma bulk_len_eq: "bulk_len (RawStr s) = Some (length s)"
  by (simp add: bulk_len_def)

text \<open>The protocol text of a string object.\<close>

fun obj_text :: "'o robj \<Rightarrow> bytes option" where
  "obj_text (RawStr s) = Some s"
| "obj_text (IntStr v) = (if is_ll v then Some (ll_repr v) else None)"
| "obj_text (Other _ _) = None"

definition bulk :: "bytes \<Rightarrow> bytes" where
  "bulk s = num (chr CHR ''$'') (int (length s)) @ s @ CRLF"

lemma ll_length: "length s < 2 ^ 63 \<Longrightarrow> is_ll (int (length s))"
  by (simp add: is_ll_def)

lemma obj_text_cases:
  assumes "obj_text obj = Some s"
  shows "bulk_len obj = Some (length s) \<and> addReply c obj = Some (addReplyString c s)"
  using assms by (cases obj) (auto simp: bulk_len_int addReply_int addReply_raw bulk_len_eq split: if_splits)

lemma addReplyBulk_adds:
  assumes "obj_text obj = Some s" "length s < 2 ^ 63"
  shows "\<exists>c'. addReplyBulk c obj = Some c' \<and> adds (bulk s) c c'"
proof -
  let ?c1 = "addReplyString c (num (chr CHR ''$'') (int (length s)))"
  let ?c2 = "addReplyString ?c1 s"
  have "addReplyBulk c obj = Some (addReplyString ?c2 CRLF)"
    using obj_text_cases [OF assms(1)] addReplyLongLongWithPrefix_eq [OF ll_length [OF assms(2)], of "chr CHR ''$''" c]
    by (simp add: addReplyBulk_def addReplyBulkLen_def addReply_raw)
  moreover have "adds (bulk s) c (addReplyString ?c2 CRLF)"
    unfolding bulk_def by (rule three_adds)
  ultimately show ?thesis by blast
qed

lemma addReplyBulkCBuffer_adds:
  assumes "length s < 2 ^ 63"
  shows "\<exists>c'. addReplyBulkCBuffer c s = Some c' \<and> adds (bulk s) c c'"
proof -
  let ?c1 = "addReplyString c (num (chr CHR ''$'') (int (length s)))"
  have "addReplyBulkCBuffer c s = Some (addReplyString (addReplyString ?c1 s) CRLF)"
    using addReplyLongLongWithPrefix_eq [OF ll_length [OF assms], of "chr CHR ''$''" c] by (simp add: addReplyBulkCBuffer_def addReply_raw)
  moreover have "adds (bulk s) c (addReplyString (addReplyString ?c1 s) CRLF)"
    unfolding bulk_def by (rule three_adds)
  ultimately show ?thesis by blast
qed

lemma addReplyErrorLength_adds [adds_rules]: "adds (ctext ''-ERR '' @ s @ CRLF) c (addReplyErrorLength c s)"
  unfolding addReplyErrorLength_def by (rule three_adds)

lemma addReplyStatusLength_adds [adds_rules]: "adds (ctext ''+'' @ s @ CRLF) c (addReplyStatusLength c s)"
  unfolding addReplyStatusLength_def by (rule three_adds)


section \<open>Deferred lengths\<close>

lemma glue_deferred: "glue (cs @ None # post) s = cs @ None # glue post s"
  by (cases post rule: rev_cases) (auto simp: glue_def butlast_append split: option.split)

lemma addReplyString_deferred:
  assumes "writable c" "chunks c = cs @ None # post"
  shows "addReplyString c s = c\<lparr>chunks := cs @ None # glue post s\<rparr>"
  using assms glue_deferred [of cs post s]
  by (auto simp: addReplyString_def prepareClientToWrite_def writable_def addReplyToBuffer_def to_list_defs)

lemma strings_deferred:
  "writable c \<Longrightarrow> chunks c = cs @ None # post \<Longrightarrow>
   \<exists>post'. foldl addReplyString c strs = c\<lparr>chunks := cs @ None # post'\<rparr> \<and> flat post' = flat post @ concat strs \<and>
     (post = [] \<or> (\<exists>t. hd post = Some t) \<longrightarrow> post' = [] \<or> (\<exists>t. hd post' = Some t))"
proof (induction strs arbitrary: c post)
  case Nil
  then show ?case by (intro exI [of _ post]) (cases c, simp)
next
  case (Cons s strs)
  let ?c = "c\<lparr>chunks := cs @ None # glue post s\<rparr>"
  have "writable ?c" using Cons.prems(1) by (simp add: writable_def)
  from Cons.IH [OF this, of "glue post s"] obtain post' where p:
    "foldl addReplyString ?c strs = ?c\<lparr>chunks := cs @ None # post'\<rparr>" "flat post' = flat (glue post s) @ concat strs"
    "glue post s = [] \<or> (\<exists>t. hd (glue post s) = Some t) \<longrightarrow> post' = [] \<or> (\<exists>t. hd post' = Some t)" by auto
  have "post = [] \<or> (\<exists>t. hd post = Some t) \<Longrightarrow> \<exists>t. hd (glue post s) = Some t"
    using glue_hd [of post s] by (cases "post = []") (auto simp: glue_def)
  then show ?case using p addReplyString_deferred [OF Cons.prems, of s] by auto
qed

lemma setDeferred_pending:
  assumes "out_inv c" "chunks c = cs @ None # post" "post = [] \<or> (\<exists>t. hd post = Some t)" "is_ll n"
  shows "out_inv (setDeferredMultiBulkLength c (Some (length cs)) n) \<and>
    pending (setDeferredMultiBulkLength c (Some (length cs)) n) = drop (sentlen c) (obuf c @ flat cs @ num (chr CHR ''*'') n @ flat post)"
proof (cases post)
  case Nil
  then show ?thesis using assms
    by (cases cs) (auto simp: setDeferredMultiBulkLength_def Let_def num_def ctext_def pending_def out_inv_def split: if_splits option.splits)
next
  case (Cons x post')
  with assms(3) obtain t where "x = Some t" by auto
  then show ?thesis using assms Cons
    by (cases cs) (auto simp: setDeferredMultiBulkLength_def Let_def num_def ctext_def pending_def out_inv_def split: if_splits option.splits)
qed

text \<open>
  A multi bulk reply whose length becomes known only after its elements were added is sent with the length in
  front, whether the elements went to the same chunk or not.
\<close>

theorem deferred_length_sent:
  assumes "out_inv c" "writable c" "is_ll n"
  shows "case addDeferredMultiBulkLength c of (c1, node) \<Rightarrow>
    (let c3 = setDeferredMultiBulkLength (foldl addReplyString c1 strs) node n
     in out_inv c3 \<and> pending c3 = pending c @ num (chr CHR ''*'') n @ concat strs)"
proof -
  obtain c' where c': "prepareClientToWrite c = Some c'" "adds [] c c'" using prepare_adds [OF assms(2)] by blast
  let ?c1 = "c'\<lparr>chunks := chunks c' @ [None]\<rparr>"
  have d: "addDeferredMultiBulkLength c = (?c1, Some (length (chunks c')))" using c'(1) by (simp add: addDeferredMultiBulkLength_def)
  have w: "out_inv c'" "writable c'" "pending c' = pending c" using c'(2) assms by (simp_all add: adds_def)
  then have w1: "writable ?c1" by (simp add: writable_def)
  obtain post where p: "foldl addReplyString ?c1 strs = ?c1\<lparr>chunks := chunks c' @ None # post\<rparr>" "flat post = concat strs"
    "post = [] \<or> (\<exists>t. hd post = Some t)" using strings_deferred [OF w1, of "chunks c'" "[]" strs] by auto
  have i: "out_inv (?c1\<lparr>chunks := chunks c' @ None # post\<rparr>)" using w(1)
    by (cases "chunks c'") (auto simp: out_inv_def split: if_splits option.splits)
  show ?thesis using setDeferred_pending [OF i, of "chunks c'" post n] p assms(3) w d sentlen_le [OF w(1)]
    by (simp add: pending_def Let_def)
qed

section \<open>Everything is sent, in order\<close>

definition unsent :: "oclient \<Rightarrow> nat" where
  "unsent c = room c - sentlen c"

text \<open>One write moves a non-empty prefix of what is pending to the socket.\<close>

definition moved :: "sending \<Rightarrow> sending \<Rightarrow> bool" where
  "moved st st' \<longleftrightarrow> out_inv (sc st') \<and> None \<notin> set (chunks (sc st')) \<and> master (sc st') = master (sc st) \<and>
     (\<exists>w. pending (sc st) = w @ pending (sc st') \<and> wire_out st' = wire_out st @ (if master (sc st) then [] else w))"

lemma moved_refl: "out_inv (sc st) \<Longrightarrow> None \<notin> set (chunks (sc st)) \<Longrightarrow> moved st st"
  by (simp add: moved_def)

lemma moved_trans:
  assumes "moved st st'" "moved st' st''"
  shows "moved st st''"
proof -
  obtain w where w: "pending (sc st) = w @ pending (sc st')" "wire_out st' = wire_out st @ (if master (sc st) then [] else w)"
    "master (sc st') = master (sc st)" using assms(1) by (auto simp: moved_def)
  obtain v where v: "pending (sc st') = v @ pending (sc st'')" "wire_out st'' = wire_out st' @ (if master (sc st') then [] else v)"
    using assms(2) by (auto simp: moved_def)
  have "pending (sc st) = (w @ v) @ pending (sc st'')" "wire_out st'' = wire_out st @ (if master (sc st) then [] else w @ v)"
    using w v by simp_all
  then show ?thesis using assms unfolding moved_def by blast
qed

lemma buf_step_moved:
  assumes "out_inv (sc st)" "None \<notin> set (chunks (sc st))" "obuf (sc st) \<noteq> []" "n \<le> length (obuf (sc st)) - sentlen (sc st)" "0 < n"
  shows "moved st (buf_step n st) \<and> unsent (sc (buf_step n st)) < unsent (sc st)"
proof -
  let ?c = "sc st"
  let ?w = "take n (drop (sentlen ?c) (obuf ?c))"
  have l: "sentlen ?c < length (obuf ?c)" using assms(1,3) by (simp add: out_inv_def)
  have p: "drop (sentlen ?c) (obuf ?c) = ?w @ drop (sentlen ?c + n) (obuf ?c)" by (metis add.commute append_take_drop_id drop_drop)
  have m: "moved st (buf_step n st)"
  proof (cases "sentlen ?c + n = length (obuf ?c)")
    case True
    then have "?w = drop (sentlen ?c) (obuf ?c)" using l by simp
    then show ?thesis using True assms(1,2) l unfolding moved_def
      by (auto simp: buf_step_def Let_def out_inv_def pending_def split: list.split option.split intro!: exI [of _ ?w])
  next
    case False
    then show ?thesis using assms l p unfolding moved_def
      by (auto simp: buf_step_def Let_def out_inv_def pending_def intro!: exI [of _ ?w])
  qed
  moreover have "unsent (sc (buf_step n st)) < unsent ?c" using l assms(4,5) by (auto simp: buf_step_def Let_def unsent_def room_def)
  ultimately show ?thesis by blast
qed


lemma chunk_step_moved:
  assumes "out_inv (sc st)" "None \<notin> set (chunks (sc st))" "obuf (sc st) = []" "chunks (sc st) = Some s # rest" "s \<noteq> []"
    "n \<le> length s - sentlen (sc st)" "0 < n"
  shows "moved st (chunk_step n s st) \<and> unsent (sc (chunk_step n s st)) < unsent (sc st)"
proof -
  let ?c = "sc st"
  let ?w = "take n (drop (sentlen ?c) s)"
  have l: "sentlen ?c < length s" using assms(6,7) by simp
  have p: "drop (sentlen ?c) s = ?w @ drop (sentlen ?c + n) s" by (metis add.commute append_take_drop_id drop_drop)
  have m: "moved st (chunk_step n s st)"
  proof (cases "sentlen ?c + n = length s")
    case True
    then have "?w = drop (sentlen ?c) s" using l by simp
    then show ?thesis using True assms(1-4) l unfolding moved_def
      by (auto simp: chunk_step_def Let_def out_inv_def pending_def split: list.split option.split intro!: exI [of _ ?w])
  next
    case False
    then show ?thesis using assms l p unfolding moved_def
      by (auto simp: chunk_step_def Let_def out_inv_def pending_def intro!: exI [of _ ?w])
  qed
  moreover have "unsent (sc (chunk_step n s st)) < unsent ?c"
    using l assms(3,4,6,7) by (auto simp: chunk_step_def Let_def unsent_def room_def)
  ultimately show ?thesis by blast
qed

lemma empty_chunk_moved:
  assumes "out_inv (sc st)" "None \<notin> set (chunks (sc st))" "obuf (sc st) = []" "chunks (sc st) = Some [] # rest"
  shows "moved st (st\<lparr>sc := (sc st)\<lparr>chunks := rest\<rparr>\<rparr>) \<and> unsent ((sc st)\<lparr>chunks := rest\<rparr>) < unsent (sc st)"
  using assms by (auto simp: moved_def out_inv_def pending_def unsent_def room_def split: list.split option.split)

lemma do_write_count:
  assumes "do_write c ws s = (Inr n, ws')" "sentlen c < length s"
  shows "n \<le> length s - sentlen c \<and> 0 < n"
  using assms by (auto simp: do_write_def sent_def Let_def split: if_splits list.splits wres.splits)

lemma failed_moved: "moved st st' \<Longrightarrow> moved st (st'\<lparr>last_failed := e\<rparr>)"
  by (simp add: moved_def)

lemma send_loop_moved:
  "out_inv (sc st) \<Longrightarrow> None \<notin> set (chunks (sc st)) \<Longrightarrow> unsent (sc st) < fuel \<Longrightarrow>
   \<exists>st' ws'. send_loop over fuel ws st = Some (st', ws') \<and> moved st st'"
proof (induction fuel arbitrary: ws st)
  case (Suc fuel)
  note refl = moved_refl [OF Suc.prems(1,2)]
  have step: "\<exists>st' ws'. (if totwritten st1 > REDIS_MAX_WRITE_PER_EVENT \<and> \<not> over then Some (st1, ws1) else send_loop over fuel ws1 st1) =
      Some (st', ws') \<and> moved st st'" if m: "moved st st1 \<and> unsent (sc st1) < unsent (sc st)" for st1 ws1
  proof -
    have "out_inv (sc st1)" "None \<notin> set (chunks (sc st1))" "unsent (sc st1) < fuel"
      using m Suc.prems(3) by (simp_all add: moved_def)
    from Suc.IH [OF this, of ws1] show ?thesis using m moved_trans by fastforce
  qed
  show ?case
  proof (cases "obuf (sc st) = []")
    case False
    then have l: "sentlen (sc st) < length (obuf (sc st))" using Suc.prems(1) by (simp add: out_inv_def)
    obtain r ws1 where w: "do_write (sc st) ws (obuf (sc st)) = (r, ws1)" by fastforce
    show ?thesis
    proof (cases r)
      case (Inl e)
      then show ?thesis using w False failed_moved [OF refl] by simp
    next
      case (Inr n)
      then show ?thesis using w False step [OF buf_step_moved [OF Suc.prems(1,2) False]] do_write_count [of "sc st" ws "obuf (sc st)" n ws1] l
        by simp
    qed
  next
    case True
    show ?thesis
    proof (cases "chunks (sc st)")
      case Nil
      then show ?thesis using True refl by simp
    next
      case (Cons x rest)
      then obtain s where x: "x = Some s" using Suc.prems(2) by (cases x) auto
      show ?thesis
      proof (cases "s = []")
        case e: True
        let ?st = "st\<lparr>sc := (sc st)\<lparr>chunks := rest\<rparr>\<rparr>"
        have m: "moved st ?st" "unsent (sc ?st) < unsent (sc st)" using empty_chunk_moved [OF Suc.prems(1,2) True] Cons x e by auto
        then have "out_inv (sc ?st)" "None \<notin> set (chunks (sc ?st))" "unsent (sc ?st) < fuel"
          using Suc.prems(3) unfolding moved_def by simp_all
        from Suc.IH [OF this, of ws] obtain st' ws' where r: "send_loop over fuel ws ?st = Some (st', ws')" "moved ?st st'" by blast
        then show ?thesis using True Cons x e moved_trans [OF m(1) r(2)] by simp
      next
        case e: False
        have l: "sentlen (sc st) < length s" using Suc.prems(1) True Cons x e by (auto simp: out_inv_def)
        obtain r ws1 where w: "do_write (sc st) ws s = (r, ws1)" by fastforce
        show ?thesis
        proof (cases r)
          case (Inl e')
          then show ?thesis using w True Cons x e failed_moved [OF refl] by simp
        next
          case (Inr n)
          then show ?thesis using w True Cons x e do_write_count [of "sc st" ws s n ws1] l
              step [OF chunk_step_moved [OF Suc.prems(1,2) True _ e]] by simp
        qed
      qed
    qed
  qed
qed simp


definition sample_out :: oclient where
  "sample_out = \<lparr>lua_client = False, fd = 7, repl_ready = True, el_ok = True, handler = False, master = False, closing = False,
     obuf = [], chunks = [], sentlen = 0\<rparr>"


theorem deferred_length_sent_witness:
  "case addDeferredMultiBulkLength sample_out of (c1, node) \<Rightarrow>
    (let c3 = setDeferredMultiBulkLength (foldl addReplyString c1 [[58, 55, 13, 10]]) node 1
     in out_inv c3 \<and> pending c3 = [42, 49, 13, 10, 58, 55, 13, 10])"
proof -
  have "out_inv sample_out" "writable sample_out" "pending sample_out = []" "is_ll 1"
    by (simp_all add: sample_out_def out_inv_def writable_def pending_def is_ll_def)
  then show ?thesis using deferred_length_sent [of sample_out 1 "[[58, 55, 13, 10]]"]
    by (simp add: num_def ll_repr_def dec.simps digit_def CRLF_def)
qed

end
