(* ===== verification/Pubsub.thy ===== *)
theory Pubsub
  imports Glob Output_Buffer
begin

text \<open>
  Publish and subscribe, \<^verbatim>\<open>debug/redis/src/pubsub.c\<close>. A client keeps the channels and
  the patterns it is subscribed to, the server keeps the subscribers of every channel and the list
  of all pattern subscriptions. Channels and patterns are raw string objects, as the arguments of a
  request are. The order in which the iterator of a dictionary visits its keys is the parameter
  \<open>iter\<close>. \<open>None\<close> stands for a failed assertion, a null pointer or an access outside of a
  string.
\<close>

record psclient =
  out :: oclient
  pubsub_channels :: "bytes list"
  pubsub_patterns :: "bytes list"

record psserver =
  clients :: "nat \<Rightarrow> psclient"
  server_channels :: "bytes \<Rightarrow> nat list option"
  server_patterns :: "(nat \<times> bytes) list"

definition upd_client :: "psserver \<Rightarrow> nat \<Rightarrow> (psclient \<Rightarrow> psclient) \<Rightarrow> psserver" where
  "upd_client s c f = s\<lparr>clients := (clients s)(c := f (clients s c))\<rparr>"

definition subscriptions :: "psclient \<Rightarrow> int" where
  "subscriptions cl = int (length (pubsub_channels cl) + length (pubsub_patterns cl))"

text \<open>The list of the subscribers of a channel; a list that becomes empty is removed.\<close>

definition set_clients :: "psserver \<Rightarrow> bytes \<Rightarrow> nat list \<Rightarrow> psserver" where
  "set_clients s channel cs = s\<lparr>server_channels := (server_channels s)(channel := if cs = [] then None else Some cs)\<rparr>"

section \<open>Replies\<close>

definition mbulkhdr :: "nat \<Rightarrow> unit robj" where
  "mbulkhdr n = RawStr (num (chr CHR ''*'') (int n))"

definition crlf_bulk :: "string \<Rightarrow> string \<Rightarrow> unit robj" where
  "crlf_bulk len text = RawStr (ctext len @ CRLF @ ctext text @ CRLF)"

definition messagebulk :: "unit robj" where "messagebulk = crlf_bulk ''$7'' ''message''"
definition pmessagebulk :: "unit robj" where "pmessagebulk = crlf_bulk ''$8'' ''pmessage''"
definition subscribebulk :: "unit robj" where "subscribebulk = crlf_bulk ''$9'' ''subscribe''"
definition unsubscribebulk :: "unit robj" where "unsubscribebulk = crlf_bulk ''$11'' ''unsubscribe''"
definition psubscribebulk :: "unit robj" where "psubscribebulk = crlf_bulk ''$10'' ''psubscribe''"
definition punsubscribebulk :: "unit robj" where "punsubscribebulk = crlf_bulk ''$12'' ''punsubscribe''"
definition nullbulk :: "unit robj" where "nullbulk = RawStr (ctext ''$-1'' @ CRLF)"

text \<open>The notification that ends every (un)subscription; no name gives the null bulk reply.\<close>

definition notification :: "psserver \<Rightarrow> nat \<Rightarrow> unit robj \<Rightarrow> bytes option \<Rightarrow> psserver option" where
  "notification s c kind name =
     do { o1 \<leftarrow> addReply (out (clients s c)) (mbulkhdr 3);
          o2 \<leftarrow> addReply o1 kind;
          o3 \<leftarrow> (case name of None \<Rightarrow> addReply o2 nullbulk | Some n \<Rightarrow> addReplyBulk o2 (RawStr n :: unit robj));
          o4 \<leftarrow> addReplyLongLong o3 (subscriptions (clients s c));
          Some (upd_client s c (out_update (\<lambda>_. o4))) }"

section \<open>Subscribing\<close>

definition pubsubSubscribeChannel :: "psserver \<Rightarrow> nat \<Rightarrow> bytes \<Rightarrow> (bool \<times> psserver) option" where
  "pubsubSubscribeChannel s c channel =
     (let (retval, s) =
        (if channel \<in> set (pubsub_channels (clients s c)) then (False, s)
         else
           let s = upd_client s c (pubsub_channels_update (\<lambda>xs. channel # xs));
               cs = (case server_channels s channel of None \<Rightarrow> [] | Some cs \<Rightarrow> cs)
           in (True, set_clients s channel (cs @ [c])))
      in map_option (Pair retval) (notification s c subscribebulk (Some channel)))"

definition pubsubUnsubscribeChannel :: "psserver \<Rightarrow> nat \<Rightarrow> bytes \<Rightarrow> bool \<Rightarrow> (bool \<times> psserver) option" where
  "pubsubUnsubscribeChannel s c channel notify =
     do { (retval, s) \<leftarrow>
            (if channel \<in> set (pubsub_channels (clients s c)) then
               do { let s = upd_client s c (pubsub_channels_update (remove1 channel));
                    cs \<leftarrow> server_channels s channel;
                    if c \<in> set cs then
                      Some (True, set_clients s channel (remove1 c cs))
                    else None }
             else Some (False, s));
          s \<leftarrow> (if notify then notification s c unsubscribebulk (Some channel) else Some s);
          Some (retval, s) }"

definition pubsubSubscribePattern :: "psserver \<Rightarrow> nat \<Rightarrow> bytes \<Rightarrow> (bool \<times> psserver) option" where
  "pubsubSubscribePattern s c pattern =
     (let (retval, s) =
        (if pattern \<in> set (pubsub_patterns (clients s c)) then (False, s)
         else
           let s = upd_client s c (pubsub_patterns_update (\<lambda>xs. xs @ [pattern]))
           in (True, s\<lparr>server_patterns := server_patterns s @ [(c, pattern)]\<rparr>))
      in map_option (Pair retval) (notification s c psubscribebulk (Some pattern)))"

definition pubsubUnsubscribePattern :: "psserver \<Rightarrow> nat \<Rightarrow> bytes \<Rightarrow> bool \<Rightarrow> (bool \<times> psserver) option" where
  "pubsubUnsubscribePattern s c pattern notify =
     do { (retval, s) \<leftarrow>
            (if pattern \<in> set (pubsub_patterns (clients s c)) then
               (let s = upd_client s c (pubsub_patterns_update (remove1 pattern)) in
                if (c, pattern) \<in> set (server_patterns s)
                then Some (True, s\<lparr>server_patterns := remove1 (c, pattern) (server_patterns s)\<rparr>)
                else None)
             else Some (False, s));
          s \<leftarrow> (if notify then notification s c punsubscribebulk (Some pattern) else Some s);
          Some (retval, s) }"

fun each :: "(psserver \<Rightarrow> bytes \<Rightarrow> (bool \<times> psserver) option) \<Rightarrow> psserver \<Rightarrow> bytes list \<Rightarrow> nat \<Rightarrow> (nat \<times> psserver) option" where
  "each f s [] n = Some (n, s)"
| "each f s (x # xs) n =
     do { (r, s) \<leftarrow> f s x;
          each f s xs (n + (if r then 1 else 0)) }"

definition pubsubUnsubscribeAllChannels ::
    "(bytes list \<Rightarrow> bytes list) \<Rightarrow> psserver \<Rightarrow> nat \<Rightarrow> bool \<Rightarrow> (nat \<times> psserver) option" where
  "pubsubUnsubscribeAllChannels iter s c notify =
     do { (n, s) \<leftarrow> each (\<lambda>s ch. pubsubUnsubscribeChannel s c ch notify) s (iter (pubsub_channels (clients s c))) 0;
          s \<leftarrow> (if notify \<and> n = 0 then notification s c unsubscribebulk None else Some s);
          Some (n, s) }"

definition pubsubUnsubscribeAllPatterns :: "psserver \<Rightarrow> nat \<Rightarrow> bool \<Rightarrow> (nat \<times> psserver) option" where
  "pubsubUnsubscribeAllPatterns s c notify =
     do { (n, s) \<leftarrow> each (\<lambda>s p. pubsubUnsubscribePattern s c p notify) s (pubsub_patterns (clients s c)) 0;
          s \<leftarrow> (if notify \<and> n = 0 then notification s c punsubscribebulk None else Some s);
          Some (n, s) }"

section \<open>Publishing\<close>

definition send_message :: "bytes \<Rightarrow> bytes \<Rightarrow> psserver \<Rightarrow> nat \<Rightarrow> psserver option" where
  "send_message channel message s c =
     do { o1 \<leftarrow> addReply (out (clients s c)) (mbulkhdr 3);
          o2 \<leftarrow> addReply o1 messagebulk;
          o3 \<leftarrow> addReplyBulk o2 (RawStr channel :: unit robj);
          o4 \<leftarrow> addReplyBulk o3 (RawStr message :: unit robj);
          Some (upd_client s c (out_update (\<lambda>_. o4))) }"

definition send_pmessage :: "bytes \<Rightarrow> bytes \<Rightarrow> psserver \<Rightarrow> nat \<times> bytes \<Rightarrow> psserver option" where
  "send_pmessage channel message s cp =
     do { o1 \<leftarrow> addReply (out (clients s (fst cp))) (mbulkhdr 4);
          o2 \<leftarrow> addReply o1 pmessagebulk;
          o3 \<leftarrow> addReplyBulk o2 (RawStr (snd cp) :: unit robj);
          o4 \<leftarrow> addReplyBulk o3 (RawStr channel :: unit robj);
          o5 \<leftarrow> addReplyBulk o4 (RawStr message :: unit robj);
          Some (upd_client s (fst cp) (out_update (\<lambda>_. o5))) }"

fun publish_channel :: "bytes \<Rightarrow> bytes \<Rightarrow> psserver \<Rightarrow> nat list \<Rightarrow> nat \<Rightarrow> (nat \<times> psserver) option" where
  "publish_channel channel message s [] n = Some (n, s)"
| "publish_channel channel message s (c # cs) n =
     do { s \<leftarrow> send_message channel message s c;
          publish_channel channel message s cs (n + 1) }"

fun publish_patterns :: "bytes \<Rightarrow> bytes \<Rightarrow> psserver \<Rightarrow> (nat \<times> bytes) list \<Rightarrow> nat \<Rightarrow> (nat \<times> psserver) option" where
  "publish_patterns channel message s [] n = Some (n, s)"
| "publish_patterns channel message s (cp # cps) n =
     do { m \<leftarrow> stringmatchlen False (snd cp) channel 0 0;
          if m then
            do { s \<leftarrow> send_pmessage channel message s cp;
                 publish_patterns channel message s cps (n + 1) }
          else publish_patterns channel message s cps n }"

definition pubsubPublishMessage :: "psserver \<Rightarrow> bytes \<Rightarrow> bytes \<Rightarrow> (nat \<times> psserver) option" where
  "pubsubPublishMessage s channel message =
     do { (n, s) \<leftarrow> (case server_channels s channel of
                       None \<Rightarrow> Some (0, s)
                     | Some cs \<Rightarrow> publish_channel channel message s cs 0);
          publish_patterns channel message s (server_patterns s) n }"

section \<open>Commands\<close>

text \<open>\<open>Free\<close> is the part of \<open>freeClient\<close> that concerns the subscriptions.\<close>

datatype pscmd = Subscribe "bytes list" | Unsubscribe "bytes list" | Psubscribe "bytes list"
  | Punsubscribe "bytes list" | Publish bytes bytes | Free

definition subscribeCommand :: "psserver \<Rightarrow> nat \<Rightarrow> bytes list \<Rightarrow> psserver option" where
  "subscribeCommand s c args = map_option snd (each (\<lambda>s ch. pubsubSubscribeChannel s c ch) s args 0)"

definition unsubscribeCommand :: "(bytes list \<Rightarrow> bytes list) \<Rightarrow> psserver \<Rightarrow> nat \<Rightarrow> bytes list \<Rightarrow> psserver option" where
  "unsubscribeCommand iter s c args =
     (if args = [] then map_option snd (pubsubUnsubscribeAllChannels iter s c True)
      else map_option snd (each (\<lambda>s ch. pubsubUnsubscribeChannel s c ch True) s args 0))"

definition psubscribeCommand :: "psserver \<Rightarrow> nat \<Rightarrow> bytes list \<Rightarrow> psserver option" where
  "psubscribeCommand s c args = map_option snd (each (\<lambda>s p. pubsubSubscribePattern s c p) s args 0)"

definition punsubscribeCommand :: "psserver \<Rightarrow> nat \<Rightarrow> bytes list \<Rightarrow> psserver option" where
  "punsubscribeCommand s c args =
     (if args = [] then map_option snd (pubsubUnsubscribeAllPatterns s c True)
      else map_option snd (each (\<lambda>s p. pubsubUnsubscribePattern s c p True) s args 0))"

definition publishCommand :: "psserver \<Rightarrow> nat \<Rightarrow> bytes \<Rightarrow> bytes \<Rightarrow> psserver option" where
  "publishCommand s c channel message =
     do { (receivers, s) \<leftarrow> pubsubPublishMessage s channel message;
          o1 \<leftarrow> addReplyLongLong (out (clients s c)) (int receivers);
          Some (upd_client s c (out_update (\<lambda>_. o1))) }"

definition free_subscriptions :: "(bytes list \<Rightarrow> bytes list) \<Rightarrow> psserver \<Rightarrow> nat \<Rightarrow> psserver option" where
  "free_subscriptions iter s c =
     do { (_, s) \<leftarrow> pubsubUnsubscribeAllChannels iter s c False;
          (_, s) \<leftarrow> pubsubUnsubscribeAllPatterns s c False;
          Some s }"

fun do_pubsub :: "(bytes list \<Rightarrow> bytes list) \<Rightarrow> psserver \<Rightarrow> nat \<Rightarrow> pscmd \<Rightarrow> psserver option" where
  "do_pubsub iter s c (Subscribe chs) = subscribeCommand s c chs"
| "do_pubsub iter s c (Unsubscribe chs) = unsubscribeCommand iter s c chs"
| "do_pubsub iter s c (Psubscribe ps) = psubscribeCommand s c ps"
| "do_pubsub iter s c (Punsubscribe ps) = punsubscribeCommand s c ps"
| "do_pubsub iter s c (Publish ch m) = publishCommand s c ch m"
| "do_pubsub iter s c Free = free_subscriptions iter s c"

fun run_pubsub :: "(bytes list \<Rightarrow> bytes list) \<Rightarrow> psserver \<Rightarrow> (nat \<times> pscmd) list \<Rightarrow> psserver option" where
  "run_pubsub iter s [] = Some s"
| "run_pubsub iter s (e # es) =
     do { s \<leftarrow> do_pubsub iter s (fst e) (snd e);
          run_pubsub iter s es }"

section \<open>The two sides of a subscription agree\<close>

definition subscribers :: "psserver \<Rightarrow> bytes \<Rightarrow> nat list" where
  "subscribers s ch = (case server_channels s ch of None \<Rightarrow> [] | Some cs \<Rightarrow> cs)"

definition channels_ok :: "psserver \<Rightarrow> bool" where
  "channels_ok s \<longleftrightarrow>
     (\<forall>c. distinct (pubsub_channels (clients s c))) \<and>
     (\<forall>ch. server_channels s ch \<noteq> Some [] \<and> distinct (subscribers s ch)) \<and>
     (\<forall>ch c. c \<in> set (subscribers s ch) \<longleftrightarrow> ch \<in> set (pubsub_channels (clients s c)))"

text \<open>The patterns of one client in the server's list.\<close>

definition patterns_of :: "nat \<Rightarrow> (nat \<times> bytes) list \<Rightarrow> bytes list" where
  "patterns_of c cps = map snd (filter (\<lambda>x. fst x = c) cps)"

definition patterns_ok :: "psserver \<Rightarrow> bool" where
  "patterns_ok s \<longleftrightarrow>
     (\<forall>c. pubsub_patterns (clients s c) = patterns_of c (server_patterns s) \<and> distinct (patterns_of c (server_patterns s)))"

definition short :: "bytes \<Rightarrow> bool" where
  "short s \<longleftrightarrow> length s < 2 ^ 63"

definition pattern_ok :: "bytes \<Rightarrow> bool" where
  "pattern_ok p \<longleftrightarrow> short p \<and> tokens p \<noteq> None"

definition ps_ok :: "psserver \<Rightarrow> bool" where
  "ps_ok s \<longleftrightarrow> channels_ok s \<and> patterns_ok s \<and> (\<forall>cp \<in> set (server_patterns s). pattern_ok (snd cp))"

lemmas ps_ok_defs = ps_ok_def channels_ok_def patterns_ok_def

text \<open>A change of the output buffers only.\<close>

definition only_output :: "psserver \<Rightarrow> psserver \<Rightarrow> bool" where
  "only_output s s' \<longleftrightarrow> server_channels s' = server_channels s \<and> server_patterns s' = server_patterns s \<and>
     (\<forall>c. pubsub_channels (clients s' c) = pubsub_channels (clients s c) \<and>
          pubsub_patterns (clients s' c) = pubsub_patterns (clients s c))"

lemma only_output_ok:
  assumes "only_output s s'"
  shows "ps_ok s' \<longleftrightarrow> ps_ok s"
  using assms by (simp add: only_output_def ps_ok_defs subscribers_def)

lemma only_output_refl [simp]: "only_output s s"
  by (simp add: only_output_def)

lemma only_output_trans: "only_output s s' \<Longrightarrow> only_output s' s'' \<Longrightarrow> only_output s s''"
  by (simp add: only_output_def)

lemma only_output_out [simp]: "only_output s (upd_client s c (out_update f))"
  by (simp add: only_output_def upd_client_def)

lemma clients_upd [simp]: "clients (upd_client s c f) d = (if d = c then f (clients s c) else clients s d)"
  by (simp add: upd_client_def)

lemma server_upd [simp]:
  "server_channels (upd_client s c f) = server_channels s" "server_patterns (upd_client s c f) = server_patterns s"
  by (simp_all add: upd_client_def)

lemma addReply_raw_some: "\<exists>o'. addReply o1 (RawStr x) = Some o'"
  by (simp add: addReply_raw)

lemma addReplyBulk_raw_some: "\<exists>o'. addReplyBulk o1 (RawStr x) = Some o'"
  by (simp add: addReplyBulk_def addReplyBulkLen_def bulk_len_eq addReplyLongLongWithPrefix_def shared_hdr_def addReply_raw
      split: prod.split)

lemma addReplyLongLong_some: "\<exists>o'. addReplyLongLong o1 v = Some o'"
  by (simp add: addReplyLongLong_def addReplyLongLongWithPrefix_def shared_hdr_def addReply_raw split: prod.split)

lemmas bulk_defs = mbulkhdr_def crlf_bulk_def messagebulk_def pmessagebulk_def subscribebulk_def unsubscribebulk_def
  psubscribebulk_def punsubscribebulk_def nullbulk_def

lemma notification_output:
  assumes "kind \<in> {subscribebulk, unsubscribebulk, psubscribebulk, punsubscribebulk}"
  shows "\<exists>s'. notification s c kind name = Some s' \<and> only_output s s'"
proof -
  obtain x where x: "kind = RawStr x" using assms by (auto simp: bulk_defs)
  let ?o2 = "addReplyString (addReplyString (out (clients s c)) (num 42 3)) x"
  obtain o3 where o3: "(case name of None \<Rightarrow> addReply ?o2 nullbulk
      | Some n \<Rightarrow> addReplyBulk ?o2 (RawStr n :: unit robj)) = Some o3"
    using addReplyBulk_raw_some by (cases name) (auto simp: nullbulk_def addReply_raw)
  obtain o4 where "addReplyLongLong o3 (subscriptions (clients s c)) = Some o4"
    using addReplyLongLong_some by blast
  with o3 x have "notification s c kind name = Some (upd_client s c (out_update (\<lambda>_. o4)))"
    by (simp add: notification_def mbulkhdr_def addReply_raw)
  then show ?thesis by simp
qed

lemma set_clients_simps [simp]:
  "clients (set_clients s ch cs) = clients s" "server_patterns (set_clients s ch cs) = server_patterns s"
  "subscribers (set_clients s ch cs) x = (if x = ch then cs else subscribers s x)"
  "server_channels (set_clients s ch cs) x = Some [] \<longleftrightarrow> x \<noteq> ch \<and> server_channels s x = Some []"
  "subscribers (upd_client s c f) = subscribers s"
  by (auto simp: set_clients_def subscribers_def)

lemma subscribe_channel_ok:
  assumes "ps_ok s"
  shows "\<exists>r s'. pubsubSubscribeChannel s c ch = Some (r, s') \<and> ps_ok s'"
proof -
  let ?s = "if ch \<in> set (pubsub_channels (clients s c)) then s
    else set_clients (upd_client s c (pubsub_channels_update (\<lambda>xs. ch # xs))) ch (subscribers s ch @ [c])"
  have "ps_ok ?s"
    using assms by (auto simp: ps_ok_defs)
  then show ?thesis
    using notification_output [of subscribebulk ?s c "Some ch"] only_output_ok
    by (auto simp: pubsubSubscribeChannel_def Let_def subscribers_def)
qed

lemma unsubscribe_channel_ok:
  assumes "ps_ok s"
  shows "\<exists>r s'. pubsubUnsubscribeChannel s c ch notify = Some (r, s') \<and> ps_ok s'"
proof -
  let ?s = "if ch \<in> set (pubsub_channels (clients s c)) then
      set_clients (upd_client s c (pubsub_channels_update (remove1 ch))) ch (remove1 c (subscribers s ch))
    else s"
  have *: "ps_ok ?s"
    using assms by (auto simp: ps_ok_defs)
  have "c \<in> set (subscribers s ch) \<Longrightarrow> \<exists>cs. server_channels s ch = Some cs \<and> subscribers s ch = cs"
    by (cases "server_channels s ch") (auto simp: subscribers_def)
  then have "ch \<in> set (pubsub_channels (clients s c)) \<Longrightarrow>
      \<exists>cs. server_channels s ch = Some cs \<and> subscribers s ch = cs \<and> c \<in> set cs"
    using assms unfolding ps_ok_defs by blast
  with * show ?thesis
    using notification_output [of unsubscribebulk ?s c "Some ch"] only_output_ok
    by (auto simp: pubsubUnsubscribeChannel_def Let_def)
qed

lemma patterns_of_simps [simp]:
  "patterns_of c [] = []"
  "patterns_of c (x # cps) = (if fst x = c then snd x # patterns_of c cps else patterns_of c cps)"
  "patterns_of c (xs @ ys) = patterns_of c xs @ patterns_of c ys"
  by (simp_all add: patterns_of_def)

lemma patterns_of_remove1 [simp]:
  "patterns_of c (remove1 (d, p) cps) = (if d = c then remove1 p (patterns_of c cps) else patterns_of c cps)"
  by (induction cps) auto

lemma patterns_of_mem: "p \<in> set (patterns_of c cps) \<longleftrightarrow> (c, p) \<in> set cps"
  by (force simp: patterns_of_def)

lemma subscribe_pattern_ok:
  assumes "ps_ok s" "pattern_ok p"
  shows "\<exists>r s'. pubsubSubscribePattern s c p = Some (r, s') \<and> ps_ok s'"
proof -
  let ?s = "if p \<in> set (pubsub_patterns (clients s c)) then s
    else (upd_client s c (pubsub_patterns_update (\<lambda>xs. xs @ [p])))\<lparr>server_patterns := server_patterns s @ [(c, p)]\<rparr>"
  have "ps_ok ?s"
    using assms by (auto simp: ps_ok_defs subscribers_def)
  then show ?thesis
    using notification_output [of psubscribebulk ?s c "Some p"] only_output_ok
    by (auto simp: pubsubSubscribePattern_def Let_def)
qed

lemma unsubscribe_pattern_ok:
  assumes "ps_ok s"
  shows "\<exists>r s'. pubsubUnsubscribePattern s c p notify = Some (r, s') \<and> ps_ok s'"
proof -
  let ?s = "if p \<in> set (pubsub_patterns (clients s c)) then
      (upd_client s c (pubsub_patterns_update (remove1 p)))\<lparr>server_patterns := remove1 (c, p) (server_patterns s)\<rparr>
    else s"
  have *: "ps_ok ?s"
    using assms by (auto simp: ps_ok_defs subscribers_def distinct_remove1 dest: notin_set_remove1)
  have "p \<in> set (pubsub_patterns (clients s c)) \<Longrightarrow> (c, p) \<in> set (server_patterns s)"
    using assms by (auto simp: ps_ok_defs patterns_of_mem)
  with * show ?thesis
    using notification_output [of punsubscribebulk ?s c "Some p"] only_output_ok
    by (auto simp: pubsubUnsubscribePattern_def Let_def)
qed

section \<open>Publishing reaches exactly the subscribers\<close>

text \<open>The protocol text of a message: a multi bulk reply of bulk strings.\<close>

definition push :: "bytes list \<Rightarrow> bytes" where
  "push xs = num (chr CHR ''*'') (int (length xs)) @ concat (map bulk xs)"

definition message_text :: "bytes \<Rightarrow> bytes \<Rightarrow> bytes" where
  "message_text channel message = push [ctext ''message'', channel, message]"

definition pmessage_text :: "bytes \<Rightarrow> bytes \<Rightarrow> bytes \<Rightarrow> bytes" where
  "pmessage_text pattern channel message = push [ctext ''pmessage'', pattern, channel, message]"

text \<open>\<open>delivered c t s s'\<close>: between \<open>s\<close> and \<open>s'\<close> the text \<open>t d\<close> was added for every client \<open>d\<close>, and nothing else.\<close>

definition delivered :: "(nat \<Rightarrow> bytes) \<Rightarrow> psserver \<Rightarrow> psserver \<Rightarrow> bool" where
  "delivered t s s' \<longleftrightarrow> only_output s s' \<and> (\<forall>d. adds (t d) (out (clients s d)) (out (clients s' d)))"

lemma delivered_nothing: "delivered (\<lambda>_. []) s s"
  by (simp add: delivered_def adds_refl)

lemma delivered_trans: "delivered t s s' \<Longrightarrow> delivered u s' s'' \<Longrightarrow> delivered (\<lambda>d. t d @ u d) s s''"
  by (auto simp: delivered_def intro: only_output_trans adds_trans)

lemma delivered_one:
  "adds t (out (clients s c)) o' \<Longrightarrow> delivered (\<lambda>d. if d = c then t else []) s (upd_client s c (out_update (\<lambda>_. o')))"
  by (simp add: delivered_def adds_refl)

lemma crlf_bulk_text:
  "messagebulk = RawStr (bulk (ctext ''message''))" "pmessagebulk = RawStr (bulk (ctext ''pmessage''))"
  by (simp_all add: bulk_defs bulk_def num_def ctext_def ll_repr_def dec.simps digit_def)

lemma addReply_raw_adds: "\<exists>o'. addReply o1 (RawStr x) = Some o' \<and> adds x o1 o'"
  using addReplyString_adds by (auto simp: addReply_raw)

lemma addReplyBulk_raw_adds: "short x \<Longrightarrow> \<exists>o'. addReplyBulk o1 (RawStr x) = Some o' \<and> adds (bulk x) o1 o'"
  by (rule addReplyBulk_adds) (simp_all add: short_def)

lemma send_message_delivers:
  assumes "short channel" "short message"
  shows "\<exists>s'. send_message channel message s c = Some s' \<and>
    delivered (\<lambda>d. if d = c then message_text channel message else []) s s'"
proof -
  obtain o1 where o1: "addReply (out (clients s c)) (mbulkhdr 3) = Some o1" "adds (num 42 3) (out (clients s c)) o1"
    using addReply_raw_adds unfolding mbulkhdr_def by fastforce
  obtain o2 where o2: "addReply o1 messagebulk = Some o2" "adds (bulk (ctext ''message'')) o1 o2"
    using addReply_raw_adds unfolding crlf_bulk_text by blast
  obtain o3 where o3: "addReplyBulk o2 (RawStr channel :: unit robj) = Some o3" "adds (bulk channel) o2 o3"
    using addReplyBulk_raw_adds [OF assms(1)] by blast
  obtain o4 where o4: "addReplyBulk o3 (RawStr message :: unit robj) = Some o4" "adds (bulk message) o3 o4"
    using addReplyBulk_raw_adds [OF assms(2)] by blast
  have "adds (message_text channel message) (out (clients s c)) o4"
    using adds_trans [OF adds_trans [OF adds_trans [OF o1(2) o2(2)] o3(2)] o4(2)] by (simp add: message_text_def push_def)
  then show ?thesis using o1 o2 o3 o4 delivered_one by (simp add: send_message_def)
qed

lemma send_pmessage_delivers:
  assumes "short pattern" "short channel" "short message"
  shows "\<exists>s'. send_pmessage channel message s (c, pattern) = Some s' \<and>
    delivered (\<lambda>d. if d = c then pmessage_text pattern channel message else []) s s'"
proof -
  obtain o1 where o1: "addReply (out (clients s c)) (mbulkhdr 4) = Some o1" "adds (num 42 4) (out (clients s c)) o1"
    using addReply_raw_adds unfolding mbulkhdr_def by fastforce
  obtain o2 where o2: "addReply o1 pmessagebulk = Some o2" "adds (bulk (ctext ''pmessage'')) o1 o2"
    using addReply_raw_adds unfolding crlf_bulk_text by blast
  obtain o3 where o3: "addReplyBulk o2 (RawStr pattern :: unit robj) = Some o3" "adds (bulk pattern) o2 o3"
    using addReplyBulk_raw_adds [OF assms(1)] by blast
  obtain o4 where o4: "addReplyBulk o3 (RawStr channel :: unit robj) = Some o4" "adds (bulk channel) o3 o4"
    using addReplyBulk_raw_adds [OF assms(2)] by blast
  obtain o5 where o5: "addReplyBulk o4 (RawStr message :: unit robj) = Some o5" "adds (bulk message) o4 o5"
    using addReplyBulk_raw_adds [OF assms(3)] by blast
  have "adds (pmessage_text pattern channel message) (out (clients s c)) o5"
    using adds_trans [OF adds_trans [OF adds_trans [OF adds_trans [OF o1(2) o2(2)] o3(2)] o4(2)] o5(2)]
    by (simp add: pmessage_text_def push_def)
  then show ?thesis using o1 o2 o3 o4 o5 delivered_one by (simp add: send_pmessage_def)
qed

lemma publish_channel_delivers:
  assumes "short channel" "short message" "distinct cs"
  shows "\<exists>s'. publish_channel channel message s cs n = Some (n + length cs, s') \<and>
    delivered (\<lambda>d. if d \<in> set cs then message_text channel message else []) s s'"
  using assms(3)
proof (induction cs arbitrary: s n)
  case Nil
  show ?case by (simp add: delivered_nothing)
next
  case (Cons c cs)
  obtain s1 where s1: "send_message channel message s c = Some s1"
      "delivered (\<lambda>d. if d = c then message_text channel message else []) s s1"
    using send_message_delivers [OF assms(1,2)] by blast
  obtain s2 where s2: "publish_channel channel message s1 cs (n + 1) = Some (n + 1 + length cs, s2)"
      "delivered (\<lambda>d. if d \<in> set cs then message_text channel message else []) s1 s2"
    using Cons by fastforce
  have "(\<lambda>d. (if d = c then message_text channel message else []) @ (if d \<in> set cs then message_text channel message else []))
      = (\<lambda>d. if d \<in> set (c # cs) then message_text channel message else [])"
    using Cons(2) by auto
  with delivered_trans [OF s1(2) s2(2)] s1(1) s2(1) show ?case by simp
qed

text \<open>The meaning of a pattern that has one.\<close>

definition glob_match :: "bytes \<Rightarrow> bytes \<Rightarrow> bool" where
  "glob_match pattern s = (case tokens pattern of None \<Rightarrow> False | Some g \<Rightarrow> matches False g s)"

definition pmessages :: "bytes \<Rightarrow> bytes \<Rightarrow> bytes list \<Rightarrow> bytes" where
  "pmessages channel message ps = concat (map (\<lambda>p. pmessage_text p channel message) (filter (\<lambda>p. glob_match p channel) ps))"

lemma publish_patterns_delivers:
  assumes "short channel" "short message" "channel \<noteq> []" "\<forall>cp \<in> set cps. pattern_ok (snd cp)"
  shows "\<exists>s'. publish_patterns channel message s cps n
      = Some (n + length (filter (\<lambda>cp. glob_match (snd cp) channel) cps), s') \<and>
    delivered (\<lambda>d. pmessages channel message (patterns_of d cps)) s s'"
  using assms(4)
proof (induction cps arbitrary: s n)
  case Nil
  show ?case by (simp add: delivered_nothing pmessages_def)
next
  case (Cons cp cps)
  obtain c p where cp: "cp = (c, p)" by (cases cp)
  obtain g where g: "tokens p = Some g" "short p" using Cons(2) cp by (auto simp: pattern_ok_def)
  have m: "stringmatchlen False p channel 0 0 = Some (glob_match p channel)"
    using stringmatchlen_eq [OF g(1)] assms(3) g(1) by (simp add: glob_match_def)
  show ?case
  proof (cases "glob_match p channel")
    case False
    obtain s' where "publish_patterns channel message s cps n
        = Some (n + length (filter (\<lambda>cp. glob_match (snd cp) channel) cps), s')"
      "delivered (\<lambda>d. pmessages channel message (patterns_of d cps)) s s'"
      using Cons by fastforce
    then show ?thesis using m False cp by (auto simp: pmessages_def if_distrib cong: if_cong)
  next
    case True
    obtain s1 where s1: "send_pmessage channel message s cp = Some s1"
        "delivered (\<lambda>d. if d = c then pmessage_text p channel message else []) s s1"
      using send_pmessage_delivers [OF g(2) assms(1,2)] cp by blast
    obtain s2 where s2: "publish_patterns channel message s1 cps (n + 1)
        = Some (n + 1 + length (filter (\<lambda>cp. glob_match (snd cp) channel) cps), s2)"
        "delivered (\<lambda>d. pmessages channel message (patterns_of d cps)) s1 s2"
      using Cons by fastforce
    have "(\<lambda>d. (if d = c then pmessage_text p channel message else []) @ pmessages channel message (patterns_of d cps))
        = (\<lambda>d. pmessages channel message (patterns_of d (cp # cps)))"
      using True cp by (auto simp: pmessages_def)
    with delivered_trans [OF s1(2) s2(2)] s1(1) s2(1) True m cp show ?thesis by simp
  qed
qed

lemma publish_delivers_aux:
  assumes "ps_ok s" and "short channel" "short message" "channel \<noteq> []"
  shows "\<exists>s'. pubsubPublishMessage s channel message
      = Some (length (subscribers s channel) + length (filter (\<lambda>cp. glob_match (snd cp) channel) (server_patterns s)), s') \<and>
    delivered (\<lambda>d. (if d \<in> set (subscribers s channel) then message_text channel message else []) @
      pmessages channel message (patterns_of d (server_patterns s))) s s'"
proof -
  have "distinct (subscribers s channel)" and ok: "\<forall>cp \<in> set (server_patterns s). pattern_ok (snd cp)"
    using assms(1) by (simp_all add: ps_ok_defs)
  from publish_channel_delivers [OF assms(2,3) this(1), of s 0] obtain s1 where
    s1: "publish_channel channel message s (subscribers s channel) 0 = Some (length (subscribers s channel), s1)"
      "delivered (\<lambda>d. if d \<in> set (subscribers s channel) then message_text channel message else []) s s1"
    by auto
  have s1': "(case server_channels s channel of None \<Rightarrow> Some (0, s)
      | Some cs \<Rightarrow> publish_channel channel message s cs 0) = Some (length (subscribers s channel), s1)"
    using s1(1) by (cases "server_channels s channel") (auto simp: subscribers_def)
  have "server_patterns s1 = server_patterns s" using s1(2) by (simp add: delivered_def only_output_def)
  with publish_patterns_delivers [OF assms(2-4) ok, of s1 "length (subscribers s channel)"] obtain s2 where
    s2: "publish_patterns channel message s1 (server_patterns s1) (length (subscribers s channel))
        = Some (length (subscribers s channel) + length (filter (\<lambda>cp. glob_match (snd cp) channel) (server_patterns s)), s2)"
      "delivered (\<lambda>d. pmessages channel message (patterns_of d (server_patterns s))) s1 s2"
    by auto
  show ?thesis using delivered_trans [OF s1(2) s2(2)] s2(1) s1'
    by (auto simp: pubsubPublishMessage_def)
qed

section \<open>Runs\<close>

definition keeps_ok :: "(psserver \<Rightarrow> bytes \<Rightarrow> (bool \<times> psserver) option) \<Rightarrow> bytes \<Rightarrow> bool" where
  "keeps_ok f x \<longleftrightarrow> (\<forall>s. ps_ok s \<longrightarrow> (\<exists>r s'. f s x = Some (r, s') \<and> ps_ok s'))"

lemma each_ok:
  assumes "\<forall>x \<in> set xs. keeps_ok f x" "ps_ok s"
  shows "\<exists>m s'. each f s xs n = Some (m, s') \<and> ps_ok s'"
  using assms
proof (induction xs arbitrary: s n)
  case (Cons x xs)
  obtain r s1 where s1: "f s x = Some (r, s1)" "ps_ok s1"
    using Cons.prems by (auto simp: keeps_ok_def)
  then obtain m s2 where "each f s1 xs (n + (if r then 1 else 0)) = Some (m, s2)" "ps_ok s2"
    using Cons by fastforce
  with s1 show ?case by simp
qed simp

lemma keeps_ok_ops:
  "keeps_ok (\<lambda>s ch. pubsubSubscribeChannel s c ch) x" "keeps_ok (\<lambda>s ch. pubsubUnsubscribeChannel s c ch notify) x"
  "keeps_ok (\<lambda>s p. pubsubUnsubscribePattern s c p notify) x"
  "pattern_ok x \<Longrightarrow> keeps_ok (\<lambda>s p. pubsubSubscribePattern s c p) x"
  using subscribe_channel_ok unsubscribe_channel_ok unsubscribe_pattern_ok subscribe_pattern_ok
  by (auto simp: keeps_ok_def)

lemma only_output_kept: "ps_ok s \<Longrightarrow> only_output s s' \<Longrightarrow> ps_ok s'"
  by (simp add: only_output_ok)

lemma unsubscribe_all_channels_ok:
  assumes "ps_ok s"
  shows "\<exists>m s'. pubsubUnsubscribeAllChannels iter s c notify = Some (m, s') \<and> ps_ok s'"
proof -
  obtain m s1 where s1: "each (\<lambda>s ch. pubsubUnsubscribeChannel s c ch notify) s (iter (pubsub_channels (clients s c))) 0 = Some (m, s1)"
      "ps_ok s1"
    using each_ok [OF _ assms] keeps_ok_ops(2) by blast
  then show ?thesis
    using notification_output [of unsubscribebulk s1 c None] only_output_kept [OF s1(2)]
    by (auto simp: pubsubUnsubscribeAllChannels_def)
qed

lemma unsubscribe_all_patterns_ok:
  assumes "ps_ok s"
  shows "\<exists>m s'. pubsubUnsubscribeAllPatterns s c notify = Some (m, s') \<and> ps_ok s'"
proof -
  obtain m s1 where s1: "each (\<lambda>s p. pubsubUnsubscribePattern s c p notify) s (pubsub_patterns (clients s c)) 0 = Some (m, s1)"
      "ps_ok s1"
    using each_ok [OF _ assms] keeps_ok_ops(3) by blast
  then show ?thesis
    using notification_output [of punsubscribebulk s1 c None] only_output_kept [OF s1(2)]
    by (auto simp: pubsubUnsubscribeAllPatterns_def)
qed

fun pscmd_ok :: "pscmd \<Rightarrow> bool" where
  "pscmd_ok (Psubscribe ps) \<longleftrightarrow> (\<forall>p \<in> set ps. pattern_ok p)"
| "pscmd_ok (Publish ch m) \<longleftrightarrow> ch \<noteq> [] \<and> short ch \<and> short m"
| "pscmd_ok _ \<longleftrightarrow> True"

lemma publish_ok:
  assumes "ps_ok s" "ch \<noteq> []" "short ch" "short m"
  shows "\<exists>s'. publishCommand s c ch m = Some s' \<and> ps_ok s'"
proof -
  obtain n s1 where s1: "pubsubPublishMessage s ch m = Some (n, s1)" "only_output s s1"
    using publish_delivers_aux [OF assms(1,3,4,2)] by (auto simp: delivered_def)
  obtain o1 where "addReplyLongLong (out (clients s1 c)) (int n) = Some o1" using addReplyLongLong_some by blast
  then show ?thesis
    using s1 only_output_kept [OF only_output_kept [OF assms(1) s1(2)] only_output_out]
    by (auto simp: publishCommand_def)
qed

lemma do_pubsub_ok:
  assumes "ps_ok s" "pscmd_ok cmd"
  shows "\<exists>s'. do_pubsub iter s c cmd = Some s' \<and> ps_ok s'"
proof (cases cmd)
  case (Subscribe chs)
  then show ?thesis
    using each_ok [of chs "\<lambda>s ch. pubsubSubscribeChannel s c ch", OF _ assms(1), of 0] keeps_ok_ops(1)
    by (auto simp: subscribeCommand_def)
next
  case (Unsubscribe chs)
  then show ?thesis
    using each_ok [of chs "\<lambda>s ch. pubsubUnsubscribeChannel s c ch True", OF _ assms(1), of 0] keeps_ok_ops(2)
      unsubscribe_all_channels_ok [OF assms(1), of iter c True]
    by (auto simp: unsubscribeCommand_def)
next
  case (Psubscribe ps)
  then show ?thesis
    using each_ok [of ps "\<lambda>s p. pubsubSubscribePattern s c p", OF _ assms(1), of 0] keeps_ok_ops(4) assms(2)
    by (auto simp: psubscribeCommand_def)
next
  case (Punsubscribe ps)
  then show ?thesis
    using each_ok [of ps "\<lambda>s p. pubsubUnsubscribePattern s c p True", OF _ assms(1), of 0] keeps_ok_ops(3)
      unsubscribe_all_patterns_ok [OF assms(1), of c True]
    by (auto simp: punsubscribeCommand_def)
next
  case (Publish ch m)
  then show ?thesis using publish_ok assms by auto
next
  case Free
  obtain m s1 where "pubsubUnsubscribeAllChannels iter s c False = Some (m, s1)" "ps_ok s1"
    using unsubscribe_all_channels_ok [OF assms(1)] by blast
  moreover from this(2) obtain m' s2 where "pubsubUnsubscribeAllPatterns s1 c False = Some (m', s2)" "ps_ok s2"
    using unsubscribe_all_patterns_ok by blast
  ultimately show ?thesis using Free by (simp add: free_subscriptions_def)
qed

lemma run_pubsub_ok:
  "ps_ok s \<Longrightarrow> \<forall>e \<in> set es. pscmd_ok (snd e) \<Longrightarrow> \<exists>s'. run_pubsub iter s es = Some s' \<and> ps_ok s'"
proof (induction es arbitrary: s)
  case (Cons e es)
  then show ?case using do_pubsub_ok [of s "snd e" iter "fst e"] by fastforce
qed simp

definition no_subscriptions :: "(nat \<Rightarrow> oclient) \<Rightarrow> psserver" where
  "no_subscriptions os =
     \<lparr>clients = \<lambda>c. \<lparr>out = os c, pubsub_channels = [], pubsub_patterns = []\<rparr>, server_channels = \<lambda>_. None, server_patterns = []\<rparr>"

lemma no_subscriptions_ok: "ps_ok (no_subscriptions os)"
  by (simp add: no_subscriptions_def ps_ok_defs subscribers_def)


definition sample_subs :: "(nat \<times> pscmd) list" where
  "sample_subs = [(1, Subscribe [ctext ''news'']), (2, Psubscribe [ctext ''n[a-f]*'']), (3, Psubscribe [ctext ''x?'']), (1, Free)]"


end
