(* ===== verification/Keys.thy ===== *)
theory Keys
  imports Glob Keyspace
begin

text \<open>
  The \<^verbatim>\<open>KEYS\<close> command of \<^verbatim>\<open>debug/redis/src/db.c\<close>. The order in which the safe
  iterator of the key space visits the keys is the parameter \<open>order\<close>; deleting the key it has
  just returned does not change what is visited later.
\<close>

fun keys_loop :: "bytes \<Rightarrow> bool \<Rightarrow> 'o server \<Rightarrow> nat \<Rightarrow> bytes list \<Rightarrow> ('o server \<times> bytes list) option" where
  "keys_loop pattern allkeys s i [] = Some (s, [])"
| "keys_loop pattern allkeys s i (key # keys) =
     do { m \<leftarrow> (if allkeys then Some True else stringmatchlen False pattern key 0 0);
          if m then
            do { (expired, s) \<leftarrow> expireIfNeeded s i key;
                 (s, ks) \<leftarrow> keys_loop pattern allkeys s i keys;
                 Some (s, if expired then ks else key # ks) }
          else keys_loop pattern allkeys s i keys }"

definition keysCommand :: "bytes list \<Rightarrow> bytes \<Rightarrow> 'o command" where
  "keysCommand order pattern s i =
     do { p0 \<leftarrow> getc pattern 0;
          allkeys \<leftarrow> (if p0 = chr CHR ''*'' then map_option (\<lambda>p1. p1 = 0) (getc pattern 1) else Some False);
          (s, ks) \<leftarrow> keys_loop pattern allkeys s i order;
          Some (s, RMulti (map RBulk ks)) }"

section \<open>The answer\<close>

text \<open>The keys that \<open>expireIfNeeded\<close> reports as expired, on a slave too, where they are not deleted.\<close>

definition past :: "'o server \<Rightarrow> nat \<Rightarrow> bytes \<Rightarrow> bool" where
  "past s i key \<longleftrightarrow> (case expires (dbs s i) key of None \<Rightarrow> False
     | Some when \<Rightarrow> 0 \<le> when \<and> \<not> loading s \<and> when < mstime s)"

lemma expire_reports:
  assumes "keys_ok s"
  shows "\<exists>s'. expireIfNeeded s i key = Some (past s i key, s') \<and> keys_ok s' \<and> eff s s' (vol s i key) []"
proof -
  obtain b s' where e: "expireIfNeeded s i key = Some (b, s')" "keys_ok s'" "eff s s' (vol s i key) []"
    using expireIfNeeded_ok [OF assms] by blast
  have "b = past s i key"
    using e(1) keys_ok_expires [OF assms, of i key]
    by (cases "expires (dbs s i) key")
       (auto simp: expireIfNeeded_def getExpire_def past_def dbDelete_def Let_def propagateExpire_def upd_db_def split: if_splits)
  with e show ?thesis by blast
qed

lemma eff_past:
  assumes "eff s s' (vol s i key) new" "k \<noteq> key"
  shows "past s' i k = past s i k \<and> lapsed s' i k = lapsed s i k"
proof -
  have "(i, k) \<notin> vol s i key" using assms(2) by (simp add: vol_def)
  with assms(1) have "expires (dbs s' i) k = expires (dbs s i) k" "loading s' = loading s" "mstime s' = mstime s"
      "masterhost s' = masterhost s"
    by (auto simp: eff_def keyval_def)
  then show ?thesis by (cases "expires (dbs s i) k") (simp_all add: past_def lapsed_def)
qed

definition selects :: "bool \<Rightarrow> token list \<Rightarrow> bytes \<Rightarrow> bool" where
  "selects allkeys g key \<longleftrightarrow> allkeys \<or> matches False g key"

lemma keys_loop_spec:
  assumes "keys_ok s" "distinct keys" "tokens pattern = Some g"
    "[] \<in> set keys \<Longrightarrow> pattern = [] \<or> hd pattern \<notin> {chr CHR ''['', chr CHR 0x5C, 0}"
  shows "\<exists>s'. keys_loop pattern allkeys s i keys = Some (s', filter (\<lambda>k. selects allkeys g k \<and> \<not> past s i k) keys) \<and> keys_ok s' \<and>
    eff s s' {(i, k) | k. k \<in> set keys \<and> lapsed s i k} []"
  using assms(1,2,4)
proof (induction keys arbitrary: s)
  case Nil
  then show ?case by (simp add: eff_refl)
next
  case (Cons key keys)
  let ?L = "\<lambda>s keys. {(i, k) | k. k \<in> set keys \<and> lapsed s i k}"
  have m: "(if allkeys then Some True else stringmatchlen False pattern key 0 0) = Some (selects allkeys g key)"
    using stringmatchlen_eq [OF assms(3), of key False] Cons.prems(3) by (auto simp: selects_def)
  show ?case
  proof (cases "selects allkeys g key")
    case False
    obtain s' where "keys_loop pattern allkeys s i keys = Some (s', filter (\<lambda>k. selects allkeys g k \<and> \<not> past s i k) keys)"
        "keys_ok s'" "eff s s' (?L s keys) []"
      using Cons.IH [OF Cons.prems(1)] Cons.prems(2,3) by auto
    then show ?thesis using m False by (fastforce intro: eff_mono)
  next
    case True
    obtain s1 where s1: "expireIfNeeded s i key = Some (past s i key, s1)" "keys_ok s1" "eff s s1 (vol s i key) []"
      using expire_reports [OF Cons.prems(1)] by blast
    obtain s' where s': "keys_loop pattern allkeys s1 i keys = Some (s', filter (\<lambda>k. selects allkeys g k \<and> \<not> past s1 i k) keys)"
        "keys_ok s'" "eff s1 s' (?L s1 keys) []"
      using Cons.IH [OF s1(2)] Cons.prems(2,3) by auto
    have same: "past s1 i k = past s i k \<and> lapsed s1 i k = lapsed s i k" if "k \<in> set keys" for k
      using eff_past [OF s1(3), of k] that Cons.prems(2) by fastforce
    then have f: "filter (\<lambda>k. selects allkeys g k \<and> \<not> past s1 i k) keys = filter (\<lambda>k. selects allkeys g k \<and> \<not> past s i k) keys"
      by (auto intro: filter_cong)
    have "eff s s' (vol s i key \<union> ?L s1 keys) []" using eff_trans [OF s1(3) s'(3)] by simp
    then have "eff s s' (?L s (key # keys)) []"
      by (rule eff_mono) (use same in \<open>auto simp: vol_def\<close>)
    with m True s1(1) s' f show ?thesis by simp
  qed
qed



end
