(* ===== verification/Set_Type.thy ===== *)
theory Set_Type
  imports Intset Redis_Object "HOL-Library.Monad_Syntax"
begin

text \<open>
  The set type of \<^verbatim>\<open>debug/redis/src/t_set.c\<close>: a set is an integer set (theory Intset) as long as its
  elements are integers and not too many, and a hash table of string objects otherwise. The hash table
  compares objects by their text (\<open>dictEncObjKeyCompare\<close>); it is the list of its keys (the hash table
  itself is the subject of theory Dict), and \<open>walk\<close> gives the order in which an iterator delivers them.
  \<open>None\<close> is a failed assertion or a panic.
\<close>

type_synonym elem = "unit robj"

datatype set_obj = INTSET intset | HT "elem list"

record set_env =
  set_max_intset_entries :: nat
  is_junk :: "nat \<Rightarrow> byte"
  walk :: "elem list \<Rightarrow> elem list"

section \<open>The hash table of a set\<close>

definition dictEncObjKeyCompare :: "elem \<Rightarrow> elem \<Rightarrow> bool" where
  "dictEncObjKeyCompare o1 o2 =
     (case (o1, o2) of
        (IntStr v, IntStr w) \<Rightarrow> v = w
      | _ \<Rightarrow> getDecodedObject o1 = getDecodedObject o2)"

definition ht_find :: "elem list \<Rightarrow> elem \<Rightarrow> bool" where
  "ht_find xs v = list_ex (\<lambda>x. dictEncObjKeyCompare x v) xs"

definition ht_add :: "elem list \<Rightarrow> elem \<Rightarrow> elem list \<times> bool" where
  "ht_add xs v = (if ht_find xs v then (xs, False) else (v # xs, True))"

definition ht_delete :: "elem list \<Rightarrow> elem \<Rightarrow> elem list \<times> bool" where
  "ht_delete xs v = (filter (\<lambda>x. \<not> dictEncObjKeyCompare x v) xs, ht_find xs v)"

section \<open>Iterators\<close>

datatype set_iter = HT_iter "elem list" | IS_iter intset nat

datatype element = ObjEle elem | LlEle int

definition setTypeInitIterator :: "set_env \<Rightarrow> set_obj \<Rightarrow> set_iter" where
  "setTypeInitIterator env subject = (case subject of HT xs \<Rightarrow> HT_iter (walk env xs) | INTSET is \<Rightarrow> IS_iter is 0)"

fun setTypeNext :: "set_iter \<Rightarrow> (element \<times> set_iter) option" where
  "setTypeNext (HT_iter []) = None"
| "setTypeNext (HT_iter (x # xs)) = Some (ObjEle x, HT_iter xs)"
| "setTypeNext (IS_iter is ii) =
     (case intsetGet is ii of None \<Rightarrow> None | Some v \<Rightarrow> Some (LlEle v, IS_iter is (ii + 1)))"

definition ele_object :: "element \<Rightarrow> elem" where
  "ele_object x = (case x of LlEle v \<Rightarrow> createStringObjectFromLongLong v | ObjEle o' \<Rightarrow> o')"

definition setTypeNextObject :: "set_iter \<Rightarrow> (elem \<times> set_iter) option" where
  "setTypeNextObject si = map_option (apfst ele_object) (setTypeNext si)"

fun iter_left :: "set_iter \<Rightarrow> nat" where
  "iter_left (HT_iter xs) = length xs"
| "iter_left (IS_iter is ii) = is_length is - ii"

lemma setTypeNext_left: "setTypeNext si = Some (x, si') \<Longrightarrow> iter_left si' < iter_left si"
  by (cases si rule: setTypeNext.cases) (auto simp: intsetGet_def split: option.splits if_splits)

text \<open>The elements in the order of the loops \<^verbatim>\<open>while (setTypeNext(...) != -1)\<close>.\<close>

function set_walk :: "set_iter \<Rightarrow> element list" where
  "set_walk si = (case setTypeNext si of None \<Rightarrow> [] | Some (x, si) \<Rightarrow> x # set_walk si)"
  by pat_completeness auto
termination
  by (relation "measure iter_left") (auto dest: setTypeNext_left)

declare set_walk.simps [simp del]

definition elements :: "set_env \<Rightarrow> set_obj \<Rightarrow> element list" where
  "elements env e = set_walk (setTypeInitIterator env e)"

section \<open>Operations\<close>

definition setTypeCreate :: "elem \<Rightarrow> set_obj option" where
  "setTypeCreate v = map_option (\<lambda>r. if r \<noteq> None then INTSET intsetNew else HT []) (isObjectRepresentableAsLongLong v)"

fun convert_loop :: "elem list \<Rightarrow> elem list \<Rightarrow> elem list option" where
  "convert_loop [] d = Some d"
| "convert_loop (element # es) d = (case ht_add d element of (d, ok) \<Rightarrow> if ok then convert_loop es d else None)"

definition setTypeConvert :: "set_env \<Rightarrow> set_obj \<Rightarrow> set_obj option" where
  "setTypeConvert env e =
     (case e of
        HT _ \<Rightarrow> None
      | INTSET _ \<Rightarrow> map_option HT (convert_loop (map ele_object (elements env e)) []))"

definition setTypeAdd :: "set_env \<Rightarrow> set_obj \<Rightarrow> elem \<Rightarrow> (set_obj \<times> bool) option" where
  "setTypeAdd env subject v =
     (case subject of
        HT d \<Rightarrow> (case ht_add d v of (d, ok) \<Rightarrow> Some (HT d, ok))
      | INTSET is \<Rightarrow>
          do { r \<leftarrow> isObjectRepresentableAsLongLong v;
               case r of
                 Some llval \<Rightarrow>
                   (case intsetAdd (is_junk env) is llval of (is, success) \<Rightarrow>
                      if success then
                        if intsetLen is > set_max_intset_entries env
                        then do { e \<leftarrow> setTypeConvert env (INTSET is); Some (e, True) }
                        else Some (INTSET is, True)
                      else Some (INTSET is, False))
               | None \<Rightarrow>
                   do { e \<leftarrow> setTypeConvert env subject;
                        case e of
                          HT d \<Rightarrow> (case ht_add d v of (d, ok) \<Rightarrow> if ok then Some (HT d, True) else None)
                        | INTSET _ \<Rightarrow> None } })"

definition setTypeRemove :: "set_env \<Rightarrow> set_obj \<Rightarrow> elem \<Rightarrow> (set_obj \<times> bool) option" where
  "setTypeRemove env setobj v =
     (case setobj of
        HT d \<Rightarrow> (case ht_delete d v of (d, ok) \<Rightarrow> Some (HT d, ok))
      | INTSET is \<Rightarrow>
          do { r \<leftarrow> isObjectRepresentableAsLongLong v;
               case r of
                 Some llval \<Rightarrow> (case intsetRemove (is_junk env) is llval of (is, success) \<Rightarrow> Some (INTSET is, success))
               | None \<Rightarrow> Some (setobj, False) })"

definition setTypeIsMember :: "set_obj \<Rightarrow> elem \<Rightarrow> bool option" where
  "setTypeIsMember subject v =
     (case subject of
        HT d \<Rightarrow> Some (ht_find d v)
      | INTSET is \<Rightarrow> map_option (\<lambda>r. case r of Some llval \<Rightarrow> intsetFind is llval | None \<Rightarrow> False) (isObjectRepresentableAsLongLong v))"

definition setTypeSize :: "set_obj \<Rightarrow> nat" where
  "setTypeSize subject = (case subject of HT d \<Rightarrow> length d | INTSET is \<Rightarrow> intsetLen is)"

text \<open>\<open>rand\<close> is the number that the generator gives; which key of a table it selects is up to the table.\<close>

definition setTypeRandomElement :: "nat \<Rightarrow> set_obj \<Rightarrow> element" where
  "setTypeRandomElement rand setobj =
     (case setobj of HT d \<Rightarrow> ObjEle (d ! (rand mod length d)) | INTSET is \<Rightarrow> LlEle (intsetRandom rand is))"

section \<open>The set of texts\<close>

definition elem_ok :: "elem \<Rightarrow> bool" where
  "elem_ok o' \<longleftrightarrow> is_string o' \<and> obj_ok o'"

definition members :: "set_obj \<Rightarrow> bytes set" where
  "members e = (case e of INTSET is \<Rightarrow> ll_repr ` iset is | HT d \<Rightarrow> str_of ` set d)"

definition set_env_ok :: "set_env \<Rightarrow> bool" where
  "set_env_ok env \<longleftrightarrow> set_max_intset_entries env < 2 ^ 29 - 2 \<and> (\<forall>xs. mset (walk env xs) = mset xs)"

definition ht_ok :: "elem list \<Rightarrow> bool" where
  "ht_ok d \<longleftrightarrow> list_all elem_ok d \<and> distinct (map str_of d)"

definition set_ok :: "set_env \<Rightarrow> set_obj \<Rightarrow> bool" where
  "set_ok env e \<longleftrightarrow> set_env_ok env \<and>
     (case e of
        INTSET is \<Rightarrow> intset_ok is \<and> intsetLen is \<le> set_max_intset_entries env
      | HT d \<Rightarrow> ht_ok d)"

lemma ll_repr_inj: "is_ll v \<Longrightarrow> is_ll w \<Longrightarrow> ll_repr v = ll_repr w \<longleftrightarrow> v = w"
  by (metis string2ll_repr option.inject)

lemma compare_text: "elem_ok a \<Longrightarrow> elem_ok b \<Longrightarrow> dictEncObjKeyCompare a b \<longleftrightarrow> str_of a = str_of b"
  by (auto simp: dictEncObjKeyCompare_def elem_ok_def getDecodedObject_ok ll_repr_inj split: robj.split)

lemma ht_find_text: "ht_ok d \<Longrightarrow> elem_ok v \<Longrightarrow> ht_find d v \<longleftrightarrow> str_of v \<in> str_of ` set d"
  by (auto simp: ht_find_def ht_ok_def list_ex_iff list_all_iff compare_text intro: rev_image_eqI)

lemma ht_add_ok:
  assumes "ht_ok d" "elem_ok v"
  shows "\<exists>d'. ht_add d v = (d', str_of v \<notin> str_of ` set d) \<and> ht_ok d' \<and> str_of ` set d' = insert (str_of v) (str_of ` set d)"
  using assms ht_find_text [OF assms] by (auto simp: ht_add_def ht_ok_def)

lemma ht_delete_ok:
  assumes "ht_ok d" "elem_ok v"
  shows "\<exists>d'. ht_delete d v = (d', str_of v \<in> str_of ` set d) \<and> ht_ok d' \<and> str_of ` set d' = str_of ` set d - {str_of v}"
proof -
  let ?d = "filter (\<lambda>x. \<not> dictEncObjKeyCompare x v) d"
  have c: "dictEncObjKeyCompare x v \<longleftrightarrow> str_of x = str_of v" if "x \<in> set d" for x
    using that assms by (auto simp: ht_ok_def list_all_iff compare_text)
  have "ht_ok ?d" using assms by (auto simp: ht_ok_def list_all_iff intro: distinct_map_filter)
  moreover have "str_of ` set ?d = str_of ` set d - {str_of v}" using c by auto
  ultimately show ?thesis using ht_find_text [OF assms] by (simp add: ht_delete_def)
qed

lemma is_ll_iset: "intset_ok is \<Longrightarrow> v \<in> iset is \<Longrightarrow> is_ll v"
  using vals_in_range [of "is" v] by (auto simp: intset_ok_def sfits_def is_ll_def)

lemma sfits_is_ll: "is_ll v \<longleftrightarrow> sfits 8 v"
  by (auto simp: is_ll_def sfits_def)

lemma repr_iset: "intset_ok is \<Longrightarrow> is_ll v \<Longrightarrow> ll_repr v \<in> ll_repr ` iset is \<longleftrightarrow> v \<in> iset is"
  using is_ll_iset ll_repr_inj by blast

text \<open>An object is an integer exactly when its text is the notation of a 64-bit integer.\<close>

lemma representable:
  assumes "elem_ok v"
  shows "\<exists>r. isObjectRepresentableAsLongLong v = Some r \<and>
    (case r of Some w \<Rightarrow> is_ll w \<and> str_of v = ll_repr w | None \<Rightarrow> \<forall>w. is_ll w \<longrightarrow> str_of v \<noteq> ll_repr w)"
proof (cases v)
  case (RawStr s)
  show ?thesis
  proof (cases "string2ll s")
    case None
    then show ?thesis using RawStr string2ll_repr by (force simp: isObjectRepresentableAsLongLong_def)
  next
    case (Some w)
    then show ?thesis using RawStr string2ll_sound [OF Some] by (simp add: isObjectRepresentableAsLongLong_def)
  qed
next
  case (IntStr w)
  then show ?thesis using assms by (simp add: isObjectRepresentableAsLongLong_def elem_ok_def)
next
  case Other
  then show ?thesis using assms by (simp add: elem_ok_def is_string_def)
qed

section \<open>Iteration visits every element once\<close>

lemma set_walk_ht: "set_walk (HT_iter xs) = map ObjEle xs"
  by (induction xs) (simp_all add: set_walk.simps)

lemma set_walk_is: "intset_ok is \<Longrightarrow> ii \<le> is_length is \<Longrightarrow> set_walk (IS_iter is ii) = map LlEle (drop ii (vals is))"
proof (induction "is_length is - ii" arbitrary: ii)
  case 0
  then show ?case by (simp add: set_walk.simps intsetGet_def)
next
  case (Suc n)
  then have "ii < is_length is" by simp
  moreover have "set_walk (IS_iter is (ii + 1)) = map LlEle (drop (ii + 1) (vals is))" using Suc by simp
  ultimately show ?case using Suc.prems(1)
    by (subst set_walk.simps) (simp add: intsetGet_def intsetGet0_vals flip: Cons_nth_drop_Suc)
qed

definition ele_ok :: "element \<Rightarrow> bool" where
  "ele_ok x \<longleftrightarrow> elem_ok (ele_object x) \<and> (case x of LlEle v \<Rightarrow> is_ll v | ObjEle _ \<Rightarrow> True)"

definition ele_text :: "element \<Rightarrow> bytes" where
  "ele_text x = str_of (ele_object x)"

lemma ele_int: "is_ll v \<Longrightarrow> ele_ok (LlEle v) \<and> ele_object (LlEle v) = IntStr v \<and> ele_text (LlEle v) = ll_repr v"
  by (simp add: ele_ok_def ele_text_def ele_object_def elem_ok_def createStringObjectFromLongLong_ok is_string_def)

lemma elements_ok:
  assumes "set_ok env e"
  shows "list_all ele_ok (elements env e) \<and> distinct (map ele_text (elements env e)) \<and>
    ele_text ` set (elements env e) = members e \<and> length (elements env e) = setTypeSize e"
proof (cases e)
  case (INTSET "is")
  then have ok: "intset_ok is" using assms by (simp add: set_ok_def)
  have e: "elements env (INTSET is) = map LlEle (vals is)"
    using set_walk_is [OF ok, of 0] by (simp add: elements_def setTypeInitIterator_def)
  have l: "is_ll v" if "v \<in> iset is" for v using is_ll_iset [OF ok that] .
  have "distinct (vals is)" using ok strict_sorted_iff [of "vals is"] by (simp add: intset_ok_def)
  then have "distinct (map (ele_text \<circ> LlEle) (vals is))"
    using l by (auto simp: distinct_map inj_on_def ele_int ll_repr_inj)
  moreover have "ele_text ` LlEle ` iset is = ll_repr ` iset is" using l by (force simp: ele_int)
  ultimately show ?thesis using l INTSET
    by (simp add: e members_def list_all_iff ele_int setTypeSize_def intsetLen_def)
next
  case (HT d)
  have d: "ht_ok d" "mset (walk env d) = mset d" using assms HT by (simp_all add: set_ok_def set_env_ok_def)
  have e: "elements env (HT d) = map ObjEle (walk env d)"
    by (simp add: elements_def setTypeInitIterator_def set_walk_ht)
  have t: "ele_text \<circ> ObjEle = str_of" "ele_ok (ObjEle x) = elem_ok x" for x
    by (simp_all add: fun_eq_iff ele_text_def ele_object_def ele_ok_def)
  have "mset (map str_of (walk env d)) = mset (map str_of d)" using d(2) by simp
  then have "distinct (map str_of (walk env d))" using d(1) mset_eq_imp_distinct_iff unfolding ht_ok_def by blast
  moreover have "set (walk env d) = set d" "length (walk env d) = length d"
    using mset_eq_setD [OF d(2)] mset_eq_length [OF d(2)] by simp_all
  ultimately show ?thesis using d(1) HT
    by (simp add: e t members_def list_all_iff ht_ok_def setTypeSize_def image_image ele_text_def ele_object_def)
qed

lemma card_members: "set_ok env e \<Longrightarrow> card (members e) = setTypeSize e"
  using elements_ok [of env e] distinct_card [of "map ele_text (elements env e)"] by simp

lemma finite_members [simp]: "finite (members e)"
  by (cases e) (simp_all add: members_def)

section \<open>The operations act on the set of texts\<close>

lemma convert_loop_ok:
  assumes "list_all elem_ok es" "distinct (map str_of es)" "ht_ok d" "str_of ` set es \<inter> str_of ` set d = {}"
  shows "\<exists>d'. convert_loop es d = Some d' \<and> ht_ok d' \<and> str_of ` set d' = str_of ` set es \<union> str_of ` set d"
  using assms
proof (induction es arbitrary: d)
  case (Cons x es)
  obtain d1 where d1: "ht_add d x = (d1, True)" "ht_ok d1" "str_of ` set d1 = insert (str_of x) (str_of ` set d)"
    using ht_add_ok [of d x] Cons.prems by auto
  then show ?case using Cons.IH [of d1] Cons.prems by auto
qed simp

lemma setTypeConvert_ok:
  assumes "set_env_ok env" "intset_ok is"
  shows "\<exists>d. setTypeConvert env (INTSET is) = Some (HT d) \<and> ht_ok d \<and> str_of ` set d = members (INTSET is)"
proof -
  have e: "elements env (INTSET is) = map LlEle (vals is)"
    using set_walk_is [OF assms(2), of 0] by (simp add: elements_def setTypeInitIterator_def)
  have l: "is_ll v" if "v \<in> iset is" for v using is_ll_iset [OF assms(2) that] .
  have "distinct (vals is)" using assms(2) strict_sorted_iff [of "vals is"] by (simp add: intset_ok_def)
  then have "distinct (map (str_of \<circ> ele_object \<circ> LlEle) (vals is))"
    using l by (auto simp: distinct_map inj_on_def ele_int ll_repr_inj)
  moreover have "list_all elem_ok (map (ele_object \<circ> LlEle) (vals is))" using l ele_int [unfolded ele_ok_def] by (force simp: list_all_iff)
  moreover have "str_of ` ele_object ` LlEle ` iset is = ll_repr ` iset is" using l by (force simp: ele_int)
  then have "str_of ` (\<lambda>x. ele_object (LlEle x)) ` iset is = ll_repr ` iset is" by (simp add: image_image)
  ultimately show ?thesis
    using convert_loop_ok [of "map ele_object (map LlEle (vals is))" "[]"]
    by (auto simp: setTypeConvert_def e ht_ok_def members_def comp_assoc)
qed

lemma setTypeAdd_ok:
  assumes "set_ok env e" "elem_ok v"
  shows "\<exists>e'. setTypeAdd env e v = Some (e', str_of v \<notin> members e) \<and> set_ok env e' \<and> members e' = insert (str_of v) (members e)"
proof (cases e)
  case (HT d)
  then show ?thesis using assms ht_add_ok [of d v] by (auto simp: setTypeAdd_def set_ok_def members_def)
next
  case (INTSET "is")
  have ok: "intset_ok is" "intsetLen is \<le> set_max_intset_entries env" "set_env_ok env" using assms INTSET by (simp_all add: set_ok_def)
  obtain r where r: "isObjectRepresentableAsLongLong v = Some r"
    "case r of Some w \<Rightarrow> is_ll w \<and> str_of v = ll_repr w | None \<Rightarrow> \<forall>w. is_ll w \<longrightarrow> str_of v \<noteq> ll_repr w"
    using representable [OF assms(2)] by blast
  show ?thesis
  proof (cases r)
    case None
    obtain d where d: "setTypeConvert env e = Some (HT d)" "ht_ok d" "str_of ` set d = members e"
      using setTypeConvert_ok [OF ok(3,1)] INTSET by auto
    have n: "str_of v \<notin> members e" using r(2) None is_ll_iset [OF ok(1)] INTSET by (auto simp: members_def)
    then show ?thesis using ht_add_ok [OF d(2) assms(2)] d r(1) None INTSET ok(3)
      by (auto simp: setTypeAdd_def set_ok_def members_def)
  next
    case (Some w)
    then have w: "is_ll w" "str_of v = ll_repr w" using r(2) by simp_all
    have "(is_length is + 1) * 8 < 2 ^ 32" using ok(2,3) by (simp add: set_env_ok_def intsetLen_def)
    then obtain is' where is': "intsetAdd (is_junk env) is w = (is', w \<notin> iset is)" "intset_ok is'" "iset is' = insert w (iset is)"
      using intsetAdd_ok [OF ok(1)] w(1) sfits_is_ll by blast
    have m: "members (INTSET is') = insert (str_of v) (members e)" "w \<in> iset is \<longleftrightarrow> str_of v \<in> members e"
      using is'(3) w INTSET repr_iset [OF ok(1)] by (auto simp: members_def)
    obtain d where d: "setTypeConvert env (INTSET is') = Some (HT d)" "ht_ok d" "str_of ` set d = members (INTSET is')"
      using setTypeConvert_ok [OF ok(3) is'(2)] by auto
    have "w \<in> iset is \<Longrightarrow> intsetLen is' = intsetLen is"
      using card_iset [OF is'(2)] card_iset [OF ok(1)] is'(3) by (simp add: intsetLen_def insert_absorb)
    then show ?thesis using r(1) Some is' m d ok INTSET
      by (auto simp: setTypeAdd_def set_ok_def members_def)
  qed
qed

lemma setTypeRemove_ok:
  assumes "set_ok env e" "elem_ok v"
  shows "\<exists>e'. setTypeRemove env e v = Some (e', str_of v \<in> members e) \<and> set_ok env e' \<and> members e' = members e - {str_of v}"
proof (cases e)
  case (HT d)
  then show ?thesis using assms ht_delete_ok [of d v] by (auto simp: setTypeRemove_def set_ok_def members_def)
next
  case (INTSET "is")
  have ok: "intset_ok is" "intsetLen is \<le> set_max_intset_entries env" "set_env_ok env" using assms INTSET by (simp_all add: set_ok_def)
  obtain r where r: "isObjectRepresentableAsLongLong v = Some r"
    "case r of Some w \<Rightarrow> is_ll w \<and> str_of v = ll_repr w | None \<Rightarrow> \<forall>w. is_ll w \<longrightarrow> str_of v \<noteq> ll_repr w"
    using representable [OF assms(2)] by blast
  show ?thesis
  proof (cases r)
    case None
    then have "str_of v \<notin> members e" using r(2) is_ll_iset [OF ok(1)] INTSET by (auto simp: members_def)
    then show ?thesis using r(1) None INTSET assms(1) by (simp add: setTypeRemove_def)
  next
    case (Some w)
    then have w: "is_ll w" "str_of v = ll_repr w" using r(2) by simp_all
    obtain is' where is': "intsetRemove (is_junk env) is w = (is', w \<in> iset is)" "intset_ok is'" "iset is' = iset is - {w}"
      using intstore.rem_law [OF ok(1)] by blast
    have "card (iset is') \<le> card (iset is)" using is'(3) by (simp add: card_Diff1_le)
    then have "intsetLen is' \<le> intsetLen is" using card_iset [OF is'(2)] card_iset [OF ok(1)] by (simp add: intsetLen_def)
    moreover have "ll_repr ` (iset is - {w}) = ll_repr ` iset is - {ll_repr w}"
      using is_ll_iset [OF ok(1)] w(1) ll_repr_inj by auto
    ultimately show ?thesis using r(1) Some is' w ok INTSET repr_iset [OF ok(1) w(1)]
      by (simp add: setTypeRemove_def set_ok_def members_def)
  qed
qed

lemma setTypeIsMember_ok:
  assumes "set_ok env e" "elem_ok v"
  shows "setTypeIsMember e v = Some (str_of v \<in> members e)"
proof (cases e)
  case (HT d)
  then show ?thesis using assms ht_find_text [of d v] by (simp add: setTypeIsMember_def set_ok_def members_def)
next
  case (INTSET "is")
  have ok: "intset_ok is" using assms INTSET by (simp add: set_ok_def)
  obtain r where r: "isObjectRepresentableAsLongLong v = Some r"
    "case r of Some w \<Rightarrow> is_ll w \<and> str_of v = ll_repr w | None \<Rightarrow> \<forall>w. is_ll w \<longrightarrow> str_of v \<noteq> ll_repr w"
    using representable [OF assms(2)] by blast
  show ?thesis
  proof (cases r)
    case None
    then show ?thesis using r is_ll_iset [OF ok] INTSET by (auto simp: setTypeIsMember_def members_def)
  next
    case (Some w)
    then show ?thesis using r repr_iset [OF ok, of w] intstore.mem_law [OF ok, of w] INTSET
      by (simp add: setTypeIsMember_def members_def)
  qed
qed

lemma setTypeCreate_ok:
  assumes "set_env_ok env" "elem_ok v"
  shows "\<exists>e. setTypeCreate v = Some e \<and> set_ok env e \<and> members e = {}"
proof -
  obtain r where "isObjectRepresentableAsLongLong v = Some r" using representable [OF assms(2)] by blast
  then have "setTypeCreate v = Some (if r \<noteq> None then INTSET intsetNew else HT [])" by (simp add: setTypeCreate_def)
  then show ?thesis using assms(1) by (simp add: set_ok_def members_def ht_ok_def intset_ok_def intsetNew_def vals_def intsetLen_def)
qed

section \<open>Runs of operations\<close>

text \<open>The operations as the commands call them: \<^verbatim>\<open>SREM\<close> does not encode its argument.\<close>

definition encoded :: "bytes \<Rightarrow> elem" where
  "encoded b = the (tryObjectEncoding 1 (RawStr b))"

lemma encoded_ok: "tryObjectEncoding 1 (RawStr b) = Some (encoded b)" "elem_ok (encoded b)" "str_of (encoded b) = b"
  using tryObjectEncoding_ok [of 1 b, where 'a = unit] by (auto simp: encoded_def elem_ok_def)

lemma raw_ok: "elem_ok (RawStr b)" "str_of (RawStr b) = b"
  by (simp_all add: elem_ok_def is_string_def)

interpretation setstore: set_store "set_ok env" members "\<lambda>_. True" n
    "\<lambda>e b. the (setTypeAdd env e (encoded b))" "\<lambda>e b. the (setTypeRemove env e (RawStr b))" "\<lambda>e b. the (setTypeIsMember e (encoded b))"
  for env n
proof unfold_locales
  fix e b assume ok: "set_ok env e"
  show "finite (members e)" by simp
  show "the (setTypeIsMember e (encoded b)) \<longleftrightarrow> b \<in> members e"
    using setTypeIsMember_ok [OF ok encoded_ok(2)] encoded_ok(3) by simp
  show "\<exists>e'. the (setTypeRemove env e (RawStr b)) = (e', b \<in> members e) \<and> set_ok env e' \<and> members e' = members e - {b}"
    using setTypeRemove_ok [OF ok raw_ok(1), of b] by auto
  show "\<exists>e'. the (setTypeAdd env e (encoded b)) = (e', b \<notin> members e) \<and> set_ok env e' \<and> members e' = insert b (members e)"
    using setTypeAdd_ok [OF ok encoded_ok(2), of b] encoded_ok(3) [of b] by auto
qed


definition sample_env :: set_env where
  "sample_env = \<lparr>set_max_intset_entries = 1, is_junk = (\<lambda>_. 0), walk = rev\<rparr>"


end
