(* ===== verification/T_String.thy ===== *)
theory T_String
  imports Keyspace
begin

text \<open>
  \<^verbatim>\<open>debug/redis/src/t_string.c\<close>: the string commands over the key space. An argument is a byte string
  with reference count 1. \<open>None\<close> is a failed assertion or a read outside the string. \<^verbatim>\<open>INCRBYFLOAT\<close> is
  not modelled (long double arithmetic).
\<close>

section \<open>SET and GET\<close>

definition checkStringLength :: "int \<Rightarrow> bool" where
  "checkStringLength sz \<longleftrightarrow> \<not> sz > 512 * 1024 * 1024"

definition too_long :: reply where
  "too_long = RErr ''ERR string exceeds maximum allowed size (512MB)''"

definition not_integer :: reply where
  "not_integer = RErr ''ERR value is not an integer or out of range''"

definition wrongtype :: reply where
  "wrongtype = RErr ''ERR Operation against a key holding the wrong kind of value''"

text \<open>The expiry argument in milliseconds, or the error reply.\<close>

definition expire_arg :: "'o itself \<Rightarrow> bytes option \<Rightarrow> bool \<Rightarrow> (reply + int) option" where
  "expire_arg ty expire unit_seconds =
     (case expire of
        None \<Rightarrow> Some (Inr 0)
      | Some e \<Rightarrow>
          do { r \<leftarrow> getLongLongFromObject (Some (RawStr e :: 'o robj));
               case r of
                 None \<Rightarrow> Some (Inl not_integer)
               | Some milliseconds \<Rightarrow>
                   if milliseconds \<le> 0 then Some (Inl (RErr ''ERR invalid expire time in SETEX''))
                   else Some (Inr (if unit_seconds then wrap_ll (milliseconds * 1000) else milliseconds)) })"

definition setGenericCommand ::
    "bool \<Rightarrow> bool \<Rightarrow> bytes \<Rightarrow> 'o robj \<Rightarrow> bytes option \<Rightarrow> bool \<Rightarrow> reply \<Rightarrow> reply \<Rightarrow> 'o command" where
  "setGenericCommand nx xx key val expire unit_seconds ok_reply abort_reply s i =
     do { ms \<leftarrow> expire_arg TYPE('o) expire unit_seconds;
          case ms of
            Inl err \<Rightarrow> Some (s, err)
          | Inr milliseconds \<Rightarrow>
              do { (abort, s) \<leftarrow> (if nx then do { (v, s) \<leftarrow> lookupKeyWrite s i key; Some (v \<noteq> None, s) } else Some (False, s));
                   (abort, s) \<leftarrow> (if \<not> abort \<and> xx then do { (v, s) \<leftarrow> lookupKeyWrite s i key; Some (v = None, s) } else Some (abort, s));
                   if abort then Some (s, abort_reply)
                   else
                     do { s \<leftarrow> setKey s i key val;
                          let s = add_dirty 1 s;
                          s \<leftarrow> (if expire \<noteq> None then setExpire s i key (wrap_ll (mstime s + milliseconds)) else Some s);
                          Some (s, ok_reply) } } }"

text \<open>\<open>at a n\<close>: the byte at an index, the terminating zero included.\<close>

definition at :: "bytes \<Rightarrow> nat \<Rightarrow> byte" where
  "at a n = (if n < length a then a ! n else 0)"

definition is_opt :: "bytes \<Rightarrow> byte \<Rightarrow> byte \<Rightarrow> bool" where
  "is_opt a c d \<longleftrightarrow> (at a 0 = c \<or> at a 0 = toupper c) \<and> (at a 1 = d \<or> at a 1 = toupper d) \<and> at a 2 = 0"

record set_opts =
  o_nx :: bool
  o_xx :: bool
  o_expire :: "bytes option"
  o_seconds :: bool

fun parse_set :: "bytes list \<Rightarrow> set_opts \<Rightarrow> set_opts option" where
  "parse_set [] p = Some p"
| "parse_set (a # rest) p =
     (if is_opt a (chr CHR ''n'') (chr CHR ''x'') then parse_set rest (p\<lparr>o_nx := True\<rparr>)
      else if is_opt a (chr CHR ''x'') (chr CHR ''x'') then parse_set rest (p\<lparr>o_xx := True\<rparr>)
      else if is_opt a (chr CHR ''e'') (chr CHR ''x'') \<and> rest \<noteq> [] then
        parse_set (tl rest) (p\<lparr>o_seconds := True, o_expire := Some (hd rest)\<rparr>)
      else if is_opt a (chr CHR ''p'') (chr CHR ''x'') \<and> rest \<noteq> [] then
        parse_set (tl rest) (p\<lparr>o_seconds := False, o_expire := Some (hd rest)\<rparr>)
      else None)"

definition setCommand :: "bytes \<Rightarrow> bytes \<Rightarrow> bytes list \<Rightarrow> 'o command" where
  "setCommand key val opts s i =
     (case parse_set opts \<lparr>o_nx = False, o_xx = False, o_expire = None, o_seconds = True\<rparr> of
        None \<Rightarrow> Some (s, RErr ''ERR syntax error'')
      | Some p \<Rightarrow>
          do { v \<leftarrow> tryObjectEncoding 1 (RawStr val);
               setGenericCommand (o_nx p) (o_xx p) key v (o_expire p) (o_seconds p) ROk RNull s i })"

definition setnxCommand :: "bytes \<Rightarrow> bytes \<Rightarrow> 'o command" where
  "setnxCommand key val s i =
     do { v \<leftarrow> tryObjectEncoding 1 (RawStr val); setGenericCommand True False key v None True (RInt 1) (RInt 0) s i }"

definition setexCommand :: "bytes \<Rightarrow> bytes \<Rightarrow> bytes \<Rightarrow> 'o command" where
  "setexCommand key ttl val s i =
     do { v \<leftarrow> tryObjectEncoding 1 (RawStr val); setGenericCommand False False key v (Some ttl) True ROk RNull s i }"

definition psetexCommand :: "bytes \<Rightarrow> bytes \<Rightarrow> bytes \<Rightarrow> 'o command" where
  "psetexCommand key ttl val s i =
     do { v \<leftarrow> tryObjectEncoding 1 (RawStr val); setGenericCommand False False key v (Some ttl) False ROk RNull s i }"

text \<open>A bulk reply decodes the object; the flag is \<^verbatim>\<open>REDIS_OK\<close>.\<close>

definition bulk :: "'o robj \<Rightarrow> reply" where
  "bulk o' = (case getDecodedObject o' of Some (RawStr t) \<Rightarrow> RBulk t | _ \<Rightarrow> RNull)"

definition getGenericCommand :: "bytes \<Rightarrow> 'o server \<Rightarrow> nat \<Rightarrow> ('o server \<times> reply \<times> bool) option" where
  "getGenericCommand key s i =
     do { (v, s) \<leftarrow> lookupKeyRead s i key;
          case v of
            None \<Rightarrow> Some (s, RNull, True)
          | Some o' \<Rightarrow> if \<not> is_string o' then Some (s, wrongtype, False) else Some (s, bulk o', True) }"

definition getCommand :: "bytes \<Rightarrow> 'o command" where
  "getCommand key s i = do { (s, r, _) \<leftarrow> getGenericCommand key s i; Some (s, r) }"

definition getsetCommand :: "bytes \<Rightarrow> bytes \<Rightarrow> 'o command" where
  "getsetCommand key val s i =
     do { (s, r, ok) \<leftarrow> getGenericCommand key s i;
          if \<not> ok then Some (s, r)
          else do { v \<leftarrow> tryObjectEncoding 1 (RawStr val); s \<leftarrow> setKey s i key v; Some (add_dirty 1 s, r) } }"

section \<open>Parts of strings\<close>

text \<open>
  The sum of the offset and the length is computed in \<^verbatim>\<open>size_t\<close> and passed as a
  \<^verbatim>\<open>long long\<close>. \<open>grow_write\<close> is \<^verbatim>\<open>sdsgrowzero\<close> and the \<^verbatim>\<open>memcpy\<close>.
\<close>

definition grow_write :: "bytes \<Rightarrow> nat \<Rightarrow> bytes \<Rightarrow> bytes" where
  "grow_write t off value = mem_write (t @ replicate (off + length value - length t) 0) off value"

definition setrangeCommand :: "bytes \<Rightarrow> bytes \<Rightarrow> bytes \<Rightarrow> 'o command" where
  "setrangeCommand key arg value s i =
     do { r \<leftarrow> getLongFromObject (Some (RawStr arg :: 'o robj));
          case r of
            None \<Rightarrow> Some (s, not_integer)
          | Some offset \<Rightarrow>
              if offset < 0 then Some (s, RErr ''ERR offset is out of range'')
              else
                do { let sz = to_ll (nat offset + length value);
                     (v, s) \<leftarrow> lookupKeyWrite s i key;
                     case v of
                       None \<Rightarrow>
                         if length value = 0 then Some (s, RInt 0)
                         else if \<not> checkStringLength sz then Some (s, too_long)
                         else
                           do { let t = grow_write [] (nat offset) value;
                                s \<leftarrow> dbAdd s i key (RawStr t);
                                Some (add_dirty 1 (signalModifiedKey s i key), RInt (int (length t))) }
                     | Some o' \<Rightarrow>
                         if \<not> is_string o' then Some (s, wrongtype)
                         else
                           do { olen \<leftarrow> stringObjectLen o';
                                if length value = 0 then Some (s, RInt (int olen))
                                else if \<not> checkStringLength sz then Some (s, too_long)
                                else
                                  do { d \<leftarrow> getDecodedObject o';
                                       let t = grow_write (str_of d) (nat offset) value;
                                       s \<leftarrow> dbOverwrite s i key (RawStr t);
                                       Some (add_dirty 1 (signalModifiedKey s i key), RInt (int (length t))) } } } }"

text \<open>
  The end index is cut to 32 bits before it is compared with the length. A range that
  reaches past the string is \<open>None\<close>.
\<close>

definition range_reply :: "bytes \<Rightarrow> int \<Rightarrow> int \<Rightarrow> reply option" where
  "range_reply t start fin =
     (let len = int (length t);
          start = (if start < 0 then len + start else start);
          fin = (if fin < 0 then len + fin else fin);
          start = (if start < 0 then 0 else start);
          fin = (if fin < 0 then 0 else fin);
          fin = (if uint (word_of_int fin :: 32 word) \<ge> len then len - 1 else fin)
      in if start > fin then Some REmpty
         else if fin \<ge> len then None
         else Some (RBulk (mem_read t (nat start) (nat (fin - start + 1)))))"

definition getrangeCommand :: "bytes \<Rightarrow> bytes \<Rightarrow> bytes \<Rightarrow> 'o command" where
  "getrangeCommand key arg1 arg2 s i =
     do { r1 \<leftarrow> getLongFromObject (Some (RawStr arg1 :: 'o robj));
          case r1 of
            None \<Rightarrow> Some (s, not_integer)
          | Some start \<Rightarrow>
              do { r2 \<leftarrow> getLongFromObject (Some (RawStr arg2 :: 'o robj));
                   case r2 of
                     None \<Rightarrow> Some (s, not_integer)
                   | Some fin \<Rightarrow>
                       do { (v, s) \<leftarrow> lookupKeyRead s i key;
                            case v of
                              None \<Rightarrow> Some (s, REmpty)
                            | Some o' \<Rightarrow>
                                if \<not> is_string o' then Some (s, wrongtype)
                                else
                                  do { d \<leftarrow> getDecodedObject o';
                                       r \<leftarrow> range_reply (str_of d) start fin;
                                       Some (s, r) } } } }"

fun mget_loop :: "bytes list \<Rightarrow> 'o server \<Rightarrow> nat \<Rightarrow> reply list \<Rightarrow> ('o server \<times> reply list) option" where
  "mget_loop [] s i rs = Some (s, rs)"
| "mget_loop (key # keys) s i rs =
     do { (v, s) \<leftarrow> lookupKeyRead s i key;
          mget_loop keys s i (rs @ [case v of None \<Rightarrow> RNull | Some o' \<Rightarrow> if \<not> is_string o' then RNull else bulk o']) }"

definition mgetCommand :: "bytes list \<Rightarrow> 'o command" where
  "mgetCommand keys s i = do { (s, rs) \<leftarrow> mget_loop keys s i []; Some (s, RMulti rs) }"

fun busy_loop :: "bytes list \<Rightarrow> 'o server \<Rightarrow> nat \<Rightarrow> nat \<Rightarrow> ('o server \<times> nat) option" where
  "busy_loop (key # val # args) s i n =
     do { (v, s) \<leftarrow> lookupKeyWrite s i key; busy_loop args s i (if v \<noteq> None then n + 1 else n) }"
| "busy_loop args s i n = Some (s, n)"

fun mset_loop :: "bytes list \<Rightarrow> 'o server \<Rightarrow> nat \<Rightarrow> 'o server option" where
  "mset_loop (key # val # args) s i =
     do { v \<leftarrow> tryObjectEncoding 1 (RawStr val); s \<leftarrow> setKey s i key v; mset_loop args s i }"
| "mset_loop args s i = Some s"

definition msetGenericCommand :: "bytes list \<Rightarrow> bool \<Rightarrow> 'o command" where
  "msetGenericCommand args nx s i =
     (if (length args + 1) mod 2 = 0 then Some (s, RErr ''ERR wrong number of arguments for MSET'')
      else
        do { (s, busykeys) \<leftarrow> (if nx then busy_loop args s i 0 else Some (s, 0));
             if busykeys \<noteq> 0 then Some (s, RInt 0)
             else
               do { s \<leftarrow> mset_loop args s i;
                    Some (add_dirty (int (length args div 2)) s, if nx then RInt 1 else ROk) } })"

section \<open>Counters and appending\<close>

definition incrDecrCommand :: "bytes \<Rightarrow> int \<Rightarrow> 'o command" where
  "incrDecrCommand key incr s i =
     do { (v, s) \<leftarrow> lookupKeyWrite s i key;
          if (case v of None \<Rightarrow> False | Some o' \<Rightarrow> \<not> is_string o') then Some (s, wrongtype)
          else
            do { r \<leftarrow> getLongLongFromObject v;
                 case r of
                   None \<Rightarrow> Some (s, not_integer)
                 | Some oldvalue \<Rightarrow>
                     if (incr < 0 \<and> oldvalue < 0 \<and> incr < - (2 ^ 63) - oldvalue) \<or>
                        (incr > 0 \<and> oldvalue > 0 \<and> incr > 2 ^ 63 - 1 - oldvalue)
                     then Some (s, RErr ''ERR increment or decrement would overflow'')
                     else
                       do { let value = wrap_ll (oldvalue + incr);
                            s \<leftarrow> (if v \<noteq> None then dbOverwrite s i key (createStringObjectFromLongLong value)
                                  else dbAdd s i key (createStringObjectFromLongLong value));
                            Some (add_dirty 1 (signalModifiedKey s i key), RInt value) } } }"

definition incrbyCommand :: "bytes \<Rightarrow> bytes \<Rightarrow> 'o command" where
  "incrbyCommand key arg s i =
     do { r \<leftarrow> getLongLongFromObject (Some (RawStr arg :: 'o robj));
          case r of None \<Rightarrow> Some (s, not_integer) | Some incr \<Rightarrow> incrDecrCommand key incr s i }"

definition decrbyCommand :: "bytes \<Rightarrow> bytes \<Rightarrow> 'o command" where
  "decrbyCommand key arg s i =
     do { r \<leftarrow> getLongLongFromObject (Some (RawStr arg :: 'o robj));
          case r of None \<Rightarrow> Some (s, not_integer) | Some incr \<Rightarrow> incrDecrCommand key (wrap_ll (- incr)) s i }"

definition appendCommand :: "bytes \<Rightarrow> bytes \<Rightarrow> 'o command" where
  "appendCommand key app s i =
     do { (v, s) \<leftarrow> lookupKeyWrite s i key;
          case v of
            None \<Rightarrow>
              do { v \<leftarrow> tryObjectEncoding 1 (RawStr app);
                   s \<leftarrow> dbAdd s i key v;
                   totlen \<leftarrow> stringObjectLen v;
                   Some (add_dirty 1 (signalModifiedKey s i key), RInt (int totlen)) }
          | Some o' \<Rightarrow>
              if \<not> is_string o' then Some (s, wrongtype)
              else
                do { olen \<leftarrow> stringObjectLen o';
                     if \<not> checkStringLength (int (olen + length app)) then Some (s, too_long)
                     else
                       do { d \<leftarrow> getDecodedObject o';
                            s \<leftarrow> dbOverwrite s i key (RawStr (str_of d @ app));
                            Some (add_dirty 1 (signalModifiedKey s i key), RInt (int (length (str_of d @ app)))) } } }"

definition strlenCommand :: "bytes \<Rightarrow> 'o command" where
  "strlenCommand key s i =
     do { (v, s) \<leftarrow> lookupKeyRead s i key;
          case v of
            None \<Rightarrow> Some (s, RInt 0)
          | Some o' \<Rightarrow>
              if \<not> is_string o' then Some (s, wrongtype)
              else do { n \<leftarrow> stringObjectLen o'; Some (s, RInt (int n)) } }"

section \<open>Commands never fail an assertion and report what they change\<close>

lemma is_ll_wrap: "is_ll (wrap_ll v)"
proof -
  have "of_ll v < 2 ^ 64" by (simp add: of_ll_def nat_less_iff)
  then show ?thesis by (auto simp: wrap_ll_def to_ll_def is_ll_def)
qed

lemma wrap_ll_id: "is_ll v \<Longrightarrow> wrap_ll v = v"
  by (simp add: wrap_ll_def to_ll_of_ll)

lemma getLongLong_arg: "\<exists>r. getLongLongFromObject (Some (RawStr arg :: 'o robj)) = Some r"
  using getLongLong_total [of "Some (RawStr arg)"] by simp

lemma getLong_arg: "\<exists>r. getLongFromObject (Some (RawStr arg :: 'o robj)) = Some r"
  using getLongLong_arg [of arg, where ?'o = 'o] getLong_LongLong [of "Some (RawStr arg :: 'o robj)"] by simp

lemma expire_arg_total: "\<exists>ms. expire_arg TYPE('o) expire sec = Some ms"
proof (cases expire)
  case (Some e)
  obtain r where "getLongLongFromObject (Some (RawStr e :: 'o robj)) = Some r" using getLongLong_arg by blast
  then show ?thesis using Some by (cases r) (auto simp: expire_arg_def)
qed (simp add: expire_arg_def)

lemma maybe_lookup:
  assumes "keys_ok s"
  shows "\<exists>a s'. (if b then do { (v, s) \<leftarrow> lookupKeyWrite s i key; Some (P v, s) } else Some (c, s)) = Some (a, s') \<and>
    keys_ok s' \<and> reported s s' \<and> eff s s' (vol s i key) []"
proof -
  obtain s1 where s1: "lookupKeyWrite s i key = Some (fst (fresh s i key), s1)" "keys_ok s1" "eff s s1 (vol s i key) []"
    using lookupKeyWrite_ok [OF assms] by blast
  then show ?thesis using assms vol_reported [OF s1(3)] eff_mono [OF eff_refl, of "vol s i key" s] reported_refl by (cases b) auto
qed

text \<open>The part of \<^verbatim>\<open>SET\<close> after its tests.\<close>

lemma set_and_expire:
  assumes "keys_ok s" "obj_ok val"
  shows "\<exists>s1 s2. setKey s i key val = Some s1 \<and>
    (if b then setExpire (add_dirty 1 s1) i key w else Some (add_dirty 1 s1)) = Some s2 \<and>
    keys_ok s2 \<and> eff s s2 {(i, key)} [Modified i key] \<and> keyval s2 i key = (Some val, if b then Some w else None)"
proof -
  obtain s1 where s1: "setKey s i key val = Some s1" "keys_ok s1" "eff s s1 {(i, key)} [Modified i key]"
    "keyval s1 i key = (Some val, None)" using setKey_ok [OF assms] by blast
  show ?thesis
  proof (cases b)
    case False
    then show ?thesis using s1 by simp
  next
    case True
    have "keys_ok (add_dirty 1 s1)" "fst (keyval (add_dirty 1 s1) i key) \<noteq> None" using s1 by simp_all
    from setExpire_ok [OF this, of w] obtain s2 where s2: "setExpire (add_dirty 1 s1) i key w = Some s2" "keys_ok s2"
      "eff s1 s2 {(i, key)} []" "keyval s2 i key = (Some val, Some w)" using s1(4) by auto
    from eff_trans [OF s1(3) s2(3)] have "eff s s2 {(i, key)} [Modified i key]" by simp
    then show ?thesis using True s1(1) s2 by auto
  qed
qed

lemma setGeneric_ok:
  assumes "obj_ok val"
  shows "cmd_ok (setGenericCommand nx xx key val expire sec okr abr)"
proof (rule cmd_okI)
  fix s :: "'a server" and i
  assume k: "keys_ok s"
  obtain ms where ms: "expire_arg TYPE('a) expire sec = Some ms" using expire_arg_total by blast
  obtain a1 s1 where s1: "(if nx then do { (v, s) \<leftarrow> lookupKeyWrite s i key; Some (v \<noteq> None, s) } else Some (False, s)) = Some (a1, s1)"
    "keys_ok s1" "reported s s1" using maybe_lookup [OF k, of nx i key "\<lambda>v. v \<noteq> None" False] by blast
  obtain a2 s2 where s2: "(if \<not> a1 \<and> xx then do { (v, s) \<leftarrow> lookupKeyWrite s1 i key; Some (v = None, s) } else Some (a1, s1)) = Some (a2, s2)"
    "keys_ok s2" "reported s1 s2" using maybe_lookup [OF s1(2), of "\<not> a1 \<and> xx" i key "\<lambda>v. v = None" a1] by blast
  note r2 = reported_trans [OF s1(3) s2(3)]
  show "\<exists>s' r. setGenericCommand nx xx key val expire sec okr abr s i = Some (s', r) \<and> keys_ok s' \<and> reported s s'"
  proof (cases ms)
    case (Inl e)
    then show ?thesis using k ms unfolding setGenericCommand_def by (simp add: reported_refl)
  next
    case (Inr w)
    from set_and_expire [OF s2(2) assms, of i key "expire \<noteq> None"] obtain s3 where s3: "setKey s2 i key val = Some s3"
      by blast
    from set_and_expire [OF s2(2) assms, of i key "expire \<noteq> None" "wrap_ll (mstime s3 + w)"] s3 obtain s4 where
      s4: "(if expire \<noteq> None then setExpire (add_dirty 1 s3) i key (wrap_ll (mstime s3 + w)) else Some (add_dirty 1 s3)) = Some s4"
      "keys_ok s4" "eff s2 s4 {(i, key)} [Modified i key]" by auto
    have "reported s s4" using r2 eff_reported [OF s4(3)] reported_trans by fastforce
    then show ?thesis using s1(1) s2(1,2) s3 s4(1,2) r2 Inr ms unfolding setGenericCommand_def
      by (cases a2; cases expire) (auto simp: Let_def)
  qed
qed

lemma set_encoded_ok:
  "(\<And>v. obj_ok v \<Longrightarrow> cmd_ok (f v)) \<Longrightarrow> cmd_ok (\<lambda>s i. do { v \<leftarrow> tryObjectEncoding 1 (RawStr val); f v s i })"
  using tryObjectEncoding_ok [of 1 val] unfolding cmd_ok_def by fastforce

lemma set_ok: "cmd_ok (setCommand key val opts)"
proof (rule cmd_okI)
  fix s :: "'o server" and i
  assume k: "keys_ok s"
  have "cmd_ok (\<lambda>(s :: 'o server) i. do { v \<leftarrow> tryObjectEncoding 1 (RawStr val);
      setGenericCommand (o_nx p) (o_xx p) key v (o_expire p) (o_seconds p) ROk RNull s i })" for p :: set_opts
    by (rule set_encoded_ok, rule setGeneric_ok)
  then show "\<exists>s' r. setCommand key val opts s i = Some (s', r) \<and> keys_ok s' \<and> reported s s'"
    using k unfolding cmd_ok_def setCommand_def
    by (cases "parse_set opts \<lparr>o_nx = False, o_xx = False, o_expire = None, o_seconds = True\<rparr>") (auto simp: reported_refl)
qed

lemma setnx_ok: "cmd_ok (setnxCommand key val)" "cmd_ok (setexCommand key ttl val)" "cmd_ok (psetexCommand key ttl val)"
  using set_encoded_ok [OF setGeneric_ok]
  unfolding setnxCommand_def setexCommand_def psetexCommand_def by auto

lemma bulk_ok: "obj_ok o' \<Longrightarrow> is_string o' \<Longrightarrow> bulk o' = RBulk (str_of o')"
  by (simp add: bulk_def getDecodedObject_ok)

definition get_reply :: "'o robj option \<Rightarrow> reply" where
  "get_reply v = (case v of None \<Rightarrow> RNull | Some o' \<Rightarrow> if is_string o' then RBulk (str_of o') else wrongtype)"

lemma fresh_obj_ok: "keys_ok s \<Longrightarrow> fst (fresh s i key) = Some o' \<Longrightarrow> obj_ok o'"
  using keys_ok_obj [of s i key o'] by (auto simp: fresh_def keyval_def split: if_splits)

lemma getGeneric_ok:
  assumes "keys_ok s"
  shows "\<exists>s' ok. getGenericCommand key s i = Some (s', get_reply (fst (fresh s i key)), ok) \<and> keys_ok s' \<and>
    eff s s' (vol s i key) [] \<and> keyval s' i key = fresh s i key"
proof -
  obtain s1 where s1: "lookupKeyRead s i key = Some (fst (fresh s i key), s1)" "keys_ok s1" "eff s s1 (vol s i key) []"
    "keyval s1 i key = fresh s i key" using lookupKeyRead_ok [OF assms] by blast
  then show ?thesis using fresh_obj_ok [OF assms, of i key]
    by (cases "fst (fresh s i key)") (auto simp: getGenericCommand_def get_reply_def bulk_ok)
qed

lemma get_ok: "cmd_ok (getCommand key)"
proof (rule cmd_okI)
  fix s :: "'o server" and i
  assume "keys_ok s"
  from getGeneric_ok [OF this, of key i] show "\<exists>s' r. getCommand key s i = Some (s', r) \<and> keys_ok s' \<and> reported s s'"
    using vol_reported by (fastforce simp: getCommand_def)
qed

lemma getset_ok: "cmd_ok (getsetCommand key val)"
proof (rule cmd_okI)
  fix s :: "'o server" and i
  assume k: "keys_ok s"
  obtain s1 r ok where s1: "getGenericCommand key s i = Some (s1, r, ok)" "keys_ok s1" "eff s s1 (vol s i key) []"
    using getGeneric_ok [OF k, of key i] by blast
  obtain v :: "'o robj" where v: "tryObjectEncoding 1 (RawStr val) = Some v" "obj_ok v" using tryObjectEncoding_ok by blast
  obtain s2 where s2: "setKey s1 i key v = Some s2" "keys_ok s2" "eff s1 s2 {(i, key)} [Modified i key]"
    using setKey_ok [OF s1(2) v(2)] by blast
  have "reported s1 s2" using s2(3) by (rule eff_reported) auto
  then show "\<exists>s' r. getsetCommand key val s i = Some (s', r) \<and> keys_ok s' \<and> reported s s'"
    using s1 s2 v vol_reported [OF s1(3)] reported_trans by (cases ok) (auto simp: getsetCommand_def)
qed

lemma modify_reported:
  assumes "eff s s1 (vol s i key) []" "eff s1 s2 {(i, key)} []"
  shows "reported s (signalModifiedKey s2 i key)"
  using vol_reported [OF assms(1)] signal_reported [OF assms(2)] by (rule reported_trans)

lemma setrange_cases:
  assumes k: "keys_ok s" and arg: "getLongFromObject (Some (RawStr arg :: 'o robj)) = Some (Some off)" "0 \<le> off"
  shows "\<exists>s' r. setrangeCommand key arg value (s :: 'o server) i = Some (s', r) \<and> keys_ok s' \<and> reported s s' \<and>
    ((\<forall>o'. fst (fresh s i key) = Some o' \<longrightarrow> is_string o') \<and> value \<noteq> [] \<and> checkStringLength (to_ll (nat off + length value)) \<longrightarrow>
      (let t = grow_write (case fst (fresh s i key) of None \<Rightarrow> [] | Some o' \<Rightarrow> str_of o') (nat off) value
       in keyval s' i key = (Some (RawStr t), snd (fresh s i key)) \<and> r = RInt (int (length t))))"
proof -
  obtain s1 where s1: "lookupKeyWrite s i key = Some (fst (fresh s i key), s1)" "keys_ok s1" "eff s s1 (vol s i key) []"
    "keyval s1 i key = fresh s i key" using lookupKeyWrite_ok [OF k] by blast
  note r1 = vol_reported [OF s1(3)]
  have nn: "\<not> off < 0" using arg(2) by simp
  note [simp] = setrangeCommand_def arg(1) nn s1(1) Let_def
  show ?thesis
  proof (cases "fst (fresh s i key)")
    case None
    let ?t = "grow_write [] (nat off) value"
    obtain s2 where s2: "dbAdd s1 i key (RawStr ?t) = Some s2" "keys_ok s2" "eff s1 s2 {(i, key)} []"
      "keyval s2 i key = (Some (RawStr ?t), snd (fresh s i key))"
      using dbAdd_ok [OF s1(2), of i key "RawStr ?t"] None s1(4) by auto
    show ?thesis using None r1 s1(2) s2 modify_reported [OF s1(3) s2(3)] by simp
  next
    case (Some o')
    show ?thesis
    proof (cases "is_string o'")
      case False
      then show ?thesis using Some r1 s1(2) by simp
    next
      case True
      let ?t = "grow_write (str_of o') (nat off) value"
      have ok: "obj_ok o'" using fresh_obj_ok [OF k Some] .
      obtain s2 where s2: "dbOverwrite s1 i key (RawStr ?t) = Some s2" "keys_ok s2" "eff s1 s2 {(i, key)} []"
        "keyval s2 i key = (Some (RawStr ?t), snd (fresh s i key))"
        using dbOverwrite_ok [OF s1(2), of i key "RawStr ?t"] Some s1(4) by auto
      show ?thesis using Some True r1 s1(2) s2 modify_reported [OF s1(3) s2(3)] ok
        by (simp add: stringObjectLen_ok getDecodedObject_ok)
    qed
  qed
qed

lemma setrange_ok: "cmd_ok (setrangeCommand key arg value)"
proof (rule cmd_okI)
  fix s :: "'o server" and i
  assume k: "keys_ok s"
  obtain r where r: "getLongFromObject (Some (RawStr arg :: 'o robj)) = Some r" using getLong_arg by blast
  show "\<exists>s' r. setrangeCommand key arg value s i = Some (s', r) \<and> keys_ok s' \<and> reported s s'"
  proof (cases "\<exists>off. r = Some off \<and> 0 \<le> off")
    case True
    then show ?thesis using setrange_cases [OF k, of arg _ key "value" i] r by blast
  next
    case False
    then show ?thesis using r k by (cases r) (auto simp: setrangeCommand_def reported_refl)
  qed
qed

text \<open>The range with exact arithmetic.\<close>

definition range_exact :: "bytes \<Rightarrow> int \<Rightarrow> int \<Rightarrow> reply" where
  "range_exact t start fin =
     (let len = int (length t);
          lo = max 0 (if start < 0 then len + start else start);
          hi = min (len - 1) (max 0 (if fin < 0 then len + fin else fin))
      in if lo > hi then REmpty else RBulk (take (nat (hi - lo + 1)) (drop (nat lo) t)))"

lemma uint_word32: "0 \<le> v \<Longrightarrow> v < 2 ^ 32 \<Longrightarrow> uint (word_of_int v :: 32 word) = v"
  by (simp add: uint_word_of_int_eq take_bit_int_eq_self)

lemma range_reply_ok:
  assumes "fin < 2 ^ 32" "length t < 2 ^ 32"
  shows "range_reply t start fin = Some (range_exact t start fin)"
proof -
  let ?f = "max 0 (if fin < 0 then int (length t) + fin else fin)"
  have "0 \<le> ?f" "?f < 2 ^ 32" using assms by (auto simp: max_def)
  then have u: "uint (word_of_int ?f :: 32 word) = ?f" by (rule uint_word32)
  have "(if fin' < 0 then 0 else fin') = max 0 fin'" for fin' :: int by (simp add: max_def)
  then show ?thesis
    unfolding range_reply_def range_exact_def Let_def
    using u by (auto simp: mem_read_def min_def max_def)
qed

text \<open>The only failure of \<^verbatim>\<open>GETRANGE\<close> is a read outside the string.\<close>

lemma getrange_cases:
  assumes k: "keys_ok s" and args: "getLongFromObject (Some (RawStr a1 :: 'o robj)) = Some (Some start)"
    "getLongFromObject (Some (RawStr a2 :: 'o robj)) = Some (Some fin)"
  shows "\<exists>s'. keys_ok s' \<and> reported s s' \<and> getrangeCommand key a1 a2 (s :: 'o server) i =
    (case fst (fresh s i key) of
       None \<Rightarrow> Some (s', REmpty)
     | Some o' \<Rightarrow> if \<not> is_string o' then Some (s', wrongtype) else map_option (Pair s') (range_reply (str_of o') start fin))"
proof -
  obtain s1 where s1: "lookupKeyRead s i key = Some (fst (fresh s i key), s1)" "keys_ok s1" "eff s s1 (vol s i key) []"
    using lookupKeyRead_ok [OF k] by blast
  then show ?thesis using args vol_reported [OF s1(3)] fresh_obj_ok [OF k, of i key]
    by (cases "fst (fresh s i key)")
       (auto simp: getrangeCommand_def getDecodedObject_ok map_conv_bind_option comp_def split: option.splits intro!: exI [of _ s1])
qed

lemma mget_loop_ok:
  "keys_ok s \<Longrightarrow> \<exists>s' rs'. mget_loop keys s i rs = Some (s', rs') \<and> keys_ok s' \<and> reported s s' \<and> length rs' = length rs + length keys"
proof (induction keys arbitrary: s rs)
  case (Cons key keys)
  obtain s1 where s1: "lookupKeyRead s i key = Some (fst (fresh s i key), s1)" "keys_ok s1" "eff s s1 (vol s i key) []"
    using lookupKeyRead_ok [OF Cons.prems] by blast
  from Cons.IH [OF s1(2)] s1(1) show ?case using vol_reported [OF s1(3)] reported_trans by fastforce
qed (simp add: reported_refl)

lemma mget_ok: "cmd_ok (mgetCommand keys)"
proof (rule cmd_okI)
  fix s :: "'o server" and i
  assume "keys_ok s"
  from mget_loop_ok [OF this, of keys i "[]"] show "\<exists>s' r. mgetCommand keys s i = Some (s', r) \<and> keys_ok s' \<and> reported s s'"
    by (auto simp: mgetCommand_def)
qed

lemma busy_loop_ok:
  "keys_ok s \<Longrightarrow> \<exists>s' m. busy_loop args s i n = Some (s', m) \<and> keys_ok s' \<and> reported s s'"
proof (induction args s i n rule: busy_loop.induct)
  case (1 key val args s i n)
  obtain s1 where s1: "lookupKeyWrite s i key = Some (fst (fresh s i key), s1)" "keys_ok s1" "eff s s1 (vol s i key) []"
    using lookupKeyWrite_ok [OF "1.prems"] by blast
  from "1.IH" [OF s1(1) refl s1(2)] s1(1) show ?case using vol_reported [OF s1(3)] reported_trans by fastforce
qed (auto simp: reported_refl)

lemma mset_loop_ok:
  "keys_ok s \<Longrightarrow> \<exists>s'. mset_loop args s i = Some s' \<and> keys_ok s' \<and> reported s s'"
proof (induction args s i rule: mset_loop.induct)
  case (1 key val args s i)
  obtain v :: "'a robj" where v: "tryObjectEncoding 1 (RawStr val) = Some v" "obj_ok v" using tryObjectEncoding_ok by blast
  obtain s1 where s1: "setKey s i key v = Some s1" "keys_ok s1" "eff s s1 {(i, key)} [Modified i key]"
    using setKey_ok [OF "1.prems" v(2)] by blast
  have r: "reported s s1" using s1(3) by (rule eff_reported) auto
  from "1.IH" [OF v(1) s1(1,2)] v(1) s1(1) show ?case using reported_trans [OF r] by auto
qed (auto simp: reported_refl)

lemma mset_ok: "cmd_ok (msetGenericCommand args nx)"
proof (rule cmd_okI)
  fix s :: "'o server" and i
  assume k: "keys_ok s"
  obtain s1 m where s1: "(if nx then busy_loop args s i 0 else Some (s, 0)) = Some (s1, m)" "keys_ok s1" "reported s s1"
    using busy_loop_ok [OF k, of args i 0] k reported_refl by (cases nx) auto
  obtain s2 where s2: "mset_loop args s1 i = Some s2" "keys_ok s2" "reported s1 s2" using mset_loop_ok [OF s1(2)] by blast
  have "reported s s2" using s1(3) s2(3) by (rule reported_trans)
  then show "\<exists>s' r. msetGenericCommand args nx s i = Some (s', r) \<and> keys_ok s' \<and> reported s s'"
    using s1 s2 k by (cases "(length args + 1) mod 2 = 0"; cases "m = 0") (auto simp: msetGenericCommand_def reported_refl)
qed

text \<open>The counter commands compute in 64 bits exactly: the sum, or an error when it does not fit.\<close>

lemma overflow_test:
  assumes "is_ll old" "is_ll incr"
  shows "((incr < 0 \<and> old < 0 \<and> incr < - (2 ^ 63) - old) \<or> (incr > 0 \<and> old > 0 \<and> incr > 2 ^ 63 - 1 - old)) \<longleftrightarrow> \<not> is_ll (old + incr)"
  using assms by (auto simp: is_ll_def)

lemma incrDecr_cases:
  assumes k: "keys_ok s" and incr: "is_ll incr"
  shows "\<exists>s' r. incrDecrCommand key incr s i = Some (s', r) \<and> keys_ok s' \<and> reported s s' \<and>
    (\<forall>old. (case fst (fresh s i key) of None \<Rightarrow> True | Some o' \<Rightarrow> is_string o') \<and>
         getLongLongFromObject (fst (fresh s i key)) = Some (Some old) \<longrightarrow>
       (if is_ll (old + incr) then r = RInt (old + incr) \<and> keyval s' i key = (Some (IntStr (old + incr)), snd (fresh s i key))
        else r = RErr ''ERR increment or decrement would overflow'' \<and> keyval s' i key = fresh s i key))"
proof -
  obtain s1 where s1: "lookupKeyWrite s i key = Some (fst (fresh s i key), s1)" "keys_ok s1" "eff s s1 (vol s i key) []"
    "keyval s1 i key = fresh s i key" using lookupKeyWrite_ok [OF k] by blast
  note r1 = vol_reported [OF s1(3)]
  let ?v = "fst (fresh s i key)"
  show ?thesis
  proof (cases "(case ?v of None \<Rightarrow> False | Some o' \<Rightarrow> \<not> is_string o')")
    case True
    then show ?thesis using s1 r1 by (auto simp: incrDecrCommand_def split: option.splits)
  next
    case str: False
    obtain r where r: "getLongLongFromObject ?v = Some r"
      using getLongLong_total [of ?v] str by (auto split: option.splits)
    show ?thesis
    proof (cases r)
      case None
      then show ?thesis using s1 r1 r str by (auto simp: incrDecrCommand_def)
    next
      case (Some old)
      have "case ?v of None \<Rightarrow> True | Some o' \<Rightarrow> obj_ok o'" using fresh_obj_ok [OF k, of i key] by (auto split: option.split)
      then have old: "is_ll old" using getLongLong_range r Some by blast
      note ov = overflow_test [OF old incr]
      show ?thesis
      proof (cases "is_ll (old + incr)")
        case False
        then show ?thesis using s1 r1 r Some str ov by (auto simp: incrDecrCommand_def)
      next
        case True
        have c: "createStringObjectFromLongLong (old + incr) = IntStr (old + incr)" "wrap_ll (old + incr) = old + incr"
          using True by (simp_all add: wrap_ll_id createStringObjectFromLongLong_ok)
        have "\<exists>s2. (if ?v \<noteq> None then dbOverwrite s1 i key (IntStr (old + incr)) else dbAdd s1 i key (IntStr (old + incr))) = Some s2 \<and>
            keys_ok s2 \<and> eff s1 s2 {(i, key)} [] \<and> keyval s2 i key = (Some (IntStr (old + incr)), snd (fresh s i key))"
          using dbAdd_ok [OF s1(2), of i key "IntStr (old + incr)"] dbOverwrite_ok [OF s1(2), of i key "IntStr (old + incr)"] s1(4) True
          by auto
        then obtain s2 where s2: "(if ?v \<noteq> None then dbOverwrite s1 i key (IntStr (old + incr)) else dbAdd s1 i key (IntStr (old + incr))) = Some s2"
            "keys_ok s2" "eff s1 s2 {(i, key)} []" "keyval s2 i key = (Some (IntStr (old + incr)), snd (fresh s i key))" by blast
        have "incrDecrCommand key incr s i = Some (add_dirty 1 (signalModifiedKey s2 i key), RInt (old + incr))"
          using s1(1) r Some str ov True s2(1) by (cases ?v) (simp_all add: incrDecrCommand_def c Let_def)
        then show ?thesis using True s2 modify_reported [OF s1(3) s2(3)] r Some by simp
      qed
    qed
  qed
qed

lemma incrDecr_ok: "is_ll incr \<Longrightarrow> cmd_ok (incrDecrCommand key incr)"
  using incrDecr_cases by (fastforce simp: cmd_ok_def)

lemma incrby_cases:
  assumes k: "keys_ok s" and f: "f = incrbyCommand key arg \<or> f = decrbyCommand key arg"
  shows "\<exists>s' r. f s i = Some (s', r) \<and> keys_ok s' \<and> reported s (s' :: 'o server)"
proof -
  obtain r where r: "getLongLongFromObject (Some (RawStr arg :: 'o robj)) = Some r" using getLongLong_arg by blast
  show ?thesis
  proof (cases r)
    case None
    then show ?thesis using r f k by (auto simp: incrbyCommand_def decrbyCommand_def reported_refl)
  next
    case (Some v)
    have v: "is_ll v" using getLongLong_range [of "Some (RawStr arg :: 'o robj)" v] r Some by simp
    have "f s i = incrDecrCommand key v s i \<or> f s i = incrDecrCommand key (wrap_ll (- v)) s i"
      using r Some f by (auto simp: incrbyCommand_def decrbyCommand_def)
    then show ?thesis using incrDecr_cases [OF k v, of key i] incrDecr_cases [OF k is_ll_wrap, of key "- v" i] by metis
  qed
qed

lemma incrby_ok: "cmd_ok (incrbyCommand key arg)" "cmd_ok (decrbyCommand key arg)"
  by (auto intro!: cmd_okI incrby_cases)

lemma append_cases:
  assumes k: "keys_ok s"
  shows "\<exists>s' r. appendCommand key app s i = Some (s', r) \<and> keys_ok s' \<and> reported s s' \<and>
    ((\<forall>o'. fst (fresh s i key) = Some o' \<longrightarrow> is_string o' \<and> length (str_of o') + length app \<le> 512 * 1024 * 1024) \<longrightarrow>
      (\<exists>v. keyval s' i key = (Some v, snd (fresh s i key)) \<and> is_string v \<and>
         str_of v = (case fst (fresh s i key) of None \<Rightarrow> [] | Some o' \<Rightarrow> str_of o') @ app \<and> r = RInt (int (length (str_of v)))))"
proof -
  obtain s1 where s1: "lookupKeyWrite s i key = Some (fst (fresh s i key), s1)" "keys_ok s1" "eff s s1 (vol s i key) []"
    "keyval s1 i key = fresh s i key" using lookupKeyWrite_ok [OF k] by blast
  note r1 = vol_reported [OF s1(3)]
  show ?thesis
  proof (cases "fst (fresh s i key)")
    case None
    obtain v :: "'a robj" where v: "tryObjectEncoding 1 (RawStr app) = Some v" "obj_ok v" "is_string v" "str_of v = app"
      using tryObjectEncoding_ok by blast
    obtain s2 where s2: "dbAdd s1 i key v = Some s2" "keys_ok s2" "eff s1 s2 {(i, key)} []" "keyval s2 i key = (Some v, snd (fresh s i key))"
      using dbAdd_ok [OF s1(2) _ v(2), of i key] None s1(4) by auto
    show ?thesis using None s1(1) v s2 modify_reported [OF s1(3) s2(3)]
      by (simp add: appendCommand_def stringObjectLen_ok)
  next
    case (Some o')
    have ok: "obj_ok o'" using fresh_obj_ok [OF k Some] .
    show ?thesis
    proof (cases "is_string o' \<and> checkStringLength (int (length (str_of o') + length app))")
      case False
      then show ?thesis using Some s1(1,2) r1 ok
        by (cases "is_string o'") (auto simp: appendCommand_def stringObjectLen_ok checkStringLength_def)
    next
      case True
      obtain s2 where s2: "dbOverwrite s1 i key (RawStr (str_of o' @ app)) = Some s2" "keys_ok s2" "eff s1 s2 {(i, key)} []"
        "keyval s2 i key = (Some (RawStr (str_of o' @ app)), snd (fresh s i key))"
        using dbOverwrite_ok [OF s1(2), of i key "RawStr (str_of o' @ app)"] Some s1(4) by auto
      then show ?thesis using Some True s1(1) ok modify_reported [OF s1(3) s2(3)]
        by (simp add: appendCommand_def stringObjectLen_ok getDecodedObject_ok)
    qed
  qed
qed

lemma append_ok: "cmd_ok (appendCommand key app)"
  using append_cases by (fastforce simp: cmd_ok_def)

lemma strlen_ok: "cmd_ok (strlenCommand key)"
proof (rule cmd_okI)
  fix s :: "'o server" and i
  assume k: "keys_ok s"
  obtain s1 where s1: "lookupKeyRead s i key = Some (fst (fresh s i key), s1)" "keys_ok s1" "eff s s1 (vol s i key) []"
    using lookupKeyRead_ok [OF k] by blast
  then show "\<exists>s' r. strlenCommand key s i = Some (s', r) \<and> keys_ok s' \<and> reported s s'"
    using vol_reported [OF s1(3)] fresh_obj_ok [OF k, of i key]
    by (cases "fst (fresh s i key)") (auto simp: strlenCommand_def stringObjectLen_ok)
qed

section \<open>What the commands do\<close>

text \<open>
  C32: After SET without options, GET returns the value byte for byte, also when it was stored as an integer;
  the key has no expiry time any more, and no other key has changed.
\<close>

theorem set_then_get:
  assumes "keys_ok s"
  shows "\<exists>s' s''. setCommand key val [] s i = Some (s', ROk) \<and> snd (keyval s' i key) = None \<and>
    (\<forall>d k. (d, k) \<noteq> (i, key) \<longrightarrow> keyval s' d k = keyval s d k) \<and> getCommand key s' i = Some (s'', RBulk val)"
proof -
  obtain v :: "'a robj" where v: "tryObjectEncoding 1 (RawStr val) = Some v" "obj_ok v" "is_string v" "str_of v = val"
    using tryObjectEncoding_ok by blast
  obtain s1 where s1: "setKey s i key v = Some s1" "keys_ok s1" "eff s s1 {(i, key)} [Modified i key]" "keyval s1 i key = (Some v, None)"
    using setKey_ok [OF assms v(2)] by blast
  let ?s = "add_dirty 1 s1"
  have "setCommand key val [] s i = Some (?s, ROk)"
    using v(1) s1(1) by (simp add: setCommand_def setGenericCommand_def expire_arg_def)
  moreover have "fresh ?s i key = (Some v, None)" using s1(4) by (simp add: fresh_def lapsed_def keyval_def)
  then have "\<exists>s''. getCommand key ?s i = Some (s'', RBulk val)"
    using getGeneric_ok [of ?s key i] s1(2) v by (auto simp: getCommand_def get_reply_def)
  ultimately show ?thesis using s1(3,4) eff_keyval by fastforce
qed

text \<open>
  INCR, DECR and INCRBY add exactly when the sum is a 64-bit integer: the stored value and the reply are the
  sum and the expiry time is kept; otherwise the reply is the overflow error and the key is unchanged.
\<close>

theorem incr_exact:
  assumes "keys_ok s" "is_ll incr"
    "case fst (fresh s i key) of None \<Rightarrow> True | Some o' \<Rightarrow> is_string o'"
    "getLongLongFromObject (fst (fresh s i key)) = Some (Some old)"
  shows "\<exists>s'. if is_ll (old + incr)
    then incrDecrCommand key incr s i = Some (s', RInt (old + incr)) \<and> keyval s' i key = (Some (IntStr (old + incr)), snd (fresh s i key))
    else incrDecrCommand key incr s i = Some (s', RErr ''ERR increment or decrement would overflow'') \<and> keyval s' i key = fresh s i key"
  using incrDecr_cases [OF assms(1,2), of key i] assms(3,4) by (auto split: if_splits)

text \<open>DECRBY with the least 64-bit integer negates it by wrap-around: a counter at 0 answers the least integer,
  although the difference, 2^63, does not fit and should be refused.\<close>

theorem decrby_min_wraps:
  assumes "keys_ok s" "fst (fresh s i key) = None"
  shows "\<exists>s'. decrbyCommand key (ll_repr (- (2 ^ 63))) s i = Some (s', RInt (- (2 ^ 63)))"
proof -
  have m: "is_ll (- (2 ^ 63))" by (simp add: is_ll_def)
  have "getLongLongFromObject (Some (RawStr (ll_repr (- (2 ^ 63))) :: 'a robj)) = Some (Some (- (2 ^ 63)))"
    by (rule getLongLong_repr) (simp_all add: m del: power_numeral)
  moreover have "wrap_ll (- (- (2 ^ 63))) = - (2 ^ 63)" by (simp add: wrap_ll_def of_ll_def to_ll_def)
  moreover have "getLongLongFromObject (fst (fresh s i key)) = Some (Some 0)" using assms(2) by (simp add: getLongLongFromObject_def)
  ultimately show ?thesis using incrDecr_cases [OF assms(1) m, of key i] assms(2) m
    by (auto simp: decrbyCommand_def simp del: power_numeral split: if_splits)
qed

text \<open>APPEND stores the old text followed by the argument, keeps the expiry time, and answers the new
  length, for every encoding of the old value, when the result is within the limit.\<close>

theorem append_concatenates:
  assumes "keys_ok s"
    "\<forall>o'. fst (fresh s i key) = Some o' \<longrightarrow> is_string o' \<and> length (str_of o') + length app \<le> 512 * 1024 * 1024"
  shows "\<exists>s' v. keyval s' i key = (Some v, snd (fresh s i key)) \<and>
    str_of v = (case fst (fresh s i key) of None \<Rightarrow> [] | Some o' \<Rightarrow> str_of o') @ app \<and>
    appendCommand key app s i = Some (s', RInt (int (length (str_of v))))"
  using append_cases [OF assms(1), of key app i] assms(2) by auto

lemma grow_write_nth:
  "length (grow_write t off v) = max (length t) (off + length v) \<and>
   (\<forall>j < max (length t) (off + length v). grow_write t off v ! j =
      (if off \<le> j \<and> j < off + length v then v ! (j - off) else if j < length t then t ! j else 0))"
proof -
  let ?g = "t @ replicate (off + length v - length t) 0"
  have l: "length ?g = max (length t) (off + length v)" by auto
  then have "off + length v \<le> length ?g" by simp
  then have "length (mem_write ?g off v) = length ?g" by (rule length_mem_write)
  then show ?thesis using l \<open>off + length v \<le> length ?g\<close> unfolding grow_write_def
    by (auto simp: nth_mem_write nth_append)
qed

text \<open>
  SETRANGE at an offset within the limit overlays the value: the bytes in the range are the value's, the
  others the old ones, and a gap is filled with zero bytes.
\<close>

theorem setrange_overlays:
  assumes "keys_ok s" "getLongFromObject (Some (RawStr arg :: 'o robj)) = Some (Some off)" "0 \<le> off"
    "\<forall>o'. fst (fresh s i key) = Some o' \<longrightarrow> is_string o'" "v \<noteq> []" "off + int (length v) \<le> 512 * 1024 * 1024"
  shows "\<exists>s' t old. old = (case fst (fresh s i key) of None \<Rightarrow> [] | Some o' \<Rightarrow> str_of o') \<and>
    setrangeCommand key arg v (s :: 'o server) i = Some (s', RInt (int (length t))) \<and>
    keyval s' i key = (Some (RawStr t), snd (fresh s i key)) \<and> length t = max (length old) (nat off + length v) \<and>
    (\<forall>j < length t. t ! j = (if nat off \<le> j \<and> j < nat off + length v then v ! (j - nat off) else if j < length old then old ! j else 0))"
proof -
  have "checkStringLength (to_ll (nat off + length v))" using assms(3,6) by (auto simp: checkStringLength_def to_ll_def)
  then show ?thesis
    using setrange_cases [OF assms(1,2,3), of key v i] assms(4,5)
      grow_write_nth [of "case fst (fresh s i key) of None \<Rightarrow> [] | Some o' \<Rightarrow> str_of o'" "nat off" v]
    by (auto simp: Let_def)
qed

text \<open>
  The length check of SETRANGE adds in unsigned and compares as signed: with the largest offset the
  sum is negative, and a string far beyond 512 MB is created.
\<close>

theorem setrange_limit_bypassed:
  assumes "keys_ok s" "fst (fresh s i key) = None" "v \<noteq> []" "length v \<le> 2 ^ 63"
  shows "\<exists>s' t. setrangeCommand key (ll_repr (2 ^ 63 - 1)) v s i = Some (s', RInt (int (length t))) \<and>
    fst (keyval s' i key) = Some (RawStr t) \<and> 2 ^ 63 - 1 < length t"
proof -
  have m: "is_ll (2 ^ 63 - 1)" by (simp add: is_ll_def)
  have g: "getLongFromObject (Some (RawStr (ll_repr (2 ^ 63 - 1)) :: 'a robj)) = Some (Some (2 ^ 63 - 1))"
    using getLongLong_repr [of "RawStr (ll_repr (2 ^ 63 - 1)) :: 'a robj" "2 ^ 63 - 1"] m
      getLong_LongLong [of "Some (RawStr (ll_repr (2 ^ 63 - 1)) :: 'a robj)"] by (simp del: power_numeral)
  have l: "length v \<noteq> 0" "nat (2 ^ 63 - 1) = 2 ^ 63 - 1" using assms(3) by auto
  have "checkStringLength (to_ll (nat (2 ^ 63 - 1) + length v))"
    using l assms(4) by (auto simp: checkStringLength_def to_ll_def)
  then show ?thesis
    using setrange_cases [OF assms(1) g, of key v i] assms(2,3) l grow_write_nth [of "[]" "2 ^ 63 - 1" v]
    by (auto simp: Let_def)
qed

text \<open>
  C35: GETRANGE with an end below 2^32 on a string shorter than that returns the slice between the two indices,
  negative indices counting from the end, both clamped to the string.
\<close>

theorem getrange_slice:
  assumes "keys_ok s" "getLongFromObject (Some (RawStr a1 :: 'o robj)) = Some (Some start)"
    "getLongFromObject (Some (RawStr a2 :: 'o robj)) = Some (Some fin)"
    "fst (fresh s i key) = Some o'" "is_string o'" "length (str_of o') < 2 ^ 32" "fin < 2 ^ 32"
  shows "\<exists>s'. getrangeCommand key a1 a2 (s :: 'o server) i = Some (s', range_exact (str_of o') start fin)"
  using getrange_cases [OF assms(1-3), of key i] assms(4,5) range_reply_ok [OF assms(7,6)] by auto

text \<open>
  The end index is compared with the length after a cut to 32 bits: with the end 2^32 every nonempty
  string shorter than that is read past its end.
\<close>

theorem getrange_reads_past_end:
  assumes "keys_ok s" "fst (fresh s i key) = Some o'" "is_string o'" "str_of o' \<noteq> []" "length (str_of o') \<le> 2 ^ 32"
  shows "getrangeCommand key (ll_repr 0) (ll_repr (2 ^ 32)) s i = None"
proof -
  have g: "getLongFromObject (Some (RawStr (ll_repr v) :: 'a robj)) = Some (Some v)" if "is_ll v" for v
    using getLongLong_repr [of "RawStr (ll_repr v) :: 'a robj" v] that getLong_LongLong [of "Some (RawStr (ll_repr v) :: 'a robj)"] by simp
  have "uint (word_of_int (2 ^ 32) :: 32 word) = 0" by simp
  then have "range_reply (str_of o') 0 (2 ^ 32) = None" using assms(4,5) by (simp add: range_reply_def Let_def)
  then show ?thesis using getrange_cases [OF assms(1) g g, of 0 "2 ^ 32" key i] assms(2,3)
    by (auto simp: is_ll_def)
qed

section \<open>Witnesses\<close>

lemma sample_fresh:
  "fresh sample_server 0 [107] = (Some (IntStr 5), Some 50)" "fresh sample_server 0 [108] = (Some (RawStr [1]), None)"
  "fresh sample_server 0 [109] = (None, None)"
  by (simp_all add: fresh_def lapsed_def keyval_def sample_server_def)

lemma getLong_repr: "is_ll v \<Longrightarrow> getLongFromObject (Some (RawStr (ll_repr v) :: 'o robj)) = Some (Some v)"
  using getLongLong_repr [of "RawStr (ll_repr v) :: 'o robj" v] getLong_LongLong [of "Some (RawStr (ll_repr v) :: 'o robj)"] by simp

theorem set_then_get_witness:
  "\<exists>s' s''. setCommand [109] [49, 50] [] sample_server 0 = Some (s', ROk) \<and> getCommand [109] s' 0 = Some (s'', RBulk [49, 50])"
  using set_then_get [OF sample_server_ok(1), of "[109]" "[49, 50]" 0] by blast

theorem incr_exact_witness:
  "\<exists>s'. incrDecrCommand [107] 3 sample_server 0 = Some (s', RInt 8) \<and> keyval s' 0 [107] = (Some (IntStr 8), Some 50)"
  using incr_exact [OF sample_server_ok(1), of 3 0 "[107]" 5]
  by (auto simp: sample_fresh is_ll_def getLongLongFromObject_def)

theorem decrby_min_wraps_witness:
  "\<exists>s'. decrbyCommand [109] (ll_repr (- (2 ^ 63))) sample_server 0 = Some (s', RInt (- (2 ^ 63)))"
  by (rule decrby_min_wraps [OF sample_server_ok(1)]) (simp add: sample_fresh)

theorem append_concatenates_witness:
  "\<exists>s'. appendCommand [108] [7] sample_server 0 = Some (s', RInt 2)"
  using append_concatenates [OF sample_server_ok(1), of 0 "[108]" "[7]"] by (auto simp: sample_fresh)

theorem setrange_overlays_witness:
  "\<exists>s' (t :: bytes). setrangeCommand [108] (ll_repr 3) [7] sample_server 0 = Some (s', RInt (int (length t))) \<and> length t = 4 \<and> t ! 2 = 0"
proof -
  have "getLongFromObject (Some (RawStr (ll_repr 3) :: unit robj)) = Some (Some 3)" by (rule getLong_repr) (simp add: is_ll_def)
  from setrange_overlays [OF sample_server_ok(1) this, of 0 "[108]" "[7]"] obtain s' and t :: bytes where
    "setrangeCommand [108] (ll_repr 3) [7] sample_server 0 = Some (s', RInt (int (length t)))" "length t = 4"
    "\<forall>j < length t. t ! j = (if nat 3 \<le> j \<and> j < nat 3 + length [7::byte] then [7] ! (j - nat 3) else if j < length [1::byte] then [1] ! j else 0)"
    by (auto simp: sample_fresh)
  then show ?thesis by (intro exI [of _ s'] exI [of _ t]) simp
qed

theorem setrange_limit_bypassed_witness:
  "\<exists>s' (t :: bytes). setrangeCommand [109] (ll_repr (2 ^ 63 - 1)) [7] sample_server 0 = Some (s', RInt (int (length t))) \<and> 2 ^ 63 - 1 < length t"
  using setrange_limit_bypassed [OF sample_server_ok(1), of 0 "[109]" "[7]"] by (simp add: sample_fresh) blast

theorem getrange_slice_witness:
  "\<exists>s'. getrangeCommand [108] (ll_repr 0) (ll_repr 9) sample_server 0 = Some (s', RBulk [1])"
proof -
  have g: "getLongFromObject (Some (RawStr (ll_repr v) :: unit robj)) = Some (Some v)" if "is_ll v" for v
    using that by (rule getLong_repr)
  from getrange_slice [OF sample_server_ok(1) g g, of 0 9 0 "[108]" "RawStr [1]"] show ?thesis
    by (auto simp: sample_fresh is_ll_def range_exact_def Let_def)
qed

theorem getrange_reads_past_end_witness:
  "getrangeCommand [108] (ll_repr 0) (ll_repr (2 ^ 32)) sample_server 0 = None"
  by (rule getrange_reads_past_end [OF sample_server_ok(1), of 0 _ "RawStr [1]"]) (simp_all add: sample_fresh)

end
