(* ===== verification/T_Set.thy ===== *)
theory T_Set
  imports Set_Type T_String
begin

text \<open>
  The set commands of \<^verbatim>\<open>debug/redis/src/t_set.c\<close> on the key space. The arguments of a command are its
  strings; an object is changed in place by \<open>put_set\<close>, which leaves the expiry time of the key alone. Two pointers to
  sets in a database are equal when the keys are. \<^verbatim>\<open>SRANDMEMBER\<close> with a count is not modelled.
\<close>

type_synonym srv = "set_obj server"

definition as_set :: "set_obj robj \<Rightarrow> set_obj option" where
  "as_set o' = (case o' of Other REDIS_SET e \<Rightarrow> Some e | _ \<Rightarrow> None)"

definition put_set :: "srv \<Rightarrow> nat \<Rightarrow> bytes \<Rightarrow> set_obj \<Rightarrow> srv" where
  "put_set s i key e = upd_db s i (\<lambda>d. d\<lparr>db_dict := (db_dict d)(key \<mapsto> Other REDIS_SET e)\<rparr>)"

section \<open>Single sets\<close>

fun sadd_loop :: "set_env \<Rightarrow> set_obj \<Rightarrow> bytes list \<Rightarrow> int \<Rightarrow> (set_obj \<times> int) option" where
  "sadd_loop env e [] added = Some (e, added)"
| "sadd_loop env e (v # vs) added =
     do { v \<leftarrow> tryObjectEncoding 1 (RawStr v);
          (e, ok) \<leftarrow> setTypeAdd env e v;
          sadd_loop env e vs (if ok then added + 1 else added) }"

definition saddCommand :: "set_env \<Rightarrow> bytes \<Rightarrow> bytes list \<Rightarrow> set_obj command" where
  "saddCommand env key vs s i =
     do { (v, s) \<leftarrow> lookupKeyWrite s i key;
          found \<leftarrow> (case v of
                      None \<Rightarrow> do { e \<leftarrow> setTypeCreate (RawStr (hd vs)); s \<leftarrow> dbAdd s i key (Other REDIS_SET e); Some (Some (e, s)) }
                    | Some o' \<Rightarrow> Some (map_option (\<lambda>e. (e, s)) (as_set o')));
          case found of
            None \<Rightarrow> Some (s, wrongtype)
          | Some (e, s) \<Rightarrow>
              do { (e, added) \<leftarrow> sadd_loop env e vs 0;
                   let s = put_set s i key e;
                   let s = (if added \<noteq> 0 then signalModifiedKey s i key else s);
                   Some (add_dirty added s, RInt added) } }"

text \<open>The boolean tells whether the last element was removed, which ends the loop.\<close>

fun srem_loop :: "set_env \<Rightarrow> set_obj \<Rightarrow> bytes list \<Rightarrow> int \<Rightarrow> (set_obj \<times> int \<times> bool) option" where
  "srem_loop env e [] deleted = Some (e, deleted, False)"
| "srem_loop env e (v # vs) deleted =
     do { (e, ok) \<leftarrow> setTypeRemove env e (RawStr v);
          if ok then
            (if setTypeSize e = 0 then Some (e, deleted + 1, True) else srem_loop env e vs (deleted + 1))
          else srem_loop env e vs deleted }"

definition sremCommand :: "set_env \<Rightarrow> bytes \<Rightarrow> bytes list \<Rightarrow> set_obj command" where
  "sremCommand env key vs s i =
     do { (v, s) \<leftarrow> lookupKeyWrite s i key;
          case v of
            None \<Rightarrow> Some (s, RInt 0)
          | Some o' \<Rightarrow>
              (case as_set o' of
                 None \<Rightarrow> Some (s, wrongtype)
               | Some e \<Rightarrow>
                   do { (e, deleted, emptied) \<leftarrow> srem_loop env e vs 0;
                        let s = put_set s i key e;
                        let s = (if emptied then snd (dbDelete s i key) else s);
                        Some (if deleted \<noteq> 0 then add_dirty deleted (signalModifiedKey s i key) else s, RInt deleted) }) }"

text \<open>The second half of \<^verbatim>\<open>SMOVE\<close>, which creates the destination when it does not exist.\<close>

definition smove_to :: "set_env \<Rightarrow> bytes \<Rightarrow> elem \<Rightarrow> set_obj option option \<Rightarrow> set_obj command" where
  "smove_to env dst ele dstset s i =
     do { (d, s) \<leftarrow> (case dstset of
                      Some (Some d) \<Rightarrow> Some (d, s)
                    | _ \<Rightarrow> do { d \<leftarrow> setTypeCreate ele; s \<leftarrow> dbAdd s i dst (Other REDIS_SET d); Some (d, s) });
          (d, ok) \<leftarrow> setTypeAdd env d ele;
          let s = put_set s i dst d;
          Some (if ok then add_dirty 1 s else s, RInt 1) }"

definition smoveCommand :: "set_env \<Rightarrow> bytes \<Rightarrow> bytes \<Rightarrow> bytes \<Rightarrow> set_obj command" where
  "smoveCommand env src dst val s i =
     do { (v, s) \<leftarrow> lookupKeyWrite s i src;
          (w, s) \<leftarrow> lookupKeyWrite s i dst;
          ele \<leftarrow> tryObjectEncoding 1 (RawStr val);
          case v of
            None \<Rightarrow> Some (s, RInt 0)
          | Some o' \<Rightarrow>
              (case (as_set o', map_option as_set w) of
                 (None, _) \<Rightarrow> Some (s, wrongtype)
               | (Some _, Some None) \<Rightarrow> Some (s, wrongtype)
               | (Some e, dstset) \<Rightarrow>
                   if src = dst then Some (s, RInt 1)
                   else
                     do { (e, ok) \<leftarrow> setTypeRemove env e ele;
                          let s = put_set s i src e;
                          if \<not> ok then Some (s, RInt 0)
                          else
                            (let s = (if setTypeSize e = 0 then snd (dbDelete s i src) else s);
                                 s = signalModifiedKey s i src;
                                 s = signalModifiedKey s i dst;
                                 s = add_dirty 1 s
                             in smove_to env dst ele dstset s i) }) }"

definition sismemberCommand :: "bytes \<Rightarrow> bytes \<Rightarrow> set_obj command" where
  "sismemberCommand key val s i =
     do { (v, s) \<leftarrow> lookupKeyRead s i key;
          case v of
            None \<Rightarrow> Some (s, RInt 0)
          | Some o' \<Rightarrow>
              (case as_set o' of
                 None \<Rightarrow> Some (s, wrongtype)
               | Some e \<Rightarrow>
                   do { ele \<leftarrow> tryObjectEncoding 1 (RawStr val);
                        b \<leftarrow> setTypeIsMember e ele;
                        Some (s, RInt (if b then 1 else 0)) }) }"

definition scardCommand :: "bytes \<Rightarrow> set_obj command" where
  "scardCommand key s i =
     do { (v, s) \<leftarrow> lookupKeyRead s i key;
          case v of
            None \<Rightarrow> Some (s, RInt 0)
          | Some o' \<Rightarrow> Some (s, case as_set o' of None \<Rightarrow> wrongtype | Some e \<Rightarrow> RInt (int (setTypeSize e))) }"

text \<open>Propagation as \<^verbatim>\<open>SREM\<close> is left out.\<close>

definition spopCommand :: "set_env \<Rightarrow> nat \<Rightarrow> bytes \<Rightarrow> set_obj command" where
  "spopCommand env rand key s i =
     do { (v, s) \<leftarrow> lookupKeyWrite s i key;
          case v of
            None \<Rightarrow> Some (s, RNull)
          | Some o' \<Rightarrow>
              (case as_set o' of
                 None \<Rightarrow> Some (s, wrongtype)
               | Some e \<Rightarrow>
                   do { let x = setTypeRandomElement rand e;
                        let ele = ele_object x;
                        e \<leftarrow> (case (x, e) of
                                (LlEle v, INTSET is) \<Rightarrow> Some (INTSET (fst (intsetRemove (is_junk env) is v)))
                              | _ \<Rightarrow> map_option fst (setTypeRemove env e ele));
                        let s = put_set s i key e;
                        let s = (if setTypeSize e = 0 then snd (dbDelete s i key) else s);
                        let s = signalModifiedKey s i key;
                        Some (add_dirty 1 s, bulk ele) }) }"

definition srandmemberCommand :: "nat \<Rightarrow> bytes \<Rightarrow> set_obj command" where
  "srandmemberCommand rand key s i =
     do { (v, s) \<leftarrow> lookupKeyRead s i key;
          Some (s, case v of
                     None \<Rightarrow> RNull
                   | Some o' \<Rightarrow>
                       (case as_set o' of
                          None \<Rightarrow> wrongtype
                        | Some e \<Rightarrow> (case setTypeRandomElement rand e of LlEle v \<Rightarrow> RBulk (ll_repr v) | ObjEle ele \<Rightarrow> bulk ele))) }"

section \<open>Intersection\<close>

datatype fetched = Missing | WrongType | Fetched "(bytes \<times> set_obj) list"

fun sinter_fetch :: "bool \<Rightarrow> bytes list \<Rightarrow> srv \<Rightarrow> nat \<Rightarrow> (srv \<times> fetched) option" where
  "sinter_fetch store [] s i = Some (s, Fetched [])"
| "sinter_fetch store (key # keys) s i =
     do { (v, s) \<leftarrow> (if store then lookupKeyWrite s i key else lookupKeyRead s i key);
          case v of
            None \<Rightarrow> Some (s, Missing)
          | Some o' \<Rightarrow>
              (case as_set o' of
                 None \<Rightarrow> Some (s, WrongType)
               | Some e \<Rightarrow>
                   do { (s, r) \<leftarrow> sinter_fetch store keys s i;
                        Some (s, case r of Fetched es \<Rightarrow> Fetched ((key, e) # es) | _ \<Rightarrow> r) }) }"

definition in_set :: "element \<Rightarrow> set_obj \<Rightarrow> bool option" where
  "in_set x e =
     (case (x, e) of
        (LlEle v, INTSET is) \<Rightarrow> Some (intsetFind is v)
      | (LlEle v, HT d) \<Rightarrow> setTypeIsMember e (createStringObjectFromLongLong v)
      | (ObjEle (IntStr v), INTSET is) \<Rightarrow> if \<not> intsetFind is v then Some False else setTypeIsMember e (IntStr v)
      | (ObjEle o', _) \<Rightarrow> setTypeIsMember e o')"

fun in_all :: "bytes \<Rightarrow> element \<Rightarrow> (bytes \<times> set_obj) list \<Rightarrow> bool option" where
  "in_all k0 x [] = Some True"
| "in_all k0 x ((k, e) # es) =
     (if k = k0 then in_all k0 x es
      else do { b \<leftarrow> in_set x e; if \<not> b then Some False else in_all k0 x es })"

fun inter_loop :: "bytes \<Rightarrow> element list \<Rightarrow> (bytes \<times> set_obj) list \<Rightarrow> element list option" where
  "inter_loop k0 [] es = Some []"
| "inter_loop k0 (x # xs) es =
     do { b \<leftarrow> in_all k0 x es; ys \<leftarrow> inter_loop k0 xs es; Some (if b then x # ys else ys) }"

fun add_all :: "set_env \<Rightarrow> set_obj \<Rightarrow> elem list \<Rightarrow> set_obj option" where
  "add_all env e [] = Some e"
| "add_all env e (x # xs) = do { (e, _) \<leftarrow> setTypeAdd env e x; add_all env e xs }"

definition store_result :: "bytes \<Rightarrow> set_obj \<Rightarrow> set_obj command" where
  "store_result dst e s i =
     do { let s = snd (dbDelete s i dst);
          (s, r) \<leftarrow> (if setTypeSize e > 0
                      then do { s \<leftarrow> dbAdd s i dst (Other REDIS_SET e); Some (s, RInt (int (setTypeSize e))) }
                      else Some (s, RInt 0));
          Some (add_dirty 1 (signalModifiedKey s i dst), r) }"

definition reply_ele :: "element \<Rightarrow> reply" where
  "reply_ele x = (case x of LlEle v \<Rightarrow> RBulk (ll_repr v) | ObjEle o' \<Rightarrow> bulk o')"

definition sinterGenericCommand :: "set_env \<Rightarrow> bytes list \<Rightarrow> bytes option \<Rightarrow> set_obj command" where
  "sinterGenericCommand env keys dst s i =
     do { (s, r) \<leftarrow> sinter_fetch (dst \<noteq> None) keys s i;
          case r of
            WrongType \<Rightarrow> Some (s, wrongtype)
          | Missing \<Rightarrow>
              (case dst of
                 None \<Rightarrow> Some (s, RMulti [])
               | Some d \<Rightarrow>
                   (case dbDelete s i d of (ok, s) \<Rightarrow>
                      Some (if ok then add_dirty 1 (signalModifiedKey s i d) else s, RInt 0)))
          | Fetched sets \<Rightarrow>
              (case sort_key (\<lambda>(_, e). setTypeSize e) sets of
                 [] \<Rightarrow> None
               | (k0, e0) # rest \<Rightarrow>
                   do { xs \<leftarrow> inter_loop k0 (elements env e0) rest;
                        case dst of
                          None \<Rightarrow> Some (s, RMulti (map reply_ele xs))
                        | Some d \<Rightarrow> do { e \<leftarrow> add_all env (INTSET intsetNew) (map ele_object xs); store_result d e s i } }) }"

definition sinterCommand :: "set_env \<Rightarrow> bytes list \<Rightarrow> set_obj command" where
  "sinterCommand env keys = sinterGenericCommand env keys None"

definition sinterstoreCommand :: "set_env \<Rightarrow> bytes \<Rightarrow> bytes list \<Rightarrow> set_obj command" where
  "sinterstoreCommand env dst keys = sinterGenericCommand env keys (Some dst)"

section \<open>Union and difference\<close>

datatype set_op = REDIS_OP_UNION | REDIS_OP_DIFF

text \<open>The inner \<open>None\<close> is the wrong type.\<close>

fun sunion_fetch :: "bool \<Rightarrow> bytes list \<Rightarrow> srv \<Rightarrow> nat \<Rightarrow> (srv \<times> set_obj option list option) option" where
  "sunion_fetch store [] s i = Some (s, Some [])"
| "sunion_fetch store (key # keys) s i =
     do { (v, s) \<leftarrow> (if store then lookupKeyWrite s i key else lookupKeyRead s i key);
          case v of
            None \<Rightarrow> do { (s, r) \<leftarrow> sunion_fetch store keys s i; Some (s, map_option ((#) None) r) }
          | Some o' \<Rightarrow>
              (case as_set o' of
                 None \<Rightarrow> Some (s, None)
               | Some e \<Rightarrow> do { (s, r) \<leftarrow> sunion_fetch store keys s i; Some (s, map_option ((#) (Some e)) r) }) }"

fun apply_loop :: "set_env \<Rightarrow> bool \<Rightarrow> elem list \<Rightarrow> set_obj \<Rightarrow> int \<Rightarrow> (set_obj \<times> int) option" where
  "apply_loop env add [] e cardinality = Some (e, cardinality)"
| "apply_loop env add (x # xs) e cardinality =
     (if add then
        do { (e, ok) \<leftarrow> setTypeAdd env e x; apply_loop env add xs e (if ok then cardinality + 1 else cardinality) }
      else
        do { (e, ok) \<leftarrow> setTypeRemove env e x; apply_loop env add xs e (if ok then cardinality - 1 else cardinality) })"

fun sets_loop :: "set_env \<Rightarrow> set_op \<Rightarrow> nat \<Rightarrow> set_obj option list \<Rightarrow> set_obj \<Rightarrow> int \<Rightarrow> (set_obj \<times> int) option" where
  "sets_loop env op j [] e cardinality = Some (e, cardinality)"
| "sets_loop env op j (so # sets) e cardinality =
     (if op = REDIS_OP_DIFF \<and> j = 0 \<and> so = None then Some (e, cardinality)
      else
        case so of
          None \<Rightarrow> sets_loop env op (j + 1) sets e cardinality
        | Some st \<Rightarrow>
            do { (e, cardinality) \<leftarrow>
                   apply_loop env (op = REDIS_OP_UNION \<or> j = 0) (map ele_object (elements env st)) e cardinality;
                 if op = REDIS_OP_DIFF \<and> cardinality = 0 then Some (e, cardinality)
                 else sets_loop env op (j + 1) sets e cardinality })"

text \<open>A reply whose announced length is not the number of its elements leaves the model.\<close>

definition sunionDiffGenericCommand :: "set_env \<Rightarrow> bytes list \<Rightarrow> bytes option \<Rightarrow> set_op \<Rightarrow> set_obj command" where
  "sunionDiffGenericCommand env keys dst op s i =
     do { (s, r) \<leftarrow> sunion_fetch (dst \<noteq> None) keys s i;
          case r of
            None \<Rightarrow> Some (s, wrongtype)
          | Some sets \<Rightarrow>
              do { (e, cardinality) \<leftarrow> sets_loop env op 0 sets (INTSET intsetNew) 0;
                   case dst of
                     None \<Rightarrow>
                       (let xs = elements env e in
                        if cardinality = int (length xs) then Some (s, RMulti (map (bulk \<circ> ele_object) xs)) else None)
                   | Some d \<Rightarrow> store_result d e s i } }"

definition sunionCommand :: "set_env \<Rightarrow> bytes list \<Rightarrow> set_obj command" where
  "sunionCommand env keys = sunionDiffGenericCommand env keys None REDIS_OP_UNION"

definition sunionstoreCommand :: "set_env \<Rightarrow> bytes \<Rightarrow> bytes list \<Rightarrow> set_obj command" where
  "sunionstoreCommand env dst keys = sunionDiffGenericCommand env keys (Some dst) REDIS_OP_UNION"

definition sdiffCommand :: "set_env \<Rightarrow> bytes list \<Rightarrow> set_obj command" where
  "sdiffCommand env keys = sunionDiffGenericCommand env keys None REDIS_OP_DIFF"

definition sdiffstoreCommand :: "set_env \<Rightarrow> bytes \<Rightarrow> bytes list \<Rightarrow> set_obj command" where
  "sdiffstoreCommand env dst keys = sunionDiffGenericCommand env keys (Some dst) REDIS_OP_DIFF"

section \<open>The invariant\<close>

text \<open>Every set in the key space is well formed and has an element.\<close>

definition good_val :: "set_env \<Rightarrow> set_obj robj option \<Rightarrow> bool" where
  "good_val env v \<longleftrightarrow> (\<forall>e. v = Some (Other REDIS_SET e) \<longrightarrow> set_ok env e \<and> members e \<noteq> {})"

definition srv_ok :: "set_env \<Rightarrow> srv \<Rightarrow> bool" where
  "srv_ok env s \<longleftrightarrow> set_env_ok env \<and> keys_ok s \<and> (\<forall>d k. good_val env (fst (keyval s d k)))"

lemma as_set_some [simp]: "as_set o' = Some e \<longleftrightarrow> o' = Other REDIS_SET e"
  by (auto simp: as_set_def split: robj.splits rtype.splits)

lemma as_set_set [simp]: "as_set (Other REDIS_SET e) = Some e"
  by simp

lemma fresh_good: "srv_ok env s \<Longrightarrow> good_val env (fst (fresh s d k))"
  by (auto simp: srv_ok_def fresh_def good_val_def)

text \<open>The set under a key, as a client sees it; a missing key is an empty set.\<close>

definition smem :: "srv \<Rightarrow> nat \<Rightarrow> bytes \<Rightarrow> bytes set" where
  "smem s i key = (case fst (fresh s i key) of None \<Rightarrow> {} | Some o' \<Rightarrow> (case as_set o' of None \<Rightarrow> {} | Some e \<Rightarrow> members e))"

definition set_key :: "srv \<Rightarrow> nat \<Rightarrow> bytes \<Rightarrow> bool" where
  "set_key s i key \<longleftrightarrow> (case fst (fresh s i key) of None \<Rightarrow> True | Some o' \<Rightarrow> as_set o' \<noteq> None)"

lemma set_key_cases:
  assumes "srv_ok env s" "set_key s i key"
  obtains "fst (fresh s i key) = None" "smem s i key = {}"
    | e where "fst (fresh s i key) = Some (Other REDIS_SET e)" "set_ok env e" "members e \<noteq> {}" "smem s i key = members e"
  using assms(2) fresh_good [OF assms(1), of i key]
  by (auto simp: set_key_def smem_def good_val_def split: option.splits)

lemma fresh_some: "fst (fresh s i key) = Some o' \<Longrightarrow> fresh s i key = keyval s i key"
  by (auto simp: fresh_def split: if_splits)

lemma look_fresh:
  assumes "eff s s' (vol s i key) []" "keyval s' i key = fresh s i key"
  shows "fresh s' = fresh s"
proof (intro ext)
  fix d k
  show "fresh s' d k = fresh s d k"
  proof (cases "(d, k) = (i, key) \<and> lapsed s i key")
    case True
    then have "keyval s' d k = (None, None)" "fresh s d k = (None, None)" using assms(2) by (auto simp: fresh_def)
    then show ?thesis by (simp add: fresh_def)
  next
    case False
    then have "(d, k) \<notin> vol s i key" by (auto simp: vol_def)
    then show ?thesis by (rule eff_fresh [OF assms(1)])
  qed
qed

lemma look:
  assumes "srv_ok env s"
  shows "\<exists>s'. (if w then lookupKeyWrite s i key else lookupKeyRead s i key) = Some (fst (fresh s i key), s') \<and> srv_ok env s' \<and>
    fresh s' = fresh s \<and> keyval s' i key = fresh s i key \<and> reported s s'"
proof -
  have k: "keys_ok s" using assms by (simp add: srv_ok_def)
  obtain s' where s': "(if w then lookupKeyWrite s i key else lookupKeyRead s i key) = Some (fst (fresh s i key), s')" "keys_ok s'"
      "eff s s' (vol s i key) []" "keyval s' i key = fresh s i key"
    using lookupKeyWrite_ok [OF k, of i key] lookupKeyRead_ok [OF k, of i key] by (cases w) auto
  have "good_val env (fst (keyval s' d k))" for d k
    using assms fresh_good [OF assms, of i key] s'(3,4) eff_keyval [OF s'(3) vol_other, of d k]
    by (cases "(d, k) = (i, key)") (auto simp: srv_ok_def)
  then show ?thesis using s' look_fresh [OF s'(3,4)] vol_reported [OF s'(3)] assms by (auto simp: srv_ok_def)
qed

lemmas lookW = look [where w = True, simplified] and lookR = look [where w = False, simplified]

text \<open>A change of the value under one key.\<close>

lemma changed:
  assumes "srv_ok env s" "keys_ok s'" "eff s s' {(i, key)} new" "good_val env (fst (keyval s' i key))"
    and "snd (keyval s' i key) = None \<or> fresh s i key = keyval s i key \<and> snd (keyval s' i key) = snd (keyval s i key)"
  shows "srv_ok env s' \<and> fresh s' = (\<lambda>d k. if d = i \<and> k = key then keyval s' i key else fresh s d k)"
proof -
  have "good_val env (fst (keyval s' d k))" for d k
    using assms(1,4) eff_keyval [OF assms(3), of d k] by (cases "(d, k) = (i, key)") (auto simp: srv_ok_def)
  moreover have "\<not> lapsed s' i key"
  proof
    assume l: "lapsed s' i key"
    then have "snd (keyval s' i key) = snd (keyval s i key)" "fresh s i key = keyval s i key"
      using assms(5) by (auto simp: lapsed_def keyval_def)
    moreover from this(1) have "lapsed s i key" using l assms(3) by (simp add: lapsed_def eff_def keyval_def split: option.splits)
    ultimately have "keyval s i key = (None, None)" by (simp add: fresh_def)
    with \<open>lapsed s i key\<close> show False by (simp add: lapsed_def keyval_def)
  qed
  then have "fresh s' i key = keyval s' i key" by (simp add: fresh_def)
  moreover have "fresh s' d k = fresh s d k" if "(d, k) \<noteq> (i, key)" for d k using eff_fresh [OF assms(3), of d k] that by simp
  ultimately show ?thesis using assms(1,2) by (auto simp: srv_ok_def fun_eq_iff)
qed

lemma put_set_ok:
  assumes "keys_ok s"
  shows "keys_ok (put_set s i key e) \<and> eff s (put_set s i key e) {(i, key)} [] \<and>
    keyval (put_set s i key e) i key = (Some (Other REDIS_SET e), snd (keyval s i key))"
proof -
  have "keys_ok (put_set s i key e)"
    unfolding put_set_def using assms by (intro keys_ok_upd) (fastforce simp: keys_ok_def split: if_splits)+
  then show ?thesis by (auto simp: put_set_def keyval_upd_db eff_def) (auto simp: keyval_def)
qed

section \<open>Single sets\<close>

lemma sadd_loop_ok:
  "set_ok env e \<Longrightarrow> \<exists>e'. sadd_loop env e vs n = Some (e', n + int (card (set vs - members e))) \<and> set_ok env e' \<and>
     members e' = members e \<union> set vs"
proof (induction vs arbitrary: e n)
  case (Cons v vs)
  obtain e1 where e1: "setTypeAdd env e (encoded v) = Some (e1, v \<notin> members e)" "set_ok env e1" "members e1 = insert v (members e)"
    using setTypeAdd_ok [OF Cons.prems encoded_ok(2), of v] encoded_ok(3) [of v] by auto
  have c: "int (card (set (v # vs) - members e)) = (if v \<notin> members e then 1 else 0) + int (card (set vs - insert v (members e)))"
  proof (cases "v \<in> members e")
    case True
    then show ?thesis by (simp add: insert_absorb insert_Diff_if)
  next
    case False
    then have "set (v # vs) - members e = insert v (set vs - insert v (members e))" by auto
    then show ?thesis using False by simp
  qed
  show ?case using Cons.IH [OF e1(2), of "if v \<notin> members e then n + 1 else n"] e1 encoded_ok(1) [of v] unfolding c
    by (auto split: if_splits)
qed simp

lemma srem_loop_ok:
  "set_ok env e \<Longrightarrow> members e \<noteq> {} \<Longrightarrow>
   \<exists>e'. srem_loop env e vs n = Some (e', n + int (card (set vs \<inter> members e)), members e \<subseteq> set vs) \<and> set_ok env e' \<and>
     members e' = members e - set vs"
proof (induction vs arbitrary: e n)
  case (Cons v vs)
  obtain e1 where e1: "setTypeRemove env e (RawStr v) = Some (e1, v \<in> members e)" "set_ok env e1" "members e1 = members e - {v}"
    using setTypeRemove_ok [OF Cons.prems(1) raw_ok(1), of v] by auto
  have z: "setTypeSize e1 = 0 \<longleftrightarrow> members e1 = {}" using card_members [OF e1(2)] by (metis card_0_eq finite_members)
  consider "v \<notin> members e" | "members e = {v}" | "v \<in> members e" "members e - {v} \<noteq> {}" by auto
  then show ?case
  proof cases
    case 1
    then show ?thesis using Cons.IH [OF e1(2), of n] e1 Cons.prems(2) by auto
  next
    case 2
    then have "set (v # vs) \<inter> members e = {v}" by auto
    then show ?thesis using 2 e1 z by auto
  next
    case 3
    have "set (v # vs) \<inter> members e = insert v (set vs \<inter> (members e - {v}))" using 3 by auto
    then have "card (set (v # vs) \<inter> members e) = 1 + card (set vs \<inter> (members e - {v}))" by simp
    then show ?thesis using Cons.IH [OF e1(2), of "n + 1"] e1 3 z by auto
  qed
qed auto

text \<open>\<open>becomes\<close>: the key holds the set \<open>M\<close>, or nothing when it is empty; no other key has changed.\<close>

definition becomes :: "set_env \<Rightarrow> srv \<Rightarrow> srv \<Rightarrow> nat \<Rightarrow> bytes \<Rightarrow> bytes set \<Rightarrow> bool" where
  "becomes env s s' i key M \<longleftrightarrow> srv_ok env s' \<and> set_key s' i key \<and> smem s' i key = M \<and>
     (M = {} \<longrightarrow> fresh s' i key = (None, None)) \<and> (\<forall>d k. (d, k) \<noteq> (i, key) \<longrightarrow> fresh s' d k = fresh s d k)"

lemma becomes_value:
  assumes "srv_ok env s" "keys_ok s'" "eff s s' {(i, key)} new" "x = None \<or> fresh s i key = keyval s i key \<and> x = snd (keyval s i key)"
    and "keyval s' i key = (if M = {} then (None, None) else (Some (Other REDIS_SET e), x))"
    and "M \<noteq> {} \<Longrightarrow> set_ok env e \<and> members e = M"
  shows "becomes env s s' i key M" "fresh s' i key = keyval s' i key"
proof -
  have g: "good_val env (fst (keyval s' i key))"
      "snd (keyval s' i key) = None \<or> fresh s i key = keyval s i key \<and> snd (keyval s' i key) = snd (keyval s i key)"
    using assms(4-6) by (auto simp: good_val_def)
  from changed [OF assms(1-3) g] assms(5,6) show "becomes env s s' i key M" "fresh s' i key = keyval s' i key"
    by (auto simp: becomes_def set_key_def smem_def split: if_splits)
qed

lemma becomes_lookup: "fresh s1 = fresh s \<Longrightarrow> becomes env s1 s' i key M \<Longrightarrow> becomes env s s' i key M"
  by (simp add: becomes_def)

lemma fresh_dirty [simp]: "fresh (s\<lparr>dirty := n\<rparr>) = fresh s"
  by (simp add: fresh_def lapsed_def keyval_def fun_eq_iff split: option.split)

lemma fresh_signal [simp]: "fresh (signalModifiedKey s d k) = fresh s"
  by (simp add: fresh_def lapsed_def keyval_def fun_eq_iff signalModifiedKey_def split: option.split)

lemma srv_ok_simps [simp]:
  "srv_ok env (s\<lparr>dirty := n\<rparr>) = srv_ok env s" "srv_ok env (signalModifiedKey s d k) = srv_ok env s"
  by (simp_all add: srv_ok_def)

lemma becomes_simps [simp]:
  "becomes env s (s'\<lparr>dirty := n\<rparr>) i key M = becomes env s s' i key M"
  "becomes env s (signalModifiedKey s' d k) i key M = becomes env s s' i key M"
  by (simp_all add: becomes_def set_key_def smem_def)

text \<open>Operations that report no change leave the object as it is.\<close>

lemma setTypeAdd_same: "setTypeAdd env e v = Some (e', False) \<Longrightarrow> e' = e"
  by (auto simp: setTypeAdd_def ht_add_def intsetAdd_def Let_def
      split: set_obj.splits if_splits option.splits prod.splits Option.bind_splits)

lemma setTypeRemove_same: "setTypeRemove env e v = Some (e', False) \<Longrightarrow> e' = e"
  by (auto simp: setTypeRemove_def ht_delete_def ht_find_def intsetRemove_def Let_def filter_id_conv list_ex_iff
      split: set_obj.splits if_splits option.splits prod.splits Option.bind_splits)

lemma sadd_loop_same: "sadd_loop env e vs n = Some (e', m) \<Longrightarrow> n \<le> m \<and> (m = n \<longrightarrow> e' = e)"
proof (induction vs arbitrary: e n)
  case (Cons v vs)
  then obtain e1 ok where "setTypeAdd env e (encoded v) = Some (e1, ok)" "sadd_loop env e1 vs (if ok then n + 1 else n) = Some (e', m)"
    using encoded_ok(1) [of v] by (auto split: Option.bind_splits)
  then show ?case using Cons.IH [of e1 "if ok then n + 1 else n"] setTypeAdd_same [of env e "encoded v" e1] by (cases ok) auto
qed simp

lemma srem_loop_same: "srem_loop env e vs n = Some (e', m, b) \<Longrightarrow> n \<le> m \<and> (m = n \<longrightarrow> e' = e \<and> \<not> b)"
proof (induction vs arbitrary: e n)
  case (Cons v vs)
  then obtain e1 ok where e1: "setTypeRemove env e (RawStr v) = Some (e1, ok)" by (auto split: Option.bind_splits)
  then show ?case using Cons.prems Cons.IH [of e1 "if ok then n + 1 else n"] setTypeRemove_same [of env e "RawStr v" e1]
    by (cases ok) (auto split: if_splits)
qed simp

lemma sadd_ok:
  assumes "srv_ok env s" "set_key s i key" "vs \<noteq> []"
  shows "\<exists>s'. saddCommand env key vs s i = Some (s', RInt (int (card (set vs - smem s i key)))) \<and>
    becomes env s s' i key (smem s i key \<union> set vs) \<and> snd (fresh s' i key) = snd (fresh s i key) \<and> reported s s'"
proof -
  obtain s1 where s1: "lookupKeyWrite s i key = Some (fst (fresh s i key), s1)" "srv_ok env s1" "fresh s1 = fresh s"
      "keyval s1 i key = fresh s i key" "reported s s1" using lookW [OF assms(1)] by blast
  have k1: "keys_ok s1" "set_env_ok env" using s1(2) by (simp_all add: srv_ok_def)
  let ?found = "case fst (fresh s i key) of
      None \<Rightarrow> do { e \<leftarrow> setTypeCreate (RawStr (hd vs)); s \<leftarrow> dbAdd s1 i key (Other REDIS_SET e); Some (Some (e, s)) }
    | Some o' \<Rightarrow> Some (map_option (\<lambda>e. (e, s1)) (as_set o'))"
  have "\<exists>e s2. ?found = Some (Some (e, s2)) \<and> set_ok env e \<and> members e = smem s i key \<and> keys_ok s2 \<and> eff s1 s2 {(i, key)} [] \<and>
      snd (keyval s2 i key) = snd (fresh s i key)"
  proof (rule set_key_cases [OF assms(1,2)])
    assume n: "fst (fresh s i key) = None" "smem s i key = {}"
    obtain e where e: "setTypeCreate (RawStr (hd vs)) = Some e" "set_ok env e" "members e = {}"
      using setTypeCreate_ok [OF k1(2) raw_ok(1)] by blast
    obtain s2 where "dbAdd s1 i key (Other REDIS_SET e) = Some s2" "keys_ok s2" "eff s1 s2 {(i, key)} []"
        "keyval s2 i key = (Some (Other REDIS_SET e), snd (keyval s1 i key))"
      using dbAdd_ok [OF k1(1), of i key "Other REDIS_SET e"] n(1) s1(4) by auto
    then show ?thesis using n e s1(4) by simp
  next
    fix e assume "fst (fresh s i key) = Some (Other REDIS_SET e)" "set_ok env e" "smem s i key = members e"
    then show ?thesis using k1(1) s1(4) eff_mono [OF eff_refl] by auto
  qed
  then obtain e s2 where f: "?found = Some (Some (e, s2))" and s2: "set_ok env e" "members e = smem s i key" "keys_ok s2"
      "eff s1 s2 {(i, key)} []" "snd (keyval s2 i key) = snd (fresh s i key)" by blast
  obtain e' where e': "sadd_loop env e vs 0 = Some (e', int (card (set vs - smem s i key)))" "set_ok env e'" "members e' = smem s i key \<union> set vs"
    using sadd_loop_ok [OF s2(1), of vs 0] s2(2) by auto
  note p = put_set_ok [OF s2(3), of i key e']
  have ef: "eff s1 (put_set s2 i key e') {(i, key)} []" using eff_trans [OF s2(4), of "put_set s2 i key e'"] p by fastforce
  have kv: "keyval (put_set s2 i key e') i key =
      (if smem s i key \<union> set vs = {} then (None, None) else (Some (Other REDIS_SET e'), snd (keyval s2 i key)))"
    using p assms(3) by auto
  have "snd (keyval s2 i key) = None \<or> fresh s1 i key = keyval s1 i key \<and> snd (keyval s2 i key) = snd (keyval s1 i key)"
      "keys_ok (put_set s2 i key e')"
    using s1(3,4) s2(5) p by auto
  note b' = becomes_value [OF s1(2) this(2) ef this(1) kv]
  have b: "becomes env s (put_set s2 i key e') i key (smem s i key \<union> set vs)" "fresh (put_set s2 i key e') i key = keyval (put_set s2 i key e') i key"
    using b' e'(2,3) becomes_lookup [OF s1(3)] by blast+
  let ?n = "int (card (set vs - smem s i key))"
  have "reported s1 (if ?n \<noteq> 0 then signalModifiedKey (put_set s2 i key e') i key else put_set s2 i key e')"
  proof (cases "?n = 0")
    case False
    then show ?thesis using signal_reported [OF ef] by (simp only: if_True not_False_eq_True)
  next
    case True
    then have "smem s i key \<noteq> {}" using assms(3) by auto
    then have c: "fst (fresh s i key) = Some (Other REDIS_SET e)" "s2 = s1" using f by (auto simp: smem_def split: option.splits)
    have "e' = e" using sadd_loop_same [OF e'(1)] True by simp
    then have "eff s1 (put_set s2 i key e') {} []" using eff_same [OF ef] p c s1(4) by (simp add: prod_eq_iff)
    then have "reported s1 (put_set s2 i key e')" by (rule eff_reported) simp
    then show ?thesis using True by simp
  qed
  note r = reported_trans [OF s1(5) this]
  have "saddCommand env key vs s i = Some (add_dirty ?n (if ?n \<noteq> 0 then signalModifiedKey (put_set s2 i key e') i key else put_set s2 i key e'), RInt ?n)"
    using s1(1) f e'(1) by (simp add: saddCommand_def Let_def)
  then show ?thesis using r b p s2(5) by (auto split: if_splits)
qed

text \<open>The object is written back, and the key deleted when the set is empty.\<close>

lemma write_back:
  assumes "srv_ok env s" "fresh s i key = keyval s i key" "set_ok env e" "b \<longleftrightarrow> members e = {}"
  defines "s' \<equiv> if b then snd (dbDelete (put_set s i key e) i key) else put_set s i key e"
  shows "becomes env s s' i key (members e)" "eff s s' {(i, key)} []" "members e \<noteq> {} \<Longrightarrow> snd (fresh s' i key) = snd (fresh s i key)"
proof -
  have k: "keys_ok s" using assms(1) by (simp add: srv_ok_def)
  note p = put_set_ok [OF k, of i key e]
  from dbDelete_ok [of "put_set s i key e" i key] p have d: "keys_ok (snd (dbDelete (put_set s i key e) i key))"
    "eff (put_set s i key e) (snd (dbDelete (put_set s i key e) i key)) {(i, key)} []"
    "keyval (snd (dbDelete (put_set s i key e) i key)) i key = (None, None)" by auto
  have e: "eff s s' {(i, key)} []" "keys_ok s'" using p d(1) eff_trans [of s "put_set s i key e" "{(i, key)}" "[]", OF _ d(2)] by (simp_all add: s'_def)
  have kv: "keyval s' i key = (if members e = {} then (None, None) else (Some (Other REDIS_SET e), snd (keyval s i key)))"
    using p d(3) assms(4) by (simp add: s'_def)
  note b' = becomes_value [OF assms(1) e(2,1) disjI2 [OF conjI [OF assms(2) refl]] kv]
  show "becomes env s s' i key (members e)" using b' assms(3) by blast
  have "fresh s' i key = keyval s' i key" using b' assms(3) by blast
  then show "members e \<noteq> {} \<Longrightarrow> snd (fresh s' i key) = snd (fresh s i key)" using kv assms(2) by simp
  show "eff s s' {(i, key)} []" by (rule e)
qed

lemma unchanged_put:
  assumes "keys_ok s" "keyval s i key = (Some (Other REDIS_SET e), x)"
  shows "eff s (put_set s i key e) {} []"
  using put_set_ok [OF assms(1), of i key e] eff_same assms(2) by fastforce

lemma becomes_refl:
  assumes "srv_ok env s" "set_key s i key"
  shows "becomes env s s i key (smem s i key)"
  by (rule set_key_cases [OF assms])
     (use assms keys_ok_fresh [of s i key] in \<open>auto simp: becomes_def srv_ok_def prod_eq_iff\<close>)

lemma srem_ok:
  assumes "srv_ok env s" "set_key s i key"
  shows "\<exists>s'. sremCommand env key vs s i = Some (s', RInt (int (card (set vs \<inter> smem s i key)))) \<and>
    becomes env s s' i key (smem s i key - set vs) \<and> reported s s'"
proof -
  obtain s1 where s1: "lookupKeyWrite s i key = Some (fst (fresh s i key), s1)" "srv_ok env s1" "fresh s1 = fresh s"
      "keyval s1 i key = fresh s i key" "reported s s1" using lookW [OF assms(1)] by blast
  have k1: "keys_ok s1" using s1(2) by (simp add: srv_ok_def)
  show ?thesis
  proof (rule set_key_cases [OF assms])
    assume n: "fst (fresh s i key) = None" "smem s i key = {}"
    have "set_key s1 i key" "smem s1 i key = {}" using n s1(3) assms(2) by (simp_all add: set_key_def smem_def)
    then have "becomes env s s1 i key {}" using becomes_lookup [OF s1(3) becomes_refl [OF s1(2)], of i key] by simp
    then show ?thesis using n s1(1,5) by (simp add: sremCommand_def)
  next
    fix e assume e: "fst (fresh s i key) = Some (Other REDIS_SET e)" "set_ok env e" "members e \<noteq> {}" "smem s i key = members e"
    let ?n = "int (card (set vs \<inter> members e))" and ?b = "members e \<subseteq> set vs"
    obtain e' where e': "srem_loop env e vs 0 = Some (e', ?n, ?b)" "set_ok env e'" "members e' = members e - set vs"
      using srem_loop_ok [OF e(2,3), of vs 0] by auto
    let ?s = "if ?b then snd (dbDelete (put_set s1 i key e') i key) else put_set s1 i key e'"
    have f: "fresh s1 i key = keyval s1 i key" "?b \<longleftrightarrow> members e' = {}" using s1(3,4) e'(3) by auto
    note w = write_back [OF s1(2) f(1) e'(2) f(2)]
    have c: "sremCommand env key vs s i = Some (if ?n \<noteq> 0 then add_dirty ?n (signalModifiedKey ?s i key) else ?s, RInt ?n)"
      using s1(1) e(1) e'(1) by (simp add: sremCommand_def Let_def)
    have "reported s1 (if ?n \<noteq> 0 then add_dirty ?n (signalModifiedKey ?s i key) else ?s)"
    proof (cases "?n = 0")
      case False
      then show ?thesis using signal_reported [OF w(2)] by simp
    next
      case True
      then have "e' = e" "\<not> ?b" using srem_loop_same [OF e'(1)] by simp_all
      then show ?thesis using True eff_reported [OF unchanged_put [OF k1, of i key e "snd (fresh s i key)"]] s1(4) e(1)
        by (simp add: prod_eq_iff)
    qed
    then show ?thesis using c w(1) becomes_lookup [OF s1(3)] reported_trans [OF s1(5)] e(4) e'(3) by (auto split: if_splits)
  qed
qed

lemma smove_to_ok:
  assumes "srv_ok env s" "set_key s i dst" "fresh s i dst = keyval s i dst" "elem_ok ele"
  shows "\<exists>s'. smove_to env dst ele (map_option as_set (fst (fresh s i dst))) s i = Some (s', RInt 1) \<and>
    becomes env s s' i dst (insert (str_of ele) (smem s i dst)) \<and> eff s s' {(i, dst)} []"
proof -
  have k: "keys_ok s" "set_env_ok env" using assms(1) by (simp_all add: srv_ok_def)
  let ?o = "case map_option as_set (fst (fresh s i dst)) of
        Some (Some d) \<Rightarrow> Some (d, s)
      | _ \<Rightarrow> do { d \<leftarrow> setTypeCreate ele; s \<leftarrow> dbAdd s i dst (Other REDIS_SET d); Some (d, s) }"
  have "\<exists>d s2. ?o = Some (d, s2) \<and>
      set_ok env d \<and> members d = smem s i dst \<and> keys_ok s2 \<and> eff s s2 {(i, dst)} [] \<and> snd (keyval s2 i dst) = snd (keyval s i dst)"
  proof (rule set_key_cases [OF assms(1,2)])
    assume n: "fst (fresh s i dst) = None" "smem s i dst = {}"
    obtain d where d: "setTypeCreate ele = Some d" "set_ok env d" "members d = {}"
      using setTypeCreate_ok [OF k(2) assms(4)] by blast
    then show ?thesis using dbAdd_ok [OF k(1), of i dst "Other REDIS_SET d"] n assms(3) by auto
  next
    fix e assume "fst (fresh s i dst) = Some (Other REDIS_SET e)" "set_ok env e" "smem s i dst = members e"
    then show ?thesis using k(1) eff_mono [OF eff_refl] by auto
  qed
  then obtain d s2 where o: "?o = Some (d, s2)" and d: "set_ok env d" "members d = smem s i dst" "keys_ok s2"
    "eff s s2 {(i, dst)} []" "snd (keyval s2 i dst) = snd (keyval s i dst)" by blast
  obtain d' where d': "setTypeAdd env d ele = Some (d', str_of ele \<notin> smem s i dst)" "set_ok env d'"
      "members d' = insert (str_of ele) (smem s i dst)"
    using setTypeAdd_ok [OF d(1) assms(4)] d(2) by auto
  note p = put_set_ok [OF d(3), of i dst d']
  have e: "eff s (put_set s2 i dst d') {(i, dst)} []" using eff_trans [OF d(4), of "put_set s2 i dst d'" "{(i, dst)}" "[]"] p by simp
  have "becomes env s (put_set s2 i dst d') i dst (insert (str_of ele) (smem s i dst))"
    by (rule becomes_value(1) [OF assms(1) _ e, where e = d' and x = "snd (keyval s2 i dst)"]) (use p d(5) d'(2,3) assms(3) in auto)
  moreover have "smove_to env dst ele (map_option as_set (fst (fresh s i dst))) s i =
      Some (if str_of ele \<notin> smem s i dst then add_dirty 1 (put_set s2 i dst d') else put_set s2 i dst d', RInt 1)"
    unfolding smove_to_def o using d'(1) by (simp add: Let_def)
  ultimately show ?thesis using e by auto
qed

lemma smove_ok:
  assumes "srv_ok env s" "set_key s i src" "set_key s i dst" "src \<noteq> dst"
  shows "\<exists>s'. smoveCommand env src dst val s i = Some (s', RInt (if val \<in> smem s i src then 1 else 0)) \<and> srv_ok env s' \<and>
    smem s' i src = smem s i src - {val} \<and> smem s' i dst = (if val \<in> smem s i src then insert val (smem s i dst) else smem s i dst) \<and>
    (\<forall>d k. (d, k) \<notin> {(i, src), (i, dst)} \<longrightarrow> fresh s' d k = fresh s d k) \<and> reported s s'"
proof -
  obtain s1 where s1: "lookupKeyWrite s i src = Some (fst (fresh s i src), s1)" "srv_ok env s1" "fresh s1 = fresh s"
      "keyval s1 i src = fresh s i src" "reported s s1" using lookW [OF assms(1)] by blast
  obtain s2 where s2: "lookupKeyWrite s1 i dst = Some (fst (fresh s i dst), s2)" "srv_ok env s2" "fresh s2 = fresh s"
      "keyval s2 i dst = fresh s i dst" "reported s s2"
    using lookW [OF s1(2), of i dst] s1(3,5) reported_trans by fastforce
  have dst: "map_option as_set (fst (fresh s i dst)) \<noteq> Some None" using assms(3) by (auto simp: set_key_def)
  show ?thesis
  proof (rule set_key_cases [OF assms(1,2)])
    assume "fst (fresh s i src) = None" "smem s i src = {}"
    then show ?thesis using s1(1) s2 encoded_ok(1) [of val] by (simp add: smoveCommand_def smem_def)
  next
    fix e assume e: "fst (fresh s i src) = Some (Other REDIS_SET e)" "set_ok env e" "members e \<noteq> {}" "smem s i src = members e"
    obtain e1 where e1: "setTypeRemove env e (encoded val) = Some (e1, val \<in> members e)" "set_ok env e1" "members e1 = members e - {val}"
      using setTypeRemove_ok [OF e(2) encoded_ok(2), of val] encoded_ok(3) [of val] by auto
    have z: "setTypeSize e1 = 0 \<longleftrightarrow> members e1 = {}" using card_members [OF e1(2)] by (metis card_0_eq finite_members)
    have f2: "fresh s2 i src = keyval s2 i src" by (rule fresh_some) (use e(1) s2(3) in simp)
    have kv2: "keyval s2 i src = (Some (Other REDIS_SET e), snd (fresh s i src))" using e(1) s2(3) f2 by (simp add: prod_eq_iff)
    have k2: "keys_ok s2" using s2(2) by (simp add: srv_ok_def)
    let ?s3 = "if setTypeSize e1 = 0 then snd (dbDelete (put_set s2 i src e1) i src) else put_set s2 i src e1"
    note w = write_back [OF s2(2) f2 e1(2) z]
    show ?thesis
    proof (cases "val \<in> members e")
      case False
      then have s3: "e1 = e" "?s3 = put_set s2 i src e1" using setTypeRemove_same e1 e(3) z by auto
      have "smoveCommand env src dst val s i = Some (?s3, RInt 0)"
        using s1(1) s2(1) e(1) e1(1) encoded_ok(1) [of val] dst assms(4) False s3(2)
        by (auto simp: smoveCommand_def split: option.split)
      moreover have "reported s2 ?s3" using eff_reported [OF unchanged_put [OF k2 kv2]] s3 by simp
      ultimately show ?thesis using w(1) s2(3) reported_trans [OF s2(5)] False e(4) e1(3) assms(4)
        by (auto simp: becomes_def smem_def)
    next
      case True
      define s4 where "s4 = add_dirty 1 (signalModifiedKey (signalModifiedKey ?s3 i src) i dst)"
      have b4: "becomes env s2 s4 i src (members e1)" using w(1) unfolding s4_def by (simp only: becomes_simps)
      have e4: "eff s2 s4 {(i, src)} [Modified i src, Modified i dst]"
        using eff_trans [OF w(2) eff_trans [OF eff_signal eff_signal], of i src i dst] unfolding s4_def by (simp only: dirty_irrelevant) simp
      have f4: "fresh s4 i dst = fresh s i dst" using b4 s2(3) assms(4) by (simp add: becomes_def)
      have kv4: "fresh s4 i dst = keyval s4 i dst" using f4 s2(4) eff_keyval [OF e4, of i dst] assms(4) by simp
      have sk: "srv_ok env s4" "set_key s4 i dst" "smem s4 i dst = smem s i dst"
        using b4 f4 assms(3) by (simp_all add: becomes_def set_key_def smem_def)
      obtain s5 where s5: "smove_to env dst (encoded val) (map_option as_set (fst (fresh s i dst))) s4 i = Some (s5, RInt 1)"
          "becomes env s4 s5 i dst (insert val (smem s i dst))" "eff s4 s5 {(i, dst)} []"
        using smove_to_ok [OF sk(1,2) kv4 encoded_ok(2), of val] unfolding f4 sk(3) encoded_ok(3) by blast
      have c: "smoveCommand env src dst val s i = smove_to env dst (encoded val) (map_option as_set (fst (fresh s i dst))) s4 i"
        using s1(1) s2(1) e(1) e1(1) encoded_ok(1) [of val] dst assms(4) True
        by (auto simp: smoveCommand_def Let_def s4_def split: option.split)
      have "eff s2 s5 {(i, src), (i, dst)} [Modified i src, Modified i dst]" using eff_trans [OF e4 s5(3)] by (simp add: insert_commute)
      then have "reported s2 s5" by (rule eff_reported) auto
      then have "reported s s5" using reported_trans [OF s2(5)] by blast
      then show ?thesis using c s5(1,2) True e(4) e1(3) b4 s2(3) assms(4) by (auto simp: becomes_def smem_def)
    qed
  qed
qed

section \<open>Intersection\<close>

lemma reply_ele_ok: "ele_ok x \<Longrightarrow> reply_ele x = RBulk (ele_text x)"
  by (cases x) (auto simp: reply_ele_def ele_int ele_ok_def elem_ok_def ele_text_def ele_object_def bulk_ok
      createStringObjectFromLongLong_ok)

lemma in_set_ok:
  assumes "ele_ok x" "set_ok env e"
  shows "in_set x e = Some (ele_text x \<in> members e)"
proof (cases x)
  case (LlEle v)
  then have v: "is_ll v" "ele_text x = ll_repr v" "elem_ok (ele_object x)" "ele_object x = createStringObjectFromLongLong v"
    using assms(1) ele_int [of v] by (auto simp: ele_ok_def ele_object_def)
  show ?thesis
  proof (cases e)
    case (INTSET "is")
    then have "intset_ok is" using assms(2) by (simp add: set_ok_def)
    then show ?thesis using LlEle INTSET v intstore.mem_law [of "is" v] repr_iset [of "is" v] by (simp add: in_set_def members_def)
  next
    case (HT d)
    then show ?thesis using LlEle v setTypeIsMember_ok [OF assms(2) v(3)] by (simp add: in_set_def ele_text_def)
  qed
next
  case (ObjEle o')
  then have o: "elem_ok o'" "ele_text x = str_of o'" using assms(1) by (auto simp: ele_ok_def ele_object_def ele_text_def)
  note m = setTypeIsMember_ok [OF assms(2) o(1)]
  show ?thesis
  proof (cases "\<exists>v is. o' = IntStr v \<and> e = INTSET is")
    case True
    then obtain v "is" where v: "o' = IntStr v" "e = INTSET is" by blast
    then have "intset_ok is" "is_ll v" using assms(2) o(1) by (simp_all add: set_ok_def elem_ok_def)
    then show ?thesis using ObjEle v o m intstore.mem_law [of "is" v] repr_iset [of "is" v] by (simp add: in_set_def members_def)
  next
    case False
    then show ?thesis using ObjEle o m by (auto simp: in_set_def split: robj.split set_obj.split)
  qed
qed

lemma in_all_ok:
  assumes "ele_ok x" "\<forall>(k, e) \<in> set es. set_ok env e"
  shows "in_all k0 x es = Some (\<forall>(k, e) \<in> set es. k \<noteq> k0 \<longrightarrow> ele_text x \<in> members e)"
  using assms(2)
proof (induction es)
  case (Cons ke es)
  then show ?case using in_set_ok [OF assms(1)] by (cases ke) auto
qed simp

lemma inter_loop_ok:
  assumes "list_all ele_ok xs" "\<forall>(k, e) \<in> set es. set_ok env e"
  shows "inter_loop k0 xs es = Some (filter (\<lambda>x. \<forall>(k, e) \<in> set es. k \<noteq> k0 \<longrightarrow> ele_text x \<in> members e) xs)"
  using assms(1) by (induction xs) (simp_all add: in_all_ok [OF _ assms(2)])

lemma sinter_fetch_ok:
  assumes "srv_ok env s" "\<forall>k \<in> set keys. set_key s i k"
  shows "\<exists>s' r. sinter_fetch w keys s i = Some (s', r) \<and> srv_ok env s' \<and> fresh s' = fresh s \<and> reported s s' \<and>
    (if \<exists>k \<in> set keys. fst (fresh s i k) = None then r = Missing
     else \<exists>es. r = Fetched es \<and> map fst es = keys \<and> (\<forall>(k, e) \<in> set es. fst (fresh s i k) = Some (Other REDIS_SET e)))"
  using assms
proof (induction keys arbitrary: s)
  case Nil
  then show ?case by (simp add: reported_refl)
next
  case (Cons key keys)
  obtain s1 where s1: "(if w then lookupKeyWrite s i key else lookupKeyRead s i key) = Some (fst (fresh s i key), s1)" "srv_ok env s1"
      "fresh s1 = fresh s" "reported s s1" using look [OF Cons.prems(1)] by blast
  have k1: "\<forall>k \<in> set keys. set_key s1 i k" "set_key s i key" using Cons.prems(2) s1(3) by (simp_all add: set_key_def)
  show ?case
  proof (rule set_key_cases [OF Cons.prems(1) k1(2)])
    assume "fst (fresh s i key) = None"
    then show ?thesis using s1 by auto
  next
    fix e assume e: "fst (fresh s i key) = Some (Other REDIS_SET e)"
    obtain s2 r where s2: "sinter_fetch w keys s1 i = Some (s2, r)" "srv_ok env s2" "fresh s2 = fresh s" "reported s1 s2"
      "if \<exists>k \<in> set keys. fst (fresh s i k) = None then r = Missing
       else \<exists>es. r = Fetched es \<and> map fst es = keys \<and> (\<forall>(k, e) \<in> set es. fst (fresh s i k) = Some (Other REDIS_SET e))"
      using Cons.IH [OF s1(2) k1(1)] unfolding s1(3) by blast
    then show ?thesis using s1(1) e reported_trans [OF s1(4) s2(4)] by (auto split: if_splits)
  qed
qed

text \<open>The elements of the smallest set that are in the others are the intersection.\<close>

lemma inter_elements:
  assumes ok: "srv_ok env s" and keys: "map fst es = keys" "keys \<noteq> []" and es: "\<forall>(k, e) \<in> set es. fst (fresh s i k) = Some (Other REDIS_SET e)"
  shows "\<exists>k0 e0 rest xs. sort_key (\<lambda>(_, e). setTypeSize e) es = (k0, e0) # rest \<and> inter_loop k0 (elements env e0) rest = Some xs \<and>
    list_all ele_ok xs \<and> distinct (map ele_text xs) \<and> ele_text ` set xs = (\<Inter>k \<in> set keys. smem s i k)"
proof -
  let ?es = "sort_key (\<lambda>(_, e). setTypeSize e) es"
  have "?es \<noteq> []" using keys length_sort [of _ es] by (metis length_0_conv length_map)
  then obtain k0 e0 rest where r: "?es = (k0, e0) # rest" by (cases ?es) auto
  have es': "set ((k0, e0) # rest) = set es" unfolding r [symmetric] by simp
  have so: "set_ok env e \<and> smem s i k = members e" if "(k, e) \<in> set es" for k e
    using es that fresh_good [OF ok, of i k] by (auto simp: good_val_def smem_def)
  have rest: "\<forall>(k, e) \<in> set rest. set_ok env e" and e0: "set_ok env e0" using so es' by auto
  note el = elements_ok [OF e0]
  let ?P = "\<lambda>x. \<forall>(k, e) \<in> set rest. k \<noteq> k0 \<longrightarrow> ele_text x \<in> members e"
  let ?xs = "filter ?P (elements env e0)"
  have "inter_loop k0 (elements env e0) rest = Some ?xs" using inter_loop_ok [OF _ rest] el by blast
  moreover have "list_all ele_ok ?xs" "distinct (map ele_text ?xs)" using el by (auto simp: list_all_iff intro: distinct_map_filter)
  moreover have "ele_text ` set ?xs = (\<Inter>k \<in> set keys. smem s i k)"
  proof -
    have same: "members e = members e0" if "(k0, e) \<in> set rest" for e
      using so [of k0 e] so [of k0 e0] that es' by auto
    have "ele_text ` set ?xs = {t \<in> members e0. \<forall>(k, e) \<in> set rest. k \<noteq> k0 \<longrightarrow> t \<in> members e}" using el by auto
    also have "\<dots> = {t. \<forall>(k, e) \<in> set ((k0, e0) # rest). t \<in> members e}" using same by auto
    also have "\<dots> = (\<Inter>(k, e) \<in> set es. members e)" unfolding es' by auto
    also have "\<dots> = (\<Inter>(k, e) \<in> set es. smem s i k)" using so by auto
    also have "\<dots> = (\<Inter>k \<in> set keys. smem s i k)" unfolding keys(1) [symmetric] by auto
    finally show ?thesis .
  qed
  ultimately show ?thesis using r by blast
qed

lemma add_all_ok:
  "set_ok env e \<Longrightarrow> list_all elem_ok xs \<Longrightarrow> \<exists>e'. add_all env e xs = Some e' \<and> set_ok env e' \<and> members e' = members e \<union> str_of ` set xs"
proof (induction xs arbitrary: e)
  case (Cons x xs)
  obtain e1 b where "setTypeAdd env e x = Some (e1, b)" "set_ok env e1" "members e1 = insert (str_of x) (members e)"
    using setTypeAdd_ok [OF Cons.prems(1), of x] Cons.prems(2) by auto
  then show ?case using Cons.IH [of e1] Cons.prems(2) by auto
qed simp

lemma new_set_ok: "set_env_ok env \<Longrightarrow> set_ok env (INTSET intsetNew)" "members (INTSET intsetNew) = {}"
  by (simp_all add: set_ok_def members_def intset_ok_def intsetNew_def vals_def intsetLen_def)

lemma store_result_ok:
  assumes "srv_ok env s" "set_ok env e"
  shows "\<exists>s'. store_result dst e s i = Some (s', RInt (int (card (members e)))) \<and> becomes env s s' i dst (members e) \<and>
    snd (fresh s' i dst) = None \<and> reported s s'"
proof -
  have k: "keys_ok s" using assms(1) by (simp add: srv_ok_def)
  let ?d = "snd (dbDelete s i dst)"
  from dbDelete_ok [OF k, of i dst] have d: "keys_ok ?d" "eff s ?d {(i, dst)} []" "keyval ?d i dst = (None, None)" by auto
  have z: "setTypeSize e = card (members e)" "card (members e) = 0 \<longleftrightarrow> members e = {}"
    using card_members [OF assms(2), symmetric] by (assumption, simp)
  have "\<exists>s1. (if setTypeSize e > 0 then do { s \<leftarrow> dbAdd ?d i dst (Other REDIS_SET e); Some (s, RInt (int (setTypeSize e))) } else Some (?d, RInt 0)) =
      Some (s1, RInt (int (card (members e)))) \<and> keys_ok s1 \<and> eff s s1 {(i, dst)} [] \<and>
      keyval s1 i dst = (if members e = {} then (None, None) else (Some (Other REDIS_SET e), None))"
  proof (cases "members e = {}")
    case True
    then show ?thesis using z d by simp
  next
    case False
    obtain s1 where "dbAdd ?d i dst (Other REDIS_SET e) = Some s1" "keys_ok s1" "eff ?d s1 {(i, dst)} []"
        "keyval s1 i dst = (Some (Other REDIS_SET e), None)"
      using dbAdd_ok [OF d(1), of i dst "Other REDIS_SET e"] d(3) by auto
    then show ?thesis using False z eff_trans [OF d(2), of s1 "{(i, dst)}" "[]"] by auto
  qed
  then obtain s1 where s1: "(if setTypeSize e > 0 then do { s \<leftarrow> dbAdd ?d i dst (Other REDIS_SET e); Some (s, RInt (int (setTypeSize e))) } else Some (?d, RInt 0)) =
      Some (s1, RInt (int (card (members e))))" "keys_ok s1" "eff s s1 {(i, dst)} []"
      "keyval s1 i dst = (if members e = {} then (None, None) else (Some (Other REDIS_SET e), None))" by blast
  have b: "becomes env s s1 i dst (members e)" "fresh s1 i dst = keyval s1 i dst"
    using becomes_value [OF assms(1) s1(2,3) disjI1 [OF refl] s1(4)] assms(2) by blast+
  have "store_result dst e s i = Some (add_dirty 1 (signalModifiedKey s1 i dst), RInt (int (card (members e))))"
    unfolding store_result_def Let_def s1(1) by simp
  then show ?thesis using b s1(4) signal_reported [OF s1(3)] by simp
qed

lemma sinter_prepare:
  assumes ok: "srv_ok env s" and keys: "keys \<noteq> []" "\<forall>k \<in> set keys. set_key s i k" and M: "M = (\<Inter>k \<in> set keys. smem s i k)"
  shows "\<exists>s1. srv_ok env s1 \<and> fresh s1 = fresh s \<and> reported s s1 \<and>
    (sinter_fetch w keys s i = Some (s1, Missing) \<and> M = {} \<or>
     (\<exists>es k0 e0 rest xs. sinter_fetch w keys s i = Some (s1, Fetched es) \<and>
        sort_key (\<lambda>(_, e). setTypeSize e) es = (k0, e0) # rest \<and> inter_loop k0 (elements env e0) rest = Some xs \<and>
        list_all ele_ok xs \<and> distinct (map ele_text xs) \<and> ele_text ` set xs = M))"
proof -
  obtain s1 r where f: "sinter_fetch w keys s i = Some (s1, r)" "srv_ok env s1 \<and> fresh s1 = fresh s \<and> reported s s1"
    "if \<exists>k \<in> set keys. fst (fresh s i k) = None then r = Missing
     else \<exists>es. r = Fetched es \<and> map fst es = keys \<and> (\<forall>(k, e) \<in> set es. fst (fresh s i k) = Some (Other REDIS_SET e))"
    using sinter_fetch_ok [OF ok keys(2)] by blast
  show ?thesis
  proof (cases "\<exists>k \<in> set keys. fst (fresh s i k) = None")
    case True
    then have "M = {}" by (auto simp: M smem_def)
    then show ?thesis using f True by auto
  next
    case False
    then obtain es where es: "r = Fetched es" "map fst es = keys" "\<forall>(k, e) \<in> set es. fst (fresh s i k) = Some (Other REDIS_SET e)"
      using f(3) unfolding if_not_P [OF False] by blast
    have "sinter_fetch w keys s i = Some (s1, Fetched es)" using f(1) es(1) by simp
    with inter_elements [OF ok es(2) keys(1) es(3), folded M] have "\<exists>es k0 e0 rest xs. sinter_fetch w keys s i = Some (s1, Fetched es) \<and>
        sort_key (\<lambda>(_, e). setTypeSize e) es = (k0, e0) # rest \<and> inter_loop k0 (elements env e0) rest = Some xs \<and>
        list_all ele_ok xs \<and> distinct (map ele_text xs) \<and> ele_text ` set xs = M"
      by (intro exI [of _ es]) simp
    then show ?thesis using f(2) by (intro exI [of _ s1]) simp
  qed
qed

lemma sinter_ok:
  assumes "srv_ok env s" "keys \<noteq> []" "\<forall>k \<in> set keys. set_key s i k" "M = (\<Inter>k \<in> set keys. smem s i k)"
  shows "\<exists>s' xs. sinterCommand env keys s i = Some (s', RMulti (map RBulk xs)) \<and> distinct xs \<and> set xs = M \<and> fresh s' = fresh s"
proof -
  obtain s1 where s1: "fresh s1 = fresh s" and c: "sinter_fetch False keys s i = Some (s1, Missing) \<and> M = {} \<or>
     (\<exists>es k0 e0 rest xs. sinter_fetch False keys s i = Some (s1, Fetched es) \<and>
        sort_key (\<lambda>(_, e). setTypeSize e) es = (k0, e0) # rest \<and> inter_loop k0 (elements env e0) rest = Some xs \<and>
        list_all ele_ok xs \<and> distinct (map ele_text xs) \<and> ele_text ` set xs = M)"
    using sinter_prepare [OF assms] by blast
  from c show ?thesis
  proof (elim disjE conjE exE)
    assume "sinter_fetch False keys s i = Some (s1, Missing)" "M = {}"
    then show ?thesis using s1 by (intro exI [of _ s1] exI [of _ "[]"]) (simp add: sinterCommand_def sinterGenericCommand_def)
  next
    fix es k0 e0 rest xs
    assume x: "sinter_fetch False keys s i = Some (s1, Fetched es)" "sort_key (\<lambda>(_, e). setTypeSize e) es = (k0, e0) # rest"
      "inter_loop k0 (elements env e0) rest = Some xs" "list_all ele_ok xs" "distinct (map ele_text xs)" "ele_text ` set xs = M"
    have "map reply_ele xs = map RBulk (map ele_text xs)" using x(4) by (auto simp: list_all_iff reply_ele_ok)
    then show ?thesis using s1 x by (intro exI [of _ s1] exI [of _ "map ele_text xs"]) (simp add: sinterCommand_def sinterGenericCommand_def)
  qed
qed

lemma sinterstore_ok:
  assumes "srv_ok env s" "keys \<noteq> []" "\<forall>k \<in> set keys. set_key s i k" "M = (\<Inter>k \<in> set keys. smem s i k)"
  shows "\<exists>s'. sinterstoreCommand env dst keys s i = Some (s', RInt (int (card M))) \<and> becomes env s s' i dst M \<and>
      snd (fresh s' i dst) = None \<and> reported s s'"
proof -
  obtain s1 where f: "srv_ok env s1" "fresh s1 = fresh s" "reported s s1" and c: "sinter_fetch True keys s i = Some (s1, Missing) \<and> M = {} \<or>
     (\<exists>es k0 e0 rest xs. sinter_fetch True keys s i = Some (s1, Fetched es) \<and>
        sort_key (\<lambda>(_, e). setTypeSize e) es = (k0, e0) # rest \<and> inter_loop k0 (elements env e0) rest = Some xs \<and>
        list_all ele_ok xs \<and> distinct (map ele_text xs) \<and> ele_text ` set xs = M)"
    using sinter_prepare [OF assms] by blast
  have k1: "keys_ok s1" "set_env_ok env" using f(1) by (simp_all add: srv_ok_def)
  from c show ?thesis
  proof (elim disjE conjE exE)
    assume m: "sinter_fetch True keys s i = Some (s1, Missing)" "M = {}"
    obtain b s2 where d: "dbDelete s1 i dst = (b, s2)" by force
    from dbDelete_ok [OF k1(1), of i dst] d have s2: "keys_ok s2" "eff s1 s2 {(i, dst)} []" "keyval s2 i dst = (None, None)" by auto
    have "becomes env s1 s2 i dst {}" "fresh s2 i dst = keyval s2 i dst"
      using becomes_value [OF f(1) s2(1,2) disjI1 [OF refl], of "{}"] s2(3) by auto
    then have b2: "becomes env s s2 i dst M" "snd (fresh s2 i dst) = None" using becomes_lookup [OF f(2)] m(2) s2(3) by simp_all
    have "reported s (if b then signalModifiedKey s2 i dst else s2)" using delete_reported [OF k1(1) d] reported_trans [OF f(3)] by blast
    then show ?thesis using m d b2 by (auto simp: sinterstoreCommand_def sinterGenericCommand_def split: if_splits)
  next
    fix es k0 e0 rest xs
    assume x: "sinter_fetch True keys s i = Some (s1, Fetched es)" "sort_key (\<lambda>(_, e). setTypeSize e) es = (k0, e0) # rest"
      "inter_loop k0 (elements env e0) rest = Some xs" "list_all ele_ok xs" "distinct (map ele_text xs)" "ele_text ` set xs = M"
    obtain e where e: "add_all env (INTSET intsetNew) (map ele_object xs) = Some e" "set_ok env e" "members e = M"
      using add_all_ok [OF new_set_ok(1) [OF k1(2)], of "map ele_object xs"] x(4,6) new_set_ok(2)
      by (auto simp: list_all_iff ele_ok_def ele_text_def image_image)
    obtain s2 where "store_result dst e s1 i = Some (s2, RInt (int (card M)))" "becomes env s1 s2 i dst M" "snd (fresh s2 i dst) = None" "reported s1 s2"
      using store_result_ok [OF f(1) e(2)] e(3) by blast
    then show ?thesis using x(1-3) e(1) becomes_lookup [OF f(2)] reported_trans [OF f(3)]
      by (simp add: sinterstoreCommand_def sinterGenericCommand_def)
  qed
qed

section \<open>Union and difference\<close>

definition opt_members :: "set_obj option \<Rightarrow> bytes set" where
  "opt_members so = (case so of None \<Rightarrow> {} | Some e \<Rightarrow> members e)"

lemma opt_members_simps [simp]: "opt_members None = {}" "opt_members (Some e) = members e"
  by (simp_all add: opt_members_def)

definition opt_ok :: "set_env \<Rightarrow> set_obj option \<Rightarrow> bool" where
  "opt_ok env so \<longleftrightarrow> (case so of None \<Rightarrow> True | Some e \<Rightarrow> set_ok env e)"

lemma opt_ok_simps [simp]: "opt_ok env None" "opt_ok env (Some e) = set_ok env e"
  by (simp_all add: opt_ok_def)

lemma sunion_fetch_ok:
  assumes "srv_ok env s" "\<forall>k \<in> set keys. set_key s i k"
  shows "\<exists>s' sets. sunion_fetch w keys s i = Some (s', Some sets) \<and> srv_ok env s' \<and> fresh s' = fresh s \<and> reported s s' \<and>
    list_all (opt_ok env) sets \<and> map opt_members sets = map (smem s i) keys"
  using assms
proof (induction keys arbitrary: s)
  case Nil
  then show ?case by (simp add: reported_refl)
next
  case (Cons key keys)
  obtain s1 where s1: "(if w then lookupKeyWrite s i key else lookupKeyRead s i key) = Some (fst (fresh s i key), s1)" "srv_ok env s1"
      "fresh s1 = fresh s" "reported s s1" using look [OF Cons.prems(1)] by blast
  have k1: "\<forall>k \<in> set keys. set_key s1 i k" "set_key s i key" "smem s1 = smem s"
    using Cons.prems(2) s1(3) by (simp_all add: set_key_def smem_def fun_eq_iff)
  obtain s2 sets where s2: "sunion_fetch w keys s1 i = Some (s2, Some sets)" "srv_ok env s2" "fresh s2 = fresh s" "reported s1 s2"
      "list_all (opt_ok env) sets" "map opt_members sets = map (smem s i) keys"
    using Cons.IH [OF s1(2) k1(1)] unfolding s1(3) k1(3) by blast
  note r = reported_trans [OF s1(4) s2(4)]
  show ?case
  proof (rule set_key_cases [OF Cons.prems(1) k1(2)])
    assume "fst (fresh s i key) = None" "smem s i key = {}"
    then show ?thesis using s1(1) s2 r by simp
  next
    fix e assume "fst (fresh s i key) = Some (Other REDIS_SET e)" "set_ok env e" "smem s i key = members e"
    then show ?thesis using s1(1) s2 r by simp
  qed
qed

text \<open>The counter is the size of the result.\<close>

lemma apply_loop_ok:
  "set_ok env e \<Longrightarrow> list_all elem_ok xs \<Longrightarrow>
   \<exists>e'. apply_loop env add xs e (int (card (members e))) = Some (e', int (card (members e'))) \<and> set_ok env e' \<and>
     members e' = (if add then members e \<union> str_of ` set xs else members e - str_of ` set xs)"
proof (induction xs arbitrary: e)
  case (Cons x xs)
  have x: "elem_ok x" "list_all elem_ok xs" using Cons.prems(2) by simp_all
  show ?case
  proof (cases add)
    case True
    obtain e1 where e1: "setTypeAdd env e x = Some (e1, str_of x \<notin> members e)" "set_ok env e1" "members e1 = insert (str_of x) (members e)"
      using setTypeAdd_ok [OF Cons.prems(1) x(1)] by blast
    then have "(if str_of x \<notin> members e then int (card (members e)) + 1 else int (card (members e))) = int (card (members e1))"
      by (simp add: insert_absorb)
    then have "apply_loop env add (x # xs) e (int (card (members e))) = apply_loop env add xs e1 (int (card (members e1)))"
      using e1(1) True by simp
    then show ?thesis using Cons.IH [OF e1(2) x(2)] e1(3) True by auto
  next
    case False
    obtain e1 where e1: "setTypeRemove env e x = Some (e1, str_of x \<in> members e)" "set_ok env e1" "members e1 = members e - {str_of x}"
      using setTypeRemove_ok [OF Cons.prems(1) x(1)] by blast
    have h: "str_of x \<in> members e \<Longrightarrow> int (card (members e)) = int (card (members e1)) + 1"
      using card_Suc_Diff1 [OF finite_members, of "str_of x" e] unfolding e1(3) by linarith
    have "(if str_of x \<in> members e then int (card (members e)) - 1 else int (card (members e))) = int (card (members e1))"
    proof (cases "str_of x \<in> members e")
      case True
      show ?thesis unfolding if_P [OF True] using h [OF True] by linarith
    next
      case False
      then show ?thesis unfolding if_not_P [OF False] e1(3) by simp
    qed
    then have "apply_loop env add (x # xs) e (int (card (members e))) = apply_loop env add xs e1 (int (card (members e1)))"
      using e1(1) False by simp
    moreover have "members e1 - str_of ` set xs = members e - str_of ` set (x # xs)" using e1(3) by auto
    ultimately show ?thesis using Cons.IH [OF e1(2) x(2)] False by simp
  qed
qed simp

lemma apply_set_ok:
  assumes "set_ok env e" "set_ok env st"
  shows "\<exists>e'. apply_loop env add (map ele_object (elements env st)) e (int (card (members e))) = Some (e', int (card (members e'))) \<and>
     set_ok env e' \<and> members e' = (if add then members e \<union> members st else members e - members st)"
proof -
  have e: "list_all elem_ok (map ele_object (elements env st))" "str_of ` set (map ele_object (elements env st)) = members st"
    using elements_ok [OF assms(2)] by (auto simp: list_all_iff ele_ok_def ele_text_def image_image)
  show ?thesis using apply_loop_ok [OF assms(1) e(1), of add] unfolding e(2) .
qed

lemma sets_loop_union:
  "set_ok env e \<Longrightarrow> list_all (opt_ok env) sets \<Longrightarrow>
   \<exists>e'. sets_loop env REDIS_OP_UNION j sets e (int (card (members e))) = Some (e', int (card (members e'))) \<and> set_ok env e' \<and>
     members e' = members e \<union> \<Union> (opt_members ` set sets)"
proof (induction sets arbitrary: e j)
  case (Cons so sets)
  show ?case
  proof (cases so)
    case None
    then show ?thesis using Cons.IH [of e "j + 1"] Cons.prems by auto
  next
    case (Some st)
    then have "set_ok env st" using Cons.prems(2) by (simp add: opt_ok_def)
    from apply_set_ok [OF Cons.prems(1) this, of True] obtain e1 where
      "apply_loop env True (map ele_object (elements env st)) e (int (card (members e))) = Some (e1, int (card (members e1)))"
      "set_ok env e1" "members e1 = members e \<union> members st" by auto
    then show ?thesis using Cons.IH [of e1 "j + 1"] Cons.prems(2) Some by (auto simp: Un_assoc)
  qed
qed simp

lemma sets_loop_diff:
  "set_ok env e \<Longrightarrow> list_all (opt_ok env) sets \<Longrightarrow> 0 < j \<Longrightarrow>
   \<exists>e'. sets_loop env REDIS_OP_DIFF j sets e (int (card (members e))) = Some (e', int (card (members e'))) \<and> set_ok env e' \<and>
     members e' = members e - \<Union> (opt_members ` set sets)"
proof (induction sets arbitrary: e j)
  case (Cons so sets)
  show ?case
  proof (cases so)
    case None
    then show ?thesis using Cons.IH [of e "j + 1"] Cons.prems by auto
  next
    case (Some st)
    then have "set_ok env st" using Cons.prems(2) by (simp add: opt_ok_def)
    from apply_set_ok [OF Cons.prems(1) this, of False] obtain e1 where
      e1: "apply_loop env False (map ele_object (elements env st)) e (int (card (members e))) = Some (e1, int (card (members e1)))"
      "set_ok env e1" "members e1 = members e - members st" by auto
    obtain e2 where e2: "sets_loop env REDIS_OP_DIFF (j + 1) sets e1 (int (card (members e1))) = Some (e2, int (card (members e2)))"
      "set_ok env e2" "members e2 = members e1 - \<Union> (opt_members ` set sets)"
      using Cons.IH [of e1 "j + 1"] e1(2) Cons.prems(2) by auto
    show ?thesis
    proof (cases "members e1 = {}")
      case True
      then show ?thesis using e1 Some Cons.prems(3) by auto
    next
      case False
      then have "card (members e1) \<noteq> 0" by simp
      then show ?thesis using e1 e2 Some Cons.prems(3) by auto
    qed
  qed
qed simp

lemma sets_loop_first_diff:
  assumes "set_env_ok env" "list_all (opt_ok env) (so # sets)"
  shows "\<exists>e'. sets_loop env REDIS_OP_DIFF 0 (so # sets) (INTSET intsetNew) 0 = Some (e', int (card (members e'))) \<and> set_ok env e' \<and>
     members e' = opt_members so - \<Union> (opt_members ` set sets)"
proof (cases so)
  case None
  then show ?thesis using new_set_ok(1) [OF assms(1)] new_set_ok(2) by simp
next
  case (Some st)
  then have "set_ok env st" using assms(2) by (simp add: opt_ok_def)
  from apply_set_ok [OF new_set_ok(1) [OF assms(1)] this, of True] obtain e1 where
    e1: "apply_loop env True (map ele_object (elements env st)) (INTSET intsetNew) 0 = Some (e1, int (card (members e1)))"
      "set_ok env e1" "members e1 = members st" by (auto simp: new_set_ok(2))
  obtain e2 where e2: "sets_loop env REDIS_OP_DIFF 1 sets e1 (int (card (members e1))) = Some (e2, int (card (members e2)))"
    "set_ok env e2" "members e2 = members e1 - \<Union> (opt_members ` set sets)"
    using sets_loop_diff [of env e1 sets 1] e1(2) assms(2) by auto
  show ?thesis
  proof (cases "members e1 = {}")
    case True
    then show ?thesis using e1 Some by auto
  next
    case False
    then have "card (members e1) \<noteq> 0" by simp
    then show ?thesis using e1 e2 Some by auto
  qed
qed

definition spec_op :: "set_op \<Rightarrow> bytes set list \<Rightarrow> bytes set" where
  "spec_op op Ms = (case op of REDIS_OP_UNION \<Rightarrow> \<Union> (set Ms) | REDIS_OP_DIFF \<Rightarrow> hd Ms - \<Union> (set (tl Ms)))"

lemma sets_loop_ok:
  assumes "set_env_ok env" "list_all (opt_ok env) sets" "sets \<noteq> []"
  shows "\<exists>e'. sets_loop env op 0 sets (INTSET intsetNew) 0 = Some (e', int (card (members e'))) \<and> set_ok env e' \<and>
    members e' = spec_op op (map opt_members sets)"
proof (cases op)
  case REDIS_OP_UNION
  then show ?thesis using sets_loop_union [OF new_set_ok(1) [OF assms(1)] assms(2), of 0] by (simp add: new_set_ok(2) spec_op_def)
next
  case REDIS_OP_DIFF
  obtain so sets' where "sets = so # sets'" using assms(3) by (cases sets) auto
  then show ?thesis using sets_loop_first_diff [OF assms(1), of so sets'] assms(2) REDIS_OP_DIFF by (simp add: spec_op_def)
qed

lemma sunion_diff_ok:
  assumes "srv_ok env s" "keys \<noteq> []" "\<forall>k \<in> set keys. set_key s i k" "M = spec_op op (map (smem s i) keys)"
  shows "\<exists>s' xs. sunionDiffGenericCommand env keys None op s i = Some (s', RMulti (map RBulk xs)) \<and> distinct xs \<and> set xs = M \<and> fresh s' = fresh s"
    and "\<exists>s'. sunionDiffGenericCommand env keys (Some dst) op s i = Some (s', RInt (int (card M))) \<and> becomes env s s' i dst M \<and>
      snd (fresh s' i dst) = None \<and> reported s s'"
proof -
  have env: "set_env_ok env" using assms(1) by (simp add: srv_ok_def)
  have f: "\<exists>s1 sets e. sunion_fetch w keys s i = Some (s1, Some sets) \<and> srv_ok env s1 \<and> fresh s1 = fresh s \<and> reported s s1 \<and>
      sets_loop env op 0 sets (INTSET intsetNew) 0 = Some (e, int (card (members e))) \<and> set_ok env e \<and> members e = M" for w
  proof -
    obtain s1 sets where s1: "sunion_fetch w keys s i = Some (s1, Some sets)" "srv_ok env s1" "fresh s1 = fresh s" "reported s s1"
        "list_all (opt_ok env) sets" "map opt_members sets = map (smem s i) keys"
      using sunion_fetch_ok [OF assms(1,3)] by blast
    have "sets \<noteq> []" using s1(6) assms(2) by auto
    from sets_loop_ok [OF env s1(5) this, of op] s1 assms(4) show ?thesis by auto
  qed
  obtain s1 sets e where s1: "sunion_fetch False keys s i = Some (s1, Some sets)" "fresh s1 = fresh s"
      "sets_loop env op 0 sets (INTSET intsetNew) 0 = Some (e, int (card (members e)))" "set_ok env e" "members e = M" using f by blast
  note el = elements_ok [OF s1(4)] card_members [OF s1(4)]
  have "map (bulk \<circ> ele_object) (elements env e) = map RBulk (map ele_text (elements env e))"
    using el by (auto simp: list_all_iff ele_ok_def elem_ok_def bulk_ok ele_text_def)
  then show "\<exists>s' xs. sunionDiffGenericCommand env keys None op s i = Some (s', RMulti (map RBulk xs)) \<and> distinct xs \<and> set xs = M \<and> fresh s' = fresh s"
    using s1 el by (intro exI [of _ s1] exI [of _ "map ele_text (elements env e)"]) (simp add: sunionDiffGenericCommand_def)
  obtain s2 sets' e' where s2: "sunion_fetch True keys s i = Some (s2, Some sets')" "srv_ok env s2" "fresh s2 = fresh s" "reported s s2"
      "sets_loop env op 0 sets' (INTSET intsetNew) 0 = Some (e', int (card (members e')))" "set_ok env e'" "members e' = M" using f by blast
  obtain s3 where "store_result dst e' s2 i = Some (s3, RInt (int (card M)))" "becomes env s2 s3 i dst M" "snd (fresh s3 i dst) = None" "reported s2 s3"
    using store_result_ok [OF s2(2,6)] s2(7) by blast
  then show "\<exists>s'. sunionDiffGenericCommand env keys (Some dst) op s i = Some (s', RInt (int (card M))) \<and> becomes env s s' i dst M \<and>
      snd (fresh s' i dst) = None \<and> reported s s'"
    using s2(1,5) becomes_lookup [OF s2(3)] reported_trans [OF s2(4)] by (simp add: sunionDiffGenericCommand_def)
qed

lemma spec_op_simps:
  assumes "keys \<noteq> []"
  shows "spec_op REDIS_OP_UNION (map f keys) = (\<Union>k \<in> set keys. f k)"
    "spec_op REDIS_OP_DIFF (map f keys) = f (hd keys) - (\<Union>k \<in> set (tl keys). f k)"
  using assms by (auto simp: spec_op_def hd_map map_tl [symmetric])

lemma random_member:
  assumes "set_ok env e" "members e \<noteq> {}" "x = setTypeRandomElement rand e"
  shows "ele_ok x \<and> ele_text x \<in> members e"
proof (cases e)
  case (INTSET "is")
  have ok: "intset_ok is" using assms(1) INTSET by (simp add: set_ok_def)
  have "is_length is \<noteq> 0" using assms(2) INTSET by (auto simp: members_def vals_def)
  then have "rand mod is_length is < is_length is" by simp
  then have v: "intsetRandom rand is \<in> iset is" using intsetGet0_vals [OF ok] by (simp add: intsetRandom_def)
  then show ?thesis using assms(3) INTSET ele_int [OF is_ll_iset [OF ok v]] by (simp add: setTypeRandomElement_def members_def)
next
  case (HT d)
  then have "d \<noteq> []" using assms(2) by (auto simp: members_def)
  then have "d ! (rand mod length d) \<in> set d" by simp
  then show ?thesis using assms(1,3) HT
    by (auto simp: setTypeRandomElement_def members_def set_ok_def ht_ok_def list_all_iff ele_ok_def ele_text_def ele_object_def)
qed

text \<open>\<^verbatim>\<open>SPOP\<close> answers an element and removes it, and with the last one the key.\<close>

lemma spop_ok:
  assumes "srv_ok env s" "set_key s i key" "smem s i key \<noteq> {}"
  shows "\<exists>s' b. spopCommand env rand key s i = Some (s', RBulk b) \<and> b \<in> smem s i key \<and>
    becomes env s s' i key (smem s i key - {b}) \<and> reported s s'"
proof -
  obtain s1 where s1: "lookupKeyWrite s i key = Some (fst (fresh s i key), s1)" "srv_ok env s1" "fresh s1 = fresh s"
      "keyval s1 i key = fresh s i key" "reported s s1" using lookW [OF assms(1)] by blast
  obtain e where e: "fst (fresh s i key) = Some (Other REDIS_SET e)" "set_ok env e" "members e \<noteq> {}" "smem s i key = members e"
    using set_key_cases [OF assms(1,2)] assms(3) by blast
  define x where "x = setTypeRandomElement rand e"
  have x: "ele_ok x" "elem_ok (ele_object x)" "ele_text x \<in> members e" using random_member [OF e(2,3) x_def] by (auto simp: ele_ok_def)
  let ?rm = "case (x, e) of (LlEle v, INTSET is) \<Rightarrow> Some (INTSET (fst (intsetRemove (is_junk env) is v)))
      | _ \<Rightarrow> map_option fst (setTypeRemove env e (ele_object x))"
  obtain e1 b where e1: "setTypeRemove env e (ele_object x) = Some (e1, b)" "set_ok env e1" "members e1 = members e - {ele_text x}"
    using setTypeRemove_ok [OF e(2) x(2)] by (auto simp: ele_text_def)
  have rm: "?rm = Some e1"
  proof (cases "\<exists>v is. x = LlEle v \<and> e = INTSET is")
    case True
    then obtain v "is" where v: "x = LlEle v" "e = INTSET is" by blast
    have "is_ll v" using x(1) v(1) by (simp add: ele_ok_def)
    then have "isObjectRepresentableAsLongLong (ele_object x) = Some (Some v)"
      using v(1) ele_int [of v] by (simp add: isObjectRepresentableAsLongLong_def)
    then show ?thesis using e1(1) v by (auto simp: setTypeRemove_def split: prod.splits)
  next
    case False
    then show ?thesis using e1(1) by (auto split: element.split set_obj.split)
  qed
  have z: "setTypeSize e1 = 0 \<longleftrightarrow> members e1 = {}" using card_members [OF e1(2)] by (metis card_0_eq finite_members)
  have "fresh s1 i key = keyval s1 i key" using s1(3,4) by simp
  note w = write_back [OF s1(2) this e1(2) z]
  let ?s = "if setTypeSize e1 = 0 then snd (dbDelete (put_set s1 i key e1) i key) else put_set s1 i key e1"
  have "bulk (ele_object x) = RBulk (ele_text x)" using x(2) by (simp add: elem_ok_def bulk_ok ele_text_def)
  then have "spopCommand env rand key s i = Some (add_dirty 1 (signalModifiedKey ?s i key), RBulk (ele_text x))"
    using s1(1) e(1) rm by (simp add: spopCommand_def Let_def flip: x_def)
  moreover have "reported s (add_dirty 1 (signalModifiedKey ?s i key))"
    using signal_reported [OF w(2)] reported_trans [OF s1(5)] by (simp only: dirty_irrelevant)
  ultimately show ?thesis using w(1) x(3) e(4) e1(3) becomes_lookup [OF s1(3)] by (intro exI conjI) (assumption, simp_all)
qed

section \<open>Theorems\<close>

text \<open>
  C17: SINTER, SUNION and SDIFF answer exactly the intersection, the union and the difference of the sets under the keys, each
  element once, whatever the encodings of the sets are, in whatever order the tables are walked, and with keys that are
  missing, expired or repeated; nothing that a client sees is changed.
\<close>

theorem set_algebra:
  assumes "srv_ok env s" "keys \<noteq> []" "\<forall>k \<in> set keys. set_key s i k"
  shows "(\<exists>s' xs. sinterCommand env keys s i = Some (s', RMulti (map RBulk xs)) \<and> distinct xs \<and>
      set xs = (\<Inter>k \<in> set keys. smem s i k) \<and> fresh s' = fresh s) \<and>
    (\<exists>s' xs. sunionCommand env keys s i = Some (s', RMulti (map RBulk xs)) \<and> distinct xs \<and>
      set xs = (\<Union>k \<in> set keys. smem s i k) \<and> fresh s' = fresh s) \<and>
    (\<exists>s' xs. sdiffCommand env keys s i = Some (s', RMulti (map RBulk xs)) \<and> distinct xs \<and>
      set xs = smem s i (hd keys) - (\<Union>k \<in> set (tl keys). smem s i k) \<and> fresh s' = fresh s)"
proof (intro conjI)
  show "\<exists>s' xs. sinterCommand env keys s i = Some (s', RMulti (map RBulk xs)) \<and> distinct xs \<and>
      set xs = (\<Inter>k \<in> set keys. smem s i k) \<and> fresh s' = fresh s"
    using sinter_ok [OF assms refl] .
  show "\<exists>s' xs. sunionCommand env keys s i = Some (s', RMulti (map RBulk xs)) \<and> distinct xs \<and>
      set xs = (\<Union>k \<in> set keys. smem s i k) \<and> fresh s' = fresh s"
    using sunion_diff_ok(1) [OF assms refl, of REDIS_OP_UNION] by (simp add: spec_op_simps [OF assms(2)] sunionCommand_def)
  show "\<exists>s' xs. sdiffCommand env keys s i = Some (s', RMulti (map RBulk xs)) \<and> distinct xs \<and>
      set xs = smem s i (hd keys) - (\<Union>k \<in> set (tl keys). smem s i k) \<and> fresh s' = fresh s"
    using sunion_diff_ok(1) [OF assms refl, of REDIS_OP_DIFF] by (simp add: spec_op_simps [OF assms(2)] sdiffCommand_def)
qed

text \<open>
  SINTERSTORE, SUNIONSTORE and SDIFFSTORE leave the result under the destination key, which may be one of the operands and may have
  held anything, without an expiry time, and no key when the result is empty; they answer its size, signal the
  destination to its watchers, and change no other key.
\<close>

theorem set_algebra_stored:
  assumes "srv_ok env s" "keys \<noteq> []" "\<forall>k \<in> set keys. set_key s i k"
  shows "\<forall>(cmd, M) \<in> {(sinterstoreCommand env dst keys, \<Inter>k \<in> set keys. smem s i k),
      (sunionstoreCommand env dst keys, \<Union>k \<in> set keys. smem s i k),
      (sdiffstoreCommand env dst keys, smem s i (hd keys) - (\<Union>k \<in> set (tl keys). smem s i k))}.
    \<exists>s'. cmd s i = Some (s', RInt (int (card M))) \<and> becomes env s s' i dst M \<and> snd (fresh s' i dst) = None \<and> reported s s'"
  using sinterstore_ok [OF assms refl, of dst]
    sunion_diff_ok(2) [OF assms refl, where op = REDIS_OP_UNION and dst = dst]
    sunion_diff_ok(2) [OF assms refl, where op = REDIS_OP_DIFF and dst = dst]
  by (simp add: spec_op_simps [OF assms(2)] sunionstoreCommand_def sdiffstoreCommand_def)


text \<open>
  SADD adds its arguments to the set and answers how many were new; SREM takes its arguments away and answers how many
  were there. Repeated arguments count once, an expiry time stays with a set that is added to, and other keys are not changed.
\<close>

theorem sadd_srem_count:
  assumes "srv_ok env s" "set_key s i key" "vs \<noteq> []"
  shows "(\<exists>s'. saddCommand env key vs s i = Some (s', RInt (int (card (set vs - smem s i key)))) \<and>
      becomes env s s' i key (smem s i key \<union> set vs) \<and> snd (fresh s' i key) = snd (fresh s i key) \<and> reported s s') \<and>
    (\<exists>s'. sremCommand env key vs s i = Some (s', RInt (int (card (set vs \<inter> smem s i key)))) \<and>
      becomes env s s' i key (smem s i key - set vs) \<and> reported s s')"
  using sadd_ok [OF assms] srem_ok [OF assms(1,2), of vs] by blast

section \<open>Witnesses\<close>

text \<open>The sets 4, 9 in an integer set and 4, x in a table.\<close>

definition small_env :: set_env where
  "small_env = \<lparr>set_max_intset_entries = 512, is_junk = (\<lambda>_. 0), walk = rev\<rparr>"

definition sample_sets :: srv where
  "sample_sets = \<lparr>dbs = (\<lambda>i. if i = 0 then \<lparr>db_dict = [[97] \<mapsto> Other REDIS_SET (INTSET sample_intset),
         [98] \<mapsto> Other REDIS_SET (HT [RawStr [52], RawStr [120]])], expires = [[97] \<mapsto> 50]\<rparr>
       else \<lparr>db_dict = Map.empty, expires = Map.empty\<rparr>),
     dbnum = 16, dirty = 0, loading = False, masterhost = False, mstime = 40, aof_on = True, has_slaves = False,
     aof_log = [], repl_log = [], signals = [], stat_hits = 0, stat_misses = 0, stat_expired = 0\<rparr>"

lemma sample_members: "members (INTSET sample_intset) = {[52], [57]}" "members (HT [RawStr [52], RawStr [120]]) = {[52], [120]}"
  by (simp_all add: members_def sample_intset_vals ll_repr_def dec.simps digit_def)

lemma sample_sets_ok: "srv_ok small_env sample_sets"
proof -
  have "set_env_ok small_env" by (simp add: set_env_ok_def small_env_def)
  moreover have "keys_ok sample_sets" by (auto simp: keys_ok_def sample_sets_def split: if_splits)
  moreover have "set_ok small_env (INTSET sample_intset)" "set_ok small_env (HT [RawStr [52], RawStr [120]])"
    using sample_intset_ok by (simp_all add: set_ok_def set_env_ok_def small_env_def intsetLen_def sample_intset_len ht_ok_def raw_ok)
  ultimately show ?thesis using sample_members
    by (auto simp: srv_ok_def good_val_def keyval_def sample_sets_def split: if_splits)
qed

lemma sample_keys:
  "set_key sample_sets 0 [97]" "set_key sample_sets 0 [98]" "set_key sample_sets 0 [99]"
  "smem sample_sets 0 [97] = {[52], [57]}" "smem sample_sets 0 [98] = {[52], [120]}" "smem sample_sets 0 [99] = {}"
  using sample_members by (simp_all add: set_key_def smem_def fresh_def lapsed_def keyval_def sample_sets_def)

theorem set_algebra_witness:
  "\<exists>s1 s2 s3 xs ys zs. sinterCommand small_env [[97], [98]] sample_sets 0 = Some (s1, RMulti (map RBulk xs)) \<and> set xs = {[52]} \<and>
     sunionCommand small_env [[97], [98]] sample_sets 0 = Some (s2, RMulti (map RBulk ys)) \<and> set ys = {[52], [57], [120]} \<and>
     sdiffCommand small_env [[97], [98]] sample_sets 0 = Some (s3, RMulti (map RBulk zs)) \<and> set zs = {[57]}"
proof -
  let ?k = "[[97], [98]] :: bytes list" and ?m = "smem sample_sets 0"
  have k: "?k \<noteq> []" "\<forall>k \<in> set ?k. set_key sample_sets 0 k" using sample_keys by simp_all
  have m: "(\<Inter>k \<in> set ?k. ?m k) = {[52]}" "(\<Union>k \<in> set ?k. ?m k) = {[52], [57], [120]}"
    "?m (hd ?k) - (\<Union>k \<in> set (tl ?k). ?m k) = {[57]}" by (auto simp: sample_keys)
  note a = set_algebra [OF sample_sets_ok k, unfolded m]
  obtain s1 xs where x: "sinterCommand small_env ?k sample_sets 0 = Some (s1, RMulti (map RBulk xs))" "set xs = {[52]}"
    using conjunct1 [OF a] by blast
  obtain s2 ys where y: "sunionCommand small_env ?k sample_sets 0 = Some (s2, RMulti (map RBulk ys))" "set ys = {[52], [57], [120]}"
    using conjunct1 [OF conjunct2 [OF a]] by blast
  obtain s3 zs where z: "sdiffCommand small_env ?k sample_sets 0 = Some (s3, RMulti (map RBulk zs))" "set zs = {[57]}"
    using conjunct2 [OF conjunct2 [OF a]] by blast
  show ?thesis by (rule exI [of _ s1], rule exI [of _ s2], rule exI [of _ s3], rule exI [of _ xs], rule exI [of _ ys], rule exI [of _ zs])
    (intro conjI x y z)
qed

theorem set_algebra_stored_witness:
  "\<exists>s'. sinterstoreCommand small_env [97] [[97], [98]] sample_sets 0 = Some (s', RInt 1) \<and> smem s' 0 [97] = {[52]} \<and>
     snd (fresh s' 0 [97]) = None"
proof -
  let ?k = "[[97], [98]] :: bytes list" and ?m = "smem sample_sets 0"
  have k: "?k \<noteq> []" "\<forall>k \<in> set ?k. set_key sample_sets 0 k" using sample_keys by simp_all
  have "(\<Inter>k \<in> set ?k. ?m k) = {[52]}" by (auto simp: sample_keys)
  then show ?thesis using set_algebra_stored [OF sample_sets_ok k, of "[97]"] by (auto simp: becomes_def)
qed


theorem sadd_srem_count_witness:
  "\<exists>s1 s2. saddCommand small_env [97] [[52], [120], [120]] sample_sets 0 = Some (s1, RInt 1) \<and> smem s1 0 [97] = {[52], [57], [120]} \<and>
     sremCommand small_env [97] [[52], [120], [120]] sample_sets 0 = Some (s2, RInt 1) \<and> smem s2 0 [97] = {[57]}"
proof -
  let ?v = "[[52], [120], [120]] :: bytes list"
  have "card (set ?v - smem sample_sets 0 [97]) = 1" "smem sample_sets 0 [97] \<union> set ?v = {[52], [57], [120]}"
    "card (set ?v \<inter> smem sample_sets 0 [97]) = 1" "smem sample_sets 0 [97] - set ?v = {[57]}"
    by (auto simp: sample_keys insert_Diff_if Int_insert_left)
  note m = this
  show ?thesis using sadd_srem_count [OF sample_sets_ok sample_keys(1), of ?v, unfolded m] by (auto simp: becomes_def)
qed

end
