(* ===== verification/Multi.thy ===== *)
theory Multi
  imports Keyspace
begin

text \<open>
  \<^verbatim>\<open>debug/redis/src/multi.c\<close>, and \<^verbatim>\<open>processCommand\<close> and \<^verbatim>\<open>call\<close> of \<^verbatim>\<open>redis.c\<close>:
  transactions with optimistic locking. A client is a number; the flags \<^verbatim>\<open>REDIS_MULTI\<close>,
  \<^verbatim>\<open>REDIS_DIRTY_CAS\<close> and \<^verbatim>\<open>REDIS_DIRTY_EXEC\<close> are booleans. The commands themselves are a
  parameter \<open>run\<close>, which yields the new key space, the reply and the selected database. The hooks
  a command calls are delivered to the watching clients after it has run; a flush hook looks at the
  keys at the start of the command, which is where \<^verbatim>\<open>FLUSHDB\<close> and \<^verbatim>\<open>FLUSHALL\<close> call it.
  \<open>None\<close> is a failed assertion or a null pointer.
\<close>

datatype 'c request = MULTI | EXEC | DISCARD | is_WATCH: WATCH "bytes list" | UNWATCH | CMD 'c

datatype mreply = R reply | NullMulti | MultiLen nat

record 'c client =
  in_multi :: bool
  dirty_cas :: bool
  dirty_exec :: bool
  mstate :: "'c request list"
  watched_keys :: "(bytes \<times> nat) list"
  selected :: nat
  out :: "mreply list"

datatype 'c propagated = PMulti nat | PCmd nat "'c request"

record ('c, 'o) mserver =
  ks :: "'o server"
  client_ids :: "nat list"
  cl :: "nat \<Rightarrow> 'c client"
  wkeys :: "nat \<Rightarrow> bytes \<rightharpoonup> nat list"
  propagated :: "'c propagated list"

type_synonym ('c, 'o) runner = "'c \<Rightarrow> 'o server \<Rightarrow> nat \<Rightarrow> ('o server \<times> reply \<times> nat) option"

definition upd_cl :: "('c, 'o) mserver \<Rightarrow> nat \<Rightarrow> ('c client \<Rightarrow> 'c client) \<Rightarrow> ('c, 'o) mserver" where
  "upd_cl s c f = s\<lparr>cl := (cl s)(c := f (cl s c))\<rparr>"

definition addReply :: "('c, 'o) mserver \<Rightarrow> nat \<Rightarrow> mreply \<Rightarrow> ('c, 'o) mserver" where
  "addReply s c r = upd_cl s c (\<lambda>x. x\<lparr>out := out x @ [r]\<rparr>)"

section \<open>Watching keys\<close>

definition watchForKey :: "('c, 'o) mserver \<Rightarrow> nat \<Rightarrow> bytes \<Rightarrow> ('c, 'o) mserver" where
  "watchForKey s c key =
     (let d = selected (cl s c) in
      if (key, d) \<in> set (watched_keys (cl s c)) then s
      else
        let clients = (case wkeys s d key of None \<Rightarrow> [] | Some cs \<Rightarrow> cs);
            s = s\<lparr>wkeys := (wkeys s)(d := (wkeys s d)(key \<mapsto> clients @ [c]))\<rparr>
        in upd_cl s c (\<lambda>x. x\<lparr>watched_keys := watched_keys x @ [(key, d)]\<rparr>))"

fun unwatch_loop :: "('c, 'o) mserver \<Rightarrow> nat \<Rightarrow> (bytes \<times> nat) list \<Rightarrow> ('c, 'o) mserver option" where
  "unwatch_loop s c [] = Some s"
| "unwatch_loop s c ((key, d) # wks) =
     do { clients \<leftarrow> wkeys s d key;
          if c \<notin> set clients then None
          else
            let clients = remove1 c clients;
                s = s\<lparr>wkeys := (wkeys s)(d := (wkeys s d)(key := (if clients = [] then None else Some clients)))\<rparr>;
                s = upd_cl s c (\<lambda>x. x\<lparr>watched_keys := remove1 (key, d) (watched_keys x)\<rparr>)
            in unwatch_loop s c wks }"

definition unwatchAllKeys :: "('c, 'o) mserver \<Rightarrow> nat \<Rightarrow> ('c, 'o) mserver option" where
  "unwatchAllKeys s c =
     (if watched_keys (cl s c) = [] then Some s else unwatch_loop s c (watched_keys (cl s c)))"

definition set_dirty :: "nat \<Rightarrow> ('c, 'o) mserver \<Rightarrow> ('c, 'o) mserver" where
  "set_dirty c s = upd_cl s c (\<lambda>x. x\<lparr>dirty_cas := True\<rparr>)"

definition touchWatchedKey :: "('c, 'o) mserver \<Rightarrow> nat \<Rightarrow> bytes \<Rightarrow> ('c, 'o) mserver" where
  "touchWatchedKey s d key =
     (case wkeys s d key of None \<Rightarrow> s | Some clients \<Rightarrow> fold set_dirty clients s)"

definition touchWatchedKeysOnFlush :: "'o server \<Rightarrow> ('c, 'o) mserver \<Rightarrow> int \<Rightarrow> ('c, 'o) mserver" where
  "touchWatchedKeysOnFlush k s dbid =
     fold (\<lambda>c s.
       fold (\<lambda>(key, d) s.
         if dbid = - 1 \<or> int d = dbid then (if db_dict (dbs k d) key \<noteq> None then set_dirty c s else s) else s)
       (watched_keys (cl s c)) s) (client_ids s) s"

fun deliver :: "'o server \<Rightarrow> signal list \<Rightarrow> ('c, 'o) mserver \<Rightarrow> ('c, 'o) mserver" where
  "deliver k [] s = s"
| "deliver k (Modified d key # sg) s = deliver k sg (touchWatchedKey s d key)"
| "deliver k (Flushed dbid # sg) s = deliver k sg (touchWatchedKeysOnFlush k s dbid)"

definition watchCommand :: "('c, 'o) mserver \<Rightarrow> nat \<Rightarrow> bytes list \<Rightarrow> ('c, 'o) mserver" where
  "watchCommand s c keys =
     (if in_multi (cl s c) then addReply s c (R (RErr ''ERR WATCH inside MULTI is not allowed''))
      else addReply (fold (\<lambda>key s. watchForKey s c key) keys s) c (R ROk))"

definition unwatchCommand :: "('c, 'o) mserver \<Rightarrow> nat \<Rightarrow> ('c, 'o) mserver option" where
  "unwatchCommand s c =
     do { s \<leftarrow> unwatchAllKeys s c;
          let s = upd_cl s c (\<lambda>x. x\<lparr>dirty_cas := False\<rparr>);
          Some (addReply s c (R ROk)) }"

section \<open>Transactions\<close>

definition initClientMultiState :: "('c, 'o) mserver \<Rightarrow> nat \<Rightarrow> ('c, 'o) mserver" where
  "initClientMultiState s c = upd_cl s c (\<lambda>x. x\<lparr>mstate := []\<rparr>)"

definition queueMultiCommand :: "('c, 'o) mserver \<Rightarrow> nat \<Rightarrow> 'c request \<Rightarrow> ('c, 'o) mserver" where
  "queueMultiCommand s c r = upd_cl s c (\<lambda>x. x\<lparr>mstate := mstate x @ [r]\<rparr>)"

definition discardTransaction :: "('c, 'o) mserver \<Rightarrow> nat \<Rightarrow> ('c, 'o) mserver option" where
  "discardTransaction s c =
     (let s = initClientMultiState s c;
          s = upd_cl s c (\<lambda>x. x\<lparr>in_multi := False, dirty_cas := False, dirty_exec := False\<rparr>)
      in unwatchAllKeys s c)"

definition flagTransaction :: "('c, 'o) mserver \<Rightarrow> nat \<Rightarrow> ('c, 'o) mserver" where
  "flagTransaction s c = (if in_multi (cl s c) then upd_cl s c (\<lambda>x. x\<lparr>dirty_exec := True\<rparr>) else s)"

definition multiCommand :: "('c, 'o) mserver \<Rightarrow> nat \<Rightarrow> ('c, 'o) mserver" where
  "multiCommand s c =
     (if in_multi (cl s c) then addReply s c (R (RErr ''ERR MULTI calls can not be nested''))
      else addReply (upd_cl s c (\<lambda>x. x\<lparr>in_multi := True\<rparr>)) c (R ROk))"

definition discardCommand :: "('c, 'o) mserver \<Rightarrow> nat \<Rightarrow> ('c, 'o) mserver option" where
  "discardCommand s c =
     (if \<not> in_multi (cl s c) then Some (addReply s c (R (RErr ''ERR DISCARD without MULTI'')))
      else do { s \<leftarrow> discardTransaction s c; Some (addReply s c (R ROk)) })"

definition execCommandPropagateMulti :: "('c, 'o) mserver \<Rightarrow> nat \<Rightarrow> ('c, 'o) mserver" where
  "execCommandPropagateMulti s c = s\<lparr>propagated := propagated s @ [PMulti (selected (cl s c))]\<rparr>"

text \<open>
  \<^verbatim>\<open>call\<close> for the requests that can be queued: run, deliver the hooks, reply, and propagate
  when the command made the key space dirty.
\<close>

definition call_queued :: "('c, 'o) runner \<Rightarrow> ('c, 'o) mserver \<Rightarrow> nat \<Rightarrow> 'c request \<Rightarrow> ('c, 'o) mserver option" where
  "call_queued run s c r =
     (case r of
        CMD x \<Rightarrow>
          do { (k, rep, d) \<leftarrow> run x (ks s) (selected (cl s c));
               let k0 = ks s;
               let s = deliver k0 (drop (length (signals k0)) (signals k)) (s\<lparr>ks := k\<rparr>);
               let s = addReply s c (R rep);
               let s = upd_cl s c (\<lambda>y. y\<lparr>selected := d\<rparr>);
               Some (if dirty k \<noteq> dirty k0 then s\<lparr>propagated := propagated s @ [PCmd d r]\<rparr> else s) }
      | UNWATCH \<Rightarrow> unwatchCommand s c
      | _ \<Rightarrow> None)"

fun exec_loop ::
    "('c, 'o) runner \<Rightarrow> ('c request \<Rightarrow> bool) \<Rightarrow> 'c request list \<Rightarrow> ('c, 'o) mserver \<Rightarrow> nat \<Rightarrow> bool \<Rightarrow> (('c, 'o) mserver \<times> bool) option" where
  "exec_loop run ro [] s c must_propagate = Some (s, must_propagate)"
| "exec_loop run ro (r # rs) s c must_propagate =
     (let (s, must_propagate) =
            (if \<not> must_propagate \<and> \<not> ro r then (execCommandPropagateMulti s c, True) else (s, must_propagate))
      in do { s \<leftarrow> call_queued run s c r; exec_loop run ro rs s c must_propagate })"

definition execCommand ::
    "('c, 'o) runner \<Rightarrow> ('c request \<Rightarrow> bool) \<Rightarrow> ('c, 'o) mserver \<Rightarrow> nat \<Rightarrow> ('c, 'o) mserver option" where
  "execCommand run ro s c =
     (if \<not> in_multi (cl s c) then Some (addReply s c (R (RErr ''ERR EXEC without MULTI'')))
      else if dirty_cas (cl s c) \<or> dirty_exec (cl s c) then
        (let s = addReply s c (if dirty_exec (cl s c)
                   then R (RErr ''EXECABORT Transaction discarded because of previous errors.'') else NullMulti)
         in discardTransaction s c)
      else
        do { s \<leftarrow> unwatchAllKeys s c;
             let s = addReply s c (MultiLen (length (mstate (cl s c))));
             (s, must_propagate) \<leftarrow> exec_loop run ro (mstate (cl s c)) s c False;
             s \<leftarrow> discardTransaction s c;
             Some (if must_propagate then s\<lparr>ks := add_dirty 1 (ks s)\<rparr> else s) })"

definition call ::
    "('c, 'o) runner \<Rightarrow> ('c request \<Rightarrow> bool) \<Rightarrow> ('c, 'o) mserver \<Rightarrow> nat \<Rightarrow> 'c request \<Rightarrow> ('c, 'o) mserver option" where
  "call run ro s c r =
     (case r of
        MULTI \<Rightarrow> Some (multiCommand s c)
      | EXEC \<Rightarrow>
          do { s' \<leftarrow> execCommand run ro s c;
               Some (if dirty (ks s') \<noteq> dirty (ks s)
                     then s'\<lparr>propagated := propagated s' @ [PCmd (selected (cl s' c)) EXEC]\<rparr> else s') }
      | DISCARD \<Rightarrow> discardCommand s c
      | WATCH keys \<Rightarrow> Some (watchCommand s c keys)
      | _ \<Rightarrow> call_queued run s c r)"

text \<open>
  The tests of \<^verbatim>\<open>processCommand\<close> before the command is run, as their outcomes. \<open>ck_name\<close> is the name that the first two
  error messages quote.
\<close>

record admission =
  ck_name :: string
  ck_unknown :: bool
  ck_arity :: bool
  ck_auth :: bool
  ck_oom :: bool
  ck_bgsave :: bool
  ck_roslave :: bool
  ck_pubsub :: bool
  ck_masterdown :: bool
  ck_loading :: bool
  ck_slowscript :: bool

definition quoted :: "string \<Rightarrow> string" where
  "quoted s = CHR 0x27 # s @ [CHR 0x27]"

definition processCommand ::
    "('c, 'o) runner \<Rightarrow> ('c request \<Rightarrow> bool) \<Rightarrow> admission \<Rightarrow> ('c, 'o) mserver \<Rightarrow> nat \<Rightarrow> 'c request \<Rightarrow> ('c, 'o) mserver option" where
  "processCommand run ro ck s c r =
     (let reject = (\<lambda>msg. Some (addReply (flagTransaction s c) c (R (RErr msg)))) in
      if ck_unknown ck then reject (''ERR unknown command '' @ quoted (ck_name ck))
      else if ck_arity ck then reject (''ERR wrong number of arguments for '' @ quoted (ck_name ck) @ '' command'')
      else if ck_auth ck then reject ''ERR operation not permitted''
      else if ck_oom ck then reject ''OOM command not allowed when used memory > 'maxmemory'.''
      else if ck_bgsave ck then reject (''MISCONF Redis is configured to save RDB snapshots, but is currently not able to persist on disk. '' @
        ''Commands that may modify the data set are disabled. Please check Redis logs for details about the error.'')
      else if ck_roslave ck then Some (addReply s c (R (RErr ''READONLY You can't write against a read only slave.'')))
      else if ck_pubsub ck then Some (addReply s c (R (RErr ''ERR only (P)SUBSCRIBE / (P)UNSUBSCRIBE / QUIT allowed in this context'')))
      else if ck_masterdown ck then reject ''MASTERDOWN Link with MASTER is down and slave-serve-stale-data is set to 'no'.''
      else if ck_loading ck then Some (addReply s c (R (RErr ''LOADING Redis is loading the dataset in memory'')))
      else if ck_slowscript ck then reject ''BUSY Redis is busy running a script. You can only call SCRIPT KILL or SHUTDOWN NOSAVE.''
      else if in_multi (cl s c) \<and> r \<noteq> EXEC \<and> r \<noteq> DISCARD \<and> r \<noteq> MULTI \<and> \<not> is_WATCH r then
        Some (addReply (queueMultiCommand s c r) c (R (RStatus ''QUEUED'')))
      else call run ro s c r)"

text \<open>Between two requests time may pass.\<close>

datatype 'c event = Request nat admission "'c request" | Tick int

fun do_event :: "('c, 'o) runner \<Rightarrow> ('c request \<Rightarrow> bool) \<Rightarrow> 'c event \<Rightarrow> ('c, 'o) mserver \<Rightarrow> ('c, 'o) mserver option" where
  "do_event run ro (Request c ck r) s = (if c \<in> set (client_ids s) then processCommand run ro ck s c r else Some s)"
| "do_event run ro (Tick t) s = Some (s\<lparr>ks := (ks s)\<lparr>mstime := max t (mstime (ks s))\<rparr>\<rparr>)"

fun do_events :: "('c, 'o) runner \<Rightarrow> ('c request \<Rightarrow> bool) \<Rightarrow> 'c event list \<Rightarrow> ('c, 'o) mserver \<Rightarrow> ('c, 'o) mserver option" where
  "do_events run ro [] s = Some s"
| "do_events run ro (e # es) s = do { s \<leftarrow> do_event run ro e s; do_events run ro es s }"

section \<open>The invariant\<close>

text \<open>
  The keys a client watches and the clients that watch a key are the same relation, no entry is
  duplicated or empty, only connected clients watch, and only commands that can run are queued.
\<close>

definition watch_ok :: "('c, 'o) mserver \<Rightarrow> bool" where
  "watch_ok s \<longleftrightarrow>
     (\<forall>c. distinct (watched_keys (cl s c)) \<and> (watched_keys (cl s c) \<noteq> [] \<longrightarrow> c \<in> set (client_ids s))) \<and>
     (\<forall>d k cs. wkeys s d k = Some cs \<longrightarrow> cs \<noteq> [] \<and> distinct cs) \<and>
     (\<forall>c d k. (k, d) \<in> set (watched_keys (cl s c)) \<longleftrightarrow> (\<exists>cs. wkeys s d k = Some cs \<and> c \<in> set cs))"

definition queue_ok :: "'c client \<Rightarrow> bool" where
  "queue_ok x \<longleftrightarrow> (\<forall>r \<in> set (mstate x). r = UNWATCH \<or> (\<exists>y. r = CMD y))"

definition msrv_ok :: "('c, 'o) mserver \<Rightarrow> bool" where
  "msrv_ok s \<longleftrightarrow> watch_ok s \<and> keys_ok (ks s) \<and> (\<forall>c. queue_ok (cl s c))"

text \<open>
  \<open>guards\<close>: a watching client keeps its watched keys and its dirty mark, and a watched key without
  expiry time is unchanged or the client is marked. \<open>calm\<close> says in addition that nothing else of the
  client changes. \<open>act a r\<close> is an action of client \<open>a\<close>, which may release its own watched keys if \<open>r\<close>.
\<close>

definition guards :: "nat \<Rightarrow> ('c, 'o) mserver \<Rightarrow> ('c, 'o) mserver \<Rightarrow> bool" where
  "guards c s s' \<longleftrightarrow>
     set (watched_keys (cl s c)) \<subseteq> set (watched_keys (cl s' c)) \<and> (dirty_cas (cl s c) \<longrightarrow> dirty_cas (cl s' c)) \<and>
     (\<forall>d k. (k, d) \<in> set (watched_keys (cl s c)) \<and> snd (keyval (ks s) d k) = None \<longrightarrow>
        dirty_cas (cl s' c) \<or> keyval (ks s') d k = keyval (ks s) d k)"

definition calm :: "nat \<Rightarrow> ('c, 'o) mserver \<Rightarrow> ('c, 'o) mserver \<Rightarrow> bool" where
  "calm c s s' \<longleftrightarrow> (\<exists>b. cl s' c = (cl s c)\<lparr>dirty_cas := b\<rparr>) \<and> guards c s s'"

definition act :: "nat \<Rightarrow> bool \<Rightarrow> ('c, 'o) mserver \<Rightarrow> ('c, 'o) mserver \<Rightarrow> bool" where
  "act a r s s' \<longleftrightarrow> msrv_ok s' \<and> client_ids s' = client_ids s \<and> (\<forall>c. c \<noteq> a \<longrightarrow> calm c s s') \<and> (r \<or> guards a s s')"

lemma guards_trans:
  assumes "guards c s s'" "guards c s' s''"
  shows "guards c s s''"
proof -
  have "dirty_cas (cl s'' c) \<or> keyval (ks s'') d k = keyval (ks s) d k"
    if h: "(k, d) \<in> set (watched_keys (cl s c))" "snd (keyval (ks s) d k) = None" for d k
  proof (cases "dirty_cas (cl s' c)")
    case True
    then show ?thesis using assms(2) by (simp add: guards_def)
  next
    case False
    then have e: "keyval (ks s') d k = keyval (ks s) d k" using assms(1) h by (auto simp: guards_def)
    moreover have "(k, d) \<in> set (watched_keys (cl s' c))" using h(1) assms(1) by (auto simp: guards_def)
    ultimately have "dirty_cas (cl s'' c) \<or> keyval (ks s'') d k = keyval (ks s') d k"
      using assms(2) h(2) unfolding guards_def by metis
    then show ?thesis using e by simp
  qed
  then show ?thesis using assms unfolding guards_def by blast
qed

lemma calm_same: "cl s' c = cl s c \<Longrightarrow> ks s' = ks s \<Longrightarrow> calm c s s'"
  unfolding calm_def guards_def by (auto intro: exI [of _ "dirty_cas (cl s c)"])

lemma calm_trans:
  assumes "calm c s s'" "calm c s' s''"
  shows "calm c s s''"
proof -
  obtain b b' where "cl s'' c = (cl s' c)\<lparr>dirty_cas := b\<rparr>" "cl s' c = (cl s c)\<lparr>dirty_cas := b'\<rparr>"
    using assms unfolding calm_def by blast
  then have "cl s'' c = (cl s c)\<lparr>dirty_cas := b\<rparr>" by simp
  moreover have "guards c s s''" using assms guards_trans unfolding calm_def by blast
  ultimately show ?thesis unfolding calm_def by blast
qed

lemma act_refl: "msrv_ok s \<Longrightarrow> act a r s s"
  by (simp add: act_def calm_same guards_def)

lemma act_trans: "act a r s s' \<Longrightarrow> act a r' s' s'' \<Longrightarrow> act a (r \<or> r') s s''"
  unfolding act_def using calm_trans guards_trans by metis

lemma act_weaken: "act a False s s' \<Longrightarrow> act a r s s'"
  by (auto simp: act_def)

lemma upd_cl_simps [simp]:
  "ks (upd_cl s c f) = ks s" "client_ids (upd_cl s c f) = client_ids s" "wkeys (upd_cl s c f) = wkeys s"
  "propagated (upd_cl s c f) = propagated s" "cl (upd_cl s c f) c' = (if c' = c then f (cl s c) else cl s c')"
  by (simp_all add: upd_cl_def)

lemma watch_ok_cong:
  assumes "watch_ok s" "\<And>c. watched_keys (cl s' c) = watched_keys (cl s c)" "wkeys s' = wkeys s" "client_ids s' = client_ids s"
  shows "watch_ok s'"
  using assms by (simp add: watch_ok_def)

text \<open>Steps that touch only the acting client, or what is no part of the invariant.\<close>

lemma upd_cl_act:
  assumes "msrv_ok s" "watched_keys (f (cl s a)) = watched_keys (cl s a)" "queue_ok (f (cl s a))"
    "r \<or> (dirty_cas (cl s a) \<longrightarrow> dirty_cas (f (cl s a)))"
  shows "act a r s (upd_cl s a f)"
proof -
  have "watch_ok (upd_cl s a f)"
    by (rule watch_ok_cong [of s]) (use assms in \<open>auto simp: msrv_ok_def\<close>)
  moreover have "calm c s (upd_cl s a f)" if "c \<noteq> a" for c
    using that by (simp add: calm_same)
  ultimately show ?thesis using assms by (auto simp: act_def msrv_ok_def guards_def)
qed

lemma addReply_act: "msrv_ok s \<Longrightarrow> act a False s (addReply s a r)"
  unfolding addReply_def by (rule upd_cl_act) (auto simp: msrv_ok_def queue_ok_def)

lemma propagated_act: "msrv_ok s \<Longrightarrow> act a False s (s\<lparr>propagated := p\<rparr>)"
  unfolding act_def msrv_ok_def by (auto simp: watch_ok_def calm_same guards_def)

lemma act_ok: "act a r s s' \<Longrightarrow> msrv_ok s'"
  by (simp add: act_def)

lemma act_ids: "act a r s s' \<Longrightarrow> client_ids s' = client_ids s"
  by (simp add: act_def)

lemma act_reply: "act a r s s' \<Longrightarrow> act a r s (addReply s' a m)"
  using act_trans [OF _ addReply_act [OF act_ok], of a r s s'] by simp

section \<open>Watching and unwatching\<close>

lemma watchForKey_act:
  assumes ok: "msrv_ok s" and a: "a \<in> set (client_ids s)"
  shows "act a False s (watchForKey s a key)"
proof (cases "(key, selected (cl s a)) \<in> set (watched_keys (cl s a))")
  case True
  then show ?thesis using ok by (simp add: watchForKey_def Let_def act_refl)
next
  case False
  let ?d = "selected (cl s a)" and ?s = "watchForKey s a key"
  let ?cs = "case wkeys s (selected (cl s a)) key of None \<Rightarrow> [] | Some cs \<Rightarrow> cs"
  have w: "watch_ok s" using ok by (simp add: msrv_ok_def)
  have notin: "a \<notin> set ?cs" using False w by (auto simp: watch_ok_def split: option.splits)
  have dist: "distinct ?cs" using w by (auto simp: watch_ok_def split: option.split)
  have eq: "cl ?s = (cl s)(a := (cl s a)\<lparr>watched_keys := watched_keys (cl s a) @ [(key, ?d)]\<rparr>)"
    "wkeys ?s = (wkeys s)(?d := (wkeys s ?d)(key \<mapsto> ?cs @ [a]))" "ks ?s = ks s" "client_ids ?s = client_ids s"
    using False by (simp_all add: watchForKey_def Let_def upd_cl_def)
  have "(k, d) \<in> set (watched_keys (cl ?s c)) \<longleftrightarrow> (\<exists>cs. wkeys ?s d k = Some cs \<and> c \<in> set cs)" for c d k
  proof (cases "d = ?d \<and> k = key")
    case True
    have "(key, ?d) \<in> set (watched_keys (cl s c)) \<longleftrightarrow> c \<in> set ?cs"
      using w by (cases "wkeys s ?d key") (auto simp: watch_ok_def)
    then show ?thesis using True by (auto simp: eq)
  next
    case False
    then show ?thesis using w by (auto simp: eq watch_ok_def)
  qed
  moreover have "\<forall>c. distinct (watched_keys (cl ?s c)) \<and> (watched_keys (cl ?s c) \<noteq> [] \<longrightarrow> c \<in> set (client_ids ?s))"
    using w a False by (auto simp: eq watch_ok_def)
  moreover have "\<forall>d k cs. wkeys ?s d k = Some cs \<longrightarrow> cs \<noteq> [] \<and> distinct cs"
    using w notin dist by (auto simp: eq watch_ok_def)
  ultimately have "watch_ok ?s" unfolding watch_ok_def by blast
  moreover have "queue_ok (cl ?s c)" for c using ok by (simp add: eq msrv_ok_def queue_ok_def)
  moreover have "calm c s ?s" if "c \<noteq> a" for c
    using that by (simp add: calm_same eq)
  moreover have "guards a s ?s" by (auto simp: guards_def eq)
  ultimately show ?thesis using ok by (simp add: act_def msrv_ok_def eq)
qed

lemma watchCommand_act:
  assumes "msrv_ok s" "a \<in> set (client_ids s)"
  shows "act a False s (watchCommand s a keys)"
proof -
  have "act a False s (fold (\<lambda>key s. watchForKey s a key) keys s)"
    using assms
  proof (induction keys arbitrary: s)
    case (Cons key keys)
    have w: "act a False s (watchForKey s a key)" using Cons.prems by (rule watchForKey_act)
    then have "act a False (watchForKey s a key) (fold (\<lambda>key s. watchForKey s a key) keys (watchForKey s a key))"
      using Cons.prems(2) by (intro Cons.IH) (auto dest: act_ok act_ids)
    from act_trans [OF w this] show ?case by simp
  qed (simp add: act_refl)
  then show ?thesis using assms(1) by (simp add: watchCommand_def act_reply act_refl)
qed

text \<open>One round of the unwatching loop removes one pair from both sides of the relation.\<close>

lemma unwatch_one:
  assumes w: "watch_ok s" and wk: "watched_keys (cl s a) = (key, d) # wks"
  shows "\<exists>cs. wkeys s d key = Some cs \<and> a \<in> set cs \<and>
    watch_ok (upd_cl (s\<lparr>wkeys := (wkeys s)(d := (wkeys s d)(key := (if remove1 a cs = [] then None else Some (remove1 a cs))))\<rparr>) a
      (\<lambda>x. x\<lparr>watched_keys := remove1 (key, d) (watched_keys x)\<rparr>))"
proof -
  from w wk obtain cs where cs: "wkeys s d key = Some cs" "a \<in> set cs" "distinct cs"
    unfolding watch_ok_def by (metis list.set_intros(1))
  let ?s = "upd_cl (s\<lparr>wkeys := (wkeys s)(d := (wkeys s d)(key := (if remove1 a cs = [] then None else Some (remove1 a cs))))\<rparr>) a
      (\<lambda>x. x\<lparr>watched_keys := remove1 (key, d) (watched_keys x)\<rparr>)"
  have dw: "distinct (watched_keys (cl s a))" "distinct ((key, d) # wks)" using w wk unfolding watch_ok_def by metis+
  have set1: "set (remove1 a cs) = set cs - {a}" using cs(3) by (simp add: set_remove1_eq)
  have "(k, d') \<in> set (watched_keys (cl ?s c)) \<longleftrightarrow> (\<exists>cs. wkeys ?s d' k = Some cs \<and> c \<in> set cs)" for c d' k
  proof (cases "d' = d \<and> k = key")
    case True
    have "(key, d) \<in> set (watched_keys (cl s c)) \<longleftrightarrow> c \<in> set cs" using w cs(1) by (auto simp: watch_ok_def)
    moreover have "(key, d) \<notin> set (remove1 (key, d) (watched_keys (cl s a)))" using dw by (simp add: set_remove1_eq)
    moreover have "remove1 a cs = [] \<Longrightarrow> set cs - {a} = {}" using set1 by auto
    ultimately show ?thesis using True set1 by auto
  next
    case False
    then have "(k, d') \<in> set (remove1 (key, d) (watched_keys (cl s a))) \<longleftrightarrow> (k, d') \<in> set (watched_keys (cl s a))"
      using dw by (auto simp: set_remove1_eq)
    then show ?thesis using w False by (auto simp: watch_ok_def)
  qed
  moreover have "\<forall>c. distinct (watched_keys (cl ?s c)) \<and> (watched_keys (cl ?s c) \<noteq> [] \<longrightarrow> c \<in> set (client_ids ?s))"
    using w wk dw by (auto simp: watch_ok_def)
  moreover have "\<forall>d k cs. wkeys ?s d k = Some cs \<longrightarrow> cs \<noteq> [] \<and> distinct cs"
    using w cs(3) by (auto simp: watch_ok_def split: if_splits)
  ultimately have "watch_ok ?s" unfolding watch_ok_def by blast
  then show ?thesis using cs(1,2) by (intro exI [of _ cs]) blast
qed

lemma unwatch_loop_ok:
  "watch_ok s \<Longrightarrow> watched_keys (cl s a) = wks \<Longrightarrow>
   \<exists>s'. unwatch_loop s a wks = Some s' \<and> watch_ok s' \<and> cl s' = (cl s)(a := (cl s a)\<lparr>watched_keys := []\<rparr>) \<and>
     ks s' = ks s \<and> client_ids s' = client_ids s \<and> propagated s' = propagated s"
proof (induction wks arbitrary: s)
  case Nil
  then show ?case by (intro exI [of _ s]) (simp add: fun_eq_iff)
next
  case (Cons p wks)
  obtain key d where p: "p = (key, d)" by force
  from unwatch_one [OF Cons.prems(1) Cons.prems(2) [unfolded p]] obtain cs where
    cs: "wkeys s d key = Some cs" "a \<in> set cs" and
    w: "watch_ok (upd_cl (s\<lparr>wkeys := (wkeys s)(d := (wkeys s d)(key := (if remove1 a cs = [] then None else Some (remove1 a cs))))\<rparr>) a
      (\<lambda>x. x\<lparr>watched_keys := remove1 (key, d) (watched_keys x)\<rparr>))" (is "watch_ok ?s") by blast
  have "watched_keys (cl ?s a) = wks" using Cons.prems(2) p by simp
  from Cons.IH [OF w this] obtain s' where s': "unwatch_loop ?s a wks = Some s'" "watch_ok s'"
    "cl s' = (cl ?s)(a := (cl ?s a)\<lparr>watched_keys := []\<rparr>)" "ks s' = ks ?s" "client_ids s' = client_ids ?s" "propagated s' = propagated ?s"
    by blast
  have "unwatch_loop s a (p # wks) = Some s'" using s'(1) cs by (simp add: p Let_def)
  moreover have "cl s' = (cl s)(a := (cl s a)\<lparr>watched_keys := []\<rparr>)" using s'(3) by (simp add: fun_eq_iff)
  ultimately show ?case using s' by (intro exI [of _ s']) simp
qed

lemma unwatchAllKeys_ok:
  assumes "watch_ok s"
  shows "\<exists>s'. unwatchAllKeys s a = Some s' \<and> watch_ok s' \<and> cl s' = (cl s)(a := (cl s a)\<lparr>watched_keys := []\<rparr>) \<and>
     ks s' = ks s \<and> client_ids s' = client_ids s \<and> propagated s' = propagated s"
proof (cases "watched_keys (cl s a) = []")
  case True
  then have "(cl s)(a := (cl s a)\<lparr>watched_keys := []\<rparr>) = cl s" by (simp add: fun_upd_idem)
  then show ?thesis using assms True by (simp add: unwatchAllKeys_def)
next
  case False
  then show ?thesis using unwatch_loop_ok [OF assms refl, of a] by (simp add: unwatchAllKeys_def)
qed

lemma unwatchAllKeys_act:
  assumes "msrv_ok s"
  shows "\<exists>s'. unwatchAllKeys s a = Some s' \<and> act a True s s' \<and> cl s' = (cl s)(a := (cl s a)\<lparr>watched_keys := []\<rparr>) \<and>
     ks s' = ks s \<and> propagated s' = propagated s"
  using unwatchAllKeys_ok [of s a] assms by (auto simp: msrv_ok_def act_def calm_same queue_ok_def)

lemma unwatchCommand_act:
  assumes "msrv_ok s"
  shows "\<exists>s'. unwatchCommand s a = Some s' \<and> act a True s s' \<and> ks s' = ks s \<and> propagated s' = propagated s \<and>
     cl s' a = (cl s a)\<lparr>watched_keys := [], dirty_cas := False, out := out (cl s a) @ [R ROk]\<rparr>"
proof -
  from unwatchAllKeys_act [OF assms] obtain s' where s': "unwatchAllKeys s a = Some s'" "act a True s s'"
    "cl s' = (cl s)(a := (cl s a)\<lparr>watched_keys := []\<rparr>)" "ks s' = ks s" "propagated s' = propagated s" by blast
  have "act a True s' (upd_cl s' a (\<lambda>x. x\<lparr>dirty_cas := False\<rparr>))"
    by (rule upd_cl_act) (use act_ok [OF s'(2)] in \<open>auto simp: msrv_ok_def queue_ok_def\<close>)
  from act_reply [OF act_trans [OF s'(2) this]] show ?thesis using s' by (simp add: unwatchCommand_def addReply_def)
qed

lemma discardTransaction_act:
  assumes "msrv_ok s"
  shows "\<exists>s'. discardTransaction s a = Some s' \<and> act a True s s' \<and> ks s' = ks s \<and> propagated s' = propagated s \<and>
     cl s' a = (cl s a)\<lparr>watched_keys := [], dirty_cas := False, dirty_exec := False, in_multi := False, mstate := []\<rparr>"
proof -
  let ?s = "upd_cl (initClientMultiState s a) a (\<lambda>x. x\<lparr>in_multi := False, dirty_cas := False, dirty_exec := False\<rparr>)"
  have 1: "act a True s (initClientMultiState s a)"
    unfolding initClientMultiState_def by (rule upd_cl_act) (use assms in \<open>auto simp: queue_ok_def\<close>)
  have "act a True (initClientMultiState s a) ?s"
    by (rule upd_cl_act) (use act_ok [OF 1] in \<open>auto simp: msrv_ok_def queue_ok_def\<close>)
  from act_trans [OF 1 this] have 2: "act a True s ?s" by simp
  from unwatchAllKeys_act [OF act_ok [OF 2]] obtain s' where s': "unwatchAllKeys ?s a = Some s'" "act a True ?s s'"
    "cl s' = (cl ?s)(a := (cl ?s a)\<lparr>watched_keys := []\<rparr>)" "ks s' = ks ?s" "propagated s' = propagated ?s" by blast
  then show ?thesis using act_trans [OF 2 s'(2)] by (simp add: discardTransaction_def initClientMultiState_def)
qed

lemma flagTransaction_act: "msrv_ok s \<Longrightarrow> act a False s (flagTransaction s a)"
  unfolding flagTransaction_def by (auto intro!: upd_cl_act act_refl simp: msrv_ok_def queue_ok_def)

lemma multiCommand_act: "msrv_ok s \<Longrightarrow> act a False s (multiCommand s a)"
  unfolding multiCommand_def by (auto intro!: act_reply upd_cl_act act_refl simp: msrv_ok_def queue_ok_def)

lemma discardCommand_act: "msrv_ok s \<Longrightarrow> \<exists>s'. discardCommand s a = Some s' \<and> act a True s s'"
  using discardTransaction_act [of s a] by (auto simp: discardCommand_def intro: act_reply act_refl)

lemma queueMultiCommand_act:
  "msrv_ok s \<Longrightarrow> q = UNWATCH \<or> (\<exists>y. q = CMD y) \<Longrightarrow> act a False s (queueMultiCommand s a q)"
  unfolding queueMultiCommand_def by (rule upd_cl_act) (auto simp: msrv_ok_def queue_ok_def)

section \<open>Delivering the hooks\<close>

text \<open>\<open>marks C s s'\<close>: the clients in \<open>C\<close> are marked dirty and nothing else changes.\<close>

definition marks :: "nat set \<Rightarrow> ('c, 'o) mserver \<Rightarrow> ('c, 'o) mserver \<Rightarrow> bool" where
  "marks C s s' \<longleftrightarrow> ks s' = ks s \<and> client_ids s' = client_ids s \<and> wkeys s' = wkeys s \<and> propagated s' = propagated s \<and>
     (\<forall>c. cl s' c = (cl s c)\<lparr>dirty_cas := (dirty_cas (cl s c) \<or> c \<in> C)\<rparr>)"

lemma marks_refl: "marks {} s s"
  by (simp add: marks_def)

lemma marks_trans: "marks C s s' \<Longrightarrow> marks D s' s'' \<Longrightarrow> marks (C \<union> D) s s''"
  by (simp add: marks_def disj_assoc)

lemma marks_eq: "marks C s s' \<Longrightarrow> C = D \<Longrightarrow> marks D s s'"
  by simp

lemma set_dirty_marks: "marks {c} s (set_dirty c s)"
  by (simp add: marks_def set_dirty_def)

lemma fold_marks:
  assumes "\<And>x C t. marks C s t \<Longrightarrow> marks (F x) t (f x t)"
  shows "marks C s t \<Longrightarrow> marks (C \<union> (\<Union>x\<in>set xs. F x)) s (fold f xs t)"
proof (induction xs arbitrary: C t)
  case (Cons x xs)
  from Cons.IH [OF marks_trans [OF Cons.prems assms [OF Cons.prems]]] show ?case by (simp add: Un_assoc)
qed simp

lemmas fold_marks_all = fold_marks [OF _ marks_refl, simplified]

definition flushes :: "'o server \<Rightarrow> int \<Rightarrow> bytes \<times> nat \<Rightarrow> bool" where
  "flushes k dbid p \<longleftrightarrow> (dbid = - 1 \<or> int (snd p) = dbid) \<and> db_dict (dbs k (snd p)) (fst p) \<noteq> None"

lemma touchWatchedKey_marks: "marks {c. \<exists>cs. wkeys s d key = Some cs \<and> c \<in> set cs} s (touchWatchedKey s d key)"
proof (cases "wkeys s d key")
  case None
  then show ?thesis by (simp add: touchWatchedKey_def marks_refl)
next
  case (Some cs)
  have "marks (set cs) s (fold set_dirty cs s)"
    using fold_marks_all [of s "\<lambda>c. {c}" set_dirty cs] by (simp add: set_dirty_marks)
  then show ?thesis using Some by (simp add: touchWatchedKey_def)
qed

lemma touchWatchedKeysOnFlush_marks:
  "marks {c \<in> set (client_ids s). \<exists>p \<in> set (watched_keys (cl s c)). flushes k dbid p} s (touchWatchedKeysOnFlush k s dbid)"
proof -
  let ?f = "\<lambda>c (key, d) s. if dbid = - 1 \<or> int d = dbid then (if db_dict (dbs k d) key \<noteq> None then set_dirty c s else s) else s"
  let ?F = "\<lambda>c. {c'. c' = c \<and> (\<exists>p \<in> set (watched_keys (cl s c)). flushes k dbid p)}"
  have step: "marks {c'. c' = c \<and> flushes k dbid p} t (?f c p t)" for c p t
    using set_dirty_marks [of c t] marks_refl [of t] by (cases p) (auto simp: flushes_def)
  have "marks (?F c) t (fold (?f c) (watched_keys (cl t c)) t)" if "marks C s t" for c C t
  proof -
    have "marks (\<Union>p\<in>set (watched_keys (cl t c)). {c'. c' = c \<and> flushes k dbid p}) t (fold (?f c) (watched_keys (cl t c)) t)"
      by (rule fold_marks_all) (rule step)
    moreover have "(\<Union>p\<in>set (watched_keys (cl t c)). {c'. c' = c \<and> flushes k dbid p}) = ?F c"
      using that by (auto simp: marks_def)
    ultimately show ?thesis by simp
  qed
  then have "marks (\<Union>c\<in>set (client_ids s). ?F c) s (touchWatchedKeysOnFlush k s dbid)"
    unfolding touchWatchedKeysOnFlush_def by (rule fold_marks_all)
  moreover have "(\<Union>c\<in>set (client_ids s). ?F c) = {c \<in> set (client_ids s). \<exists>p \<in> set (watched_keys (cl s c)). flushes k dbid p}"
    by auto
  ultimately show ?thesis by simp
qed

text \<open>Exactly the clients that watch a touched key are marked.\<close>

lemma marks_watch_ok: "watch_ok s \<Longrightarrow> marks C s s' \<Longrightarrow> watch_ok s'"
  by (rule watch_ok_cong [of s]) (auto simp: marks_def)

lemma deliver_marks:
  "watch_ok s \<Longrightarrow> marks {c. \<exists>p \<in> set (watched_keys (cl s c)). touched k sg (snd p) (fst p)} s (deliver k sg s)"
proof (induction k sg s rule: deliver.induct)
  case (1 k s)
  then show ?case by (simp add: marks_refl touched_def)
next
  case (2 k d key sg s)
  note m = touchWatchedKey_marks [of s d key]
  have "{c. \<exists>cs. wkeys s d key = Some cs \<and> c \<in> set cs} = {c. (key, d) \<in> set (watched_keys (cl s c))}"
    using 2(2) unfolding watch_ok_def by blast
  with m have m': "marks {c. (key, d) \<in> set (watched_keys (cl s c))} s (touchWatchedKey s d key)" by simp
  have "watched_keys (cl (touchWatchedKey s d key) c) = watched_keys (cl s c)" for c using m by (simp add: marks_def)
  then have "marks {c. \<exists>p \<in> set (watched_keys (cl s c)). touched k (Modified d key # sg) (snd p) (fst p)} s
      (deliver k sg (touchWatchedKey s d key))"
    by (intro marks_eq [OF marks_trans [OF m' 2(1) [OF marks_watch_ok [OF 2(2) m]]]]) (force simp: touched_def)
  then show ?case by simp
next
  case (3 k dbid sg s)
  note m = touchWatchedKeysOnFlush_marks [of s k dbid]
  have "watched_keys (cl (touchWatchedKeysOnFlush k s dbid) c) = watched_keys (cl s c)" for c using m by (simp add: marks_def)
  moreover have "p \<in> set (watched_keys (cl s c)) \<Longrightarrow> c \<in> set (client_ids s)" for p c
    using 3(2) unfolding watch_ok_def by (metis empty_iff list.set(1))
  ultimately have "marks {c. \<exists>p \<in> set (watched_keys (cl s c)). touched k (Flushed dbid # sg) (snd p) (fst p)} s
      (deliver k sg (touchWatchedKeysOnFlush k s dbid))"
    by (intro marks_eq [OF marks_trans [OF m 3(1) [OF marks_watch_ok [OF 3(2) m]]]]) (auto simp: touched_def flushes_def)
  then show ?case by simp
qed

text \<open>Running a command that reports what it changes, and delivering its hooks.\<close>

lemma deliver_act:
  assumes ok: "msrv_ok s" and k: "keys_ok k" "reported (ks s) k"
  shows "act a False s (deliver (ks s) (drop (length (signals (ks s))) (signals k)) (s\<lparr>ks := k\<rparr>))" (is "act a False s ?s")
proof -
  from k(2) obtain new where new: "signals k = signals (ks s) @ new"
    "\<And>d y. expires (dbs (ks s) d) y = None \<Longrightarrow> keyval k d y = keyval (ks s) d y \<or> touched (ks s) new d y"
    unfolding reported_def by blast
  have w: "watch_ok (s\<lparr>ks := k\<rparr>)" using ok by (auto simp: msrv_ok_def intro: watch_ok_cong)
  have m: "marks {c. \<exists>p \<in> set (watched_keys (cl s c)). touched (ks s) new (snd p) (fst p)} (s\<lparr>ks := k\<rparr>) ?s"
    using deliver_marks [OF w, of "ks s" new] new(1) by simp
  have "keyval (ks ?s) d y = keyval (ks s) d y \<or> dirty_cas (cl ?s c)"
    if "(y, d) \<in> set (watched_keys (cl s c))" "snd (keyval (ks s) d y) = None" for c d y
    using new(2) [of d y] m that by (fastforce simp: marks_def keyval_def)
  then have g: "guards c s ?s" for c
    using m unfolding guards_def by (auto simp: marks_def)
  moreover have "calm c s ?s" for c using g m by (auto simp: calm_def marks_def)
  moreover have "msrv_ok ?s" using ok m marks_watch_ok [OF w m] k(1) by (auto simp: msrv_ok_def marks_def queue_ok_def)
  ultimately show ?thesis using m by (simp add: act_def marks_def)
qed

lemma ks_keys_act:
  assumes "msrv_ok s" "dbs k = dbs (ks s)"
  shows "act a False s (s\<lparr>ks := k\<rparr>)"
proof -
  have "guards c s (s\<lparr>ks := k\<rparr>)" for c using assms(2) by (simp add: guards_def keyval_def)
  moreover from this have "calm c s (s\<lparr>ks := k\<rparr>)" for c
    unfolding calm_def by (auto intro: exI [of _ "dirty_cas (cl s c)"])
  moreover have "keys_ok k" using assms by (auto simp: msrv_ok_def intro: keys_ok_dbs)
  ultimately show ?thesis using assms by (auto simp: act_def msrv_ok_def intro: watch_ok_cong)
qed

section \<open>The server over a table of commands\<close>

text \<open>What running the requests of a queue one after the other yields.\<close>

fun run_seq :: "('c, 'o) runner \<Rightarrow> 'c request list \<Rightarrow> 'o server \<Rightarrow> nat \<Rightarrow> ('o server \<times> reply list \<times> nat) option" where
  "run_seq run [] k d = Some (k, [], d)"
| "run_seq run (r # rs) k d =
     do { (k, rep, d) \<leftarrow> (case r of CMD x \<Rightarrow> run x k d | _ \<Rightarrow> Some (k, ROk, d));
          (k, reps, d) \<leftarrow> run_seq run rs k d;
          Some (k, rep # reps, d) }"

text \<open>The events by which a client gives up its watched keys.\<close>

fun releases :: "nat \<Rightarrow> 'c event \<Rightarrow> bool" where
  "releases c (Request a ck q) \<longleftrightarrow> a = c \<and> (q = EXEC \<or> q = DISCARD \<or> q = UNWATCH)"
| "releases c (Tick t) \<longleftrightarrow> False"

text \<open>A table of commands that keep the invariant of the key space and report what they change.\<close>

locale command_table =
  fixes run :: "('c, 'o) runner"
  assumes run_ok: "keys_ok k \<Longrightarrow> \<exists>k' rep d'. run x k d = Some (k', rep, d') \<and> keys_ok k' \<and> reported k k'"
begin

lemma call_queued_cmd:
  assumes "msrv_ok s"
  shows "\<exists>s' k rep d. call_queued run s a (CMD x) = Some s' \<and> act a False s s' \<and> run x (ks s) (selected (cl s a)) = Some (k, rep, d) \<and>
    ks s' = k \<and> selected (cl s' a) = d \<and> out (cl s' a) = out (cl s a) @ [R rep] \<and>
    in_multi (cl s' a) = in_multi (cl s a)"
proof -
  from assms run_ok [of "ks s" x "selected (cl s a)"] obtain k rep d where
    r: "run x (ks s) (selected (cl s a)) = Some (k, rep, d)" "keys_ok k" "reported (ks s) k" by (auto simp: msrv_ok_def)
  let ?s1 = "deliver (ks s) (drop (length (signals (ks s))) (signals k)) (s\<lparr>ks := k\<rparr>)"
  let ?s2 = "upd_cl (addReply ?s1 a (R rep)) a (\<lambda>y. y\<lparr>selected := d\<rparr>)"
  let ?s3 = "if dirty k \<noteq> dirty (ks s) then ?s2\<lparr>propagated := propagated ?s2 @ [PCmd d (CMD x)]\<rparr> else ?s2"
  have 1: "act a False s (addReply ?s1 a (R rep))" using deliver_act [OF assms r(2,3)] by (rule act_reply)
  have "act a False (addReply ?s1 a (R rep)) ?s2"
    by (rule upd_cl_act) (use act_ok [OF 1] in \<open>auto simp: msrv_ok_def queue_ok_def\<close>)
  from act_trans [OF 1 this] have 2: "act a False s ?s2" by simp
  have 3: "act a False s ?s3" using 2 act_trans [OF 2 propagated_act [OF act_ok [OF 2]]] by simp
  have w: "watch_ok (s\<lparr>ks := k\<rparr>)" using assms by (auto simp: msrv_ok_def intro: watch_ok_cong)
  have m: "ks ?s1 = k" "out (cl ?s1 a) = out (cl s a)" "in_multi (cl ?s1 a) = in_multi (cl s a)"
    using deliver_marks [OF w, of "ks s"] by (auto simp: marks_def)
  have "call_queued run s a (CMD x) = Some ?s3" using r(1) by (simp add: call_queued_def Let_def)
  then show ?thesis using 3 r(1) m by (intro exI [of _ ?s3]) (auto simp: addReply_def)
qed

lemma call_queued_ok:
  assumes "msrv_ok s" "q = UNWATCH \<or> (\<exists>x. q = CMD x)"
  shows "\<exists>s' k rep d. call_queued run s a q = Some s' \<and> act a True s s' \<and>
    (case q of CMD x \<Rightarrow> run x (ks s) (selected (cl s a)) | _ \<Rightarrow> Some (ks s, ROk, selected (cl s a))) = Some (k, rep, d) \<and>
    ks s' = k \<and> selected (cl s' a) = d \<and> out (cl s' a) = out (cl s a) @ [R rep] \<and> in_multi (cl s' a) = in_multi (cl s a)"
  using assms(2)
proof
  assume "q = UNWATCH"
  then show ?thesis using unwatchCommand_act [OF assms(1), of a] by (auto simp: call_queued_def)
next
  assume "\<exists>x. q = CMD x"
  then obtain x where "q = CMD x" by blast
  then show ?thesis using call_queued_cmd [OF assms(1), of a x] act_weaken by (fastforce simp: split_beta)
qed

lemma exec_loop_ok:
  "msrv_ok s \<Longrightarrow> \<forall>q \<in> set rs. q = UNWATCH \<or> (\<exists>x. q = CMD x) \<Longrightarrow>
   \<exists>s' k reps d. exec_loop run ro rs s a mp = Some (s', mp \<or> (\<exists>q \<in> set rs. \<not> ro q)) \<and> act a True s s' \<and>
     run_seq run rs (ks s) (selected (cl s a)) = Some (k, reps, d) \<and>
     ks s' = k \<and> selected (cl s' a) = d \<and> out (cl s' a) = out (cl s a) @ map R reps \<and> in_multi (cl s' a) = in_multi (cl s a)"
proof (induction rs arbitrary: s mp)
  case Nil
  then show ?case by (auto simp: act_refl)
next
  case (Cons q rs)
  define s1 where "s1 = (if \<not> mp \<and> \<not> ro q then execCommandPropagateMulti s a else s)"
  have 1: "act a True s s1" using Cons.prems(1)
    by (auto simp: s1_def execCommandPropagateMulti_def intro: act_weaken propagated_act act_refl)
  have eq: "ks s1 = ks s" "cl s1 = cl s" by (simp_all add: s1_def execCommandPropagateMulti_def)
  from call_queued_ok [OF act_ok [OF 1], of q a] Cons.prems(2) obtain s2 k rep d where
    2: "call_queued run s1 a q = Some s2" "act a True s1 s2"
      "(case q of CMD x \<Rightarrow> run x (ks s) (selected (cl s a)) | _ \<Rightarrow> Some (ks s, ROk, selected (cl s a))) = Some (k, rep, d)"
      "ks s2 = k" "selected (cl s2 a) = d" "out (cl s2 a) = out (cl s a) @ [R rep]" "in_multi (cl s2 a) = in_multi (cl s a)"
    unfolding eq by auto
  from Cons.IH [OF act_ok [OF 2(2)], of "mp \<or> \<not> ro q"] Cons.prems(2) obtain s3 k' reps d' where
    3: "exec_loop run ro rs s2 a (mp \<or> \<not> ro q) = Some (s3, (mp \<or> \<not> ro q) \<or> (\<exists>q \<in> set rs. \<not> ro q))" "act a True s2 s3"
      "run_seq run rs k d = Some (k', reps, d')"
      "ks s3 = k'" "selected (cl s3 a) = d'" "out (cl s3 a) = out (cl s2 a) @ map R reps" "in_multi (cl s3 a) = in_multi (cl s2 a)"
    using 2(4,5) by auto
  have "(if \<not> mp \<and> \<not> ro q then (execCommandPropagateMulti s a, True) else (s, mp)) = (s1, mp \<or> \<not> ro q)"
    by (simp add: s1_def)
  then have "exec_loop run ro (q # rs) s a mp = Some (s3, mp \<or> (\<exists>q \<in> set (q # rs). \<not> ro q))"
    using 2(1) 3(1) by simp
  moreover have "act a True s s3" using act_trans [OF act_trans [OF 1 2(2)] 3(2)] by simp
  ultimately show ?case using 2 3 by simp
qed

text \<open>EXEC of a marked transaction runs nothing; of a clean one, it runs the whole queue.\<close>

lemma exec_abort:
  assumes "msrv_ok s" "in_multi (cl s a)" "dirty_cas (cl s a) \<or> dirty_exec (cl s a)"
  shows "\<exists>s'. execCommand run ro s a = Some s' \<and> act a True s s' \<and> ks s' = ks s \<and> propagated s' = propagated s \<and>
    cl s' a = (cl s a)\<lparr>in_multi := False, dirty_cas := False, dirty_exec := False, mstate := [], watched_keys := [],
      out := out (cl s a) @ [if dirty_exec (cl s a)
        then R (RErr ''EXECABORT Transaction discarded because of previous errors.'') else NullMulti]\<rparr>"
proof -
  let ?r = "if dirty_exec (cl s a) then R (RErr ''EXECABORT Transaction discarded because of previous errors.'') else NullMulti"
  have 1: "act a False s (addReply s a ?r)" using assms(1) by (rule addReply_act)
  from discardTransaction_act [OF act_ok [OF 1], of a] obtain s' where
    s': "discardTransaction (addReply s a ?r) a = Some s'" "act a True (addReply s a ?r) s'" "ks s' = ks s" "propagated s' = propagated s"
      "cl s' a = (cl (addReply s a ?r) a)\<lparr>watched_keys := [], dirty_cas := False, dirty_exec := False, in_multi := False, mstate := []\<rparr>"
    by (auto simp: addReply_def)
  have "execCommand run ro s a = Some s'" using assms(2,3) s'(1) by (simp add: execCommand_def)
  then show ?thesis using s'(3-5) act_trans [OF 1 s'(2)] by (simp add: addReply_def)
qed

lemma exec_run:
  assumes ok: "msrv_ok s" and m: "in_multi (cl s a)" "\<not> dirty_cas (cl s a)" "\<not> dirty_exec (cl s a)"
  shows "\<exists>s' k reps d. execCommand run ro s a = Some s' \<and> act a True s s' \<and>
    run_seq run (mstate (cl s a)) (ks s) (selected (cl s a)) = Some (k, reps, d) \<and>
    ks s' = (if \<exists>q \<in> set (mstate (cl s a)). \<not> ro q then add_dirty 1 k else k) \<and>
    out (cl s' a) = out (cl s a) @ MultiLen (length (mstate (cl s a))) # map R reps \<and> selected (cl s' a) = d \<and>
    \<not> in_multi (cl s' a) \<and> mstate (cl s' a) = [] \<and> watched_keys (cl s' a) = [] \<and> \<not> dirty_cas (cl s' a)"
proof -
  let ?rs = "mstate (cl s a)" and ?mp = "\<exists>q \<in> set (mstate (cl s a)). \<not> ro q"
  from unwatchAllKeys_act [OF ok, of a] obtain s1 where s1: "unwatchAllKeys s a = Some s1" "act a True s s1"
    "cl s1 = (cl s)(a := (cl s a)\<lparr>watched_keys := []\<rparr>)" "ks s1 = ks s" by blast
  let ?s2 = "addReply s1 a (MultiLen (length ?rs))"
  have 2: "act a True s ?s2" using s1(2) by (rule act_reply)
  have c2: "cl ?s2 a = (cl s a)\<lparr>watched_keys := [], out := out (cl s a) @ [MultiLen (length ?rs)]\<rparr>" "ks ?s2 = ks s"
    using s1(3,4) by (simp_all add: addReply_def)
  have q: "\<forall>q \<in> set ?rs. q = UNWATCH \<or> (\<exists>x. q = CMD x)" using ok by (simp add: msrv_ok_def queue_ok_def)
  from exec_loop_ok [OF act_ok [OF 2] q, of ro a False] obtain s3 k reps d where
    3: "exec_loop run ro ?rs ?s2 a False = Some (s3, ?mp)" "act a True ?s2 s3"
      "run_seq run ?rs (ks s) (selected (cl s a)) = Some (k, reps, d)" "ks s3 = k" "selected (cl s3 a) = d"
      "out (cl s3 a) = out (cl ?s2 a) @ map R reps"
    by (auto simp: c2)
  have a3: "act a True s s3" using act_trans [OF 2 3(2)] by simp
  from discardTransaction_act [OF act_ok [OF a3], of a] obtain s4 where
    4: "discardTransaction s3 a = Some s4" "act a True s3 s4" "ks s4 = ks s3"
      "cl s4 a = (cl s3 a)\<lparr>watched_keys := [], dirty_cas := False, dirty_exec := False, in_multi := False, mstate := []\<rparr>" by blast
  let ?s5 = "if ?mp then s4\<lparr>ks := add_dirty 1 (ks s4)\<rparr> else s4"
  have a4: "act a True s s4" using act_trans [OF a3 4(2)] by simp
  have "act a True s (s4\<lparr>ks := add_dirty 1 (ks s4)\<rparr>)"
    using act_trans [OF a4 ks_keys_act [OF act_ok [OF a4], of "add_dirty 1 (ks s4)"]] by simp
  then have 5: "act a True s ?s5" using a4 by simp
  have "execCommand run ro s a = Some ?s5"
    using m s1(1,3) 3(1) 4(1) c2 by (simp add: execCommand_def Let_def addReply_def)
  then show ?thesis using 5 3(3-6) 4(3,4) c2 by (intro exI [of _ ?s5]) simp
qed

lemma exec_act:
  assumes "msrv_ok s"
  shows "\<exists>s'. execCommand run ro s a = Some s' \<and> act a True s s'"
proof (cases "in_multi (cl s a)")
  case False
  then show ?thesis using assms by (auto simp: execCommand_def intro: act_weaken addReply_act)
next
  case True
  then show ?thesis using exec_abort [OF assms True] exec_run [OF assms True] by metis
qed

lemma call_act:
  assumes ok: "msrv_ok s" and a: "a \<in> set (client_ids s)"
  shows "\<exists>s'. call run ro s a q = Some s' \<and> act a (q = EXEC \<or> q = DISCARD \<or> q = UNWATCH) s s'"
proof (cases q)
  case EXEC
  from exec_act [OF ok] obtain s' where s': "execCommand run ro s a = Some s'" "act a True s s'" by blast
  then have "act a True s (s'\<lparr>propagated := p\<rparr>)" for p
    using act_trans [OF s'(2) propagated_act [OF act_ok [OF s'(2)]]] by simp
  then show ?thesis using EXEC s' by (simp add: call_def)
next
  case UNWATCH
  then show ?thesis using unwatchCommand_act [OF ok, of a] by (auto simp: call_def call_queued_def)
next
  case (CMD x)
  then show ?thesis using call_queued_cmd [OF ok, of a x] by (auto simp: call_def)
qed (use assms discardCommand_act [OF ok, of a] in \<open>auto simp: call_def intro: multiCommand_act watchCommand_act\<close>)

lemma processCommand_act:
  assumes ok: "msrv_ok s" and a: "a \<in> set (client_ids s)"
  shows "\<exists>s'. processCommand run ro ck s a q = Some s' \<and> act a (q = EXEC \<or> q = DISCARD \<or> q = UNWATCH) s s'"
proof -
  have rej: "act a r s (addReply (flagTransaction s a) a m)" "act a r s (addReply s a m)" for r m
    using ok by (auto intro: act_weaken act_reply flagTransaction_act act_refl)
  have "act a r s (addReply (queueMultiCommand s a q) a m)"
    if "q \<noteq> EXEC" "q \<noteq> DISCARD" "q \<noteq> MULTI" "\<not> is_WATCH q" for r m
    using that ok by (cases q) (auto intro!: act_weaken [OF act_reply] queueMultiCommand_act)
  then show ?thesis using call_act [OF assms] rej unfolding processCommand_def Let_def
    by (auto split: if_splits)
qed

lemma do_event_ok:
  assumes "msrv_ok s"
  shows "\<exists>s'. do_event run ro e s = Some s' \<and> msrv_ok s' \<and> client_ids s' = client_ids s \<and> (\<forall>c. \<not> releases c e \<longrightarrow> guards c s s')"
proof (cases e)
  case (Tick t)
  have "act c False s (s\<lparr>ks := (ks s)\<lparr>mstime := max t (mstime (ks s))\<rparr>\<rparr>)" for c
    using assms by (intro ks_keys_act) simp_all
  then show ?thesis using Tick by (auto simp: act_def)
next
  case (Request a ck q)
  show ?thesis
  proof (cases "a \<in> set (client_ids s)")
    case False
    then show ?thesis using Request assms by (simp add: guards_def)
  next
    case True
    from processCommand_act [OF assms True] obtain s' where
      "processCommand run ro ck s a q = Some s'" "act a (q = EXEC \<or> q = DISCARD \<or> q = UNWATCH) s s'" by blast
    then show ?thesis using Request True unfolding act_def calm_def
      by (intro exI [of _ s']) (metis do_event.simps(1) releases.simps(1))
  qed
qed

lemma do_events_ok:
  "msrv_ok s \<Longrightarrow> \<exists>s'. do_events run ro es s = Some s' \<and> msrv_ok s' \<and> client_ids s' = client_ids s \<and>
     (\<forall>c. (\<forall>e \<in> set es. \<not> releases c e) \<longrightarrow> guards c s s')"
proof (induction es arbitrary: s)
  case Nil
  then show ?case by (simp add: guards_def)
next
  case (Cons e es)
  from do_event_ok [OF Cons.prems, of ro e] obtain s1 where
    1: "do_event run ro e s = Some s1" "msrv_ok s1" "client_ids s1 = client_ids s" "\<forall>c. \<not> releases c e \<longrightarrow> guards c s s1" by blast
  from Cons.IH [OF 1(2)] obtain s2 where
    2: "do_events run ro es s1 = Some s2" "msrv_ok s2" "client_ids s2 = client_ids s1"
      "\<forall>c. (\<forall>e \<in> set es. \<not> releases c e) \<longrightarrow> guards c s1 s2" by blast
  have "\<forall>c. (\<forall>e \<in> set (e # es). \<not> releases c e) \<longrightarrow> guards c s s2"
    using 1(4) 2(4) guards_trans by (metis list.set_intros(1,2))
  then show ?case using 1 2 by simp
qed

text \<open>Optimistic locking: a transaction that runs sees its watched keys as they were.\<close>

lemma cas:
  assumes ok: "msrv_ok s" and w: "(k, d) \<in> set (watched_keys (cl s c))" "expires (dbs (ks s) d) k = None"
    and es: "do_events run ro es s = Some s'" "\<forall>e \<in> set es. \<not> releases c e" and m: "in_multi (cl s' c)"
  shows "\<exists>s''. execCommand run ro s' c = Some s'' \<and>
    (ks s'' = ks s' \<and> last (out (cl s'' c)) \<in> {NullMulti, R (RErr ''EXECABORT Transaction discarded because of previous errors.'')} \<or>
     keyval (ks s') d k = keyval (ks s) d k)"
proof -
  have ok': "msrv_ok s'" and g: "guards c s s'" using do_events_ok [OF ok, of ro es] es by auto
  show ?thesis
  proof (cases "dirty_cas (cl s' c) \<or> dirty_exec (cl s' c)")
    case True
    from exec_abort [OF ok' m True, of ro] obtain s'' where "execCommand run ro s' c = Some s''" "ks s'' = ks s'"
      "last (out (cl s'' c)) = (if dirty_exec (cl s' c)
        then R (RErr ''EXECABORT Transaction discarded because of previous errors.'') else NullMulti)" by auto
    then show ?thesis by auto
  next
    case False
    then have "keyval (ks s') d k = keyval (ks s) d k" using g w unfolding guards_def by (auto simp: keyval_def)
    moreover obtain s'' where "execCommand run ro s' c = Some s''" using exec_act [OF ok'] by blast
    ultimately show ?thesis by blast
  qed
qed

end

end
