(* ===== verification/Bitops.thy ===== *)
theory Bitops
  imports T_String
begin

text \<open>
  The bit operations of \<^verbatim>\<open>debug/redis/src/bitops.c\<close>: counting the bits of a string sixteen bytes at a time, \<^verbatim>\<open>SETBIT\<close>,
  \<^verbatim>\<open>GETBIT\<close>, \<^verbatim>\<open>BITCOUNT\<close> and \<^verbatim>\<open>BITOP\<close>.
\<close>

section \<open>Counting bits\<close>

text \<open>The population count of a 32-bit word by sums of neighbouring fields.\<close>

definition swar :: "32 word \<Rightarrow> 32 word" where
  "swar aux =
     (let aux = aux - (drop_bit 1 aux AND 0x55555555);
          aux = (aux AND 0x33333333) + (drop_bit 2 aux AND 0x33333333)
      in drop_bit 24 (((aux + drop_bit 4 aux) AND 0x0F0F0F0F) * 0x01010101))"

definition le_word :: "bytes \<Rightarrow> 32 word" where
  "le_word bs = of_nat (le_nat (take 4 bs))"

definition bitsinbyte :: "nat list" where
  "bitsinbyte = [0,1,1,2,1,2,2,3,1,2,2,3,2,3,3,4,1,2,2,3,2,3,3,4,2,3,3,4,3,4,4,5,1,2,2,3,2,3,3,4,2,3,3,4,3,4,4,5,
     2,3,3,4,3,4,4,5,3,4,4,5,4,5,5,6,1,2,2,3,2,3,3,4,2,3,3,4,3,4,4,5,2,3,3,4,3,4,4,5,3,4,4,5,4,5,5,6,2,3,3,4,3,4,4,5,
     3,4,4,5,4,5,5,6,3,4,4,5,4,5,5,6,4,5,5,6,5,6,6,7,1,2,2,3,2,3,3,4,2,3,3,4,3,4,4,5,2,3,3,4,3,4,4,5,3,4,4,5,4,5,5,6,
     2,3,3,4,3,4,4,5,3,4,4,5,4,5,5,6,3,4,4,5,4,5,5,6,4,5,5,6,5,6,6,7,2,3,3,4,3,4,4,5,3,4,4,5,4,5,5,6,3,4,4,5,4,5,5,6,
     4,5,5,6,5,6,6,7,3,4,4,5,4,5,5,6,4,5,5,6,5,6,6,7,4,5,5,6,5,6,6,7,5,6,6,7,6,7,7,8]"

fun count_tail :: "nat \<Rightarrow> bytes \<Rightarrow> nat" where
  "count_tail bits [] = bits"
| "count_tail bits (b # p) = count_tail (bits + bitsinbyte ! unat b) p"

fun popcount :: "nat \<Rightarrow> bytes \<Rightarrow> nat" where
  "popcount bits s =
     (if length s \<ge> 16 then
        popcount (bits + unat (swar (le_word s)) + unat (swar (le_word (drop 4 s))) + unat (swar (le_word (drop 8 s))) +
          unat (swar (le_word (drop 12 s)))) (drop 16 s)
      else count_tail bits s)"

declare popcount.simps [simp del]

text \<open>The number of set bits, one by one.\<close>

definition bits_of :: "byte \<Rightarrow> nat" where
  "bits_of b = length (filter (bit b) [0..<8])"

definition bit_count :: "bytes \<Rightarrow> nat" where
  "bit_count s = sum_list (map bits_of s)"

subsection \<open>Fields of a word\<close>

text \<open>A number as the list of its digits in base \<open>2 ^ k\<close>, the least first.\<close>

fun fval :: "nat \<Rightarrow> int list \<Rightarrow> int" where
  "fval k [] = 0"
| "fval k (d # ds) = d + 2 ^ k * fval k ds"

fun evens :: "'a list \<Rightarrow> 'a list" where
  "evens (x # y # zs) = x # evens zs"
| "evens zs = zs"

definition digits :: "nat \<Rightarrow> int list \<Rightarrow> bool" where
  "digits k ds \<longleftrightarrow> (\<forall>d \<in> set ds. 0 \<le> d \<and> d < 2 ^ k)"

lemma digits_simps [simp]: "digits k []" "digits k (d # ds) \<longleftrightarrow> 0 \<le> d \<and> d < 2 ^ k \<and> digits k ds"
  by (auto simp: digits_def)

lemma and_field:
  fixes a b x y :: int
  assumes "0 \<le> a" "a < 2 ^ k" "0 \<le> b" "b < 2 ^ k"
  shows "(a + 2 ^ k * x) AND (b + 2 ^ k * y) = (a AND b) + 2 ^ k * (x AND y)"
proof -
  have c: "concat_bit k u v = u + 2 ^ k * v" if "0 \<le> u" "u < 2 ^ k" for u v :: int
    using that by (simp add: concat_bit_eq take_bit_int_eq_self push_bit_eq_mult mult.commute)
  have "0 \<le> a AND b" "a AND b < 2 ^ k" using assms by (auto intro: le_less_trans [OF AND_upper1])
  then show ?thesis unfolding c [OF assms(1,2), symmetric] c [OF assms(3,4), symmetric] c [OF \<open>0 \<le> a AND b\<close> \<open>a AND b < 2 ^ k\<close>, symmetric]
    by (intro bit_eqI) (auto simp: bit_and_iff bit_concat_bit_iff)
qed

lemma pow_twice: "(2 :: int) ^ (2 * k) = 2 ^ k * 2 ^ k" "(2 :: int) ^ (k * 2) = 2 ^ k * 2 ^ k"
  by (simp_all add: power_mult power2_eq_square mult.commute power_mult_distrib [symmetric])

lemma and_even_fields:
  "digits k ds \<Longrightarrow> even (length ds) \<Longrightarrow> fval k ds AND fval (2 * k) (replicate (length ds div 2) (2 ^ k - 1)) = fval (2 * k) (evens ds)"
proof (induction ds rule: evens.induct)
  case (1 x y zs)
  have "x + 2 ^ k * y < 2 ^ k * 2 ^ k"
  proof -
    have "2 ^ k * y \<le> 2 ^ k * (2 ^ k - 1)" using 1(2) by (intro mult_left_mono) auto
    then show ?thesis using 1(2) by (simp add: algebra_simps)
  qed
  then have xy: "0 \<le> x + 2 ^ k * y" "x + 2 ^ k * y < 2 ^ (2 * k)" using 1(2) by (auto simp: mult_2 power_add)
  have "(x + 2 ^ k * y) AND (2 ^ k - 1 + 2 ^ k * 0) = (x AND (2 ^ k - 1)) + 2 ^ k * (y AND 0)"
    by (rule and_field) (use 1(2) in auto)
  then have a: "(x + 2 ^ k * y) AND (2 ^ k - 1) = x" using 1(2) by (simp add: take_bit_int_eq_self take_bit_eq_mask [symmetric] mask_eq_exp_minus_1 [symmetric])
  have "(2 ^ k - 1 :: int) < 2 ^ (2 * k)" by (simp add: mult_2 power_add) (smt (verit) mult_le_cancel_left1 one_le_power)
  moreover have "fval k (x # y # zs) = (x + 2 ^ k * y) + 2 ^ (2 * k) * fval k zs" by (simp add: algebra_simps pow_twice)
  ultimately show ?case using a 1 and_field [OF xy, of "2 ^ k - 1" "fval k zs" "fval (2 * k) (replicate (length zs div 2) (2 ^ k - 1))"]
    by (simp del: fval.simps(2) add: fval.simps(2) [of "2 * k"])
qed auto

lemma val_div: "digits k (d # ds) \<Longrightarrow> fval k (d # ds) div 2 ^ k = fval k ds"
  by simp


lemma val_add: "length as = length bs \<Longrightarrow> fval k as + fval k bs = fval k (map2 (+) as bs)"
proof (induction as bs rule: list_induct2)
  case (Cons x xs y ys)
  have "fval k (map2 (+) (x # xs) (y # ys)) = x + y + 2 ^ k * (fval k xs + fval k ys)" by (simp add: Cons.IH)
  then show ?case by (simp add: algebra_simps)
qed simp

lemma val_bound: "digits k ds \<Longrightarrow> 0 \<le> fval k ds \<and> fval k ds < 2 ^ (k * length ds)"
proof (induction ds)
  case (Cons d ds)
  then have "2 ^ k * fval k ds \<le> 2 ^ k * (2 ^ (k * length ds) - 1)" by (intro mult_left_mono) auto
  then show ?case using Cons by (simp add: power_add algebra_simps)
qed simp

text \<open>Neighbouring fields of half the size.\<close>

lemma val_pairs: "even (length ds) \<Longrightarrow> fval k ds = fval (2 * k) (map2 (\<lambda>a b. a + 2 ^ k * b) (evens ds) (evens (tl ds)))"
proof (induction ds rule: evens.induct)
  case (1 x y zs)
  then show ?case by (cases zs) (auto simp: algebra_simps pow_twice)
qed auto

definition bools :: "32 word \<Rightarrow> int list" where
  "bools w = map (\<lambda>i. of_bool (bit w i)) [0..<32]"

lemma take32 [simp]: "take_bit 32 (uint (w :: 32 word)) = uint w"
  by (rule take_bit_int_eq_self) (use uint_lt2p [of w] in simp_all)

lemma val_bools: "uint w = fval 1 (bools w)"
proof -
  have "fval 1 (map of_bool bs) = horner_sum of_bool 2 bs" for bs by (induction bs) auto
  from this [of "map (bit (uint w)) [0..<32]"] have "fval 1 (map (\<lambda>i. of_bool (bit (uint w) i)) [0..<32]) = take_bit 32 (uint w)"
    by (simp only: horner_sum_bit_eq_take_bit) (simp only: map_map comp_def)
  moreover have "map (\<lambda>i. of_bool (bit (uint w) i)) [0..<32] = bools w" by (auto simp: bools_def bit_uint_iff)
  ultimately show ?thesis by simp
qed


definition pairsum :: "int list \<Rightarrow> int list" where
  "pairsum ds = map2 (+) (evens ds) (evens (tl ds))"

lemma evens_len: "even (length ds) \<Longrightarrow> length (evens ds) = length ds div 2 \<and> length (evens (tl ds)) = length ds div 2"
proof (induction ds rule: evens.induct)
  case (1 x y zs)
  then show ?case by (cases zs) auto
qed auto

lemma pairsum_len: "even (length ds) \<Longrightarrow> length (pairsum ds) = length ds div 2"
  by (simp add: pairsum_def evens_len)

lemma pairsum_Cons: "pairsum (x # y # zs) = (x + y) # pairsum zs"
  by (cases zs) (auto simp: pairsum_def)

lemma pairsum_sum: "even (length ds) \<Longrightarrow> sum_list (pairsum ds) = sum_list ds"
proof (induction ds rule: evens.induct)
  case (1 x y zs)
  then show ?case by (simp add: pairsum_Cons)
qed (auto simp: pairsum_def)

definition bnd :: "int \<Rightarrow> int list \<Rightarrow> bool" where
  "bnd m ds \<longleftrightarrow> (\<forall>d \<in> set ds. 0 \<le> d \<and> d \<le> m)"

lemma pairsum_bnd: "even (length ds) \<Longrightarrow> bnd m ds \<Longrightarrow> bnd (2 * m) (pairsum ds)"
proof (induction ds rule: evens.induct)
  case (1 x y zs)
  then show ?case by (auto simp: pairsum_Cons bnd_def)
qed (auto simp: pairsum_def bnd_def)

lemma bnd_digits: "bnd m ds \<Longrightarrow> m < 2 ^ k \<Longrightarrow> digits k ds"
  by (auto simp: bnd_def digits_def)

lemma val_snoc0: "fval k (ds @ [0]) = fval k ds"
  by (induction ds) auto

lemma evens_snoc: "odd (length ds) \<Longrightarrow> evens (ds @ [x]) = evens ds"
  by (induction ds rule: evens.induct) auto

lemma val_shift: "digits k ds \<Longrightarrow> fval k ds div 2 ^ k = fval k (tl ds @ [0])"
  by (cases ds) (simp_all add: val_snoc0)

abbreviation low_mask :: "nat \<Rightarrow> int list \<Rightarrow> int" where
  "low_mask k ds \<equiv> fval (2 * k) (replicate (length ds div 2) (2 ^ k - 1))"

lemma and_odd_fields:
  assumes "digits k ds" "even (length ds)" "ds \<noteq> []"
  shows "(fval k ds div 2 ^ k) AND low_mask k ds = fval (2 * k) (evens (tl ds))"
proof -
  have "digits k (tl ds @ [0])" "length (tl ds @ [0]) = length ds" "odd (length (tl ds))"
    using assms by (auto simp: digits_def dest: list.set_sel(2))
  then show ?thesis using and_even_fields [of k "tl ds @ [0]"] assms(2) val_shift [OF assms(1)] by (simp add: evens_snoc)
qed

lemma val_double: "length as = length bs \<Longrightarrow> fval k (map2 (\<lambda>a b. a + 2 * b) as bs) = fval k (map2 (+) as bs) + fval k bs"
proof (induction as bs rule: list_induct2)
  case (Cons x xs y ys)
  then have "fval k (map2 (\<lambda>a b. a + 2 * b) (x # xs) (y # ys)) = x + 2 * y + 2 ^ k * (fval k (map2 (+) xs ys) + fval k ys)" by simp
  then show ?case by (simp add: algebra_simps)
qed simp

text \<open>The three kinds of rounds.\<close>

lemma round_sub:
  assumes "digits 1 ds" "even (length ds)" "ds \<noteq> []"
  shows "fval 1 ds - ((fval 1 ds div 2) AND low_mask 1 ds) = fval 2 (pairsum ds)"
proof -
  have l: "length (evens ds) = length (evens (tl ds))" using evens_len [OF assms(2)] by simp
  have "fval 1 ds = fval 2 (map2 (\<lambda>a b. a + 2 * b) (evens ds) (evens (tl ds)))" using val_pairs [OF assms(2), of 1] by (simp add: numeral_2_eq_2)
  also have "\<dots> = fval 2 (pairsum ds) + fval 2 (evens (tl ds))"
    unfolding pairsum_def by (rule val_double [OF l])
  finally show ?thesis using and_odd_fields [OF assms] by (simp add: numeral_2_eq_2)
qed


lemma round_add:
  assumes "digits k ds" "even (length ds)" "ds \<noteq> []"
  shows "(fval k ds AND low_mask k ds) + ((fval k ds div 2 ^ k) AND low_mask k ds) = fval (2 * k) (pairsum ds)"
  using and_even_fields [OF assms(1,2)] and_odd_fields [OF assms] val_add [of "evens ds" "evens (tl ds)" "2 * k"] evens_len [OF assms(2)]
  by (simp add: pairsum_def)

lemma evens_map2: "length as = length bs \<Longrightarrow> evens (map2 f as bs) = map2 f (evens as) (evens bs)"
proof (induction as arbitrary: bs rule: evens.induct [case_names two none one])
  case (two x y zs)
  then show ?case by (cases bs; cases "tl bs") auto
next
  case (one v)
  then show ?case by (cases bs) auto
qed auto

lemma bnd_map2:
  assumes "bnd m as" "bnd m bs"
  shows "bnd (2 * m) (map2 (+) as bs)"
proof -
  have "0 \<le> a + b \<and> a + b \<le> 2 * m" if "(a, b) \<in> set (zip as bs)" for a b
  proof -
    have "0 \<le> a" "a \<le> m" "0 \<le> b" "b \<le> m" using assms set_zip_leftD [OF that] set_zip_rightD [OF that] by (auto simp: bnd_def)
    then show ?thesis by simp
  qed
  then show ?thesis by (auto simp: bnd_def)
qed

lemma round_mask:
  assumes "bnd m ds" "2 * m < 2 ^ k" "even (length ds)" "ds \<noteq> []"
  shows "(fval k ds + fval k ds div 2 ^ k) AND low_mask k ds = fval (2 * k) (pairsum ds) \<and>
    fval k ds + fval k ds div 2 ^ k < 2 ^ (k * length ds)"
proof -
  let ?e = "map2 (+) ds (tl ds @ [0])"
  have l: "length ds = length (tl ds @ [0])" "odd (length (tl ds))" using assms(3,4) by simp_all
  have le: "length ?e = length ds" using l(1) by (metis length_map length_zip min.idem)
  have m: "0 \<le> m" using assms(1,4) by (cases ds) (auto simp: bnd_def)
  have u: "bnd m (tl ds @ [0])" using assms(1,4) m by (auto simp: bnd_def dest: list.set_sel(2))
  have "digits k ds" using assms(1) by (rule bnd_digits) (use assms(2) m in simp)
  then have v: "fval k ds + fval k ds div 2 ^ k = fval k ?e" using val_shift val_add [OF l(1)] by metis
  from bnd_map2 [OF assms(1) u] have "digits k ?e" by (rule bnd_digits) (use assms(2) in simp)
  note ub = val_bound [OF this, unfolded le]
  from and_even_fields [OF \<open>digits k ?e\<close>] have "fval k ?e AND low_mask k ?e = fval (2 * k) (evens ?e)" using assms(3) le by metis
  then have "fval k ?e AND low_mask k ds = fval (2 * k) (evens ?e)" unfolding le .
  moreover have "evens ?e = pairsum ds" using evens_map2 [OF l(1), of "(+)"] evens_snoc [OF l(2), of 0] by (simp add: pairsum_def)
  ultimately show ?thesis using v ub by simp
qed

subsection \<open>The count of a word\<close>

lemma word_val: "0 \<le> v \<Longrightarrow> v < 2 ^ 32 \<Longrightarrow> uint (word_of_int v :: 32 word) = v"
  by (simp add: uint_word_of_int_eq take_bit_int_eq_self)

lemma uint_ops:
  fixes a b :: "32 word"
  shows "uint (a AND b) = uint a AND uint b" "uint (drop_bit n a) = uint a div 2 ^ n"
    "uint b \<le> uint a \<Longrightarrow> uint (a - b) = uint a - uint b" "uint a + uint b < 2 ^ 32 \<Longrightarrow> uint (a + b) = uint a + uint b"
proof -
  show "uint (a AND b) = uint a AND uint b" by (rule unsigned_and_eq)
  show "uint (drop_bit n a) = uint a div 2 ^ n" by (simp only: unsigned_drop_bit_eq flip: drop_bit_eq_div) simp
  show "uint b \<le> uint a \<Longrightarrow> uint (a - b) = uint a - uint b" using uint_sub_lem [of b a] by simp
  show "uint a + uint b < 2 ^ 32 \<Longrightarrow> uint (a + b) = uint a + uint b" using uint_add_lem [of a b] by simp
qed

lemma four_sums:
  fixes g0 g1 g2 g3 :: int
  assumes "bnd 8 [g0, g1, g2, g3]"
  shows "(fval 8 [g0, g1, g2, g3] * 0x01010101) mod 2 ^ 32 div 2 ^ 24 = g0 + g1 + g2 + g3"
proof -
  let ?lo = "g0 + 256 * (g0 + g1) + 65536 * (g0 + g1 + g2) + 16777216 * (g0 + g1 + g2 + g3)"
  have "fval 8 [g0, g1, g2, g3] * 0x01010101 = ?lo + 2 ^ 32 * (g1 + g2 + g3 + 256 * (g2 + g3) + 65536 * g3)" by simp
  moreover have "0 \<le> ?lo" "?lo < 2 ^ 32" using assms by (auto simp: bnd_def)
  ultimately have "(fval 8 [g0, g1, g2, g3] * 0x01010101) mod 2 ^ 32 = ?lo" by (simp only: mod_mult_self2 mod_pos_pos_trivial)
  moreover have "?lo div 2 ^ 24 = g0 + g1 + g2 + g3" using assms by (auto simp: bnd_def)
  ultimately show ?thesis by simp
qed

lemma masks: "fval 2 (replicate 16 1) = 0x55555555" "fval 4 (replicate 8 3) = 0x33333333" "fval 8 (replicate 4 15) = 0x0F0F0F0F"
  by (code_simp, code_simp, code_simp)

lemma sum_of_bool: "sum_list (map (\<lambda>i. of_bool (P i)) xs) = int (length (filter P xs))"
  by (induction xs) auto

lemma swar_count: "unat (swar w) = length (filter (bit w) [0..<32])"
proof -
  let ?ds = "bools w"
  have d: "bnd 1 ?ds" "length ?ds = 32" by (auto simp: bools_def bnd_def)
  have ne: "even (length ?ds)" "?ds \<noteq> []" using d(2) by auto
  define s1 where "s1 = pairsum ?ds"
  define s2 where "s2 = pairsum s1"
  define s3 where "s3 = pairsum s2"
  have l: "length s1 = 16" "length s2 = 8" "length s3 = 4" using d(2) by (simp_all add: s1_def s2_def s3_def pairsum_len)
  have u: "bnd 2 s1" using pairsum_bnd [OF ne(1) d(1)] by (simp add: s1_def)
  have u2: "bnd 4 s2" using pairsum_bnd [OF _ u] l by (simp add: s2_def)
  have u3: "bnd 8 s3" using pairsum_bnd [OF _ u2] l by (simp add: s3_def)
  have ne1: "even (length s1)" "s1 \<noteq> []" "even (length s2)" "s2 \<noteq> []" using l by auto
  have dg: "digits 1 ?ds" "digits 2 s1" "digits 4 s2" "digits 8 s3"
    by (rule bnd_digits [OF d(1)], simp) (rule bnd_digits [OF u], simp, rule bnd_digits [OF u2], simp, rule bnd_digits [OF u3], simp)
  have m: "low_mask 1 ?ds = 0x55555555" "low_mask 2 s1 = 0x33333333" "low_mask 4 s2 = 0x0F0F0F0F"
    using d(2) l masks by simp_all
  define a1 where "a1 = w - (drop_bit 1 w AND 0x55555555)"
  have y: "uint (drop_bit 1 w AND 0x55555555) = (fval 1 ?ds div 2) AND low_mask 1 ?ds"
    unfolding m val_bools [of w, symmetric] by (simp add: uint_ops)
  note r1 = round_sub [OF dg(1) ne, folded y val_bools s1_def]
  have "uint (drop_bit 1 w AND 0x55555555) \<le> uint w" using r1 val_bound [OF dg(2)] by simp
  from uint_ops(3) [OF this] r1 have a1: "uint a1 = fval 2 s1" unfolding a1_def by simp
  define a2 where "a2 = (a1 AND 0x33333333) + (drop_bit 2 a1 AND 0x33333333)"
  have "uint (a1 AND 0x33333333) = fval 2 s1 AND low_mask 2 s1" "uint (drop_bit 2 a1 AND 0x33333333) = (fval 2 s1 div 2 ^ 2) AND low_mask 2 s1"
    unfolding m by (simp_all add: uint_ops a1)
  then have a2: "uint a2 = fval 4 s2" using round_add [OF dg(2) ne1(1,2)] val_bound [OF dg(3)] l by (simp add: a2_def uint_ops(4) s2_def)
  define a3 where "a3 = (a2 + drop_bit 4 a2) AND 0x0F0F0F0F"
  note r3 = round_mask [OF u2 _ ne1(3,4), of 4, unfolded m, folded s3_def]
  have "uint a2 + uint (drop_bit 4 a2) < 2 ^ 32" using r3 l by (simp add: uint_ops(2) a2)
  from uint_ops(4) [OF this] have a3: "uint a3 = fval 8 s3" using r3 by (simp add: a3_def uint_ops(1,2) a2)
  obtain g0 g1 g2 g3 where g: "s3 = [g0, g1, g2, g3]" using l(3) by (auto simp: length_Suc_conv numeral_eq_Suc)
  have "uint (swar w) = (fval 8 s3 * 0x01010101) mod 2 ^ 32 div 2 ^ 24"
    unfolding swar_def Let_def a1_def [symmetric] a2_def [symmetric] a3_def [symmetric] uint_ops(2) a3 [symmetric] by (simp add: uint_word_ariths)
  also have "\<dots> = sum_list s3" using four_sums [of g0 g1 g2 g3] u3 by (simp only: g) simp
  also have "\<dots> = sum_list ?ds" using pairsum_sum ne(1) ne1 by (simp add: s1_def s2_def s3_def)
  also have "\<dots> = int (length (filter (bit w) [0..<32]))" unfolding bools_def by (rule sum_of_bool)
  finally show ?thesis by (metis int_nat_eq nat_int unat_eq_nat_uint)
qed


subsection \<open>The count of a string\<close>

lemma bit_cons: "bit (unat (b :: byte) + 256 * n) i = (if i < 8 then bit b i else bit (n :: nat) (i - 8))"
proof -
  have "int (unat b) < 256" using unat_byte_less [of b] by linarith
  then have "concat_bit 8 (int (unat b)) (int n) = int (unat b + 256 * n)"
    by (simp add: concat_bit_eq take_bit_int_eq_self push_bit_eq_mult)
  then have "bit (unat b + 256 * n) i = bit (concat_bit 8 (int (unat b)) (int n)) i" by (metis bit_of_nat_iff_bit)
  also have "\<dots> = (if i < 8 then bit (unat b) i else bit n (i - 8))" by (auto simp: bit_concat_bit_iff bit_of_nat_iff_bit bit_unsigned_iff bit_uint_iff)
  finally show ?thesis by (simp add: bit_unsigned_iff)
qed

lemma bits_le_nat: "length (filter (bit (le_nat bs)) [0..<8 * length bs]) = bit_count bs"
proof (induction bs)
  case (Cons b bs)
  have u: "[0..<8 * length (b # bs)] = [0..<8] @ map (\<lambda>i. i + 8) [0..<8 * length bs]"
    by (simp add: map_add_upt) (metis add.commute le_add1 upt_add_eq_append zero_le)
  have "filter (bit (le_nat (b # bs))) [0..<8] = filter (bit b) [0..<8]" by (rule filter_cong) (simp_all add: bit_cons)
  moreover have "length (filter (bit (le_nat (b # bs))) (map (\<lambda>i. i + 8) [0..<8 * length bs])) = bit_count bs"
    using Cons.IH by (simp add: filter_map comp_def bit_cons)
  ultimately show ?case unfolding u by (simp add: bits_of_def bit_count_def)
qed (simp add: bit_count_def)

lemma swar_bytes: "4 \<le> length s \<Longrightarrow> unat (swar (le_word s)) = bit_count (take 4 s)"
proof -
  assume l: "4 \<le> length s"
  have "filter (bit (le_word s)) [0..<32] = filter (bit (le_nat (take 4 s))) [0..<32]"
    by (rule filter_cong) (simp_all add: le_word_def bit_of_nat_iff)
  then show ?thesis using bits_le_nat [of "take 4 s"] l by (simp add: swar_count)
qed

lemma table_all: "map (\<lambda>n :: int. length (filter (bit n) [0..<8])) [0..255] = bitsinbyte"
  by code_simp

lemma bitsinbyte_nth: "bitsinbyte ! unat b = bits_of b"
proof -
  have "unat b < 256" by (rule unat_byte_less)
  then have "0 + int (unat b) \<le> 255" "unat b < length [0..255]" by (linarith, simp)
  with nth_upto [OF this(1)] have "bitsinbyte ! unat b = length (filter (bit (int (unat b))) [0..<8])"
    unfolding table_all [symmetric] by (simp only: nth_map add_0)
  also have "\<dots> = bits_of b" unfolding bits_of_def
    by (intro arg_cong [where f = length] filter_cong refl) (auto simp: bit_unsigned_iff bit_uint_iff)
  finally show ?thesis .
qed

lemma count_tail_ok: "count_tail n s = n + bit_count s"
  by (induction n s rule: count_tail.induct) (simp_all add: bitsinbyte_nth bit_count_def)

lemma bit_count_append: "bit_count (xs @ ys) = bit_count xs + bit_count ys"
  by (simp add: bit_count_def)

lemma popcount_ok: "popcount n s = n + bit_count s"
proof (induction n s rule: popcount.induct)
  case (1 n s)
  show ?case
  proof (cases "length s \<ge> 16")
    case True
    have "bit_count (drop n s) = bit_count (take 4 (drop n s)) + bit_count (drop (n + 4) s)" for n
      by (metis add.commute append_take_drop_id drop_drop bit_count_append)
    from this [of 0] this [of 4] this [of 8] this [of 12] have "bit_count s = bit_count (take 4 s) + bit_count (take 4 (drop 4 s)) + bit_count (take 4 (drop 8 s)) +
        bit_count (take 4 (drop 12 s)) + bit_count (drop 16 s)" by simp
    then show ?thesis using True 1 by (subst popcount.simps) (simp add: swar_bytes)
  next
    case False
    then show ?thesis by (subst popcount.simps) (simp add: count_tail_ok)
  qed
qed


section \<open>Single bits\<close>

definition bad_bit_offset :: reply where
  "bad_bit_offset = RErr ''ERR bit offset is not an integer or out of range''"

definition bad_bit :: reply where
  "bad_bit = RErr ''ERR bit is not an integer or out of range''"

text \<open>\<open>Some None\<close> is the error that was replied.\<close>

definition getBitOffsetFromArgument :: "bytes \<Rightarrow> nat option option" where
  "getBitOffsetFromArgument arg =
     (case getLongLongFromObject (Some (RawStr arg :: unit robj)) of
        None \<Rightarrow> None
      | Some None \<Rightarrow> Some None
      | Some (Some loffset) \<Rightarrow> if loffset < 0 \<or> nat loffset div 8 \<ge> 512 * 1024 * 1024 then Some None else Some (Some (nat loffset)))"

definition bit_pos :: "nat \<Rightarrow> nat" where
  "bit_pos off = 7 - off mod 8"

definition put_bit :: "bytes \<Rightarrow> nat \<Rightarrow> int \<Rightarrow> bytes \<times> bool" where
  "put_bit t bitoffset on =
     (let byte = bitoffset div 8;
          t = t @ replicate (byte + 1 - length t) 0;
          byteval = t ! byte;
          bit = bit_pos bitoffset;
          bitval = byteval AND push_bit bit 1;
          byteval = byteval AND NOT (push_bit bit 1);
          byteval = byteval OR push_bit bit (word_of_int on AND 1)
      in (t[byte := byteval], bitval \<noteq> 0))"

definition bool_reply :: "bool \<Rightarrow> reply" where
  "bool_reply b = (if b then RInt 1 else RInt 0)"

definition setbitCommand :: "bytes \<Rightarrow> bytes \<Rightarrow> bytes \<Rightarrow> 'o command" where
  "setbitCommand key arg val s i =
     do { r \<leftarrow> getBitOffsetFromArgument arg;
          case r of
            None \<Rightarrow> Some (s, bad_bit_offset)
          | Some bitoffset \<Rightarrow>
              do { r \<leftarrow> getLongFromObject (Some (RawStr val :: unit robj));
                   case r of
                     None \<Rightarrow> Some (s, bad_bit)
                   | Some on \<Rightarrow>
                       if on \<noteq> 0 \<and> on \<noteq> 1 then Some (s, bad_bit)
                       else
                         do { (v, s) \<leftarrow> lookupKeyWrite s i key;
                              case v of
                                None \<Rightarrow>
                                  (case put_bit [] bitoffset on of (t, old) \<Rightarrow>
                                     do { s \<leftarrow> dbAdd s i key (RawStr t);
                                          Some (add_dirty 1 (signalModifiedKey s i key), bool_reply old) })
                              | Some o' \<Rightarrow>
                                  if \<not> is_string o' then Some (s, wrongtype)
                                  else
                                    do { d \<leftarrow> getDecodedObject o';
                                         (case put_bit (str_of d) bitoffset on of (t, old) \<Rightarrow>
                                            do { s \<leftarrow> dbOverwrite s i key (RawStr t);
                                                 Some (add_dirty 1 (signalModifiedKey s i key), bool_reply old) }) } } } }"

definition test_bit :: "bytes \<Rightarrow> nat \<Rightarrow> bool" where
  "test_bit t bitoffset = (bitoffset div 8 < length t \<and> (t ! (bitoffset div 8)) AND push_bit (bit_pos bitoffset) 1 \<noteq> 0)"

definition getbitCommand :: "bytes \<Rightarrow> bytes \<Rightarrow> 'o command" where
  "getbitCommand key arg s i =
     do { r \<leftarrow> getBitOffsetFromArgument arg;
          case r of
            None \<Rightarrow> Some (s, bad_bit_offset)
          | Some bitoffset \<Rightarrow>
              do { (v, s) \<leftarrow> lookupKeyRead s i key;
                   case v of
                     None \<Rightarrow> Some (s, RInt 0)
                   | Some o' \<Rightarrow>
                       (case o' of
                          Other _ _ \<Rightarrow> Some (s, wrongtype)
                        | IntStr n \<Rightarrow>
                            (case ll2string 32 n of (llbuf, len) \<Rightarrow> Some (s, bool_reply (test_bit (take len llbuf) bitoffset)))
                        | RawStr t \<Rightarrow> Some (s, bool_reply (test_bit t bitoffset))) } }"

section \<open>Counting and combining strings\<close>

text \<open>The bounds after the conversion of negative indices.\<close>

definition bit_range :: "int \<Rightarrow> int \<Rightarrow> int \<Rightarrow> int \<times> int" where
  "bit_range len start fin =
     (let start = (if start < 0 then len + start else start);
          fin = (if fin < 0 then len + fin else fin);
          start = (if start < 0 then 0 else start);
          fin = (if fin < 0 then 0 else fin);
          fin = (if fin \<ge> len then len - 1 else fin)
      in (start, fin))"

definition count_reply :: "bytes \<Rightarrow> int \<Rightarrow> int \<Rightarrow> reply" where
  "count_reply p start fin =
     (if start > fin then RInt 0 else RInt (int (popcount 0 (mem_read p (nat start) (nat (fin - start + 1))))))"

definition bitcountCommand :: "bytes \<Rightarrow> bytes list \<Rightarrow> 'o command" where
  "bitcountCommand key args s i =
     do { (v, s) \<leftarrow> lookupKeyRead s i key;
          case v of
            None \<Rightarrow> Some (s, RInt 0)
          | Some o' \<Rightarrow>
              if \<not> is_string o' then Some (s, wrongtype)
              else
                do { p \<leftarrow> (case o' of IntStr n \<Rightarrow> (case ll2string 32 n of (llbuf, len) \<Rightarrow> Some (take len llbuf)) | RawStr t \<Rightarrow> Some t | Other _ _ \<Rightarrow> None);
                     let len = int (length p);
                     case args of
                       [a, b] \<Rightarrow>
                         do { r1 \<leftarrow> getLongFromObject (Some (RawStr a :: unit robj));
                              case r1 of
                                None \<Rightarrow> Some (s, not_integer)
                              | Some start \<Rightarrow>
                                  do { r2 \<leftarrow> getLongFromObject (Some (RawStr b :: unit robj));
                                       case r2 of
                                         None \<Rightarrow> Some (s, not_integer)
                                       | Some fin \<Rightarrow> (case bit_range len start fin of (start, fin) \<Rightarrow> Some (s, count_reply p start fin)) } }
                     | [] \<Rightarrow> Some (s, count_reply p 0 (len - 1))
                     | _ \<Rightarrow> Some (s, RErr ''ERR syntax error'') } }"

datatype bitop = BITOP_AND | BITOP_OR | BITOP_XOR | BITOP_NOT

text \<open>The operations on eight bytes at a time, as 64-bit words of a little-endian machine.\<close>

fun op64 :: "bitop \<Rightarrow> 64 word \<Rightarrow> 64 word \<Rightarrow> 64 word" where
  "op64 BITOP_AND a b = a AND b"
| "op64 BITOP_OR a b = a OR b"
| "op64 BITOP_XOR a b = a XOR b"
| "op64 BITOP_NOT a b = a"

definition long_at :: "bytes \<Rightarrow> nat \<Rightarrow> 64 word" where
  "long_at s k = of_nat (le_nat (mem_read s (8 * k) 8))"

definition op_longs :: "bitop \<Rightarrow> bytes \<Rightarrow> bytes \<Rightarrow> bytes" where
  "op_longs op r s = concat (map (\<lambda>k. le_bytes 8 (unat (op64 op (long_at r k) (long_at s k)))) [0..<4])"

definition not_longs :: "bytes \<Rightarrow> bytes" where
  "not_longs r = concat (map (\<lambda>k. le_bytes 8 (unat (NOT (long_at r k)))) [0..<4])"

function fast_path :: "bitop \<Rightarrow> bytes list \<Rightarrow> nat \<Rightarrow> nat \<Rightarrow> bytes \<Rightarrow> nat \<times> bytes" where
  "fast_path op src minlen j res =
     (if minlen \<ge> 32 then
        let lres = mem_read res j 32;
            lres = (if op = BITOP_NOT then not_longs lres else foldl (\<lambda>r s. op_longs op r (mem_read s j 32)) lres (tl src))
        in fast_path op src (minlen - 32) (j + 32) (mem_write res j lres)
      else (j, res))"
  by auto
termination by (relation "measure (\<lambda>(op, src, minlen, j, res). minlen)") auto

declare fast_path.simps [simp del]

fun op8 :: "bitop \<Rightarrow> byte \<Rightarrow> byte \<Rightarrow> byte" where
  "op8 BITOP_AND a b = a AND b"
| "op8 BITOP_OR a b = a OR b"
| "op8 BITOP_XOR a b = a XOR b"
| "op8 BITOP_NOT a b = a"

definition byte_at :: "nat \<Rightarrow> bytes \<Rightarrow> byte" where
  "byte_at j s = (if length s \<le> j then 0 else s ! j)"

definition output_byte :: "bitop \<Rightarrow> bytes list \<Rightarrow> nat \<Rightarrow> byte" where
  "output_byte op src j =
     (let out = byte_at j (hd src); out = (if op = BITOP_NOT then NOT out else out)
      in foldl (\<lambda>out s. op8 op out (byte_at j s)) out (tl src))"

fun slow_path :: "bitop \<Rightarrow> bytes list \<Rightarrow> nat \<Rightarrow> nat \<Rightarrow> bytes \<Rightarrow> bytes" where
  "slow_path op src 0 j res = res"
| "slow_path op src (Suc n) j res = slow_path op src n (Suc j) (res[j := output_byte op src j])"

definition bitop_result :: "bitop \<Rightarrow> bytes list \<Rightarrow> nat \<Rightarrow> nat \<Rightarrow> bytes" where
  "bitop_result op src maxlen minlen =
     (let res = replicate maxlen 0;
          (j, res) = (if minlen \<noteq> 0 \<and> length src \<le> 16
                      then fast_path op src minlen 0 (mem_write res 0 (take minlen (hd src))) else (0, res))
      in slow_path op src (maxlen - j) j res)"

text \<open>The source strings, in order, with the longest and the shortest length as the loop computes them.\<close>

fun bitop_sources ::
    "bytes list \<Rightarrow> nat \<Rightarrow> 'o server \<Rightarrow> nat \<Rightarrow> bytes list \<Rightarrow> nat \<Rightarrow> nat \<Rightarrow> ('o server \<times> (bytes list \<times> nat \<times> nat) option) option" where
  "bitop_sources [] j s i src maxlen minlen = Some (s, Some (src, maxlen, minlen))"
| "bitop_sources (key # keys) j s i src maxlen minlen =
     do { (v, s) \<leftarrow> lookupKeyRead s i key;
          case v of
            None \<Rightarrow> bitop_sources keys (Suc j) s i (src @ [[]]) maxlen 0
          | Some o' \<Rightarrow>
              if \<not> is_string o' then Some (s, None)
              else
                do { d \<leftarrow> getDecodedObject o';
                     let len = length (str_of d);
                     bitop_sources keys (Suc j) s i (src @ [str_of d]) (max len maxlen) (if j = 0 \<or> len < minlen then len else minlen) } }"

definition bitop_name :: "bytes \<Rightarrow> bitop option" where
  "bitop_name name =
     (let n = map (\<lambda>c. if 65 \<le> c \<and> c \<le> 90 then c + 32 else c) (cstr name) in
      if n = map of_char ''and'' then Some BITOP_AND else if n = map of_char ''or'' then Some BITOP_OR
      else if n = map of_char ''xor'' then Some BITOP_XOR else if n = map of_char ''not'' then Some BITOP_NOT else None)"

definition bitopCommand :: "bytes \<Rightarrow> bytes \<Rightarrow> bytes list \<Rightarrow> 'o command" where
  "bitopCommand opname targetkey keys s i =
     (case bitop_name opname of
        None \<Rightarrow> Some (s, RErr ''ERR syntax error'')
      | Some op \<Rightarrow>
          if op = BITOP_NOT \<and> length keys \<noteq> 1 then Some (s, RErr ''ERR BITOP NOT must be called with a single source key.'')
          else
            do { (s, r) \<leftarrow> bitop_sources keys 0 s i [] 0 0;
                 case r of
                   None \<Rightarrow> Some (s, wrongtype)
                 | Some (src, maxlen, minlen) \<Rightarrow>
                     do { s \<leftarrow> (if maxlen \<noteq> 0 then setKey s i targetkey (RawStr (bitop_result op src maxlen minlen))
                               else (case dbDelete s i targetkey of (deleted, s) \<Rightarrow> Some (if deleted then signalModifiedKey s i targetkey else s)));
                          Some (add_dirty 1 s, RInt (int maxlen)) } })"


section \<open>The fast path computes bytes\<close>

lemma le_nat_ops:
  "length a = length b \<Longrightarrow> le_nat a AND le_nat b = le_nat (map2 (AND) a b)"
  "length a = length b \<Longrightarrow> le_nat a OR le_nat b = le_nat (map2 (OR) a b)"
  "length a = length b \<Longrightarrow> le_nat a XOR le_nat b = le_nat (map2 (XOR) a b)"
proof -
  show "length a = length b \<Longrightarrow> le_nat a AND le_nat b = le_nat (map2 (AND) a b)"
  proof (induction a b rule: list_induct2)
    case (Cons x xs y ys)
    show ?case by (rule bit_eqI) (simp add: bit_and_iff bit_cons flip: Cons.IH)
  qed simp
  show "length a = length b \<Longrightarrow> le_nat a OR le_nat b = le_nat (map2 (OR) a b)"
  proof (induction a b rule: list_induct2)
    case (Cons x xs y ys)
    show ?case by (rule bit_eqI) (simp add: bit_or_iff bit_cons flip: Cons.IH)
  qed simp
  show "length a = length b \<Longrightarrow> le_nat a XOR le_nat b = le_nat (map2 (XOR) a b)"
  proof (induction a b rule: list_induct2)
    case (Cons x xs y ys)
    show ?case by (rule bit_eqI) (simp add: bit_xor_iff bit_cons flip: Cons.IH)
  qed simp
qed

lemma bit_le_nat_not: "bit (le_nat (map (NOT) a)) i \<longleftrightarrow> i < 8 * length a \<and> \<not> bit (le_nat a) i"
proof (induction a arbitrary: i)
  case (Cons b a)
  have "bit (le_nat (map (NOT) (b # a))) i = (if i < 8 then bit (NOT b) i else bit (le_nat (map (NOT) a)) (i - 8))"
    by (simp only: list.map le_nat.simps bit_cons)
  also have "\<dots> = (if i < 8 then \<not> bit b i else i - 8 < 8 * length a \<and> \<not> bit (le_nat a) (i - 8))"
    using Cons.IH by (simp add: bit_not_iff)
  finally show ?case by (auto simp: bit_cons)
qed simp

lemma unat_long: "length a = 8 \<Longrightarrow> unat (of_nat (le_nat a) :: 64 word) = le_nat a"
  using le_nat_bound [of a] by (simp add: unat_of_nat)

lemma op_long:
  assumes "length a = 8" "length b = 8"
  shows "le_bytes 8 (unat (op64 op (of_nat (le_nat a)) (of_nat (le_nat b)))) = map2 (op8 op) a b"
proof -
  have l: "length (map2 f a b) = 8" for f :: "byte \<Rightarrow> byte \<Rightarrow> byte" using assms by simp
  have "map2 (op8 BITOP_NOT) a b = a" using assms by (intro nth_equalityI) auto
  then have "unat (op64 op (of_nat (le_nat a)) (of_nat (le_nat b))) = le_nat (map2 (op8 op) a b)"
    using assms by (cases op) (simp_all add: unsigned_and_eq unsigned_or_eq unsigned_xor_eq unat_long le_nat_ops)
  then show ?thesis using le_bytes_le_nat [OF l] by simp
qed

lemma not_long:
  assumes "length a = 8"
  shows "le_bytes 8 (unat (NOT (of_nat (le_nat a) :: 64 word))) = map (NOT) a"
proof -
  have "unat (NOT (of_nat (le_nat a) :: 64 word)) = le_nat (map (NOT) a)"
    by (rule bit_eqI) (use assms in \<open>auto simp: bit_unsigned_iff bit_not_iff bit_le_nat_not bit_of_nat_iff\<close>)
  then show ?thesis using assms le_bytes_le_nat [of "map (NOT) a" 8] by simp
qed

lemma four_longs:
  assumes "length r = 32"
  shows "concat (map (\<lambda>k. mem_read r (8 * k) 8) [0..<4]) = r"
proof -
  have "drop n r = take 8 (drop n r) @ drop (n + 8) r" for n by (metis add.commute append_take_drop_id drop_drop)
  from this [of 0] this [of 8] this [of 16] this [of 24] show ?thesis using assms by (simp add: mem_read_def upt_rec)
qed

lemma op_longs_map2:
  assumes "length r = 32" "length s = 32"
  shows "op_longs op r s = map2 (op8 op) r s"
proof -
  have l: "length (mem_read r (8 * k) 8) = 8" "length (mem_read s (8 * k) 8) = 8" if "k < 4" for k
    using that assms by (simp_all add: mem_read_def)
  have "op_longs op r s = concat (map (\<lambda>k. map2 (op8 op) (mem_read r (8 * k) 8) (mem_read s (8 * k) 8)) [0..<4])"
    unfolding op_longs_def long_at_def by (intro arg_cong [where f = concat] map_cong refl op_long l) auto
  also have "\<dots> = concat (map (\<lambda>k. mem_read (map2 (op8 op) r s) (8 * k) 8) [0..<4])"
    by (simp add: mem_read_def take_map drop_map take_zip drop_zip)
  also have "\<dots> = map2 (op8 op) r s" using assms by (intro four_longs) simp
  finally show ?thesis .
qed

lemma not_longs_map:
  assumes "length r = 32"
  shows "not_longs r = map (NOT) r"
proof -
  have l: "length (mem_read r (8 * k) 8) = 8" if "k < 4" for k using that assms by (simp add: mem_read_def)
  have "not_longs r = concat (map (\<lambda>k. map (NOT) (mem_read r (8 * k) 8)) [0..<4])"
    unfolding not_longs_def long_at_def by (intro arg_cong [where f = concat] map_cong refl not_long l) auto
  also have "\<dots> = concat (map (\<lambda>k. mem_read (map (NOT) r) (8 * k) 8) [0..<4])" by (simp add: mem_read_def take_map drop_map)
  also have "\<dots> = map (NOT) r" using assms by (intro four_longs) simp
  finally show ?thesis .
qed


lemma fold_longs:
  "length r = 32 \<Longrightarrow> \<forall>s \<in> set ss. j + 32 \<le> length s \<Longrightarrow>
   foldl (\<lambda>r s. op_longs op r (mem_read s j 32)) r ss = map (\<lambda>k. foldl (\<lambda>x s. op8 op x (s ! (j + k))) (r ! k) ss) [0..<32]"
proof (induction ss arbitrary: r)
  case Nil
  then show ?case using map_nth [of r] by simp
next
  case (Cons s ss)
  have s: "length (mem_read s j 32) = 32" using Cons.prems(2) by (simp add: mem_simps)
  have "op_longs op r (mem_read s j 32) ! k = op8 op (r ! k) (s ! (j + k))" if "k < 32" for k
    using that Cons.prems s by (simp add: op_longs_map2 nth_mem_read)
  moreover have "length (op_longs op r (mem_read s j 32)) = 32" using Cons.prems(1) s by (simp add: op_longs_map2)
  ultimately show ?case using Cons.IH [of "op_longs op r (mem_read s j 32)"] Cons.prems(2) by simp
qed

lemma output_byte_long: "src \<noteq> [] \<Longrightarrow> \<forall>s \<in> set src. k < length s \<Longrightarrow> op \<noteq> BITOP_NOT \<Longrightarrow>
   output_byte op src k = foldl (\<lambda>x s. op8 op x (s ! k)) (hd src ! k) (tl src)"
  unfolding output_byte_def Let_def byte_at_def by (cases src) (auto intro!: foldl_cong)

lemma fast_path_ok:
  "src \<noteq> [] \<Longrightarrow> \<forall>s \<in> set src. j + minlen \<le> length s \<Longrightarrow> j + minlen \<le> length res \<Longrightarrow> op = BITOP_NOT \<longrightarrow> tl src = [] \<Longrightarrow>
   \<forall>k < j. res ! k = output_byte op src k \<Longrightarrow> \<forall>k. j \<le> k \<and> k < j + minlen \<longrightarrow> res ! k = hd src ! k \<Longrightarrow>
   \<exists>j' res'. fast_path op src minlen j res = (j', res') \<and> j' \<le> length res \<and> length res' = length res \<and> (\<forall>k < j'. res' ! k = output_byte op src k)"
proof (induction op src minlen j res rule: fast_path.induct)
  case (1 op src minlen j res)
  note p = 1(2-7)
  show ?case
  proof (cases "minlen \<ge> 32")
    case True
    define l where "l = (if op = BITOP_NOT then not_longs (mem_read res j 32)
      else foldl (\<lambda>r s. op_longs op r (mem_read s j 32)) (mem_read res j 32) (tl src))"
    have rl: "length (mem_read res j 32) = 32" "\<And>k. k < 32 \<Longrightarrow> mem_read res j 32 ! k = hd src ! (j + k)"
      using p(3,6) True by (simp_all add: mem_simps nth_mem_read)
    have ts: "\<forall>s \<in> set (tl src). j + 32 \<le> length s" "j + 32 \<le> length (hd src)" using p(1,2) True by (cases src; force)+
    have l: "length l = 32" "\<And>k. k < 32 \<Longrightarrow> l ! k = output_byte op src (j + k)"
    proof -
      show "length l = 32" using rl(1) fold_longs [OF rl(1) ts(1)] by (simp add: l_def not_longs_map)
      fix k :: nat
      assume k: "k < 32"
      show "l ! k = output_byte op src (j + k)"
      proof (cases "op = BITOP_NOT")
        case n: True
        then show ?thesis using k rl ts(2) p(4) by (simp add: l_def not_longs_map output_byte_def byte_at_def)
      next
        case False
        have "\<forall>s \<in> set src. j + k < length s" using p(2) True k by force
        then show ?thesis using k False rl(2) fold_longs [OF rl(1) ts(1), of op] output_byte_long [OF p(1) _ False] by (simp add: l_def)
      qed
    qed
    let ?res = "mem_write res j l"
    have le: "j + length l \<le> length res" "length ?res = length res" using l(1) p(3) True by (simp_all add: mem_simps)
    have "?res ! k = output_byte op src k" if "k < j + 32" for k
      using that p(5) l le nth_mem_write [OF le(1), of k] p(3) True by (cases "j \<le> k") (auto simp: l(2) [of "k - j", symmetric])
    moreover have "?res ! k = hd src ! k" if "j + 32 \<le> k" "k < j + 32 + (minlen - 32)" for k
      using that p(3,6) l(1) nth_mem_write [OF le(1), of k] True by simp
    ultimately have "\<exists>j' res'. fast_path op src (minlen - 32) (j + 32) ?res = (j', res') \<and> j' \<le> length ?res \<and> length res' = length ?res \<and>
        (\<forall>k < j'. res' ! k = output_byte op src k)"
      using 1(1) [OF True refl l_def p(1)] p(2,3,4) True le(2) by auto
    moreover have "fast_path op src minlen j res = fast_path op src (minlen - 32) (j + 32) ?res"
      using True by (subst fast_path.simps) (simp add: l_def Let_def)
    ultimately show ?thesis using le(2) by simp
  next
    case False
    then show ?thesis using p by (subst fast_path.simps) auto
  qed
qed

lemma slow_path_ok:
  "length res = j + n \<Longrightarrow> \<forall>k < j. res ! k = output_byte op src k \<Longrightarrow> slow_path op src n j res = map (output_byte op src) [0..<j + n]"
proof (induction n arbitrary: j res)
  case 0
  then show ?case by (auto intro: nth_equalityI)
next
  case (Suc n)
  have "\<forall>k < Suc j. res[j := output_byte op src j] ! k = output_byte op src k" using Suc.prems by (auto simp: nth_list_update)
  then have "slow_path op src n (Suc j) (res[j := output_byte op src j]) = map (output_byte op src) [0..<Suc j + n]"
    using Suc.IH [of "res[j := output_byte op src j]" "Suc j"] Suc.prems(1) by simp
  then show ?case by simp
qed

lemma bitop_result_ok:
  assumes "src \<noteq> []" "\<forall>s \<in> set src. minlen \<le> length s" "minlen \<le> maxlen" "op = BITOP_NOT \<longrightarrow> tl src = []"
  shows "bitop_result op src maxlen minlen = map (output_byte op src) [0..<maxlen]"
proof (cases "minlen \<noteq> 0 \<and> length src \<le> 16")
  case True
  let ?res = "mem_write (replicate maxlen 0) 0 (take minlen (hd src))"
  have h: "length (take minlen (hd src)) = minlen" using assms(1,2) by simp
  have "length ?res = maxlen" "\<forall>k. 0 \<le> k \<and> k < 0 + minlen \<longrightarrow> ?res ! k = hd src ! k"
    using h assms(3) by (simp_all add: mem_simps nth_mem_write)
  with fast_path_ok [OF assms(1), of 0 minlen ?res op] assms(2,3,4) obtain j res where
    f: "fast_path op src minlen 0 ?res = (j, res)" "j \<le> maxlen" "length res = maxlen" "\<forall>k < j. res ! k = output_byte op src k" by auto
  then show ?thesis using True slow_path_ok [of res j "maxlen - j" op src] by (simp add: bitop_result_def)
next
  case False
  then show ?thesis using slow_path_ok [of "replicate maxlen 0" 0 maxlen op src] by (auto simp: bitop_result_def)
qed


section \<open>The commands\<close>

lemma bit_offset_total: "\<exists>r. getBitOffsetFromArgument arg = Some r \<and> (\<forall>off. r = Some off \<longrightarrow> off < 8 * (512 * 1024 * 1024))"
proof -
  obtain r where "getLongLongFromObject (Some (RawStr arg :: unit robj)) = Some r" using getLongLong_arg by blast
  then show ?thesis by (cases r) (auto simp: getBitOffsetFromArgument_def)
qed

lemma push_1_iff: "(x AND 2 ^ n = (0 :: byte)) = (\<not> (n < 8 \<and> bit x n))"
  by (subst bit_eq_iff) (auto simp: bit_and_iff bit_exp_iff)

lemma test_bit_bit: "test_bit t off \<longleftrightarrow> off div 8 < length t \<and> bit (t ! (off div 8)) (7 - off mod 8)"
  by (auto simp: test_bit_def bit_pos_def push_1_iff)

lemma put_bit_ok:
  assumes "on = 0 \<or> on = 1" "put_bit t off on = (t', old)"
  shows "old = test_bit t off \<and> length t' = max (length t) (off div 8 + 1) \<and>
    (\<forall>off'. test_bit t' off' = (if off' = off then on = 1 else test_bit t off'))"
proof -
  define b p u where "b = off div 8" and "p = 7 - off mod 8" and "u = t @ replicate (b + 1 - length t) 0"
  define v where "v = (u ! b AND NOT (push_bit p 1)) OR push_bit p (word_of_int on AND 1)"
  have lt: "length u = max (length t) (b + 1)" "b < length u" by (simp_all add: u_def)
  have t': "t' = u[b := v]" "old = (u ! b AND push_bit p 1 \<noteq> 0)"
    using assms(2) by (auto simp: put_bit_def bit_pos_def Let_def b_def p_def u_def v_def)
  have n: "bit (u ! k) m = (k < length t \<and> bit (t ! k) m)" if "k < length u" for k m
    using that by (auto simp: nth_append u_def)
  have v: "bit v m = (if m = p then on = 1 else bit (u ! b) m)" if "m < 8" for m
    using assms(1) that unfolding v_def by (auto simp: bit_or_iff bit_and_iff bit_not_iff bit_exp_iff)
  have "test_bit t' off' = (if off' = off then on = 1 else test_bit t off')" for off'
  proof (cases "off' div 8 = b")
    case True
    have "off' = off" if "7 - off' mod 8 = p"
    proof -
      have "off' mod 8 < 8" "off mod 8 < 8" by simp_all
      then have "off' mod 8 = off mod 8" using that unfolding p_def by linarith
      then show ?thesis using True by (metis b_def div_mult_mod_eq)
    qed
    then have "off' = off \<longleftrightarrow> 7 - off' mod 8 = p" by (auto simp: p_def)
    moreover have "test_bit t' off' = bit v (7 - off' mod 8)" using True lt(2) by (simp add: test_bit_bit t'(1))
    moreover have "bit (u ! b) (7 - off' mod 8) = test_bit t off'" using True n [OF lt(2)] by (simp add: test_bit_bit)
    ultimately show ?thesis using v [of "7 - off' mod 8"] by simp
  next
    case False
    then have "off' \<noteq> off" by (auto simp: b_def)
    moreover have "test_bit t' off' = (off' div 8 < length u \<and> bit (u ! (off' div 8)) (7 - off' mod 8))"
      using False by (simp add: test_bit_bit t'(1))
    moreover have "\<dots> = test_bit t off'" using n [of "off' div 8"] lt(1) by (auto simp: test_bit_bit)
    ultimately show ?thesis by simp
  qed
  moreover have "p < 8" by (simp add: p_def)
  then have "old = test_bit t off" using n [OF lt(2), of p] by (simp add: t'(2) test_bit_bit push_1_iff b_def p_def)
  ultimately show ?thesis using lt by (simp add: t'(1) b_def)
qed


text \<open>The string a key holds, the empty one if it does not exist.\<close>

definition text_of :: "'o robj option \<Rightarrow> bytes" where
  "text_of v = (case v of None \<Rightarrow> [] | Some o' \<Rightarrow> str_of o')"

abbreviation stringy :: "'o robj option \<Rightarrow> bool" where
  "stringy v \<equiv> case v of None \<Rightarrow> True | Some o' \<Rightarrow> is_string o'"

lemma setbit_cases:
  assumes k: "keys_ok s" and off: "getBitOffsetFromArgument arg = Some (Some off)"
    and on: "getLongFromObject (Some (RawStr v :: unit robj)) = Some (Some on)" "on = 0 \<or> on = 1"
  shows "\<exists>s' r. setbitCommand key arg v (s :: 'o server) i = Some (s', r) \<and> keys_ok s' \<and> reported s s' \<and>
    (stringy (fst (fresh s i key)) \<longrightarrow>
      r = bool_reply (test_bit (text_of (fst (fresh s i key))) off) \<and>
      keyval s' i key = (Some (RawStr (fst (put_bit (text_of (fst (fresh s i key))) off on))), snd (fresh s i key)))"
proof -
  obtain s1 where s1: "lookupKeyWrite s i key = Some (fst (fresh s i key), s1)" "keys_ok s1" "eff s s1 (vol s i key) []"
    "keyval s1 i key = fresh s i key" using lookupKeyWrite_ok [OF k] by blast
  note r1 = vol_reported [OF s1(3)]
  have nn: "\<not> (on \<noteq> 0 \<and> on \<noteq> 1)" using on(2) by simp
  note [simp] = setbitCommand_def off on(1) nn s1(1)
  obtain t old where t: "put_bit (text_of (fst (fresh s i key))) off on = (t, old)" by fastforce
  then have o: "old = test_bit (text_of (fst (fresh s i key))) off" using put_bit_ok [OF on(2)] by blast
  show ?thesis
  proof (cases "fst (fresh s i key)")
    case None
    obtain s2 where s2: "dbAdd s1 i key (RawStr t) = Some s2" "keys_ok s2" "eff s1 s2 {(i, key)} []"
      "keyval s2 i key = (Some (RawStr t), snd (fresh s i key))"
      using dbAdd_ok [OF s1(2), of i key "RawStr t"] None s1(4) by auto
    show ?thesis using None r1 s1(2) s2 t o modify_reported [OF s1(3) s2(3)] by (simp add: text_of_def)
  next
    case (Some o')
    show ?thesis
    proof (cases "is_string o'")
      case False
      then show ?thesis using Some r1 s1(2) by simp
    next
      case True
      have ok: "obj_ok o'" using fresh_obj_ok [OF k Some] .
      obtain s2 where s2: "dbOverwrite s1 i key (RawStr t) = Some s2" "keys_ok s2" "eff s1 s2 {(i, key)} []"
        "keyval s2 i key = (Some (RawStr t), snd (fresh s i key))"
        using dbOverwrite_ok [OF s1(2), of i key "RawStr t"] Some s1(4) by auto
      show ?thesis using Some True r1 s1(2) s2 modify_reported [OF s1(3) s2(3)] ok t o
        by (simp add: getDecodedObject_ok text_of_def)
    qed
  qed
qed

lemma setbit_ok: "cmd_ok (setbitCommand key arg v)"
proof (rule cmd_okI)
  fix s :: "'o server" and i
  assume k: "keys_ok s"
  obtain r where r: "getBitOffsetFromArgument arg = Some r" using bit_offset_total by blast
  obtain q where q: "getLongFromObject (Some (RawStr v :: unit robj)) = Some q" using getLong_arg by blast
  show "\<exists>s' r. setbitCommand key arg v s i = Some (s', r) \<and> keys_ok s' \<and> reported s s'"
  proof (cases "\<exists>off on. r = Some off \<and> q = Some on \<and> (on = 0 \<or> on = 1)")
    case True
    then show ?thesis using setbit_cases [OF k, of arg _ v] r q by blast
  next
    case False
    then show ?thesis using r q k by (cases r; cases q) (auto simp: setbitCommand_def reported_refl)
  qed
qed

lemma getbit_cases:
  assumes k: "keys_ok s" and off: "getBitOffsetFromArgument arg = Some (Some off)"
  shows "\<exists>s' r. getbitCommand key arg (s :: 'o server) i = Some (s', r) \<and> keys_ok s' \<and> reported s s' \<and>
    (stringy (fst (fresh s i key)) \<longrightarrow> r = bool_reply (test_bit (text_of (fst (fresh s i key))) off))"
proof -
  obtain s1 where s1: "lookupKeyRead s i key = Some (fst (fresh s i key), s1)" "keys_ok s1" "eff s s1 (vol s i key) []"
    using lookupKeyRead_ok [OF k] by blast
  note r1 = vol_reported [OF s1(3)]
  show ?thesis
  proof (cases "fst (fresh s i key)")
    case None
    then show ?thesis using s1 r1 off by (simp add: getbitCommand_def text_of_def test_bit_def bool_reply_def)
  next
    case (Some o')
    then show ?thesis using s1 r1 off fresh_obj_ok [OF k Some]
      by (cases o') (auto simp: getbitCommand_def text_of_def ll2string_take)
  qed
qed


lemma getbit_ok: "cmd_ok (getbitCommand key arg)"
proof (rule cmd_okI)
  fix s :: "'o server" and i
  assume k: "keys_ok s"
  obtain r where r: "getBitOffsetFromArgument arg = Some r" using bit_offset_total by blast
  show "\<exists>s' r. getbitCommand key arg s i = Some (s', r) \<and> keys_ok s' \<and> reported s s'"
  proof (cases r)
    case None
    then show ?thesis using r k by (simp add: getbitCommand_def reported_refl)
  next
    case (Some off)
    then show ?thesis using getbit_cases [OF k, of arg off key i] r by blast
  qed
qed

text \<open>The range of a count with exact bounds.\<close>

definition range_bits :: "bytes \<Rightarrow> int \<Rightarrow> int \<Rightarrow> int" where
  "range_bits t start fin =
     (let len = int (length t);
          lo = max 0 (if start < 0 then len + start else start);
          hi = min (len - 1) (max 0 (if fin < 0 then len + fin else fin))
      in if lo > hi then 0 else int (bit_count (take (nat (hi - lo + 1)) (drop (nat lo) t))))"

lemma count_reply_ok: "bit_range (int (length t)) start fin = (a, b) \<Longrightarrow> count_reply t a b = RInt (range_bits t start fin)"
proof -
  assume r: "bit_range (int (length t)) start fin = (a, b)"
  have "bit_range len x y = (max 0 (if x < 0 then len + x else x), min (len - 1) (max 0 (if y < 0 then len + y else y)))" for len x y
    unfolding bit_range_def Let_def by (auto simp: max_def min_def)
  from this [of "int (length t)" start fin] r show ?thesis
    by (simp only: prod.inject count_reply_def range_bits_def Let_def popcount_ok mem_read_def) auto
qed

lemma count_reply_all: "count_reply t 0 (int (length t) - 1) = RInt (int (bit_count t))"
  by (auto simp: count_reply_def popcount_ok mem_read_def bit_count_def)

lemma bitcount_cases:
  assumes k: "keys_ok s"
  shows "\<exists>s' r. bitcountCommand key args (s :: 'o server) i = Some (s', r) \<and> keys_ok s' \<and> reported s s' \<and>
    (stringy (fst (fresh s i key)) \<longrightarrow>
      (args = [] \<longrightarrow> r = RInt (int (bit_count (text_of (fst (fresh s i key)))))) \<and>
      (\<forall>a b start fin. args = [a, b] \<and> getLongFromObject (Some (RawStr a :: unit robj)) = Some (Some start) \<and>
         getLongFromObject (Some (RawStr b :: unit robj)) = Some (Some fin) \<longrightarrow> r = RInt (range_bits (text_of (fst (fresh s i key))) start fin)))"
proof -
  obtain s1 where s1: "lookupKeyRead s i key = Some (fst (fresh s i key), s1)" "keys_ok s1" "eff s s1 (vol s i key) []"
    using lookupKeyRead_ok [OF k] by blast
  note r1 = vol_reported [OF s1(3)]
  show ?thesis
  proof (cases "fst (fresh s i key)")
    case None
    then show ?thesis using s1 r1 by (auto simp: bitcountCommand_def text_of_def bit_count_def range_bits_def Let_def)
  next
    case (Some o')
    show ?thesis
    proof (cases "is_string o'")
      case False
      then show ?thesis using Some s1 r1 by (auto simp: bitcountCommand_def)
    next
      case True
      have p: "(case o' of IntStr n \<Rightarrow> (case ll2string 32 n of (llbuf, len) \<Rightarrow> Some (take len llbuf)) | RawStr t \<Rightarrow> Some t | Other _ _ \<Rightarrow> None) = Some (str_of o')"
        using True fresh_obj_ok [OF k Some] by (cases o') (auto simp: ll2string_take is_string_def)
      note [simp] = bitcountCommand_def s1(1) Some True p Let_def text_of_def
      consider "args = []" | a b where "args = [a, b]" | "args \<noteq> []" "\<forall>a b. args \<noteq> [a, b]" by blast
      then show ?thesis
      proof cases
        case 1
        then show ?thesis using s1(2) r1 by (simp add: count_reply_all)
      next
        case (2 a b)
        obtain x y where xy: "getLongFromObject (Some (RawStr a :: unit robj)) = Some x" "getLongFromObject (Some (RawStr b :: unit robj)) = Some y"
          using getLong_arg by blast
        show ?thesis using s1(2) r1 2 xy by (cases x; cases y) (auto simp: count_reply_ok split: prod.splits)
      next
        case 3
        then show ?thesis using s1(2) r1 by (auto split: list.split)
      qed
    qed
  qed
qed

lemma bitcount_ok: "cmd_ok (bitcountCommand key args)"
  using bitcount_cases by (fastforce simp: cmd_ok_def)


lemma bitop_sources_ok:
  "keys_ok s \<Longrightarrow> length src = j \<Longrightarrow> \<forall>t \<in> set src. (j \<noteq> 0 \<longrightarrow> minlen \<le> length t) \<and> length t \<le> maxlen \<Longrightarrow> minlen \<le> maxlen \<Longrightarrow>
   \<exists>s' r. bitop_sources keys j (s :: 'o server) i src maxlen minlen = Some (s', r) \<and> keys_ok s' \<and> reported s s' \<and>
     (\<forall>src' mx mn. r = Some (src', mx, mn) \<longrightarrow> length src' = j + length keys \<and> (\<forall>t \<in> set src'. mn \<le> length t \<and> length t \<le> mx) \<and> mn \<le> mx)"
proof (induction keys arbitrary: s j src maxlen minlen)
  case Nil
  then show ?case by (cases src) (auto simp: reported_refl)
next
  case (Cons key keys)
  obtain s1 where s1: "lookupKeyRead s i key = Some (fst (fresh s i key), s1)" "keys_ok s1" "eff s s1 (vol s i key) []"
    using lookupKeyRead_ok [OF Cons.prems(1)] by blast
  note r1 = vol_reported [OF s1(3)]
  have step: "\<exists>s' r. bitop_sources keys (Suc j) s1 i (src @ [t]) mx mn = Some (s', r) \<and> keys_ok s' \<and> reported s s' \<and>
     (\<forall>src' mx mn. r = Some (src', mx, mn) \<longrightarrow> length src' = j + length (key # keys) \<and> (\<forall>t \<in> set src'. mn \<le> length t \<and> length t \<le> mx) \<and> mn \<le> mx)"
    if "\<forall>u \<in> set (src @ [t]). mn \<le> length u \<and> length u \<le> mx" "mn \<le> mx" for t mx mn
    using Cons.IH [OF s1(2), of "src @ [t]" "Suc j" mn mx] that Cons.prems(2) reported_trans [OF r1] by fastforce
  show ?case
  proof (cases "fst (fresh s i key)")
    case None
    have "\<forall>u \<in> set (src @ [[]]). 0 \<le> length u \<and> length u \<le> maxlen" using Cons.prems(3) by auto
    from step [OF this] show ?thesis using None s1(1) by simp
  next
    case (Some o')
    show ?thesis
    proof (cases "is_string o'")
      case False
      then show ?thesis using Some s1 r1 by simp
    next
      case True
      let ?l = "length (str_of o')"
      let ?mn = "if j = 0 \<or> ?l < minlen then ?l else minlen"
      have "\<forall>u \<in> set (src @ [str_of o']). ?mn \<le> length u \<and> length u \<le> max ?l maxlen" using Cons.prems(2,3) by fastforce
      moreover have "?mn \<le> max ?l maxlen" using Cons.prems(4) by auto
      moreover have e: "bitop_sources (key # keys) j s i src maxlen minlen = bitop_sources keys (Suc j) s1 i (src @ [str_of o']) (max ?l maxlen) ?mn"
        using Some True s1(1) fresh_obj_ok [OF Cons.prems(1) Some] by (simp add: getDecodedObject_ok Let_def)
      ultimately show ?thesis unfolding e by (intro step)
    qed
  qed
qed

lemma bitop_ok: "cmd_ok (bitopCommand opname target keys)"
proof (rule cmd_okI)
  fix s :: "'o server" and i
  assume k: "keys_ok s"
  from bitop_sources_ok [OF k, of "[]" 0 0 0 keys i] obtain s1 r where
    s1: "bitop_sources keys 0 s i [] 0 0 = Some (s1, r)" "keys_ok s1" "reported s s1" by auto
  show "\<exists>s' r. bitopCommand opname target keys s i = Some (s', r) \<and> keys_ok s' \<and> reported s s'"
  proof (cases "bitop_name opname")
    case None
    then show ?thesis using k by (simp add: bitopCommand_def reported_refl)
  next
    case (Some op)
    show ?thesis
    proof (cases r)
      case None
      then show ?thesis using Some k s1 by (auto simp: bitopCommand_def reported_refl)
    next
      case r: (Some x)
      obtain src mx mn where x: "x = (src, mx, mn)" by (cases x)
      obtain s2 where s2: "setKey s1 i target (RawStr (bitop_result op src mx mn)) = Some s2" "keys_ok s2" "eff s1 s2 {(i, target)} [Modified i target]"
        using setKey_ok [OF s1(2), of "RawStr (bitop_result op src mx mn)" i target] by auto
      have 2: "reported s s2" by (rule reported_trans [OF s1(3) eff_reported [OF s2(3)]]) auto
      obtain d s3 where s3: "dbDelete s1 i target = (d, s3)" by fastforce
      have 3: "keys_ok s3" "reported s (if d then signalModifiedKey s3 i target else s3)"
        using delete_reported [OF s1(2) s3] reported_trans [OF s1(3)] by blast+
      show ?thesis using Some r x s1(1) s2(1,2) 2 3 s3 k by (auto simp: bitopCommand_def reported_refl)
    qed
  qed
qed


lemma lookup_fresh:
  assumes "eff s s1 (vol s i key) []" "keyval s1 i key = fresh s i key"
  shows "fresh s1 d k = fresh s d k"
proof (cases "(d, k) = (i, key)")
  case False
  then show ?thesis using eff_fresh [OF assms(1) vol_other] by blast
next
  case True
  have "expires (dbs s1 i) key = snd (fresh s i key)" using assms(2) by (simp add: keyval_def prod_eq_iff)
  then have "\<not> lapsed s1 i key"
    using assms(1) by (auto simp: lapsed_def fresh_def keyval_def eff_def split: option.splits if_splits)
  then show ?thesis using True assms(2) by (simp add: fresh_def)
qed

abbreviation key_texts :: "'o server \<Rightarrow> nat \<Rightarrow> bytes list \<Rightarrow> bytes list" where
  "key_texts s i keys \<equiv> map (\<lambda>k. text_of (fst (fresh s i k))) keys"

lemma bitop_sources_texts:
  "keys_ok s \<Longrightarrow> \<forall>k \<in> set keys. stringy (fst (fresh (s :: 'o server) i k)) \<Longrightarrow>
   \<exists>s' mn. bitop_sources keys j s i src maxlen minlen =
     Some (s', Some (src @ key_texts s i keys, foldl (\<lambda>m t. max (length t) m) maxlen (key_texts s i keys), mn))"
proof (induction keys arbitrary: s j src maxlen minlen)
  case (Cons key keys)
  obtain s1 where s1: "lookupKeyRead s i key = Some (fst (fresh s i key), s1)" "keys_ok s1" "eff s s1 (vol s i key) []"
    "keyval s1 i key = fresh s i key" using lookupKeyRead_ok [OF Cons.prems(1)] by blast
  note f = lookup_fresh [OF s1(3,4)]
  have "\<forall>k \<in> set keys. stringy (fst (fresh s1 i k))" using Cons.prems(2) f by simp
  note ih = Cons.IH [OF s1(2) this, unfolded f]
  show ?case
  proof (cases "fst (fresh s i key)")
    case None
    then show ?thesis using s1(1) ih [of "Suc j" "src @ [[]]" maxlen 0] by (simp add: text_of_def)
  next
    case (Some o')
    let ?mn = "if j = 0 \<or> length (str_of o') < minlen then length (str_of o') else minlen"
    have "bitop_sources (key # keys) j s i src maxlen minlen =
        bitop_sources keys (Suc j) s1 i (src @ [str_of o']) (max (length (str_of o')) maxlen) ?mn"
      using Some Cons.prems(2) s1(1) fresh_obj_ok [OF Cons.prems(1) Some] by (simp add: getDecodedObject_ok Let_def)
    then show ?thesis using Some ih [of "Suc j" "src @ [str_of o']" "max (length (str_of o')) maxlen" ?mn] by (simp add: text_of_def)
  qed
qed simp

lemma fold_max: "foldl (\<lambda>m t. max (length t) m) a ts = Max (insert a (length ` set ts))"
proof (induction ts arbitrary: a)
  case (Cons t ts)
  have "Max (insert (max (length t) a) (length ` set ts)) = Max (insert a (insert (length t) (length ` set ts)))"
    by (cases "ts = []") (simp_all add: max.commute max.left_commute)
  then show ?case using Cons by simp
qed simp

text \<open>
  The count by sixteen bytes at a time, with its masks, shifts and multiplications in 32-bit words and a table
  for the remaining bytes, is the number of set bits.
\<close>

theorem popcount_counts: "popcount 0 s = sum_list (map (\<lambda>b. length (filter (bit b) [0..<8])) s)"
  by (simp add: popcount_ok bit_count_def bits_of_def [abs_def])

text \<open>
  BITOP stores under the target key, without expiry, the string whose every byte is the operation applied to the bytes
  of the sources at that position, a shorter or missing source counting as zero bytes, and answers its length; the fast
  path over 64-bit words makes no difference.
\<close>

theorem bitop_bytewise:
  assumes "keys_ok s" "bitop_name opname = Some op" "keys \<noteq> []" "op = BITOP_NOT \<longrightarrow> length keys = 1"
    and "\<forall>k \<in> set keys. stringy (fst (fresh (s :: 'o server) i k))" and "\<exists>k \<in> set keys. text_of (fst (fresh s i k)) \<noteq> []"
  shows "\<exists>s' n. bitopCommand opname target keys s i = Some (s', RInt (int n)) \<and> n = Max (length ` set (key_texts s i keys)) \<and>
    keyval s' i target = (Some (RawStr (map (output_byte op (key_texts s i keys)) [0..<n])), None)"
proof -
  let ?ts = "key_texts s i keys"
  obtain s1 mx mn where b: "bitop_sources keys 0 s i [] 0 0 = Some (s1, Some (?ts, mx, mn))" "mx = foldl (\<lambda>m t. max (length t) m) 0 ?ts"
    using bitop_sources_texts [OF assms(1,5), of 0 "[]" 0 0] by auto
  from bitop_sources_ok [OF assms(1), of "[]" 0 0 0 keys i] b(1) have
    o: "keys_ok s1" "\<forall>t \<in> set ?ts. mn \<le> length t \<and> length t \<le> mx" "mn \<le> mx" by auto
  have mx: "mx = Max (length ` set ?ts)" using b(2) assms(3) fold_max [of 0 ?ts] by (simp add: image_image)
  obtain k where "k \<in> set keys" "text_of (fst (fresh s i k)) \<noteq> []" using assms(6) by blast
  then have pos: "mx \<noteq> 0" using o(2) by (metis (mono_tags, lifting) image_eqI length_0_conv list.set_map le_zero_eq)
  have t: "?ts \<noteq> []" "op = BITOP_NOT \<longrightarrow> tl ?ts = []" using assms(3,4) by (cases keys; auto)+
  have r: "bitop_result op ?ts mx mn = map (output_byte op ?ts) [0..<mx]" using bitop_result_ok [OF t(1) _ o(3) t(2)] o(2) by blast
  obtain s2 where s2: "setKey s1 i target (RawStr (bitop_result op ?ts mx mn)) = Some s2"
    "keyval s2 i target = (Some (RawStr (bitop_result op ?ts mx mn)), None)" using setKey_ok [OF o(1), of "RawStr (bitop_result op ?ts mx mn)" i target] by auto
  have "bitopCommand opname target keys s i = Some (add_dirty 1 s2, RInt (int mx))"
    using assms(2,4) b(1) pos s2(1) by (auto simp: bitopCommand_def)
  then show ?thesis using s2(2) r mx by auto
qed

text \<open>
  SETBIT answers the old bit, keeps the expiry time, sets exactly the addressed bit and no other, and grows the
  string with zero bits.
\<close>

theorem setbit_sets_one_bit:
  assumes "keys_ok s" "getBitOffsetFromArgument arg = Some (Some off)"
    and "getLongFromObject (Some (RawStr v :: unit robj)) = Some (Some on)" "on = 0 \<or> on = 1" "stringy (fst (fresh (s :: 'o server) i key))"
  shows "\<exists>s' t. setbitCommand key arg v s i = Some (s', bool_reply (test_bit (text_of (fst (fresh s i key))) off)) \<and>
    keyval s' i key = (Some (RawStr t), snd (fresh s i key)) \<and> length t = max (length (text_of (fst (fresh s i key)))) (off div 8 + 1) \<and>
    (\<forall>off'. test_bit t off' = (if off' = off then on = 1 else test_bit (text_of (fst (fresh s i key))) off'))"
  using setbit_cases [OF assms(1-4), of key i] put_bit_ok [OF assms(4), of "text_of (fst (fresh s i key))" off] assms(5)
  by (cases "put_bit (text_of (fst (fresh s i key))) off on") auto


section \<open>Witnesses\<close>

lemma bit_offset_repr: "0 \<le> n \<Longrightarrow> n < 2 ^ 32 \<Longrightarrow> getBitOffsetFromArgument (ll_repr n) = Some (Some (nat n))"
  using getLongLong_repr [of "RawStr (ll_repr n) :: unit robj" n] by (auto simp: getBitOffsetFromArgument_def is_ll_def)

theorem bitop_bytewise_witness:
  "\<exists>s' n. bitopCommand [88, 79, 114] [120] [[107], [108]] sample_server 0 = Some (s', RInt (int n)) \<and> n = Max (length ` {[53], [1]}) \<and>
    keyval s' 0 [120] = (Some (RawStr (map (output_byte BITOP_XOR [[53], [1]]) [0..<n])), None)"
proof -
  have n: "bitop_name [88, 79, 114] = Some BITOP_XOR" by code_simp
  have t: "key_texts sample_server 0 [[107], [108]] = [[53], [1]]"
    by (simp add: sample_fresh text_of_def ll_repr_def dec.simps digit_def)
  show ?thesis using bitop_bytewise [OF sample_server_ok(1) n, of "[[107], [108]]" 0 "[120]"] unfolding t by (simp add: sample_fresh text_of_def)
qed

theorem setbit_sets_one_bit_witness:
  "\<exists>s' t. setbitCommand [108] (ll_repr 9) (ll_repr 1) sample_server 0 = Some (s', RInt 0) \<and> keyval s' 0 [108] = (Some (RawStr t), None) \<and>
    length t = 2 \<and> test_bit t 9 \<and> test_bit t 7 \<and> \<not> test_bit t 8"
proof -
  have b: "getBitOffsetFromArgument (ll_repr 9) = Some (Some 9)" using bit_offset_repr [of 9] by simp
  have o: "getLongFromObject (Some (RawStr (ll_repr 1) :: unit robj)) = Some (Some 1)" by (rule getLong_repr) (simp add: is_ll_def)
  have f: "text_of (fst (fresh sample_server 0 [108])) = [1]" "snd (fresh sample_server 0 [108]) = None" by (simp_all add: sample_fresh text_of_def)
  from setbit_sets_one_bit [OF sample_server_ok(1) b o, of 0 "[108]"] obtain s' t where
    t: "setbitCommand [108] (ll_repr 9) (ll_repr 1) sample_server 0 = Some (s', bool_reply (test_bit [1] 9))" "keyval s' 0 [108] = (Some (RawStr t), None)"
    "length t = max (length [1 :: byte]) (9 div 8 + 1)" "\<forall>off. test_bit t off = (if off = 9 then (1 :: int) = 1 else test_bit [1] off)"
    unfolding f by (auto simp: sample_fresh)
  then have "test_bit t 9" "test_bit t 7" "\<not> test_bit t 8" by (simp_all add: test_bit_bit [of "[1]"])
  moreover have "bool_reply (test_bit [1] 9) = RInt 0" by (simp add: bool_reply_def test_bit_bit)
  ultimately show ?thesis using t by auto
qed

end
