(* ===== verification/Commands.thy ===== *)
theory Commands
  imports Multi Bitops
begin

text \<open>
  The command table of \<^verbatim>\<open>debug/redis/src/redis.c\<close> for the commands modelled in the theories Keyspace, T_String and Bitops,
  and what transactions over it guarantee. A request is a command with its arguments, after the
  lookup of its name and the check of its arity. \<open>MOVE\<close> and \<open>GETRANGE\<close>, which do not satisfy the
  contract of the other commands, are in the extended table.
\<close>

datatype cmd =
    Get bytes | Set bytes bytes "bytes list" | Setnx bytes bytes | Setex bytes bytes bytes | Psetex bytes bytes bytes
  | Append bytes bytes | Strlen bytes | Del "bytes list" | Exists bytes | Setrange bytes bytes bytes
  | Incr bytes | Decr bytes | Mget "bytes list" | Incrby bytes bytes | Decrby bytes bytes | Getset bytes bytes
  | Mset "bytes list" | Msetnx "bytes list" | Select bytes | Rename bytes bytes | Renamenx bytes bytes
  | Expire bytes bytes | Expireat bytes bytes | Pexpire bytes bytes | Pexpireat bytes bytes
  | Dbsize | Type bytes | Flushdb | Flushall | Ttl bytes | Pttl bytes | Persist bytes
  | Setbit bytes bytes bytes | Getbit bytes bytes | Bitop bytes bytes "bytes list" | Bitcount bytes "bytes list"

fun proc :: "cmd \<Rightarrow> 'o command" where
  "proc (Get key) = getCommand key"
| "proc (Set key v opts) = setCommand key v opts"
| "proc (Setnx key v) = setnxCommand key v"
| "proc (Setex key t v) = setexCommand key t v"
| "proc (Psetex key t v) = psetexCommand key t v"
| "proc (Append key v) = appendCommand key v"
| "proc (Strlen key) = strlenCommand key"
| "proc (Del keys) = delCommand keys"
| "proc (Exists key) = existsCommand key"
| "proc (Setrange key off v) = setrangeCommand key off v"
| "proc (Incr key) = incrDecrCommand key 1"
| "proc (Decr key) = incrDecrCommand key (- 1)"
| "proc (Mget keys) = mgetCommand keys"
| "proc (Incrby key n) = incrbyCommand key n"
| "proc (Decrby key n) = decrbyCommand key n"
| "proc (Getset key v) = getsetCommand key v"
| "proc (Mset args) = msetGenericCommand args False"
| "proc (Msetnx args) = msetGenericCommand args True"
| "proc (Select arg) = (\<lambda>s i. do { (_, r) \<leftarrow> selectCommand arg s i; Some (s, r) })"
| "proc (Rename a b) = renameGenericCommand a b False"
| "proc (Renamenx a b) = renameGenericCommand a b True"
| "proc (Expire key n) = expireCommand key n"
| "proc (Expireat key n) = expireatCommand key n"
| "proc (Pexpire key n) = pexpireCommand key n"
| "proc (Pexpireat key n) = pexpireatCommand key n"
| "proc Dbsize = dbsizeCommand"
| "proc (Type key) = typeCommand key"
| "proc Flushdb = flushdbCommand"
| "proc Flushall = flushallCommand"
| "proc (Ttl key) = ttlGenericCommand key False"
| "proc (Pttl key) = ttlGenericCommand key True"
| "proc (Persist key) = persistCommand key"
| "proc (Setbit key off v) = setbitCommand key off v"
| "proc (Getbit key off) = getbitCommand key off"
| "proc (Bitop op target keys) = bitopCommand op target keys"
| "proc (Bitcount key args) = bitcountCommand key args"

definition run_cmd :: "(cmd, 'o) runner" where
  "run_cmd x s i =
     do { (s', r) \<leftarrow> proc x s i;
          j \<leftarrow> (case x of Select arg \<Rightarrow> do { (j, _) \<leftarrow> selectCommand arg s i; Some j } | _ \<Rightarrow> Some i);
          Some (s', r, j) }"

text \<open>The commands whose row in the table has the flag \<^verbatim>\<open>r\<close>.\<close>

fun readonly_cmd :: "cmd \<Rightarrow> bool" where
  "readonly_cmd (Get _) = True"
| "readonly_cmd (Strlen _) = True"
| "readonly_cmd (Exists _) = True"
| "readonly_cmd (Mget _) = True"
| "readonly_cmd (Select _) = True"
| "readonly_cmd Dbsize = True"
| "readonly_cmd (Type _) = True"
| "readonly_cmd (Ttl _) = True"
| "readonly_cmd (Pttl _) = True"
| "readonly_cmd (Getbit _ _) = True"
| "readonly_cmd (Bitcount _ _) = True"
| "readonly_cmd _ = False"

definition readonly :: "cmd request \<Rightarrow> bool" where
  "readonly q = (case q of EXEC \<Rightarrow> False | CMD x \<Rightarrow> readonly_cmd x | _ \<Rightarrow> True)"

lemma select_ok: "\<exists>j r. selectCommand arg s i = Some (j, r)"
  by (cases "strtoll arg")
    (auto simp: selectCommand_def getLongFromObject_def getLongLongFromObject_def Let_def split: option.splits if_splits)

lemma proc_ok: "cmd_ok (proc x)"
proof (cases x)
  case (Select arg)
  have "\<exists>s' r. proc x s i = Some (s', r) \<and> s' = s" for s :: "'o server" and i
    using select_ok [of arg s i] Select by auto
  then show ?thesis unfolding cmd_ok_def by (metis reported_refl)
qed (simp_all add: get_ok set_ok setnx_ok append_ok strlen_ok del_ok exists_ok setrange_ok incrDecr_ok mget_ok incrby_ok getset_ok
    mset_ok rename_ok expire_ok dbsize_ok type_ok flush_ok flushall_ok ttl_ok persist_ok
    setbit_ok getbit_ok bitop_ok bitcount_ok is_ll_def)

lemma run_cmd_ok:
  assumes "keys_ok s"
  shows "\<exists>s' r j. run_cmd x s i = Some (s', r, j) \<and> keys_ok s' \<and> reported s s'"
proof -
  from proc_ok [of x] assms obtain s' r where p: "proc x s i = Some (s', r)" "keys_ok s'" "reported s s'"
    unfolding cmd_ok_def by blast
  have "\<exists>j. (case x of Select arg \<Rightarrow> do { (j, _) \<leftarrow> selectCommand arg s i; Some j } | _ \<Rightarrow> Some i) = Some j"
  proof (cases x)
    case (Select arg)
    then show ?thesis using select_ok [of arg s i] by auto
  qed simp_all
  then show ?thesis using p by (auto simp: run_cmd_def)
qed

interpretation redis: command_table run_cmd
  by unfold_locales (rule run_cmd_ok)

section \<open>What transactions guarantee\<close>



text \<open>
  C6: EXEC of an undisturbed transaction runs exactly the queued commands, in order and with nothing in
  between, on the key space it finds, replies with their number and their replies, and leaves the client
  outside a transaction with nothing queued or watched; a transaction with a write counts as one more change.
\<close>

theorem exec_runs_queue:
  assumes "msrv_ok s" "in_multi (cl s c)" "\<not> dirty_cas (cl s c)" "\<not> dirty_exec (cl s c)"
  shows "\<exists>s' k reps d. execCommand run_cmd readonly s c = Some s' \<and> msrv_ok s' \<and>
    run_seq run_cmd (mstate (cl s c)) (ks s) (selected (cl s c)) = Some (k, reps, d) \<and>
    ks s' = (if \<exists>q \<in> set (mstate (cl s c)). \<not> readonly q then add_dirty 1 k else k) \<and>
    out (cl s' c) = out (cl s c) @ MultiLen (length (mstate (cl s c))) # map R reps \<and>
    \<not> in_multi (cl s' c) \<and> mstate (cl s' c) = [] \<and> watched_keys (cl s' c) = []"
  using redis.exec_run [OF assms, of readonly] act_ok by blast

text \<open>The two commands outside the contract.\<close>

datatype xcmd = Checked cmd | Move bytes bytes | Getrange bytes bytes bytes

fun run_x :: "(xcmd, 'o) runner" where
  "run_x (Checked x) s i = run_cmd x s i"
| "run_x (Move key arg) s i = do { (s, r) \<leftarrow> moveCommand key arg s i; Some (s, r, i) }"
| "run_x (Getrange key a b) s i = do { (s, r) \<leftarrow> getrangeCommand key a b s i; Some (s, r, i) }"

text \<open>The admission tests when all pass.\<close>

definition admit :: admission where
  "admit = \<lparr>ck_name = [], ck_unknown = False, ck_arity = False, ck_auth = False, ck_oom = False, ck_bgsave = False, ck_roslave = False,
     ck_pubsub = False, ck_masterdown = False, ck_loading = False, ck_slowscript = False\<rparr>"

text \<open>
  C40: MOVE defeats optimistic locking: when another client moves a watched key away, the key is gone but the
  watching client is not marked, so its EXEC will run.
\<close>

theorem move_unnoticed_by_watch:
  assumes "keys_ok (ks s)" "\<not> in_multi (cl s a)" "a \<noteq> c" "(key, selected (cl s a)) \<in> set (watched_keys (cl s c))"
    "selectDb (ks s) (atoi arg) = Some dst" "dst \<noteq> selected (cl s a)"
    "fst (fresh (ks s) (selected (cl s a)) key) = Some o'" "fst (fresh (ks s) dst key) = None"
  shows "\<exists>s'. processCommand run_x ro admit s a (CMD (Move key arg)) = Some s' \<and>
    keyval (ks s') (selected (cl s a)) key = (None, None) \<and> cl s' c = cl s c"
proof -
  from move_cases [OF assms(1), of key arg "selected (cl s a)"] assms(5-8) obtain k where
    k: "moveCommand key arg (ks s) (selected (cl s a)) = Some (k, RInt 1)" "signals k = signals (ks s)"
      "keyval k (selected (cl s a)) key = (None, None)" by auto
  then show ?thesis using assms(2,3)
    by (auto simp: processCommand_def admit_def call_def call_queued_def Let_def addReply_def)
qed

text \<open>A write rejected by a read-only slave while a transaction is being queued does not mark the transaction:
  it is as if the command had not been sent, and EXEC will run the others.\<close>

theorem readonly_rejection_not_flagged:
  assumes "in_multi (cl s c)"
  shows "processCommand run_cmd readonly (admit\<lparr>ck_roslave := True\<rparr>) s c q =
      Some (addReply s c (R (RErr ''READONLY You can't write against a read only slave.''))) \<and>
    processCommand run_cmd readonly (admit\<lparr>ck_arity := True\<rparr>) s c q =
      Some (addReply (upd_cl s c (\<lambda>x. x\<lparr>dirty_exec := True\<rparr>)) c (R (RErr (''ERR wrong number of arguments for '' @ quoted [] @ '' command''))))"
  using assms by (simp add: processCommand_def admit_def flagTransaction_def)

section \<open>Witnesses\<close>

definition sample_client :: "'c client" where
  "sample_client = \<lparr>in_multi = False, dirty_cas = False, dirty_exec = False, mstate = [], watched_keys = [], selected = 0, out = []\<rparr>"

definition sample_watch :: "('c, unit) mserver" where
  "sample_watch = \<lparr>ks = sample_server, client_ids = [1, 2],
     cl = (\<lambda>c. if c = 1 then sample_client\<lparr>watched_keys := [([108], 0)]\<rparr> else sample_client),
     wkeys = (\<lambda>d. if d = 0 then [[108] \<mapsto> [1]] else Map.empty), propagated = []\<rparr>"

lemma sample_watch_ok: "msrv_ok sample_watch"
  using sample_server_ok(1) by (auto simp: msrv_ok_def watch_ok_def queue_ok_def sample_watch_def sample_client_def split: if_splits)



theorem exec_runs_queue_witness:
  "\<exists>s' k reps d. execCommand run_cmd readonly (upd_cl sample_watch 2 (\<lambda>x. x\<lparr>in_multi := True, mstate := [CMD (Del [[108]]), UNWATCH]\<rparr>)) 2 = Some s' \<and>
    run_seq run_cmd [CMD (Del [[108]]), UNWATCH] sample_server 0 = Some (k, reps, d) \<and> out (cl s' 2) = MultiLen 2 # map R reps"
proof -
  let ?s = "upd_cl sample_watch 2 (\<lambda>x. x\<lparr>in_multi := True, mstate := [CMD (Del [[108]]), UNWATCH]\<rparr>) :: (cmd, unit) mserver"
  have "act 2 True sample_watch ?s"
    by (rule upd_cl_act [OF sample_watch_ok]) (auto simp: queue_ok_def)
  then have "msrv_ok ?s" by (rule act_ok)
  from exec_runs_queue [OF this, of 2] show ?thesis by (auto simp: sample_watch_def sample_client_def)
qed

theorem move_unnoticed_by_watch_witness:
  "\<exists>s'. processCommand run_x (\<lambda>_. False) admit sample_watch 2 (CMD (Move [108] [49])) = Some s' \<and>
    keyval (ks s') 0 [108] = (None, None) \<and> \<not> dirty_cas (cl s' 1)"
proof -
  have a: "atoi [49] = 1"
    by (simp add: atoi_def strtoll_def cstr_def isspace_def isdigit_def dec_val_def Let_def)
  show ?thesis
    using move_unnoticed_by_watch [of "sample_watch :: (xcmd, unit) mserver" 2 1 "[108]" "[49]" 1 "RawStr [1]" "\<lambda>_. False"] sample_server_ok(1)
    by (auto simp: sample_watch_def sample_client_def a selectDb_def sample_server_def fresh_def lapsed_def keyval_def)
qed

theorem readonly_rejection_not_flagged_witness:
  "processCommand run_cmd readonly (admit\<lparr>ck_roslave := True\<rparr>) (upd_cl sample_watch 2 (\<lambda>x. x\<lparr>in_multi := True\<rparr>)) 2 (CMD (Del [[108]])) =
    Some (addReply (upd_cl sample_watch 2 (\<lambda>x. x\<lparr>in_multi := True\<rparr>)) 2 (R (RErr ''READONLY You can't write against a read only slave.'')))"
  using readonly_rejection_not_flagged [of "upd_cl sample_watch 2 (\<lambda>x. x\<lparr>in_multi := True\<rparr>)" 2 "CMD (Del [[108]])"] by simp

end
