(* ===== verification/Networking.thy ===== *)
theory Networking
  imports Sds Util "HOL-Library.Monad_Syntax"
begin

text \<open>
  The request parser of \<^verbatim>\<open>debug/redis/src/networking.c\<close>: from the bytes read from a client's socket to the
  argument vectors handed to \<^verbatim>\<open>processCommand\<close>. The query buffer is a string, its contents those of
  the sds (theory Sds): \<^verbatim>\<open>sdsrange(buf,pos,-1)\<close> drops bytes, making room changes nothing. C strings end at
  their first zero byte. \<^verbatim>\<open>processCommand\<close> is a parameter: it acts on a server state and says whether the
  client is now blocked or to be closed. \<open>None\<close> is a failed assertion or a loop that has not ended.
\<close>

datatype reqtype = REQ_NONE | REQ_INLINE | REQ_MULTIBULK

datatype perror = TooBigInline | TooBigMbulkCount | InvalidMbulkLen | TooBigBulkCount | ExpectedDollar byte | InvalidBulkLen

record pclient =
  querybuf :: bytes
  reqtype :: reqtype
  multibulklen :: int
  bulklen :: int
  argv :: "bytes list"
  blocked :: bool
  close_after_reply :: bool
  errors :: "perror list"

abbreviation CR :: byte where "CR \<equiv> 13"
abbreviation LF :: byte where "LF \<equiv> 10"

definition REDIS_IOBUF_LEN :: nat where "REDIS_IOBUF_LEN = 1024 * 16"
definition REDIS_INLINE_MAX_SIZE :: nat where "REDIS_INLINE_MAX_SIZE = 1024 * 64"
definition REDIS_MBULK_BIG_ARG :: int where "REDIS_MBULK_BIG_ARG = 1024 * 32"

definition createClient :: pclient where
  "createClient = \<lparr>querybuf = [], reqtype = REQ_NONE, multibulklen = 0, bulklen = - 1, argv = [], blocked = False,
     close_after_reply = False, errors = []\<rparr>"

fun strchr :: "byte \<Rightarrow> bytes \<Rightarrow> nat option" where
  "strchr c [] = None"
| "strchr c (x # xs) = (if x = c then Some 0 else if x = 0 then None else map_option Suc (strchr c xs))"

fun strstr_crlf :: "bytes \<Rightarrow> nat option" where
  "strstr_crlf (x # y # xs) =
     (if x = CR \<and> y = LF then Some 0 else if x = 0 then None else map_option Suc (strstr_crlf (y # xs)))"
| "strstr_crlf _ = None"

definition addReplyError :: "pclient \<Rightarrow> perror \<Rightarrow> pclient" where
  "addReplyError c e = c\<lparr>errors := errors c @ [e]\<rparr>"

definition setProtocolError :: "pclient \<Rightarrow> nat \<Rightarrow> pclient" where
  "setProtocolError c pos = c\<lparr>close_after_reply := True, querybuf := drop pos (querybuf c)\<rparr>"

definition resetClient :: "pclient \<Rightarrow> pclient" where
  "resetClient c = c\<lparr>argv := [], reqtype := REQ_NONE, multibulklen := 0, bulklen := - 1\<rparr>"

section \<open>Inline requests\<close>

definition processInlineBuffer :: "pclient \<Rightarrow> (bool \<times> pclient) option" where
  "processInlineBuffer c =
     (case strstr_crlf (querybuf c) of
        None \<Rightarrow>
          Some (False, if length (querybuf c) > REDIS_INLINE_MAX_SIZE
                       then setProtocolError (addReplyError c TooBigInline) 0 else c)
      | Some querylen \<Rightarrow>
          do { tokens \<leftarrow> sdssplitlen (\<lambda>_. 0) (take querylen (querybuf c)) [chr CHR '' ''];
               let c = c\<lparr>querybuf := drop (querylen + 2) (querybuf c)\<rparr>;
               Some (True, c\<lparr>argv := filter (\<lambda>t. t \<noteq> []) (map sds_str tokens)\<rparr>) })"

section \<open>Multi bulk requests\<close>

datatype bulk_header = Wait pclient | Fail pclient | Ready pclient nat

definition read_bulklen :: "pclient \<Rightarrow> nat \<Rightarrow> bulk_header" where
  "read_bulklen c pos =
     (if bulklen c \<noteq> - 1 then Ready c pos
      else
        case strchr CR (drop pos (querybuf c)) of
          None \<Rightarrow>
            Wait (if length (querybuf c) > REDIS_INLINE_MAX_SIZE
                  then setProtocolError (addReplyError c TooBigBulkCount) 0 else c)
        | Some off \<Rightarrow>
            if int (pos + off) > int (length (querybuf c)) - 2 then Wait c
            else if querybuf c ! pos \<noteq> chr CHR ''$''
            then Fail (setProtocolError (addReplyError c (ExpectedDollar (querybuf c ! pos))) pos)
            else
              (case string2ll (take (off - 1) (drop (pos + 1) (querybuf c))) of
                 None \<Rightarrow> Fail (setProtocolError (addReplyError c InvalidBulkLen) pos)
               | Some ll \<Rightarrow>
                   if ll < 0 \<or> ll > 512 * 1024 * 1024
                   then Fail (setProtocolError (addReplyError c InvalidBulkLen) pos)
                   else
                     let pos = pos + off + 2;
                         (c, pos) = (if ll \<ge> REDIS_MBULK_BIG_ARG then (c\<lparr>querybuf := drop pos (querybuf c)\<rparr>, 0) else (c, pos))
                     in Ready (c\<lparr>bulklen := ll\<rparr>) pos))"

definition take_arg :: "pclient \<Rightarrow> nat \<Rightarrow> pclient \<times> nat" where
  "take_arg c pos =
     (let (c', pos') =
            (if pos = 0 \<and> bulklen c \<ge> REDIS_MBULK_BIG_ARG \<and> int (length (querybuf c)) = bulklen c + 2
             then (c\<lparr>argv := argv c @ [take (nat (bulklen c)) (querybuf c)], querybuf := []\<rparr>, 0)
             else (c\<lparr>argv := argv c @ [take (nat (bulklen c)) (drop pos (querybuf c))]\<rparr>, pos + nat (bulklen c + 2)))
      in (c'\<lparr>bulklen := - 1, multibulklen := multibulklen c' - 1\<rparr>, pos'))"

text \<open>
  The loop over the arguments still to be read; the boolean is false when the code returns from
  inside the loop. The comparison is between unsigned numbers.
\<close>

fun bulk_loop :: "nat \<Rightarrow> pclient \<Rightarrow> nat \<Rightarrow> bool \<times> pclient \<times> nat" where
  "bulk_loop 0 c pos = (True, c, pos)"
| "bulk_loop (Suc n) c pos =
     (case read_bulklen c pos of
        Wait c \<Rightarrow> (True, c, pos)
      | Fail c \<Rightarrow> (False, c, pos)
      | Ready c pos \<Rightarrow>
          if int (length (querybuf c) - pos) < uint (word_of_int (bulklen c + 2) :: 32 word) then (True, c, pos)
          else (case take_arg c pos of (c, pos) \<Rightarrow> bulk_loop n c pos))"

definition read_arguments :: "pclient \<Rightarrow> nat \<Rightarrow> (bool \<times> pclient) option" where
  "read_arguments c pos =
     (if multibulklen c \<le> 0 then None
      else
        (case bulk_loop (nat (multibulklen c)) c pos of (looped, c, pos) \<Rightarrow>
           if \<not> looped then Some (False, c)
           else
             let c = (if pos \<noteq> 0 then c\<lparr>querybuf := drop pos (querybuf c)\<rparr> else c)
             in Some (multibulklen c = 0, c)))"

definition processMultibulkBuffer :: "pclient \<Rightarrow> (bool \<times> pclient) option" where
  "processMultibulkBuffer c =
     (if multibulklen c \<noteq> 0 then read_arguments c 0
      else if argv c \<noteq> [] then None
      else
        case strchr CR (querybuf c) of
          None \<Rightarrow>
            Some (False, if length (querybuf c) > REDIS_INLINE_MAX_SIZE
                         then setProtocolError (addReplyError c TooBigMbulkCount) 0 else c)
        | Some newline \<Rightarrow>
            if int newline > int (length (querybuf c)) - 2 then Some (False, c)
            else if querybuf c ! 0 \<noteq> chr CHR ''*'' then None
            else
              (case string2ll (take (newline - 1) (drop 1 (querybuf c))) of
                 None \<Rightarrow> Some (False, setProtocolError (addReplyError c InvalidMbulkLen) 0)
               | Some ll \<Rightarrow>
                   if ll > 1024 * 1024 then Some (False, setProtocolError (addReplyError c InvalidMbulkLen) 0)
                   else
                     let pos = newline + 2 in
                     if ll \<le> 0 then Some (True, c\<lparr>querybuf := drop pos (querybuf c)\<rparr>)
                     else read_arguments (c\<lparr>multibulklen := ll\<rparr>) pos))"

section \<open>The input buffer and the socket\<close>

datatype outcome = Done | Blocks | Closes | Quits

definition after_command :: "outcome \<Rightarrow> pclient \<Rightarrow> pclient" where
  "after_command oc c =
     (case oc of Done \<Rightarrow> resetClient c | Blocks \<Rightarrow> resetClient (c\<lparr>blocked := True\<rparr>)
      | Closes \<Rightarrow> resetClient (c\<lparr>close_after_reply := True\<rparr>) | Quits \<Rightarrow> c\<lparr>close_after_reply := True\<rparr>)"

fun processInputBuffer ::
    "(bytes list \<Rightarrow> 's \<Rightarrow> 's \<times> outcome) \<Rightarrow> nat \<Rightarrow> pclient \<Rightarrow> 's \<Rightarrow> (pclient \<times> 's) option" where
  "processInputBuffer processCommand 0 c s = None"
| "processInputBuffer processCommand (Suc fuel) c s =
     (if querybuf c = [] then Some (c, s)
      else if blocked c then Some (c, s)
      else if close_after_reply c then Some (c, s)
      else
        let c = (if reqtype c = REQ_NONE
                 then c\<lparr>reqtype := (if querybuf c ! 0 = chr CHR ''*'' then REQ_MULTIBULK else REQ_INLINE)\<rparr> else c)
        in do { (ok, c) \<leftarrow> (if reqtype c = REQ_INLINE then processInlineBuffer c else processMultibulkBuffer c);
                if \<not> ok then Some (c, s)
                else if argv c = [] then processInputBuffer processCommand fuel (resetClient c) s
                else (case processCommand (argv c) s of (s, oc) \<Rightarrow>
                        processInputBuffer processCommand fuel (after_command oc c) s) })"

definition readlen :: "pclient \<Rightarrow> int" where
  "readlen c =
     (if reqtype c = REQ_MULTIBULK \<and> multibulklen c \<noteq> 0 \<and> bulklen c \<noteq> - 1 \<and> bulklen c \<ge> REDIS_MBULK_BIG_ARG then
        let remaining = uint (word_of_int (bulklen c + 2) :: 32 word) - int (length (querybuf c))
        in if remaining < int REDIS_IOBUF_LEN then remaining else int REDIS_IOBUF_LEN
      else int REDIS_IOBUF_LEN)"

datatype 's served = Freed 's | Alive pclient 's

text \<open>\<open>data\<close> is what \<^verbatim>\<open>read\<close> returned, not empty.\<close>

definition readQueryFromClient ::
    "(bytes list \<Rightarrow> 's \<Rightarrow> 's \<times> outcome) \<Rightarrow> nat \<Rightarrow> bytes \<Rightarrow> pclient \<Rightarrow> 's \<Rightarrow> 's served option" where
  "readQueryFromClient processCommand client_max_querybuf_len data c s =
     (let c = c\<lparr>querybuf := querybuf c @ data\<rparr> in
      if length (querybuf c) > client_max_querybuf_len then Some (Freed s)
      else map_option (\<lambda>(c, s). Alive c s) (processInputBuffer processCommand (Suc (length (querybuf c))) c s))"

text \<open>
  A connection: the bytes in transit, and for each readiness of the socket a bound on how many of
  them have arrived; at least one is read, and at most as many as the code asks for.
\<close>

fun serve ::
    "(bytes list \<Rightarrow> 's \<Rightarrow> 's \<times> outcome) \<Rightarrow> nat \<Rightarrow> nat list \<Rightarrow> bytes \<Rightarrow> pclient \<Rightarrow> 's \<Rightarrow> (bytes \<times> 's served) option" where
  "serve processCommand mx [] stream c s = Some (stream, Alive c s)"
| "serve processCommand mx (n # ns) stream c s =
     (if stream = [] then Some (stream, Alive c s)
      else
        let nread = min (Suc n) (nat (readlen c)) in
        do { r \<leftarrow> readQueryFromClient processCommand mx (take nread stream) c s;
             (case r of
                Freed s \<Rightarrow> Some (drop nread stream, Freed s)
              | Alive c s \<Rightarrow> serve processCommand mx ns (drop nread stream) c s) })"

section \<open>Every byte sequence is handled\<close>

abbreviation max_bulk :: int where "max_bulk \<equiv> 512 * 1024 * 1024"

definition len_ok :: "pclient \<Rightarrow> bool" where
  "len_ok c \<longleftrightarrow> bulklen c = - 1 \<or> 0 \<le> bulklen c \<and> bulklen c \<le> max_bulk"

text \<open>The state of the parser whenever the input buffer is looked at.\<close>

definition parse_ok :: "pclient \<Rightarrow> bool" where
  "parse_ok c \<longleftrightarrow>
     (close_after_reply c \<longrightarrow> bulklen c = - 1) \<and>
     (\<not> close_after_reply c \<longrightarrow>
        0 \<le> multibulklen c \<and> len_ok c \<and>
        (reqtype c \<noteq> REQ_MULTIBULK \<longrightarrow> multibulklen c = 0) \<and>
        (multibulklen c = 0 \<longrightarrow> argv c = [] \<and> bulklen c = - 1 \<and>
           (reqtype c = REQ_MULTIBULK \<longrightarrow> querybuf c \<noteq> [] \<and> hd (querybuf c) = chr CHR ''*'')))"

text \<open>Between two reads, moreover, an argument of known length is incomplete.\<close>

definition waiting :: "pclient \<Rightarrow> bool" where
  "waiting c \<longleftrightarrow> parse_ok c \<and> (bulklen c = - 1 \<or> int (length (querybuf c)) < bulklen c + 2)"

lemma u32: "0 \<le> v \<Longrightarrow> v \<le> max_bulk \<Longrightarrow> uint (word_of_int (v + 2) :: 32 word) = v + 2"
  by (subst uint_word_of_int) simp

lemma strchr_bound: "strchr c xs = Some i \<Longrightarrow> i < length xs"
  by (induction xs arbitrary: i) (auto split: if_splits)

lemma setProtocolError_close [simp]: "close_after_reply (setProtocolError c pos)"
  by (simp add: setProtocolError_def)

lemma read_bulklen_cases:
  assumes "pos \<le> length (querybuf c)" "len_ok c"
  shows "case read_bulklen c pos of
      Wait c' \<Rightarrow> (c' = c \<and> bulklen c = - 1) \<or> (close_after_reply c' \<and> bulklen c' = - 1 \<and> querybuf c' = querybuf c \<and> blocked c' = blocked c)
    | Fail c' \<Rightarrow> close_after_reply c' \<and> bulklen c' = - 1 \<and> blocked c' = blocked c
    | Ready c' pos' \<Rightarrow> 0 \<le> bulklen c' \<and> bulklen c' \<le> max_bulk \<and> pos' \<le> length (querybuf c') \<and>
        length (querybuf c') - pos' \<le> length (querybuf c) - pos \<and>
        multibulklen c' = multibulklen c \<and> reqtype c' = reqtype c \<and> blocked c' = blocked c \<and>
        close_after_reply c' = close_after_reply c"
  using assms strchr_bound [of CR "drop pos (querybuf c)"]
  by (auto simp: read_bulklen_def len_ok_def Let_def setProtocolError_def addReplyError_def split: option.split)

lemma take_arg_cases:
  assumes "take_arg c pos = (c', pos')" "pos \<le> length (querybuf c)" "0 \<le> bulklen c"
    "bulklen c + 2 \<le> int (length (querybuf c) - pos)"
  shows "bulklen c' = - 1 \<and> multibulklen c' = multibulklen c - 1 \<and> pos' \<le> length (querybuf c') \<and>
    length (querybuf c') - pos' < length (querybuf c) - pos \<and> reqtype c' = reqtype c \<and> blocked c' = blocked c \<and>
    close_after_reply c' = close_after_reply c"
  using assms by (auto simp: take_arg_def Let_def nat_add_distrib split: if_splits)

lemma bulk_loop_total:
  "bulk_loop n c pos = (ok, c', pos') \<Longrightarrow> pos \<le> length (querybuf c) \<Longrightarrow> len_ok c \<Longrightarrow> multibulklen c = int n \<Longrightarrow>
   n = 0 \<longrightarrow> bulklen c = - 1 \<Longrightarrow> \<not> close_after_reply c \<Longrightarrow>
   blocked c' = blocked c \<and>
   (if ok then
      pos' \<le> length (querybuf c') \<and> length (querybuf c') - pos' \<le> length (querybuf c) - pos \<and>
      (close_after_reply c' \<and> bulklen c' = - 1 \<or>
        \<not> close_after_reply c' \<and> 0 \<le> multibulklen c' \<and> len_ok c' \<and> reqtype c' = reqtype c \<and> (multibulklen c' = 0 \<longrightarrow> bulklen c' = - 1) \<and>
        (bulklen c' = - 1 \<or> int (length (querybuf c') - pos') < bulklen c' + 2)) \<and>
      (n \<noteq> 0 \<longrightarrow> multibulklen c' = 0 \<longrightarrow> length (querybuf c') - pos' < length (querybuf c) - pos)
    else close_after_reply c' \<and> bulklen c' = - 1)"
proof (induction n c pos rule: bulk_loop.induct)
  case (2 n c pos)
  note h = read_bulklen_cases [OF 2(3,4)]
  show ?case
  proof (cases "read_bulklen c pos")
    case (Wait x)
    have "multibulklen x \<noteq> 0" using Wait 2(5) by (auto simp: read_bulklen_def Let_def setProtocolError_def addReplyError_def split: option.splits if_splits)
    then show ?thesis using Wait 2(2-7) h by auto
  next
    case (Fail x)
    then show ?thesis using 2(2) h by auto
  next
    case (Ready x p)
    have r: "0 \<le> bulklen x" "bulklen x \<le> max_bulk" "p \<le> length (querybuf x)"
      "length (querybuf x) - p \<le> length (querybuf c) - pos" "multibulklen x = multibulklen c" "reqtype x = reqtype c" "blocked x = blocked c"
      "close_after_reply x = close_after_reply c"
      using h Ready by auto
    show ?thesis
    proof (cases "int (length (querybuf x) - p) < bulklen x + 2")
      case True
      then have "ok = True \<and> c' = x \<and> pos' = p" using Ready 2(2) u32 [OF r(1,2)] by simp
      then show ?thesis using True r 2(5,7) by (auto simp: len_ok_def)
    next
      case False
      obtain y q where t: "take_arg x p = (y, q)" by force
      have y: "bulklen y = - 1" "multibulklen y = multibulklen x - 1" "q \<le> length (querybuf y)"
        "length (querybuf y) - q < length (querybuf x) - p" "reqtype y = reqtype x" "blocked y = blocked x"
        "close_after_reply y = close_after_reply x"
        using take_arg_cases [OF t r(3,1)] False by auto
      have "bulk_loop n y q = (ok, c', pos')" using 2(2) Ready False t u32 [OF r(1,2)] by simp
      from 2(1) [OF Ready _ t [symmetric] this y(3)] False u32 [OF r(1,2)] y r 2(5,7)
      show ?thesis by (auto simp: len_ok_def split: if_splits)
    qed
  qed
qed (auto simp: len_ok_def)

text \<open>What one call of either request parser leaves: progress, or a state that waits for more bytes.\<close>

definition parsed :: "pclient \<Rightarrow> bool \<Rightarrow> pclient \<Rightarrow> bool" where
  "parsed c ok c' \<longleftrightarrow> blocked c' = blocked c \<and> (if ok then length (querybuf c') < length (querybuf c) \<and> bulklen c' = - 1 else waiting c')"

lemma parsed_simps [simp]:
  "parsed c False c' \<longleftrightarrow> blocked c' = blocked c \<and> waiting c'"
  "parsed c True c' \<longleftrightarrow> blocked c' = blocked c \<and> length (querybuf c') < length (querybuf c) \<and> bulklen c' = - 1"
  by (simp_all add: parsed_def)

lemma read_arguments_total:
  assumes "0 < multibulklen c" "len_ok c" "pos \<le> length (querybuf c)" "reqtype c = REQ_MULTIBULK" "\<not> close_after_reply c"
  shows "\<exists>ok c'. read_arguments c pos = Some (ok, c') \<and> parsed c ok c'"
proof -
  obtain ok c' pos' where b: "bulk_loop (nat (multibulklen c)) c pos = (ok, c', pos')" by (metis prod_cases3)
  have "multibulklen c = int (nat (multibulklen c))" "nat (multibulklen c) = 0 \<longrightarrow> bulklen c = - 1" using assms(1) by auto
  from bulk_loop_total [OF b assms(3,2) this assms(5)] show ?thesis using assms(1,4) b
    by (auto simp: read_arguments_def parsed_def waiting_def parse_ok_def len_ok_def split: if_splits)
qed

lemma setProtocolError_waiting [simp]: "bulklen c = - 1 \<Longrightarrow> waiting (setProtocolError (addReplyError c e) pos)"
  by (simp add: waiting_def parse_ok_def setProtocolError_def addReplyError_def)

lemma error_blocked [simp]: "blocked (setProtocolError c pos) = blocked c" "blocked (addReplyError c e) = blocked c"
  by (simp_all add: setProtocolError_def addReplyError_def)

lemma processMultibulk_total:
  assumes ok: "parse_ok c" "\<not> close_after_reply c" "reqtype c = REQ_MULTIBULK"
  shows "\<exists>ok c'. processMultibulkBuffer c = Some (ok, c') \<and> parsed c ok c'"
proof (cases "multibulklen c = 0")
  case False
  then show ?thesis using ok read_arguments_total [of c 0] by (auto simp: processMultibulkBuffer_def parse_ok_def)
next
  case True
  then have m: "argv c = []" "bulklen c = - 1" "querybuf c \<noteq> []" "querybuf c ! 0 = chr CHR ''*''" "waiting c"
    using ok by (auto simp: parse_ok_def hd_conv_nth waiting_def)
  show ?thesis
  proof (cases "strchr CR (querybuf c)")
    case None
    then show ?thesis using True m by (auto simp: processMultibulkBuffer_def parsed_def)
  next
    case (Some nl)
    have p: "parsed (c\<lparr>multibulklen := ll\<rparr>) = parsed c" for ll by (simp add: parsed_def fun_eq_iff)
    have rd: "\<exists>ok c'. read_arguments (c\<lparr>multibulklen := ll\<rparr>) (nl + 2) = Some (ok, c') \<and> parsed c ok c'"
      if "0 < ll" "\<not> int nl > int (length (querybuf c)) - 2" for ll
      using read_arguments_total [of "c\<lparr>multibulklen := ll\<rparr>" "nl + 2"] that m(2) ok(2,3) unfolding p by (simp add: len_ok_def)
    show ?thesis
    proof (cases "int nl > int (length (querybuf c)) - 2")
      case long: True
      then show ?thesis using Some True m by (auto simp: processMultibulkBuffer_def parsed_def)
    next
      case False
      then show ?thesis using Some True m rd
        by (auto simp: processMultibulkBuffer_def Let_def split: option.split)
    qed
  qed
qed

lemma sdssplitlen_total: "sep \<noteq> [] \<Longrightarrow> \<exists>ts. sdssplitlen junk s sep = Some ts"
  by (cases sep) (auto simp: sdssplitlen_def split: prod.split)

lemma strstr_bound: "strstr_crlf xs = Some i \<Longrightarrow> Suc i < length xs"
  by (induction xs arbitrary: i rule: strstr_crlf.induct) (auto split: if_splits)

lemma processInline_total:
  assumes "parse_ok c" "\<not> close_after_reply c" "reqtype c = REQ_INLINE"
  shows "\<exists>ok c'. processInlineBuffer c = Some (ok, c') \<and> parsed c ok c'"
proof (cases "strstr_crlf (querybuf c)")
  case None
  have "bulklen c = - 1" "waiting c" using assms by (simp_all add: parse_ok_def waiting_def)
  then show ?thesis using None by (auto simp: processInlineBuffer_def)
next
  case (Some n)
  obtain ts where "sdssplitlen (\<lambda>_. 0) (take n (querybuf c)) [chr CHR '' ''] = Some ts" using sdssplitlen_total by blast
  then show ?thesis using Some strstr_bound [OF Some]
    by (intro exI [of _ True]) (use assms in \<open>simp add: processInlineBuffer_def parse_ok_def\<close>)
qed

lemma reset_ok: "parse_ok (resetClient c)"
  by (simp add: parse_ok_def resetClient_def len_ok_def)

lemma after_command_ok: "bulklen c = - 1 \<Longrightarrow> parse_ok (after_command oc c)" "querybuf (after_command oc c) = querybuf c"
  "blocked (after_command oc c) \<Longrightarrow> \<not> blocked c \<Longrightarrow> bulklen (after_command oc c) = - 1"
  by (cases oc; auto simp: after_command_def parse_ok_def resetClient_def len_ok_def)+

lemma processInputBuffer_total:
  "parse_ok c \<Longrightarrow> length (querybuf c) < fuel \<Longrightarrow> blocked c \<longrightarrow> bulklen c = - 1 \<Longrightarrow>
   \<exists>c' s'. processInputBuffer processCommand fuel c s = Some (c', s') \<and> waiting c' \<and> (blocked c' \<longrightarrow> bulklen c' = - 1)"
proof (induction fuel arbitrary: c s)
  case (Suc fuel)
  show ?case
  proof (cases "querybuf c = [] \<or> blocked c \<or> close_after_reply c")
    case True
    then show ?thesis using Suc.prems by (auto simp: waiting_def parse_ok_def len_ok_def)
  next
    case False
    define c1 where "c1 = (if reqtype c = REQ_NONE
      then c\<lparr>reqtype := (if querybuf c ! 0 = chr CHR ''*'' then REQ_MULTIBULK else REQ_INLINE)\<rparr> else c)"
    have c1: "querybuf c1 = querybuf c" "\<not> blocked c1" "\<not> close_after_reply c1" "reqtype c1 = REQ_INLINE \<or> reqtype c1 = REQ_MULTIBULK"
      using False by (auto simp: c1_def intro: reqtype.exhaust [of "reqtype c"])
    have "parse_ok c1" using Suc.prems(1) False by (auto simp: c1_def parse_ok_def len_ok_def hd_conv_nth)
    with c1 processMultibulk_total [of c1] processInline_total [of c1] obtain ok c2 where
      c2: "(if reqtype c1 = REQ_INLINE then processInlineBuffer c1 else processMultibulkBuffer c1) = Some (ok, c2)" "parsed c1 ok c2"
      by auto
    have step: "processInputBuffer processCommand (Suc fuel) c s =
        (if \<not> ok then Some (c2, s)
         else if argv c2 = [] then processInputBuffer processCommand fuel (resetClient c2) s
         else (case processCommand (argv c2) s of (s, oc) \<Rightarrow> processInputBuffer processCommand fuel (after_command oc c2) s))"
      using False c2(1) by (simp add: c1_def [symmetric] Let_def)
    show ?thesis
    proof (cases ok)
      case False
      then show ?thesis using c2(2) c1(2) step by (simp add: parsed_def)
    next
      case True
      then have q: "length (querybuf c2) < fuel" "\<not> blocked c2" "bulklen c2 = - 1" using c2(2) c1(1,2) Suc.prems(2) by (auto simp: parsed_def)
      have "\<exists>c' s'. processInputBuffer processCommand fuel (resetClient c2) s = Some (c', s') \<and> waiting c' \<and> (blocked c' \<longrightarrow> bulklen c' = - 1)"
        by (rule Suc.IH) (use q reset_ok in \<open>auto simp: resetClient_def\<close>)
      moreover have "\<exists>c' s'. processInputBuffer processCommand fuel (after_command oc c2) s1 = Some (c', s') \<and> waiting c' \<and> (blocked c' \<longrightarrow> bulklen c' = - 1)"
        for oc s1 by (rule Suc.IH) (use q after_command_ok [where c = c2 and oc = oc] in auto)
      ultimately show ?thesis using True step by (auto split: prod.split)
    qed
  qed
qed simp

definition idle :: "pclient \<Rightarrow> bool" where
  "idle c \<longleftrightarrow> waiting c \<and> (blocked c \<longrightarrow> bulklen c = - 1)"

lemma idle_readlen: "idle c \<Longrightarrow> 0 < readlen c"
  using u32 [of "bulklen c"]
  by (auto simp: idle_def waiting_def parse_ok_def len_ok_def readlen_def REDIS_IOBUF_LEN_def Let_def)

lemma idle_append: "idle c \<Longrightarrow> parse_ok (c\<lparr>querybuf := querybuf c @ data\<rparr>)"
  by (auto simp: idle_def waiting_def parse_ok_def len_ok_def)

lemma readQuery_total:
  assumes "idle c"
  shows "\<exists>r. readQueryFromClient processCommand mx data c s = Some r \<and> (\<forall>c' s'. r = Alive c' s' \<longrightarrow> idle c')"
proof -
  let ?c = "c\<lparr>querybuf := querybuf c @ data\<rparr>"
  have "\<exists>c' s'. processInputBuffer processCommand (Suc (length (querybuf ?c))) ?c s = Some (c', s') \<and> waiting c' \<and> (blocked c' \<longrightarrow> bulklen c' = - 1)"
    by (rule processInputBuffer_total) (use assms idle_append in \<open>auto simp: idle_def\<close>)
  then show ?thesis by (auto simp: readQueryFromClient_def Let_def idle_def)
qed

lemma serve_progress:
  "idle c \<Longrightarrow> \<exists>rest r. serve processCommand mx ns stream c s = Some (rest, r) \<and> length rest \<le> length stream \<and>
     (\<forall>c' s'. r = Alive c' s' \<longrightarrow> idle c' \<and> length rest \<le> length stream - length ns)"
proof (induction ns arbitrary: stream c s)
  case (Cons n ns)
  show ?case
  proof (cases "stream = []")
    case False
    let ?n = "min (Suc n) (nat (readlen c))"
    have n: "0 < ?n" using idle_readlen [OF Cons.prems] by simp
    from readQuery_total [OF Cons.prems, of processCommand mx "take ?n stream" s] obtain r where
      r: "readQueryFromClient processCommand mx (take ?n stream) c s = Some r" "\<forall>c' s'. r = Alive c' s' \<longrightarrow> idle c'" by blast
    show ?thesis
    proof (cases r)
      case (Freed s')
      then show ?thesis using False r by (simp add: Let_def)
    next
      case (Alive c' s')
      with r(2) have "idle c'" by simp
      from Cons.IH [OF this, of "drop ?n stream" s'] show ?thesis using False r(1) Alive n by (force simp: Let_def)
    qed
  qed (use Cons.prems in auto)
qed auto

text \<open>
  C13: Whatever bytes a client sends, in whatever pieces they arrive and whatever the commands do, no assertion of
  the parser fails, its loops end, every read makes progress, and the parser is left in a consistent state.
\<close>

theorem parser_total:
  "\<exists>rest r. serve processCommand mx ns stream createClient s = Some (rest, r) \<and>
     (\<forall>c' s'. r = Alive c' s' \<longrightarrow> idle c' \<and> length rest \<le> length stream - length ns)"
proof -
  have "idle createClient" by (simp add: idle_def waiting_def parse_ok_def createClient_def len_ok_def)
  from serve_progress [OF this, of processCommand mx ns stream s] show ?thesis by blast
qed

theorem parser_total_witness:
  "\<exists>rest r. serve (\<lambda>r n. (n + length r, Done)) (2 ^ 30) [4, 9] [42, 0, 13, 10, 36] createClient 0 = Some (rest, r) \<and>
     (\<forall>c' s'. r = Alive c' s' \<longrightarrow> idle c' \<and> length rest \<le> 3)"
  using parser_total [of "\<lambda>r n. (n + length r, Done)" "2 ^ 30" "[4, 9]" "[42, 0, 13, 10, 36]" 0] by (simp del: serve.simps add: numeral_3_eq_3)

end
