(* ===== verification/Hiredis.thy ===== *)
theory Hiredis
  imports Networking
begin

text \<open>
  \<^verbatim>\<open>src/hiredis/hiredis.cc\<close>: how the client library formats a command, and that the server's request parser
  (theory Networking) recovers from the stream exactly the commands that were sent, however the network cuts
  it. \<^verbatim>\<open>int\<close> has 32 bits; \<open>None\<close> is the failed assertion at the end of the formatting.
\<close>

definition cast_int :: "int \<Rightarrow> int" where
  "cast_int v = sint (word_of_int v :: 32 word)"

text \<open>The loop of \<^verbatim>\<open>intlen\<close> on a number that is not negative.\<close>

function intlen_loop :: "nat \<Rightarrow> nat" where
  "intlen_loop i = (if i div 10 = 0 then 1 else 1 + intlen_loop (i div 10))"
  by pat_completeness auto
termination
  by (relation "measure id") auto

declare intlen_loop.simps [simp del]

definition intlen :: "int \<Rightarrow> nat" where
  "intlen i = (if i < 0 then 1 + intlen_loop (nat (- i)) else intlen_loop (nat i))"

definition bulk_size :: "nat \<Rightarrow> nat" where
  "bulk_size len = 1 + intlen (cast_int (int len)) + 2 + len + 2"

fun totlen_loop :: "bytes list \<Rightarrow> int \<Rightarrow> int" where
  "totlen_loop [] totlen = totlen"
| "totlen_loop (a # as) totlen = totlen_loop as (cast_int (totlen + int (bulk_size (length a))))"

fun format_loop :: "bytes list \<Rightarrow> bytes \<Rightarrow> bytes" where
  "format_loop [] cmd = cmd"
| "format_loop (a # as) cmd = format_loop as (cmd @ [chr CHR ''$''] @ dec (length a) @ [CR, LF] @ a @ [CR, LF])"

definition redisFormatCommandArgv :: "bytes list \<Rightarrow> bytes option" where
  "redisFormatCommandArgv args =
     (let totlen = totlen_loop args (1 + int (intlen (int (length args))) + 2);
          cmd = format_loop args ([chr CHR ''*''] @ dec (length args) @ [CR, LF])
      in if int (length cmd) = totlen then Some cmd else None)"

section \<open>The format\<close>

definition enc_arg :: "bytes \<Rightarrow> bytes" where
  "enc_arg a = chr CHR ''$'' # dec (length a) @ CR # LF # a @ [CR, LF]"

definition enc :: "bytes list \<Rightarrow> bytes" where
  "enc r = chr CHR ''*'' # dec (length r) @ CR # LF # concat (map enc_arg r)"

lemma intlen_dec: "intlen (int n) = length (dec n)"
proof -
  have "intlen_loop n = length (dec n)"
  proof (induction n rule: intlen_loop.induct)
    case (1 i)
    then show ?case by (cases "i < 10") (simp_all add: intlen_loop.simps [of i] dec.simps [of i] div_eq_0_iff)
  qed
  then show ?thesis by (simp add: intlen_def)
qed

lemma cast_int_id: "0 \<le> v \<Longrightarrow> v < 2 ^ 31 \<Longrightarrow> cast_int v = v"
  by (simp add: cast_int_def signed_of_int signed_take_bit_int_eq_self)

lemma format_loop_enc: "format_loop as cmd = cmd @ concat (map enc_arg as)"
  by (induction as arbitrary: cmd) (simp_all add: enc_arg_def)

lemma totlen_loop_enc:
  "0 \<le> t \<Longrightarrow> t + int (length (concat (map enc_arg as))) < 2 ^ 31 \<Longrightarrow>
   totlen_loop as t = t + int (length (concat (map enc_arg as)))"
proof (induction as arbitrary: t)
  case (Cons a as)
  have "int (length a) < 2 ^ 31" using Cons.prems by (simp add: enc_arg_def)
  then have "bulk_size (length a) = length (enc_arg a)"
    by (simp add: bulk_size_def cast_int_id intlen_dec enc_arg_def)
  moreover have "cast_int (t + int (length (enc_arg a))) = t + int (length (enc_arg a))"
    using Cons.prems by (intro cast_int_id) auto
  ultimately show ?case using Cons.IH [of "t + int (length (enc_arg a))"] Cons.prems by simp
qed simp

lemma format_enc:
  assumes "length (enc r) < 2 ^ 31"
  shows "redisFormatCommandArgv r = Some (enc r)"
proof -
  have l: "length (enc r) = 1 + length (dec (length r)) + 2 + length (concat (map enc_arg r))" by (simp add: enc_def)
  have "totlen_loop r (1 + int (intlen (int (length r))) + 2) = int (length (enc r))"
    using totlen_loop_enc [of "1 + int (intlen (int (length r))) + 2" r] assms l by (simp add: intlen_dec)
  then show ?thesis by (simp add: redisFormatCommandArgv_def format_loop_enc enc_def)
qed

section \<open>Scanning a header\<close>

lemma strchr_prefix:
  "\<forall>x \<in> set p. x \<noteq> CR \<and> x \<noteq> 0 \<Longrightarrow> rest @ fut = p @ CR # z \<Longrightarrow>
   strchr CR rest = (if length p < length rest then Some (length p) else None)"
proof (induction rest arbitrary: p)
  case (Cons x rest)
  then show ?case by (cases p) auto
qed simp

lemma dec_not_cr: "x \<in> set (dec n) \<Longrightarrow> x \<noteq> CR \<and> x \<noteq> 0"
  using dec_digits [of n] by (auto simp: list_all_iff isdigit_def)

lemma string2ll_dec: "int n < 2 ^ 63 \<Longrightarrow> string2ll (dec n) = Some (int n)"
  using string2ll_repr [of "int n"] by (simp add: ll_repr_def is_ll_def)

lemma header_scan:
  assumes "rest @ fut = h # dec n @ CR # z" "h \<noteq> CR" "h \<noteq> 0"
  shows "strchr CR rest = (if length (dec n) + 1 < length rest then Some (length (dec n) + 1) else None)"
  using strchr_prefix [of "h # dec n" rest fut z] assms dec_not_cr by auto

text \<open>A prefix of a stream that begins with a header that is complete.\<close>

lemma header_split:
  assumes "rest @ fut = h # dec n @ CR # LF # z" "length (dec n) + 3 \<le> length rest"
  shows "rest ! 0 = h" "take (length (dec n)) (drop 1 rest) = dec n" "drop (length (dec n) + 3) rest @ fut = z"
proof -
  have "take (length (dec n) + 3) rest = h # dec n @ [CR, LF]"
    using arg_cong [OF assms(1), of "take (length (dec n) + 3)"] assms(2) by (simp add: numeral_3_eq_3)
  then obtain y where y: "rest = h # dec n @ [CR, LF] @ y"
    using append_take_drop_id [of "length (dec n) + 3" rest] by (metis append_Cons append_assoc)
  then show "rest ! 0 = h" "take (length (dec n)) (drop 1 rest) = dec n" by simp_all
  show "drop (length (dec n) + 3) rest @ fut = z" using assms(1) y by (simp add: numeral_3_eq_3)
qed

section \<open>The arguments of a request\<close>

text \<open>What is still to be read of the current request, after the query buffer position.\<close>

definition body :: "pclient \<Rightarrow> bytes list \<Rightarrow> bytes" where
  "body c cur = (if bulklen c = - 1 then concat (map enc_arg cur)
     else hd cur @ CR # LF # concat (map enc_arg (tl cur)))"

definition len_match :: "pclient \<Rightarrow> bytes list \<Rightarrow> bool" where
  "len_match c cur \<longleftrightarrow> bulklen c = - 1 \<or> (cur \<noteq> [] \<and> bulklen c = int (length (hd cur)))"

text \<open>The buffer is small, or it holds no more than a big argument.\<close>

definition sized :: "pclient \<Rightarrow> nat \<Rightarrow> bool" where
  "sized c pos \<longleftrightarrow> length (querybuf c) \<le> REDIS_INLINE_MAX_SIZE \<or>
     pos = 0 \<and> REDIS_MBULK_BIG_ARG \<le> bulklen c \<and> int (length (querybuf c)) \<le> bulklen c + 2"

definition arg_ok :: "bytes \<Rightarrow> bool" where
  "arg_ok a \<longleftrightarrow> int (length a) \<le> max_bulk"

lemma dec_len_arg: "arg_ok a \<Longrightarrow> length (dec (length a)) \<le> 10"
  by (rule dec_length) (simp_all add: arg_ok_def)

definition same :: "pclient \<Rightarrow> pclient \<Rightarrow> bool" where
  "same c c' \<longleftrightarrow> reqtype c' = reqtype c \<and> blocked c' = blocked c \<and> close_after_reply c' = close_after_reply c"

lemma read_bulklen_stream:
  assumes l: "bulklen c = - 1" and st: "drop pos (querybuf c) @ fut = enc_arg a @ tail" and p: "pos \<le> length (querybuf c)"
    and sz: "length (querybuf c) \<le> REDIS_INLINE_MAX_SIZE" and a: "arg_ok a"
  shows "(read_bulklen c pos = Wait c \<and> length (drop pos (querybuf c)) < 13 \<and> fut \<noteq> []) \<or>
    (\<exists>c' pos'. read_bulklen c pos = Ready c' pos' \<and> bulklen c' = int (length a) \<and> pos' \<le> length (querybuf c') \<and>
      drop pos' (querybuf c') @ fut = a @ CR # LF # tail \<and> length (querybuf c') \<le> REDIS_INLINE_MAX_SIZE \<and>
      argv c' = argv c \<and> multibulklen c' = multibulklen c \<and> same c c')"
proof -
  let ?r = "drop pos (querybuf c)" and ?n = "length (dec (length a))"
  have st': "?r @ fut = chr CHR ''$'' # dec (length a) @ CR # LF # a @ CR # LF # tail" using st by (simp add: enc_arg_def)
  have scan: "strchr CR ?r = (if ?n + 1 < length ?r then Some (?n + 1) else None)"
    by (rule header_scan [OF st']) simp_all
  have len: "length ?r + length fut = ?n + length a + length tail + 5" using arg_cong [OF st', of length] by simp
  show ?thesis
  proof (cases "?n + 3 \<le> length ?r")
    case False
    then have "read_bulklen c pos = Wait c" using l sz scan by (auto simp: read_bulklen_def)
    moreover have "fut \<noteq> []" using False len by auto
    ultimately show ?thesis using False dec_len_arg [OF a] by auto
  next
    case True
    note h = header_split [OF st' True]
    have nth: "querybuf c ! pos = chr CHR ''$''" using h(1) True by simp
    have tk: "take ?n (drop (pos + 1) (querybuf c)) = dec (length a)" using h(2) by (simp add: add.commute)
    have s2: "string2ll (dec (length a)) = Some (int (length a))" using a by (intro string2ll_dec) (simp add: arg_ok_def)
    have dr: "drop (pos + (?n + 1) + 2) (querybuf c) @ fut = a @ CR # LF # tail" using h(3) by (simp add: numeral_3_eq_3 add.commute add.left_commute)
    show ?thesis using l scan True nth tk s2 dr sz a p
      by (auto simp: read_bulklen_def Let_def arg_ok_def same_def)
  qed
qed

lemma take_arg_stream:
  assumes "bulklen c = int (length a)" "drop pos (querybuf c) @ fut = a @ CR # LF # tail" "pos \<le> length (querybuf c)"
    "length a + 2 \<le> length (querybuf c) - pos" "sized c pos" "take_arg c pos = (c', pos')"
  shows "bulklen c' = - 1 \<and> multibulklen c' = multibulklen c - 1 \<and> argv c' = argv c @ [a] \<and> same c c' \<and>
    pos' \<le> length (querybuf c') \<and> drop pos' (querybuf c') @ fut = tail \<and> length (querybuf c') \<le> REDIS_INLINE_MAX_SIZE"
proof -
  have tk: "take (length a) (drop pos (querybuf c)) = a"
    using arg_cong [OF assms(2), of "take (length a)"] assms(4) by simp
  have dr: "drop (length a + 2) (drop pos (querybuf c)) @ fut = tail"
    using arg_cong [OF assms(2), of "drop (length a + 2)"] assms(4) by simp
  show ?thesis
  proof (cases "pos = 0 \<and> bulklen c \<ge> REDIS_MBULK_BIG_ARG \<and> int (length (querybuf c)) = bulklen c + 2")
    case True
    then have "c' = c\<lparr>argv := argv c @ [a], querybuf := [], bulklen := - 1, multibulklen := multibulklen c - 1\<rparr>" "pos' = 0"
      using assms(1,6) tk by (auto simp: take_arg_def)
    then show ?thesis using dr True assms(1) by (simp add: same_def)
  next
    case False
    then have "c' = c\<lparr>argv := argv c @ [a], bulklen := - 1, multibulklen := multibulklen c - 1\<rparr>" "pos' = pos + (length a + 2)"
      using assms(1,6) tk by (auto simp: take_arg_def Let_def)
    moreover have "length (querybuf c) \<le> REDIS_INLINE_MAX_SIZE" using False assms(1,4,5) by (auto simp: sized_def)
    ultimately show ?thesis using dr assms(4) by (simp add: same_def add.commute)
  qed
qed

text \<open>The state in which the parser waits for the rest of a request; \<open>rest\<close> is what the buffer still holds.\<close>

definition midway :: "pclient \<Rightarrow> bytes \<Rightarrow> bytes \<Rightarrow> bytes list \<Rightarrow> bytes \<Rightarrow> bool" where
  "midway c rest fut cur tail \<longleftrightarrow> cur \<noteq> [] \<and> multibulklen c = int (length cur) \<and> len_match c cur \<and>
     rest @ fut = body c cur @ tail \<and> fut \<noteq> [] \<and>
     (if bulklen c = - 1 then length rest < 13 else int (length rest) < bulklen c + 2)"

lemma bulk_loop_stream:
  "bulk_loop n c pos = (ok, c', pos') \<Longrightarrow> n = length cur \<Longrightarrow> multibulklen c = int n \<Longrightarrow> pos \<le> length (querybuf c) \<Longrightarrow>
   len_match c cur \<Longrightarrow> drop pos (querybuf c) @ fut = body c cur @ tail \<Longrightarrow> sized c pos \<Longrightarrow> \<forall>a \<in> set cur. arg_ok a \<Longrightarrow>
   ok \<and> same c c' \<and> pos' \<le> length (querybuf c') \<and>
   (multibulklen c' = 0 \<and> argv c' = argv c @ cur \<and> drop pos' (querybuf c') @ fut = tail \<and>
      (n \<noteq> 0 \<longrightarrow> length (querybuf c') \<le> REDIS_INLINE_MAX_SIZE) \<or>
    (\<exists>don cur'. cur = don @ cur' \<and> argv c' = argv c @ don \<and> midway c' (drop pos' (querybuf c')) fut cur' tail))"
proof (induction n arbitrary: c pos cur)
  case 0
  then show ?case by (simp add: same_def body_def len_match_def)
next
  case (Suc n)
  then obtain a as where cur: "cur = a # as" by (cases cur) auto
  have a: "arg_ok a" using Suc.prems(8) cur by simp
  have ready: ?case if r: "read_bulklen c pos = Ready x p" "bulklen x = int (length a)" "p \<le> length (querybuf x)"
      "drop p (querybuf x) @ fut = a @ CR # LF # concat (map enc_arg as) @ tail" "sized x p" "argv x = argv c"
      "multibulklen x = multibulklen c" "same c x" for x p
  proof -
    have u: "uint (word_of_int (bulklen x + 2) :: 32 word) = bulklen x + 2"
      using a r(2) by (intro u32) (auto simp: arg_ok_def)
    show ?thesis
    proof (cases "int (length (querybuf x) - p) < bulklen x + 2")
      case True
      then have "ok = True" "c' = x" "pos' = p" using r(1) Suc.prems(1) u True by auto
      moreover have "length (drop p (querybuf x)) + length fut \<ge> length a + 2" using arg_cong [OF r(4), of length] by simp
      then have "fut \<noteq> []" using True r(2) by auto
      ultimately show ?thesis using True r Suc.prems(2,3) cur
        by (auto simp: midway_def len_match_def body_def intro!: exI [of _ "[] :: bytes list"])
    next
      case False
      obtain y q where t: "take_arg x p = (y, q)" by force
      have "length a + 2 \<le> length (querybuf x) - p" using False r(2) by linarith
      note y = take_arg_stream [OF r(2,4,3) this r(5) t]
      have b: "bulk_loop n y q = (ok, c', pos')" using Suc.prems(1) r(1) False t u by simp
      have "ok \<and> same y c' \<and> pos' \<le> length (querybuf c') \<and>
         (multibulklen c' = 0 \<and> argv c' = argv y @ as \<and> drop pos' (querybuf c') @ fut = tail \<and>
            (n \<noteq> 0 \<longrightarrow> length (querybuf c') \<le> REDIS_INLINE_MAX_SIZE) \<or>
          (\<exists>don cur'. as = don @ cur' \<and> argv c' = argv y @ don \<and> midway c' (drop pos' (querybuf c')) fut cur' tail))"
        by (rule Suc.IH [OF b]) (use y r Suc.prems cur in \<open>auto simp: len_match_def body_def sized_def\<close>)
      moreover have "n = 0 \<Longrightarrow> length (querybuf c') \<le> REDIS_INLINE_MAX_SIZE" using b y by simp
      ultimately show ?thesis using y r cur by (auto simp: same_def intro: exI [of _ "a # _"])
    qed
  qed
  show ?case
  proof (cases "bulklen c = - 1")
    case False
    then show ?thesis using Suc.prems cur
      by (intro ready [of c pos]) (auto simp: read_bulklen_def len_match_def body_def same_def)
  next
    case True
    have "length (querybuf c) \<le> REDIS_INLINE_MAX_SIZE" using Suc.prems(7) True by (auto simp: sized_def REDIS_MBULK_BIG_ARG_def)
    moreover have st: "drop pos (querybuf c) @ fut = enc_arg a @ concat (map enc_arg as) @ tail"
      using Suc.prems(6) True cur by (simp add: body_def)
    ultimately consider "read_bulklen c pos = Wait c" "length (drop pos (querybuf c)) < 13" "fut \<noteq> []"
      | x p where "read_bulklen c pos = Ready x p" "bulklen x = int (length a)" "p \<le> length (querybuf x)"
        "drop p (querybuf x) @ fut = a @ CR # LF # concat (map enc_arg as) @ tail" "sized x p" "argv x = argv c"
        "multibulklen x = multibulklen c" "same c x"
      using read_bulklen_stream [OF True st Suc.prems(4) _ a] by (auto simp: sized_def)
    then show ?thesis
    proof cases
      case 1
      then have "ok = True" "c' = c" "pos' = pos" using Suc.prems(1) by auto
      then show ?thesis using 1 Suc.prems cur True
        by (auto simp: midway_def same_def intro!: exI [of _ "[] :: bytes list"])
    next
      case 2
      then show ?thesis by (rule ready)
    qed
  qed
qed

section \<open>The stream of requests\<close>

definition req_ok :: "bytes list \<Rightarrow> bool" where
  "req_ok r \<longleftrightarrow> r \<noteq> [] \<and> length r \<le> 1024 * 1024 \<and> (\<forall>a \<in> set r. arg_ok a)"

abbreviation encs :: "bytes list list \<Rightarrow> bytes" where
  "encs todo \<equiv> concat (map enc todo)"

text \<open>The requests \<open>todo\<close> are still to be executed; \<open>fut\<close> has not been read yet.\<close>

definition between :: "pclient \<Rightarrow> bytes \<Rightarrow> bytes list list \<Rightarrow> bool" where
  "between c fut todo \<longleftrightarrow> multibulklen c = 0 \<and> argv c = [] \<and> bulklen c = - 1 \<and> reqtype c \<noteq> REQ_INLINE \<and>
     (reqtype c = REQ_MULTIBULK \<longrightarrow> querybuf c \<noteq> []) \<and> querybuf c @ fut = encs todo"

definition entry :: "pclient \<Rightarrow> bytes \<Rightarrow> bytes list list \<Rightarrow> bool" where
  "entry c fut todo \<longleftrightarrow> \<not> blocked c \<and> \<not> close_after_reply c \<and>
     (between c fut todo \<and> length (querybuf c) \<le> REDIS_INLINE_MAX_SIZE \<or>
      (\<exists>cur todo'. todo = (argv c @ cur) # todo' \<and> cur \<noteq> [] \<and> reqtype c = REQ_MULTIBULK \<and> multibulklen c = int (length cur) \<and>
         len_match c cur \<and> querybuf c @ fut = body c cur @ encs todo' \<and> sized c 0))"

definition exit_st :: "pclient \<Rightarrow> bytes \<Rightarrow> bytes list list \<Rightarrow> bool" where
  "exit_st c fut todo \<longleftrightarrow> \<not> blocked c \<and> \<not> close_after_reply c \<and> (fut = [] \<longrightarrow> todo = []) \<and>
     (between c fut todo \<and> length (querybuf c) < 13 \<or>
      (\<exists>cur todo'. todo = (argv c @ cur) # todo' \<and> reqtype c = REQ_MULTIBULK \<and> midway c (querybuf c) fut cur (encs todo')))"

lemma read_arguments_stream:
  assumes "cur \<noteq> []" "multibulklen c = int (length cur)" "pos \<le> length (querybuf c)" "len_match c cur"
    "drop pos (querybuf c) @ fut = body c cur @ encs todo" "sized c pos" "\<forall>a \<in> set cur. arg_ok a"
    "\<not> blocked c" "\<not> close_after_reply c" "reqtype c = REQ_MULTIBULK"
  shows "\<exists>ok c'. read_arguments c pos = Some (ok, c') \<and>
    (if ok then argv c' = argv c @ cur \<and> \<not> blocked c' \<and> \<not> close_after_reply c' \<and> querybuf c' @ fut = encs todo \<and>
       length (querybuf c') \<le> REDIS_INLINE_MAX_SIZE
     else exit_st c' fut ((argv c @ cur) # todo))"
proof -
  obtain b x p where b: "bulk_loop (length cur) c pos = (b, x, p)" by (metis prod_cases3)
  have r: "b \<and> same c x \<and> p \<le> length (querybuf x) \<and>
     (multibulklen x = 0 \<and> argv x = argv c @ cur \<and> drop p (querybuf x) @ fut = encs todo \<and>
        (length cur \<noteq> 0 \<longrightarrow> length (querybuf x) \<le> REDIS_INLINE_MAX_SIZE) \<or>
      (\<exists>don cur'. cur = don @ cur' \<and> argv x = argv c @ don \<and> midway x (drop p (querybuf x)) fut cur' (encs todo)))"
    by (rule bulk_loop_stream [OF b refl]) (use assms in auto)
  let ?x = "x\<lparr>querybuf := drop p (querybuf x)\<rparr>"
  have q: "(if p \<noteq> 0 then ?x else x) = ?x" by simp
  have rd: "read_arguments c pos = Some (multibulklen x = 0, ?x)"
    using assms(1,2) b r by (simp add: read_arguments_def Let_def q)
  have md: "midway ?x (drop p (querybuf x)) fut cur' t = midway x (drop p (querybuf x)) fut cur' t" for cur' t
    by (simp add: midway_def len_match_def body_def)
  show ?thesis
  proof (cases "multibulklen x = 0")
    case True
    then have "argv x = argv c @ cur" "drop p (querybuf x) @ fut = encs todo" "length (querybuf x) \<le> REDIS_INLINE_MAX_SIZE" "same c x"
      using r assms(1) by (auto simp: midway_def)
    then show ?thesis using rd True assms(8,9) by (intro exI [of _ True] exI [of _ ?x]) (simp add: same_def)
  next
    case False
    then obtain don cur' where m: "cur = don @ cur'" "argv x = argv c @ don" "midway x (drop p (querybuf x)) fut cur' (encs todo)" "same c x"
      using r by auto
    have "fut \<noteq> []" using m(3) by (simp add: midway_def)
    moreover have "\<exists>cur'' todo'. (argv c @ cur) # todo = (argv ?x @ cur'') # todo' \<and> reqtype ?x = REQ_MULTIBULK \<and>
        midway ?x (querybuf ?x) fut cur'' (encs todo')"
      using m assms(10) md by (intro exI [of _ cur'] exI [of _ todo]) (simp add: same_def)
    ultimately have "exit_st ?x fut ((argv c @ cur) # todo)" using m(4) assms(8,9) by (simp add: exit_st_def same_def)
    then show ?thesis using rd False by auto
  qed
qed

lemma multibulk_stream:
  assumes e: "entry c fut todo" "reqtype c = REQ_MULTIBULK" and ok: "\<forall>r \<in> set todo. req_ok r"
  shows "\<exists>ok c'. processMultibulkBuffer c = Some (ok, c') \<and>
    (if ok then \<exists>todo'. todo = argv c' # todo' \<and> \<not> blocked c' \<and> \<not> close_after_reply c' \<and> querybuf c' @ fut = encs todo' \<and>
       length (querybuf c') \<le> REDIS_INLINE_MAX_SIZE
     else exit_st c' fut todo)"
proof (cases "between c fut todo \<and> length (querybuf c) \<le> REDIS_INLINE_MAX_SIZE")
  case False
  with e(1) obtain cur todo' where m: "todo = (argv c @ cur) # todo'" "cur \<noteq> []" "multibulklen c = int (length cur)"
    "len_match c cur" "querybuf c @ fut = body c cur @ encs todo'" "sized c 0" "\<not> blocked c" "\<not> close_after_reply c"
    by (auto simp: entry_def)
  obtain b c' where rd: "read_arguments c 0 = Some (b, c')"
    "if b then argv c' = argv c @ cur \<and> \<not> blocked c' \<and> \<not> close_after_reply c' \<and> querybuf c' @ fut = encs todo' \<and>
       length (querybuf c') \<le> REDIS_INLINE_MAX_SIZE
     else exit_st c' fut ((argv c @ cur) # todo')"
    using read_arguments_stream [of cur c 0 fut todo'] m ok e(2) by (auto simp: req_ok_def)
  then show ?thesis using m(1-3) by (intro exI [of _ b] exI [of _ c']) (cases b; simp add: processMultibulkBuffer_def)
next
  case True
  then have b: "multibulklen c = 0" "argv c = []" "bulklen c = - 1" "querybuf c \<noteq> []" "querybuf c @ fut = encs todo"
      "length (querybuf c) \<le> REDIS_INLINE_MAX_SIZE" "between c fut todo" using e(2) by (auto simp: between_def)
  then obtain r todo' where t: "todo = r # todo'" by (cases todo) auto
  have r: "req_ok r" using ok t by simp
  let ?n = "length (dec (length r))"
  have st: "querybuf c @ fut = chr CHR ''*'' # dec (length r) @ CR # LF # concat (map enc_arg r) @ encs todo'"
    using b(5) t by (simp add: enc_def)
  have scan: "strchr CR (querybuf c) = (if ?n + 1 < length (querybuf c) then Some (?n + 1) else None)"
    by (rule header_scan [OF st]) simp_all
  show ?thesis
  proof (cases "?n + 3 \<le> length (querybuf c)")
    case False
    then have p: "processMultibulkBuffer c = Some (False, c)" using b scan by (auto simp: processMultibulkBuffer_def)
    have n: "?n \<le> 10" using r by (intro dec_length) (auto simp: req_ok_def)
    have "fut \<noteq> []" using False arg_cong [OF st, of length] by auto
    moreover have "length (querybuf c) < 13" using False n by simp
    ultimately have "exit_st c fut todo" using b(7) e(1) by (simp add: exit_st_def entry_def)
    then show ?thesis using p by auto
  next
    case True
    note h = header_split [OF st True]
    have s2: "string2ll (dec (length r)) = Some (int (length r))" using r by (intro string2ll_dec) (simp add: req_ok_def)
    let ?c = "c\<lparr>multibulklen := int (length r)\<rparr>"
    have "\<exists>ok c'. read_arguments ?c (?n + 3) = Some (ok, c') \<and>
      (if ok then argv c' = argv ?c @ r \<and> \<not> blocked c' \<and> \<not> close_after_reply c' \<and>
         querybuf c' @ fut = encs todo' \<and> length (querybuf c') \<le> REDIS_INLINE_MAX_SIZE
       else exit_st c' fut ((argv ?c @ r) # todo'))"
      by (rule read_arguments_stream)
        (use h True b r e in \<open>auto simp: req_ok_def len_match_def body_def sized_def entry_def\<close>)
    then obtain x c' where rd: "read_arguments ?c (?n + 3) = Some (x, c')"
      "if x then argv c' = argv ?c @ r \<and> \<not> blocked c' \<and> \<not> close_after_reply c' \<and>
         querybuf c' @ fut = encs todo' \<and> length (querybuf c') \<le> REDIS_INLINE_MAX_SIZE
       else exit_st c' fut ((argv ?c @ r) # todo')" by blast
    moreover have "processMultibulkBuffer c = read_arguments ?c (?n + 3)"
      using b scan True h s2 r by (simp add: processMultibulkBuffer_def Let_def req_ok_def numeral_3_eq_3)
    ultimately show ?thesis using b(2) t by (intro exI [of _ x] exI [of _ c']) (cases x; simp)
  qed
qed

text \<open>Commands that neither block nor close their client.\<close>

definition all_done :: "(bytes list \<Rightarrow> 's \<Rightarrow> 's \<times> outcome) \<Rightarrow> bytes list list \<Rightarrow> bool" where
  "all_done processCommand reqs \<longleftrightarrow> (\<forall>r \<in> set reqs. \<forall>s. snd (processCommand r s) = Done)"

definition run_reqs :: "(bytes list \<Rightarrow> 's \<Rightarrow> 's \<times> outcome) \<Rightarrow> bytes list list \<Rightarrow> 's \<Rightarrow> 's" where
  "run_reqs processCommand reqs s = fold (\<lambda>r s. fst (processCommand r s)) reqs s"

lemma between_hd:
  assumes "between c fut todo" "querybuf c \<noteq> []"
  shows "querybuf c ! 0 = chr CHR ''*''"
proof -
  have b: "querybuf c @ fut = encs todo" using assms(1) by (simp add: between_def)
  then obtain r t where "todo = r # t" using assms(2) by (cases todo) auto
  then show ?thesis using b assms(2) by (cases "querybuf c") (auto simp: enc_def)
qed

lemma entry_parse_ok:
  assumes "entry c fut todo" "\<forall>r \<in> set todo. req_ok r"
  shows "parse_ok c" "\<not> close_after_reply c"
proof -
  show "\<not> close_after_reply c" using assms(1) by (simp add: entry_def)
  show "parse_ok c"
  proof (cases "between c fut todo")
    case True
    then show ?thesis using assms(1) between_hd [OF True] by (auto simp: entry_def between_def parse_ok_def len_ok_def hd_conv_nth)
  next
    case False
    then obtain cur todo' where m: "todo = (argv c @ cur) # todo'" "cur \<noteq> []" "multibulklen c = int (length cur)" "len_match c cur"
      "reqtype c = REQ_MULTIBULK" "\<not> close_after_reply c" using assms(1) by (auto simp: entry_def)
    then have "arg_ok (hd cur)" using assms(2) by (cases cur) (auto simp: req_ok_def)
    then show ?thesis using m by (auto simp: parse_ok_def len_ok_def len_match_def arg_ok_def)
  qed
qed

lemma input_stream:
  "entry c fut todo \<Longrightarrow> length (querybuf c) < fuel \<Longrightarrow> \<forall>r \<in> set todo. req_ok r \<Longrightarrow> all_done pc todo \<Longrightarrow>
   \<exists>c' don todo'. todo = don @ todo' \<and> processInputBuffer pc fuel c s = Some (c', run_reqs pc don s) \<and> exit_st c' fut todo'"
proof (induction fuel arbitrary: c s todo)
  case (Suc fuel)
  show ?case
  proof (cases "querybuf c = []")
    case True
    then have "exit_st c fut todo" using Suc.prems(1)
      by (auto simp: entry_def exit_st_def between_def midway_def body_def len_match_def enc_def enc_arg_def)
    then show ?thesis using True by (intro exI [of _ c] exI [of _ "[]"] exI [of _ todo]) (simp add: run_reqs_def)
  next
    case False
    define c1 where "c1 = (if reqtype c = REQ_NONE
      then c\<lparr>reqtype := (if querybuf c ! 0 = chr CHR ''*'' then REQ_MULTIBULK else REQ_INLINE)\<rparr> else c)"
    have hd: "querybuf c ! 0 = chr CHR ''*''" if "reqtype c = REQ_NONE"
      using that Suc.prems(1) between_hd [of c fut todo] False by (auto simp: entry_def)
    have c1: "reqtype c1 = REQ_MULTIBULK" "querybuf c1 = querybuf c"
      using Suc.prems(1) hd by (auto simp: c1_def entry_def between_def intro: reqtype.exhaust [of "reqtype c"])
    have e1: "entry c1 fut todo" using Suc.prems(1) False hd
      by (auto simp: c1_def entry_def between_def len_match_def body_def sized_def)
    obtain ok c2 where c2: "processMultibulkBuffer c1 = Some (ok, c2)"
      "if ok then \<exists>todo'. todo = argv c2 # todo' \<and> \<not> blocked c2 \<and> \<not> close_after_reply c2 \<and> querybuf c2 @ fut = encs todo' \<and>
         length (querybuf c2) \<le> REDIS_INLINE_MAX_SIZE else exit_st c2 fut todo"
      using multibulk_stream [OF e1 c1(1) Suc.prems(3)] by blast
    have step: "processInputBuffer pc (Suc fuel) c s =
        (if \<not> ok then Some (c2, s)
         else if argv c2 = [] then processInputBuffer pc fuel (resetClient c2) s
         else (case pc (argv c2) s of (s, oc) \<Rightarrow> processInputBuffer pc fuel (after_command oc c2) s))"
      using False c2(1) c1(1) Suc.prems(1) by (simp add: c1_def [symmetric] Let_def entry_def)
    show ?thesis
    proof (cases ok)
      case False
      then show ?thesis using c2(2) step by (intro exI [of _ c2] exI [of _ "[]"] exI [of _ todo]) (simp add: run_reqs_def)
    next
      case True
      then obtain todo' where t: "todo = argv c2 # todo'" "\<not> blocked c2" "\<not> close_after_reply c2" "querybuf c2 @ fut = encs todo'"
        "length (querybuf c2) \<le> REDIS_INLINE_MAX_SIZE" using c2(2) by auto
      have ne: "argv c2 \<noteq> []" using Suc.prems(3) t(1) by (simp add: req_ok_def)
      obtain s2 where s2: "pc (argv c2) s = (s2, Done)" using Suc.prems(4) t(1) by (metis all_done_def list.set_intros(1) prod.collapse)
      have e: "entry (resetClient c2) fut todo'" using t by (simp add: entry_def between_def resetClient_def)
      have "length (querybuf c2) < length (querybuf c1)"
        using processMultibulk_total [OF entry_parse_ok [OF e1 Suc.prems(3)] c1(1)] c2(1) True by auto
      then have "length (querybuf (resetClient c2)) < fuel" using Suc.prems(2) c1(2) by (simp add: resetClient_def)
      from Suc.IH [OF e this, of s2] Suc.prems(3,4) t(1) obtain c' don todo'' where
        "todo' = don @ todo''" "processInputBuffer pc fuel (resetClient c2) s2 = Some (c', run_reqs pc don s2)" "exit_st c' fut todo''"
        by (auto simp: all_done_def)
      then show ?thesis using True step ne s2 t(1)
        by (intro exI [of _ c'] exI [of _ "argv c2 # don"] exI [of _ todo'']) (simp add: run_reqs_def after_command_def)
    qed
  qed
qed simp

lemma exit_idle: "exit_st c fut todo \<Longrightarrow> \<forall>r \<in> set todo. req_ok r \<Longrightarrow> 0 < readlen c"
  using u32 [of "bulklen c"]
  by (auto simp: exit_st_def between_def midway_def len_match_def readlen_def REDIS_IOBUF_LEN_def REDIS_MBULK_BIG_ARG_def Let_def
      req_ok_def arg_ok_def neq_Nil_conv)

lemma exit_entry:
  assumes x: "exit_st c (data @ fut) todo" and d: "int (length data) \<le> readlen c" and ok: "\<forall>r \<in> set todo. req_ok r"
  shows "entry (c\<lparr>querybuf := querybuf c @ data\<rparr>) fut todo" "int (length (querybuf c @ data)) \<le> max_bulk + 2"
proof -
  let ?c = "c\<lparr>querybuf := querybuf c @ data\<rparr>"
  have io: "readlen c \<le> 16384" by (auto simp: readlen_def REDIS_IOBUF_LEN_def Let_def)
  consider "between c (data @ fut) todo" "length (querybuf c) < 13"
    | cur todo' where "todo = (argv c @ cur) # todo'" "reqtype c = REQ_MULTIBULK" "midway c (querybuf c) (data @ fut) cur (encs todo')"
    using x by (auto simp: exit_st_def)
  then have "entry ?c fut todo \<and> int (length (querybuf c @ data)) \<le> max_bulk + 2"
  proof cases
    case 1
    then show ?thesis using x d io by (auto simp: entry_def between_def exit_st_def REDIS_INLINE_MAX_SIZE_def)
  next
    case 2
    then obtain a as where cur: "cur = a # as" by (auto simp: midway_def neq_Nil_conv)
    then have a: "arg_ok a" using ok 2(1) by (simp add: req_ok_def)
    have m: "multibulklen c = int (length cur)" "len_match c cur" "querybuf c @ data @ fut = body c cur @ encs todo'"
      "if bulklen c = - 1 then length (querybuf c) < 13 else int (length (querybuf c)) < bulklen c + 2"
      using 2(3) by (auto simp: midway_def)
    have bl: "bulklen c = - 1 \<or> bulklen c = int (length a)" using m(2) cur by (simp add: len_match_def)
    have sz: "sized ?c 0 \<and> int (length (querybuf c @ data)) \<le> max_bulk + 2"
    proof (cases "REDIS_MBULK_BIG_ARG \<le> bulklen c")
      case True
      then have b: "bulklen c \<noteq> - 1" "multibulklen c \<noteq> 0" "0 \<le> bulklen c" "bulklen c \<le> max_bulk"
        using m(1) cur bl a by (auto simp: REDIS_MBULK_BIG_ARG_def arg_ok_def)
      then have "readlen c \<le> bulklen c + 2 - int (length (querybuf c))"
        using True 2(2) u32 [OF b(3,4)] by (auto simp: readlen_def Let_def)
      then show ?thesis using True d b(4) by (simp add: sized_def)
    next
      case False
      then have "int (length (querybuf c)) < 1024 * 32 + 2" using m(4) by (auto simp: REDIS_MBULK_BIG_ARG_def split: if_splits)
      then show ?thesis using d io by (simp add: sized_def REDIS_INLINE_MAX_SIZE_def)
    qed
    have "todo = (argv ?c @ cur) # todo' \<and> cur \<noteq> [] \<and> reqtype ?c = REQ_MULTIBULK \<and> multibulklen ?c = int (length cur) \<and>
         len_match ?c cur \<and> querybuf ?c @ fut = body ?c cur @ encs todo' \<and> sized ?c 0"
      using 2 m cur sz by (simp add: len_match_def body_def)
    then show ?thesis using x sz unfolding entry_def by (auto simp: exit_st_def)
  qed
  then show "entry ?c fut todo" "int (length (querybuf c @ data)) \<le> max_bulk + 2" by auto
qed

lemma serve_stream:
  "exit_st c stream todo \<Longrightarrow> \<forall>r \<in> set todo. req_ok r \<Longrightarrow> all_done pc todo \<Longrightarrow> max_bulk + 2 \<le> int mx \<Longrightarrow>
   \<exists>c' don todo' rest. todo = don @ todo' \<and> serve pc mx ns stream c s = Some (rest, Alive c' (run_reqs pc don s)) \<and>
     exit_st c' rest todo' \<and> length rest \<le> length stream - length ns"
proof (induction ns arbitrary: c stream todo s)
  case Nil
  then show ?case by (intro exI [of _ c] exI [of _ "[]"] exI [of _ todo] exI [of _ stream]) (simp add: run_reqs_def)
next
  case (Cons n ns)
  show ?case
  proof (cases "stream = []")
    case True
    then show ?thesis using Cons.prems by (intro exI [of _ c] exI [of _ "[]"] exI [of _ todo]) (simp add: run_reqs_def)
  next
    case False
    let ?n = "min (Suc n) (nat (readlen c))"
    let ?c = "c\<lparr>querybuf := querybuf c @ take ?n stream\<rparr>"
    have pos: "0 < ?n" using exit_idle [OF Cons.prems(1,2)] by simp
    have x: "exit_st c (take ?n stream @ drop ?n stream) todo" using Cons.prems(1) by simp
    have d: "int (length (take ?n stream)) \<le> readlen c" using exit_idle [OF Cons.prems(1,2)] by simp
    note e = exit_entry [OF x d Cons.prems(2)]
    from input_stream [OF e(1) lessI Cons.prems(2,3), of s] obtain c1 don todo1 where
      1: "todo = don @ todo1" "processInputBuffer pc (Suc (length (querybuf ?c))) ?c s = Some (c1, run_reqs pc don s)"
        "exit_st c1 (drop ?n stream) todo1" by blast
    have "readQueryFromClient pc mx (take ?n stream) c s = Some (Alive c1 (run_reqs pc don s))"
      using 1(2) e(2) Cons.prems(4) by (simp add: readQueryFromClient_def)
    moreover obtain c2 don2 todo2 rest where
      2: "todo1 = don2 @ todo2" "serve pc mx ns (drop ?n stream) c1 (run_reqs pc don s) = Some (rest, Alive c2 (run_reqs pc don2 (run_reqs pc don s)))"
        "exit_st c2 rest todo2" "length rest \<le> length (drop ?n stream) - length ns"
      using Cons.IH [OF 1(3), of "run_reqs pc don s"] Cons.prems(2-4) 1(1) by (auto simp: all_done_def)
    ultimately have "serve pc mx (n # ns) stream c s = Some (rest, Alive c2 (run_reqs pc (don @ don2) s))"
      using False by (simp add: run_reqs_def)
    moreover have "length rest \<le> length stream - length (n # ns)" using 2(4) pos by (simp add: min_def split: if_splits)
    ultimately show ?thesis using 1(1) 2(1,3)
      by (intro exI [of _ c2] exI [of _ "don @ don2"] exI [of _ todo2] exI [of _ rest]) simp
  qed
qed

lemma format_sound: "redisFormatCommandArgv r = Some m \<Longrightarrow> m = enc r"
  by (auto simp: redisFormatCommandArgv_def format_loop_enc enc_def Let_def split: if_splits)

lemma stream_delivered:
  assumes "\<forall>r \<in> set reqs. req_ok r" "list_all2 (\<lambda>r m. redisFormatCommandArgv r = Some m) reqs msgs"
    "all_done processCommand reqs" "max_bulk + 2 \<le> int mx" "length (concat msgs) \<le> length ns"
  shows "\<exists>c. serve processCommand mx ns (concat msgs) createClient s = Some ([], Alive c (run_reqs processCommand reqs s)) \<and>
    querybuf c = []"
proof -
  have m: "concat msgs = encs reqs" using assms(2) by (induction rule: list_all2_induct) (auto dest: format_sound)
  have "exit_st createClient (concat msgs) reqs"
    unfolding m by (auto simp: exit_st_def between_def createClient_def enc_def)
  from serve_stream [OF this assms(1,3,4), of ns s] obtain c don todo' rest where
    r: "reqs = don @ todo'" "serve processCommand mx ns (concat msgs) createClient s = Some (rest, Alive c (run_reqs processCommand don s))"
      "exit_st c rest todo'" "length rest \<le> length (concat msgs) - length ns" by blast
  have "rest = []" using r(4) assms(5) by simp
  moreover from this have "todo' = []" using r(3) by (simp add: exit_st_def)
  moreover have "querybuf c = []" using calculation r(3) by (auto simp: exit_st_def between_def)
  ultimately show ?thesis using r by simp
qed


text \<open>Formatting computes the size of its buffer correctly: the assertion holds for every command whose formatted
  size fits in an \<^verbatim>\<open>int\<close>, and the buffer is then exactly the protocol's encoding.\<close>

theorem format_total:
  assumes "length (enc r) < 2 ^ 31"
  shows "redisFormatCommandArgv r = Some (enc r)"
  using assms by (rule format_enc)

section \<open>Witnesses\<close>

definition log_exec :: "bytes list \<Rightarrow> bytes list list \<Rightarrow> bytes list list \<times> outcome" where
  "log_exec r l = (l @ [r], Done)"

theorem format_total_witness:
  "redisFormatCommandArgv [[71, 69, 84], [0, 13, 10]] = Some (enc [[71, 69, 84], [0, 13, 10]])"
  by (rule format_total) (simp add: enc_def enc_arg_def dec.simps)


end
