(* ===== verification/Hiredis_Reader.thy ===== *)
theory Hiredis_Reader
  imports Hiredis
begin

text \<open>
  The reply reader of \<^verbatim>\<open>src/hiredis/hiredis.cc\<close>: an incremental parser with a stack of nine tasks that builds
  the reply object while the bytes arrive. The stack is a list with the current task first, so \<^verbatim>\<open>ridx\<close>
  is its length less one. A task's object is found in the root object by the indices of the tasks below it,
  so the pointers \<^verbatim>\<open>obj\<close> and \<^verbatim>\<open>parent\<close> are not represented. An array keeps its field \<^verbatim>\<open>elements\<close>
  and its slots, \<open>None\<close> while they are null. \<open>None\<close> as a result is a failed assertion or a store outside
  of an array; memory never runs out.
\<close>

datatype hreply = HInt int | HStr bytes | HStatus bytes | HError bytes | HNil | HArr int "hreply option list"

datatype rtype = TError | TStatus | TInteger | TString | TArray

record task =
  ttype :: "rtype option"
  elements :: int
  idx :: int

datatype rerror = ProtocolByte byte | TooDeep

record reader =
  err :: "rerror option"
  rbuf :: bytes
  pos :: nat
  rstack :: "task list"
  root :: "hreply option"

definition redisReaderCreate :: reader where
  "redisReaderCreate = \<lparr>err = None, rbuf = [], pos = 0, rstack = [], root = None\<rparr>"

text \<open>The store of a new object into the slot of its parent, or as the root.\<close>

fun put_at :: "nat list \<Rightarrow> hreply \<Rightarrow> hreply option \<Rightarrow> hreply option" where
  "put_at [] x _ = Some x"
| "put_at (i # is) x (Some (HArr n els)) =
     (if i < length els then map_option (\<lambda>y. HArr n (els[i := Some y])) (put_at is x (els ! i)) else None)"
| "put_at (i # is) x _ = None"

definition task_path :: "task list \<Rightarrow> nat list" where
  "task_path ts = map (nat \<circ> idx) (tl (rev ts))"

definition store :: "reader \<Rightarrow> hreply \<Rightarrow> reader option" where
  "store r x = map_option (\<lambda>y. r\<lparr>root := Some y\<rparr>) (put_at (task_path (rstack r)) x (root r))"

definition redisReaderSetError :: "reader \<Rightarrow> rerror \<Rightarrow> reader" where
  "redisReaderSetError r e = r\<lparr>root := None, rbuf := [], pos := 0, rstack := [], err := Some e\<rparr>"

section \<open>Reading from the buffer\<close>

fun seekNewline :: "bytes \<Rightarrow> nat option" where
  "seekNewline (x # y # xs) = (if x = CR \<and> y = LF then Some 0 else map_option Suc (seekNewline (y # xs)))"
| "seekNewline _ = None"

text \<open>Digits up to the carriage return, in 64-bit arithmetic; anything else gives \<open>- 1\<close>.\<close>

fun digits_loop :: "64 word \<Rightarrow> bytes \<Rightarrow> 64 word option" where
  "digits_loop v [] = None"
| "digits_loop v (c # s) =
     (if c = CR then Some v
      else if isdigit c then digits_loop (v * 10 + of_nat (unat c - 48)) s
      else None)"

definition readLongLong :: "bytes \<Rightarrow> int" where
  "readLongLong s =
     (let (neg, s) = (case s of c # s' \<Rightarrow> if c = chr CHR ''-'' then (True, s') else if c = chr CHR ''+'' then (False, s') else (False, s)
                      | [] \<Rightarrow> (False, s))
      in case digits_loop 0 s of None \<Rightarrow> - 1 | Some v \<Rightarrow> sint (if neg then - v else v))"

definition unread :: "reader \<Rightarrow> bytes" where
  "unread r = drop (pos r) (rbuf r)"

definition readLine :: "reader \<Rightarrow> (bytes \<times> reader) option" where
  "readLine r =
     (case seekNewline (unread r) of
        None \<Rightarrow> None
      | Some len \<Rightarrow> Some (take len (unread r), r\<lparr>pos := pos r + len + 2\<rparr>))"

fun moveToNextTask :: "task list \<Rightarrow> task list option" where
  "moveToNextTask [] = Some []"
| "moveToNextTask [cur] = Some []"
| "moveToNextTask (cur # prv # ts) =
     (if ttype prv \<noteq> Some TArray then None
      else if idx cur = elements prv - 1 then moveToNextTask (prv # ts)
      else if \<not> idx cur < elements prv then None
      else Some (cur\<lparr>ttype := None, elements := - 1, idx := idx cur + 1\<rparr> # prv # ts))"

definition next_task :: "reader \<Rightarrow> reader option" where
  "next_task r = map_option (\<lambda>ts. r\<lparr>rstack := ts\<rparr>) (moveToNextTask (rstack r))"

section \<open>Processing an item\<close>

text \<open>The boolean is \<^verbatim>\<open>REDIS_OK\<close>; when false, more bytes are needed or an error was set.\<close>

definition processLineItem :: "rtype \<Rightarrow> reader \<Rightarrow> (bool \<times> reader) option" where
  "processLineItem ty r =
     (case readLine r of
        None \<Rightarrow> Some (False, r)
      | Some (p, r') \<Rightarrow>
          let obj = (if ty = TInteger then HInt (readLongLong (unread r)) else if ty = TError then HError p else HStatus p) in
          do { r \<leftarrow> store r' obj; r \<leftarrow> next_task r; Some (True, r) })"

definition processBulkItem :: "reader \<Rightarrow> (bool \<times> reader) option" where
  "processBulkItem r =
     (case seekNewline (unread r) of
        None \<Rightarrow> Some (False, r)
      | Some s \<Rightarrow>
          let bytelen = s + 2; len = readLongLong (unread r) in
          if len < 0 then
            do { r \<leftarrow> store (r\<lparr>pos := pos r + bytelen\<rparr>) HNil; r \<leftarrow> next_task r; Some (True, r) }
          else
            let bytelen = bytelen + nat len + 2 in
            if pos r + bytelen \<le> length (rbuf r) then
              do { r \<leftarrow> store (r\<lparr>pos := pos r + bytelen\<rparr>) (HStr (take (nat len) (drop (s + 2) (unread r))));
                   r \<leftarrow> next_task r; Some (True, r) }
            else Some (False, r))"

definition new_task :: "int \<Rightarrow> task" where
  "new_task i = \<lparr>ttype = None, elements = - 1, idx = i\<rparr>"

definition processMultiBulkItem :: "reader \<Rightarrow> (bool \<times> reader) option" where
  "processMultiBulkItem r =
     (if length (rstack r) - 1 = 8 then Some (False, redisReaderSetError r TooDeep)
      else
        case readLine r of
          None \<Rightarrow> Some (False, r)
        | Some (_, r') \<Rightarrow>
            let n = readLongLong (unread r) in
            if n = - 1 then do { r \<leftarrow> store r' HNil; r \<leftarrow> next_task r; Some (True, r) }
            else
              do { r \<leftarrow> store r' (HArr (cast_int n) (replicate (nat (cast_int n)) None));
                   if n > 0 then
                     (case rstack r of
                        [] \<Rightarrow> None
                      | cur # ts \<Rightarrow> Some (True, r\<lparr>rstack := new_task 0 # cur\<lparr>elements := cast_int n\<rparr> # ts\<rparr>))
                   else do { r \<leftarrow> next_task r; Some (True, r) } })"

definition type_of_byte :: "byte \<Rightarrow> rtype option" where
  "type_of_byte c =
     (if c = chr CHR ''-'' then Some TError else if c = chr CHR ''+'' then Some TStatus else if c = chr CHR '':'' then Some TInteger
      else if c = chr CHR ''$'' then Some TString else if c = chr CHR ''*'' then Some TArray else None)"

definition typed_item :: "rtype \<Rightarrow> reader \<Rightarrow> (bool \<times> reader) option" where
  "typed_item ty r =
     (case ty of TString \<Rightarrow> processBulkItem r | TArray \<Rightarrow> processMultiBulkItem r | _ \<Rightarrow> processLineItem ty r)"

definition processItem :: "reader \<Rightarrow> (bool \<times> reader) option" where
  "processItem r =
     (case rstack r of
        [] \<Rightarrow> None
      | cur # ts \<Rightarrow>
          (case ttype cur of
             Some ty \<Rightarrow> typed_item ty r
           | None \<Rightarrow>
               if length (rbuf r) - pos r \<ge> 1 then
                 (case type_of_byte (rbuf r ! pos r) of
                    None \<Rightarrow> Some (False, redisReaderSetError (r\<lparr>pos := pos r + 1\<rparr>) (ProtocolByte (rbuf r ! pos r)))
                  | Some ty \<Rightarrow> typed_item ty (r\<lparr>pos := pos r + 1, rstack := cur\<lparr>ttype := Some ty\<rparr> # ts\<rparr>))
               else Some (False, r)))"

section \<open>Feeding and getting replies\<close>

definition redisReaderFeed :: "reader \<Rightarrow> bytes \<Rightarrow> bool \<times> reader" where
  "redisReaderFeed r data = (if err r \<noteq> None then (False, r) else (True, r\<lparr>rbuf := rbuf r @ data\<rparr>))"

fun items_loop :: "nat \<Rightarrow> reader \<Rightarrow> reader option" where
  "items_loop fuel r =
     (if rstack r = [] then Some r
      else
        case fuel of
          0 \<Rightarrow> None
        | Suc fuel \<Rightarrow> do { (ok, r) \<leftarrow> processItem r; if ok then items_loop fuel r else Some r })"

declare items_loop.simps [simp del]

definition redisReaderGetReply :: "reader \<Rightarrow> (bool \<times> hreply option \<times> reader) option" where
  "redisReaderGetReply r =
     (if err r \<noteq> None then Some (False, None, r)
      else if rbuf r = [] then Some (True, None, r)
      else
        let r = (if rstack r = [] then r\<lparr>rstack := [new_task (- 1)]\<rparr> else r) in
        do { r \<leftarrow> items_loop (Suc (length (rbuf r) - pos r)) r;
             if err r \<noteq> None then Some (False, None, r)
             else
               let r = (if pos r \<ge> 1024 then r\<lparr>rbuf := drop (pos r) (rbuf r), pos := 0\<rparr> else r)
               in if rstack r = [] then Some (True, root r, r\<lparr>root := None\<rparr>) else Some (True, None, r) })"

text \<open>
  \<^verbatim>\<open>redisGetReply\<close> on a blocking context: what the reader holds is tried first, then the socket is read until
  there is a reply. \<open>chunks\<close> are the results of the reads to come; a read of no bytes and the end of the list are
  the end of the connection. The output buffer, which is flushed before the first read, is not represented.
\<close>

datatype got = Reply hreply | ReaderError | Eof

fun redisGetReply :: "bytes list \<Rightarrow> reader \<Rightarrow> (got \<times> bytes list \<times> reader) option" where
  "redisGetReply chunks r =
     do { (ok, rep, r) \<leftarrow> redisReaderGetReply r;
          if \<not> ok then Some (ReaderError, chunks, r)
          else
            case rep of
              Some x \<Rightarrow> Some (Reply x, chunks, r)
            | None \<Rightarrow>
                (case chunks of
                   [] \<Rightarrow> Some (Eof, [], r)
                 | data # chunks \<Rightarrow>
                     if data = [] then Some (Eof, chunks, r)
                     else
                       (case redisReaderFeed r data of (ok, r) \<Rightarrow>
                          if ok then redisGetReply chunks r else Some (ReaderError, chunks, r))) }"

declare redisGetReply.simps [simp del]

section \<open>Replies on the wire\<close>

datatype wire = WInt int | WStr bytes | WStatus bytes | WErr bytes | WNil | WNilArr | WArr "wire list"

fun obj_of :: "wire \<Rightarrow> hreply" where
  "obj_of (WInt v) = HInt v"
| "obj_of (WStr s) = HStr s"
| "obj_of (WStatus s) = HStatus s"
| "obj_of (WErr s) = HError s"
| "obj_of WNil = HNil"
| "obj_of WNilArr = HNil"
| "obj_of (WArr ts) = HArr (int (length ts)) (map (\<lambda>t. Some (obj_of t)) ts)"

definition type_byte :: "wire \<Rightarrow> byte" where
  "type_byte t = (case t of WInt _ \<Rightarrow> chr CHR '':'' | WStr _ \<Rightarrow> chr CHR ''$'' | WStatus _ \<Rightarrow> chr CHR ''+'' | WErr _ \<Rightarrow> chr CHR ''-''
     | WNil \<Rightarrow> chr CHR ''$'' | WNilArr \<Rightarrow> chr CHR ''*'' | WArr _ \<Rightarrow> chr CHR ''*'')"

definition wtype :: "wire \<Rightarrow> rtype" where
  "wtype t = (case t of WInt _ \<Rightarrow> TInteger | WStr _ \<Rightarrow> TString | WStatus _ \<Rightarrow> TStatus | WErr _ \<Rightarrow> TError
     | WNil \<Rightarrow> TString | WNilArr \<Rightarrow> TArray | WArr _ \<Rightarrow> TArray)"

fun payload :: "wire \<Rightarrow> bytes" where
  "payload (WInt v) = ll_repr v @ [CR, LF]"
| "payload (WStr s) = dec (length s) @ [CR, LF] @ s @ [CR, LF]"
| "payload (WStatus s) = s @ [CR, LF]"
| "payload (WErr s) = s @ [CR, LF]"
| "payload WNil = ll_repr (- 1) @ [CR, LF]"
| "payload WNilArr = ll_repr (- 1) @ [CR, LF]"
| "payload (WArr ts) = dec (length ts) @ [CR, LF] @ concat (map (\<lambda>t. type_byte t # payload t) ts)"

definition wenc :: "wire \<Rightarrow> bytes" where
  "wenc t = type_byte t # payload t"

fun wdepth :: "wire \<Rightarrow> nat" where
  "wdepth (WArr ts) = Suc (foldr max (map wdepth ts) 0)"
| "wdepth WNilArr = 1"
| "wdepth _ = 0"

fun wire_ok :: "wire \<Rightarrow> bool" where
  "wire_ok (WInt v) = is_ll v"
| "wire_ok (WStr s) = (length s < 2 ^ 63)"
| "wire_ok (WStatus s) = (CR \<notin> set s)"
| "wire_ok (WErr s) = (CR \<notin> set s)"
| "wire_ok (WArr ts) = (length ts < 2 ^ 31 \<and> list_all wire_ok ts)"
| "wire_ok _ = True"

lemma type_of_byte [simp]: "type_of_byte (type_byte t) = Some (wtype t)"
  by (cases t) (simp_all add: type_of_byte_def type_byte_def wtype_def)

lemma seekNewline_prefix:
  "CR \<notin> set p \<Longrightarrow> rest @ fut = p @ CR # LF # z \<Longrightarrow>
   seekNewline rest = (if length p + 1 < length rest then Some (length p) else None)"
proof (induction rest arbitrary: p rule: seekNewline.induct)
  case (1 x y xs)
  show ?case
  proof (cases p)
    case Nil
    then show ?thesis using 1 by simp
  next
    case (Cons c q)
    have "x = c" "c \<noteq> CR" "(y # xs) @ fut = q @ CR # LF # z" using 1 Cons by auto
    then show ?thesis using 1(1) [of q] 1(2) Cons by auto
  qed
qed auto

lemma digits_loop_dec:
  "list_all isdigit ds \<Longrightarrow> digits_loop (of_nat a) (ds @ CR # z) = Some (of_nat (dec_fold a ds))"
proof (induction ds arbitrary: a)
  case (Cons d ds)
  have "d \<noteq> CR" using Cons.prems by (auto simp: isdigit_def)
  moreover have "(of_nat a :: 64 word) * 10 + of_nat (unat d - 48) = of_nat (10 * a + (unat d - 48))" by simp
  ultimately show ?case using Cons.IH [of "10 * a + (unat d - 48)"] Cons.prems by (simp del: of_nat_add of_nat_mult)
qed simp

lemma digits_dec: "digits_loop 0 (dec n @ CR # z) = Some (of_nat n)"
  using digits_loop_dec [OF dec_digits, of 0 n z] dec_val_dec [of n] by (simp add: dec_val_def)

lemma dec_not_sign: "\<exists>c p. dec n = c # p \<and> c \<noteq> chr CHR ''-'' \<and> c \<noteq> chr CHR ''+''"
proof -
  obtain c p where "dec n = c # p" using dec_nonempty [of n] by (cases "dec n") auto
  then show ?thesis using dec_digits [of n] by (auto simp: isdigit_def)
qed

lemma readLongLong_repr: "is_ll v \<Longrightarrow> readLongLong (ll_repr v @ CR # z) = v"
proof -
  assume v: "is_ll v"
  show ?thesis
  proof (cases "v < 0")
    case True
    have "(- of_nat (nat (- v)) :: 64 word) = word_of_int v" using True by (simp add: of_nat_nat)
    then show ?thesis using True sint_ll [OF v] digits_dec [of "nat (- v)" z] by (simp add: ll_repr_def readLongLong_def)
  next
    case False
    obtain c p where c: "dec (nat v) = c # p" "c \<noteq> chr CHR ''-''" "c \<noteq> chr CHR ''+''" using dec_not_sign [of "nat v"] by blast
    have "(of_nat (nat v) :: 64 word) = word_of_int v" using False by (simp add: of_nat_nat)
    then show ?thesis using False c sint_ll [OF v] digits_dec [of "nat v" z] by (simp add: ll_repr_def readLongLong_def)
  qed
qed

lemma readLongLong_dec: "int n < 2 ^ 63 \<Longrightarrow> readLongLong (dec n @ CR # z) = int n"
  using readLongLong_repr [of "int n" z] by (simp add: ll_repr_def is_ll_def)

lemma repr_no_cr: "CR \<notin> set (ll_repr v)" "CR \<notin> set (dec n)"
  using dec_not_cr by (auto simp: ll_repr_def)

section \<open>Where the reader is in a reply\<close>

text \<open>
  A position in a reply: for every enclosing array, innermost first, the elements read and the elements to
  come. From it follow the task stack, the object built so far and what is still to be read.
\<close>

type_synonym frames = "(wire list \<times> wire list) list"

fun plug :: "frames \<Rightarrow> wire \<Rightarrow> wire" where
  "plug [] t = t"
| "plug ((dn, td) # fs) t = plug fs (WArr (dn @ t # td))"

fun later :: "frames \<Rightarrow> bytes" where
  "later [] = []"
| "later ((dn, td) # fs) = concat (map wenc td) @ later fs"

definition idx_of :: "frames \<Rightarrow> int" where
  "idx_of fs = (case fs of [] \<Rightarrow> - 1 | (dn, td) # _ \<Rightarrow> int (length dn))"

fun parents :: "frames \<Rightarrow> task list" where
  "parents [] = []"
| "parents ((dn, td) # fs) = \<lparr>ttype = Some TArray, elements = int (length dn + 1 + length td), idx = idx_of fs\<rparr> # parents fs"

definition stack_of :: "frames \<Rightarrow> rtype option \<Rightarrow> task list" where
  "stack_of fs ty = \<lparr>ttype = ty, elements = - 1, idx = idx_of fs\<rparr> # parents fs"

fun build :: "frames \<Rightarrow> hreply option \<Rightarrow> hreply option" where
  "build [] x = x"
| "build ((dn, td) # fs) x =
     build fs (Some (HArr (int (length dn + 1 + length td)) (map (\<lambda>t. Some (obj_of t)) dn @ x # replicate (length td) None)))"

text \<open>The next position once the current element is complete; \<open>None\<close> at the end of the reply.\<close>

fun advance :: "frames \<Rightarrow> wire \<Rightarrow> (frames \<times> wire) option" where
  "advance [] t = None"
| "advance ((dn, []) # fs) t = advance fs (WArr (dn @ [t]))"
| "advance ((dn, u # td) # fs) t = Some ((dn @ [t], td) # fs, u)"

lemma build_none: "fs \<noteq> [] \<Longrightarrow> \<exists>y. build fs x = Some y"
proof (induction fs arbitrary: x)
  case (Cons f fs)
  then show ?case by (cases f; cases fs) auto
qed simp

lemma put_build:
  "put_at (rev (map (length \<circ> fst) fs) @ is) x (build fs o') = (case put_at is x o' of None \<Rightarrow> None | Some y \<Rightarrow> build fs (Some y))"
proof (induction fs arbitrary: "is" o')
  case (Cons f fs)
  obtain dn td where f: "f = (dn, td)" by force
  show ?case using Cons.IH [of "length dn # is"] by (auto simp: f nth_append list_update_append split: option.split)
qed (simp split: option.split)

lemma path_of: "idx c = idx_of fs \<Longrightarrow> task_path (c # parents fs) = rev (map (length \<circ> fst) fs)"
proof (induction fs arbitrary: c)
  case Nil
  then show ?case by (simp add: task_path_def)
next
  case (Cons f fs)
  obtain dn td where f: "f = (dn, td)" by force
  let ?p = "\<lparr>ttype = Some TArray, elements = int (length dn + 1 + length td), idx = idx_of fs\<rparr>"
  have "task_path (c # ?p # parents fs) = task_path (?p # parents fs) @ [nat (idx c)]" by (simp add: task_path_def tl_append split: list.split)
  then show ?case using Cons.IH [of ?p] Cons.prems by (simp add: f idx_of_def)
qed

lemma store_at:
  assumes "rstack r = c # parents fs" "idx c = idx_of fs" "root r = build fs None"
  shows "\<exists>y. build fs (Some x) = Some y \<and> store r x = Some (r\<lparr>root := Some y\<rparr>)"
proof -
  have "put_at (task_path (rstack r)) x (root r) = build fs (Some x)"
    using put_build [of fs "[]" x None] path_of [OF assms(2)] assms(1,3) by simp
  moreover have "\<exists>y. build fs (Some x) = Some y" by (cases "fs = []") (auto intro: build_none)
  ultimately show ?thesis by (auto simp: store_def)
qed

lemma advance_build: "build fs (Some (obj_of t)) = (case advance fs t of None \<Rightarrow> Some (obj_of (plug fs t)) | Some (fs', u) \<Rightarrow> build fs' None)"
  by (induction fs t rule: advance.induct) (simp_all split: option.split)

lemma advance_later: "later fs = (case advance fs t of None \<Rightarrow> [] | Some (fs', u) \<Rightarrow> wenc u @ later fs')"
  by (induction fs t rule: advance.induct) (simp_all split: option.splits)

lemma advance_plug: "advance fs t = Some (fs', u) \<Longrightarrow> plug fs' u = plug fs t"
  by (induction fs t rule: advance.induct) auto

lemma advance_move:
  "idx c = idx_of fs \<Longrightarrow> moveToNextTask (c # parents fs) =
     Some (case advance fs t of None \<Rightarrow> [] | Some (fs', u) \<Rightarrow> stack_of fs' None)"
proof (induction fs t arbitrary: c rule: advance.induct)
  case (3 dn u td fs t)
  have "c\<lparr>ttype := None, elements := - 1, idx := idx c + 1\<rparr> = \<lparr>ttype = None, elements = - 1, idx = int (length dn) + 1\<rparr>"
    using 3 by (cases c) (simp add: idx_of_def)
  then show ?case using 3 by (simp add: idx_of_def stack_of_def)
qed (simp_all add: idx_of_def)

section \<open>Items are read as they were written\<close>

lemma line_split:
  assumes "rest @ fut = p @ CR # LF # z" "length p + 2 \<le> length rest"
  shows "\<exists>y. rest = p @ CR # LF # y \<and> y @ fut = z"
proof -
  have "take (length p + 2) rest = p @ [CR, LF]" using arg_cong [OF assms(1), of "take (length p + 2)"] assms(2) by simp
  then have r: "rest = p @ CR # LF # drop (length p + 2) rest" using append_take_drop_id [of "length p + 2" rest] by simp
  then have "drop (length p + 2) rest @ fut = z" using assms(1) by (metis append.assoc append_Cons same_append_eq list.inject)
  then show ?thesis using r by blast
qed

fun todo_ok :: "frames \<Rightarrow> bool" where
  "todo_ok [] = True"
| "todo_ok ((dn, td) # fs) = ((\<forall>t \<in> set td. wire_ok t \<and> length fs + 1 + wdepth t \<le> 8) \<and> todo_ok fs)"

lemma advance_ok: "advance fs t = Some (fs', u) \<Longrightarrow> todo_ok fs \<Longrightarrow> todo_ok fs' \<and> wire_ok u \<and> length fs' + wdepth u \<le> 8"
  by (induction fs t rule: advance.induct) auto

text \<open>The reader is at the element \<open>cur\<close>, whose type byte is read or not; \<open>tail\<close> follows the reply.\<close>

definition at_elem :: "reader \<Rightarrow> bytes \<Rightarrow> frames \<Rightarrow> wire \<Rightarrow> bool \<Rightarrow> bytes \<Rightarrow> bool" where
  "at_elem r fut fs cur typed tail \<longleftrightarrow>
     err r = None \<and> pos r \<le> length (rbuf r) \<and> root r = build fs None \<and>
     rstack r = stack_of fs (if typed then Some (wtype cur) else None) \<and>
     unread r @ fut = (if typed then payload cur else wenc cur) @ later fs @ tail \<and>
     wire_ok cur \<and> length fs + wdepth cur \<le> 8 \<and> todo_ok fs"

definition finished :: "reader \<Rightarrow> bytes \<Rightarrow> wire \<Rightarrow> bytes \<Rightarrow> bool" where
  "finished r fut t tail \<longleftrightarrow> err r = None \<and> pos r \<le> length (rbuf r) \<and> rstack r = [] \<and> root r = Some (obj_of t) \<and> unread r @ fut = tail"

text \<open>Either the reply is complete or the reader is at its next element.\<close>

definition goes_on :: "reader \<Rightarrow> bytes \<Rightarrow> wire \<Rightarrow> bytes \<Rightarrow> bool" where
  "goes_on r fut t tail \<longleftrightarrow> finished r fut t tail \<or> (\<exists>fs u. plug fs u = t \<and> at_elem r fut fs u False tail)"

lemma complete:
  assumes "rstack r = c # parents fs" "idx c = idx_of fs" "root r = build fs None" "err r = None" "pos r \<le> length (rbuf r)"
    "unread r @ fut = later fs @ tail" "todo_ok fs"
  shows "\<exists>r1 r2. store r (obj_of t) = Some r1 \<and> next_task r1 = Some r2 \<and> pos r2 = pos r \<and> rbuf r2 = rbuf r \<and> goes_on r2 fut (plug fs t) tail"
proof -
  obtain y where y: "build fs (Some (obj_of t)) = Some y" "store r (obj_of t) = Some (r\<lparr>root := Some y\<rparr>)"
    using store_at [OF assms(1-3)] by blast
  let ?ts = "case advance fs t of None \<Rightarrow> [] | Some (fs', u) \<Rightarrow> stack_of fs' None"
  let ?r = "r\<lparr>root := Some y, rstack := ?ts\<rparr>"
  have n: "next_task (r\<lparr>root := Some y\<rparr>) = Some ?r"
    using advance_move [OF assms(2), of t] assms(1) by (simp add: next_task_def)
  have "goes_on ?r fut (plug fs t) tail"
  proof (cases "advance fs t")
    case None
    then show ?thesis using assms(4-6) y(1) advance_build [of fs t] advance_later [of fs t]
      by (simp add: goes_on_def finished_def unread_def)
  next
    case (Some p)
    obtain fs' u where p: "p = (fs', u)" by force
    have "at_elem ?r fut fs' u False tail"
      using Some p assms(4-7) y(1) advance_build [of fs t] advance_later [of fs t] advance_ok [of fs t fs' u]
      by (simp add: at_elem_def unread_def)
    then show ?thesis using advance_plug [of fs t fs' u] Some p unfolding goes_on_def by auto
  qed
  then show ?thesis using y(2) n by (intro exI [of _ "r\<lparr>root := Some y\<rparr>"] exI [of _ ?r]) simp
qed

text \<open>The outcome of processing an item whose type is known.\<close>

definition item_ok :: "reader \<Rightarrow> bytes \<Rightarrow> wire \<Rightarrow> bytes \<Rightarrow> (bool \<times> reader) option \<Rightarrow> bool" where
  "item_ok r fut t tail res \<longleftrightarrow> (\<exists>ok r'. res = Some (ok, r') \<and>
     (if ok then rbuf r' = rbuf r \<and> pos r < pos r' \<and> goes_on r' fut t tail else r' = r \<and> fut \<noteq> []))"

lemma at_elem_consume:
  assumes "at_elem r fut fs cur True tail" "drop n (unread r) @ fut = later fs @ tail" "n \<le> length (unread r)" "0 < n" "obj = obj_of cur"
  shows "item_ok r fut (plug fs cur) tail (do { r1 \<leftarrow> store (r\<lparr>pos := pos r + n\<rparr>) obj; r2 \<leftarrow> next_task r1; Some (True, r2) })"
proof -
  let ?c = "\<lparr>ttype = Some (wtype cur), elements = - 1, idx = idx_of fs\<rparr>"
  have "\<exists>r1 r2. store (r\<lparr>pos := pos r + n\<rparr>) (obj_of cur) = Some r1 \<and> next_task r1 = Some r2 \<and> pos r2 = pos (r\<lparr>pos := pos r + n\<rparr>) \<and>
      rbuf r2 = rbuf (r\<lparr>pos := pos r + n\<rparr>) \<and> goes_on r2 fut (plug fs cur) tail"
    by (rule complete [where c = ?c])
      (use assms in \<open>auto simp: at_elem_def stack_of_def unread_def add.commute\<close>)
  then obtain r1 r2 where "store (r\<lparr>pos := pos r + n\<rparr>) obj = Some r1" "next_task r1 = Some r2" "pos r2 = pos r + n"
    "rbuf r2 = rbuf r" "goes_on r2 fut (plug fs cur) tail" using assms(5) by auto
  then show ?thesis using assms(4) unfolding item_ok_def by (intro exI [of _ True] exI [of _ r2]) simp
qed

text \<open>A line ended by a carriage return and a line feed, when it has arrived and when it has not.\<close>

lemma line_cases:
  assumes "unread r @ fut = p @ CR # LF # z" "CR \<notin> set p"
  obtains (short) "seekNewline (unread r) = None" "fut \<noteq> []"
  | (full) y where "seekNewline (unread r) = Some (length p)" "unread r = p @ CR # LF # y" "y @ fut = z"
proof (cases "length p + 2 \<le> length (unread r)")
  case True
  then show ?thesis using full seekNewline_prefix [OF assms(2,1)] line_split [OF assms(1) True] by auto
next
  case False
  moreover have "fut \<noteq> []" using False arg_cong [OF assms(1), of length] by auto
  ultimately show ?thesis using short seekNewline_prefix [OF assms(2,1)] by auto
qed

lemma item_wait: "fut \<noteq> [] \<Longrightarrow> item_ok r fut t tail (Some (False, r))"
  by (auto simp: item_ok_def)

lemma line_item:
  assumes at: "at_elem r fut fs cur True tail" and p: "payload cur = p @ [CR, LF]" "CR \<notin> set p"
    and obj: "\<And>y. (if ty = TInteger then HInt (readLongLong (p @ CR # y)) else if ty = TError then HError p else HStatus p) = obj_of cur"
  shows "item_ok r fut (plug fs cur) tail (processLineItem ty r)"
proof -
  have u: "unread r @ fut = p @ CR # LF # later fs @ tail" using at p by (simp add: at_elem_def)
  show ?thesis
  proof (cases rule: line_cases [OF u p(2)])
    case 1
    then show ?thesis by (simp add: processLineItem_def readLine_def item_wait)
  next
    case (2 y)
    have "item_ok r fut (plug fs cur) tail (do { r1 \<leftarrow> store (r\<lparr>pos := pos r + (length p + 2)\<rparr>) (obj_of cur); r2 \<leftarrow> next_task r1; Some (True, r2) })"
      by (rule at_elem_consume [OF at]) (use 2 in auto)
    then show ?thesis using 2 obj [of "LF # y"] by (cases ty) (simp_all add: processLineItem_def readLine_def Let_def add.assoc)
  qed
qed

lemma nil_repr: "CR \<notin> set (ll_repr (- 1))" "readLongLong (ll_repr (- 1) @ CR # z) = - 1"
  using repr_no_cr readLongLong_repr [of "- 1" z] by (simp_all add: is_ll_def)

lemma bulk_nil_item:
  assumes at: "at_elem r fut fs WNil True tail"
  shows "item_ok r fut (plug fs WNil) tail (processBulkItem r)"
proof -
  have u: "unread r @ fut = ll_repr (- 1) @ CR # LF # later fs @ tail" using at by (simp add: at_elem_def)
  show ?thesis
  proof (cases rule: line_cases [OF u nil_repr(1)])
    case 1
    then show ?thesis by (simp add: processBulkItem_def item_wait)
  next
    case (2 y)
    have "item_ok r fut (plug fs WNil) tail (do { r1 \<leftarrow> store (r\<lparr>pos := pos r + (length (ll_repr (- 1)) + 2)\<rparr>) HNil; r2 \<leftarrow> next_task r1; Some (True, r2) })"
      by (rule at_elem_consume [OF at]) (use 2 in auto)
    then show ?thesis using 2 nil_repr(2) [of "LF # y"] by (simp add: processBulkItem_def Let_def)
  qed
qed

lemma bulk_item:
  assumes at: "at_elem r fut fs (WStr s) True tail"
  shows "item_ok r fut (plug fs (WStr s)) tail (processBulkItem r)"
proof -
  let ?d = "dec (length s)"
  have u: "unread r @ fut = ?d @ CR # LF # s @ CR # LF # later fs @ tail" and ok: "length s < 2 ^ 63" and p: "pos r \<le> length (rbuf r)"
    using at by (simp_all add: at_elem_def)
  show ?thesis
  proof (cases rule: line_cases [OF u repr_no_cr(2)])
    case 1
    then show ?thesis by (simp add: processBulkItem_def item_wait)
  next
    case (2 y)
    have l: "readLongLong (unread r) = int (length s)" using readLongLong_dec [of "length s" "LF # y"] ok 2(2) by simp
    have ul: "length (unread r) = length (rbuf r) - pos r" by (simp add: unread_def)
    have fits: "pos r + (length ?d + 2 + length s + 2) \<le> length (rbuf r) \<longleftrightarrow> length s + 2 \<le> length y"
      using 2(2) ul p arg_cong [OF 2(2), of length] by auto
    show ?thesis
    proof (cases "length s + 2 \<le> length y")
      case False
      then have "fut \<noteq> []" using arg_cong [OF 2(3), of length] by auto
      then show ?thesis using 2(1) l fits False by (simp add: processBulkItem_def Let_def item_wait)
    next
      case True
      then obtain z where z: "y = s @ CR # LF # z" "z @ fut = later fs @ tail" using line_split [OF 2(3)] by blast
      have "unread r = (?d @ [CR, LF] @ s @ [CR, LF]) @ z" using 2(2) z(1) by simp
      then have dr: "drop (length (?d @ [CR, LF] @ s @ [CR, LF])) (unread r) = z" by (metis append_eq_conv_conj)
      have "item_ok r fut (plug fs (WStr s)) tail
          (do { r1 \<leftarrow> store (r\<lparr>pos := pos r + (length ?d + 2 + length s + 2)\<rparr>) (HStr s); r2 \<leftarrow> next_task r1; Some (True, r2) })"
        by (rule at_elem_consume [OF at]) (use 2(2) z dr in \<open>auto simp: add.commute add.left_commute\<close>)
      moreover have "take (length s) (drop (length ?d + 2) (unread r)) = s" using 2(2) z(1) by simp
      ultimately show ?thesis using 2(1) l fits True by (simp add: processBulkItem_def Let_def del: drop_Suc_Cons)
    qed
  qed
qed

lemma length_parents [simp]: "length (parents fs) = length fs"
  by (induction fs rule: parents.induct) auto

lemma multibulk_nil_item:
  assumes at: "at_elem r fut fs WNilArr True tail"
  shows "item_ok r fut (plug fs WNilArr) tail (processMultiBulkItem r)"
proof -
  have u: "unread r @ fut = ll_repr (- 1) @ CR # LF # later fs @ tail" and d: "length (rstack r) - 1 \<noteq> 8"
    using at by (auto simp: at_elem_def stack_of_def)
  show ?thesis
  proof (cases rule: line_cases [OF u nil_repr(1)])
    case 1
    then show ?thesis using d by (simp add: processMultiBulkItem_def readLine_def item_wait)
  next
    case (2 y)
    have "item_ok r fut (plug fs WNilArr) tail (do { r1 \<leftarrow> store (r\<lparr>pos := pos r + (length (ll_repr (- 1)) + 2)\<rparr>) HNil; r2 \<leftarrow> next_task r1; Some (True, r2) })"
      by (rule at_elem_consume [OF at]) (use 2 in auto)
    then show ?thesis using 2 d nil_repr(2) [of "LF # y"] by (simp add: processMultiBulkItem_def readLine_def Let_def add.assoc)
  qed
qed

lemma wdepth_elem: "t \<in> set ts \<Longrightarrow> wdepth t < wdepth (WArr ts)"
proof (induction ts)
  case (Cons u ts)
  then show ?case by (auto simp: less_Suc_eq_le intro: max.coboundedI2)
qed simp

lemma multibulk_item:
  assumes at: "at_elem r fut fs (WArr ts) True tail"
  shows "item_ok r fut (plug fs (WArr ts)) tail (processMultiBulkItem r)"
proof -
  let ?d = "dec (length ts)" and ?n = "int (length ts)"
  have u: "unread r @ fut = ?d @ CR # LF # concat (map wenc ts) @ later fs @ tail" and d: "length (rstack r) - 1 \<noteq> 8"
    and ok: "length ts < 2 ^ 31" "list_all wire_ok ts" and dep: "length fs + wdepth (WArr ts) \<le> 8"
    and st: "rstack r = \<lparr>ttype = Some TArray, elements = - 1, idx = idx_of fs\<rparr> # parents fs" "root r = build fs None" "err r = None"
    and p: "pos r \<le> length (rbuf r)" and td: "todo_ok fs"
    using at by (auto simp: at_elem_def stack_of_def wtype_def wenc_def [abs_def])
  have c: "cast_int ?n = ?n" using ok(1) by (intro cast_int_id) auto
  show ?thesis
  proof (cases rule: line_cases [OF u repr_no_cr(2)])
    case 1
    then show ?thesis using d by (simp add: processMultiBulkItem_def readLine_def item_wait)
  next
    case (2 y)
    have l: "readLongLong (unread r) = ?n" using readLongLong_dec [of "length ts" "LF # y"] ok(1) 2(2) by simp
    let ?r = "r\<lparr>pos := pos r + (length ?d + 2)\<rparr>"
    have len: "length ?d + 2 \<le> length (unread r)" "drop (length ?d + 2) (unread r) = y" using 2(2) by auto
    show ?thesis
    proof (cases ts)
      case Nil
      have "item_ok r fut (plug fs (WArr ts)) tail (do { r1 \<leftarrow> store ?r (HArr 0 []); r2 \<leftarrow> next_task r1; Some (True, r2) })"
        by (rule at_elem_consume [OF at]) (use 2 len Nil in auto)
      then show ?thesis using 2(1,2) d l c Nil by (simp add: processMultiBulkItem_def readLine_def Let_def add.assoc)
    next
      case (Cons t us)
      have ne: "ts \<noteq> []" using Cons by simp
      let ?x = "HArr ?n (replicate (length ts) None)"
      obtain z where z: "build fs (Some ?x) = Some z" "store ?r ?x = Some (?r\<lparr>root := Some z\<rparr>)"
        using store_at [of ?r "\<lparr>ttype = Some TArray, elements = - 1, idx = idx_of fs\<rparr>" fs ?x] st by auto
      let ?r2 = "?r\<lparr>root := Some z, rstack := new_task 0 # \<lparr>ttype = Some TArray, elements = ?n, idx = idx_of fs\<rparr> # parents fs\<rparr>"
      have pm: "processMultiBulkItem r = Some (True, ?r2)"
        using 2(1) d l c ne z(2) st(1) by (simp add: processMultiBulkItem_def readLine_def Let_def add.assoc)
      have dt: "\<forall>v \<in> set ts. length fs + 1 + wdepth v \<le> 8" using dep wdepth_elem [of _ ts] by fastforce
      have "at_elem ?r2 fut (([], us) # fs) t False tail"
        using st p td ok(2) dt Cons z(1) 2(3) len
        by (auto simp: at_elem_def stack_of_def new_task_def idx_of_def unread_def list_all_iff add.commute)
      then have "goes_on ?r2 fut (plug fs (WArr ts)) tail" unfolding goes_on_def using Cons by (intro disjI2 exI [of _ "([], us) # fs"] exI [of _ t]) simp
      then show ?thesis unfolding item_ok_def pm by (intro exI [of _ True] exI [of _ ?r2]) simp
    qed
  qed
qed

lemma typed_item_ok:
  assumes at: "at_elem r fut fs cur True tail"
  shows "item_ok r fut (plug fs cur) tail (typed_item (wtype cur) r)"
proof -
  have ok: "wire_ok cur" using at by (simp add: at_elem_def)
  show ?thesis
  proof (cases cur)
    case (WInt v)
    then show ?thesis using line_item [OF at, of "ll_repr v" TInteger] ok repr_no_cr(1) [of v]
      by (simp add: typed_item_def wtype_def readLongLong_repr)
  next
    case (WStatus s)
    then show ?thesis using line_item [OF at, of s TStatus] ok by (simp add: typed_item_def wtype_def)
  next
    case (WErr s)
    then show ?thesis using line_item [OF at, of s TError] ok by (simp add: typed_item_def wtype_def)
  qed (use at in \<open>auto simp: typed_item_def wtype_def intro: bulk_item bulk_nil_item multibulk_item multibulk_nil_item\<close>)
qed

text \<open>An item, with the reading of its type byte.\<close>

lemma item_okE:
  assumes "item_ok r fut t tail res"
  obtains (done') r' where "res = Some (True, r')" "rbuf r' = rbuf r" "pos r < pos r'" "goes_on r' fut t tail"
  | (wait) "res = Some (False, r)" "fut \<noteq> []"
  using assms unfolding item_ok_def by (metis (full_types))

lemma processItem_ok:
  assumes at: "at_elem r fut fs cur typed tail"
  shows "\<exists>ok r'. processItem r = Some (ok, r') \<and> rbuf r' = rbuf r \<and>
    (if ok then pos r < pos r' \<and> goes_on r' fut (plug fs cur) tail
     else fut \<noteq> [] \<and> (\<exists>typed'. at_elem r' fut fs cur typed' tail))"
proof (cases typed)
  case True
  then have "processItem r = typed_item (wtype cur) r" using at by (simp add: processItem_def at_elem_def stack_of_def)
  moreover have "at_elem r fut fs cur True tail" using at True by simp
  from typed_item_ok [OF this] have "(\<exists>r'. typed_item (wtype cur) r = Some (True, r') \<and> rbuf r' = rbuf r \<and> pos r < pos r' \<and>
      goes_on r' fut (plug fs cur) tail) \<or> typed_item (wtype cur) r = Some (False, r) \<and> fut \<noteq> []"
    by (cases rule: item_okE) blast+
  ultimately show ?thesis using at by auto
next
  case False
  let ?c = "\<lparr>ttype = None, elements = - 1, idx = idx_of fs\<rparr>"
  have st: "rstack r = ?c # parents fs" and u: "unread r @ fut = type_byte cur # payload cur @ later fs @ tail" and p: "pos r \<le> length (rbuf r)"
    using at False by (auto simp: at_elem_def stack_of_def wenc_def)
  show ?thesis
  proof (cases "unread r")
    case Nil
    then have "processItem r = Some (False, r)" "fut \<noteq> []" using st u by (auto simp: processItem_def unread_def)
    then show ?thesis using at by auto
  next
    case (Cons b y)
    then have b: "b = type_byte cur" "y @ fut = payload cur @ later fs @ tail" using u by auto
    have lt: "pos r < length (rbuf r)" using Cons by (auto simp: unread_def intro: ccontr)
    have nth: "rbuf r ! pos r = b" "drop (Suc (pos r)) (rbuf r) = y" using Cons lt by (auto simp: unread_def Cons_nth_drop_Suc [symmetric])
    let ?r = "r\<lparr>pos := pos r + 1, rstack := ?c\<lparr>ttype := Some (wtype cur)\<rparr> # parents fs\<rparr>"
    have e: "processItem r = typed_item (wtype cur) ?r" using st lt nth b(1) by (simp add: processItem_def Suc_le_eq)
    have at': "at_elem ?r fut fs cur True tail" using at False lt nth(2) b(2) by (simp add: at_elem_def stack_of_def unread_def)
    show ?thesis
    proof (cases rule: item_okE [OF typed_item_ok [OF at']])
      case (1 r')
      then show ?thesis using e by (intro exI [of _ True] exI [of _ r']) simp
    next
      case 2
      then show ?thesis using e at' by (intro exI [of _ False] exI [of _ ?r]) auto
    qed
  qed
qed

lemma items_loop_ok:
  "goes_on r fut t tail \<or> (\<exists>fs cur typed. plug fs cur = t \<and> at_elem r fut fs cur typed tail) \<Longrightarrow> length (rbuf r) - pos r < fuel \<Longrightarrow>
   \<exists>r'. items_loop fuel r = Some r' \<and> rbuf r' = rbuf r \<and>
     (finished r' fut t tail \<or> (fut \<noteq> [] \<and> (\<exists>fs cur typed. plug fs cur = t \<and> at_elem r' fut fs cur typed tail)))"
proof (induction fuel arbitrary: r)
  case (Suc fuel)
  show ?case
  proof (cases "finished r fut t tail")
    case True
    then show ?thesis by (subst items_loop.simps) (simp add: finished_def)
  next
    case False
    then obtain fs cur typed where at: "plug fs cur = t" "at_elem r fut fs cur typed tail" using Suc.prems(1) by (auto simp: goes_on_def)
    then have ne: "rstack r \<noteq> []" by (simp add: at_elem_def stack_of_def)
    from processItem_ok [OF at(2)] obtain ok r' where r': "processItem r = Some (ok, r')" "rbuf r' = rbuf r"
      "if ok then pos r < pos r' \<and> goes_on r' fut t tail else fut \<noteq> [] \<and> (\<exists>typed'. at_elem r' fut fs cur typed' tail)"
      unfolding at(1) by blast
    show ?thesis
    proof (cases ok)
      case True
      then have g: "goes_on r' fut t tail" "pos r < pos r'" using r'(3) by auto
      have "pos r' \<le> length (rbuf r')" using g(1) by (auto simp: goes_on_def finished_def at_elem_def)
      then have "length (rbuf r') - pos r' < fuel" using Suc.prems(2) g(2) r'(2) by simp
      from Suc.IH [OF disjI1 [OF g(1)] this] show ?thesis using r'(1,2) True ne by (subst items_loop.simps) simp
    next
      case False
      then show ?thesis using r' ne at(1) by (subst items_loop.simps) auto
    qed
  qed
qed simp

section \<open>Getting replies\<close>

definition idle_reader :: "reader \<Rightarrow> bool" where
  "idle_reader r \<longleftrightarrow> err r = None \<and> pos r \<le> length (rbuf r) \<and> rstack r = [] \<and> root r = None"

definition expects :: "reader \<Rightarrow> bytes \<Rightarrow> wire \<Rightarrow> bytes \<Rightarrow> bool" where
  "expects r fut t tail \<longleftrightarrow>
     idle_reader r \<and> unread r @ fut = wenc t @ tail \<and> wire_ok t \<and> wdepth t \<le> 8 \<or>
     (\<exists>fs cur typed. plug fs cur = t \<and> at_elem r fut fs cur typed tail)"

lemma payload_ne: "payload t \<noteq> []"
  by (cases t) auto

lemma expects_fut: "expects r fut t tail \<Longrightarrow> unread r = [] \<Longrightarrow> fut \<noteq> []"
  using payload_ne by (auto simp: expects_def at_elem_def wenc_def split: if_splits)

lemma at_elem_trim: "at_elem (r\<lparr>rbuf := drop (pos r) (rbuf r), pos := 0\<rparr>) fut fs cur typed tail = at_elem r fut fs cur typed tail"
  if "pos r \<le> length (rbuf r)"
  using that by (simp add: at_elem_def unread_def)

lemma getReply_ok:
  assumes e: "expects r fut t tail"
  shows "\<exists>rep r'. redisReaderGetReply r = Some (True, rep, r') \<and>
    (rep = Some (obj_of t) \<and> idle_reader r' \<and> unread r' @ fut = tail \<or> rep = None \<and> fut \<noteq> [] \<and> expects r' fut t tail)"
proof (cases "rbuf r = []")
  case True
  then have "redisReaderGetReply r = Some (True, None, r)"
    using e by (auto simp: redisReaderGetReply_def expects_def idle_reader_def at_elem_def)
  then show ?thesis using e expects_fut [OF e] True by (auto simp: unread_def)
next
  case False
  define r0 where "r0 = (if rstack r = [] then r\<lparr>rstack := [new_task (- 1)]\<rparr> else r)"
  have er: "err r = None" using e by (auto simp: expects_def idle_reader_def at_elem_def)
  have at: "\<exists>fs cur typed. plug fs cur = t \<and> at_elem r0 fut fs cur typed tail"
  proof (cases "rstack r = []")
    case True
    then have i: "idle_reader r" "unread r @ fut = wenc t @ tail" "wire_ok t" "wdepth t \<le> 8"
      using e by (auto simp: expects_def at_elem_def stack_of_def)
    then have "at_elem r0 fut [] t False tail"
      by (simp add: at_elem_def r0_def idle_reader_def stack_of_def idx_of_def new_task_def unread_def)
    then show ?thesis by (intro exI [of _ "[]"] exI [of _ t] exI [of _ False]) simp
  next
    case False
    then show ?thesis using e by (auto simp: expects_def idle_reader_def r0_def)
  qed
  have "length (rbuf r0) - pos r0 < Suc (length (rbuf r0) - pos r0)" by simp
  from items_loop_ok [OF disjI2 [OF at] this] obtain r1 where
    r1: "items_loop (Suc (length (rbuf r0) - pos r0)) r0 = Some r1"
      "finished r1 fut t tail \<or> (fut \<noteq> [] \<and> (\<exists>fs cur typed. plug fs cur = t \<and> at_elem r1 fut fs cur typed tail))" by blast
  define r2 where "r2 = (if pos r1 \<ge> 1024 then r1\<lparr>rbuf := drop (pos r1) (rbuf r1), pos := 0\<rparr> else r1)"
  have er1: "err r1 = None" using r1(2) by (auto simp: finished_def at_elem_def)
  have g: "redisReaderGetReply r = (if rstack r2 = [] then Some (True, root r2, r2\<lparr>root := None\<rparr>) else Some (True, None, r2))"
    using er er1 False r1(1) by (simp add: redisReaderGetReply_def r0_def [symmetric] r2_def [symmetric] Let_def)
  show ?thesis
  proof (cases "finished r1 fut t tail")
    case True
    then have "rstack r2 = []" "root r2 = Some (obj_of t)" "idle_reader (r2\<lparr>root := None\<rparr>)" "unread (r2\<lparr>root := None\<rparr>) @ fut = tail"
      by (auto simp: finished_def r2_def idle_reader_def unread_def)
    then show ?thesis using g by simp
  next
    case False
    then obtain fs cur typed where a: "fut \<noteq> []" "plug fs cur = t" "at_elem r1 fut fs cur typed tail" using r1(2) by blast
    have "pos r1 \<le> length (rbuf r1)" using a(3) by (simp add: at_elem_def)
    then have a2: "at_elem r2 fut fs cur typed tail" using a(3) at_elem_trim [of r1] by (simp add: r2_def)
    then have "rstack r2 \<noteq> []" by (simp add: at_elem_def stack_of_def)
    moreover have "expects r2 fut t tail" unfolding expects_def using a(2) a2 by blast
    ultimately show ?thesis using g a(1) by simp
  qed
qed

lemma at_elem_feed: "at_elem r (data @ fut) fs cur typed tail \<Longrightarrow> at_elem (r\<lparr>rbuf := rbuf r @ data\<rparr>) fut fs cur typed tail"
  by (simp add: at_elem_def unread_def)

lemma expects_feed:
  assumes "expects r (data @ fut) t tail"
  shows "expects (r\<lparr>rbuf := rbuf r @ data\<rparr>) fut t tail"
proof (cases "idle_reader r \<and> unread r @ data @ fut = wenc t @ tail \<and> wire_ok t \<and> wdepth t \<le> 8")
  case True
  then show ?thesis by (simp add: expects_def idle_reader_def unread_def)
next
  case False
  then obtain fs cur typed where "plug fs cur = t" "at_elem r (data @ fut) fs cur typed tail" using assms unfolding expects_def by blast
  then show ?thesis unfolding expects_def using at_elem_feed by blast
qed

lemma redisGetReply_ok:
  "expects r (concat chunks) t tail \<Longrightarrow> [] \<notin> set chunks \<Longrightarrow>
   \<exists>chunks' r'. redisGetReply chunks r = Some (Reply (obj_of t), chunks', r') \<and> idle_reader r' \<and> unread r' @ concat chunks' = tail \<and>
     set chunks' \<subseteq> set chunks"
proof (induction chunks arbitrary: r)
  case Nil
  then show ?case using getReply_ok [OF Nil(1)] by (subst redisGetReply.simps) auto
next
  case (Cons data chunks)
  from getReply_ok [OF Cons.prems(1)] obtain rep r' where g: "redisReaderGetReply r = Some (True, rep, r')"
    "rep = Some (obj_of t) \<and> idle_reader r' \<and> unread r' @ concat (data # chunks) = tail \<or> rep = None \<and> expects r' (concat (data # chunks)) t tail" by blast
  show ?case
  proof (cases rep)
    case None
    with g(2) have e: "expects r' (data @ concat chunks) t tail" by simp
    then have "err r' = None" by (auto simp: expects_def idle_reader_def at_elem_def)
    moreover have "data \<noteq> []" "[] \<notin> set chunks" using Cons.prems(2) by auto
    ultimately show ?thesis using g(1) None Cons.IH [OF expects_feed [OF e]]
      by (subst redisGetReply.simps) (auto simp: redisReaderFeed_def)
  next
    case (Some x)
    then show ?thesis using g by (subst redisGetReply.simps) auto
  qed
qed



end
