(* ===== verification/Client_Server.thy ===== *)
theory Client_Server
  imports Commands Hiredis_Reader Output_Buffer Dict_Hash
begin

text \<open>
  A client of \<^verbatim>\<open>src/hiredis/hiredis.cc\<close> talking to the server of \<^verbatim>\<open>debug/redis/src\<close>: the lookup of a command in the table,
  the bytes of its reply, and the composition of the request formatter, the request parser, the dispatch, the output
  buffer and the reply reader.
\<close>

section \<open>The command table\<close>

text \<open>
  Name, arity and the decoding of the arguments, for the commands that are modelled. The table is a dictionary
  that compares names without case; names are taken without zero bytes.
\<close>

type_synonym 'c row = "string \<times> int \<times> (bytes list \<Rightarrow> 'c request)"

definition redisCommandTable :: "cmd row list" where
  "redisCommandTable =
    [(''get'', 2, \<lambda>a. CMD (Get (a ! 0))),
     (''set'', - 3, \<lambda>a. CMD (Set (a ! 0) (a ! 1) (drop 2 a))),
     (''setnx'', 3, \<lambda>a. CMD (Setnx (a ! 0) (a ! 1))),
     (''setex'', 4, \<lambda>a. CMD (Setex (a ! 0) (a ! 1) (a ! 2))),
     (''psetex'', 4, \<lambda>a. CMD (Psetex (a ! 0) (a ! 1) (a ! 2))),
     (''append'', 3, \<lambda>a. CMD (Append (a ! 0) (a ! 1))),
     (''strlen'', 2, \<lambda>a. CMD (Strlen (a ! 0))),
     (''del'', - 2, \<lambda>a. CMD (Del a)),
     (''exists'', 2, \<lambda>a. CMD (Exists (a ! 0))),
     (''setrange'', 4, \<lambda>a. CMD (Setrange (a ! 0) (a ! 1) (a ! 2))),
     (''incr'', 2, \<lambda>a. CMD (Incr (a ! 0))),
     (''decr'', 2, \<lambda>a. CMD (Decr (a ! 0))),
     (''mget'', - 2, \<lambda>a. CMD (Mget a)),
     (''incrby'', 3, \<lambda>a. CMD (Incrby (a ! 0) (a ! 1))),
     (''decrby'', 3, \<lambda>a. CMD (Decrby (a ! 0) (a ! 1))),
     (''getset'', 3, \<lambda>a. CMD (Getset (a ! 0) (a ! 1))),
     (''mset'', - 3, \<lambda>a. CMD (Mset a)),
     (''msetnx'', - 3, \<lambda>a. CMD (Msetnx a)),
     (''select'', 2, \<lambda>a. CMD (Select (a ! 0))),
     (''rename'', 3, \<lambda>a. CMD (Rename (a ! 0) (a ! 1))),
     (''renamenx'', 3, \<lambda>a. CMD (Renamenx (a ! 0) (a ! 1))),
     (''expire'', 3, \<lambda>a. CMD (Expire (a ! 0) (a ! 1))),
     (''expireat'', 3, \<lambda>a. CMD (Expireat (a ! 0) (a ! 1))),
     (''pexpire'', 3, \<lambda>a. CMD (Pexpire (a ! 0) (a ! 1))),
     (''pexpireat'', 3, \<lambda>a. CMD (Pexpireat (a ! 0) (a ! 1))),
     (''dbsize'', 1, \<lambda>a. CMD Dbsize),
     (''type'', 2, \<lambda>a. CMD (Type (a ! 0))),
     (''multi'', 1, \<lambda>a. MULTI),
     (''exec'', 1, \<lambda>a. EXEC),
     (''discard'', 1, \<lambda>a. DISCARD),
     (''flushdb'', 1, \<lambda>a. CMD Flushdb),
     (''flushall'', 1, \<lambda>a. CMD Flushall),
     (''ttl'', 2, \<lambda>a. CMD (Ttl (a ! 0))),
     (''pttl'', 2, \<lambda>a. CMD (Pttl (a ! 0))),
     (''persist'', 2, \<lambda>a. CMD (Persist (a ! 0))),
     (''setbit'', 4, \<lambda>a. CMD (Setbit (a ! 0) (a ! 1) (a ! 2))),
     (''getbit'', 3, \<lambda>a. CMD (Getbit (a ! 0) (a ! 1))),
     (''bitop'', - 4, \<lambda>a. CMD (Bitop (a ! 0) (a ! 1) (drop 2 a))),
     (''bitcount'', - 2, \<lambda>a. CMD (Bitcount (a ! 0) (tl a))),
     (''watch'', - 2, \<lambda>a. WATCH a),
     (''unwatch'', 1, \<lambda>a. UNWATCH)]"

definition lookupCommand :: "'c row list \<Rightarrow> bytes \<Rightarrow> 'c row option" where
  "lookupCommand tab name = find (\<lambda>(n, _). ctext n = map tolower name) tab"

definition bad_arity :: "int \<Rightarrow> int \<Rightarrow> bool" where
  "bad_arity arity argc \<longleftrightarrow> arity > 0 \<and> arity \<noteq> argc \<or> argc < - arity"

text \<open>The name as the error message shows it.\<close>

definition shown :: "bytes \<Rightarrow> string" where
  "shown name = map (\<lambda>b. if b = 13 \<or> b = 10 then CHR '' '' else char_of (unat b)) (cstr name)"

text \<open>
  \<^verbatim>\<open>processCommand\<close> from the argument vector on. \<open>adm\<close> gives the outcome of the admission tests that follow the
  lookup and the check of the arity. The request is not looked at when one of these two rejects.
\<close>

definition dispatch ::
    "'c row list \<Rightarrow> ('c, 'o) runner \<Rightarrow> ('c request \<Rightarrow> bool) \<Rightarrow> (('c, 'o) mserver \<Rightarrow> bytes list \<Rightarrow> admission) \<Rightarrow>
     ('c, 'o) mserver \<Rightarrow> nat \<Rightarrow> bytes list \<Rightarrow> ('c, 'o) mserver option" where
  "dispatch tab run ro adm s c args =
     (case lookupCommand tab (hd args) of
        None \<Rightarrow> processCommand run ro ((adm s args)\<lparr>ck_name := shown (hd args), ck_unknown := True\<rparr>) s c UNWATCH
      | Some (name, arity, decode) \<Rightarrow>
          let bad = bad_arity arity (int (length args)) in
          processCommand run ro ((adm s args)\<lparr>ck_name := name, ck_unknown := False, ck_arity := bad\<rparr>) s c
            (if bad then UNWATCH else decode (tl args)))"

section \<open>Replies as bytes\<close>

abbreviation shared :: "string \<Rightarrow> unit robj" where
  "shared s \<equiv> RawStr (ctext s @ CRLF)"

fun emit :: "reply \<Rightarrow> oclient \<Rightarrow> oclient option" where
  "emit ROk c = Output_Buffer.addReply c (shared ''+OK'')"
| "emit (RErr m) c =
     Some (if take 4 m = ''ERR '' then addReplyErrorLength c (ctext (drop 4 m)) else addReplyString c (ctext (CHR ''-'' # m) @ CRLF))"
| "emit (RInt v) c = addReplyLongLong c v"
| "emit (RBulk s) c = addReplyBulk c (RawStr s :: unit robj)"
| "emit RNull c = Output_Buffer.addReply c (shared ''$-1'')"
| "emit REmpty c = Output_Buffer.addReply c (RawStr (ctext ''$0'' @ CRLF @ CRLF) :: unit robj)"
| "emit (RStatus m) c = Some (addReplyStatusLength c (ctext m))"
| "emit (RMulti rs) c =
     do { c \<leftarrow> addReplyMultiBulkLen c (int (length rs)); foldl (\<lambda>c r. Option.bind c (emit r)) (Some c) rs }"

definition emit_item :: "oclient \<Rightarrow> mreply \<Rightarrow> oclient option" where
  "emit_item c m =
     (case m of R r \<Rightarrow> emit r c | NullMulti \<Rightarrow> Output_Buffer.addReply c (shared ''*-1'') | MultiLen n \<Rightarrow> addReplyMultiBulkLen c (int n))"

fun emit_all :: "oclient \<Rightarrow> mreply list \<Rightarrow> oclient option" where
  "emit_all c [] = Some c"
| "emit_all c (m # ms) = do { c \<leftarrow> emit_item c m; emit_all c ms }"

text \<open>
  The whole of the server for one client: a command is run and its replies are added to the client's output. \<open>None\<close>
  stands for a failed assertion. QUIT is handled before the lookup.
\<close>

definition execute ::
    "'c row list \<Rightarrow> ('c, 'o) runner \<Rightarrow> ('c request \<Rightarrow> bool) \<Rightarrow> (('c, 'o) mserver \<Rightarrow> bytes list \<Rightarrow> admission) \<Rightarrow> nat \<Rightarrow>
     bytes list \<Rightarrow> (('c, 'o) mserver \<times> oclient) option \<Rightarrow> (('c, 'o) mserver \<times> oclient) option \<times> outcome" where
  "execute tab run ro adm c args st =
     (if map tolower (cstr (hd args)) = ctext ''quit'' then
        (do { (s, oc) \<leftarrow> st; oc \<leftarrow> Output_Buffer.addReply oc (shared ''+OK''); Some (s, oc\<lparr>closing := True\<rparr>) }, Quits)
      else
        (do { (s, oc) \<leftarrow> st;
              s' \<leftarrow> dispatch tab run ro adm s c args;
              oc \<leftarrow> emit_all oc (drop (length (out (cl s c))) (out (cl s' c)));
              Some (s', oc) }, Done))"

section \<open>One reply for each command\<close>

fun wire_of :: "reply \<Rightarrow> wire" where
  "wire_of ROk = WStatus (ctext ''OK'')"
| "wire_of (RErr m) = WErr (ctext m)"
| "wire_of (RInt v) = WInt v"
| "wire_of (RBulk s) = WStr s"
| "wire_of RNull = WNil"
| "wire_of REmpty = WStr []"
| "wire_of (RStatus m) = WStatus (ctext m)"
| "wire_of (RMulti rs) = WArr (map wire_of rs)"

fun answer :: "mreply list \<Rightarrow> wire option" where
  "answer [R r] = Some (wire_of r)"
| "answer [NullMulti] = Some WNilArr"
| "answer (MultiLen n # ms) =
     (if length ms = n \<and> list_all (\<lambda>m. case m of R _ \<Rightarrow> True | _ \<Rightarrow> False) ms then Some (WArr (map (\<lambda>m. case m of R r \<Rightarrow> wire_of r | _ \<Rightarrow> WNil) ms)) else None)"
| "answer _ = None"

lemma answer_multi: "length rs = n \<Longrightarrow> answer (MultiLen n # map R rs) = Some (WArr (map wire_of rs))"
  by (simp add: list_all_iff)

lemma run_seq_length: "run_seq run rs k d = Some (k', reps, d') \<Longrightarrow> length reps = length rs"
  by (induction rs arbitrary: k d k' reps d') (auto split: Option.bind_splits)

lemma watch_fold_out: "out (cl (fold (\<lambda>key s. watchForKey s c key) keys s) c) = out (cl s c)"
  by (induction keys arbitrary: s) (simp_all add: watchForKey_def Let_def)

definition answered :: "nat \<Rightarrow> ('c, 'o) mserver \<Rightarrow> ('c, 'o) mserver \<Rightarrow> bool" where
  "answered c s s' \<longleftrightarrow> (\<exists>ms t. out (cl s' c) = out (cl s c) @ ms \<and> answer ms = Some t)"

lemma answered_reply: "out (cl s' c) = out (cl s c) \<Longrightarrow> answered c s (Multi.addReply s' c (R r))"
  by (auto simp: answered_def Multi.addReply_def)

lemma answeredI: "out (cl s' c) = out (cl s c) @ ms \<Longrightarrow> answer ms = Some t \<Longrightarrow> answered c s s'"
  by (auto simp: answered_def)

context command_table
begin

lemma exec_answered:
  assumes "msrv_ok s"
  shows "\<exists>s'. execCommand run ro s a = Some s' \<and> answered a s s'"
proof (cases "in_multi (cl s a)")
  case False
  then show ?thesis by (simp add: execCommand_def answered_reply)
next
  case True
  show ?thesis
  proof (cases "dirty_cas (cl s a) \<or> dirty_exec (cl s a)")
    case d: True
    let ?m = "if dirty_exec (cl s a) then R (RErr ''EXECABORT Transaction discarded because of previous errors.'') else NullMulti"
    from exec_abort [OF assms True d] obtain s' where s': "execCommand run ro s a = Some s'"
      "cl s' a = (cl s a)\<lparr>in_multi := False, dirty_cas := False, dirty_exec := False, mstate := [], watched_keys := [],
         out := out (cl s a) @ [?m]\<rparr>" by blast
    have "out (cl s' a) = out (cl s a) @ [?m]" unfolding s'(2) by simp
    moreover have "answer [?m] = Some (if dirty_exec (cl s a) then wire_of (RErr ''EXECABORT Transaction discarded because of previous errors.'') else WNilArr)"
      by (cases "dirty_exec (cl s a)") simp_all
    ultimately show ?thesis using answeredI s'(1) by blast
  next
    case False
    with exec_run [OF assms True] obtain s' k reps d where r: "execCommand run ro s a = Some s'"
      "run_seq run (mstate (cl s a)) (ks s) (selected (cl s a)) = Some (k, reps, d)"
      "out (cl s' a) = out (cl s a) @ MultiLen (length (mstate (cl s a))) # map R reps" by blast
    from answeredI [OF r(3) answer_multi [OF run_seq_length [OF r(2)]]] r(1) show ?thesis by blast
  qed
qed

lemma call_answered:
  assumes "msrv_ok s"
  shows "\<exists>s'. call run ro s a q = Some s' \<and> answered a s s'"
proof (cases q)
  case EXEC
  obtain s' where "execCommand run ro s a = Some s'" "answered a s s'" using exec_answered [OF assms] by blast
  then show ?thesis using EXEC by (auto simp: call_def answered_def)
next
  case DISCARD
  then show ?thesis using discardTransaction_act [OF assms, of a] by (auto simp: call_def discardCommand_def intro!: answered_reply)
next
  case UNWATCH
  then show ?thesis using unwatchCommand_act [OF assms, of a] by (fastforce simp: call_def call_queued_def intro!: answeredI)
next
  case (CMD x)
  then show ?thesis using call_queued_cmd [OF assms, of a x] by (fastforce simp: call_def intro!: answeredI)
qed (auto simp: call_def multiCommand_def watchCommand_def watch_fold_out intro!: answered_reply)

lemma processCommand_answered:
  assumes "msrv_ok s"
  shows "\<exists>s'. processCommand run ro ck s a q = Some s' \<and> answered a s s'"
proof -
  have "answered a s (Multi.addReply (flagTransaction s a) a (R m))" "answered a s (Multi.addReply s a (R m))"
    "answered a s (Multi.addReply (queueMultiCommand s a q) a (R m))" for m
    by (rule answered_reply, simp add: flagTransaction_def queueMultiCommand_def)+
  then show ?thesis using call_answered [OF assms] unfolding processCommand_def Let_def by (auto split: if_splits)
qed

lemma dispatch_answered:
  assumes "msrv_ok s" "a \<in> set (client_ids s)"
  shows "\<exists>s'. dispatch tab run ro adm s a args = Some s' \<and> answered a s s' \<and> msrv_ok s' \<and> client_ids s' = client_ids s"
proof -
  have "\<exists>ck q. dispatch tab run ro adm s a args = processCommand run ro ck s a q"
    by (auto simp: dispatch_def Let_def split: option.split)
  then obtain ck q where d: "dispatch tab run ro adm s a args = processCommand run ro ck s a q" by blast
  obtain s' where "processCommand run ro ck s a q = Some s'" "answered a s s'" using processCommand_answered [OF assms(1)] by blast
  moreover from this(1) have "act a (q = EXEC \<or> q = DISCARD \<or> q = UNWATCH) s s'" using processCommand_act [OF assms, of ro ck q] by auto
  ultimately show ?thesis using d act_ok act_ids by auto
qed

end


section \<open>The bytes of a reply\<close>

lemma crlf: "CRLF = [CR, LF]"
  by (simp add: CRLF_def)

lemma ctext_simps [simp]: "ctext [] = []" "ctext (c # s) = of_char c # ctext s" "ctext (s @ t) = ctext s @ ctext t"
  by (simp_all add: ctext_def)

lemma ll_dec: "ll_repr (int n) = dec n"
  by (simp add: ll_repr_def)

lemma addReplyMultiBulkLen_eq: "n < 2 ^ 63 \<Longrightarrow> addReplyMultiBulkLen c (int n) = Some (addReplyString c (num (chr CHR ''*'') (int n)))"
  unfolding addReplyMultiBulkLen_def by (rule addReplyLongLongWithPrefix_eq) (simp_all add: is_ll_def)

lemma wenc_arr: "wenc (WArr ts) = num (chr CHR ''*'') (int (length ts)) @ concat (map wenc ts)"
  by (simp add: wenc_def [abs_def] type_byte_def num_def ll_dec crlf)

lemma emits:
  assumes "wire_ok (wire_of r)"
  shows "\<exists>c'. emit r c = Some c' \<and> adds (wenc (wire_of r)) c c'"
  using assms
proof (induction r arbitrary: c)
  case ROk
  then show ?case using addReplyString_adds [of "ctext ''+OK'' @ CRLF" c] by (simp add: addReply_raw wenc_def type_byte_def crlf)
next
  case (RErr m)
  show ?case
  proof (cases "take 4 m = ''ERR ''")
    case True
    then have "m = ''ERR '' @ drop 4 m" by (metis append_take_drop_id)
    then have "ctext m = ctext ''ERR '' @ ctext (drop 4 m)" by (metis ctext_simps(3))
    then show ?thesis using True addReplyErrorLength_adds [of "ctext (drop 4 m)" c] by (simp add: wenc_def type_byte_def crlf)
  next
    case False
    then show ?thesis using addReplyString_adds [of "ctext (CHR ''-'' # m) @ CRLF" c] by (simp add: wenc_def type_byte_def crlf)
  qed
next
  case (RInt v)
  then show ?case using addReplyLongLong_eq [of v c] addReplyString_adds [of "num (chr CHR '':'') v" c]
    by (simp add: wenc_def type_byte_def num_def crlf)
next
  case (RBulk s)
  then show ?case using addReplyBulk_adds [of "RawStr s :: unit robj" s c] by (simp add: wenc_def type_byte_def bulk_def num_def ll_dec crlf)
next
  case RNull
  then show ?case using addReplyString_adds [of "ctext ''$-1'' @ CRLF" c]
    by (simp add: addReply_raw wenc_def type_byte_def crlf ll_repr_def dec.simps digit_def)
next
  case REmpty
  then show ?case using addReplyString_adds [of "ctext ''$0'' @ CRLF @ CRLF" c]
    by (simp add: addReply_raw wenc_def type_byte_def crlf dec.simps digit_def)
next
  case (RStatus m)
  then show ?case using addReplyStatusLength_adds [of "ctext m" c] by (simp add: wenc_def type_byte_def crlf)
next
  case (RMulti rs)
  have l: "length rs < 2 ^ 63" using RMulti.prems by simp
  have "\<exists>c''. foldl (\<lambda>c r. Option.bind c (emit r)) (Some c') qs = Some c'' \<and> adds (concat (map (\<lambda>r. wenc (wire_of r)) qs)) c' c''"
    if "set qs \<subseteq> set rs" for qs c'
    using that
  proof (induction qs arbitrary: c')
    case Nil
    then show ?case by (simp add: adds_refl)
  next
    case (Cons q qs)
    have q: "q \<in> set rs" "wire_ok (wire_of q)" using Cons.prems RMulti.prems by (auto simp: list_all_iff)
    from RMulti.IH [OF q, of c'] obtain c1 where c1: "emit q c' = Some c1" "adds (wenc (wire_of q)) c' c1" by blast
    from Cons.IH [of c1] Cons.prems obtain c2 where c2: "foldl (\<lambda>c r. Option.bind c (emit r)) (Some c1) qs = Some c2"
      "adds (concat (map (\<lambda>r. wenc (wire_of r)) qs)) c1 c2" by auto
    then show ?case using c1 adds_trans [OF c1(2) c2(2)] by simp
  qed
  from this [OF subset_refl, of "addReplyString c (num (chr CHR ''*'') (int (length rs)))"] obtain c'' where
    "foldl (\<lambda>c r. Option.bind c (emit r)) (Some (addReplyString c (num (chr CHR ''*'') (int (length rs))))) rs = Some c''"
    "adds (concat (map (\<lambda>r. wenc (wire_of r)) rs)) (addReplyString c (num (chr CHR ''*'') (int (length rs)))) c''" by blast
  then show ?case using adds_trans [OF addReplyString_adds] addReplyMultiBulkLen_eq [OF l, of c] by (fastforce simp: wenc_arr comp_def)
qed

lemma emit_all_R:
  "list_all (\<lambda>r. wire_ok (wire_of r)) rs \<Longrightarrow> \<exists>c'. emit_all c (map R rs) = Some c' \<and> adds (concat (map (\<lambda>r. wenc (wire_of r)) rs)) c c'"
proof (induction rs arbitrary: c)
  case Nil
  then show ?case by (simp add: adds_refl)
next
  case (Cons r rs)
  from emits [of r c] Cons.prems obtain c1 where c1: "emit r c = Some c1" "adds (wenc (wire_of r)) c c1" by auto
  from Cons.IH [of c1] Cons.prems obtain c2 where "emit_all c1 (map R rs) = Some c2" "adds (concat (map (\<lambda>r. wenc (wire_of r)) rs)) c1 c2" by auto
  then show ?case using c1 adds_trans [OF c1(2)] by (fastforce simp: emit_item_def)
qed

lemma emit_all_answer:
  assumes "answer ms = Some t" "wire_ok t"
  shows "\<exists>c'. emit_all c ms = Some c' \<and> adds (wenc t) c c'"
  using assms
proof (cases ms rule: answer.cases)
  case (1 r)
  then show ?thesis using emit_all_R [of "[r]" c] assms by simp
next
  case 2
  then show ?thesis using assms addReplyString_adds [of "ctext ''*-1'' @ CRLF" c]
    by (simp add: emit_item_def addReply_raw wenc_def type_byte_def crlf ll_repr_def dec.simps digit_def)
next
  case (3 n ms')
  then have a: "\<forall>m \<in> set ms'. case m of R _ \<Rightarrow> True | _ \<Rightarrow> False" and n: "length ms' = n" and t: "t = WArr (map (\<lambda>m. case m of R r \<Rightarrow> wire_of r | _ \<Rightarrow> WNil) ms')"
    using assms(1) by (auto simp: list_all_iff split: if_splits)
  have "\<exists>r. m = R r" if "m \<in> set ms'" for m using a that by (cases m) auto
  then obtain rs where "ms' = map R rs" using ex_map_conv [of ms' R] by blast
  then have rs: "ms' = map R rs" "length rs = n" "t = WArr (map wire_of rs)" using n t by simp_all
  then have "list_all (\<lambda>r. wire_ok (wire_of r)) rs" "n < 2 ^ 63" using assms(2) by (auto simp: list_all_iff)
  from emit_all_R [OF this(1), of "addReplyString c (num (chr CHR ''*'') (int n))"] obtain c' where
    "emit_all (addReplyString c (num (chr CHR ''*'') (int n))) ms' = Some c'"
    "adds (concat (map (\<lambda>r. wenc (wire_of r)) rs)) (addReplyString c (num (chr CHR ''*'') (int n))) c'" using rs by auto
  then show ?thesis using 3 rs adds_trans [OF addReplyString_adds] addReplyMultiBulkLen_eq [OF \<open>n < 2 ^ 63\<close>, of c]
    by (fastforce simp: emit_item_def wenc_arr comp_def)
qed simp_all


section \<open>From the client to the server and back\<close>

text \<open>The replies to a sequence of commands, as the server's dispatch gives them.\<close>

fun answers ::
    "'c row list \<Rightarrow> ('c, 'o) runner \<Rightarrow> ('c request \<Rightarrow> bool) \<Rightarrow> (('c, 'o) mserver \<Rightarrow> bytes list \<Rightarrow> admission) \<Rightarrow> nat \<Rightarrow>
     bytes list list \<Rightarrow> ('c, 'o) mserver \<Rightarrow> (('c, 'o) mserver \<times> wire list) option" where
  "answers tab run ro adm c [] s = Some (s, [])"
| "answers tab run ro adm c (r # rs) s =
     do { s' \<leftarrow> dispatch tab run ro adm s c r;
          t \<leftarrow> answer (drop (length (out (cl s c))) (out (cl s' c)));
          (s'', ts) \<leftarrow> answers tab run ro adm c rs s';
          Some (s'', t # ts) }"

definition is_quit :: "bytes list \<Rightarrow> bool" where
  "is_quit args \<longleftrightarrow> map tolower (cstr (hd args)) = ctext ''quit''"

text \<open>\<open>n\<close> calls of \<^verbatim>\<open>redisGetReply\<close>.\<close>

fun get_replies :: "nat \<Rightarrow> bytes list \<Rightarrow> reader \<Rightarrow> hreply list option" where
  "get_replies 0 reads r = Some []"
| "get_replies (Suc n) reads r =
     do { (g, reads, r) \<leftarrow> redisGetReply reads r;
          (case g of Reply x \<Rightarrow> map_option ((#) x) (get_replies n reads r) | _ \<Rightarrow> None) }"

context command_table
begin

lemma answers_total:
  "msrv_ok s \<Longrightarrow> c \<in> set (client_ids s) \<Longrightarrow>
   \<exists>s' ts. answers tab run ro adm c reqs s = Some (s', ts) \<and> length ts = length reqs \<and> msrv_ok s'"
proof (induction reqs arbitrary: s)
  case (Cons r reqs)
  from dispatch_answered [OF Cons.prems, of tab ro adm r] obtain s1 where s1: "dispatch tab run ro adm s c r = Some s1"
    "answered c s s1" "msrv_ok s1" "client_ids s1 = client_ids s" by blast
  from s1(2) obtain ms t where m: "out (cl s1 c) = out (cl s c) @ ms" "answer ms = Some t" by (auto simp: answered_def)
  from Cons.IH [OF s1(3)] Cons.prems(2) s1(4) obtain s' ts where
    "answers tab run ro adm c reqs s1 = Some (s', ts)" "length ts = length reqs" "msrv_ok s'" by auto
  then show ?case using s1(1) m by simp
qed simp

end

lemma answers_executed:
  "answers tab run ro adm c reqs s = Some (s', ts) \<Longrightarrow> \<forall>t \<in> set ts. wire_ok t \<Longrightarrow> \<forall>r \<in> set reqs. \<not> is_quit r \<Longrightarrow>
   \<exists>oc'. run_reqs (execute tab run ro adm c) reqs (Some (s, oc)) = Some (s', oc') \<and> adds (concat (map wenc ts)) oc oc'"
proof (induction reqs arbitrary: s oc ts)
  case Nil
  then show ?case by (simp add: run_reqs_def adds_refl)
next
  case (Cons r reqs)
  from Cons.prems(1) obtain s1 t ts1 where a: "dispatch tab run ro adm s c r = Some s1"
    "answer (drop (length (out (cl s c))) (out (cl s1 c))) = Some t" "answers tab run ro adm c reqs s1 = Some (s', ts1)" "ts = t # ts1"
    by (auto split: Option.bind_splits)
  from emit_all_answer [OF a(2), of oc] Cons.prems(2) a(4) obtain oc1 where
    e: "emit_all oc (drop (length (out (cl s c))) (out (cl s1 c))) = Some oc1" "adds (wenc t) oc oc1" by auto
  from Cons.IH [OF a(3), of oc1] Cons.prems(2,3) a(4) obtain oc' where
    r: "run_reqs (execute tab run ro adm c) reqs (Some (s1, oc1)) = Some (s', oc')" "adds (concat (map wenc ts1)) oc1 oc'" by auto
  have "fst (execute tab run ro adm c r (Some (s, oc))) = Some (s1, oc1)"
    using a(1) e(1) Cons.prems(3) by (simp add: execute_def is_quit_def)
  then have "run_reqs (execute tab run ro adm c) (r # reqs) (Some (s, oc)) = Some (s', oc')" using r(1) by (simp add: run_reqs_def)
  then show ?case using adds_trans [OF e(2) r(2)] a(4) by auto
qed

lemma replies_read:
  "idle_reader r \<Longrightarrow> unread r @ concat reads = concat (map wenc ts) @ tail \<Longrightarrow> \<forall>t \<in> set ts. wire_ok t \<and> wdepth t \<le> 8 \<Longrightarrow>
   [] \<notin> set reads \<Longrightarrow> get_replies (length ts) reads r = Some (map obj_of ts)"
proof (induction ts arbitrary: reads r)
  case (Cons t ts)
  have "expects r (concat reads) t (concat (map wenc ts) @ tail)" using Cons.prems by (simp add: expects_def)
  from redisGetReply_ok [OF this Cons.prems(4)] obtain reads' r' where g: "redisGetReply reads r = Some (Reply (obj_of t), reads', r')"
    "idle_reader r'" "unread r' @ concat reads' = concat (map wenc ts) @ tail" "[] \<notin> set reads'" using Cons.prems(4) by blast
  from Cons.IH [OF g(2,3) _ g(4)] Cons.prems(3) show ?case using g(1) by simp
qed simp

lemma execute_done: "\<forall>r \<in> set reqs. \<not> is_quit r \<Longrightarrow> all_done (execute tab run ro adm c) reqs"
  by (simp add: all_done_def execute_def is_quit_def)


section \<open>Witness\<close>

definition sample_reqs :: "bytes list list" where
  "sample_reqs = [map ctext [''DEL'', ''l''], map ctext [''FOO'']]"

lemma shown_foo: "shown [70, 79, 79] = ''FOO''"
  by code_simp

lemma sample_answers:
  "map_option snd (answers redisCommandTable run_cmd readonly (\<lambda>_ _. admit) 1 sample_reqs sample_watch) = 
  Some [WInt 1, WErr (ctext (''ERR unknown command '' @ quoted ''FOO''))]"
  by (simp add: sample_reqs_def dispatch_def lookupCommand_def redisCommandTable_def tolower_def bad_arity_def Let_def
      sample_watch_def sample_client_def sample_server_def processCommand_def admit_def call_def call_queued_def 
        run_cmd_def  Multi.addReply_def upd_cl_def touchWatchedKey_def set_dirty_def
        delCommand_def dbDelete_def upd_db_def signalModifiedKey_def flagTransaction_def shown_foo)

lemma sample_msgs:
  "list_all2 (\<lambda>r m. redisFormatCommandArgv r = Some m) sample_reqs (map enc sample_reqs)" "length (concat (map enc sample_reqs)) \<le> 40"
proof -
  have "length (enc (map ctext [''DEL'', ''l''])) \<le> 22" "length (enc (map ctext [''FOO''])) \<le> 18"
    by (simp_all add: enc_def enc_arg_def dec.simps)
  then show "list_all2 (\<lambda>r m. redisFormatCommandArgv r = Some m) sample_reqs (map enc sample_reqs)" "length (concat (map enc sample_reqs)) \<le> 40"
    unfolding sample_reqs_def by (simp_all add: format_enc del: ctext_simps)
qed


end
