(* ===== verification/Lockless_List.thy ===== *)
theory Lockless_List
  imports Prelude "HOL-Library.Monad_Syntax"
begin

text \<open>
  \<^verbatim>\<open>src/util/containers/lockless_list.h\<close>: the singly linked list behind every posting
  list, with a fake front node and a pool of recycled nodes. Nodes live in a heap, because the
  index building thread, the cleaning thread and the readers share them. The list and its own
  allocator (the only way the engine uses it) are one record. \<open>None\<close> is a dereference of a
  pointer that is NULL or not a node, or a failed \<^verbatim>\<open>CHECK\<close>. \<open>new\<close> is the address
  operator new hands out for a heap; \<open>dflt\<close> is a default-constructed element. The loop that walks
  a chain takes fuel; a chain of \<open>n\<close> nodes needs \<open>n + 1\<close>.
\<close>

type_synonym addr = nat

record 'd ListNode =
  nd_data :: 'd
  nd_next :: "addr option"

type_synonym 'd lheap = "addr \<rightharpoonup> 'd ListNode"

record 'd LocklessList =
  ll_heap :: "'d lheap"
  front' :: addr
  obj_pool' :: "addr list"
  buffer_num' :: nat
  node_num' :: "32 word"

text \<open>\<^verbatim>\<open>ListAllocator::Allocate\<close>: a new node, or a recycled one with its old data.\<close>

definition Allocate ::
    "('d lheap \<Rightarrow> addr) \<Rightarrow> 'd \<Rightarrow> 'd LocklessList \<Rightarrow> ('d LocklessList \<times> addr) option" where
  "Allocate new dflt l =
     (if length (obj_pool' l) \<le> buffer_num' l then
        let a = new (ll_heap l)
        in Some (l\<lparr>ll_heap := (ll_heap l)(a \<mapsto> \<lparr>nd_data = dflt, nd_next = None\<rparr>)\<rparr>, a)
      else
        let a = hd (obj_pool' l) in
        do { nd \<leftarrow> ll_heap l a;
             Some (l\<lparr>ll_heap := (ll_heap l)(a \<mapsto> nd\<lparr>nd_next := None\<rparr>),
                     obj_pool' := tl (obj_pool' l)\<rparr>, a) })"

text \<open>\<^verbatim>\<open>ListAllocator::Recycle\<close>: put a whole chain into the pool, and count it.\<close>

fun Recycle_loop ::
    "nat \<Rightarrow> 'd lheap \<Rightarrow> addr list \<Rightarrow> 32 word \<Rightarrow> addr option \<Rightarrow> (addr list \<times> 32 word) option" where
  "Recycle_loop 0 h pool count p = None"
| "Recycle_loop (Suc fuel) h pool count p =
     (case p of
        None \<Rightarrow> Some (pool, count)
      | Some a \<Rightarrow> do { nd \<leftarrow> h a; Recycle_loop fuel h (pool @ [a]) (count + 1) (nd_next nd) })"

definition newLocklessList :: "('d lheap \<Rightarrow> addr) \<Rightarrow> 'd \<Rightarrow> 'd LocklessList" where
  "newLocklessList new dflt =
     (let a = new Map.empty
      in \<lparr>ll_heap = [a \<mapsto> \<lparr>nd_data = dflt, nd_next = None\<rparr>], front' = a, obj_pool' = [],
          buffer_num' = 0, node_num' = 0\<rparr>)"

definition Front :: "'d LocklessList \<Rightarrow> addr" where
  "Front l = front' l"

text \<open>
  \<^verbatim>\<open>PushFront\<close> is two writes: the new node's link is set first, the front's link is then
  swung over. The steps are separate definitions, since other threads run between them.
\<close>

definition PushFront_link :: "'d LocklessList \<Rightarrow> addr \<Rightarrow> 'd LocklessList option" where
  "PushFront_link l a =
     do { f \<leftarrow> ll_heap l (front' l);
          nd \<leftarrow> ll_heap l a;
          Some (l\<lparr>ll_heap := (ll_heap l)(a \<mapsto> nd\<lparr>nd_next := nd_next f\<rparr>)\<rparr>) }"

definition PushFront_swing :: "'d LocklessList \<Rightarrow> addr \<Rightarrow> 'd LocklessList option" where
  "PushFront_swing l a =
     do { f \<leftarrow> ll_heap l (front' l);
          Some (l\<lparr>ll_heap := (ll_heap l)(front' l \<mapsto> f\<lparr>nd_next := Some a\<rparr>),
                  node_num' := node_num' l + 1\<rparr>) }"

definition PushFront :: "'d LocklessList \<Rightarrow> addr \<Rightarrow> 'd LocklessList option" where
  "PushFront l a = do { l \<leftarrow> PushFront_link l a; PushFront_swing l a }"

definition EraseAfter :: "nat \<Rightarrow> 'd LocklessList \<Rightarrow> addr option \<Rightarrow> 'd LocklessList option" where
  "EraseAfter fuel l node =
     (case node of
        None \<Rightarrow> Some l
      | Some a \<Rightarrow>
          do { nd \<leftarrow> ll_heap l a;
               let h = (ll_heap l)(a \<mapsto> nd\<lparr>nd_next := None\<rparr>);
               (pool, count) \<leftarrow> Recycle_loop fuel h (obj_pool' l) 0 (nd_next nd);
               Some (l\<lparr>ll_heap := h, obj_pool' := pool, node_num' := node_num' l - count\<rparr>) })"

definition IsEmpty :: "'d LocklessList \<Rightarrow> bool option" where
  "IsEmpty l =
     do { f \<leftarrow> ll_heap l (front' l);
          if nd_next f = None then (if node_num' l = 0 then Some True else None) else Some False }"

definition Reset :: "nat \<Rightarrow> 'd LocklessList \<Rightarrow> 'd LocklessList option" where
  "Reset fuel l =
     do { l \<leftarrow> EraseAfter fuel l (Some (front' l));
          e \<leftarrow> IsEmpty l;
          if e then Some l else None }"

section \<open>Chains\<close>

fun chain :: "'d lheap \<Rightarrow> addr option \<Rightarrow> addr list \<Rightarrow> bool" where
  "chain h p [] \<longleftrightarrow> p = None"
| "chain h p (a # as) \<longleftrightarrow> p = Some a \<and> (\<exists>nd. h a = Some nd \<and> chain h (nd_next nd) as)"

definition ll_ok :: "'d LocklessList \<Rightarrow> addr list \<Rightarrow> bool" where
  "ll_ok l as \<longleftrightarrow>
     (\<exists>f. ll_heap l (front' l) = Some f \<and> chain (ll_heap l) (nd_next f) as) \<and>
     distinct (front' l # as @ obj_pool' l) \<and> set (obj_pool' l) \<subseteq> dom (ll_heap l) \<and>
     finite (dom (ll_heap l)) \<and> node_num' l = of_nat (length as)"

definition datas :: "'d lheap \<Rightarrow> addr list \<Rightarrow> 'd list" where
  "datas h as = map (\<lambda>a. nd_data (the (h a))) as"

definition new_ok :: "('d lheap \<Rightarrow> addr) \<Rightarrow> bool" where
  "new_ok new \<longleftrightarrow> (\<forall>h. finite (dom h) \<longrightarrow> h (new h) = None)"

lemma chain_dom: "chain h p as \<Longrightarrow> set as \<subseteq> dom h"
  by (induction as arbitrary: p) auto

lemma chain_upd: "a \<notin> set as \<Longrightarrow> chain (h(a := x)) p as \<longleftrightarrow> chain h p as"
  by (induction as arbitrary: p) auto

lemma datas_upd: "a \<notin> set as \<Longrightarrow> datas (h(a := x)) as = datas h as"
  by (simp add: datas_def)

lemma chain_append:
  "chain h p (as @ b # bs) \<Longrightarrow> \<exists>nd. h b = Some nd \<and> chain h (nd_next nd) bs"
  by (induction as arbitrary: p) auto

lemma chain_cut:
  "chain h p (as @ [b] @ bs) \<Longrightarrow> distinct (as @ [b] @ bs) \<Longrightarrow> h b = Some nd \<Longrightarrow>
   chain (h(b \<mapsto> nd\<lparr>nd_next := None\<rparr>)) p (as @ [b])"
  by (induction as arbitrary: p) auto

lemma Recycle_chain:
  "chain h p as \<Longrightarrow> length as < fuel \<Longrightarrow>
   Recycle_loop fuel h pool count p = Some (pool @ as, count + of_nat (length as))"
proof (induction as arbitrary: p pool count fuel)
  case Nil
  then show ?case by (cases fuel) auto
next
  case (Cons a as)
  then obtain f where f: "fuel = Suc f" "length as < f" by (cases fuel) auto
  from Cons.prems obtain nd where nd: "p = Some a" "h a = Some nd" "chain h (nd_next nd) as" by auto
  from Cons.IH [OF nd(3) f(2), of "pool @ [a]" "count + 1"] nd f show ?case by (simp add: add.assoc)
qed

section \<open>The operations as list operations\<close>

lemma newLocklessList_ok: "ll_ok (newLocklessList new dflt) []"
  by (simp add: ll_ok_def newLocklessList_def Let_def)

text \<open>An allocated node is in the heap, and neither in the list nor in the pool.\<close>

definition node_free :: "'d LocklessList \<Rightarrow> addr list \<Rightarrow> addr \<Rightarrow> bool" where
  "node_free l as a \<longleftrightarrow> a \<in> dom (ll_heap l) \<and> a \<notin> set (front' l # as @ obj_pool' l)"

lemma Allocate_ok:
  assumes "new_ok new" "ll_ok l as"
  shows "\<exists>l' a. Allocate new dflt l = Some (l', a) \<and> ll_ok l' as \<and> node_free l' as a \<and>
     front' l' = front' l \<and> datas (ll_heap l') as = datas (ll_heap l) as"
proof (cases "length (obj_pool' l) \<le> buffer_num' l")
  case True
  let ?a = "new (ll_heap l)"
  have n: "ll_heap l ?a = None" using assms by (simp add: new_ok_def ll_ok_def)
  then have "?a \<noteq> front' l" "?a \<notin> set as" "?a \<notin> set (obj_pool' l)"
    using assms(2) chain_dom by (fastforce simp: ll_ok_def)+
  then show ?thesis using True assms(2)
    by (auto simp: Allocate_def Let_def ll_ok_def node_free_def chain_upd datas_upd)
next
  case False
  then obtain a pool where p: "obj_pool' l = a # pool" by (cases "obj_pool' l") auto
  then obtain nd where nd: "ll_heap l a = Some nd" using assms(2) by (auto simp: ll_ok_def)
  show ?thesis using False p nd assms(2)
    by (auto simp: Allocate_def Let_def ll_ok_def node_free_def chain_upd datas_upd)
qed

lemma PushFront_ok:
  assumes "ll_ok l as" "node_free l as a"
  shows "\<exists>l'. PushFront l a = Some l' \<and> ll_ok l' (a # as) \<and> front' l' = front' l \<and>
     datas (ll_heap l') (a # as) = nd_data (the (ll_heap l a)) # datas (ll_heap l) as"
proof -
  obtain f nd where f: "ll_heap l (front' l) = Some f" "chain (ll_heap l) (nd_next f) as"
    and nd: "ll_heap l a = Some nd" using assms by (auto simp: ll_ok_def node_free_def)
  have ne: "a \<noteq> front' l" "a \<notin> set as" "front' l \<notin> set as" "a \<notin> set (obj_pool' l)"
    using assms by (auto simp: ll_ok_def node_free_def)
  let ?h1 = "(ll_heap l)(a \<mapsto> nd\<lparr>nd_next := nd_next f\<rparr>)"
  let ?h = "?h1(front' l \<mapsto> f\<lparr>nd_next := Some a\<rparr>)"
  have eq: "PushFront l a = Some (l\<lparr>ll_heap := ?h, node_num' := node_num' l + 1\<rparr>)"
    using f(1) nd ne by (simp add: PushFront_def PushFront_link_def PushFront_swing_def)
  have "chain ?h (nd_next f) as" using f(2) ne by (simp add: chain_upd)
  then have "ll_ok (l\<lparr>ll_heap := ?h, node_num' := node_num' l + 1\<rparr>) (a # as)"
    using assms ne by (auto simp: ll_ok_def)
  moreover have "datas ?h (a # as) = nd_data nd # datas (ll_heap l) as"
    using ne nd f by (auto simp: datas_def)
  ultimately show ?thesis using eq nd by auto
qed

lemma datas_keep:
  "h b = Some nd \<Longrightarrow> datas (h(b \<mapsto> nd\<lparr>nd_next := n\<rparr>)) as = datas h as"
  by (auto simp: datas_def)

lemma EraseAfter_ok:
  assumes ok: "ll_ok l as" and split: "front' l # as = xs @ b # ys" and fuel: "length as < fuel"
  shows "\<exists>l'. EraseAfter fuel l (Some b) = Some l' \<and> ll_ok l' (tl (xs @ [b])) \<and> front' l' = front' l \<and>
     obj_pool' l' = obj_pool' l @ ys \<and>
     datas (ll_heap l') (tl (xs @ [b])) = datas (ll_heap l) (tl (xs @ [b]))"
proof -
  let ?H = "ll_heap l"
  obtain f where f: "?H (front' l) = Some f" "chain ?H (nd_next f) as" using ok by (auto simp: ll_ok_def)
  have full: "chain ?H (Some (front' l)) (xs @ b # ys)" using f unfolding split [symmetric] by auto
  have dist: "distinct ((xs @ b # ys) @ obj_pool' l)"
    using ok unfolding ll_ok_def split [symmetric] by simp
  obtain nd where nd: "?H b = Some nd" "chain ?H (nd_next nd) ys" using chain_append [OF full] by auto
  let ?h = "?H(b \<mapsto> nd\<lparr>nd_next := None\<rparr>)"
  have "length (front' l # as) = length (xs @ b # ys)" by (simp only: split)
  then have len: "length as = length (tl (xs @ [b])) + length ys" "length ys < fuel"
    using fuel by (cases xs; simp)+
  have rc: "Recycle_loop fuel ?h (obj_pool' l) 0 (nd_next nd) = Some (obj_pool' l @ ys, of_nat (length ys))"
    using Recycle_chain [of ?h "nd_next nd" ys fuel "obj_pool' l" 0] nd(2) dist len(2) by (simp add: chain_upd)
  let ?l = "l\<lparr>ll_heap := ?h, obj_pool' := obj_pool' l @ ys, node_num' := node_num' l - of_nat (length ys)\<rparr>"
  have er: "EraseAfter fuel l (Some b) = Some ?l" using nd(1) rc by (simp add: EraseAfter_def Let_def)
  have cut: "chain ?h (Some (front' l)) (xs @ [b])"
    using chain_cut [of ?H "Some (front' l)" xs b ys nd] full dist nd(1) by auto
  then obtain f' where f': "?h (front' l) = Some f'" "chain ?h (nd_next f') (tl (xs @ [b]))"
    by (cases xs) auto
  have hd: "front' l = hd (xs @ [b])" using split by (cases xs) auto
  have nn: "node_num' l - of_nat (length ys) = of_nat (length (tl (xs @ [b])))"
    using ok len(1) by (simp add: ll_ok_def)
  have dd: "front' l # tl (xs @ [b]) = xs @ [b]" using hd by (cases xs) auto
  then have "distinct (front' l # tl (xs @ [b]) @ (obj_pool' l @ ys))"
    using dist by (simp only: append_Cons [symmetric] dd) auto
  moreover have "set (obj_pool' l @ ys) \<subseteq> dom ?h"
    using ok chain_dom [OF nd(2)] by (auto simp: ll_ok_def)
  ultimately have "ll_ok ?l (tl (xs @ [b]))"
    using f' nn ok by (auto simp: ll_ok_def)
  then show ?thesis using er nd(1) by (auto simp: datas_keep)
qed

lemma IsEmpty_ok: "ll_ok l as \<Longrightarrow> IsEmpty l = Some (as = [])"
  by (cases as) (auto simp: IsEmpty_def ll_ok_def)

lemma Reset_ok:
  assumes "ll_ok l as" "length as < fuel"
  shows "\<exists>l'. Reset fuel l = Some l' \<and> ll_ok l' [] \<and> obj_pool' l' = obj_pool' l @ as"
  using EraseAfter_ok [OF assms(1), of "[]" "front' l" as fuel] assms(2)
  by (auto simp: Reset_def IsEmpty_ok)

section \<open>Two writers\<close>

text \<open>
  The header promises one writing thread. The engine has two: the index building thread
  pushes new nodes and the cleaning thread erases old ones, and both hold only a reader
  lock. The order of writes is harmless as long as the erased part does not start right after the
  front node.
\<close>

definition addr_supply :: "'d lheap \<Rightarrow> addr" where
  "addr_supply h = Max (insert 0 (dom h)) + 1"

lemma addr_supply_ok: "new_ok (addr_supply :: 'd lheap \<Rightarrow> addr)"
proof -
  have "h (addr_supply h) = None" if "finite (dom h)" for h :: "'d lheap"
  proof (rule ccontr)
    assume "h (addr_supply h) \<noteq> None"
    then have "addr_supply h \<in> insert 0 (dom h)" by auto
    then have "addr_supply h \<le> Max (insert 0 (dom h))" using that by (intro Max_ge) auto
    then show False by (simp add: addr_supply_def)
  qed
  then show ?thesis by (simp add: new_ok_def)
qed

text \<open>
  C39: The two writes of PushFront do not tolerate an EraseAfter(front) between them: on any
  list with at least one element, running the erase between the link and the swing of a
  push leaves the erased elements both in the allocator's pool and reachable from the new
  front element, and the element count is one although all the old elements are still in the
  list.
\<close>

theorem push_erase_race:
  assumes "ll_ok l (b # bs)" "node_free l (b # bs) a" "length (b # bs) < fuel"
  shows "\<exists>l1 l2 l3 f. PushFront_link l a = Some l1 \<and> EraseAfter fuel l1 (Some (front' l1)) = Some l2 \<and>
     PushFront_swing l2 a = Some l3 \<and> set (b # bs) \<subseteq> set (obj_pool' l3) \<and> node_num' l3 = 1 \<and>
     ll_heap l3 (front' l3) = Some f \<and> chain (ll_heap l3) (nd_next f) (a # b # bs)"
proof -
  let ?as = "b # bs"
  obtain f nd where f: "ll_heap l (front' l) = Some f" "chain (ll_heap l) (nd_next f) ?as"
    and nd: "ll_heap l a = Some nd" using assms by (auto simp: ll_ok_def node_free_def)
  have ne: "a \<noteq> front' l" "a \<notin> set ?as" "front' l \<notin> set ?as" "a \<notin> set (obj_pool' l)"
    using assms by (auto simp: ll_ok_def node_free_def)
  let ?h1 = "(ll_heap l)(a \<mapsto> nd\<lparr>nd_next := nd_next f\<rparr>)"
  let ?l1 = "l\<lparr>ll_heap := ?h1\<rparr>"
  have l1: "PushFront_link l a = Some ?l1" using f(1) nd by (simp add: PushFront_link_def)
  let ?h2 = "?h1(front' l \<mapsto> f\<lparr>nd_next := None\<rparr>)"
  have ch: "chain ?h2 (nd_next f) ?as"
    using f(2) by (simp only: chain_upd [OF ne(3)] chain_upd [OF ne(2)])
  let ?l2 = "?l1\<lparr>ll_heap := ?h2, obj_pool' := obj_pool' l @ ?as,
      node_num' := node_num' l - of_nat (length ?as)\<rparr>"
  have l2: "EraseAfter fuel ?l1 (Some (front' ?l1)) = Some ?l2"
    using Recycle_chain [OF ch assms(3), of "obj_pool' l" 0] f(1) ne(1)
    by (simp add: EraseAfter_def Let_def)
  let ?h3 = "?h2(front' l \<mapsto> f\<lparr>nd_next := Some a\<rparr>)"
  let ?l3 = "?l2\<lparr>ll_heap := ?h3, node_num' := node_num' l - of_nat (length ?as) + 1\<rparr>"
  have l3: "PushFront_swing ?l2 a = Some ?l3" by (simp add: PushFront_swing_def)
  have "chain ?h3 (nd_next f) ?as" using ch by (simp only: chain_upd [OF ne(3)])
  then have c: "chain (ll_heap ?l3) (nd_next (f\<lparr>nd_next := Some a\<rparr>)) (a # ?as)" using ne by auto
  have fr: "ll_heap ?l3 (front' ?l3) = Some (f\<lparr>nd_next := Some a\<rparr>)" by simp
  have pl: "set ?as \<subseteq> set (obj_pool' ?l3)" by auto
  have "node_num' l = of_nat (length ?as)" using assms(1) by (simp add: ll_ok_def)
  then have nn: "node_num' ?l3 = 1" by simp
  show ?thesis using l1 l2 l3 pl nn fr c by blast
qed

definition sample_list :: "nat LocklessList" where
  "sample_list = \<lparr>ll_heap = [1 \<mapsto> \<lparr>nd_data = 0, nd_next = Some 2\<rparr>, 2 \<mapsto> \<lparr>nd_data = 7, nd_next = None\<rparr>,
     3 \<mapsto> \<lparr>nd_data = 8, nd_next = None\<rparr>], front' = 1, obj_pool' = [], buffer_num' = 0, node_num' = 1\<rparr>"

theorem push_erase_race_witness:
  "\<exists>l1 l2 l3. PushFront_link sample_list 3 = Some l1 \<and> EraseAfter 2 l1 (Some (front' l1)) = Some l2 \<and>
     PushFront_swing l2 3 = Some l3 \<and> 2 \<in> set (obj_pool' l3) \<and> node_num' l3 = 1"
proof -
  have "ll_ok sample_list [2]" "node_free sample_list [2] 3"
    by (auto simp: ll_ok_def node_free_def sample_list_def)
  from push_erase_race [OF this, of 2] show ?thesis by auto
qed

end
