(* ===== verification/Posting.thy ===== *)
theory Posting
  imports Lockless_List
begin

text \<open>
  \<^verbatim>\<open>src/indexing/posting.cc\<close> and \<^verbatim>\<open>src/indexing/iterator.cc\<close>: the posting list of a token, its
  end mark, and the iterator the retrieval side reads it with. The end mark is a pointer to the
  last posting still visible; the fake front node as mark hides everything. The weight of
  a posting is a C++ float, an opaque type here.
\<close>

record 'w Posting =
  local_docid :: "32 word"
  weight :: 'w
  timestamp :: int

record 'w PostingList =
  inner_list' :: "'w Posting LocklessList"
  end_mark' :: "addr option"

definition newPostingList :: "('w Posting lheap \<Rightarrow> addr) \<Rightarrow> 'w Posting \<Rightarrow> 'w PostingList" where
  "newPostingList new dflt = \<lparr>inner_list' = newLocklessList new dflt, end_mark' = None\<rparr>"

definition GetFakeFront :: "'w PostingList \<Rightarrow> addr" where
  "GetFakeFront pl = Front (inner_list' pl)"

definition GetEndMark :: "'w PostingList \<Rightarrow> addr option" where
  "GetEndMark pl = end_mark' pl"

definition SetEndMark :: "'w PostingList \<Rightarrow> addr option \<Rightarrow> 'w PostingList" where
  "SetEndMark pl mark = pl\<lparr>end_mark' := mark\<rparr>"

definition AddPosting :: "'w PostingList \<Rightarrow> addr \<Rightarrow> 'w PostingList option" where
  "AddPosting pl p = do { l \<leftarrow> PushFront (inner_list' pl) p; Some (pl\<lparr>inner_list' := l\<rparr>) }"

definition AllocatePosting ::
    "('w Posting lheap \<Rightarrow> addr) \<Rightarrow> 'w Posting \<Rightarrow> 'w PostingList \<Rightarrow> ('w PostingList \<times> addr) option" where
  "AllocatePosting new dflt pl =
     do { (l, p) \<leftarrow> Allocate new dflt (inner_list' pl);
          nd \<leftarrow> ll_heap l p;
          Some (pl\<lparr>inner_list' := l\<lparr>ll_heap := (ll_heap l)(p \<mapsto> nd\<lparr>nd_next := None\<rparr>)\<rparr>\<rparr>, p) }"

definition PostingList_EraseAfter :: "nat \<Rightarrow> 'w PostingList \<Rightarrow> addr option \<Rightarrow> 'w PostingList option" where
  "PostingList_EraseAfter fuel pl p =
     (if p \<noteq> None then do { l \<leftarrow> EraseAfter fuel (inner_list' pl) p; Some (pl\<lparr>inner_list' := l\<rparr>) }
      else Some pl)"

fun Size_loop :: "nat \<Rightarrow> 'w PostingList \<Rightarrow> addr option \<Rightarrow> nat \<Rightarrow> nat option" where
  "Size_loop 0 pl cur sz = None"
| "Size_loop (Suc fuel) pl cur sz =
     (case cur of
        None \<Rightarrow> Some sz
      | Some a \<Rightarrow>
          do { nd \<leftarrow> ll_heap (inner_list' pl) a;
               if nd_next nd \<noteq> None \<and> cur \<noteq> GetEndMark pl
               then Size_loop fuel pl (nd_next nd) (sz + 1) else Some sz })"

definition PostingList_Size :: "nat \<Rightarrow> 'w PostingList \<Rightarrow> nat option" where
  "PostingList_Size fuel pl =
     (let cur = Some (GetFakeFront pl)
      in if cur = GetEndMark pl then Some 0 else Size_loop fuel pl cur 0)"

record PostingIteratorImpl =
  cur' :: "addr option"
  has_value' :: bool

definition newPostingIteratorImpl :: "'w PostingList \<Rightarrow> PostingIteratorImpl" where
  "newPostingIteratorImpl pl = \<lparr>cur' = Some (GetFakeFront pl), has_value' = False\<rparr>"

definition HasValue :: "'w PostingList \<Rightarrow> PostingIteratorImpl \<Rightarrow> (PostingIteratorImpl \<times> bool) option" where
  "HasValue pl it =
     (case cur' it of
        None \<Rightarrow> Some (it\<lparr>has_value' := False\<rparr>, False)
      | Some a \<Rightarrow>
          do { nd \<leftarrow> ll_heap (inner_list' pl) a;
               let mark = GetEndMark pl;
               let b = (if nd_next nd = None then False
                        else if mark = Some (GetFakeFront pl) then False
                        else if cur' it = mark then False
                        else True);
               Some (it\<lparr>has_value' := b\<rparr>, b) })"

text \<open>\<open>None\<close> also stands for the exception \<^verbatim>\<open>GetValue\<close> throws when called out of order.\<close>

definition GetValue :: "'w PostingList \<Rightarrow> PostingIteratorImpl \<Rightarrow> (PostingIteratorImpl \<times> 'w Posting) option" where
  "GetValue pl it =
     (if \<not> has_value' it then None
      else
        do { a \<leftarrow> cur' it;
             nd \<leftarrow> ll_heap (inner_list' pl) a;
             b \<leftarrow> nd_next nd;
             nd \<leftarrow> ll_heap (inner_list' pl) b;
             Some (it\<lparr>has_value' := False\<rparr>, nd_data nd) })"

definition Next :: "'w PostingList \<Rightarrow> PostingIteratorImpl \<Rightarrow> PostingIteratorImpl option" where
  "Next pl it =
     do { a \<leftarrow> cur' it; nd \<leftarrow> ll_heap (inner_list' pl) a; Some (it\<lparr>cur' := nd_next nd\<rparr>) }"

text \<open>The loop of the usage comment in iterator.h.\<close>

fun collect :: "nat \<Rightarrow> 'w PostingList \<Rightarrow> PostingIteratorImpl \<Rightarrow> 'w Posting list option" where
  "collect 0 pl it = None"
| "collect (Suc fuel) pl it =
     do { (it, b) \<leftarrow> HasValue pl it;
          if \<not> b then Some []
          else
            do { (it, v) \<leftarrow> GetValue pl it;
                 it \<leftarrow> Next pl it;
                 vs \<leftarrow> collect fuel pl it;
                 Some (v # vs) } }"

section \<open>What is visible\<close>

text \<open>The postings between a node and the mark.\<close>

fun visible_from :: "addr option \<Rightarrow> addr \<Rightarrow> addr list \<Rightarrow> addr list" where
  "visible_from mark c [] = []"
| "visible_from mark c (y # ys) = (if mark = Some c then [] else y # visible_from mark y ys)"

definition pl_ok :: "'w PostingList \<Rightarrow> addr list \<Rightarrow> bool" where
  "pl_ok pl as \<longleftrightarrow> ll_ok (inner_list' pl) as \<and>
     (\<forall>m. end_mark' pl = Some m \<longrightarrow> m \<in> set (GetFakeFront pl # as))"

definition postings :: "'w PostingList \<Rightarrow> addr list \<Rightarrow> 'w Posting list" where
  "postings pl as = datas (ll_heap (inner_list' pl)) as"

definition visible :: "'w PostingList \<Rightarrow> addr list \<Rightarrow> 'w Posting list" where
  "visible pl as = postings pl (visible_from (end_mark' pl) (GetFakeFront pl) as)"

lemma visible_from_front: "f \<notin> set ys \<Longrightarrow> f \<noteq> c \<Longrightarrow> mark = Some f \<Longrightarrow> visible_from mark c ys = ys"
  by (induction ys arbitrary: c) auto

lemma visible_from_none: "visible_from None c ys = ys"
  by (induction ys arbitrary: c) auto

text \<open>With the mark in the middle, the visible part ends with the marked posting.\<close>

lemma visible_from_split:
  "m \<notin> set (c # xs) \<Longrightarrow> visible_from (Some m) c (xs @ m # ys) = xs @ [m]"
proof (induction xs arbitrary: c)
  case Nil
  then show ?case by (cases ys) auto
qed auto

lemma collect_ok:
  assumes "ll_heap (inner_list' pl) c = Some nd" "chain (ll_heap (inner_list' pl)) (nd_next nd) ys"
    and "end_mark' pl = Some (GetFakeFront pl) \<longrightarrow> c = GetFakeFront pl" "length ys < fuel"
    and "GetFakeFront pl \<notin> set ys"
  shows "collect fuel pl \<lparr>cur' = Some c, has_value' = b\<rparr> =
    Some (postings pl (visible_from (end_mark' pl) c ys))"
  using assms
proof (induction ys arbitrary: c nd fuel b)
  case Nil
  then obtain f where "fuel = Suc f" by (cases fuel) auto
  with Nil show ?case by (simp add: HasValue_def postings_def datas_def)
next
  case (Cons y ys)
  then obtain f where f: "fuel = Suc f" "length ys < f" by (cases fuel) auto
  from Cons.prems obtain nd' where nd': "nd_next nd = Some y" "ll_heap (inner_list' pl) y = Some nd'"
    "chain (ll_heap (inner_list' pl)) (nd_next nd') ys" by auto
  show ?case
  proof (cases "end_mark' pl = Some c \<or> end_mark' pl = Some (GetFakeFront pl)")
    case True
    then have "end_mark' pl = Some c" using Cons.prems(3) by auto
    then show ?thesis using f nd' Cons.prems(1)
      by (simp add: Let_def HasValue_def GetEndMark_def postings_def datas_def)
  next
    case False
    have "collect f pl \<lparr>cur' = Some y, has_value' = False\<rparr> =
        Some (postings pl (visible_from (end_mark' pl) y ys))"
      by (rule Cons.IH [OF nd'(2,3)]) (use False f Cons.prems(5) in auto)
    then show ?thesis using f nd' Cons.prems(1) False
      by (auto simp: Let_def HasValue_def GetValue_def Next_def GetEndMark_def postings_def datas_def)
  qed
qed

lemma Size_loop_ok:
  assumes "ll_heap (inner_list' pl) c = Some nd" "chain (ll_heap (inner_list' pl)) (nd_next nd) ys"
    and "length ys < fuel"
  shows "Size_loop fuel pl (Some c) n = Some (n + length (visible_from (end_mark' pl) c ys))"
  using assms
proof (induction ys arbitrary: c nd fuel n)
  case Nil
  then obtain f where "fuel = Suc f" by (cases fuel) auto
  with Nil show ?case by simp
next
  case (Cons y ys)
  then obtain f where f: "fuel = Suc f" "length ys < f" by (cases fuel) auto
  from Cons.prems obtain nd' where nd': "nd_next nd = Some y" "ll_heap (inner_list' pl) y = Some nd'"
    "chain (ll_heap (inner_list' pl)) (nd_next nd') ys" by auto
  show ?case using Cons.IH [OF nd'(2,3) f(2), of "Suc n"] f nd' Cons.prems(1)
    by (auto simp: GetEndMark_def)
qed

text \<open>
  C22: Reading a well-formed posting list with the HasValue / GetValue / Next protocol never
  throws or follows a bad pointer and returns exactly the postings from the newest one to the
  end mark (all of them without a mark, none when the fake front is the mark), and
  PostingList::Size counts the same postings.
\<close>

theorem posting_iterator_visible:
  assumes "pl_ok pl as" "length as < fuel"
  shows "collect fuel pl (newPostingIteratorImpl pl) = Some (visible pl as) \<and>
    PostingList_Size fuel pl = Some (length (visible pl as))"
proof -
  obtain f where f: "ll_heap (inner_list' pl) (GetFakeFront pl) = Some f"
    "chain (ll_heap (inner_list' pl)) (nd_next f) as" "GetFakeFront pl \<notin> set as"
    using assms(1) by (auto simp: pl_ok_def ll_ok_def GetFakeFront_def Front_def)
  have "PostingList_Size fuel pl = Some (length (visible pl as))"
    using Size_loop_ok [OF f(1,2) assms(2), of 0] f(3)
    by (cases as) (auto simp: Let_def PostingList_Size_def GetEndMark_def visible_def postings_def datas_def)
  then show ?thesis using collect_ok [OF f(1,2) _ assms(2) f(3)]
    by (simp add: newPostingIteratorImpl_def visible_def)
qed

definition sample_plist :: "int PostingList" where
  "sample_plist = \<lparr>inner_list' = \<lparr>ll_heap =
      [1 \<mapsto> \<lparr>nd_data = \<lparr>local_docid = 0, weight = 0, timestamp = 0\<rparr>, nd_next = Some 3\<rparr>,
       3 \<mapsto> \<lparr>nd_data = \<lparr>local_docid = 9, weight = 5, timestamp = 70\<rparr>, nd_next = Some 2\<rparr>,
       2 \<mapsto> \<lparr>nd_data = \<lparr>local_docid = 8, weight = 4, timestamp = 60\<rparr>, nd_next = None\<rparr>],
      front' = 1, obj_pool' = [], buffer_num' = 0, node_num' = 2\<rparr>, end_mark' = Some 3\<rparr>"

lemma sample_plist_ok: "pl_ok sample_plist [3, 2]"
  by (auto simp: pl_ok_def ll_ok_def sample_plist_def)

theorem posting_iterator_visible_witness:
  "collect 3 sample_plist (newPostingIteratorImpl sample_plist) =
     Some [\<lparr>local_docid = 9, weight = 5, timestamp = 70\<rparr>] \<and> PostingList_Size 3 sample_plist = Some 1"
  using posting_iterator_visible [OF sample_plist_ok, of 3]
  by (simp add: visible_def postings_def datas_def sample_plist_def GetFakeFront_def Front_def)

section \<open>Adding, marking and erasing\<close>

lemma newPostingList_ok:
  "pl_ok (newPostingList new dflt) []" "postings (newPostingList new dflt) [] = []"
  using newLocklessList_ok [of new dflt] by (simp_all add: pl_ok_def newPostingList_def postings_def datas_def)

text \<open>
  The three statements of the index building thread that add a posting: allocate a node,
  fill in its data, push it.
\<close>

definition add_posting ::
    "('w Posting lheap \<Rightarrow> addr) \<Rightarrow> 'w Posting \<Rightarrow> 'w PostingList \<Rightarrow> 'w Posting \<Rightarrow> 'w PostingList option" where
  "add_posting new dflt pl p =
     do { (pl, a) \<leftarrow> AllocatePosting new dflt pl;
          let l = inner_list' pl;
          nd \<leftarrow> ll_heap l a;
          let pl = pl\<lparr>inner_list' := l\<lparr>ll_heap := (ll_heap l)(a \<mapsto> nd\<lparr>nd_data := p\<rparr>)\<rparr>\<rparr>;
          AddPosting pl a }"

lemma ll_ok_write:
  assumes "ll_ok l as" "node_free l as a"
  shows "ll_ok (l\<lparr>ll_heap := (ll_heap l)(a \<mapsto> nd)\<rparr>) as" "node_free (l\<lparr>ll_heap := (ll_heap l)(a \<mapsto> nd)\<rparr>) as a"
    "datas ((ll_heap l)(a \<mapsto> nd)) as = datas (ll_heap l) as"
  using assms by (auto simp: ll_ok_def node_free_def chain_upd datas_upd)

lemma add_posting_ok:
  assumes new: "new_ok new" and ok: "pl_ok pl as"
  shows "\<exists>pl' a. add_posting new dflt pl p = Some pl' \<and> pl_ok pl' (a # as) \<and> a \<notin> set (GetFakeFront pl # as) \<and>
    postings pl' (a # as) = p # postings pl as \<and> end_mark' pl' = end_mark' pl \<and>
    GetFakeFront pl' = GetFakeFront pl"
proof -
  have l0: "ll_ok (inner_list' pl) as" using ok by (simp add: pl_ok_def)
  from Allocate_ok [OF new l0, of dflt] obtain l1 a where
    l1: "Allocate new dflt (inner_list' pl) = Some (l1, a)" "ll_ok l1 as" "node_free l1 as a"
      "front' l1 = front' (inner_list' pl)" "datas (ll_heap l1) as = datas (ll_heap (inner_list' pl)) as" by blast
  obtain nd where nd: "ll_heap l1 a = Some nd" using l1(3) by (auto simp: node_free_def)
  define nd2 where "nd2 = nd\<lparr>nd_next := None, nd_data := p\<rparr>"
  define l2 where "l2 = l1\<lparr>ll_heap := (ll_heap l1)(a \<mapsto> nd2)\<rparr>"
  have l2: "ll_ok l2 as" "node_free l2 as a" "datas (ll_heap l2) as = datas (ll_heap l1) as"
    using ll_ok_write [OF l1(2,3), of nd2] by (simp_all add: l2_def)
  from PushFront_ok [OF l2(1,2)] obtain l3 where
    l3: "PushFront l2 a = Some l3" "ll_ok l3 (a # as)" "front' l3 = front' l2"
      "datas (ll_heap l3) (a # as) = nd_data (the (ll_heap l2 a)) # datas (ll_heap l2) as" by blast
  have eq: "add_posting new dflt pl p = Some (pl\<lparr>inner_list' := l3\<rparr>)"
    using l1(1) nd l3(1) by (simp add: add_posting_def AllocatePosting_def AddPosting_def Let_def l2_def nd2_def)
  have "a \<notin> set (GetFakeFront pl # as)"
    using l1(3,4) by (auto simp: node_free_def GetFakeFront_def Front_def)
  moreover have "pl_ok (pl\<lparr>inner_list' := l3\<rparr>) (a # as)"
    using ok l3(2,3) l1(4) by (auto simp: pl_ok_def GetFakeFront_def Front_def l2_def)
  moreover have "postings (pl\<lparr>inner_list' := l3\<rparr>) (a # as) = p # postings pl as"
    using l3(4) l2(3) l1(5) by (simp add: postings_def l2_def nd2_def)
  ultimately show ?thesis using eq l3(3) l1(4)
    by (auto simp: GetFakeFront_def Front_def l2_def)
qed

text \<open>The marking loop of the cleaning thread: the last posting at or after a target time.\<close>

fun mark_loop :: "nat \<Rightarrow> int \<Rightarrow> 'w Posting lheap \<Rightarrow> addr \<Rightarrow> addr option" where
  "mark_loop 0 target h cur = None"
| "mark_loop (Suc fuel) target h cur =
     do { nd \<leftarrow> h cur;
          (case nd_next nd of
             None \<Rightarrow> Some cur
           | Some n \<Rightarrow>
               do { nn \<leftarrow> h n;
                    if timestamp (nd_data nn) \<ge> target then mark_loop fuel target h n else Some cur }) }"

definition mark_list :: "nat \<Rightarrow> int \<Rightarrow> 'w PostingList \<Rightarrow> 'w PostingList option" where
  "mark_list fuel target pl =
     do { m \<leftarrow> mark_loop fuel target (ll_heap (inner_list' pl)) (GetFakeFront pl);
          Some (SetEndMark pl (Some m)) }"

text \<open>The clearing loop body: collect the documents behind the mark, erase them, reset the mark.\<close>

fun behind_loop :: "nat \<Rightarrow> 'w Posting lheap \<Rightarrow> addr option \<Rightarrow> 32 word list option" where
  "behind_loop 0 h cur = None"
| "behind_loop (Suc fuel) h cur =
     (case cur of
        None \<Rightarrow> Some []
      | Some a \<Rightarrow> do { nd \<leftarrow> h a; ds \<leftarrow> behind_loop fuel h (nd_next nd); Some (local_docid (nd_data nd) # ds) })"

definition clear_list :: "nat \<Rightarrow> 'w PostingList \<Rightarrow> ('w PostingList \<times> 32 word list) option" where
  "clear_list fuel pl =
     (case GetEndMark pl of
        None \<Rightarrow> do { pl \<leftarrow> PostingList_EraseAfter fuel pl None; Some (SetEndMark pl None, []) }
      | Some m \<Rightarrow>
          do { nd \<leftarrow> ll_heap (inner_list' pl) m;
               ds \<leftarrow> behind_loop fuel (ll_heap (inner_list' pl)) (nd_next nd);
               pl \<leftarrow> PostingList_EraseAfter fuel pl (Some m);
               Some (SetEndMark pl None, ds) })"

lemma mark_loop_ok:
  assumes "h c = Some nd" "chain h (nd_next nd) ys" "length ys < fuel"
  shows "mark_loop fuel target h c =
    Some (last (c # takeWhile (\<lambda>a. timestamp (nd_data (the (h a))) \<ge> target) ys))"
  using assms
proof (induction ys arbitrary: c nd fuel)
  case Nil
  then obtain f where "fuel = Suc f" by (cases fuel) auto
  with Nil show ?case by simp
next
  case (Cons y ys)
  then obtain f where f: "fuel = Suc f" "length ys < f" by (cases fuel) auto
  from Cons.prems obtain nd' where nd': "nd_next nd = Some y" "h y = Some nd'" "chain h (nd_next nd') ys" by auto
  then show ?case using Cons.IH [OF nd'(2,3) f(2)] f Cons.prems(1) by simp
qed

lemma behind_loop_ok:
  "chain h p ys \<Longrightarrow> length ys < fuel \<Longrightarrow> behind_loop fuel h p = Some (map local_docid (datas h ys))"
proof (induction ys arbitrary: p fuel)
  case Nil
  then obtain f where "fuel = Suc f" by (cases fuel) auto
  with Nil show ?case by (simp add: datas_def)
next
  case (Cons y ys)
  then obtain f where f: "fuel = Suc f" "length ys < f" by (cases fuel) auto
  then show ?case using Cons by (auto simp: datas_def)
qed

lemma mark_list_ok:
  fixes target :: int
  assumes ok: "pl_ok pl as" and fuel: "length as < fuel"
  defines "n \<equiv> length (takeWhile (\<lambda>p. timestamp p \<ge> target) (postings pl as))"
  shows "\<exists>m. mark_list fuel target pl = Some (SetEndMark pl (Some m)) \<and> m = (GetFakeFront pl # as) ! n \<and>
     n \<le> length as \<and> pl_ok (SetEndMark pl (Some m)) as"
proof -
  let ?h = "ll_heap (inner_list' pl)"
  obtain f where f: "?h (GetFakeFront pl) = Some f" "chain ?h (nd_next f) as"
    using ok by (auto simp: pl_ok_def ll_ok_def GetFakeFront_def Front_def)
  let ?P = "\<lambda>a. timestamp (nd_data (the (?h a))) \<ge> target"
  have n: "n = length (takeWhile ?P as)"
    by (simp add: n_def postings_def datas_def takeWhile_map o_def)
  have le: "n \<le> length as" using n length_takeWhile_le [of ?P as] by simp
  have tk: "takeWhile ?P as = take n as" unfolding n by (rule takeWhile_eq_take)
  have "last (GetFakeFront pl # takeWhile ?P as) = (GetFakeFront pl # as) ! n"
    unfolding tk using le by (cases n) (simp_all add: take_Suc_conv_app_nth)
  then have "mark_list fuel target pl = Some (SetEndMark pl (Some ((GetFakeFront pl # as) ! n)))"
    using mark_loop_ok [OF f fuel, of target] by (simp add: mark_list_def)
  moreover have "(GetFakeFront pl # as) ! n \<in> set (GetFakeFront pl # as)" using le by (intro nth_mem) simp
  ultimately show ?thesis using ok le
    by (auto simp: pl_ok_def SetEndMark_def GetFakeFront_def Front_def)
qed

lemma PostingList_EraseAfter_ok:
  assumes ok: "pl_ok pl as" and n: "n \<le> length as" and fuel: "length as < fuel"
  shows "\<exists>pl'. PostingList_EraseAfter fuel pl (Some ((GetFakeFront pl # as) ! n)) = Some pl' \<and>
     ll_ok (inner_list' pl') (take n as) \<and> postings pl' (take n as) = take n (postings pl as) \<and>
     GetFakeFront pl' = GetFakeFront pl"
proof -
  have l: "ll_ok (inner_list' pl) as" using ok by (simp add: pl_ok_def)
  have sp: "front' (inner_list' pl) # as =
      take n (front' (inner_list' pl) # as) @ (front' (inner_list' pl) # as) ! n # drop (Suc n) (front' (inner_list' pl) # as)"
    using n by (intro id_take_nth_drop) simp
  have tl: "tl (take n (front' (inner_list' pl) # as) @ [(front' (inner_list' pl) # as) ! n]) = take n as"
    using n by (cases n) (auto simp: take_Suc_conv_app_nth)
  from EraseAfter_ok [OF l sp fuel] obtain l' where
    "EraseAfter fuel (inner_list' pl) (Some ((front' (inner_list' pl) # as) ! n)) = Some l'"
    "ll_ok l' (take n as)" "front' l' = front' (inner_list' pl)"
    "datas (ll_heap l') (take n as) = datas (ll_heap (inner_list' pl)) (take n as)" unfolding tl by blast
  then show ?thesis
    by (auto simp: PostingList_EraseAfter_def GetFakeFront_def Front_def postings_def datas_def take_map)
qed

text \<open>Clearing with the mark at position \<open>n\<close> (0 is the fake front).\<close>

lemma clear_list_ok:
  assumes ok: "pl_ok pl as" and n: "n \<le> length as" and fuel: "length as < fuel"
    and mark: "end_mark' pl = Some ((GetFakeFront pl # as) ! n)"
  shows "\<exists>pl'. clear_list fuel pl = Some (pl', map local_docid (drop n (postings pl as))) \<and>
     pl_ok pl' (take n as) \<and> postings pl' (take n as) = take n (postings pl as) \<and> end_mark' pl' = None \<and>
     GetFakeFront pl' = GetFakeFront pl"
proof -
  let ?h = "ll_heap (inner_list' pl)" and ?m = "(GetFakeFront pl # as) ! n"
  obtain f where f: "?h (GetFakeFront pl) = Some f" "chain ?h (nd_next f) as"
    using ok by (auto simp: pl_ok_def ll_ok_def GetFakeFront_def Front_def)
  have full: "chain ?h (Some (GetFakeFront pl)) (GetFakeFront pl # as)" using f by auto
  have sp: "GetFakeFront pl # as = take n (GetFakeFront pl # as) @ ?m # drop n as"
    using n id_take_nth_drop [of n "GetFakeFront pl # as"] by simp
  obtain nd where nd: "?h ?m = Some nd" "chain ?h (nd_next nd) (drop n as)"
    using chain_append [of ?h "Some (GetFakeFront pl)" "take n (GetFakeFront pl # as)" ?m "drop n as"] full sp by metis
  have "behind_loop fuel ?h (nd_next nd) = Some (map local_docid (datas ?h (drop n as)))"
    using behind_loop_ok [OF nd(2), of fuel] fuel by simp
  then have b: "behind_loop fuel ?h (nd_next nd) = Some (map local_docid (drop n (postings pl as)))"
    by (simp add: postings_def datas_def drop_map)
  from PostingList_EraseAfter_ok [OF ok n fuel] obtain pl' where
    e: "PostingList_EraseAfter fuel pl (Some ?m) = Some pl'" "ll_ok (inner_list' pl') (take n as)"
      "postings pl' (take n as) = take n (postings pl as)" "GetFakeFront pl' = GetFakeFront pl" by blast
  show ?thesis using e b nd(1) mark
    by (auto simp: clear_list_def GetEndMark_def SetEndMark_def pl_ok_def postings_def GetFakeFront_def)
qed

section \<open>The contract of a posting list\<close>

text \<open>A cleaning round of one list, with nothing added between its two phases.\<close>

definition clean_list :: "nat \<Rightarrow> int \<Rightarrow> 'w PostingList \<Rightarrow> ('w PostingList \<times> 32 word list) option" where
  "clean_list fuel target pl = do { pl \<leftarrow> mark_list fuel target pl; clear_list fuel pl }"

definition pl_rep :: "'w PostingList \<Rightarrow> 'w Posting list \<Rightarrow> bool" where
  "pl_rep pl ps \<longleftrightarrow> (\<exists>as. pl_ok pl as \<and> postings pl as = ps \<and> end_mark' pl = None)"

text \<open>
  What the index relies on: new postings come first, a cleaning round keeps the leading
  part of recent postings and reports the documents of the rest.
\<close>

locale aging_list =
  fixes rep :: "'l \<Rightarrow> 'p list \<Rightarrow> bool" and time :: "'p \<Rightarrow> int" and ident :: "'p \<Rightarrow> 'i"
    and add :: "'l \<Rightarrow> 'p \<Rightarrow> 'l option" and clean :: "nat \<Rightarrow> int \<Rightarrow> 'l \<Rightarrow> ('l \<times> 'i list) option"
  assumes add_law: "rep l ps \<Longrightarrow> \<exists>l'. add l p = Some l' \<and> rep l' (p # ps)"
    and clean_law: "rep l ps \<Longrightarrow> length ps < fuel \<Longrightarrow>
      \<exists>l'. clean fuel t l = Some (l', map ident (dropWhile (\<lambda>p. time p \<ge> t) ps)) \<and>
        rep l' (takeWhile (\<lambda>p. time p \<ge> t) ps)"

fun add_all :: "('l \<Rightarrow> 'p \<Rightarrow> 'l option) \<Rightarrow> 'l \<Rightarrow> 'p list \<Rightarrow> 'l option" where
  "add_all add l [] = Some l"
| "add_all add l (p # ps) = do { l \<leftarrow> add l p; add_all add l ps }"

lemma sorted_split:
  assumes "sorted_wrt (\<lambda>a b. time b \<le> time a) ps"
  shows "takeWhile (\<lambda>p. time p \<ge> t) ps = filter (\<lambda>p. time p \<ge> t) ps \<and>
    dropWhile (\<lambda>p. time p \<ge> t) ps = filter (\<lambda>p. \<not> time p \<ge> (t :: int)) ps"
  using assms
proof (induction ps)
  case (Cons p ps)
  show ?case
  proof (cases "time p \<ge> t")
    case False
    then have "\<forall>q \<in> set ps. \<not> time q \<ge> t" using Cons.prems by fastforce
    then have "filter (\<lambda>p. time p \<ge> t) ps = []" "filter (\<lambda>p. \<not> time p \<ge> t) ps = ps"
      by (auto simp: filter_empty_conv)
    then show ?thesis using False by simp
  qed (use Cons in auto)
qed simp

context aging_list
begin

lemma add_all_law: "rep l ps \<Longrightarrow> \<exists>l'. add_all add l qs = Some l' \<and> rep l' (rev qs @ ps)"
proof (induction qs arbitrary: l ps)
  case (Cons q qs)
  from add_law [OF Cons.prems, of q] obtain l' where "add l q = Some l'" "rep l' (q # ps)" by blast
  with Cons.IH [of l' "q # ps"] show ?case by auto
qed simp

lemma clean_exact:
  assumes "rep l []" "sorted_wrt (\<lambda>a b. time a \<le> time b) qs" "length qs < fuel"
  shows "\<exists>l1 l2. add_all add l qs = Some l1 \<and>
    clean fuel t l1 = Some (l2, map ident (filter (\<lambda>p. time p < t) (rev qs))) \<and>
    rep l2 (filter (\<lambda>p. time p \<ge> t) (rev qs))"
proof -
  obtain l1 where l1: "add_all add l qs = Some l1" "rep l1 (rev qs)" using add_all_law [OF assms(1), of qs] by auto
  have so: "sorted_wrt (\<lambda>a b. time b \<le> time a) (rev qs)" using assms(2) by (simp add: sorted_wrt_rev)
  have "filter (\<lambda>p. \<not> time p \<ge> t) (rev qs) = filter (\<lambda>p. time p < t) (rev qs)" by (simp add: not_le)
  with clean_law [OF l1(2), of fuel t] assms(3) l1 sorted_split [OF so, of t] show ?thesis by auto
qed

end

lemma drop_length_takeWhile: "drop (length (takeWhile P xs)) xs = dropWhile P xs"
  by (simp add: dropWhile_eq_drop)

lemma clean_list_ok:
  assumes "pl_rep pl ps" "length ps < fuel"
  shows "\<exists>pl'. clean_list fuel t pl = Some (pl', map local_docid (dropWhile (\<lambda>p. timestamp p \<ge> t) ps)) \<and>
     pl_rep pl' (takeWhile (\<lambda>p. timestamp p \<ge> t) ps)"
proof -
  obtain as where as: "pl_ok pl as" "postings pl as = ps" using assms(1) by (auto simp: pl_rep_def)
  have len: "length as < fuel" using as(2) assms(2) by (auto simp: postings_def datas_def)
  let ?n = "length (takeWhile (\<lambda>p. timestamp p \<ge> t) ps)"
  from mark_list_ok [OF as(1) len, of t] obtain m where
    m: "mark_list fuel t pl = Some (SetEndMark pl (Some m))" "m = (GetFakeFront pl # as) ! ?n" "?n \<le> length as"
      "pl_ok (SetEndMark pl (Some m)) as" unfolding as(2) by blast
  let ?pl = "SetEndMark pl (Some m)"
  have "end_mark' ?pl = Some ((GetFakeFront ?pl # as) ! ?n)" "postings ?pl as = ps"
    using m(2) as(2) by (simp_all add: SetEndMark_def GetFakeFront_def postings_def)
  with clear_list_ok [OF m(4,3) len] obtain pl' where
    "clear_list fuel ?pl = Some (pl', map local_docid (drop ?n ps))" "pl_ok pl' (take ?n as)"
    "postings pl' (take ?n as) = take ?n ps" "end_mark' pl' = None" by auto
  moreover have "take ?n ps = takeWhile (\<lambda>p. timestamp p \<ge> t) ps" by (metis takeWhile_eq_take)
  ultimately show ?thesis using m(1)
    by (auto simp: clean_list_def pl_rep_def drop_length_takeWhile)
qed

interpretation aged: aging_list pl_rep timestamp local_docid "add_posting addr_supply dflt" clean_list for dflt
proof unfold_locales
  fix l :: "'a PostingList" and ps p fuel t
  assume rep: "pl_rep l ps"
  then obtain as where as: "pl_ok l as" "postings l as = ps" "end_mark' l = None" by (auto simp: pl_rep_def)
  show "\<exists>l'. add_posting addr_supply dflt l p = Some l' \<and> pl_rep l' (p # ps)"
    using add_posting_ok [OF addr_supply_ok as(1), of dflt p] as by (auto simp: pl_rep_def)
  assume "length ps < fuel"
  then show "\<exists>l'. clean_list fuel t l = Some (l', map local_docid (dropWhile (\<lambda>p. t \<le> timestamp p) ps)) \<and>
      pl_rep l' (takeWhile (\<lambda>p. t \<le> timestamp p) ps)"
    using clean_list_ok [OF rep, of fuel t] by simp
qed

text \<open>
  C21: Postings added to a fresh list in order of time and then cleaned once (marking and clearing
  with nothing in between): exactly the postings at or after the target time stay,
  newest first, and exactly the documents of the older ones are reported for deletion.
\<close>

theorem posting_list_ages:
  assumes "sorted_wrt (\<lambda>a b. timestamp a \<le> timestamp b) qs" "length qs < fuel"
  shows "\<exists>l1 l2 as. add_all (add_posting addr_supply dflt) (newPostingList addr_supply dflt) qs = Some l1 \<and>
    clean_list fuel t l1 = Some (l2, map local_docid (filter (\<lambda>p. timestamp p < t) (rev qs))) \<and>
    pl_ok l2 as \<and> visible l2 as = filter (\<lambda>p. timestamp p \<ge> t) (rev qs)"
proof -
  have "pl_rep (newPostingList addr_supply dflt) []"
    using newPostingList_ok [of addr_supply dflt] by (auto simp: pl_rep_def newPostingList_def)
  from aged.clean_exact [OF this assms, of dflt t] obtain l1 l2 as where
    "add_all (add_posting addr_supply dflt) (newPostingList addr_supply dflt) qs = Some l1"
    "clean_list fuel t l1 = Some (l2, map local_docid (filter (\<lambda>p. timestamp p < t) (rev qs)))"
    "pl_ok l2 as" "postings l2 as = filter (\<lambda>p. timestamp p \<ge> t) (rev qs)" "end_mark' l2 = None"
    by (auto simp: pl_rep_def)
  then show ?thesis by (auto simp: visible_def visible_from_none)
qed

theorem posting_list_ages_witness:
  "\<exists>l1 l2 as. add_all (add_posting addr_supply \<lparr>local_docid = 0, weight = (), timestamp = 0\<rparr>)
      (newPostingList addr_supply \<lparr>local_docid = 0, weight = (), timestamp = 0\<rparr>)
      [\<lparr>local_docid = 1, weight = (), timestamp = 10\<rparr>, \<lparr>local_docid = 2, weight = (), timestamp = 20\<rparr>] = Some l1 \<and>
    clean_list 5 15 l1 = Some (l2, [1]) \<and> visible l2 as = [\<lparr>local_docid = 2, weight = (), timestamp = 20\<rparr>]"
  using posting_list_ages [of "[\<lparr>local_docid = 1, weight = (), timestamp = 10\<rparr>,
      \<lparr>local_docid = 2, weight = (), timestamp = 20\<rparr>]" 5 "\<lparr>local_docid = 0, weight = (), timestamp = 0\<rparr>" 15]
  by auto

text \<open>
  The cleaning thread sleeps between marking and clearing. If at the marking every posting of
  a list was old (or the list was empty), the mark is the fake front, and every posting
  added before the clearing is invisible to readers and then erased, its document
  reported for deletion, however recent it is.
\<close>

theorem mark_front_loses_new:
  assumes "pl_ok pl as" "postings pl as = ps" "length ps < fuel" "\<forall>p \<in> set ps. timestamp p < t"
    and "length ps + 1 < fuel'"
  shows "\<exists>pl1 pl2 as2 pl3. mark_list fuel t pl = Some pl1 \<and> add_posting addr_supply dflt pl1 p = Some pl2 \<and>
    pl_ok pl2 as2 \<and> postings pl2 as2 = p # ps \<and> visible pl2 as2 = [] \<and>
    clear_list fuel' pl2 = Some (pl3, local_docid p # map local_docid ps) \<and> pl_ok pl3 []"
proof -
  have len: "length as = length ps" using assms(2) by (auto simp: postings_def datas_def)
  have "takeWhile (\<lambda>p. timestamp p \<ge> t) ps = []" using assms(4) by (cases ps) auto
  with mark_list_ok [OF assms(1), of fuel t] assms(2,3) len obtain pl1 where
    m: "mark_list fuel t pl = Some pl1" "pl1 = SetEndMark pl (Some (GetFakeFront pl))" "pl_ok pl1 as" by auto
  have p1: "postings pl1 as = ps" "GetFakeFront pl1 = GetFakeFront pl" "end_mark' pl1 = Some (GetFakeFront pl)"
    using assms(2) by (simp_all add: m(2) SetEndMark_def postings_def GetFakeFront_def)
  from add_posting_ok [OF addr_supply_ok m(3), of dflt p] obtain pl2 a where
    a: "add_posting addr_supply dflt pl1 p = Some pl2" "pl_ok pl2 (a # as)" "postings pl2 (a # as) = p # ps"
      "end_mark' pl2 = Some (GetFakeFront pl2)" using p1 by auto
  have "visible pl2 (a # as) = []" using a(4) by (simp add: visible_def postings_def datas_def)
  moreover from clear_list_ok [OF a(2), of 0 fuel'] a(3,4) assms(5) len obtain pl3 where
    "clear_list fuel' pl2 = Some (pl3, local_docid p # map local_docid ps)" "pl_ok pl3 []" by auto
  ultimately show ?thesis using m(1) a by blast
qed

theorem mark_front_loses_new_witness:
  "\<exists>pl1 pl2 pl3. mark_list 9 (10 ^ 6) sample_plist = Some pl1 \<and>
     add_posting addr_supply \<lparr>local_docid = 0, weight = 0, timestamp = 0\<rparr> pl1
       \<lparr>local_docid = 77, weight = 1, timestamp = 10 ^ 9\<rparr> = Some pl2 \<and>
     clear_list 9 pl2 = Some (pl3, [77, 9, 8])"
proof -
  have ps: "postings sample_plist [3, 2] = [\<lparr>local_docid = 9, weight = 5, timestamp = 70\<rparr>,
      \<lparr>local_docid = 8, weight = 4, timestamp = 60\<rparr>]"
    by (simp add: postings_def datas_def sample_plist_def)
  show ?thesis
    using mark_front_loses_new [OF sample_plist_ok ps, of 9 "10 ^ 6" 9 "\<lparr>local_docid = 0, weight = 0, timestamp = 0\<rparr>"
        "\<lparr>local_docid = 77, weight = 1, timestamp = 10 ^ 9\<rparr>"] by auto
qed

end
