(* ===== verification/Instant_Index.thy ===== *)
theory Instant_Index
  imports Posting "HOL-Library.AList"
begin

text \<open>
  \<^verbatim>\<open>src/indexing/instant_index.cc\<close>, \<^verbatim>\<open>index_build_thread.cc\<close> and \<^verbatim>\<open>clean_old_story_thread.cc\<close>: the
  inverted index from tokens to posting lists, the attachments that translate a local document
  number to the global one, and the two daemon threads that change them. The unordered maps
  are association lists (their iteration order is the list's). Parameters stand for code outside:
  \<open>city\<close> for CityHash64, \<open>to_float\<close> for the conversion of a keyword's weight, \<open>clock i\<close> for
  the reading of the clock taken for the \<open>i\<close>-th keyword, \<open>new\<close> and \<open>dflt\<close> for the
  allocation of nodes. \<open>None\<close> is a failed \<^verbatim>\<open>CHECK\<close> or a bad pointer.
\<close>

record story =
  story_id :: bytes
  story_keywords :: "(int \<times> int) list"

record 'w InstantIndex =
  index' :: "(int \<times> 'w PostingList) list"
  att' :: "(32 word \<times> 64 word) list"
  local_docid_counter' :: "32 word"

definition newInstantIndex :: "'w InstantIndex" where
  "newInstantIndex = \<lparr>index' = [], att' = [], local_docid_counter' = 1\<rparr>"

section \<open>The index building thread\<close>

definition add_new_token ::
    "('w Posting lheap \<Rightarrow> addr) \<Rightarrow> 'w Posting \<Rightarrow> int \<Rightarrow> (int \<times> 'w PostingList) list \<Rightarrow> (int \<times> 'w PostingList) list" where
  "add_new_token new dflt t ix = AList.update t (newPostingList new dflt) ix"

fun add_tokens ::
    "('w Posting lheap \<Rightarrow> addr) \<Rightarrow> 'w Posting \<Rightarrow> int list \<Rightarrow> (int \<times> 'w PostingList) list \<Rightarrow> (int \<times> 'w PostingList) list" where
  "add_tokens new dflt [] ix = ix"
| "add_tokens new dflt (t # ts) ix = add_tokens new dflt ts (add_new_token new dflt t ix)"

fun add_postings ::
    "('w Posting lheap \<Rightarrow> addr) \<Rightarrow> 'w Posting \<Rightarrow> (int \<Rightarrow> 'w) \<Rightarrow> (nat \<Rightarrow> int) \<Rightarrow> 32 word \<Rightarrow> nat
     \<Rightarrow> (int \<times> int) list \<Rightarrow> (int \<times> 'w PostingList) list \<Rightarrow> (int \<times> 'w PostingList) list option" where
  "add_postings new dflt to_float clock local_id i [] ix = Some ix"
| "add_postings new dflt to_float clock local_id i ((t, w) # ks) ix =
     do { pl \<leftarrow> map_of ix t;
          pl \<leftarrow> add_posting new dflt pl
            \<lparr>local_docid = local_id, weight = to_float w, timestamp = clock i\<rparr>;
          add_postings new dflt to_float clock local_id (Suc i) ks (AList.update t pl ix) }"

definition AddStoryInternal ::
    "('w Posting lheap \<Rightarrow> addr) \<Rightarrow> 'w Posting \<Rightarrow> (bytes \<Rightarrow> 64 word) \<Rightarrow> (int \<Rightarrow> 'w) \<Rightarrow> (nat \<Rightarrow> int)
     \<Rightarrow> 'w InstantIndex \<Rightarrow> story \<Rightarrow> 'w InstantIndex option" where
  "AddStoryInternal new dflt city to_float clock st story =
     (let local_id = local_docid_counter' st;
          st = st\<lparr>local_docid_counter' := local_id + 1,
                  att' := AList.update local_id (city (story_id story)) (att' st)\<rparr>;
          new_tokens = filter (\<lambda>t. map_of (index' st) t = None) (map fst (story_keywords story));
          ix = add_tokens new dflt new_tokens (index' st)
      in do { ix \<leftarrow> add_postings new dflt to_float clock local_id 0 (story_keywords story) ix;
              Some (st\<lparr>index' := ix\<rparr>) })"

section \<open>The cleaning thread\<close>

fun mark_all :: "nat \<Rightarrow> int \<Rightarrow> (int \<times> 'w PostingList) list \<Rightarrow> (int \<times> 'w PostingList) list option" where
  "mark_all fuel target [] = Some []"
| "mark_all fuel target ((t, pl) # ix) =
     do { pl \<leftarrow> mark_list fuel target pl; ix \<leftarrow> mark_all fuel target ix; Some ((t, pl) # ix) }"

fun clear_all ::
    "nat \<Rightarrow> (int \<times> 'w PostingList) list \<Rightarrow> ((int \<times> 'w PostingList) list \<times> 32 word list) option" where
  "clear_all fuel [] = Some ([], [])"
| "clear_all fuel ((t, pl) # ix) =
     do { (pl, ds) \<leftarrow> clear_list fuel pl;
          (ix, ds') \<leftarrow> clear_all fuel ix;
          Some ((t, pl) # ix, ds @ ds') }"

definition Marking :: "nat \<Rightarrow> int \<Rightarrow> 'w InstantIndex \<Rightarrow> 'w InstantIndex option" where
  "Marking fuel target st =
     do { ix \<leftarrow> mark_all fuel target (index' st); Some (st\<lparr>index' := ix\<rparr>) }"

definition Clearing :: "nat \<Rightarrow> 'w InstantIndex \<Rightarrow> 'w InstantIndex option" where
  "Clearing fuel st =
     do { (ix, doc_to_delete) \<leftarrow> clear_all fuel (index' st);
          Some (st\<lparr>index' := ix, att' := foldr AList.delete (remdups doc_to_delete) (att' st)\<rparr>) }"

section \<open>The retrieval interface\<close>

definition GetPostingList :: "'w InstantIndex \<Rightarrow> int \<Rightarrow> ('w PostingList \<times> PostingIteratorImpl) option" where
  "GetPostingList st token =
     map_option (\<lambda>pl. (pl, newPostingIteratorImpl pl)) (map_of (index' st) token)"

definition GetPostingListBatch ::
    "'w InstantIndex \<Rightarrow> int list \<Rightarrow> (int \<times> 'w PostingList \<times> PostingIteratorImpl) list" where
  "GetPostingListBatch st tokens =
     foldl (\<lambda>ret t. case map_of (index' st) t of
                      None \<Rightarrow> ret
                    | Some pl \<Rightarrow> AList.update t (pl, newPostingIteratorImpl pl) ret) [] tokens"

definition TranslateToGlobalID :: "'w InstantIndex \<Rightarrow> 32 word \<Rightarrow> 64 word option" where
  "TranslateToGlobalID st local_id = map_of (att' st) local_id"

definition TranslateToGlobalIDBatch ::
    "'w InstantIndex \<Rightarrow> 32 word list \<Rightarrow> (32 word \<times> 64 word) list \<Rightarrow> (32 word \<times> 64 word) list \<times> bool" where
  "TranslateToGlobalIDBatch st locals res =
     (let res = foldl (\<lambda>res d. case map_of (att' st) d of
                                 None \<Rightarrow> res | Some g \<Rightarrow> AList.update d g res) res locals
      in (res, length locals = length res))"

section \<open>The index as a map from tokens to posting sequences\<close>

definition ix_rep :: "(int \<times> 'w PostingList) list \<Rightarrow> (int \<rightharpoonup> 'w Posting list) \<Rightarrow> bool" where
  "ix_rep ix M \<longleftrightarrow> distinct (map fst ix) \<and> (\<forall>t. rel_option pl_rep (map_of ix t) (M t))"

fun add_spec ::
    "(int \<Rightarrow> 'w) \<Rightarrow> (nat \<Rightarrow> int) \<Rightarrow> 32 word \<Rightarrow> nat \<Rightarrow> (int \<times> int) list
     \<Rightarrow> (int \<rightharpoonup> 'w Posting list) \<Rightarrow> (int \<rightharpoonup> 'w Posting list)" where
  "add_spec to_float clock d i [] M = M"
| "add_spec to_float clock d i ((t, w) # ks) M =
     add_spec to_float clock d (Suc i) ks
       (M(t \<mapsto> \<lparr>local_docid = d, weight = to_float w, timestamp = clock i\<rparr> # case_option [] id (M t)))"

lemma ix_rep_at: "ix_rep ix M \<Longrightarrow> rel_option pl_rep (map_of ix t) (M t)"
  by (simp add: ix_rep_def)

lemma ix_rep_Some: "ix_rep ix M \<Longrightarrow> M t = Some ps \<Longrightarrow> \<exists>pl. map_of ix t = Some pl \<and> pl_rep pl ps"
  using ix_rep_at [of ix M t] by (cases "map_of ix t") auto

lemma ix_rep_None: "ix_rep ix M \<Longrightarrow> map_of ix t = None \<longleftrightarrow> M t = None"
  using ix_rep_at [of ix M t] by (cases "map_of ix t"; cases "M t") auto

lemma ix_rep_update:
  "ix_rep ix M \<Longrightarrow> pl_rep pl ps \<Longrightarrow> ix_rep (AList.update t pl ix) (M(t \<mapsto> ps))"
  by (auto simp: ix_rep_def distinct_update update_conv')

lemma newPostingList_rep: "pl_rep (newPostingList new dflt) []"
  using newPostingList_ok [of new dflt] by (auto simp: pl_rep_def newPostingList_def)

lemma add_tokens_rep:
  "ix_rep ix M \<Longrightarrow> ix_rep (add_tokens new dflt ts ix) (\<lambda>t. if t \<in> set ts then Some [] else M t)"
proof (induction ts arbitrary: ix M)
  case (Cons t ts)
  have "ix_rep (add_new_token new dflt t ix) (M(t \<mapsto> []))"
    unfolding add_new_token_def by (rule ix_rep_update [OF Cons.prems newPostingList_rep])
  from Cons.IH [OF this]
  have "ix_rep (add_tokens new dflt ts (add_new_token new dflt t ix))
      (\<lambda>u. if u \<in> set ts then Some [] else (M(t \<mapsto> [])) u)" .
  moreover have "(\<lambda>u. if u \<in> set ts then Some [] else (M(t \<mapsto> [])) u) =
      (\<lambda>u. if u \<in> set (t # ts) then Some [] else M u)" by auto
  ultimately show ?case by simp
qed simp

lemma add_posting_rep:
  "new_ok new \<Longrightarrow> pl_rep pl ps \<Longrightarrow> \<exists>pl'. add_posting new dflt pl p = Some pl' \<and> pl_rep pl' (p # ps)"
  unfolding pl_rep_def using add_posting_ok [of new pl _ dflt p] by metis

lemma add_postings_rep:
  "new_ok new \<Longrightarrow> ix_rep ix M \<Longrightarrow> fst ` set ks \<subseteq> dom M \<Longrightarrow>
   \<exists>ix'. add_postings new dflt to_float clock d i ks ix = Some ix' \<and>
     ix_rep ix' (add_spec to_float clock d i ks M)"
proof (induction ks arbitrary: i ix M)
  case (Cons k ks)
  obtain t w where k: "k = (t, w)" by force
  with Cons.prems(3) obtain ps where ps: "M t = Some ps" by auto
  then obtain pl where pl: "map_of ix t = Some pl" "pl_rep pl ps"
    using ix_rep_Some [OF Cons.prems(2)] by blast
  let ?p = "\<lparr>local_docid = d, weight = to_float w, timestamp = clock i\<rparr>"
  obtain pl' where pl': "add_posting new dflt pl ?p = Some pl'" "pl_rep pl' (?p # ps)"
    using add_posting_rep [OF Cons.prems(1) pl(2)] by blast
  have "fst ` set ks \<subseteq> dom (M(t \<mapsto> ?p # ps))" using Cons.prems(3) by auto
  from Cons.IH [OF Cons.prems(1) ix_rep_update [OF Cons.prems(2) pl'(2)] this, of "Suc i"] show ?case
    using k ps pl pl'(1) by (simp del: fun_upd_apply)
qed simp

text \<open>Missing tokens and empty lists are the same to \<open>add_spec\<close>.\<close>

lemma add_spec_new:
  "\<forall>t. M' t = M t \<or> t \<in> fst ` set ks \<and> M t = None \<and> M' t = Some [] \<Longrightarrow>
   add_spec to_float clock d i ks M' = add_spec to_float clock d i ks M"
proof (induction ks arbitrary: M M' i)
  case Nil
  then have "M' = M" by auto
  then show ?case by simp
next
  case (Cons k ks)
  obtain t w where k: "k = (t, w)" by force
  let ?p = "\<lparr>local_docid = d, weight = to_float w, timestamp = clock i\<rparr>"
  have eq: "case_option [] id (M' t) = case_option [] id (M t)" using Cons.prems by (metis id_apply option.case)
  have "\<forall>u. (M'(t \<mapsto> ?p # case_option [] id (M' t))) u = (M(t \<mapsto> ?p # case_option [] id (M t))) u \<or>
      u \<in> fst ` set ks \<and> (M(t \<mapsto> ?p # case_option [] id (M t))) u = None \<and>
      (M'(t \<mapsto> ?p # case_option [] id (M' t))) u = Some []"
    using Cons.prems k unfolding eq by auto
  then show ?case unfolding k add_spec.simps by (rule Cons.IH)
qed

lemma AddStoryInternal_rep:
  assumes "new_ok new" "ix_rep (index' st) M"
  shows "\<exists>st'. AddStoryInternal new dflt city to_float clock st story = Some st' \<and>
    ix_rep (index' st') (add_spec to_float clock (local_docid_counter' st) 0 (story_keywords story) M) \<and>
    att' st' = AList.update (local_docid_counter' st) (city (story_id story)) (att' st) \<and>
    local_docid_counter' st' = local_docid_counter' st + 1"
proof -
  let ?ks = "story_keywords story" and ?d = "local_docid_counter' st"
  define nt where "nt = filter (\<lambda>t. map_of (index' st) t = None) (map fst ?ks)"
  define M' where "M' = (\<lambda>t. if t \<in> set nt then Some [] else M t)"
  have none: "map_of (index' st) t = None \<longleftrightarrow> M t = None" for t
    using ix_rep_None [OF assms(2)] .
  have rep: "ix_rep (add_tokens new dflt nt (index' st)) M'"
    unfolding M'_def by (rule add_tokens_rep [OF assms(2)])
  have "fst ` set ?ks \<subseteq> dom M'" using none by (force simp: M'_def nt_def)
  from add_postings_rep [OF assms(1) rep this, of dflt to_float clock ?d 0] obtain ix' where
    ix': "add_postings new dflt to_float clock ?d 0 ?ks (add_tokens new dflt nt (index' st)) = Some ix'"
      "ix_rep ix' (add_spec to_float clock ?d 0 ?ks M')" by blast
  have "add_spec to_float clock ?d 0 ?ks M' = add_spec to_float clock ?d 0 ?ks M"
    by (rule add_spec_new) (auto simp: M'_def nt_def none)
  then show ?thesis using ix' by (auto simp: AddStoryInternal_def Let_def nt_def [symmetric])
qed

section \<open>A cleaning round\<close>

abbreviation recent :: "int \<Rightarrow> 'w Posting \<Rightarrow> bool" where
  "recent target p \<equiv> timestamp p \<ge> target"

definition lists_short :: "nat \<Rightarrow> (int \<times> 'w PostingList) list \<Rightarrow> bool" where
  "lists_short fuel ix \<longleftrightarrow> (\<forall>pl \<in> snd ` set ix. \<forall>ps. pl_rep pl ps \<longrightarrow> length ps < fuel)"

text \<open>
  Marking all the lists and then clearing them all is a cleaning round of each list. The
  result is described by the sequences \<open>pss\<close> that the lists represent.
\<close>

lemma mark_clear_all:
  "list_all2 (\<lambda>x ps. pl_rep (snd x) ps \<and> length ps < fuel) ix pss \<Longrightarrow>
   \<exists>ix1 ix2. mark_all fuel t ix = Some ix1 \<and>
     clear_all fuel ix1 = Some (ix2, concat (map (\<lambda>ps. map local_docid (dropWhile (recent t) ps)) pss)) \<and>
     map fst ix2 = map fst ix \<and>
     list_all2 (\<lambda>x ps. pl_rep (snd x) (takeWhile (recent t) ps)) ix2 pss"
proof (induction rule: list_all2_induct)
  case (Cons x xs ps pss)
  obtain k pl where x: "x = (k, pl)" by force
  from Cons(1) clean_list_ok [of pl ps fuel t] obtain pl1 pl2 where
    "mark_list fuel t pl = Some pl1" "clear_list fuel pl1 = Some (pl2, map local_docid (dropWhile (recent t) ps))"
    "pl_rep pl2 (takeWhile (recent t) ps)"
    by (auto simp: x clean_list_def split: option.splits Option.bind_splits)
  with Cons(3) show ?case by (auto simp: x)
qed simp

lemma ix_rep_list:
  assumes "ix_rep ix M"
  shows "\<exists>pss. list_all2 (\<lambda>x ps. pl_rep (snd x) ps \<and> M (fst x) = Some ps) ix pss"
proof -
  have "\<forall>x \<in> set ix. \<exists>ps. pl_rep (snd x) ps \<and> M (fst x) = Some ps"
  proof
    fix x assume "x \<in> set ix"
    then have "map_of ix (fst x) = Some (snd x)" using assms by (simp add: ix_rep_def)
    then show "\<exists>ps. pl_rep (snd x) ps \<and> M (fst x) = Some ps"
      using ix_rep_at [OF assms, of "fst x"] by (cases "M (fst x)") auto
  qed
  then obtain g where "\<forall>x \<in> set ix. pl_rep (snd x) (g x) \<and> M (fst x) = Some (g x)" by metis
  then have "list_all2 (\<lambda>x ps. pl_rep (snd x) ps \<and> M (fst x) = Some ps) ix (map g ix)"
    by (auto simp: list_all2_conv_all_nth)
  then show ?thesis by blast
qed

lemma list_all2_map_of:
  assumes "list_all2 (\<lambda>x ps. pl_rep (snd x) (f ps)) ix2 pss" "map fst ix2 = map fst ix" "distinct (map fst ix)"
    and "list_all2 (\<lambda>x ps. M (fst x) = Some ps) ix pss" "\<forall>t. map_of ix t = None \<longleftrightarrow> M t = None"
  shows "ix_rep ix2 (\<lambda>t. map_option f (M t))"
proof -
  have len: "length ix2 = length ix" "length pss = length ix"
    using assms(2,4) by (auto dest: list_all2_lengthD map_eq_imp_length_eq)
  have "rel_option pl_rep (map_of ix2 t) (map_option f (M t))" for t
  proof (cases "t \<in> fst ` set ix")
    case True
    then obtain i where i: "i < length ix" "fst (ix ! i) = t" by (auto simp: in_set_conv_nth)
    have k: "fst (ix2 ! i) = t" using assms(2) i len by (metis nth_map)
    have "distinct (map fst ix2)" using assms(2,3) by simp
    then have "map_of ix2 t = Some (snd (ix2 ! i))"
      using i len k by (metis map_of_eq_Some_iff nth_mem prod.collapse)
    moreover have "M t = Some (pss ! i)" using assms(4) i by (auto simp: list_all2_conv_all_nth)
    moreover have "pl_rep (snd (ix2 ! i)) (f (pss ! i))" using assms(1) i len by (auto simp: list_all2_conv_all_nth)
    ultimately show ?thesis by simp
  next
    case False
    then have "map_of ix2 t = None" "M t = None"
      using assms(2,5) by (metis list.set_map map_of_eq_None_iff)+
    then show ?thesis by simp
  qed
  then show ?thesis using assms(2,3) by (simp add: ix_rep_def)
qed

lemma map_of_foldr_delete:
  "map_of (foldr AList.delete ds xs) k = (if k \<in> set ds then None else map_of xs k)"
  by (induction ds) (auto simp: delete_conv')

lemma distinct_foldr_delete:
  "distinct (map fst xs) \<Longrightarrow> distinct (map fst (foldr AList.delete ds xs))"
  by (induction ds) (auto simp: distinct_delete)

lemma clean_round_rep:
  assumes rep: "ix_rep (index' st) M" and short: "lists_short fuel (index' st)"
  shows "\<exists>st1 st2 ds. Marking fuel t st = Some st1 \<and> Clearing fuel st1 = Some st2 \<and>
    ix_rep (index' st2) (\<lambda>k. map_option (takeWhile (recent t)) (M k)) \<and>
    set ds = {d. \<exists>k ps p. M k = Some ps \<and> p \<in> set (dropWhile (recent t) ps) \<and> d = local_docid p} \<and>
    (\<forall>d. map_of (att' st2) d = (if d \<in> set ds then None else map_of (att' st) d)) \<and>
    att' st2 = foldr AList.delete (remdups ds) (att' st) \<and>
    local_docid_counter' st2 = local_docid_counter' st"
proof -
  obtain pss where pss: "list_all2 (\<lambda>x ps. pl_rep (snd x) ps \<and> M (fst x) = Some ps) (index' st) pss"
    using ix_rep_list [OF rep] by blast
  have "list_all2 (\<lambda>x ps. pl_rep (snd x) ps \<and> length ps < fuel) (index' st) pss"
    using pss short by (auto simp: list_all2_conv_all_nth lists_short_def) (metis nth_mem)
  from mark_clear_all [OF this, of t] obtain ix1 ix2 where
    r: "mark_all fuel t (index' st) = Some ix1"
      "clear_all fuel ix1 = Some (ix2, concat (map (\<lambda>ps. map local_docid (dropWhile (recent t) ps)) pss))"
      "map fst ix2 = map fst (index' st)"
      "list_all2 (\<lambda>x ps. pl_rep (snd x) (takeWhile (recent t) ps)) ix2 pss" by blast
  let ?ds = "concat (map (\<lambda>ps. map local_docid (dropWhile (recent t) ps)) pss)"
  have M: "list_all2 (\<lambda>x ps. M (fst x) = Some ps) (index' st) pss"
    using pss by (auto simp: list_all2_conv_all_nth)
  have rep2: "ix_rep ix2 (\<lambda>k. map_option (takeWhile (recent t)) (M k))"
    by (rule list_all2_map_of [OF r(4,3) _ M]) (use rep ix_rep_None [OF rep] in \<open>auto simp: ix_rep_def\<close>)
  have ran: "ps \<in> set pss \<longleftrightarrow> (\<exists>k. M k = Some ps)" for ps
  proof
    assume "ps \<in> set pss"
    then show "\<exists>k. M k = Some ps" using M by (auto simp: list_all2_conv_all_nth in_set_conv_nth)
  next
    assume "\<exists>k. M k = Some ps"
    then obtain k where k: "M k = Some ps" by blast
    then have "map_of (index' st) k \<noteq> None" using ix_rep_None [OF rep] by auto
    then obtain i where "i < length (index' st)" "fst (index' st ! i) = k"
      by (auto simp: map_of_eq_None_iff in_set_conv_nth)
    with M k show "ps \<in> set pss" by (auto simp: list_all2_conv_all_nth in_set_conv_nth)
  qed
  have ds: "set ?ds = {d. \<exists>k ps p. M k = Some ps \<and> p \<in> set (dropWhile (recent t) ps) \<and> d = local_docid p}"
    using ran by auto blast
  let ?st2 = "st\<lparr>index' := ix2, att' := foldr AList.delete (remdups ?ds) (att' st)\<rparr>"
  have mk: "Marking fuel t st = Some (st\<lparr>index' := ix1\<rparr>)" using r(1) by (simp add: Marking_def)
  have cl: "Clearing fuel (st\<lparr>index' := ix1\<rparr>) = Some ?st2" using r(2) by (simp add: Clearing_def)
  have at: "\<forall>d. map_of (att' ?st2) d = (if d \<in> set ?ds then None else map_of (att' st) d)"
    by (simp add: map_of_foldr_delete)
  show ?thesis
    by (intro exI [of _ "st\<lparr>index' := ix1\<rparr>"] exI [of _ ?st2] exI [of _ ?ds] conjI)
       (use mk cl rep2 ds at in simp_all)
qed

section \<open>The two threads as a state machine\<close>

text \<open>
  A state with the time of the last story. A story is added at a time that is read once
  for all its keywords; a cleaning round runs with nothing added between its two phases. At
  most \<open>2 ^ 32 - 2\<close> stories are added, so that local document numbers are not reused.
\<close>

type_synonym 'w istate = "'w InstantIndex \<times> int"

inductive istep ::
    "('w Posting lheap \<Rightarrow> addr) \<Rightarrow> 'w Posting \<Rightarrow> (bytes \<Rightarrow> 64 word) \<Rightarrow> (int \<Rightarrow> 'w)
     \<Rightarrow> 'w istate \<Rightarrow> 'w istate \<Rightarrow> bool"
  for new :: "'w Posting lheap \<Rightarrow> addr" and dflt city to_float where
  add: "now \<le> now' \<Longrightarrow> unat (local_docid_counter' st) + 1 < 2 ^ 32 \<Longrightarrow>
    AddStoryInternal new dflt city to_float (\<lambda>_. now') st story = Some st' \<Longrightarrow>
    istep new dflt city to_float (st, now) (st', now')"
| clean: "lists_short fuel (index' st) \<Longrightarrow> Marking fuel t st = Some st1 \<Longrightarrow> Clearing fuel st1 = Some st2 \<Longrightarrow>
    istep new dflt city to_float (st, now) (st2, now)"

inductive_cases istepE: "istep new dflt city to_float s s'"

definition same_times :: "(int \<rightharpoonup> 'w Posting list) \<Rightarrow> bool" where
  "same_times M \<longleftrightarrow> (\<forall>k l ps qs p q. M k = Some ps \<longrightarrow> M l = Some qs \<longrightarrow> p \<in> set ps \<longrightarrow> q \<in> set qs \<longrightarrow>
     local_docid p = local_docid q \<longrightarrow> timestamp p = timestamp q)"

definition list_inv :: "32 word \<Rightarrow> 32 word set \<Rightarrow> int \<Rightarrow> 'w Posting list \<Rightarrow> bool" where
  "list_inv c A now ps \<longleftrightarrow> sorted_wrt (\<lambda>a b. timestamp b \<le> timestamp a) ps \<and>
     (\<forall>p \<in> set ps. timestamp p \<le> now \<and> local_docid p < c \<and> local_docid p \<in> A)"

definition idx_inv :: "'w InstantIndex \<Rightarrow> int \<Rightarrow> (int \<rightharpoonup> 'w Posting list) \<Rightarrow> bool" where
  "idx_inv st now M \<longleftrightarrow> ix_rep (index' st) M \<and> same_times M \<and> distinct (map fst (att' st)) \<and>
     (\<forall>k ps. M k = Some ps \<longrightarrow> list_inv (local_docid_counter' st) (dom (map_of (att' st))) now ps)"

text \<open>Adding postings of a fresh document, all with the current time.\<close>

lemma add_spec_inv:
  assumes "\<forall>k ps. M k = Some ps \<longrightarrow> sorted_wrt (\<lambda>a b. timestamp b \<le> timestamp a) ps \<and>
      (\<forall>p \<in> set ps. timestamp p \<le> now \<and> (local_docid p \<in> A \<and> local_docid p < d \<or> local_docid p = d \<and> timestamp p = now))"
    and "M' = add_spec to_float (\<lambda>_. now) d i ks M" "M' k = Some ps"
  shows "sorted_wrt (\<lambda>a b. timestamp b \<le> timestamp a) ps \<and>
      (\<forall>p \<in> set ps. timestamp p \<le> now \<and> (local_docid p \<in> A \<and> local_docid p < d \<or> local_docid p = d \<and> timestamp p = now))"
  using assms
proof (induction ks arbitrary: M i)
  case Nil
  then show ?case by simp
next
  case (Cons kw ks)
  obtain t w where kw: "kw = (t, w)" by force
  let ?p = "\<lparr>local_docid = d, weight = to_float w, timestamp = now\<rparr>"
  let ?M = "M(t \<mapsto> ?p # case_option [] id (M t))"
  have "\<forall>k ps. ?M k = Some ps \<longrightarrow> sorted_wrt (\<lambda>a b. timestamp b \<le> timestamp a) ps \<and>
      (\<forall>p \<in> set ps. timestamp p \<le> now \<and> (local_docid p \<in> A \<and> local_docid p < d \<or> local_docid p = d \<and> timestamp p = now))"
    using Cons.prems(1) by (auto split: option.splits)
  moreover have "M' = add_spec to_float (\<lambda>_. now) d (Suc i) ks ?M" using Cons.prems(2) by (simp add: kw)
  ultimately show ?case using Cons.IH Cons.prems(3) by blast
qed

lemma add_spec_old:
  "M' = add_spec to_float clock d i ks M \<Longrightarrow> M' k = Some ps \<Longrightarrow> p \<in> set ps \<Longrightarrow>
   local_docid p \<noteq> d \<Longrightarrow> \<exists>qs. M k = Some qs \<and> p \<in> set qs"
proof (induction ks arbitrary: M i)
  case (Cons kw ks)
  obtain t w where kw: "kw = (t, w)" by force
  let ?p = "\<lparr>local_docid = d, weight = to_float w, timestamp = clock i\<rparr>"
  let ?M = "M(t \<mapsto> ?p # case_option [] id (M t))"
  have "M' = add_spec to_float clock d (Suc i) ks ?M" using Cons.prems(1) by (simp add: kw)
  from Cons.IH [OF this Cons.prems(2-4)] obtain qs where "?M k = Some qs" "p \<in> set qs" by blast
  then show ?case using Cons.prems(4) by (auto split: if_splits option.splits)
qed simp

lemma idx_inv_add:
  assumes new: "new_ok new" and inv: "idx_inv st now M" and now: "now \<le> now'"
    and room: "unat (local_docid_counter' st) + 1 < 2 ^ 32"
    and add: "AddStoryInternal new dflt city to_float (\<lambda>_. now') st story = Some st'"
  shows "\<exists>M'. idx_inv st' now' M'"
proof -
  let ?d = "local_docid_counter' st" and ?A = "dom (map_of (att' st))"
  let ?M = "add_spec to_float (\<lambda>_. now') ?d 0 (story_keywords story) M"
  have rep: "ix_rep (index' st) M" using inv by (simp add: idx_inv_def)
  have st': "ix_rep (index' st') ?M" "att' st' = AList.update ?d (city (story_id story)) (att' st)"
    "local_docid_counter' st' = ?d + 1"
    using AddStoryInternal_rep [OF new rep, of dflt city to_float "\<lambda>_. now'" story] add by auto
  have d1: "?d < ?d + 1" using room by (simp add: word_less_nat_alt unat_word_ariths)
  have dom: "dom (map_of (att' st')) = insert ?d ?A" by (simp add: st'(2) update_conv')
  have old: "\<forall>k ps. M k = Some ps \<longrightarrow> sorted_wrt (\<lambda>a b. timestamp b \<le> timestamp a) ps \<and>
      (\<forall>p \<in> set ps. timestamp p \<le> now' \<and> (local_docid p \<in> ?A \<and> local_docid p < ?d \<or> local_docid p = ?d \<and> timestamp p = now'))"
    using inv now by (fastforce simp: idx_inv_def list_inv_def)
  have ps: "sorted_wrt (\<lambda>a b. timestamp b \<le> timestamp a) ps \<and>
      (\<forall>p \<in> set ps. timestamp p \<le> now' \<and> (local_docid p \<in> ?A \<and> local_docid p < ?d \<or> local_docid p = ?d \<and> timestamp p = now'))"
    if "?M k = Some ps" for k ps using add_spec_inv [OF old refl that] .
  have "list_inv (local_docid_counter' st') (dom (map_of (att' st'))) now' ps" if "?M k = Some ps" for k ps
    using ps [OF that] d1 unfolding list_inv_def dom st'(3) by (auto intro: less_trans)
  moreover have "same_times ?M"
  proof -
    have "timestamp p = timestamp q" if h: "?M k = Some ps" "?M l = Some qs" "p \<in> set ps" "q \<in> set qs"
      "local_docid p = local_docid q" for k l ps qs p q
    proof (cases "local_docid p = ?d")
      case True
      then show ?thesis using ps [OF h(1)] ps [OF h(2)] h(3-5) by fastforce
    next
      case False
      then obtain ps' qs' where "M k = Some ps'" "p \<in> set ps'" "M l = Some qs'" "q \<in> set qs'"
        using add_spec_old [OF refl h(1,3)] add_spec_old [OF refl h(2,4)] h(5) by auto
      then show ?thesis using inv h(5) unfolding idx_inv_def same_times_def by blast
    qed
    then show ?thesis unfolding same_times_def by blast
  qed
  moreover have "distinct (map fst (att' st'))" using inv by (simp add: st'(2) idx_inv_def distinct_update)
  ultimately show ?thesis using st'(1) unfolding idx_inv_def by blast
qed

lemma idx_inv_clean:
  assumes inv: "idx_inv st now M" and short: "lists_short fuel (index' st)"
    and mk: "Marking fuel t st = Some st1" "Clearing fuel st1 = Some st2"
  shows "idx_inv st2 now (\<lambda>k. map_option (filter (recent t)) (M k))"
proof -
  have rep: "ix_rep (index' st) M" using inv by (simp add: idx_inv_def)
  from clean_round_rep [OF rep short, of t] mk obtain ds where
    r: "ix_rep (index' st2) (\<lambda>k. map_option (takeWhile (recent t)) (M k))"
      "set ds = {d. \<exists>k ps p. M k = Some ps \<and> p \<in> set (dropWhile (recent t) ps) \<and> d = local_docid p}"
      "\<forall>d. map_of (att' st2) d = (if d \<in> set ds then None else map_of (att' st) d)"
      "att' st2 = foldr AList.delete (remdups ds) (att' st)"
      "local_docid_counter' st2 = local_docid_counter' st" by auto
  have so: "takeWhile (recent t) ps = filter (recent t) ps \<and> dropWhile (recent t) ps = filter (\<lambda>p. \<not> recent t p) ps"
    if "M k = Some ps" for k ps
    using sorted_split [of timestamp ps t] inv that by (auto simp: idx_inv_def list_inv_def)
  have eq: "(\<lambda>k. map_option (takeWhile (recent t)) (M k)) = (\<lambda>k. map_option (filter (recent t)) (M k))"
    using so by (auto simp: fun_eq_iff map_option_case split: option.splits)
  have keep: "local_docid p \<notin> set ds" if "M k = Some ps" "p \<in> set ps" "recent t p" for k ps p
  proof
    assume "local_docid p \<in> set ds"
    then obtain l qs q where q: "M l = Some qs" "q \<in> set (dropWhile (recent t) qs)" "local_docid p = local_docid q"
      using r(2) by auto
    then have "q \<in> set qs" "\<not> recent t q" using so [OF q(1)] by auto
    moreover have "timestamp p = timestamp q"
      using inv that q(1,3) \<open>q \<in> set qs\<close> unfolding idx_inv_def same_times_def by blast
    ultimately show False using that(3) by simp
  qed
  have "list_inv (local_docid_counter' st2) (dom (map_of (att' st2))) now (filter (recent t) ps)"
    if "M k = Some ps" for k ps
  proof -
    have li: "list_inv (local_docid_counter' st) (dom (map_of (att' st))) now ps"
      using inv that by (simp add: idx_inv_def)
    then have "local_docid p \<in> dom (map_of (att' st2))" if "p \<in> set ps" "recent t p" for p
      using keep [OF \<open>M k = Some ps\<close> that] r(3) that(1) by (auto simp: list_inv_def dom_def)
    then show ?thesis using li r(5) by (auto simp: list_inv_def sorted_wrt_filter)
  qed
  moreover have "same_times (\<lambda>k. map_option (filter (recent t)) (M k))"
  proof -
    have "timestamp p = timestamp q" if h: "map_option (filter (recent t)) (M k) = Some ps"
      "map_option (filter (recent t)) (M l) = Some qs" "p \<in> set ps" "q \<in> set qs"
      "local_docid p = local_docid q" for k l ps qs p q
    proof -
      from h obtain ps' qs' where "M k = Some ps'" "p \<in> set ps'" "M l = Some qs'" "q \<in> set qs'" by auto
      then show ?thesis using inv h(5) unfolding idx_inv_def same_times_def by blast
    qed
    then show ?thesis unfolding same_times_def by blast
  qed
  moreover have "distinct (map fst (att' st2))"
    using inv by (simp only: r(4) distinct_foldr_delete idx_inv_def)
  ultimately show ?thesis using r(1) unfolding idx_inv_def eq by auto
qed

lemma istep_inv:
  assumes "new_ok new" "(istep new dflt city to_float)\<^sup>*\<^sup>* (newInstantIndex, 0) (st, now)"
  shows "\<exists>M. idx_inv st now M"
proof -
  have "\<exists>M. idx_inv (fst s) (snd s) M" if "(istep new dflt city to_float)\<^sup>*\<^sup>* (newInstantIndex, 0) s" for s
    using that
  proof (induction rule: rtranclp_induct)
    case base
    have "idx_inv newInstantIndex 0 (Map.empty :: int \<rightharpoonup> 'a Posting list)"
      by (simp add: idx_inv_def newInstantIndex_def ix_rep_def same_times_def)
    then show ?case by auto
  next
    case (step s s')
    then obtain M where M: "idx_inv (fst s) (snd s) M" by blast
    from step(2) show ?case
    proof cases
      case (add now now' st story st')
      then show ?thesis using idx_inv_add [OF assms(1), of st now M now' dflt city to_float story st'] M by auto
    next
      case (clean fuel st t st1 st2 now)
      then show ?thesis using idx_inv_clean [of st now M fuel t st1 st2] M by auto
    qed
  qed
  from this [OF assms(2)] show ?thesis by simp
qed

section \<open>Properties of the index\<close>

lemma collect_rep:
  "pl_rep pl ps \<Longrightarrow> length ps < fuel \<Longrightarrow> collect fuel pl (newPostingIteratorImpl pl) = Some ps"
proof -
  assume rep: "pl_rep pl ps" and len: "length ps < fuel"
  then obtain as where as: "pl_ok pl as" "postings pl as = ps" "end_mark' pl = None" by (auto simp: pl_rep_def)
  obtain f where f: "ll_heap (inner_list' pl) (GetFakeFront pl) = Some f"
    "chain (ll_heap (inner_list' pl)) (nd_next f) as" "GetFakeFront pl \<notin> set as"
    using as(1) by (auto simp: pl_ok_def ll_ok_def GetFakeFront_def Front_def)
  have "length as < fuel" using as(2) len by (auto simp: postings_def datas_def)
  from collect_ok [OF f(1,2) _ this f(3)] show ?thesis
    using as(2,3) by (simp add: newPostingIteratorImpl_def visible_from_none)
qed

lemma reader_rep:
  assumes "ix_rep (index' st) M" "GetPostingList st token = Some (pl, it)"
  shows "\<exists>ps. M token = Some ps \<and> pl_rep pl ps \<and> (\<forall>fuel > length ps. collect fuel pl it = Some ps)"
proof -
  have pl: "map_of (index' st) token = Some pl" "it = newPostingIteratorImpl pl"
    using assms(2) by (auto simp: GetPostingList_def)
  then obtain ps where "M token = Some ps" "pl_rep pl ps"
    using ix_rep_at [OF assms(1), of token] by (cases "M token") auto
  then show ?thesis using collect_rep pl(2) by auto
qed


definition sample_story :: story where
  "sample_story = \<lparr>story_id = [1, 2, 3], story_keywords = [(7, 2), (9, 1)]\<rparr>"

abbreviation unit_posting :: "unit Posting" where
  "unit_posting \<equiv> \<lparr>local_docid = 0, weight = (), timestamp = 0\<rparr>"

lemma sample_added:
  "\<exists>st. AddStoryInternal addr_supply unit_posting (\<lambda>_. 42) (\<lambda>_. ()) (\<lambda>_. 5) newInstantIndex sample_story = Some st \<and>
     (istep addr_supply unit_posting (\<lambda>_. 42) (\<lambda>_. ()))\<^sup>*\<^sup>* (newInstantIndex, 0) (st, 5) \<and>
     (\<exists>pl it. GetPostingList st 7 = Some (pl, it))"
proof -
  have rep: "ix_rep (index' newInstantIndex) (Map.empty :: int \<rightharpoonup> unit Posting list)"
    by (simp add: newInstantIndex_def ix_rep_def)
  from AddStoryInternal_rep [OF addr_supply_ok rep, of unit_posting "\<lambda>_. 42" "\<lambda>_. ()" "\<lambda>_. 5" sample_story]
  obtain st where st: "AddStoryInternal addr_supply unit_posting (\<lambda>_. 42) (\<lambda>_. ()) (\<lambda>_. 5) newInstantIndex sample_story = Some st"
    "ix_rep (index' st) (add_spec (\<lambda>_. ()) (\<lambda>_. 5) 1 0 [(7, 2), (9, 1)] Map.empty)"
    by (auto simp: newInstantIndex_def sample_story_def)
  have "istep addr_supply unit_posting (\<lambda>_. 42) (\<lambda>_. ()) (newInstantIndex, 0) (st, 5)"
    by (rule istep.add [OF _ _ st(1)]) (simp_all add: newInstantIndex_def)
  moreover have "\<exists>pl. map_of (index' st) 7 = Some pl"
    using ix_rep_None [OF st(2), of 7] by auto
  ultimately show ?thesis using st(1) by (auto simp: GetPostingList_def)
qed


lemma add_spec_grows:
  "M k = Some ps \<Longrightarrow> p \<in> set ps \<Longrightarrow> \<exists>qs. add_spec to_float clock d i ks M k = Some qs \<and> p \<in> set qs"
proof (induction ks arbitrary: M i ps)
  case (Cons kw ks)
  obtain t w where kw: "kw = (t, w)" by force
  let ?M = "M(t \<mapsto> \<lparr>local_docid = d, weight = to_float w, timestamp = clock i\<rparr> # case_option [] id (M t))"
  obtain rs where "?M k = Some rs" "p \<in> set rs" using Cons.prems by (cases "k = t") auto
  then show ?case unfolding kw add_spec.simps by (rule Cons.IH [of ?M])
qed simp

lemma add_spec_mem:
  "(t, w) \<in> set ks \<Longrightarrow> \<exists>qs j. add_spec to_float clock d i ks M t = Some qs \<and>
     \<lparr>local_docid = d, weight = to_float w, timestamp = clock j\<rparr> \<in> set qs"
proof (induction ks arbitrary: M i)
  case (Cons kw ks)
  obtain t' w' where kw: "kw = (t', w')" by force
  let ?p = "\<lparr>local_docid = d, weight = to_float w', timestamp = clock i\<rparr>"
  let ?M = "M(t' \<mapsto> ?p # case_option [] id (M t'))"
  show ?case
  proof (cases "(t, w) = kw")
    case True
    then have "?M t = Some (?p # case_option [] id (M t'))" and "w = w'" by (auto simp: kw)
    then have "\<exists>qs. add_spec to_float clock d (Suc i) ks ?M t = Some qs \<and> ?p \<in> set qs"
      by (intro add_spec_grows [of ?M]) auto
    with \<open>w = w'\<close> show ?thesis by (auto simp: kw)
  next
    case False
    with Cons.prems have "(t, w) \<in> set ks" by auto
    then show ?thesis unfolding kw add_spec.simps by (rule Cons.IH)
  qed
qed simp

lemma AddStory_found:
  assumes "new_ok new" "ix_rep (index' st) M"
  shows "\<exists>st' M'. AddStoryInternal new dflt city to_float clock st story = Some st' \<and> ix_rep (index' st') M' \<and>
     TranslateToGlobalID st' (local_docid_counter' st) = Some (city (story_id story)) \<and>
     (\<forall>(t, w) \<in> set (story_keywords story). \<exists>pl it ps j. GetPostingList st' t = Some (pl, it) \<and>
        collect (length ps + 1) pl it = Some ps \<and>
        \<lparr>local_docid = local_docid_counter' st, weight = to_float w, timestamp = clock j\<rparr> \<in> set ps)"
proof -
  from AddStoryInternal_rep [OF assms, of dflt city to_float clock story] obtain st' where
    st': "AddStoryInternal new dflt city to_float clock st story = Some st'"
      "ix_rep (index' st') (add_spec to_float clock (local_docid_counter' st) 0 (story_keywords story) M)"
      "att' st' = AList.update (local_docid_counter' st) (city (story_id story)) (att' st)" by blast
  have "\<exists>pl it ps j. GetPostingList st' t = Some (pl, it) \<and> collect (length ps + 1) pl it = Some ps \<and>
      \<lparr>local_docid = local_docid_counter' st, weight = to_float w, timestamp = clock j\<rparr> \<in> set ps"
    if tw: "(t, w) \<in> set (story_keywords story)" for t w
  proof -
    obtain qs j where q: "add_spec to_float clock (local_docid_counter' st) 0 (story_keywords story) M t = Some qs"
      "\<lparr>local_docid = local_docid_counter' st, weight = to_float w, timestamp = clock j\<rparr> \<in> set qs"
      using add_spec_mem [OF tw] by blast
    then obtain pl where pl: "map_of (index' st') t = Some pl" "pl_rep pl qs" using ix_rep_Some [OF st'(2)] by blast
    then show ?thesis using q(2) collect_rep [OF pl(2), of "length qs + 1"]
      by (auto simp: GetPostingList_def)
  qed
  then show ?thesis using st' by (auto simp: TranslateToGlobalID_def update_conv')
qed

text \<open>
  Adding a story to any reachable index succeeds; afterwards a reader of each of the
  story's keywords finds a posting of the new document with that keyword's weight, and the
  document's local number translates to the hash of the story id.
\<close>

theorem story_searchable:
  assumes "new_ok new" "(istep new dflt city to_float)\<^sup>*\<^sup>* (newInstantIndex, 0) (st, now)"
  shows "\<exists>st'. AddStoryInternal new dflt city to_float clock st story = Some st' \<and>
     TranslateToGlobalID st' (local_docid_counter' st) = Some (city (story_id story)) \<and>
     (\<forall>(t, w) \<in> set (story_keywords story). \<exists>pl it ps j. GetPostingList st' t = Some (pl, it) \<and>
        collect (length ps + 1) pl it = Some ps \<and>
        \<lparr>local_docid = local_docid_counter' st, weight = to_float w, timestamp = clock j\<rparr> \<in> set ps)"
proof -
  obtain M where "idx_inv st now M" using istep_inv [OF assms] by blast
  then have "ix_rep (index' st) M" by (simp add: idx_inv_def)
  from AddStory_found [OF assms(1) this] show ?thesis by blast
qed

theorem story_searchable_witness:
  "\<exists>st'. AddStoryInternal addr_supply unit_posting (\<lambda>_. 42) (\<lambda>_. ()) (\<lambda>_. 5) newInstantIndex sample_story = Some st' \<and>
     TranslateToGlobalID st' 1 = Some 42"
  using story_searchable [OF addr_supply_ok rtranclp.rtrancl_refl, of unit_posting "\<lambda>_. 42" "\<lambda>_. ()" "\<lambda>_. 5" sample_story]
  by (auto simp: newInstantIndex_def)



text \<open>
  TranslateToGlobalIDBatch compares the number of requested ids with the number of entries in
  the result map. When every id is known and none is repeated it returns true with the right
  mapping; a repeated id makes it return false although every mapping was found.
\<close>

theorem translate_batch_duplicates:
  assumes "map_of (att' st) d = Some g"
  shows "TranslateToGlobalIDBatch st [d] [] = ([(d, g)], True) \<and>
    TranslateToGlobalIDBatch st [d, d] [] = ([(d, g)], False)"
  using assms by (simp add: TranslateToGlobalIDBatch_def)

theorem translate_batch_duplicates_witness:
  "TranslateToGlobalIDBatch (newInstantIndex\<lparr>att' := [(3, 8)]\<rparr> :: unit InstantIndex) [3, 3] [] = ([(3, 8)], False)"
  using translate_batch_duplicates [of "newInstantIndex\<lparr>att' := [(3, 8)]\<rparr> :: unit InstantIndex" 3 8] by simp

end
