(* ===== verification/Retrieval.thy ===== *)
theory Retrieval
  imports Instant_Index "HOL-Library.Multiset"
begin

text \<open>
  \<^verbatim>\<open>src/retrieval\<close>: the index reader that collects for every document the request's keywords it
  contains, the ranker, the result set and the handler that puts the reply together. Parameters: \<open>too_few score n\<close> is the comparison of a score with
  \<open>hit_keywords_ratio * n\<close> in double arithmetic; \<open>std_sort\<close> is \<^verbatim>\<open>std::sort\<close> with
  the order of \<^verbatim>\<open>entry\<close>, of which only sortedness and permutation are specified.
\<close>

record 'w KeyOfDoc =
  keyword_id :: int
  weight_in_doc :: 'w

type_synonym 'w hits = "(32 word \<times> 'w KeyOfDoc list) list"

section \<open>The index reader\<close>

text \<open>\<^verbatim>\<open>m_doc_hits_info\<close> is a \<^verbatim>\<open>std::map\<close>: an association list in ascending key order.\<close>

fun addHitKeywordToDocInfo :: "'w KeyOfDoc \<Rightarrow> 32 word \<Rightarrow> 'w hits \<Rightarrow> 'w hits" where
  "addHitKeywordToDocInfo ki d [] = [(d, [ki])]"
| "addHitKeywordToDocInfo ki d ((d', ks) # hs) =
     (if d = d' then (d', ks @ [ki]) # hs
      else if d < d' then (d, [ki]) # (d', ks) # hs
      else (d', ks) # addHitKeywordToDocInfo ki d hs)"

fun hits_loop ::
    "nat \<Rightarrow> int \<Rightarrow> 'w PostingList \<Rightarrow> PostingIteratorImpl \<Rightarrow> 'w hits \<Rightarrow> 'w hits option" where
  "hits_loop 0 k pl it hs = None"
| "hits_loop (Suc fuel) k pl it hs =
     do { (it, b) \<leftarrow> HasValue pl it;
          if \<not> b then Some hs
          else
            do { (it, onedoc) \<leftarrow> GetValue pl it;
                 let hs = addHitKeywordToDocInfo
                   \<lparr>keyword_id = k, weight_in_doc = weight onedoc\<rparr> (local_docid onedoc) hs;
                 it \<leftarrow> Next pl it;
                 hits_loop fuel k pl it hs } }"

fun beginIntersect_loop :: "nat \<Rightarrow> 'w InstantIndex \<Rightarrow> int list \<Rightarrow> 'w hits \<Rightarrow> 'w hits option" where
  "beginIntersect_loop fuel st [] hs = Some hs"
| "beginIntersect_loop fuel st (k # ks) hs =
     (case GetPostingList st k of
        None \<Rightarrow> beginIntersect_loop fuel st ks hs
      | Some (pl, it) \<Rightarrow>
          do { hs \<leftarrow> hits_loop fuel k pl it hs; beginIntersect_loop fuel st ks hs })"

definition beginIntersect :: "nat \<Rightarrow> 'w InstantIndex \<Rightarrow> int list \<Rightarrow> 'w hits option" where
  "beginIntersect fuel st ks = beginIntersect_loop fuel st ks []"

definition getGlobalIDFromLocalID :: "'w InstantIndex \<Rightarrow> 32 word \<Rightarrow> 64 word" where
  "getGlobalIDFromLocalID st d =
     (case TranslateToGlobalID st d of None \<Rightarrow> ucast d | Some g \<Rightarrow> g)"

text \<open>\<^verbatim>\<open>nextDoc\<close>: the document at the iterator, and the iterator moved on.\<close>

definition nextDoc ::
    "'w InstantIndex \<Rightarrow> 'w hits \<Rightarrow> (64 word \<times> 'w KeyOfDoc list) option \<times> 'w hits" where
  "nextDoc st hs =
     (case hs of
        [] \<Rightarrow> (None, [])
      | (d, ks) # rest \<Rightarrow> (Some (getGlobalIDFromLocalID st d, ks), rest))"

section \<open>Ranking and the reply\<close>

definition compute_rank :: "'w KeyOfDoc list \<Rightarrow> nat" where
  "compute_rank ks = length ks"

record entry =
  e_story_id :: "64 word"
  e_score :: nat

datatype resp_code = STATE_OK | STATE_KEYWORD_NOT_FOUND

record RetrievalResponse =
  r_code :: resp_code
  num_results :: nat
  results :: "entry list"

function score_loop ::
    "(nat \<Rightarrow> nat \<Rightarrow> bool) \<Rightarrow> 'w InstantIndex \<Rightarrow> nat \<Rightarrow> 'w hits \<Rightarrow> entry list \<Rightarrow> entry list" where
  "score_loop too_few st n hs docs =
     (case nextDoc st hs of
        (None, hs') \<Rightarrow> docs
      | (Some (g, ks), hs') \<Rightarrow>
          let score = compute_rank ks in
          if too_few score n then score_loop too_few st n hs' docs
          else score_loop too_few st n hs' (docs @ [\<lparr>e_story_id = g, e_score = score\<rparr>]))"
  by pat_completeness auto
termination
  by (relation "measure (\<lambda>(too_few, st, n, hs, docs). length hs)")
     (auto simp: nextDoc_def split: list.splits)

declare score_loop.simps [simp del]

definition makeReply :: "nat \<Rightarrow> entry list \<Rightarrow> RetrievalResponse" where
  "makeReply doc_num docs =
     (let code = (if doc_num = 0 then STATE_KEYWORD_NOT_FOUND else STATE_OK);
          code = STATE_OK
      in \<lparr>r_code = code, num_results = doc_num, results = map (\<lambda>i. docs ! i) [0..<doc_num]\<rparr>)"

definition retrieve ::
    "nat \<Rightarrow> (nat \<Rightarrow> nat \<Rightarrow> bool) \<Rightarrow> (entry list \<Rightarrow> entry list) \<Rightarrow> nat
     \<Rightarrow> 'w InstantIndex \<Rightarrow> int list \<Rightarrow> RetrievalResponse option" where
  "retrieve fuel too_few std_sort max_doc_return st ks =
     do { hs \<leftarrow> beginIntersect fuel st ks;
          let docs = std_sort (score_loop too_few st (length ks) hs []);
          let doc_num = length docs;
          let doc_num = (if doc_num > max_doc_return then max_doc_return else doc_num);
          Some (makeReply doc_num docs) }"

definition std_sort_ok :: "(entry list \<Rightarrow> entry list) \<Rightarrow> bool" where
  "std_sort_ok s \<longleftrightarrow> (\<forall>xs. mset (s xs) = mset xs \<and> sorted_wrt (\<lambda>a b. e_score b \<le> e_score a) (s xs))"

section \<open>What is collected\<close>

text \<open>The keyword hits of a document, in the order of the request's keywords.\<close>

definition doc_hits :: "(int \<rightharpoonup> 'w Posting list) \<Rightarrow> int list \<Rightarrow> 32 word \<Rightarrow> 'w KeyOfDoc list" where
  "doc_hits M ks d =
     concat (map (\<lambda>k. map (\<lambda>p. \<lparr>keyword_id = k, weight_in_doc = weight p\<rparr>)
       (filter (\<lambda>p. local_docid p = d) (case_option [] id (M k)))) ks)"

lemma hits_loop_collect:
  "collect fuel pl it = Some ps \<Longrightarrow>
   hits_loop fuel k pl it hs =
     Some (foldl (\<lambda>hs p. addHitKeywordToDocInfo \<lparr>keyword_id = k, weight_in_doc = weight p\<rparr> (local_docid p) hs) hs ps)"
proof (induction fuel arbitrary: it hs ps)
  case (Suc fuel)
  from Suc.prems obtain it1 b where h: "HasValue pl it = Some (it1, b)" by (auto split: Option.bind_splits)
  show ?case
  proof (cases b)
    case False
    with Suc.prems h show ?thesis by simp
  next
    case True
    with Suc.prems h obtain it2 v it3 vs where
      r: "GetValue pl it1 = Some (it2, v)" "Next pl it2 = Some it3" "collect fuel pl it3 = Some vs" "ps = v # vs"
      by (auto split: Option.bind_splits)
    from Suc.IH [OF r(3)] h True r show ?thesis by simp
  qed
qed simp

definition hits_ok :: "'w hits \<Rightarrow> (32 word \<Rightarrow> 'w KeyOfDoc list) \<Rightarrow> bool" where
  "hits_ok hs f \<longleftrightarrow> sorted_wrt (<) (map fst hs) \<and>
     (\<forall>d. map_of hs d = (if f d = [] then None else Some (f d)))"

lemma addHit_keys: "fst ` set (addHitKeywordToDocInfo ki d hs) = insert d (fst ` set hs)"
  by (induction ki d hs rule: addHitKeywordToDocInfo.induct) auto

lemma addHit_sorted:
  "sorted_wrt (<) (map fst hs) \<Longrightarrow> sorted_wrt (<) (map fst (addHitKeywordToDocInfo ki d hs))"
proof (induction ki d hs rule: addHitKeywordToDocInfo.induct)
  case (2 ki d d' ks hs)
  show ?case
  proof (cases "d < d' \<or> d = d'")
    case True
    then show ?thesis using 2(2) by (auto intro: less_trans)
  next
    case False
    then have "d' < d" by auto
    then have "\<forall>x \<in> set (map fst (addHitKeywordToDocInfo ki d hs)). d' < x"
      using 2(2) addHit_keys [of ki d hs] by auto
    then show ?thesis using 2 False by auto
  qed
qed simp

lemma addHit_map_of:
  "sorted_wrt (<) (map fst hs) \<Longrightarrow>
   map_of (addHitKeywordToDocInfo ki d hs) = (map_of hs)(d \<mapsto> case_option [] id (map_of hs d) @ [ki])"
proof (induction ki d hs rule: addHitKeywordToDocInfo.induct)
  case (2 ki d d' ks hs)
  have "d < d' \<Longrightarrow> map_of hs d = None"
    using 2(2) by (auto simp: map_of_eq_None_iff dest: less_trans)
  then show ?case using 2 by (auto simp: fun_eq_iff)
qed simp

lemma addHit_ok:
  assumes "hits_ok hs f"
  shows "hits_ok (addHitKeywordToDocInfo ki d hs) (f(d := f d @ [ki]))"
proof -
  have so: "sorted_wrt (<) (map fst hs)" using assms by (simp add: hits_ok_def)
  have "case_option [] id (map_of hs d) = f d" using assms by (simp add: hits_ok_def)
  then show ?thesis using addHit_sorted [OF so] addHit_map_of [OF so, of ki d] assms
    by (auto simp: hits_ok_def)
qed

lemma addHits_ok:
  "hits_ok hs f \<Longrightarrow>
   hits_ok (foldl (\<lambda>hs p. addHitKeywordToDocInfo \<lparr>keyword_id = k, weight_in_doc = weight p\<rparr> (local_docid p) hs) hs ps)
     (\<lambda>d. f d @ map (\<lambda>p. \<lparr>keyword_id = k, weight_in_doc = weight p\<rparr>) (filter (\<lambda>p. local_docid p = d) ps))"
proof (induction ps arbitrary: hs f)
  case (Cons p ps)
  let ?ki = "\<lparr>keyword_id = k, weight_in_doc = weight p\<rparr>"
  have "(\<lambda>d. (f(local_docid p := f (local_docid p) @ [?ki])) d @
      map (\<lambda>p. \<lparr>keyword_id = k, weight_in_doc = weight p\<rparr>) (filter (\<lambda>p. local_docid p = d) ps)) =
    (\<lambda>d. f d @ map (\<lambda>p. \<lparr>keyword_id = k, weight_in_doc = weight p\<rparr>) (filter (\<lambda>p. local_docid p = d) (p # ps)))"
    by auto
  with Cons.IH [OF addHit_ok [OF Cons.prems, of ?ki "local_docid p"]] show ?case by simp
qed simp

definition fuel_for :: "nat \<Rightarrow> (int \<rightharpoonup> 'w Posting list) \<Rightarrow> bool" where
  "fuel_for fuel M \<longleftrightarrow> (\<forall>k ps. M k = Some ps \<longrightarrow> length ps < fuel)"

lemma beginIntersect_loop_ok:
  "ix_rep (index' st) M \<Longrightarrow> fuel_for fuel M \<Longrightarrow> hits_ok hs f \<Longrightarrow>
   \<exists>hs'. beginIntersect_loop fuel st ks hs = Some hs' \<and> hits_ok hs' (\<lambda>d. f d @ doc_hits M ks d)"
proof (induction ks arbitrary: hs f)
  case Nil
  then show ?case by (simp add: doc_hits_def)
next
  case (Cons k ks)
  let ?g = "\<lambda>d. f d @ map (\<lambda>p. \<lparr>keyword_id = k, weight_in_doc = weight p\<rparr>)
      (filter (\<lambda>p. local_docid p = d) (case_option [] id (M k)))"
  have g: "(\<lambda>d. ?g d @ doc_hits M ks d) = (\<lambda>d. f d @ doc_hits M (k # ks) d)" by (simp add: doc_hits_def)
  show ?case
  proof (cases "GetPostingList st k")
    case None
    then have "M k = None" using ix_rep_None [OF Cons.prems(1), of k] by (simp add: GetPostingList_def)
    then show ?thesis using Cons None by (simp add: doc_hits_def)
  next
    case (Some x)
    obtain pl it where x: "x = (pl, it)" by force
    from reader_rep [OF Cons.prems(1), of k pl it] Some x obtain ps where
      ps: "M k = Some ps" "\<forall>fuel > length ps. collect fuel pl it = Some ps" by auto
    have "collect fuel pl it = Some ps" using ps Cons.prems(2) by (auto simp: fuel_for_def)
    note h = hits_loop_collect [OF this, of k hs]
    have "hits_ok (foldl (\<lambda>hs p. addHitKeywordToDocInfo \<lparr>keyword_id = k, weight_in_doc = weight p\<rparr> (local_docid p) hs) hs ps) ?g"
      using addHits_ok [OF Cons.prems(3), of k ps] ps(1) by simp
    from Cons.IH [OF Cons.prems(1,2) this] show ?thesis unfolding g using Some x h by simp
  qed
qed

lemma score_loop_filter:
  "score_loop too_few st n hs docs =
   docs @ map (\<lambda>(d, ks). \<lparr>e_story_id = getGlobalIDFromLocalID st d, e_score = length ks\<rparr>)
     (filter (\<lambda>(d, ks). \<not> too_few (length ks) n) hs)"
proof (induction hs arbitrary: docs)
  case Nil
  then show ?case by (subst score_loop.simps) (simp add: nextDoc_def)
next
  case (Cons h hs)
  obtain d ks where h: "h = (d, ks)" by force
  show ?case by (subst score_loop.simps) (simp add: nextDoc_def h compute_rank_def Cons)
qed

section \<open>Properties of retrieval\<close>

definition doc_entry :: "'w InstantIndex \<Rightarrow> (int \<rightharpoonup> 'w Posting list) \<Rightarrow> int list \<Rightarrow> 32 word \<Rightarrow> entry" where
  "doc_entry st M ks d =
     \<lparr>e_story_id = getGlobalIDFromLocalID st d, e_score = length (doc_hits M ks d)\<rparr>"

definition qualifies :: "(nat \<Rightarrow> nat \<Rightarrow> bool) \<Rightarrow> (int \<rightharpoonup> 'w Posting list) \<Rightarrow> int list \<Rightarrow> 32 word \<Rightarrow> bool" where
  "qualifies too_few M ks d \<longleftrightarrow>
     doc_hits M ks d \<noteq> [] \<and> \<not> too_few (length (doc_hits M ks d)) (length ks)"

lemma score_docs:
  assumes "hits_ok hs (doc_hits M ks)"
  shows "set (score_loop too_few st (length ks) hs []) = doc_entry st M ks ` {d. qualifies too_few M ks d}"
proof -
  have di: "distinct (map fst hs)" using assms strict_sorted_iff [of "map fst hs"] by (simp add: hits_ok_def)
  have mem: "(d, x) \<in> set hs \<longleftrightarrow> doc_hits M ks d \<noteq> [] \<and> x = doc_hits M ks d" for d x
  proof -
    have "(d, x) \<in> set hs \<longleftrightarrow> map_of hs d = Some x" using di by simp
    then show ?thesis using assms by (auto simp: hits_ok_def)
  qed
  then show ?thesis
    by (fastforce simp: score_loop_filter doc_entry_def qualifies_def image_iff)
qed

lemma take_desc:
  assumes "sorted_wrt (\<lambda>a b. e_score b \<le> e_score a) xs" "x \<in> set xs" "x \<notin> set (take n xs)" "y \<in> set (take n xs)"
  shows "e_score x \<le> e_score y"
proof -
  have "x \<in> set (drop n xs)" using assms(2,3) by (metis append_take_drop_id Un_iff set_append)
  moreover have "sorted_wrt (\<lambda>a b. e_score b \<le> e_score a) (take n xs @ drop n xs)" using assms(1) by simp
  ultimately show ?thesis using assms(4) unfolding sorted_wrt_append by blast
qed

lemma makeReply_take:
  "n \<le> length docs \<Longrightarrow> makeReply n docs = \<lparr>r_code = STATE_OK, num_results = n, results = take n docs\<rparr>"
  by (auto simp: makeReply_def intro: nth_equalityI)

lemma retrieve_ok:
  assumes rep: "ix_rep (index' st) M" and fuel: "fuel_for fuel M" and sort: "std_sort_ok s"
  shows "\<exists>docs. retrieve fuel too_few s mx st ks =
      Some \<lparr>r_code = STATE_OK, num_results = min mx (length docs), results = take mx docs\<rparr> \<and>
    set docs = doc_entry st M ks ` {d. qualifies too_few M ks d} \<and>
    sorted_wrt (\<lambda>a b. e_score b \<le> e_score a) docs"
proof -
  have "hits_ok [] (\<lambda>d. [] :: 'a KeyOfDoc list)" by (simp add: hits_ok_def)
  from beginIntersect_loop_ok [OF rep fuel this, of ks] obtain hs where
    hs: "beginIntersect fuel st ks = Some hs" "hits_ok hs (doc_hits M ks)" by (auto simp: beginIntersect_def)
  let ?docs = "s (score_loop too_few st (length ks) hs [])"
  have so: "sorted_wrt (\<lambda>a b. e_score b \<le> e_score a) ?docs" "mset ?docs = mset (score_loop too_few st (length ks) hs [])"
    using sort by (auto simp: std_sort_ok_def)
  have set: "set ?docs = doc_entry st M ks ` {d. qualifies too_few M ks d}"
    using score_docs [OF hs(2)] mset_eq_setD [OF so(2)] by simp
  have "retrieve fuel too_few s mx st ks = Some (makeReply (min mx (length ?docs)) ?docs)"
    using hs(1) by (simp add: retrieve_def Let_def min_def)
  then show ?thesis using set so(1) makeReply_take [of "min mx (length ?docs)" ?docs]
    by (intro exI [of _ ?docs]) (auto simp: min_def)
qed

text \<open>
  C18: On an index that represents the posting sequences M, a retrieval succeeds and returns at
  most max_doc_return entries, best score first; each entry is the translated id of a
  document that contains some keyword of the request and enough of them, scored by the
  number of its keyword hits; and every such document is either in the reply or scores no
  better than everything in it.
\<close>

theorem retrieve_top_ranked:
  assumes "ix_rep (index' st) M" "fuel_for fuel M" "std_sort_ok s"
  shows "\<exists>r. retrieve fuel too_few s mx st ks = Some r \<and>
    num_results r = length (results r) \<and> length (results r) \<le> mx \<and>
    sorted_wrt (\<lambda>a b. e_score b \<le> e_score a) (results r) \<and>
    (\<forall>e \<in> set (results r). \<exists>d. qualifies too_few M ks d \<and> e = doc_entry st M ks d) \<and>
    (\<forall>d. qualifies too_few M ks d \<longrightarrow> doc_entry st M ks d \<in> set (results r) \<or>
       (length (results r) = mx \<and> (\<forall>e \<in> set (results r). e_score (doc_entry st M ks d) \<le> e_score e)))"
proof -
  from retrieve_ok [OF assms, of too_few mx ks] obtain docs where
    r: "retrieve fuel too_few s mx st ks =
        Some \<lparr>r_code = STATE_OK, num_results = min mx (length docs), results = take mx docs\<rparr>"
      "set docs = doc_entry st M ks ` {d. qualifies too_few M ks d}"
      "sorted_wrt (\<lambda>a b. e_score b \<le> e_score a) docs" by blast
  have "doc_entry st M ks d \<in> set (take mx docs) \<or> (length (take mx docs) = mx \<and>
      (\<forall>e \<in> set (take mx docs). e_score (doc_entry st M ks d) \<le> e_score e))"
    if q: "qualifies too_few M ks d" for d
  proof (cases "doc_entry st M ks d \<in> set (take mx docs)")
    case False
    have d: "doc_entry st M ks d \<in> set docs" using q r(2) by auto
    then have "\<not> length docs \<le> mx" using False by auto
    then show ?thesis using take_desc [OF r(3) d False] by (auto simp: min_def)
  qed simp
  moreover have "\<forall>e \<in> set (take mx docs). \<exists>d. qualifies too_few M ks d \<and> e = doc_entry st M ks d"
    using r(2) set_take_subset [of mx docs] by blast
  moreover have "sorted_wrt (\<lambda>a b. e_score b \<le> e_score a) (take mx docs)" using r(3) by (rule sorted_wrt_take)
  ultimately show ?thesis using r(1) by (auto simp: min.commute)
qed

definition score_sort :: "entry list \<Rightarrow> entry list" where
  "score_sort xs = sort_key (\<lambda>e. - int (e_score e)) xs"

lemma score_sort_ok: "std_sort_ok score_sort"
proof -
  have "sorted_wrt (\<lambda>a b. e_score b \<le> e_score a) (score_sort xs)" for xs
    using sorted_sort_key [of "\<lambda>e. - int (e_score e)" xs]
    by (simp add: score_sort_def sorted_wrt_map)
  then show ?thesis by (simp add: std_sort_ok_def score_sort_def)
qed

theorem retrieve_top_ranked_witness:
  "\<exists>(st :: unit InstantIndex) r. retrieve 2 (\<lambda>_ _. False) score_sort 10 st [7, 9] = Some r \<and>
     \<lparr>e_story_id = 42, e_score = 2\<rparr> \<in> set (results r)"
proof -
  have rep0: "ix_rep (index' newInstantIndex) (Map.empty :: int \<rightharpoonup> unit Posting list)"
    by (simp add: newInstantIndex_def ix_rep_def)
  let ?M = "add_spec (\<lambda>_. ()) (\<lambda>_. 5) 1 0 [(7, 2), (9, 1)] Map.empty"
  from AddStoryInternal_rep [OF addr_supply_ok rep0, of unit_posting "\<lambda>_. 42" "\<lambda>_. ()" "\<lambda>_. 5" sample_story]
  obtain st :: "unit InstantIndex" where st: "ix_rep (index' st) ?M" "att' st = [(1, 42)]"
    by (auto simp: newInstantIndex_def sample_story_def)
  have fuel: "fuel_for 2 ?M" by (auto simp: fuel_for_def split: if_splits)
  have h: "doc_hits ?M [7, 9] 1 = [\<lparr>keyword_id = 7, weight_in_doc = ()\<rparr>, \<lparr>keyword_id = 9, weight_in_doc = ()\<rparr>]"
    by (simp add: doc_hits_def)
  have q: "qualifies (\<lambda>_ _. False) ?M [7, 9] 1" unfolding qualifies_def h by simp
  have e: "doc_entry st ?M [7, 9] 1 = \<lparr>e_story_id = 42, e_score = 2\<rparr>"
    unfolding doc_entry_def h using st(2) by (simp add: getGlobalIDFromLocalID_def TranslateToGlobalID_def)
  from retrieve_top_ranked [OF st(1) fuel score_sort_ok, of "\<lambda>_ _. False" 10 "[7, 9]"] obtain r where
    r: "retrieve 2 (\<lambda>_ _. False) score_sort 10 st [7, 9] = Some r"
      "\<forall>e \<in> set (results r). \<exists>d. qualifies (\<lambda>_ _. False) ?M [7, 9] d \<and> e = doc_entry st ?M [7, 9] d"
      "\<forall>d. qualifies (\<lambda>_ _. False) ?M [7, 9] d \<longrightarrow> doc_entry st ?M [7, 9] d \<in> set (results r) \<or>
         (length (results r) = 10 \<and> (\<forall>e \<in> set (results r). e_score (doc_entry st ?M [7, 9] d) \<le> e_score e))" by blast
  show ?thesis
  proof (cases "doc_entry st ?M [7, 9] 1 \<in> set (results r)")
    case True
    then show ?thesis using r(1) e by auto
  next
    case False
    have only: "d = 1" if "qualifies (\<lambda>_ _. False) ?M [7, 9] d" for d
      using that by (auto simp: qualifies_def doc_hits_def split: if_splits)
    have "results r = []"
    proof (rule ccontr)
      assume "results r \<noteq> []"
      then have "hd (results r) \<in> set (results r)" by simp
      then show False using r(2) only False by metis
    qed
    then show ?thesis using r(3) q False by auto
  qed
qed

text \<open>makeReply sets STATE_KEYWORD_NOT_FOUND for an empty result and then overwrites it: the
  response code of every retrieval is STATE_OK, also when no document was found.\<close>

theorem retrieve_hides_not_found:
  "(makeReply 0 docs = \<lparr>r_code = STATE_OK, num_results = 0, results = []\<rparr>) \<and>
   (\<forall>r. retrieve fuel too_few s mx st ks = Some r \<longrightarrow> r_code r = STATE_OK)"
  by (auto simp: makeReply_def retrieve_def Let_def split: Option.bind_splits)

theorem retrieve_hides_not_found_witness:
  "\<exists>r. retrieve 1 (\<lambda>_ _. False) score_sort 10 (newInstantIndex :: unit InstantIndex) [7] = Some r \<and>
     r_code r = STATE_OK \<and> results r = []"
proof -
  have "\<exists>r. retrieve 1 (\<lambda>_ _. False) score_sort 10 (newInstantIndex :: unit InstantIndex) [7] = Some r \<and> results r = []"
    by (simp add: retrieve_def beginIntersect_def GetPostingList_def newInstantIndex_def score_loop_filter
        score_sort_def makeReply_def)
  with retrieve_hides_not_found [of "[]" 1 "\<lambda>_ _. False" score_sort 10 "newInstantIndex :: unit InstantIndex" "[7]"]
  show ?thesis by blast
qed

end
