(* ===== verification/Std_Map.thy ===== *)
theory Std_Map
  imports Prelude
begin

text \<open>
  \<^verbatim>\<open>std::map\<close> with its iteration order: an association list in ascending key order. \<open>smap_put\<close> is
  the assignment \<^verbatim>\<open>m[k] = v\<close>, \<open>smap_erase\<close> is \<^verbatim>\<open>erase\<close>; lookup is \<open>map_of\<close>. Two maps in order
  with the same lookups are equal, so an equation between maps can be proved by lookups.
\<close>

type_synonym ('k, 'v) smap = "('k \<times> 'v) list"

fun smap_put :: "'k::linorder \<Rightarrow> 'v \<Rightarrow> ('k, 'v) smap \<Rightarrow> ('k, 'v) smap" where
  "smap_put h n [] = [(h, n)]"
| "smap_put h n ((k, m) # rs) =
     (if h = k then (h, n) # rs
      else if h < k then (h, n) # (k, m) # rs
      else (k, m) # smap_put h n rs)"

definition smap_erase :: "'k \<Rightarrow> ('k, 'v) smap \<Rightarrow> ('k, 'v) smap" where
  "smap_erase h rs = filter (\<lambda>x. fst x \<noteq> h) rs"

definition smap_ok :: "('k::linorder, 'v) smap \<Rightarrow> bool" where
  "smap_ok rs \<longleftrightarrow> sorted_wrt (<) (map fst rs)"

lemma smap_ok_Nil [simp]: "smap_ok []"
  by (simp add: smap_ok_def)

lemma smap_put_keys: "fst ` set (smap_put h n rs) = insert h (fst ` set rs)"
  by (induction h n rs rule: smap_put.induct) auto

lemma smap_put_ne [simp]: "smap_put h n rs \<noteq> []"
  by (cases "(h, n, rs)" rule: smap_put.cases) auto

lemma smap_put_ok: "smap_ok rs \<Longrightarrow> smap_ok (smap_put h n rs)"
proof (induction h n rs rule: smap_put.induct)
  case (2 h n k m rs)
  show ?case
  proof (cases "h \<le> k")
    case True
    then show ?thesis using 2(2) by (auto simp: smap_ok_def intro: less_trans)
  next
    case False
    then have "\<forall>x \<in> set (map fst (smap_put h n rs)). k < x"
      using 2(2) smap_put_keys [of h n rs] by (auto simp: smap_ok_def)
    then show ?thesis using 2 False by (auto simp: smap_ok_def)
  qed
qed (simp add: smap_ok_def)

lemma smap_put_map_of: "smap_ok rs \<Longrightarrow> map_of (smap_put h n rs) = (map_of rs)(h \<mapsto> n)"
  by (induction h n rs rule: smap_put.induct) (auto simp: smap_ok_def fun_eq_iff)

lemma smap_ok_filter: "smap_ok rs \<Longrightarrow> smap_ok (filter P rs)"
  by (induction rs) (auto simp: smap_ok_def)

lemma smap_ok_distinct: "smap_ok rs \<Longrightarrow> distinct (map fst rs)"
  by (simp add: smap_ok_def strict_sorted_iff)

lemma smap_ext:
  assumes "smap_ok rs" "smap_ok rs'" "map_of rs = map_of rs'"
  shows "rs = rs'"
proof -
  have d: "distinct (map fst rs)" "distinct (map fst rs')" using assms(1,2) by (simp_all add: smap_ok_distinct)
  then have "set rs = set rs'" using assms(3) by (metis map_of_inject_set)
  moreover have "sorted (map fst rs)" "sorted (map fst rs')"
    using assms(1,2) by (auto simp: smap_ok_def strict_sorted_iff)
  ultimately have "map fst rs = map fst rs'" using d by (intro sorted_distinct_set_unique) auto
  moreover have "inj_on fst (set rs \<union> set rs')" using d(1) \<open>set rs = set rs'\<close> by (simp add: distinct_map)
  ultimately show ?thesis by (rule map_inj_on)
qed

lemma map_of_filter_key: "map_of (filter (\<lambda>x. fst x \<notin> S) rs) = (\<lambda>p. if p \<in> S then None else map_of rs p)"
  by (induction rs) (auto simp: fun_eq_iff)

lemma fold_erase: "fold (\<lambda>r rs. smap_erase (f r) rs) is rs = filter (\<lambda>x. fst x \<notin> f ` set is) rs"
  by (induction "is" arbitrary: rs) (auto simp: smap_erase_def intro: filter_cong)

lemma fold_put_map_of:
  assumes "smap_ok rs"
  shows "smap_ok (fold (\<lambda>r rs. smap_put (f r) n rs) is rs) \<and>
    map_of (fold (\<lambda>r rs. smap_put (f r) n rs) is rs) = (\<lambda>p. if p \<in> f ` set is then Some n else map_of rs p)"
  using assms
proof (induction "is" arbitrary: rs)
  case (Cons i "is")
  have "smap_ok (smap_put (f i) n rs)" using Cons.prems by (rule smap_put_ok)
  from Cons.IH [OF this] smap_put_map_of [OF Cons.prems] show ?case by (auto simp: fun_eq_iff)
qed simp

end
