(* ===== verification/User_Profile.thy ===== *)
theory User_Profile
  imports Std_Map
begin

text \<open>
  \<^verbatim>\<open>src/user_profile_storage.cc\<close>: user profiles in the redis cluster. The cluster's contents are
  a map from keys to values; \<open>env\<close> is what the servers answer during one call: whether a live
  client is found (twice, as an increment looks it up again), whether \<^verbatim>\<open>GET\<close> fails and whether
  \<^verbatim>\<open>SETEX\<close> succeeds. Thrift's serialisation is a pair of parameters: \<open>ser\<close> and \<open>deser\<close>, which
  reads into a given profile. A return code 0 is success, 1 an unknown user, 2 a storage failure.
  Expiry of a profile is not modelled.
\<close>

record UserProfile =
  uid :: bytes
  keywords_map :: "(64 word, 32 word) smap"
  topics :: "32 word list"
  history :: "64 word list"

definition empty_profile :: UserProfile where
  "empty_profile = \<lparr>uid = [], keywords_map = [], topics = [], history = []\<rparr>"

record env =
  node_ok :: bool
  node_ok2 :: bool
  get_fails :: bool
  set_ok :: bool

type_synonym store = "bytes \<rightharpoonup> bytes"
type_synonym deserialiser = "bytes \<Rightarrow> UserProfile \<Rightarrow> bool \<times> UserProfile"

definition GetUserProfile ::
    "deserialiser \<Rightarrow> bool \<Rightarrow> bool \<Rightarrow> store \<Rightarrow> bytes \<Rightarrow> UserProfile \<Rightarrow> nat \<times> UserProfile" where
  "GetUserProfile deser found fails st user_id profile =
     (if \<not> found then (2, profile)
      else if fails then (2, profile)
      else
        (case st user_id of
           Some value \<Rightarrow> (case deser value profile of (ok, p) \<Rightarrow> (if \<not> ok then (2, p) else (0, p)))
         | None \<Rightarrow> (1, profile)))"

text \<open>\<^verbatim>\<open>+=\<close> on \<^verbatim>\<open>int32_t\<close> wraps around here; in C++ an overflow is undefined.\<close>

definition IncrementUserProfile :: "UserProfile \<Rightarrow> UserProfile \<Rightarrow> UserProfile" where
  "IncrementUserProfile org add =
     org\<lparr>keywords_map := fold (\<lambda>(k, w) m.
        (case map_of m k of Some w0 \<Rightarrow> smap_put k (w0 + w) m | None \<Rightarrow> smap_put k w m))
        (keywords_map add) (keywords_map org)\<rparr>"

definition SetToRedis :: "(UserProfile \<Rightarrow> bytes) \<Rightarrow> bool \<Rightarrow> store \<Rightarrow> bytes \<Rightarrow> UserProfile \<Rightarrow> bool \<times> store" where
  "SetToRedis ser ok st user_id profile =
     (if ok then (True, st(user_id \<mapsto> ser profile)) else (False, st))"

definition PutUserProfile ::
    "(UserProfile \<Rightarrow> bytes) \<Rightarrow> deserialiser \<Rightarrow> env \<Rightarrow> store \<Rightarrow> bytes \<Rightarrow> UserProfile \<Rightarrow> bool \<Rightarrow> nat \<times> store" where
  "PutUserProfile ser deser e st user_id profile is_increment =
     (if \<not> node_ok e then (2, st)
      else if \<not> is_increment then
        (case SetToRedis ser (set_ok e) st user_id profile of
           (ok, st') \<Rightarrow> if ok then (0, st') else (2, st'))
      else
        (case GetUserProfile deser (node_ok2 e) (get_fails e) st user_id empty_profile of
           (ret, org) \<Rightarrow>
             if ret \<noteq> 2 then
               (let org = (if ret = 0 then IncrementUserProfile org profile else org) in
                case SetToRedis ser (set_ok e) st user_id org of
                  (ok, st') \<Rightarrow> if ok then (0, st') else (2, st'))
             else (2, st)))"

definition thrift_ok :: "(UserProfile \<Rightarrow> bytes) \<Rightarrow> deserialiser \<Rightarrow> bool" where
  "thrift_ok ser deser \<longleftrightarrow> (\<forall>p. deser (ser p) empty_profile = (True, p))"

section \<open>Increments\<close>

text \<open>The sum of two optional weights: a keyword that only one side has keeps its weight.\<close>

definition plus_opt :: "32 word option \<Rightarrow> 32 word option \<Rightarrow> 32 word option" where
  "plus_opt a b = (case a of None \<Rightarrow> b | Some x \<Rightarrow> (case b of None \<Rightarrow> a | Some y \<Rightarrow> Some (x + y)))"

lemma Increment_fold:
  assumes "smap_ok m" "distinct (map fst kws)"
  shows "let m' = fold (\<lambda>(k, w) m. (case map_of m k of Some w0 \<Rightarrow> smap_put k (w0 + w) m | None \<Rightarrow> smap_put k w m)) kws m
    in smap_ok m' \<and> (\<forall>k. map_of m' k = plus_opt (map_of m k) (map_of kws k))"
  using assms
proof (induction kws arbitrary: m)
  case (Cons x kws)
  obtain k w where x: "x = (k, w)" by force
  let ?m = "case map_of m k of Some w0 \<Rightarrow> smap_put k (w0 + w) m | None \<Rightarrow> smap_put k w m"
  have ok: "smap_ok ?m" using Cons.prems(1) by (auto simp: smap_put_ok split: option.split)
  have "map_of ?m = (map_of m)(k \<mapsto> the (plus_opt (map_of m k) (Some w)))"
    using Cons.prems(1) by (auto simp: smap_put_map_of plus_opt_def split: option.split)
  moreover have "map_of kws k = None" using Cons.prems(2) by (auto simp: x map_of_eq_None_iff)
  ultimately show ?case using Cons.IH [OF ok] Cons.prems(2)
    by (auto simp: x Let_def plus_opt_def split: option.splits)
qed (simp add: plus_opt_def split: option.split)

lemma IncrementUserProfile_sums:
  assumes "smap_ok (keywords_map org)" "smap_ok (keywords_map add)"
  shows "smap_ok (keywords_map (IncrementUserProfile org add)) \<and>
    (\<forall>k. map_of (keywords_map (IncrementUserProfile org add)) k =
       plus_opt (map_of (keywords_map org) k) (map_of (keywords_map add) k))"
  using Increment_fold [OF assms(1) smap_ok_distinct [OF assms(2)]]
  by (simp add: IncrementUserProfile_def Let_def)

text \<open>
  C27: An increment that answers 0 for a user with a stored profile stores that profile with the
  weights summed keyword by keyword, leaves the rest of the profile and every other user alone, and is read back
  by the next read.
\<close>

theorem increment_existing_user:
  assumes "thrift_ok ser deser" "st user_id = Some (ser org)"
    "smap_ok (keywords_map org)" "smap_ok (keywords_map add)"
    "PutUserProfile ser deser e st user_id add True = (0, st')"
  shows "\<exists>p. GetUserProfile deser True False st' user_id empty_profile = (0, p) \<and>
    uid p = uid org \<and> topics p = topics org \<and> history p = history org \<and>
    (\<forall>k. map_of (keywords_map p) k = plus_opt (map_of (keywords_map org) k) (map_of (keywords_map add) k)) \<and>
    (\<forall>u. u \<noteq> user_id \<longrightarrow> st' u = st u)"
proof -
  have d: "deser (ser p) empty_profile = (True, p)" for p using assms(1) by (simp add: thrift_ok_def)
  have "st' = st(user_id \<mapsto> ser (IncrementUserProfile org add))"
    using assms(5) by (auto simp: PutUserProfile_def GetUserProfile_def SetToRedis_def assms(2) d split: if_splits)
  then have "GetUserProfile deser True False st' user_id empty_profile = (0, IncrementUserProfile org add)"
    "\<forall>u. u \<noteq> user_id \<longrightarrow> st' u = st u"
    by (simp_all add: GetUserProfile_def d)
  with IncrementUserProfile_sums [OF assms(3,4)] show ?thesis
    by (intro exI [of _ "IncrementUserProfile org add"]) (simp add: IncrementUserProfile_def)
qed

text \<open>
  An increment for a user with no profile answers success and stores an empty profile: the
  keywords it was given are lost, and so is the user's id.
\<close>

theorem increment_new_user_lost:
  assumes "thrift_ok ser deser" "st user_id = None"
  shows "\<exists>st'. PutUserProfile ser deser \<lparr>node_ok = True, node_ok2 = True, get_fails = False, set_ok = True\<rparr>
       st user_id add True = (0, st') \<and>
     GetUserProfile deser True False st' user_id empty_profile = (0, empty_profile)"
  using assms by (auto simp: PutUserProfile_def GetUserProfile_def SetToRedis_def thrift_ok_def)

text \<open>A call that does not answer 0 answers 2 and leaves the store as it was.\<close>

theorem put_failure_keeps_store:
  assumes "PutUserProfile ser deser e st user_id profile inc = (c, st')" "c \<noteq> 0"
  shows "c = 2 \<and> st' = st"
  using assms
  by (auto simp: PutUserProfile_def SetToRedis_def Let_def split: if_splits prod.splits)

section \<open>Witnesses\<close>

text \<open>A serialisation into bytes: every number in unary, closed by a zero byte.\<close>

definition enc_nat :: "nat \<Rightarrow> bytes" where
  "enc_nat n = replicate n 1 @ [0]"

definition dec_nat :: "bytes \<Rightarrow> nat \<times> bytes" where
  "dec_nat bs = (length (takeWhile (\<lambda>b. b = 1) bs), drop 1 (dropWhile (\<lambda>b. b = 1) bs))"

lemma dec_enc_nat [simp]: "dec_nat (enc_nat n @ bs) = (n, bs)"
  by (simp add: dec_nat_def enc_nat_def takeWhile_append dropWhile_append)

definition enc_list :: "nat list \<Rightarrow> bytes" where
  "enc_list ns = enc_nat (length ns) @ concat (map enc_nat ns)"

fun dec_many :: "nat \<Rightarrow> bytes \<Rightarrow> nat list \<times> bytes" where
  "dec_many 0 bs = ([], bs)"
| "dec_many (Suc n) bs = (case dec_nat bs of (x, bs) \<Rightarrow> (case dec_many n bs of (xs, bs) \<Rightarrow> (x # xs, bs)))"

definition dec_list :: "bytes \<Rightarrow> nat list \<times> bytes" where
  "dec_list bs = (case dec_nat bs of (n, bs) \<Rightarrow> dec_many n bs)"

lemma dec_many_enc: "dec_many (length ns) (concat (map enc_nat ns) @ bs) = (ns, bs)"
  by (induction ns) simp_all

lemma dec_enc_list [simp]: "dec_list (enc_list ns @ bs) = (ns, bs)"
  by (simp add: dec_list_def enc_list_def dec_many_enc)

definition sample_ser :: "UserProfile \<Rightarrow> bytes" where
  "sample_ser p = enc_list (map unat (uid p)) @ enc_list (map (unat \<circ> fst) (keywords_map p))
     @ enc_list (map (unat \<circ> snd) (keywords_map p)) @ enc_list (map unat (topics p)) @ enc_list (map unat (history p))"

definition sample_deser :: deserialiser where
  "sample_deser bs p =
     (case dec_list bs of (u, bs) \<Rightarrow> case dec_list bs of (ks, bs) \<Rightarrow> case dec_list bs of (ws, bs) \<Rightarrow>
      case dec_list bs of (ts, bs) \<Rightarrow> case dec_list bs of (hs, bs) \<Rightarrow>
        (True, \<lparr>uid = map word_of_nat u, keywords_map = zip (map word_of_nat ks) (map word_of_nat ws),
                topics = map word_of_nat ts, history = map word_of_nat hs\<rparr>))"

lemma sample_thrift_ok: "thrift_ok sample_ser sample_deser"
proof -
  have "dec_list (enc_list ns) = (ns, [])" for ns using dec_enc_list [of ns "[]"] by simp
  then show ?thesis by (simp add: zip_map_fst_snd thrift_ok_def sample_ser_def sample_deser_def comp_def)
qed

definition sample_profile :: UserProfile where
  "sample_profile = \<lparr>uid = [117], keywords_map = [(3, 5)], topics = [], history = [9]\<rparr>"

definition good_env :: env where
  "good_env = \<lparr>node_ok = True, node_ok2 = True, get_fails = False, set_ok = True\<rparr>"

theorem increment_existing_user_witness:
  "\<exists>st' p. PutUserProfile sample_ser sample_deser good_env [[117] \<mapsto> sample_ser sample_profile] [117] sample_profile True = (0, st') \<and>
    GetUserProfile sample_deser True False st' [117] empty_profile = (0, p) \<and> map_of (keywords_map p) 3 = Some 10"
proof -
  let ?st = "[[117] \<mapsto> sample_ser sample_profile]"
  let ?st' = "?st([117] \<mapsto> sample_ser (IncrementUserProfile sample_profile sample_profile))"
  have p: "PutUserProfile sample_ser sample_deser good_env ?st [117] sample_profile True = (0, ?st')"
    using sample_thrift_ok by (simp add: PutUserProfile_def GetUserProfile_def SetToRedis_def good_env_def thrift_ok_def)
  have k: "smap_ok (keywords_map sample_profile)" by (simp add: sample_profile_def smap_ok_def)
  from increment_existing_user [OF sample_thrift_ok _ k k p]
  obtain q where "GetUserProfile sample_deser True False ?st' [117] empty_profile = (0, q)"
    "\<forall>x. map_of (keywords_map q) x = plus_opt (map_of (keywords_map sample_profile) x) (map_of (keywords_map sample_profile) x)"
    by auto
  then show ?thesis using p by (intro exI conjI) (auto simp: sample_profile_def plus_opt_def)
qed

theorem increment_new_user_lost_witness:
  "\<exists>st'. PutUserProfile sample_ser sample_deser good_env Map.empty [117] sample_profile True = (0, st') \<and>
     GetUserProfile sample_deser True False st' [117] empty_profile = (0, empty_profile)"
  unfolding good_env_def by (rule increment_new_user_lost) (simp_all add: sample_thrift_ok)

theorem put_failure_keeps_store_witness:
  "snd (PutUserProfile sample_ser sample_deser (good_env\<lparr>set_ok := False\<rparr>) Map.empty [117] sample_profile False) = Map.empty"
  using put_failure_keeps_store [of sample_ser sample_deser "good_env\<lparr>set_ok := False\<rparr>" Map.empty "[117]" sample_profile False 2 Map.empty]
  by (simp add: PutUserProfile_def SetToRedis_def good_env_def)

end
