(* ===== verification/Algo_Plugin.thy ===== *)
theory Algo_Plugin
  imports Std_Map
begin

text \<open>
  \<^verbatim>\<open>src/algo_plugin_manager.cc\<close>: the table of ranking plugins in two buffers, of which one is read
  while the other is loaded. What boost reads of the configuration file is a record
  (\<open>None\<close> when the file cannot be opened); \<open>load\<close> stands for the dynamic linker and the
  plugin's \<^verbatim>\<open>Initialize\<close>, and answers \<open>None\<close> on every failure of \<^verbatim>\<open>GetPluginFromDylib\<close>.
  A shared pointer is an option, \<open>None\<close> for null. The hash of a user id is a parameter.
\<close>

record 'p buffer =
  plugins :: "int \<Rightarrow> 'p option option"
  default_plugin :: "'p option"
  num_plugins :: "32 word"

record 'p AlgoPluginManager =
  current_index :: nat
  buffer0 :: "'p buffer"
  buffer1 :: "'p buffer"

definition buf :: "'p AlgoPluginManager \<Rightarrow> nat \<Rightarrow> 'p buffer" where
  "buf m i = (if i = 0 then buffer0 m else buffer1 m)"

definition set_buf :: "'p AlgoPluginManager \<Rightarrow> nat \<Rightarrow> 'p buffer \<Rightarrow> 'p AlgoPluginManager" where
  "set_buf m i b = (if i = 0 then m\<lparr>buffer0 := b\<rparr> else m\<lparr>buffer1 := b\<rparr>)"

text \<open>A bucket item: its id (\<open>None\<close> when the cast fails) and the name of its plugin.\<close>

record bucket_item =
  bucket_id :: "int option"
  plugin_name :: bytes

record config =
  num_buckets :: "32 word option"
  default_bucket :: int
  buckets :: "bucket_item list"

fun load_buckets ::
    "(bytes \<Rightarrow> 'p option) \<Rightarrow> bucket_item list \<Rightarrow> (int \<Rightarrow> 'p option option) \<Rightarrow> bool \<times> (int \<Rightarrow> 'p option option)" where
  "load_buckets load [] ps = (True, ps)"
| "load_buckets load (it # its) ps =
     (case bucket_id it of
        None \<Rightarrow> (False, ps)
      | Some b \<Rightarrow>
          (case load (plugin_name it) of
             None \<Rightarrow> (False, ps)
           | Some p \<Rightarrow> load_buckets load its (ps(b := Some (Some p)))))"

definition LoadPlugins ::
    "(bytes \<Rightarrow> 'p option) \<Rightarrow> config option \<Rightarrow> 'p AlgoPluginManager \<Rightarrow> bool \<times> 'p AlgoPluginManager" where
  "LoadPlugins load conf m =
     (let index = 1 - current_index m;
          b = (buf m index)\<lparr>plugins := (\<lambda>_. None)\<rparr>
      in case conf of
           None \<Rightarrow> (False, set_buf m index b)
         | Some c \<Rightarrow>
             (let b = (case num_buckets c of None \<Rightarrow> b | Some n \<Rightarrow> b\<lparr>num_plugins := n\<rparr>) in
              case load_buckets load (buckets c) (plugins b) of
                (ok, ps) \<Rightarrow>
                  if \<not> ok then (False, set_buf m index (b\<lparr>plugins := ps\<rparr>))
                  else
                    (let (dp, ps) = (case ps (default_bucket c) of
                            Some p \<Rightarrow> (p, ps)
                          | None \<Rightarrow> (None, ps(default_bucket c := Some None)))
                     in (True, (set_buf m index (b\<lparr>plugins := ps, default_plugin := dp\<rparr>))\<lparr>current_index := index\<rparr>))))"

text \<open>
  \<^verbatim>\<open>id % num_plugins_[index]\<close>: the count is sign-extended to 64 bits, the remainder is cut to
  an \<^verbatim>\<open>int\<close>. \<open>None\<close>: a division by zero.
\<close>

definition Select :: "'p AlgoPluginManager \<Rightarrow> 64 word \<Rightarrow> 'p option option" where
  "Select m i =
     (let b = buf m (current_index m); n = (scast (num_plugins b) :: 64 word) in
      if n = 0 then None
      else
        (let md = sint (ucast (i mod n) :: 32 word) in
         Some (case plugins b md of None \<Rightarrow> default_plugin b | Some p \<Rightarrow> p)))"

definition Select_string :: "(bytes \<Rightarrow> 64 word) \<Rightarrow> 'p AlgoPluginManager \<Rightarrow> bytes \<Rightarrow> 'p option option" where
  "Select_string city m s = Select m (city s)"

definition index_ok :: "'p AlgoPluginManager \<Rightarrow> bool" where
  "index_ok m \<longleftrightarrow> current_index m \<le> 1"

section \<open>Loading\<close>

lemma find_append: "find P (xs @ ys) = (case find P xs of None \<Rightarrow> find P ys | Some x \<Rightarrow> Some x)"
  by (induction xs) auto

lemma load_buckets_ok:
  "load_buckets load its ps = (ok, ps') \<Longrightarrow>
     (ok \<longleftrightarrow> (\<forall>it \<in> set its. bucket_id it \<noteq> None \<and> load (plugin_name it) \<noteq> None)) \<and>
     (ok \<longrightarrow> ps' = ps ++ (\<lambda>b. map_option (\<lambda>it. load (plugin_name it)) (find (\<lambda>it. bucket_id it = Some b) (rev its))))"
proof (induction its arbitrary: ps)
  case Nil
  then show ?case by (auto simp: map_add_def)
next
  case (Cons it its)
  show ?case
  proof (cases "bucket_id it = None \<or> load (plugin_name it) = None")
    case True
    with Cons.prems show ?thesis by (auto split: option.splits)
  next
    case False
    then obtain b p where bp: "bucket_id it = Some b" "load (plugin_name it) = Some p" by auto
    with Cons.prems have "load_buckets load its (ps(b := Some (Some p))) = (ok, ps')" by simp
    from Cons.IH [OF this] bp show ?thesis
      by (auto simp: map_add_def fun_eq_iff find_append split: option.splits)
  qed
qed

lemma buf_set_buf: "buf (set_buf m i b) i = b"
  by (simp add: buf_def set_buf_def)

lemma buf_other: "index_ok m \<Longrightarrow> buf (set_buf m (1 - current_index m) b) (current_index m) = buf m (current_index m)"
  by (auto simp: index_ok_def buf_def set_buf_def)

lemma set_buf_index [simp]: "current_index (set_buf m i b) = current_index m"
  by (simp add: set_buf_def)

lemma buf_index_update [simp]: "buf (m\<lparr>current_index := k\<rparr>) i = buf m i"
  by (simp add: buf_def)

lemma bucket_mod:
  fixes n :: "32 word" and i :: "64 word"
  assumes "0 < sint n"
  shows "(scast n :: 64 word) \<noteq> 0 \<and> sint (ucast (i mod scast n) :: 32 word) = uint i mod sint n"
proof -
  have b: "sint n < 2 ^ 31" using sint_lt [of n] by simp
  have u: "uint (scast n :: 64 word) = sint n"
  proof -
    have "uint (scast n :: 64 word) = take_bit 64 (sint n)"
      unfolding scast_eq by (subst uint_word_of_int_eq) simp
    also have "\<dots> = sint n" using assms b by (intro take_bit_int_eq_self) auto
    finally show ?thesis .
  qed
  then have ne: "(scast n :: 64 word) \<noteq> 0" using assms by auto
  have m: "uint (i mod scast n) = uint i mod sint n" by (simp add: uint_mod u)
  have r: "0 \<le> uint i mod sint n" "uint i mod sint n < 2 ^ 31" using assms b
    by (auto intro: less_trans [OF pos_mod_bound])
  have "uint (ucast (i mod scast n) :: 32 word) = uint i mod sint n"
    using r by (simp add: unsigned_ucast_eq m take_bit_int_eq_self)
  then have "sint (ucast (i mod scast n) :: 32 word) = uint i mod sint n"
    using r by (simp add: sint_uint signed_take_bit_int_eq_self)
  with ne show ?thesis by simp
qed

text \<open>
  C33: A reload that fails, at the file, at a bucket id or at a plugin, changes no selection.
\<close>

theorem failed_reload_keeps_select:
  assumes "index_ok m" "LoadPlugins load conf m = (False, m')"
  shows "index_ok m' \<and> (\<forall>i. Select m' i = Select m i)"
proof -
  from assms(2) obtain b where "m' = set_buf m (1 - current_index m) b"
    by (auto simp: LoadPlugins_def Let_def split: option.splits prod.splits if_splits)
  then have "current_index m' = current_index m" "buf m' (current_index m) = buf m (current_index m)"
    using buf_other [OF assms(1)] by auto
  then show ?thesis using assms(1) by (simp add: Select_def index_ok_def)
qed

text \<open>
  After a reload that succeeds with a number of buckets, a user's bucket is the hash modulo that
  number, its plugin the one the last item of that bucket names, and the plugin of the default bucket when the
  configuration has no such item.
\<close>

theorem reload_selects_bucket:
  assumes "LoadPlugins load (Some c) m = (True, m')"
    "num_buckets c = Some n" "0 < sint n"
  shows "Select m' i = Some
    (let plugin_of = (\<lambda>b. Option.bind (find (\<lambda>it. bucket_id it = Some b) (rev (buckets c))) (\<lambda>it. load (plugin_name it)));
         b = uint i mod sint n
     in if find (\<lambda>it. bucket_id it = Some b) (rev (buckets c)) = None then plugin_of (default_bucket c) else plugin_of b)"
proof -
  let ?find = "\<lambda>b. find (\<lambda>it. bucket_id it = Some b) (rev (buckets c))"
  obtain ok ps where lb: "load_buckets load (buckets c) (\<lambda>_. None) = (ok, ps)" by force
  have ok: "ok" using assms(1,2) by (auto simp: LoadPlugins_def Let_def lb split: if_splits)
  with load_buckets_ok [OF lb] have ps: "ps b = map_option (\<lambda>it. load (plugin_name it)) (?find b)" for b
    by (auto simp: map_add_def split: option.splits)
  have m': "buf m' (current_index m') = \<lparr>plugins = (case ps (default_bucket c) of Some p \<Rightarrow> ps | None \<Rightarrow> ps(default_bucket c := Some None)),
      default_plugin = (case ps (default_bucket c) of Some p \<Rightarrow> p | None \<Rightarrow> None), num_plugins = n\<rparr>"
    using assms(1,2) ok by (auto simp: LoadPlugins_def Let_def lb buf_set_buf split: option.splits)
  show ?thesis using bucket_mod [OF assms(3), of i]
    by (auto simp: Select_def Let_def m' ps split: option.splits)
qed

definition sample_manager :: "nat AlgoPluginManager" where
  "sample_manager = \<lparr>current_index = 0,
     buffer0 = \<lparr>plugins = [2 \<mapsto> Some 7], default_plugin = None, num_plugins = 10\<rparr>,
     buffer1 = \<lparr>plugins = Map.empty, default_plugin = None, num_plugins = 0\<rparr>\<rparr>"

definition sample_config :: config where
  "sample_config = \<lparr>num_buckets = Some 3, default_bucket = 0,
     buckets = [\<lparr>bucket_id = Some 0, plugin_name = [97]\<rparr>, \<lparr>bucket_id = Some 2, plugin_name = [98]\<rparr>]\<rparr>"

theorem failed_reload_keeps_select_witness:
  "Select (snd (LoadPlugins (\<lambda>nm. if nm = [97] then Some 1 else None) (Some sample_config) sample_manager)) 12 = Some (Some 7)"
proof -
  let ?load = "\<lambda>nm. if nm = [97::byte] then Some (1::nat) else None"
  have "LoadPlugins ?load (Some sample_config) sample_manager =
      (False, snd (LoadPlugins ?load (Some sample_config) sample_manager))"
    by (simp add: LoadPlugins_def sample_config_def Let_def)
  from failed_reload_keeps_select [OF _ this] show ?thesis
    by (simp add: index_ok_def sample_manager_def Select_def buf_def Let_def)
qed

theorem reload_selects_bucket_witness:
  "Select (snd (LoadPlugins (\<lambda>nm. Some (length nm)) (Some sample_config) sample_manager)) 5 = Some (Some 1)"
proof -
  let ?load = "\<lambda>nm :: bytes. Some (length nm)"
  have "LoadPlugins ?load (Some sample_config) sample_manager =
      (True, snd (LoadPlugins ?load (Some sample_config) sample_manager))"
    by (simp add: LoadPlugins_def sample_config_def Let_def)
  from reload_selects_bucket [OF this, where n = 3 and i = 5] show ?thesis
    by (simp add: sample_config_def Let_def)
qed

end
