(* ===== verification/Recomm_Handler.thy ===== *)
theory Recomm_Handler
  imports Retrieval User_Profile Algo_Plugin
begin

text \<open>
  \<^verbatim>\<open>src/story_profile_storage.cc\<close>, \<^verbatim>\<open>src/local_dict.cc\<close> and
  \<^verbatim>\<open>src/recomm_engine_handler.cc\<close>: the story profiles in leveldb, and the query that fetches the profiles of
  the user and of the page, retrieves stories for their keywords, drops those the user has seen and those that
  duplicate another, and has a plugin rank the rest. leveldb's answer is a map with the keys whose reading
  fails; thrift's deserialisation of a story, CityHash64 and the ranking plugins are parameters.
\<close>

section \<open>Story profiles\<close>

record StoryProfile =
  sp_story_id :: bytes
  signature :: "64 word"
  sp_keywords :: "(64 word, 32 word) smap"

record leveldb =
  contents :: "64 word \<rightharpoonup> bytes"
  read_fails :: "64 word \<Rightarrow> bool"
  write_fails :: "64 word \<Rightarrow> bool"

definition LocalDict_Get :: "leveldb \<Rightarrow> 64 word \<Rightarrow> nat \<times> bytes" where
  "LocalDict_Get db key =
     (if read_fails db key then (2, [])
      else (case contents db key of Some v \<Rightarrow> (0, v) | None \<Rightarrow> (1, [])))"

definition LocalDict_Put :: "leveldb \<Rightarrow> 64 word \<Rightarrow> bytes \<Rightarrow> bool \<times> leveldb" where
  "LocalDict_Put db key v =
     (if write_fails db key then (False, db) else (True, db\<lparr>contents := (contents db)(key \<mapsto> v)\<rparr>))"

definition AddProfile :: "(StoryProfile \<Rightarrow> bytes) \<Rightarrow> leveldb \<Rightarrow> 64 word \<Rightarrow> StoryProfile \<Rightarrow> bool \<times> leveldb" where
  "AddProfile sser db key p =
     (case LocalDict_Put db key (sser p) of (ok, db') \<Rightarrow> if \<not> ok then (False, db') else (True, db'))"

text \<open>\<open>None\<close> is the answer false; what is then left in the profile is not used.\<close>

definition GetProfile :: "(bytes \<Rightarrow> StoryProfile option) \<Rightarrow> leveldb \<Rightarrow> 64 word \<Rightarrow> StoryProfile option" where
  "GetProfile sdeser db key =
     (case LocalDict_Get db key of (status, v) \<Rightarrow> if status = 0 then sdeser v else None)"

section \<open>The query\<close>

datatype response_code = RRC_OK | RRC_ERROR | RRC_NO_DOC | RRC_NO_CANDIDATE | RRC_EMPTY_RANK_RESULT

type_synonym 'r ranker = "UserProfile \<Rightarrow> StoryProfile \<Rightarrow> StoryProfile list \<Rightarrow> 32 word \<times> 'r list"

record ('w, 'r) engine =
  user_store :: store
  user_deser :: deserialiser
  user_found :: bool
  user_fails :: bool
  story_db :: leveldb
  story_deser :: "bytes \<Rightarrow> StoryProfile option"
  city64 :: "bytes \<Rightarrow> 64 word"
  instant_index :: "'w InstantIndex"
  ix_fuel :: nat
  too_few' :: "nat \<Rightarrow> nat \<Rightarrow> bool"
  sorter :: "entry list \<Rightarrow> entry list"
  max_doc_return :: nat
  manager :: "'r ranker AlgoPluginManager"

record request =
  rq_uid :: bytes
  rq_url :: bytes
  topN :: "16 word"

record 'r response =
  response_code' :: response_code
  rsp_results :: "'r list"

definition request_keys :: "UserProfile \<Rightarrow> StoryProfile \<Rightarrow> int list" where
  "request_keys u s = map (\<lambda>(k, w). sint k) (keywords_map u) @ map (\<lambda>(k, w). sint k) (sp_keywords s)"

fun candidates_loop ::
    "64 word list \<Rightarrow> (64 word \<Rightarrow> StoryProfile option) \<Rightarrow> entry list \<Rightarrow> 64 word set \<Rightarrow> StoryProfile list \<Rightarrow> StoryProfile list" where
  "candidates_loop hist get [] ex cs = cs"
| "candidates_loop hist get (e # es) ex cs =
     (if e_story_id e \<in> set hist then candidates_loop hist get es ex cs
      else
        (case get (e_story_id e) of
           None \<Rightarrow> candidates_loop hist get es ex cs
         | Some p \<Rightarrow>
             if signature p \<in> ex then candidates_loop hist get es ex cs
             else candidates_loop hist get es (insert (signature p) ex) (cs @ [p])))"

text \<open>
  The end of the query, from the plugin's answer on. A negative \<^verbatim>\<open>topN\<close> becomes a huge
  \<^verbatim>\<open>size_t\<close>.
\<close>

definition finish_ranking :: "16 word \<Rightarrow> 32 word \<Rightarrow> 'r list \<Rightarrow> 'r response" where
  "finish_ranking n num rs =
     (if length rs \<noteq> unat (scast num :: 64 word) then \<lparr>response_code' = RRC_ERROR, rsp_results = rs\<rparr>
      else if length rs = 0 then \<lparr>response_code' = RRC_EMPTY_RANK_RESULT, rsp_results = rs\<rparr>
      else \<lparr>response_code' = RRC_OK, rsp_results = take (min (unat (scast n :: 64 word)) (length rs)) rs\<rparr>)"

text \<open>
  \<open>None\<close>: the plugin pointer is null, the number of buckets is zero, or the fuel of the index
  walk is too small.
\<close>

definition query :: "('w, 'r) engine \<Rightarrow> request \<Rightarrow> 'r response option" where
  "query g rq =
     (let user = snd (GetUserProfile (user_deser g) (user_found g) (user_fails g) (user_store g) (rq_uid rq) empty_profile)
      in case GetProfile (story_deser g) (story_db g) (city64 g (rq_url rq)) of
           None \<Rightarrow> Some \<lparr>response_code' = RRC_ERROR, rsp_results = []\<rparr>
         | Some page \<Rightarrow>
             do { rr \<leftarrow> retrieve (ix_fuel g) (too_few' g) (sorter g) (max_doc_return g) (instant_index g) (request_keys user page);
                  if r_code rr \<noteq> STATE_OK then Some \<lparr>response_code' = RRC_NO_DOC, rsp_results = []\<rparr>
                  else
                    let candidates = candidates_loop (history user) (GetProfile (story_deser g) (story_db g)) (results rr) {} [] in
                    if length candidates = 0 then Some \<lparr>response_code' = RRC_NO_CANDIDATE, rsp_results = []\<rparr>
                    else
                      do { pp \<leftarrow> Select_string (city64 g) (manager g) (uid user);
                           plugin \<leftarrow> pp;
                           let (num, rs) = plugin user page candidates;
                           Some (finish_ranking (topN rq) num rs) } })"

lemma finish_OK:
  "response_code' (finish_ranking n num rs) = RRC_OK \<Longrightarrow>
   rs \<noteq> [] \<and> rsp_results (finish_ranking n num rs) = take (unat (scast n :: 64 word)) rs"
  by (auto simp: finish_ranking_def min_def split: if_splits)

lemma finish_not_NO_DOC [simp]: "response_code' (finish_ranking n num rs) \<noteq> RRC_NO_DOC"
  by (simp add: finish_ranking_def)

section \<open>The candidates\<close>

definition fresh_stories :: "64 word list \<Rightarrow> (64 word \<Rightarrow> StoryProfile option) \<Rightarrow> entry list \<Rightarrow> StoryProfile list" where
  "fresh_stories hist get es = List.map_filter get (filter (\<lambda>i. i \<notin> set hist) (map e_story_id es))"

fun dedup :: "64 word set \<Rightarrow> StoryProfile list \<Rightarrow> StoryProfile list" where
  "dedup ex [] = []"
| "dedup ex (p # ps) = (if signature p \<in> ex then dedup ex ps else p # dedup (insert (signature p) ex) ps)"

lemma map_filter_Cons: "List.map_filter f (x # xs) = (case f x of None \<Rightarrow> List.map_filter f xs | Some y \<Rightarrow> y # List.map_filter f xs)"
  by (auto simp: List.map_filter_def split: option.splits)

lemma candidates_dedup: "candidates_loop hist get es ex cs = cs @ dedup ex (fresh_stories hist get es)"
  by (induction hist get es ex cs rule: candidates_loop.induct)
     (auto simp: fresh_stories_def map_filter_Cons List.map_filter_def split: option.splits)

lemma dedup_signatures:
  "distinct (map signature (dedup ex ps)) \<and> signature ` set (dedup ex ps) = signature ` set ps - ex \<and> set (dedup ex ps) \<subseteq> set ps"
proof (induction ex ps rule: dedup.induct)
  case (2 ex p ps)
  show ?case
  proof (cases "signature p \<in> ex")
    case True
    with 2(1) show ?thesis by auto
  next
    case False
    with 2(2) have ih: "distinct (map signature (dedup (insert (signature p) ex) ps))"
      "signature ` set (dedup (insert (signature p) ex) ps) = signature ` set ps - insert (signature p) ex"
      "set (dedup (insert (signature p) ex) ps) \<subseteq> set ps" by auto
    from False have e: "dedup ex (p # ps) = p # dedup (insert (signature p) ex) ps" by simp
    show ?thesis unfolding e using ih False by auto
  qed
qed simp

lemma fresh_stories_set:
  "set (fresh_stories hist get es) = {p. \<exists>e \<in> set es. e_story_id e \<notin> set hist \<and> get (e_story_id e) = Some p}"
  by (force simp: fresh_stories_def List.map_filter_def image_iff)

lemma query_candidates:
  assumes "query g rq = Some r" "response_code' r = RRC_OK"
    "user = snd (GetUserProfile (user_deser g) (user_found g) (user_fails g) (user_store g) (rq_uid rq) empty_profile)"
  shows "\<exists>page rr plugin num rs.
    GetProfile (story_deser g) (story_db g) (city64 g (rq_url rq)) = Some page \<and>
    retrieve (ix_fuel g) (too_few' g) (sorter g) (max_doc_return g) (instant_index g) (request_keys user page) = Some rr \<and>
    Select_string (city64 g) (manager g) (uid user) = Some (Some plugin) \<and>
    plugin user page (candidates_loop (history user) (GetProfile (story_deser g) (story_db g)) (results rr) {} []) = (num, rs) \<and>
    rs \<noteq> [] \<and> rsp_results r = take (unat (scast (topN rq) :: 64 word)) rs"
proof -
  obtain page rr plugin num rs where
    "GetProfile (story_deser g) (story_db g) (city64 g (rq_url rq)) = Some page"
    "retrieve (ix_fuel g) (too_few' g) (sorter g) (max_doc_return g) (instant_index g) (request_keys user page) = Some rr"
    "Select_string (city64 g) (manager g) (uid user) = Some (Some plugin)"
    "plugin user page (candidates_loop (history user) (GetProfile (story_deser g) (story_db g)) (results rr) {} []) = (num, rs)"
    and r: "r = finish_ranking (topN rq) num rs"
    using assms(1,2) unfolding query_def Let_def assms(3) [symmetric]
    by (auto split: option.splits Option.bind_splits if_splits prod.splits)
  moreover have "rs \<noteq> [] \<and> rsp_results r = take (unat (scast (topN rq) :: 64 word)) rs"
    using assms(2) finish_OK unfolding r by blast
  ultimately show ?thesis by blast
qed

text \<open>
  C4: A query answered RRC_OK returns the first topN results of the plugin selected for
  the user, run on a list of stories that were retrieved, are not in the user's history, have pairwise different
  signatures, and cover the signature of every retrieved story that is not in the history and has a profile.
\<close>

theorem query_ranks_fresh_stories:
  assumes "query g rq = Some r" "response_code' r = RRC_OK"
  shows "\<exists>user page rr plugin num rs cs.
    user = snd (GetUserProfile (user_deser g) (user_found g) (user_fails g) (user_store g) (rq_uid rq) empty_profile) \<and>
    GetProfile (story_deser g) (story_db g) (city64 g (rq_url rq)) = Some page \<and>
    retrieve (ix_fuel g) (too_few' g) (sorter g) (max_doc_return g) (instant_index g) (request_keys user page) = Some rr \<and>
    Select_string (city64 g) (manager g) (uid user) = Some (Some plugin) \<and>
    plugin user page cs = (num, rs) \<and> rs \<noteq> [] \<and>
    rsp_results r = take (unat (scast (topN rq) :: 64 word)) rs \<and>
    distinct (map signature cs) \<and>
    (\<forall>p \<in> set cs. \<exists>e \<in> set (results rr). e_story_id e \<notin> set (history user) \<and>
       GetProfile (story_deser g) (story_db g) (e_story_id e) = Some p) \<and>
    (\<forall>e \<in> set (results rr). \<forall>p. e_story_id e \<notin> set (history user) \<and>
       GetProfile (story_deser g) (story_db g) (e_story_id e) = Some p \<longrightarrow> signature p \<in> signature ` set cs)"
proof -
  define user where "user = snd (GetUserProfile (user_deser g) (user_found g) (user_fails g) (user_store g) (rq_uid rq) empty_profile)"
  from query_candidates [OF assms user_def] obtain page rr plugin num rs where
    q: "GetProfile (story_deser g) (story_db g) (city64 g (rq_url rq)) = Some page"
    "retrieve (ix_fuel g) (too_few' g) (sorter g) (max_doc_return g) (instant_index g) (request_keys user page) = Some rr"
    "Select_string (city64 g) (manager g) (uid user) = Some (Some plugin)"
    "plugin user page (candidates_loop (history user) (GetProfile (story_deser g) (story_db g)) (results rr) {} []) = (num, rs)"
    "rs \<noteq> []" "rsp_results r = take (unat (scast (topN rq) :: 64 word)) rs" by blast
  let ?f = "fresh_stories (history user) (GetProfile (story_deser g) (story_db g)) (results rr)"
  have d: "distinct (map signature (dedup {} ?f))" "signature ` set (dedup {} ?f) = signature ` set ?f" "set (dedup {} ?f) \<subseteq> set ?f"
    using dedup_signatures [of "{}" ?f] by auto
  have in_f: "\<exists>e \<in> set (results rr). e_story_id e \<notin> set (history user) \<and>
      GetProfile (story_deser g) (story_db g) (e_story_id e) = Some p" if "p \<in> set (dedup {} ?f)" for p
    using that d(3) fresh_stories_set [of "history user" "GetProfile (story_deser g) (story_db g)" "results rr"] by blast
  have cover: "signature p \<in> signature ` set (dedup {} ?f)"
    if "e \<in> set (results rr)" "e_story_id e \<notin> set (history user)"
      "GetProfile (story_deser g) (story_db g) (e_story_id e) = Some p" for e p
    using that unfolding d(2) fresh_stories_set by auto
  show ?thesis
    by (intro exI [of _ user] exI [of _ page] exI [of _ rr] exI [of _ plugin] exI [of _ num] exI [of _ rs] exI [of _ "dedup {} ?f"])
       (use user_def q d(1) in_f cover in \<open>auto simp: candidates_dedup\<close>)
qed

text \<open>
  The code RRC_NO_DOC is never returned, since the retrieval reports success also when it finds
  nothing; a retrieval with no result ends in RRC_NO_CANDIDATE.
\<close>

theorem query_never_no_doc:
  "query g rq = Some r \<Longrightarrow> response_code' r \<noteq> RRC_NO_DOC"
  by (auto simp: query_def Let_def retrieve_def makeReply_def split: option.splits Option.bind_splits if_splits prod.splits)

text \<open>A story that was added is read back, and every other story is as before.\<close>

theorem story_profile_roundtrip:
  assumes "\<forall>p. sdeser (sser p) = Some p" "AddProfile sser db k p = (True, db')" "\<not> read_fails db k"
  shows "GetProfile sdeser db' k = Some p \<and> (\<forall>k'. k' \<noteq> k \<longrightarrow> GetProfile sdeser db' k' = GetProfile sdeser db k')"
  using assms by (auto simp: AddProfile_def LocalDict_Put_def GetProfile_def LocalDict_Get_def split: if_splits)

section \<open>Witnesses\<close>

definition sample_page :: StoryProfile where
  "sample_page = \<lparr>sp_story_id = [112], signature = 77, sp_keywords = [(7, 2), (9, 1)]\<rparr>"

definition sample_db :: leveldb where
  "sample_db = \<lparr>contents = (\<lambda>_. Some [1]), read_fails = (\<lambda>_. False), write_fails = (\<lambda>_. False)\<rparr>"

definition sample_engine :: "unit InstantIndex \<Rightarrow> (unit, nat) engine" where
  "sample_engine ix = \<lparr>user_store = Map.empty, user_deser = sample_deser, user_found = True, user_fails = False,
     story_db = sample_db, story_deser = (\<lambda>_. Some sample_page), city64 = (\<lambda>_. 1),
     instant_index = ix, ix_fuel = 2, too_few' = (\<lambda>_ _. False), sorter = score_sort, max_doc_return = 10,
     manager = \<lparr>current_index = 0, buffer0 = \<lparr>plugins = [0 \<mapsto> Some (\<lambda>u p cs. (1, [length cs]))], default_plugin = None, num_plugins = 1\<rparr>,
       buffer1 = \<lparr>plugins = Map.empty, default_plugin = None, num_plugins = 0\<rparr>\<rparr>\<rparr>"

definition sample_request :: request where
  "sample_request = \<lparr>rq_uid = [117], rq_url = [104], topN = 5\<rparr>"

text \<open>An index with one story that has both keywords of the page.\<close>

lemma sample_index:
  "\<exists>(st :: unit InstantIndex) r. retrieve 2 (\<lambda>_ _. False) score_sort 10 st [7, 9] = Some r \<and> r_code r = STATE_OK \<and> results r \<noteq> []"
proof -
  have rep0: "ix_rep (index' newInstantIndex) (Map.empty :: int \<rightharpoonup> unit Posting list)"
    by (simp add: newInstantIndex_def ix_rep_def)
  let ?M = "add_spec (\<lambda>_. ()) (\<lambda>_. 5) 1 0 [(7, 2), (9, 1)] Map.empty"
  from AddStoryInternal_rep [OF addr_supply_ok rep0, of unit_posting "\<lambda>_. 42" "\<lambda>_. ()" "\<lambda>_. 5" sample_story]
  obtain st :: "unit InstantIndex" where st: "ix_rep (index' st) ?M"
    by (auto simp: newInstantIndex_def sample_story_def)
  have fuel: "fuel_for 2 ?M" by (auto simp: fuel_for_def split: if_splits)
  have "doc_hits ?M [7, 9] 1 \<noteq> []" by (simp add: doc_hits_def)
  then have q: "qualifies (\<lambda>_ _. False) ?M [7, 9] 1" unfolding qualifies_def by simp
  from retrieve_ok [OF st fuel score_sort_ok, of "\<lambda>_ _. False" 10 "[7, 9]"] obtain docs where
    "retrieve 2 (\<lambda>_ _. False) score_sort 10 st [7, 9] =
       Some \<lparr>r_code = STATE_OK, num_results = min 10 (length docs), results = take 10 docs\<rparr>"
    "set docs = doc_entry st ?M [7, 9] ` {d. qualifies (\<lambda>_ _. False) ?M [7, 9] d}" by blast
  with q show ?thesis by (intro exI [of _ st]) auto
qed

lemma GetProfile_sample: "GetProfile (\<lambda>_. Some sample_page) sample_db k = Some sample_page"
  by (simp add: GetProfile_def LocalDict_Get_def sample_db_def)

lemma sample_query:
  "\<exists>ix. query (sample_engine ix) sample_request = Some \<lparr>response_code' = RRC_OK, rsp_results = [1]\<rparr>"
proof -
  obtain ix :: "unit InstantIndex" and r where
    r: "retrieve 2 (\<lambda>_ _. False) score_sort 10 ix [7, 9] = Some r" "r_code r = STATE_OK" "results r \<noteq> []"
    using sample_index by blast
  then obtain e es where e: "results r = e # es" by (cases "results r") auto
  have c: "candidates_loop [] (GetProfile (\<lambda>_. Some sample_page) sample_db) (results r) {} [] = [sample_page]"
  proof -
    have "fresh_stories [] (GetProfile (\<lambda>_. Some sample_page) sample_db) (results r) = replicate (length (results r)) sample_page"
      by (simp add: fresh_stories_def List.map_filter_def GetProfile_sample comp_def map_replicate_const)
    moreover have "dedup {77} (replicate n sample_page) = []" for n by (induction n) (simp_all add: sample_page_def)
    ultimately show ?thesis unfolding candidates_dedup by (simp add: e) (simp add: sample_page_def)
  qed
  have k: "request_keys empty_profile sample_page = [7, 9]"
    by (simp add: request_keys_def empty_profile_def sample_page_def)
  have p: "Select_string (\<lambda>_. 1) (manager (sample_engine ix)) u = Some (Some (\<lambda>u p cs. (1, [length cs])))" for u
    by (simp add: Select_string_def Select_def sample_engine_def buf_def Let_def)
  have "query (sample_engine ix) sample_request = Some \<lparr>response_code' = RRC_OK, rsp_results = [1]\<rparr>"
    using r(1,2) c k p
    by (simp add: query_def sample_engine_def sample_request_def GetProfile_sample GetUserProfile_def empty_profile_def
        finish_ranking_def Let_def)
  then show ?thesis by blast
qed

theorem query_ranks_fresh_stories_witness:
  "\<exists>ix r rr page. query (sample_engine ix) sample_request = Some r \<and> rsp_results r = [1] \<and>
     retrieve 2 (\<lambda>_ _. False) score_sort 10 ix (request_keys empty_profile page) = Some rr"
proof -
  obtain ix where q: "query (sample_engine ix) sample_request = Some \<lparr>response_code' = RRC_OK, rsp_results = [1]\<rparr>"
    using sample_query by blast
  from query_ranks_fresh_stories [OF q] obtain page rr where
    "retrieve 2 (\<lambda>_ _. False) score_sort 10 ix (request_keys empty_profile page) = Some rr"
    by (auto simp: sample_engine_def GetUserProfile_def)
  with q show ?thesis by (intro exI [of _ ix] exI conjI) auto
qed

theorem query_never_no_doc_witness:
  "\<exists>ix r. query (sample_engine ix) sample_request = Some r \<and> response_code' r \<noteq> RRC_NO_DOC"
  using sample_query query_never_no_doc by blast

text \<open>The serialisation of a story with the encoding of numbers of the user profile's witness.\<close>

definition sample_sser :: "StoryProfile \<Rightarrow> bytes" where
  "sample_sser p = enc_list (map unat (sp_story_id p)) @ enc_list [unat (signature p)]
     @ enc_list (map (unat \<circ> fst) (sp_keywords p)) @ enc_list (map (unat \<circ> snd) (sp_keywords p))"

definition sample_sdeser :: "bytes \<Rightarrow> StoryProfile option" where
  "sample_sdeser bs =
     (case dec_list bs of (i, bs) \<Rightarrow> case dec_list bs of (g, bs) \<Rightarrow> case dec_list bs of (ks, bs) \<Rightarrow>
      case dec_list bs of (ws, bs) \<Rightarrow>
        Some \<lparr>sp_story_id = map word_of_nat i, signature = word_of_nat (hd g),
              sp_keywords = zip (map word_of_nat ks) (map word_of_nat ws)\<rparr>)"

lemma sample_story_codec: "\<forall>p. sample_sdeser (sample_sser p) = Some p"
proof -
  have "dec_list (enc_list ns) = (ns, [])" for ns using dec_enc_list [of ns "[]"] by simp
  then show ?thesis by (simp add: zip_map_fst_snd sample_sser_def sample_sdeser_def comp_def)
qed

theorem story_profile_roundtrip_witness:
  "GetProfile sample_sdeser (snd (AddProfile sample_sser sample_db 5 sample_page)) 5 = Some sample_page"
  using story_profile_roundtrip [OF sample_story_codec, of sample_db 5 sample_page "snd (AddProfile sample_sser sample_db 5 sample_page)"]
  by (simp add: AddProfile_def LocalDict_Put_def sample_db_def)

end
