(* ===== verification/PC_Queue.thy ===== *)
theory PC_Queue
  imports Main "HOL-Library.Sublist"
begin

text \<open>
  \<^verbatim>\<open>src/util/containers/producer_consumer_queue.h\<close>: the bounded queue with per-item
  timeouts between the request handlers and the index building thread. The mutex makes each
  operation atomic, so an operation is a function on the queue; a thread that blocks in
  \<^verbatim>\<open>Put\<close> or \<^verbatim>\<open>Get\<close> is an operation that is not enabled (\<open>None\<close>, or no item). The clock
  (\<^verbatim>\<open>Timer::CurrentTimeInUs\<close>) is an argument: one reading per call of it in the code.
\<close>

record 'a InnerItem =
  item' :: 'a
  timestamp' :: int
  timeout' :: int

record 'a pcq =
  capacity' :: int
  que' :: "'a InnerItem list"
  default_timeout' :: int

abbreviation TIMEOUT_NONE :: int where "TIMEOUT_NONE \<equiv> 0"
abbreviation TIMEOUT_USE_DEFAULT :: int where "TIMEOUT_USE_DEFAULT \<equiv> - 1"

text \<open>The constructor; \<open>None\<close> is the failed \<^verbatim>\<open>CHECK\<close> on the capacity.\<close>

definition ProducerConsumerQueue :: "int \<Rightarrow> int \<Rightarrow> 'a pcq option" where
  "ProducerConsumerQueue cap dt =
     (if cap > 0 \<and> cap < 2 ^ 31 - 1
      then Some \<lparr>capacity' = cap, que' = [], default_timeout' = dt\<rparr> else None)"

definition full :: "'a pcq \<Rightarrow> bool" where
  "full q \<longleftrightarrow> int (length (que' q)) \<ge> capacity' q"

definition mk_item :: "'a pcq \<Rightarrow> int \<Rightarrow> 'a \<Rightarrow> int \<Rightarrow> 'a InnerItem" where
  "mk_item q now x to =
     \<lparr>item' = x, timestamp' = now,
      timeout' = (if to = TIMEOUT_USE_DEFAULT then default_timeout' q else to)\<rparr>"

definition ForcePutInternal :: "int \<Rightarrow> 'a pcq \<Rightarrow> 'a \<Rightarrow> int \<Rightarrow> 'a pcq" where
  "ForcePutInternal now q x to =
     (let que = (if full q then tl (que' q) else que' q)
      in q\<lparr>que' := que @ [mk_item q now x to]\<rparr>)"

definition TryPutInternal :: "int \<Rightarrow> 'a pcq \<Rightarrow> 'a \<Rightarrow> int \<Rightarrow> 'a pcq \<times> bool" where
  "TryPutInternal now q x to =
     (if full q then (q, False) else (q\<lparr>que' := que' q @ [mk_item q now x to]\<rparr>, True))"

text \<open>
  \<^verbatim>\<open>TryGetInternal\<close>: drop items until one is still alive. \<open>clock i\<close> is the reading taken
  for the \<open>i\<close>-th item looked at.
\<close>

definition alive :: "int \<Rightarrow> 'a InnerItem \<Rightarrow> bool" where
  "alive now i \<longleftrightarrow> timeout' i = TIMEOUT_NONE \<or> now \<le> timestamp' i + timeout' i"

fun get_loop :: "(nat \<Rightarrow> int) \<Rightarrow> nat \<Rightarrow> 'a InnerItem list \<Rightarrow> 'a InnerItem list \<times> 'a option" where
  "get_loop clock n [] = ([], None)"
| "get_loop clock n (i # que) =
     (if alive (clock n) i then (que, Some (item' i)) else get_loop clock (Suc n) que)"

definition TryGetInternal :: "(nat \<Rightarrow> int) \<Rightarrow> 'a pcq \<Rightarrow> 'a pcq \<times> 'a option" where
  "TryGetInternal clock q =
     (case get_loop clock 0 (que' q) of (que, r) \<Rightarrow> (q\<lparr>que' := que\<rparr>, r))"

definition ForcePut :: "int \<Rightarrow> 'a pcq \<Rightarrow> 'a \<Rightarrow> int \<Rightarrow> 'a pcq \<times> bool" where
  "ForcePut now q x to = (ForcePutInternal now q x to, True)"

text \<open>\<^verbatim>\<open>Put\<close> waits while the queue is full; then its \<^verbatim>\<open>CHECK\<close> must hold.\<close>

definition Put :: "int \<Rightarrow> 'a pcq \<Rightarrow> 'a \<Rightarrow> int \<Rightarrow> 'a pcq option" where
  "Put now q x to =
     (if full q then None
      else case TryPutInternal now q x to of (q', ok) \<Rightarrow> if ok then Some q' else None)"

definition TryPut :: "int \<Rightarrow> 'a pcq \<Rightarrow> 'a \<Rightarrow> int \<Rightarrow> 'a pcq \<times> bool" where
  "TryPut now q x to = TryPutInternal now q x to"

definition TryGet :: "(nat \<Rightarrow> int) \<Rightarrow> 'a pcq \<Rightarrow> 'a pcq \<times> 'a option" where
  "TryGet clock q = TryGetInternal clock q"

definition PreciseSize :: "'a pcq \<Rightarrow> nat" where
  "PreciseSize q = length (que' q)"

section \<open>Runs of producers and consumers\<close>

text \<open>
  A run records, in order, the items accepted and what became of each item that left
  the queue. A \<^verbatim>\<open>Get\<close> that finds nothing alive drops the expired items and goes on waiting,
  which is the same transition as a \<^verbatim>\<open>TryGet\<close> that returns false.
\<close>

datatype fate = Delivered int | TimedOut | Evicted

record 'a run =
  rq :: "'a pcq"
  accepted :: "'a InnerItem list"
  left :: "('a InnerItem \<times> fate) list"

fun get_fates :: "(nat \<Rightarrow> int) \<Rightarrow> nat \<Rightarrow> 'a InnerItem list \<Rightarrow> ('a InnerItem \<times> fate) list" where
  "get_fates clock n [] = []"
| "get_fates clock n (i # que) =
     (if alive (clock n) i then [(i, Delivered (clock n))] else (i, TimedOut) # get_fates clock (Suc n) que)"

inductive pstep :: "'a run \<Rightarrow> 'a run \<Rightarrow> bool" where
  put: "Put now (rq r) x to = Some q \<Longrightarrow>
    pstep r (r\<lparr>rq := q, accepted := accepted r @ [mk_item (rq r) now x to]\<rparr>)"
| tryput: "TryPut now (rq r) x to = (q, ok) \<Longrightarrow>
    pstep r (r\<lparr>rq := q, accepted := accepted r @ (if ok then [mk_item (rq r) now x to] else [])\<rparr>)"
| forceput: "ForcePut now (rq r) x to = (q, ok) \<Longrightarrow>
    pstep r (r\<lparr>rq := q, accepted := accepted r @ [mk_item (rq r) now x to],
      left := left r @ (if full (rq r) then [(hd (que' (rq r)), Evicted)] else [])\<rparr>)"
| get: "TryGet clock (rq r) = (q, x) \<Longrightarrow>
    pstep r (r\<lparr>rq := q, left := left r @ get_fates clock 0 (que' (rq r))\<rparr>)"

inductive_cases pstepE: "pstep r r'"

definition run_ok :: "int \<Rightarrow> 'a run \<Rightarrow> bool" where
  "run_ok cap r \<longleftrightarrow> capacity' (rq r) = cap \<and> int (length (que' (rq r))) \<le> cap \<and>
     map fst (left r) @ que' (rq r) = accepted r \<and>
     (\<forall>(i, f) \<in> set (left r). \<forall>t. f = Delivered t \<longrightarrow> alive t i)"

lemma get_loop_fates:
  "map fst (get_fates clock n que) @ fst (get_loop clock n que) = que"
  "length (fst (get_loop clock n que)) \<le> length que"
  "\<forall>(i, f) \<in> set (get_fates clock n que). \<forall>t. f = Delivered t \<longrightarrow> alive t i"
  by (induction clock n que rule: get_loop.induct) auto

lemma pstep_run_ok:
  assumes "pstep r r'" "run_ok cap r" "0 < cap"
  shows "run_ok cap r'"
  using assms(1)
proof cases
  case (put now x to q)
  then show ?thesis using assms(2)
    by (auto simp: run_ok_def Put_def TryPutInternal_def full_def split: if_splits)
next
  case (tryput now x to q ok)
  then show ?thesis using assms(2)
    by (auto simp: run_ok_def TryPut_def TryPutInternal_def full_def split: if_splits)
next
  case (forceput now x to q ok)
  have "full (rq r) \<Longrightarrow> que' (rq r) \<noteq> []" using assms(2,3) by (auto simp: full_def run_ok_def)
  then show ?thesis using forceput assms(2)
    by (auto simp: run_ok_def ForcePut_def ForcePutInternal_def Let_def full_def neq_Nil_conv split: if_splits)
next
  case (get clock q x)
  then have q: "q = (rq r)\<lparr>que' := fst (get_loop clock 0 (que' (rq r)))\<rparr>"
    by (auto simp: TryGet_def TryGetInternal_def split: prod.splits)
  show ?thesis using get(1) assms(2) get_loop_fates [of clock 0 "que' (rq r)"]
    by (auto simp: run_ok_def q)
qed

definition delivered_items :: "'a run \<Rightarrow> 'a InnerItem list" where
  "delivered_items r = map fst (filter (\<lambda>(i, f). \<exists>t. f = Delivered t) (left r))"

lemma rtranclp_run_ok: "pstep\<^sup>*\<^sup>* r r' \<Longrightarrow> run_ok cap r \<Longrightarrow> 0 < cap \<Longrightarrow> run_ok cap r'"
  by (induction rule: rtranclp_induct) (auto intro: pstep_run_ok)



end
