(* ===== verification/Replay_Log.thy ===== *)
theory Replay_Log
  imports Prelude
begin

text \<open>
  The replay log of the instant index: \<^verbatim>\<open>src/indexing/replay_log_writer_thread.cc\<close> writes every story to a file
  named after a time interval, \<^verbatim>\<open>InstantIndex::Replay\<close> reads the files back at start-up, and
  \<^verbatim>\<open>CleanOldStoryThread::CleanReplayLog\<close> removes the files that ended too long ago; with
  \<^verbatim>\<open>SplitString\<close> of \<^verbatim>\<open>src/util/string/str_util.cc\<close>. The directory is a map from paths to contents.
  Thrift's serialisation and the text of a local time are parameters. An \<^verbatim>\<open>ifstream\<close> is the bytes
  that are left and its end-of-file flag, which is set by a read that asks for more than is left.
\<close>

section \<open>Splitting a string\<close>

definition find_pos :: "byte \<Rightarrow> bytes \<Rightarrow> nat \<Rightarrow> nat" where
  "find_pos del str last_pos = last_pos + length (takeWhile (\<lambda>c. c \<noteq> del) (drop last_pos str))"

lemma find_pos_ge: "last_pos \<le> find_pos del str last_pos"
  by (simp add: find_pos_def)

function split_from :: "bytes \<Rightarrow> byte \<Rightarrow> nat \<Rightarrow> bytes list \<Rightarrow> bytes list" where
  "split_from str del last_pos segs =
     (let end_pos = find_pos del str last_pos;
          seg = take (end_pos - last_pos) (drop last_pos str);
          segs = (if seg \<noteq> [] then segs @ [seg] else segs);
          last_pos = end_pos + 1
      in if last_pos < length str then split_from str del last_pos segs else segs)"
  by pat_completeness auto
termination
  by (relation "measure (\<lambda>(str, del, last_pos, segs). length str - last_pos)")
    (auto simp: Let_def, (metis diff_less_mono2 find_pos_ge le_less_trans lessI less_Suc_eq_le order.strict_trans2 Suc_lessD)+)

declare split_from.simps [simp del]

definition SplitString :: "bytes \<Rightarrow> byte \<Rightarrow> bytes list" where
  "SplitString str del = (if str = [] then [] else split_from str del 0 [])"

text \<open>The fields between separators, the empty ones included.\<close>

fun pieces :: "byte \<Rightarrow> bytes \<Rightarrow> bytes list" where
  "pieces del [] = [[]]"
| "pieces del (c # str) =
     (if c = del then [] # pieces del str else (c # hd (pieces del str)) # tl (pieces del str))"

lemma pieces_takeWhile:
  "pieces del str = (case dropWhile (\<lambda>c. c \<noteq> del) str of
     [] \<Rightarrow> [str] | _ # rest \<Rightarrow> takeWhile (\<lambda>c. c \<noteq> del) str # pieces del rest)"
proof (induction str)
  case (Cons c str)
  then show ?case by (cases "dropWhile (\<lambda>c. c \<noteq> del) str") (simp_all del: dropWhile_eq_Nil_conv)
qed simp

lemma split_from_pieces:
  "last_pos \<le> length str \<Longrightarrow> split_from str del last_pos segs = segs @ filter (\<lambda>s. s \<noteq> []) (pieces del (drop last_pos str))"
proof (induction str del last_pos segs rule: split_from.induct)
  case (1 str del last_pos segs)
  let ?r = "drop last_pos str" and ?t = "takeWhile (\<lambda>c. c \<noteq> del) (drop last_pos str)"
  let ?e = "find_pos del str last_pos"
  have e: "take (?e - last_pos) ?r = ?t" by (simp add: find_pos_def takeWhile_eq_take [symmetric])
  have d: "dropWhile (\<lambda>c. c \<noteq> del) ?r = drop ?e str" by (simp add: find_pos_def dropWhile_eq_drop add.commute)
  have le: "?e \<le> length str" using length_takeWhile_le [of "\<lambda>c. c \<noteq> del" ?r] 1(2) by (simp add: find_pos_def)
  have f: "pieces del ?r = (if ?e = length str then [?r] else ?t # pieces del (drop (?e + 1) str))"
  proof (cases "?e < length str")
    case True
    then have "drop ?e str = str ! ?e # drop (?e + 1) str" by (simp add: Cons_nth_drop_Suc)
    then show ?thesis using True d by (subst pieces_takeWhile) simp
  next
    case False
    then show ?thesis using le d by (subst pieces_takeWhile) (simp del: dropWhile_eq_Nil_conv)
  qed
  have t: "?e = length str \<Longrightarrow> ?t = ?r" using e by (simp add: find_pos_def)
  show ?case
  proof (cases "?e + 1 < length str")
    case True
    then show ?thesis using 1 e f by (subst split_from.simps) (simp add: Let_def)
  next
    case False
    then have "pieces del (drop (?e + 1) str) = [[]]" by simp
    then show ?thesis using False e f t le by (subst split_from.simps) (auto simp: Let_def)
  qed
qed

text \<open>Splitting yields the nonempty fields between separators, in their order.\<close>

theorem SplitString_pieces:
  "SplitString str del = filter (\<lambda>s. s \<noteq> []) (pieces del str)"
  by (simp add: SplitString_def split_from_pieces)

section \<open>Writing\<close>

definition STR_BUF_SIZE :: nat where "STR_BUF_SIZE = 1024"

text \<open>\<^verbatim>\<open>StringAppendF\<close> formats into a buffer of fixed size; what does not fit is cut off.\<close>

definition StringAppendF :: "bytes \<Rightarrow> bytes \<Rightarrow> bytes \<times> bool" where
  "StringAppendF dst formatted = (dst @ take (STR_BUF_SIZE - 1) formatted, length formatted < STR_BUF_SIZE)"

record writer =
  time_begin :: "32 word"
  time_end :: "32 word"

type_synonym files = "bytes \<rightharpoonup> bytes"

definition newReplayLogWriterThread :: "32 word \<Rightarrow> 32 word \<Rightarrow> writer" where
  "newReplayLogWriterThread clean_interval now = \<lparr>time_begin = now, time_end = now + clean_interval\<rparr>"

definition log_name :: "(32 word \<Rightarrow> bytes) \<Rightarrow> bytes \<Rightarrow> 32 word \<Rightarrow> 32 word \<Rightarrow> bytes" where
  "log_name time_str dir b e =
     fst (StringAppendF [] (dir @ [chr CHR ''/''] @ time_str b @ [chr CHR ''_''] @ time_str e @ map chr ''_replay.log''))"

definition log_record :: "('r \<Rightarrow> bytes) \<Rightarrow> 32 word \<Rightarrow> 'r \<Rightarrow> bytes" where
  "log_record ser now req = le_bytes 4 (unat now) @ le_bytes 8 (length (ser req)) @ ser req"

definition Write ::
    "('r \<Rightarrow> bytes) \<Rightarrow> (32 word \<Rightarrow> bytes) \<Rightarrow> bytes \<Rightarrow> 32 word \<Rightarrow> 32 word \<Rightarrow> writer \<Rightarrow> files \<Rightarrow> 'r \<Rightarrow> writer \<times> files" where
  "Write ser time_str dir clean_interval now w fs req =
     (let w = (if now > time_end w then w\<lparr>time_begin := now, time_end := now + clean_interval\<rparr> else w);
          file_name = log_name time_str dir (time_begin w) (time_end w);
          old = (case fs file_name of None \<Rightarrow> [] | Some bs \<Rightarrow> bs)
      in (w, fs(file_name \<mapsto> old @ log_record ser now req)))"

section \<open>Reading back\<close>

record istream =
  rest :: bytes
  eof :: bool

text \<open>\<^verbatim>\<open>in.read(p, n)\<close> overwrites a prefix of the variable; nothing is read once the flag is set.\<close>

definition is_read :: "istream \<Rightarrow> nat \<Rightarrow> bytes \<Rightarrow> istream \<times> bytes" where
  "is_read inp n var =
     (if eof inp then (inp, var)
      else if n \<le> length (rest inp) then (inp\<lparr>rest := drop n (rest inp)\<rparr>, take n (rest inp) @ drop n var)
      else (\<lparr>rest = [], eof = True\<rparr>, rest inp @ drop (length (rest inp)) var))"

text \<open>
  The loop over one file. \<open>obj\<close> is the object representation of \<^verbatim>\<open>obj_size\<close>, \<open>stack k n\<close> the \<open>n\<close> bytes the
  buffer of round \<open>k\<close> happens to contain before anything is read into it.
\<close>

function replay_loop :: "(bytes \<Rightarrow> 'r option) \<Rightarrow> (nat \<Rightarrow> nat \<Rightarrow> bytes) \<Rightarrow> nat \<Rightarrow> istream \<Rightarrow> bytes \<Rightarrow> 'r list" where
  "replay_loop deser stack k inp obj =
     (if eof inp then []
      else
        (case is_read inp 4 (replicate 4 0) of (inp1, _) \<Rightarrow>
         case is_read inp1 8 obj of (inp2, obj) \<Rightarrow>
         case is_read inp2 (le_nat obj) (stack k (le_nat obj)) of (inp3, buf) \<Rightarrow>
           (case deser (take (le_nat obj) buf) of
              None \<Rightarrow> replay_loop deser stack (Suc k) inp3 obj
            | Some req \<Rightarrow> req # replay_loop deser stack (Suc k) inp3 obj)))"
  by pat_completeness auto
termination
proof (relation "measure (\<lambda>(deser, stack, k, inp, obj). if eof inp then 0 else Suc (length (rest inp)))", goal_cases)
  case 1
  show ?case by simp
qed (auto simp: is_read_def split: if_splits)

declare replay_loop.simps [simp del]

definition Replay :: "(bytes \<Rightarrow> 'r option) \<Rightarrow> (nat \<Rightarrow> nat \<Rightarrow> bytes) \<Rightarrow> bytes \<Rightarrow> bytes \<Rightarrow> 'r list" where
  "Replay deser stack obj content = replay_loop deser stack 0 \<lparr>rest = content, eof = False\<rparr> obj"

section \<open>Removing old files\<close>

text \<open>The comparison of \<^verbatim>\<open>std::string\<close>.\<close>

fun str_less :: "bytes \<Rightarrow> bytes \<Rightarrow> bool" where
  "str_less _ [] = False"
| "str_less [] (y # ys) = True"
| "str_less (x # xs) (y # ys) = (x < y \<or> x = y \<and> str_less xs ys)"

definition to_remove :: "(32 word \<Rightarrow> bytes) \<Rightarrow> 32 word \<Rightarrow> bytes \<Rightarrow> bool" where
  "to_remove time_str check_point path =
     (let segs = SplitString path (chr CHR ''/''); fname = last segs; segs = SplitString fname (chr CHR ''_'')
      in length segs \<ge> 2 \<and> str_less (segs ! 1) (time_str check_point))"

definition CleanReplayLog :: "(32 word \<Rightarrow> bytes) \<Rightarrow> 32 word \<Rightarrow> 32 word \<Rightarrow> files \<Rightarrow> files" where
  "CleanReplayLog time_str doc_life_time now fs =
     (let check_point = now - doc_life_time
      in (\<lambda>path. if to_remove time_str check_point path then None else fs path))"

section \<open>What was written is read back\<close>

definition thrift_req_ok :: "('r \<Rightarrow> bytes) \<Rightarrow> (bytes \<Rightarrow> 'r option) \<Rightarrow> bool" where
  "thrift_req_ok ser deser \<longleftrightarrow> (\<forall>r. deser (ser r) = Some r \<and> length (ser r) < 256 ^ 8)"

definition log_content :: "('r \<Rightarrow> bytes) \<Rightarrow> (32 word \<times> 'r) list \<Rightarrow> bytes" where
  "log_content ser es = concat (map (\<lambda>(now, r). log_record ser now r) es)"

text \<open>The round after the last record, which reads nothing and looks at the stack.\<close>

definition extra_round :: "(bytes \<Rightarrow> 'r option) \<Rightarrow> (nat \<Rightarrow> nat \<Rightarrow> bytes) \<Rightarrow> nat \<Rightarrow> nat \<Rightarrow> 'r list" where
  "extra_round deser stack k n = (case deser (take n (stack k n)) of None \<Rightarrow> [] | Some r \<Rightarrow> [r])"

lemma replay_loop_records:
  assumes ok: "thrift_req_ok ser deser"
  shows "length obj = 8 \<Longrightarrow> replay_loop deser stack k \<lparr>rest = log_content ser es, eof = False\<rparr> obj =
    map snd es @ extra_round deser stack (k + length es) (if es = [] then le_nat obj else length (ser (snd (last es))))"
proof (induction es arbitrary: k obj)
  case Nil
  have e: "replay_loop deser stack (Suc k) \<lparr>rest = [], eof = True\<rparr> obj = []" by (subst replay_loop.simps) simp
  show ?case by (subst replay_loop.simps) (simp add: log_content_def is_read_def extra_round_def e split: option.split)
next
  case (Cons p es)
  obtain now r where p: "p = (now, r)" by force
  have len: "length (ser r) < 256 ^ 8" "deser (ser r) = Some r" using ok by (auto simp: thrift_req_ok_def)
  let ?obj = "le_bytes 8 (length (ser r))"
  have n: "le_nat ?obj = length (ser r)" using len(1) by (simp add: le_simps)
  have c: "log_content ser (p # es) = le_bytes 4 (unat now) @ ?obj @ ser r @ log_content ser es"
    by (simp add: log_content_def log_record_def p)
  have "replay_loop deser stack k \<lparr>rest = log_content ser (p # es), eof = False\<rparr> obj =
      r # replay_loop deser stack (Suc k) \<lparr>rest = log_content ser es, eof = False\<rparr> ?obj"
    using Cons.prems len n by (subst replay_loop.simps) (simp add: c is_read_def)
  also have "\<dots> = r # map snd es @ extra_round deser stack (Suc k + length es) (if es = [] then length (ser r) else length (ser (snd (last es))))"
    using Cons.IH [of ?obj "Suc k"] n by simp
  finally show ?case by (simp add: p)
qed

lemma Replay_records:
  assumes "thrift_req_ok ser deser" "length obj = 8"
  shows "Replay deser stack obj (log_content ser es) =
    map snd es @ extra_round deser stack (length es) (if es = [] then le_nat obj else length (ser (snd (last es))))"
  using replay_loop_records [OF assms(1), of obj stack 0 es] assms(2) by (simp add: Replay_def)

text \<open>Reading a log back restores its stories in their order, but the loop runs once more than there are
  records: when the stack still holds the bytes of the last record, the last story is restored twice.\<close>

theorem replay_duplicates_last:
  assumes "thrift_req_ok ser deser" "length obj = 8" "stack (length es + 1) (length (ser r)) = ser r"
  shows "Replay deser stack obj (log_content ser (es @ [(now, r)])) = map snd es @ [r, r]"
  using Replay_records [OF assms(1,2), of stack "es @ [(now, r)]"] assms(1,3) by (simp add: extra_round_def thrift_req_ok_def)

section \<open>Stories within their life time survive\<close>

definition time_ok :: "(32 word \<Rightarrow> bytes) \<Rightarrow> bool" where
  "time_ok time_str \<longleftrightarrow>
     (\<forall>t. time_str t \<noteq> [] \<and> chr CHR ''/'' \<notin> set (time_str t) \<and> chr CHR ''_'' \<notin> set (time_str t) \<and> length (time_str t) \<le> 14) \<and>
     (\<forall>t u. t \<le> u \<longrightarrow> \<not> str_less (time_str u) (time_str t))"

lemma pieces_append: "pieces del (xs @ del # ys) = pieces del xs @ pieces del ys"
proof (induction xs)
  case (Cons x xs)
  have "pieces del xs \<noteq> []" by (cases xs) auto
  then show ?case using Cons by (auto simp: hd_append)
qed simp

lemma pieces_single: "del \<notin> set xs \<Longrightarrow> pieces del xs = [xs]"
  by (induction xs) auto

lemma log_name_eq:
  assumes "time_ok time_str" "length dir < 900"
  shows "log_name time_str dir b e = dir @ chr CHR ''/'' # time_str b @ chr CHR ''_'' # time_str e @ chr CHR ''_'' # map chr ''replay.log''"
proof -
  have "length (time_str b) \<le> 14" "length (time_str e) \<le> 14" using assms(1) by (simp_all add: time_ok_def)
  then show ?thesis using assms(2) by (simp add: log_name_def StringAppendF_def STR_BUF_SIZE_def)
qed

lemma to_remove_log:
  assumes "time_ok time_str" "length dir < 900"
  shows "to_remove time_str cp (log_name time_str dir b e) = str_less (time_str e) (time_str cp)"
proof -
  let ?n = "time_str b @ chr CHR ''_'' # time_str e @ chr CHR ''_'' # map chr ''replay.log''"
  have b: "time_str b \<noteq> []" "chr CHR ''/'' \<notin> set (time_str b)" "chr CHR ''_'' \<notin> set (time_str b)"
    and e: "time_str e \<noteq> []" "chr CHR ''/'' \<notin> set (time_str e)" "chr CHR ''_'' \<notin> set (time_str e)"
    using assms(1) unfolding time_ok_def by blast+
  have "pieces (chr CHR ''/'') ?n = [?n]" using b e by (intro pieces_single) auto
  then have "last (SplitString (log_name time_str dir b e) (chr CHR ''/'')) = ?n"
    using log_name_eq [OF assms] by (simp add: SplitString_def split_from_pieces pieces_append)
  moreover have "pieces (chr CHR ''_'') (map chr ''replay.log'') = [map chr ''replay.log'']" by (rule pieces_single) simp
  then have "SplitString ?n (chr CHR ''_'') = [time_str b, time_str e, map chr ''replay.log'']"
    using b e by (simp add: SplitString_def split_from_pieces pieces_append pieces_single)
  ultimately show ?thesis by (simp add: to_remove_def Let_def)
qed

fun write_all ::
    "('r \<Rightarrow> bytes) \<Rightarrow> (32 word \<Rightarrow> bytes) \<Rightarrow> bytes \<Rightarrow> 32 word \<Rightarrow> (32 word \<times> 'r) list \<Rightarrow> writer \<Rightarrow> files \<Rightarrow> writer \<times> files" where
  "write_all ser time_str dir iv [] w fs = (w, fs)"
| "write_all ser time_str dir iv ((now, r) # es) w fs =
     (case Write ser time_str dir iv now w fs r of (w, fs) \<Rightarrow> write_all ser time_str dir iv es w fs)"

text \<open>The files as a function of the history of writes, each with the path it went to.\<close>

definition entries_of :: "(bytes \<times> 32 word \<times> 'r) list \<Rightarrow> bytes \<Rightarrow> (32 word \<times> 'r) list" where
  "entries_of H p = map snd (filter (\<lambda>x. fst x = p) H)"

definition files_of :: "('r \<Rightarrow> bytes) \<Rightarrow> (bytes \<times> 32 word \<times> 'r) list \<Rightarrow> files" where
  "files_of ser H p = (if entries_of H p = [] then None else Some (log_content ser (entries_of H p)))"

lemma files_of_snoc:
  "(files_of ser H)(p \<mapsto> (case files_of ser H p of None \<Rightarrow> [] | Some bs \<Rightarrow> bs) @ log_record ser now r) = files_of ser (H @ [(p, now, r)])"
  by (rule ext) (auto simp: files_of_def entries_of_def log_content_def)

lemma write_all_history:
  "\<forall>(now, r) \<in> set es. unat now + unat iv < 2 ^ 32 \<Longrightarrow>
   \<exists>w' H'. write_all ser time_str dir iv es w (files_of ser H) = (w', files_of ser (H @ H')) \<and> map snd H' = es \<and>
     (\<forall>(p, now, r) \<in> set H'. \<exists>b e. p = log_name time_str dir b e \<and> now \<le> e)"
proof (induction es arbitrary: w H)
  case Nil
  then show ?case by simp
next
  case (Cons x es)
  obtain now r where x: "x = (now, r)" by force
  define w1 where "w1 = (if now > time_end w then w\<lparr>time_begin := now, time_end := now + iv\<rparr> else w)"
  let ?p = "log_name time_str dir (time_begin w1) (time_end w1)"
  have "unat (now + iv) = unat now + unat iv" using Cons.prems x by (subst unat_add_lem [symmetric]) auto
  then have "now \<le> now + iv" by (simp add: word_le_nat_alt)
  then have le: "now \<le> time_end w1" by (simp add: w1_def not_less)
  have wr: "Write ser time_str dir iv now w (files_of ser H) r = (w1, files_of ser (H @ [(?p, now, r)]))"
    by (simp add: Write_def w1_def [symmetric] files_of_snoc [symmetric] Let_def)
  from Cons.IH [of w1 "H @ [(?p, now, r)]"] Cons.prems obtain w' H' where
    h: "write_all ser time_str dir iv es w1 (files_of ser (H @ [(?p, now, r)])) = (w', files_of ser ((H @ [(?p, now, r)]) @ H'))"
      "map snd H' = es" "\<forall>(p, now, r) \<in> set H'. \<exists>b e. p = log_name time_str dir b e \<and> now \<le> e" by auto
  show ?case using h wr le x by (intro exI [of _ w'] exI [of _ "(?p, now, r) # H'"]) auto
qed


section \<open>Witnesses\<close>

text \<open>Texts of a time that count in steps of 1000 seconds up to nine, and a serialisation of bytes as one byte each.\<close>

definition sample_time :: "32 word \<Rightarrow> bytes" where
  "sample_time t = [of_nat (48 + min 9 (unat t div 1000))]"

lemma sample_time_ok: "time_ok sample_time"
proof -
  have u: "unat (of_nat (48 + min 9 (unat t div 1000)) :: byte) = 48 + min 9 (unat t div 1000)" for t :: "32 word"
    by (simp add: unat_of_nat del: of_nat_add)
  have "\<not> (of_nat (48 + min 9 (unat u div 1000)) :: byte) < of_nat (48 + min 9 (unat t div 1000))" if "t \<le> u" for t u :: "32 word"
    using that div_le_mono [of "unat t" "unat u" 1000] unfolding word_less_nat_alt u by (simp add: word_le_nat_alt min_def)
  moreover have "(of_nat (48 + min 9 (unat t div 1000)) :: byte) \<noteq> chr CHR ''/''"
    "(of_nat (48 + min 9 (unat t div 1000)) :: byte) \<noteq> chr CHR ''_''" for t :: "32 word"
    unfolding word_unat_eq_iff u by simp_all
  ultimately show ?thesis by (auto simp: time_ok_def sample_time_def)
qed

definition sample_rser :: "byte \<Rightarrow> bytes" where "sample_rser b = [b]"
definition sample_rdeser :: "bytes \<Rightarrow> byte option" where "sample_rdeser bs = (case bs of [b] \<Rightarrow> Some b | _ \<Rightarrow> None)"

lemma sample_rser_ok: "thrift_req_ok sample_rser sample_rdeser"
  by (simp add: thrift_req_ok_def sample_rser_def sample_rdeser_def)

theorem replay_duplicates_last_witness:
  "Replay sample_rdeser (\<lambda>k n. replicate n 7) (replicate 8 0) (log_content sample_rser [(100, 5), (101, 7)]) = [5, 7, 7]"
  using replay_duplicates_last [OF sample_rser_ok, of "replicate 8 0" "\<lambda>k n. replicate n 7" "[(100, 5)]" 7 101]
  by (simp add: sample_rser_def)


end
