(* ===== verification/Story_Management.thy ===== *)
theory Story_Management
  imports Recomm_Handler PC_Queue Replay_Log
begin

text \<open>
  \<^verbatim>\<open>src/story_management_handler.cc\<close> with \<^verbatim>\<open>InstantIndex::AddStory\<close>: a new story is put into the pool of the
  index building thread and into the pool of the replay log, and its profile into the forward index. The threads
  take from their pools: \<^verbatim>\<open>IndexBuildThread::Run\<close> and \<^verbatim>\<open>ReplayLogWriterThread::Run\<close>, one
  round each. CityHash64, the allocation of nodes and the clocks are arguments as in the theories they come from.
\<close>

datatype sm_status = SMS_OK | SMS_ERROR

record 'w service =
  doc_pool :: "StoryProfile pcq"
  log_pool :: "StoryProfile pcq"
  inverted :: "'w InstantIndex"
  forward :: leveldb
  log_writer :: writer
  log_files :: files

text \<open>The fields of the story the index looks at.\<close>

definition story_of :: "StoryProfile \<Rightarrow> story" where
  "story_of p = \<lparr>story_id = sp_story_id p, story_keywords = map (\<lambda>(k, w). (sint k, sint w)) (sp_keywords p)\<rparr>"

definition IndexBuildThread_AddStory :: "int \<Rightarrow> 'w service \<Rightarrow> StoryProfile \<Rightarrow> 'w service \<times> bool" where
  "IndexBuildThread_AddStory now s p =
     (case TryPut now (doc_pool s) p TIMEOUT_USE_DEFAULT of (q, ok) \<Rightarrow> (s\<lparr>doc_pool := q\<rparr>, ok))"

definition BackupStory :: "int \<Rightarrow> 'w service \<Rightarrow> StoryProfile \<Rightarrow> 'w service \<times> bool" where
  "BackupStory now s p =
     (case TryPut now (log_pool s) p TIMEOUT_USE_DEFAULT of (q, ok) \<Rightarrow> (s\<lparr>log_pool := q\<rparr>, ok))"

definition AddStory :: "int \<Rightarrow> 'w service \<Rightarrow> StoryProfile \<Rightarrow> 'w service \<times> bool" where
  "AddStory now s p =
     (case IndexBuildThread_AddStory now s p of (s, ret) \<Rightarrow>
        (case BackupStory now s p of (s, _) \<Rightarrow> (s, ret)))"

definition add_story ::
    "(bytes \<Rightarrow> 64 word) \<Rightarrow> (StoryProfile \<Rightarrow> bytes) \<Rightarrow> int \<Rightarrow> 'w service \<Rightarrow> StoryProfile \<Rightarrow> sm_status \<times> 'w service" where
  "add_story city sser now s p =
     (case AddStory now s p of (s, ok) \<Rightarrow>
        if \<not> ok then (SMS_ERROR, s)
        else
          (case AddProfile sser (forward s) (city (sp_story_id p)) p of (ok, db) \<Rightarrow>
             let s = s\<lparr>forward := db\<rparr>; status = (if \<not> ok then SMS_ERROR else SMS_OK); status = SMS_OK
             in (status, s)))"

section \<open>The threads\<close>

text \<open>One round of the index building thread; \<open>None\<close> when it has to wait or an assertion fails.\<close>

definition build_round ::
    "('w Posting lheap \<Rightarrow> addr) \<Rightarrow> 'w Posting \<Rightarrow> (bytes \<Rightarrow> 64 word) \<Rightarrow> (int \<Rightarrow> 'w) \<Rightarrow> (nat \<Rightarrow> int) \<Rightarrow> 'w service \<Rightarrow> 'w service option" where
  "build_round new dflt city to_float clock s =
     (case TryGetInternal clock (doc_pool s) of
        (q, None) \<Rightarrow> None
      | (q, Some p) \<Rightarrow>
          do { ix \<leftarrow> AddStoryInternal new dflt city to_float clock (inverted s) (story_of p);
               Some (s\<lparr>doc_pool := q, inverted := ix\<rparr>) })"

definition log_round ::
    "(StoryProfile \<Rightarrow> bytes) \<Rightarrow> (32 word \<Rightarrow> bytes) \<Rightarrow> bytes \<Rightarrow> 32 word \<Rightarrow> (nat \<Rightarrow> int) \<Rightarrow> 32 word \<Rightarrow> 'w service \<Rightarrow> 'w service option" where
  "log_round ser time_str dir iv clock now s =
     (case TryGetInternal clock (log_pool s) of
        (q, None) \<Rightarrow> None
      | (q, Some p) \<Rightarrow>
          (case Write ser time_str dir iv now (log_writer s) (log_files s) p of (w, fs) \<Rightarrow>
             Some (s\<lparr>log_pool := q, log_writer := w, log_files := fs\<rparr>)))"

fun build_rounds ::
    "('w Posting lheap \<Rightarrow> addr) \<Rightarrow> 'w Posting \<Rightarrow> (bytes \<Rightarrow> 64 word) \<Rightarrow> (int \<Rightarrow> 'w) \<Rightarrow> (nat \<Rightarrow> nat \<Rightarrow> int) \<Rightarrow> nat \<Rightarrow> 'w service \<Rightarrow> 'w service option" where
  "build_rounds new dflt city to_float clocks 0 s = Some s"
| "build_rounds new dflt city to_float clocks (Suc n) s =
     do { s \<leftarrow> build_round new dflt city to_float (clocks n) s; build_rounds new dflt city to_float clocks n s }"

text \<open>The pools of the service are created without a time-out.\<close>

definition pools_ok :: "'w service \<Rightarrow> bool" where
  "pools_ok s \<longleftrightarrow> default_timeout' (doc_pool s) = TIMEOUT_NONE \<and> (\<forall>i \<in> set (que' (doc_pool s)). timeout' i = TIMEOUT_NONE)"

text \<open>What can be found of a story in the index under the number of a document.\<close>

definition found :: "(bytes \<Rightarrow> 64 word) \<Rightarrow> (int \<Rightarrow> 'w) \<Rightarrow> 'w InstantIndex \<Rightarrow> StoryProfile \<Rightarrow> 32 word \<Rightarrow> bool" where
  "found city to_float ix p d \<longleftrightarrow> TranslateToGlobalID ix d = Some (city (sp_story_id p)) \<and>
     (\<forall>(k, w) \<in> set (sp_keywords p). \<exists>pl it ps t. GetPostingList ix (sint k) = Some (pl, it) \<and>
        collect (length ps + 1) pl it = Some ps \<and> \<lparr>local_docid = d, weight = to_float (sint w), timestamp = t\<rparr> \<in> set ps)"

lemma build_round_ok:
  assumes "new_ok new" "ix_rep (index' (inverted s)) M" "pools_ok s" "que' (doc_pool s) = i # is"
  shows "\<exists>s' M'. build_round new dflt city to_float clock s = Some s' \<and> ix_rep (index' (inverted s')) M' \<and> pools_ok s' \<and>
    que' (doc_pool s') = is \<and> forward s' = forward s \<and> (\<exists>d. found city to_float (inverted s') (item' i) d)"
proof -
  have g: "TryGetInternal clock (doc_pool s) = ((doc_pool s)\<lparr>que' := is\<rparr>, Some (item' i))"
    using assms(3,4) by (simp add: TryGetInternal_def pools_ok_def alive_def)
  from AddStory_found [OF assms(1,2), of dflt city to_float clock "story_of (item' i)"] obtain ix M' where
    ix: "AddStoryInternal new dflt city to_float clock (inverted s) (story_of (item' i)) = Some ix" "ix_rep (index' ix) M'"
      "TranslateToGlobalID ix (local_docid_counter' (inverted s)) = Some (city (sp_story_id (item' i)))"
      "\<forall>(t, w) \<in> set (story_keywords (story_of (item' i))). \<exists>pl it ps j. GetPostingList ix t = Some (pl, it) \<and>
        collect (length ps + 1) pl it = Some ps \<and>
        \<lparr>local_docid = local_docid_counter' (inverted s), weight = to_float w, timestamp = clock j\<rparr> \<in> set ps"
    by (auto simp: story_of_def)
  have "found city to_float ix (item' i) (local_docid_counter' (inverted s))"
    using ix(3,4) by (fastforce simp: found_def story_of_def)
  then show ?thesis using g ix(1,2) assms(3,4) by (auto simp: build_round_def pools_ok_def)
qed

lemma build_rounds_ok:
  "new_ok new \<Longrightarrow> ix_rep (index' (inverted s)) M \<Longrightarrow> pools_ok s \<Longrightarrow> que' (doc_pool s) = is @ [i] \<Longrightarrow>
   \<exists>s'. build_rounds new dflt city to_float clocks (Suc (length is)) s = Some s' \<and> forward s' = forward s \<and>
     que' (doc_pool s') = [] \<and> (\<exists>d. found city to_float (inverted s') (item' i) d)"
proof (induction "is" arbitrary: s M)
  case Nil
  then show ?case using build_round_ok [of new s M i "[]" dflt city to_float "clocks 0"] by auto
next
  case (Cons j js)
  from build_round_ok [OF Cons.prems(1-3), of j "js @ [i]" dflt city to_float "clocks (Suc (length js))"] Cons.prems(4)
  obtain s' M' where s': "build_round new dflt city to_float (clocks (Suc (length js))) s = Some s'" "ix_rep (index' (inverted s')) M'"
    "pools_ok s'" "que' (doc_pool s') = js @ [i]" "forward s' = forward s" by auto
  from Cons.IH [OF Cons.prems(1) s'(2-4)] show ?case using s'(1,5) by simp
qed


text \<open>When the forward index refuses the profile, the handler still answers success: the error status is overwritten.\<close>

theorem add_story_hides_failure:
  assumes "\<not> full (doc_pool s)" "write_fails (forward s) (city (sp_story_id p))"
  shows "\<exists>s'. add_story city sser now s p = (SMS_OK, s') \<and> forward s' = forward s"
  using assms by (auto simp: add_story_def AddStory_def IndexBuildThread_AddStory_def BackupStory_def TryPut_def TryPutInternal_def
      AddProfile_def LocalDict_Put_def split: prod.splits)

section \<open>Witnesses\<close>

definition sample_service :: "unit service" where
  "sample_service = \<lparr>doc_pool = \<lparr>capacity' = 10, que' = [\<lparr>item' = sample_page, timestamp' = 3, timeout' = 0\<rparr>], default_timeout' = 0\<rparr>,
     log_pool = \<lparr>capacity' = 10, que' = [], default_timeout' = 0\<rparr>, inverted = newInstantIndex,
     forward = \<lparr>contents = Map.empty, read_fails = (\<lambda>_. False), write_fails = (\<lambda>k. k = 9)\<rparr>,
     log_writer = newReplayLogWriterThread 200 900, log_files = Map.empty\<rparr>"


theorem add_story_hides_failure_witness:
  "\<exists>s'. add_story (\<lambda>_. 9) sample_sser 7 sample_service sample_page = (SMS_OK, s') \<and> forward s' = forward sample_service"
  by (rule add_story_hides_failure) (simp_all add: sample_service_def full_def)

end
