(* ===== verification/Hash_Ring.thy ===== *)
theory Hash_Ring
  imports Util Std_Map
begin

text \<open>
  \<^verbatim>\<open>src/redis_cluster.cc\<close>: the consistent-hash ring that assigns keys to redis servers, and
  the choice of a live client for a key. The ring is a \<^verbatim>\<open>std::map\<close>.
  \<open>hash\<close> stands for CityHash32 on a C string. The number of a replica is printed
  into a buffer of 10 bytes, so at most 9 digits survive.
\<close>

record Node =
  node_name :: bytes
  replicas :: "32 word"

type_synonym ring = "(32 word, Node) smap"

definition ToString :: "nat \<Rightarrow> bytes" where
  "ToString r = take 9 (dec r)"

definition point :: "(bytes \<Rightarrow> 32 word) \<Rightarrow> bytes \<Rightarrow> nat \<Rightarrow> 32 word" where
  "point hash name r = hash (takeWhile (\<lambda>c. c \<noteq> 0) (name @ ToString r))"

definition AddNode :: "(bytes \<Rightarrow> 32 word) \<Rightarrow> ring \<Rightarrow> bytes \<Rightarrow> 32 word \<Rightarrow> ring" where
  "AddNode hash rs name reps =
     fold (\<lambda>r rs. smap_put (point hash name r) \<lparr>node_name = name, replicas = reps\<rparr> rs) [0..<unat reps] rs"

text \<open>
  \<^verbatim>\<open>ring_[hash]\<close> in \<^verbatim>\<open>RemoveNode\<close> inserts an empty entry when there is none, with a
  replica count of zero.
\<close>

definition ring_at :: "32 word \<Rightarrow> ring \<Rightarrow> Node \<times> ring" where
  "ring_at h rs =
     (case map_of rs h of
        Some n \<Rightarrow> (n, rs)
      | None \<Rightarrow> (let n = \<lparr>node_name = [], replicas = 0\<rparr> in (n, smap_put h n rs)))"

definition RemoveNode :: "(bytes \<Rightarrow> 32 word) \<Rightarrow> ring \<Rightarrow> bytes \<Rightarrow> ring" where
  "RemoveNode hash rs name =
     (let (n, rs) = ring_at (point hash name 0) rs
      in fold (\<lambda>r rs. smap_erase (point hash name r) rs) [0..<unat (replicas n)] rs)"

text \<open>\<open>None\<close>: an empty ring, whose \<^verbatim>\<open>begin()\<close> must not be dereferenced.\<close>

definition GetNode :: "(bytes \<Rightarrow> 32 word) \<Rightarrow> ring \<Rightarrow> bytes \<Rightarrow> bytes option" where
  "GetNode hash rs key =
     (let h = hash (takeWhile (\<lambda>c. c \<noteq> 0) key) in
      case find (\<lambda>x. h \<le> fst x) rs of
        Some x \<Rightarrow> Some (node_name (snd x))
      | None \<Rightarrow> (case rs of [] \<Rightarrow> None | x # _ \<Rightarrow> Some (node_name (snd x))))"

section \<open>Choosing a client\<close>

text \<open>The answers of the servers to \<^verbatim>\<open>Ping\<close> and \<^verbatim>\<open>Reconnect\<close>; a NULL slave is \<open>None\<close>.\<close>

record client =
  ping :: bool
  reconnect :: bool
  reconnect_again :: bool

record server =
  master :: client
  slave :: "client option"

datatype which = Master | Slave

text \<open>
  \<open>try_server\<close> is the part under the mutex of the server: the outcome and the client left in
  \<^verbatim>\<open>*client\<close>, or \<open>None\<close> when a NULL slave is dereferenced. \<open>reconnect_again\<close> is the answer to
  a second \<^verbatim>\<open>Reconnect\<close> on the same client.
\<close>

definition try_server :: "bool \<Rightarrow> server \<Rightarrow> (bool \<times> which) option" where
  "try_server is_open_slave sv =
     (if ping (master sv) then Some (True, Master)
      else if reconnect (master sv) then Some (True, Master)
      else if is_open_slave then
        (case slave sv of
           None \<Rightarrow> None
         | Some c \<Rightarrow>
             if ping c then Some (True, Slave)
             else if reconnect c then Some (True, Slave)
             else Some (False, Slave))
      else if reconnect_again (master sv) then Some (True, Master)
      else Some (False, Master))"

definition GetRedisNode ::
    "(bytes \<Rightarrow> 32 word) \<Rightarrow> ring \<Rightarrow> (bytes \<rightharpoonup> server) \<Rightarrow> bool \<Rightarrow> bytes \<Rightarrow> (bool \<times> bytes \<times> which) option" where
  "GetRedisNode hash rs servers is_open_slave key =
     (case GetNode hash rs key of
        None \<Rightarrow> None
      | Some name \<Rightarrow>
          (case servers name of
             None \<Rightarrow> None
           | Some sv \<Rightarrow> map_option (\<lambda>(ok, w). (ok, name, w)) (try_server is_open_slave sv)))"

section \<open>Lookup on a sorted ring\<close>

text \<open>The owner of a hash value: the least point at or above it, or the least point.\<close>

definition succ_point :: "32 word set \<Rightarrow> 32 word \<Rightarrow> 32 word" where
  "succ_point P h = (if \<exists>p \<in> P. h \<le> p then Min {p \<in> P. h \<le> p} else Min P)"

lemma find_sorted:
  assumes "smap_ok rs"
  shows "find (\<lambda>x. h \<le> fst x) rs =
    (if \<exists>p \<in> fst ` set rs. h \<le> p
     then map_option (\<lambda>n. (Min {p \<in> fst ` set rs. h \<le> p}, n)) (map_of rs (Min {p \<in> fst ` set rs. h \<le> p}))
     else None)"
  using assms
proof (induction rs)
  case (Cons x rs)
  obtain k n where x: "x = (k, n)" by force
  have lt: "\<forall>p \<in> fst ` set rs. k < p" and ok: "smap_ok rs" using Cons.prems by (auto simp: smap_ok_def x)
  show ?case
  proof (cases "h \<le> k")
    case True
    have "Min {p \<in> insert k (fst ` set rs). h \<le> p} = k"
      by (rule Min_eqI) (use True lt in \<open>auto intro: less_imp_le\<close>)
    then show ?thesis using True by (auto simp: x)
  next
    case False
    then have "{p \<in> fst ` set (x # rs). h \<le> p} = {p \<in> fst ` set rs. h \<le> p}" by (auto simp: x)
    moreover have "Min {p \<in> fst ` set rs. h \<le> p} \<noteq> k" if ex: "\<exists>p \<in> fst ` set rs. h \<le> p"
    proof -
      have "Min {p \<in> fst ` set rs. h \<le> p} \<in> {p \<in> fst ` set rs. h \<le> p}" by (rule Min_in) (use ex in auto)
      then have "h \<le> Min {p \<in> fst ` set rs. h \<le> p}" by blast
      then show ?thesis using False by metis
    qed
    ultimately show ?thesis using Cons.IH [OF ok] False by (auto simp: x)
  qed
qed simp

lemma hd_Min: "smap_ok ((k, n) # rs) \<Longrightarrow> Min (fst ` set ((k, n) # rs)) = k"
  by (rule Min_eqI) (auto simp: smap_ok_def intro: less_imp_le)

lemma GetNode_owner:
  assumes "smap_ok rs" "rs \<noteq> []"
  shows "GetNode hash rs key = map_option node_name
    (map_of rs (succ_point (fst ` set rs) (hash (takeWhile (\<lambda>c. c \<noteq> 0) key))))"
proof -
  let ?h = "hash (takeWhile (\<lambda>c. c \<noteq> 0) key)"
  obtain k n rs' where rs: "rs = (k, n) # rs'" using assms(2) by (cases rs) auto
  show ?thesis
  proof (cases "\<exists>p \<in> fst ` set rs. ?h \<le> p")
    case True
    have "Min {p \<in> fst ` set rs. ?h \<le> p} \<in> fst ` set rs"
      using Min_in [of "{p \<in> fst ` set rs. ?h \<le> p}"] True by auto
    then obtain m where "map_of rs (Min {p \<in> fst ` set rs. ?h \<le> p}) = Some m"
      by (cases "map_of rs (Min {p \<in> fst ` set rs. ?h \<le> p})") (simp_all add: map_of_eq_None_iff)
    then show ?thesis using find_sorted [OF assms(1), of ?h] True
      by (simp add: GetNode_def Let_def succ_point_def)
  next
    case False
    then have "find (\<lambda>x. ?h \<le> fst x) rs = None" using find_sorted [OF assms(1), of ?h] by auto
    moreover have "succ_point (fst ` set rs) ?h = k"
      using False hd_Min [of k n rs'] assms(1) rs by (auto simp: succ_point_def)
    ultimately show ?thesis by (simp add: GetNode_def Let_def rs)
  qed
qed

text \<open>A new point takes over the keys between its predecessor and itself, and no others.\<close>

lemma succ_point_insert:
  assumes "finite P" "P \<noteq> {}"
  shows "succ_point (insert q P) h = succ_point P h \<or> succ_point (insert q P) h = q"
proof (cases "\<exists>p \<in> P. h \<le> p")
  case True
  let ?S = "{p \<in> P. h \<le> p}"
  have S: "finite ?S" "?S \<noteq> {}" using assms True by auto
  show ?thesis
  proof (cases "h \<le> q")
    case h: True
    then have "{p \<in> insert q P. h \<le> p} = insert q ?S" by auto
    then have "succ_point (insert q P) h = min q (Min ?S)"
      using True S by (auto simp: succ_point_def Min_insert)
    then show ?thesis using True by (auto simp: succ_point_def min_def)
  next
    case False
    then have "{p \<in> insert q P. h \<le> p} = ?S" by auto
    then show ?thesis using True by (auto simp: succ_point_def)
  qed
next
  case False
  show ?thesis
  proof (cases "h \<le> q")
    case True
    then have "{p \<in> insert q P. h \<le> p} = {q}" using False by auto
    then show ?thesis using True by (auto simp: succ_point_def)
  next
    case h: False
    then have "succ_point (insert q P) h = min q (Min P)"
      using False assms by (auto simp: succ_point_def Min_insert)
    then show ?thesis using False by (auto simp: succ_point_def min_def)
  qed
qed

lemma ring_put_GetNode:
  assumes "smap_ok rs" "rs \<noteq> []"
  shows "GetNode hash (smap_put p n rs) key = GetNode hash rs key \<or>
    GetNode hash (smap_put p n rs) key = Some (node_name n)"
proof -
  let ?h = "hash (takeWhile (\<lambda>c. c \<noteq> 0) key)"
  have ne: "smap_put p n rs \<noteq> []" by (rule smap_put_ne)
  have "succ_point (insert p (fst ` set rs)) ?h = succ_point (fst ` set rs) ?h \<or>
      succ_point (insert p (fst ` set rs)) ?h = p"
    using assms(2) by (intro succ_point_insert) auto
  then show ?thesis
    using GetNode_owner [OF smap_put_ok [OF assms(1)] ne, of hash key] GetNode_owner [OF assms, of hash key]
    by (auto simp: smap_put_keys smap_put_map_of [OF assms(1)])
qed

section \<open>Adding and removing a server\<close>

lemma AddNode_fold:
  assumes "smap_ok rs" "rs \<noteq> []"
  shows "let rs' = fold (\<lambda>r rs. smap_put (f r) n rs) is rs in
    smap_ok rs' \<and> rs' \<noteq> [] \<and> (GetNode hash rs' key = GetNode hash rs key \<or> GetNode hash rs' key = Some (node_name n))"
  using assms
proof (induction "is" arbitrary: rs)
  case (Cons i "is")
  have "smap_ok (smap_put (f i) n rs)" using Cons.prems(1) by (rule smap_put_ok)
  from Cons.IH [OF this smap_put_ne] ring_put_GetNode [OF Cons.prems, of hash "f i" n key]
  show ?case by (auto simp: Let_def)
qed simp

text \<open>
  C38: Adding a server to a ring that has one leaves every key with its server or gives it to
  the new server: no key moves between two old servers.
\<close>

theorem AddNode_moves_only_to_new:
  assumes "smap_ok rs" "rs \<noteq> []"
  shows "smap_ok (AddNode hash rs name reps) \<and>
    (\<forall>key. GetNode hash (AddNode hash rs name reps) key \<in> {GetNode hash rs key, Some name})"
  using AddNode_fold [OF assms, where f = "point hash name" and n = "\<lparr>node_name = name, replicas = reps\<rparr>"]
  by (auto simp: AddNode_def Let_def)

text \<open>
  Removing a server that was added with at least one replica, on points no other server had, gives the
  ring back as it was.
\<close>

theorem RemoveNode_AddNode:
  assumes "smap_ok rs" "0 < reps" "\<forall>r < unat reps. point hash name r \<notin> fst ` set rs"
  shows "RemoveNode hash (AddNode hash rs name reps) name = rs"
proof -
  let ?n = "\<lparr>node_name = name, replicas = reps\<rparr>" and ?P = "point hash name ` {0..<unat reps}"
  let ?rs = "AddNode hash rs name reps"
  have ok: "smap_ok ?rs" and m: "map_of ?rs = (\<lambda>p. if p \<in> ?P then Some ?n else map_of rs p)"
    using fold_put_map_of [OF assms(1), of "point hash name" ?n "[0..<unat reps]"]
    by (simp_all add: AddNode_def)
  have "0 < unat reps" using assms(2) by (simp add: word_less_nat_alt)
  then have "map_of ?rs (point hash name 0) = Some ?n" by (auto simp: m)
  then have r: "RemoveNode hash ?rs name = filter (\<lambda>x. fst x \<notin> ?P) ?rs"
    by (simp add: RemoveNode_def ring_at_def fold_erase)
  have "map_of rs p = None" if "p \<in> ?P" for p using that assms(3) by (auto simp: map_of_eq_None_iff)
  then have "map_of (filter (\<lambda>x. fst x \<notin> ?P) ?rs) = map_of rs" by (auto simp: map_of_filter_key m fun_eq_iff)
  then show ?thesis unfolding r by (intro smap_ext smap_ok_filter ok assms(1))
qed

text \<open>
  Removing a server that is not in the ring inserts a point with an empty name, to which keys are then
  assigned.
\<close>

theorem RemoveNode_unknown:
  assumes "smap_ok rs" "point hash name 0 \<notin> fst ` set rs"
  shows "map_of (RemoveNode hash rs name) (point hash name 0) = Some \<lparr>node_name = [], replicas = 0\<rparr> \<and>
    GetNode hash (RemoveNode hash rs name) (name @ ToString 0) = Some []"
proof -
  let ?p = "point hash name 0" and ?n = "\<lparr>node_name = [], replicas = 0\<rparr>"
  have none: "map_of rs ?p = None" using assms(2) by (auto simp: map_of_eq_None_iff)
  then have e: "RemoveNode hash rs name = smap_put ?p ?n rs"
    by (simp add: RemoveNode_def ring_at_def Let_def)
  have "succ_point (fst ` set (smap_put ?p ?n rs)) ?p = ?p"
    by (auto simp: succ_point_def smap_put_keys intro!: Min_eqI)
  then show ?thesis
    using GetNode_owner [OF smap_put_ok [OF assms(1)] smap_put_ne, of hash ?p ?n "name @ ToString 0"]
    by (simp add: e smap_put_map_of [OF assms(1)] point_def)
qed

text \<open>A client handed out belongs to the server the ring gives, and answered a ping or a reconnect.\<close>

theorem GetRedisNode_live:
  assumes "GetRedisNode hash rs servers is_open_slave key = Some (True, name, w)"
  shows "GetNode hash rs key = Some name \<and>
    (\<exists>sv. servers name = Some sv \<and>
      (case w of
         Master \<Rightarrow> ping (master sv) \<or> reconnect (master sv) \<or> reconnect_again (master sv)
       | Slave \<Rightarrow> is_open_slave \<and> \<not> ping (master sv) \<and> (\<exists>c. slave sv = Some c \<and> (ping c \<or> reconnect c))))"
  using assms by (auto simp: GetRedisNode_def try_server_def split: option.splits if_splits)

lemma dec_small: "n < 10 \<Longrightarrow> dec n = [digit n]"
  by (subst dec.simps) simp

definition sample_ring :: ring where
  "sample_ring = AddNode (\<lambda>bs. word_of_nat (length bs)) [] [104] 1"

lemma sample_ring_eq: "sample_ring = [(2, \<lparr>node_name = [104], replicas = 1\<rparr>)]"
  by (simp add: sample_ring_def AddNode_def point_def ToString_def dec_small digit_def)

theorem AddNode_moves_only_to_new_witness:
  "\<forall>key. GetNode (\<lambda>bs. word_of_nat (length bs)) (AddNode (\<lambda>bs. word_of_nat (length bs)) sample_ring [104, 105] 2) key
     \<in> {GetNode (\<lambda>bs. word_of_nat (length bs)) sample_ring key, Some [104, 105]}"
  using AddNode_moves_only_to_new [of sample_ring "\<lambda>bs. word_of_nat (length bs)" "[104, 105]" 2]
  by (simp add: sample_ring_eq smap_ok_def)

theorem RemoveNode_AddNode_witness:
  "RemoveNode (\<lambda>bs. word_of_nat (length bs)) (AddNode (\<lambda>bs. word_of_nat (length bs)) sample_ring [104, 105] 2) [104, 105]
     = sample_ring"
proof (rule RemoveNode_AddNode)
  have "point (\<lambda>bs. word_of_nat (length bs)) [104, 105] r \<notin> fst ` set sample_ring" if "r < 2" for r
    using that by (auto simp: less_2_cases_iff sample_ring_eq point_def ToString_def dec_small digit_def)
  then show "\<forall>r<unat (2::32 word). point (\<lambda>bs. word_of_nat (length bs)) [104, 105] r \<notin> fst ` set sample_ring"
    by simp
qed (simp_all add: sample_ring_eq smap_ok_def)

theorem RemoveNode_unknown_witness:
  "GetNode (\<lambda>bs. word_of_nat (length bs)) (RemoveNode (\<lambda>bs. word_of_nat (length bs)) sample_ring [104, 105]) ([104, 105] @ ToString 0) = Some []"
  using RemoveNode_unknown [of sample_ring "\<lambda>bs. word_of_nat (length bs)" "[104, 105]"]
  by (simp add: sample_ring_eq smap_ok_def point_def ToString_def dec_small digit_def)

theorem GetRedisNode_live_witness:
  "GetNode (\<lambda>bs. word_of_nat (length bs)) sample_ring [1] = Some [104]"
  using GetRedisNode_live [of "\<lambda>bs. word_of_nat (length bs)" sample_ring
    "[[104] \<mapsto> \<lparr>master = \<lparr>ping = True, reconnect = False, reconnect_again = False\<rparr>, slave = None\<rparr>]" False "[1]" "[104]" Master]
  by (simp add: sample_ring_eq GetRedisNode_def try_server_def GetNode_def)

end
