(* ===== verification/Spec2Isabelle.thy ===== *)
theory Spec2Isabelle
  imports Endian Adlist Dict_Iter Rand48 Intset Sds_Args Rdb Pubsub Keys T_Set Client_Server Story_Management Hash_Ring Recomm_Handler
begin

text \<open>
  Verification of the recommendation engine and of the redis server it ships with.

  \<^bold>\<open>The program.\<close> The engine of \<^verbatim>\<open>src/src\<close> answers queries for stories. A query
  (\<^verbatim>\<open>recomm_engine_handler.cc\<close>) reads the profile of the user, which is kept in redis servers chosen by a
  consistent-hash ring (\<^verbatim>\<open>user_profile_storage.cc\<close>, \<^verbatim>\<open>redis_cluster.cc\<close>), lets the retrieval
  (\<^verbatim>\<open>retrieval/\<close>) intersect and rank the keywords in the instant index (\<^verbatim>\<open>indexing/\<close>), looks up the
  stories in the forward index (\<^verbatim>\<open>story_profile_storage.cc\<close>), drops what the user has read, and has a plugin of the
  user's bucket (\<^verbatim>\<open>algo_plugin_manager.cc\<close>) order the rest. Stories arrive through
  \<^verbatim>\<open>story_management_handler.cc\<close>, which stores the profile and puts the story into the queues
  (\<^verbatim>\<open>util/containers/\<close>) of the index builder and of the writer of the replay log; a cleaner marks and clears old
  postings, and after a restart the log is replayed. The engine talks to redis through the hiredis library
  (\<^verbatim>\<open>src/src/hiredis\<close>); the server is the one of \<^verbatim>\<open>src/debug/redis/src\<close>.

  \<^bold>\<open>The theories of the engine.\<close>
  \<^item> \<open>PC_Queue\<close> (\<^verbatim>\<open>producer_consumer_queue.h\<close>): the bounded queue with timeouts, its operations under the mutex as
    steps; the waits are the absence of a step. First in, first out, without loss but for the timeouts.
  \<^item> \<open>Lockless_List\<close>, \<open>Posting\<close> (\<^verbatim>\<open>lockless_list.h\<close>, \<^verbatim>\<open>posting.cc\<close>, \<^verbatim>\<open>iterator.cc\<close>): lists of cells
    in a heap, with the two stores of \<open>PushFront\<close> as separate steps. The posting list refines a list sorted by age, of which
    marking hides and clearing removes the old end; the race of a push with an erasure is exhibited.
  \<^item> \<open>Instant_Index\<close> (\<^verbatim>\<open>instant_index.cc\<close>, \<^verbatim>\<open>index_build_thread.cc\<close>, \<^verbatim>\<open>clean_old_story_thread.cc\<close>): adding, marking,
    clearing, lookup and translation of identifiers. Every document of the index can be translated in every reachable state, and a
    cleaning round removes exactly the old documents.
  \<^item> \<open>Replay_Log\<close> (\<^verbatim>\<open>replay_log_writer_thread.cc\<close>, \<open>Replay\<close>, \<^verbatim>\<open>str_util.cc\<close>): no story younger than the cleaning
    interval is lost by rotation, removal of files and replay.
  \<^item> \<open>Story_Management\<close> (\<^verbatim>\<open>story_management_handler.cc\<close>): a story that is added is found under its keywords after a round of the
    builder, is in the log, and its profile is in the forward index.
  \<^item> \<open>Retrieval\<close> (\<^verbatim>\<open>index_reader.cpp\<close>, \<^verbatim>\<open>ranker.cpp\<close>, \<^verbatim>\<open>result_set.h\<close>, \<^verbatim>\<open>retrieval_handler.cpp\<close>): the best
    documents of the intersection, in the order of the scores. Scores are values of a linear order given as a parameter.
  \<^item> \<open>Std_Map\<close>, \<open>Hash_Ring\<close>, \<open>User_Profile\<close>, \<open>Algo_Plugin\<close>, \<open>Recomm_Handler\<close>: the ring and the choice of a live server,
    the profiles, the double-buffered plugin table, the forward index and the query itself with all its response codes.

  \<^bold>\<open>The theories of redis.\<close>
  \<^item> Data structures: \<open>Adlist\<close> over a store of nodes, \<open>Dict\<close>, \<open>Dict_Iter\<close> and \<open>Dict_Hash\<close> (chained hash table with incremental
    rehashing, iterators, hash functions), \<open>Intset\<close> (a byte array that is widened on demand), \<open>Sds\<close> and \<open>Sds_Args\<close>
    (strings, quoting). Each refines the list, map, set or string it stands for, over arbitrary runs of operations.
  \<^item> Conversions and checksums: \<open>Endian\<close>, \<open>Rand48\<close>, \<open>Util\<close>, \<open>Glob\<close>, \<open>Crc64\<close>, \<open>Lzf\<close>. They are compared with
    reference definitions: the linear congruence, decimal notation, the matching relation of patterns, division of
    polynomials, and the format of compressed strings, given as an inductive relation.
  \<^item> Values and commands: \<open>Redis_Object\<close> (string objects), \<open>Keyspace\<close> and \<open>Keys\<close> (databases, expiry, generic commands),
    \<open>T_String\<close>, \<open>Bitops\<close>, \<open>Set_Type\<close> and \<open>T_Set\<close>. A command is a function from the server and the selected database to \<open>None\<close> (a
    failed assertion) or to the new server and the reply. Objects of other types than strings are opaque to the key space; \<open>T_Set\<close> puts
    sets there, which change between the integer set and the hash table, and relates the set commands to the algebra of sets of strings.
  \<^item> Transactions and messages: \<open>Multi\<close> (\<^verbatim>\<open>multi.c\<close> and \<^verbatim>\<open>processCommand\<close>), \<open>Commands\<close> (the command table), \<open>Pubsub\<close>.
    In every run of events no assertion fails, \<^verbatim>\<open>EXEC\<close> runs the queue, and it does so only if no watched key was changed.
  \<^item> Connections: \<open>Networking\<close> (request parser), \<open>Output_Buffer\<close> (replies and the write handler), \<open>Hiredis\<close> and \<open>Hiredis_Reader\<close>
    (the client's formatter and its reply reader), \<open>Client_Server\<close> (all of it together: a client gets the replies to its commands,
    whatever the network does to the boundaries of the packets).
  \<^item> Dump files: \<open>Rdb_Format\<close> and \<open>Rdb\<close> (\<^verbatim>\<open>rdb.c\<close> over \<^verbatim>\<open>rio.c\<close>): what is saved is loaded.

  \<open>Prelude\<close> has the machine types, little-endian byte sequences and shared lemmas. Interfaces are locales, each interpreted on
  the definitions of the model: \<open>map_store\<close> (\<open>Dict\<close>), \<open>set_store\<close> (\<open>Intset\<close>, \<open>Set_Type\<close>), \<open>append_buffer\<close> (\<open>Sds\<close>), \<open>hash_for_compare\<close>
  (\<open>Dict_Hash\<close>), \<open>byte_toggle\<close> (\<open>Endian\<close>), \<open>aging_list\<close> (\<open>Posting\<close>) and \<open>command_table\<close> (\<open>Multi\<close>, interpreted in \<open>Commands\<close>).

  \<^bold>\<open>Conventions.\<close> Structures are records with the names of the fields, operations keep the names of the functions. Integers
  have their width (\<open>32 word\<close>, \<open>64 word\<close>) or are integers with the wrap-around written out; \<^verbatim>\<open>long long\<close> values are integers
  that satisfy \<open>is_ll\<close>. \<open>None\<close> in the outermost option is a failed assertion, a panic or an access outside of a buffer; the
  errors that the code reports are values. What the code does not determine is a parameter: the clock, the order in which an
  iterator delivers keys, the contents of uninitialised memory, the sizes that the network returns, the outcomes of writes. Code
  that is not in the repository (leveldb, thrift, dlopen) is a parameter with its contract as hypothesis.

  \<^bold>\<open>Loops.\<close> Loops are recursive functions with a termination proof where a measure exists: the compressor and the decompressor
  advance in the input, the loader of a dump consumes the file, the matcher consumes pattern or text. Where the code loops over a
  mutable state, fuel is used and shown to be enough: \<open>processInputBuffer\<close> has one more than the length of the query buffer, since
  each request takes a byte; the items of a reply one more than the unread bytes; \<open>send_loop\<close> one more than the bytes and chunks
  that are queued; the loops over cells of a heap the number of cells. The theorems state that the result is \<open>Some\<close>.

  \<^bold>\<open>Not modelled.\<close> The service shells (\<^verbatim>\<open>server.cpp\<close>, the monitor, \<^verbatim>\<open>retrieval/asynchronous\<close>, \<^verbatim>\<open>util/base\<close>,
  \<^verbatim>\<open>redispp.cc\<close>), which set up threads, sockets and thrift servers; the asynchronous and connecting parts of hiredis; the
  vendored headers (glog, gflags, thrift, leveldb, boost) and the Python tools. Of redis: the event loop and the system call
  wrappers; replication, sentinel and the append only file, which are dominated by sockets, files and processes; scripting,
  which needs Lua; lists, hashes, sorted sets and \<^verbatim>\<open>SORT\<close>, whose commands need the ziplist encodings and floating point
  scores, and with them their dump formats; start-up, configuration, \<^verbatim>\<open>INFO\<close>, eviction and the command line tools. In the
  modelled parts reference counts, memory statistics and logging are left out.
\<close>

end
